(* ===== verification/Prelude.thy ===== *)
theory Prelude
  imports Main "HOL-Library.Char_ord" "HOL-Library.List_Lexorder"
begin

text \<open>
  Shared vocabulary of the development: results of fallible code as a sum type with its
  bind, folds that stop at the first error, sums and counts over table rows, and the string
  operations of the Rust standard library that the code uses. A Rust \<open>str\<close> is its UTF-8
  bytes, so \<open>string\<close> (a list of 8-bit characters) is read as bytes and \<open>length\<close> is the
  \<open>len()\<close> of the source.
\<close>

named_theorems result_simps "rewriting of successful and failed results"
named_theorems table_simps "lookups and sums over table rows"

section \<open>Results\<close>

text \<open>\<open>Inl\<close> is \<open>Err\<close> and \<open>Inr\<close> is \<open>Ok\<close>; \<open>rbind\<close> is the question mark operator.\<close>

definition rbind :: "'e + 'a \<Rightarrow> ('a \<Rightarrow> 'e + 'b) \<Rightarrow> 'e + 'b" where
  "rbind m f = (case m of Inl e \<Rightarrow> Inl e | Inr x \<Rightarrow> f x)"

definition ok_or :: "'e \<Rightarrow> 'a option \<Rightarrow> 'e + 'a" where
  "ok_or e x = (case x of None \<Rightarrow> Inl e | Some y \<Rightarrow> Inr y)"

definition ensure :: "bool \<Rightarrow> 'e \<Rightarrow> 'e + unit" where
  "ensure b e = (if b then Inr () else Inl e)"

definition map_err :: "('e \<Rightarrow> 'f) \<Rightarrow> 'e + 'a \<Rightarrow> 'f + 'a" where
  "map_err f m = (case m of Inl e \<Rightarrow> Inl (f e) | Inr x \<Rightarrow> Inr x)"

fun rfold :: "('a \<Rightarrow> 's \<Rightarrow> 'e + 's) \<Rightarrow> 'a list \<Rightarrow> 's \<Rightarrow> 'e + 's" where
  "rfold f [] s = Inr s"
| "rfold f (x # xs) s = rbind (f x s) (rfold f xs)"

lemma rbind_Inr [simp, result_simps]: "rbind (Inr x) f = f x"
  by (simp add: rbind_def)

lemma rbind_Inl [simp, result_simps]: "rbind (Inl e) f = Inl e"
  by (simp add: rbind_def)

lemma rbind_eq_Inr [result_simps]: "rbind m f = Inr y \<longleftrightarrow> (\<exists>x. m = Inr x \<and> f x = Inr y)"
  by (cases m) auto

lemma rbind_eq_Inl [result_simps]:
  "rbind m f = Inl e \<longleftrightarrow> m = Inl e \<or> (\<exists>x. m = Inr x \<and> f x = Inl e)"
  by (cases m) auto

lemma rbindE: "rbind m f = Inr y \<Longrightarrow> (\<And>x. m = Inr x \<Longrightarrow> f x = Inr y \<Longrightarrow> thesis) \<Longrightarrow> thesis"
  by (auto simp: rbind_eq_Inr)

lemma ok_or_eq_Inr [simp, result_simps]: "ok_or e x = Inr y \<longleftrightarrow> x = Some y"
  by (simp add: ok_or_def split: option.splits)

lemma ok_or_eq_Inl [simp, result_simps]: "ok_or e x = Inl e' \<longleftrightarrow> x = None \<and> e' = e"
  by (auto simp: ok_or_def split: option.splits)

lemma ok_or_Some [simp]: "ok_or e (Some x) = Inr x"
  by (simp add: ok_or_def)

lemma ok_or_None [simp]: "ok_or e None = Inl e"
  by (simp add: ok_or_def)

lemma ensure_eq_Inr [simp, result_simps]: "ensure b e = Inr u \<longleftrightarrow> b"
  by (simp add: ensure_def)

lemma ensure_eq_Inl [simp, result_simps]: "ensure b e = Inl e' \<longleftrightarrow> \<not> b \<and> e' = e"
  by (auto simp: ensure_def)

lemma ensure_True [simp]: "ensure True e = Inr ()"
  by (simp add: ensure_def)

lemma ensure_False [simp]: "ensure False e = Inl e"
  by (simp add: ensure_def)

lemma map_err_eq_Inr [simp, result_simps]: "map_err f m = Inr y \<longleftrightarrow> m = Inr y"
  by (cases m) (auto simp: map_err_def)

lemma map_err_eq_Inl [result_simps]: "map_err f m = Inl e \<longleftrightarrow> (\<exists>e'. m = Inl e' \<and> e = f e')"
  by (cases m) (auto simp: map_err_def)

lemma map_err_Inr [simp]: "map_err f (Inr x) = Inr x"
  by (simp add: map_err_def)

lemma map_err_Inl [simp]: "map_err f (Inl e) = Inl (f e)"
  by (simp add: map_err_def)

text \<open>An invariant every step keeps is kept by the fold.\<close>

lemma rfold_invariant:
  assumes "rfold f xs s = Inr t" and "P s"
    and "\<And>x s t. x \<in> set xs \<Longrightarrow> P s \<Longrightarrow> f x s = Inr t \<Longrightarrow> P t"
  shows "P t"
  using assms
proof (induction xs arbitrary: s)
  case Nil
  then show ?case by simp
next
  case (Cons x xs)
  then obtain u where u: "f x s = Inr u" "rfold f xs u = Inr t"
    by (auto simp: rbind_eq_Inr)
  have "P u" by (rule Cons.prems(3) [OF _ Cons.prems(2) u(1)]) simp
  then show ?case
  proof (rule Cons.IH [OF u(2)])
    show "P t'" if "y \<in> set xs" "P s'" "f y s' = Inr t'" for y s' t'
      by (rule Cons.prems(3) [of y, OF _ that(2,3)]) (simp add: that(1))
  qed
qed

section \<open>Rows\<close>

text \<open>Lookups by key, and sums over the rows a query selects.\<close>

lemma find_Some_set: "find P xs = Some x \<Longrightarrow> x \<in> set xs \<and> P x"
  by (auto simp: find_Some_iff)

lemma find_None_set: "find P xs = None \<longleftrightarrow> (\<forall>x\<in>set xs. \<not> P x)"
  by (auto simp: find_None_iff)

lemma find_distinct_key [table_simps]:
  "distinct (map k xs) \<Longrightarrow> x \<in> set xs \<Longrightarrow> find (\<lambda>y. k y = k x) xs = Some x"
  by (induction xs) (auto simp: image_iff)

lemma distinct_key_eq:
  "distinct (map k xs) \<Longrightarrow> x \<in> set xs \<Longrightarrow> y \<in> set xs \<Longrightarrow> k x = k y \<Longrightarrow> x = y"
  by (induction xs) (auto simp: image_iff)

definition sum_rows :: "('a \<Rightarrow> int) \<Rightarrow> 'a list \<Rightarrow> int" where
  "sum_rows f xs = sum_list (map f xs)"

definition count_rows :: "('a \<Rightarrow> bool) \<Rightarrow> 'a list \<Rightarrow> int" where
  "count_rows P xs = int (length (filter P xs))"

lemma sum_rows_Nil [simp, table_simps]: "sum_rows f [] = 0"
  by (simp add: sum_rows_def)

lemma sum_rows_Cons [simp, table_simps]: "sum_rows f (x # xs) = f x + sum_rows f xs"
  by (simp add: sum_rows_def)

lemma sum_rows_append [simp, table_simps]: "sum_rows f (xs @ ys) = sum_rows f xs + sum_rows f ys"
  by (simp add: sum_rows_def)

lemma count_rows_Nil [simp, table_simps]: "count_rows P [] = 0"
  by (simp add: count_rows_def)

lemma count_rows_Cons [simp, table_simps]:
  "count_rows P (x # xs) = (if P x then 1 else 0) + count_rows P xs"
  by (simp add: count_rows_def)

lemma count_rows_append [simp, table_simps]:
  "count_rows P (xs @ ys) = count_rows P xs + count_rows P ys"
  by (simp add: count_rows_def)

lemma count_rows_sum: "count_rows P xs = sum_rows (\<lambda>x. if P x then 1 else 0) xs"
  by (induction xs) auto

lemma count_rows_nonneg [simp]: "0 \<le> count_rows P xs"
  by (simp add: count_rows_def)

lemma sum_rows_nonneg: "(\<And>x. x \<in> set xs \<Longrightarrow> 0 \<le> f x) \<Longrightarrow> 0 \<le> sum_rows f xs"
  by (induction xs) auto

lemma sum_rows_cong: "(\<And>x. x \<in> set xs \<Longrightarrow> f x = g x) \<Longrightarrow> sum_rows f xs = sum_rows g xs"
  by (induction xs) auto

lemma sum_rows_zero: "(\<And>x. x \<in> set xs \<Longrightarrow> f x = 0) \<Longrightarrow> sum_rows f xs = 0"
  by (induction xs) auto

lemma sum_rows_map: "sum_rows f (map g xs) = sum_rows (f \<circ> g) xs"
  by (induction xs) auto

lemma sum_rows_add: "sum_rows (\<lambda>x. f x + g x) xs = sum_rows f xs + sum_rows g xs"
  by (induction xs) auto

lemma sum_rows_minus: "sum_rows (\<lambda>x. - f x) xs = - sum_rows f xs"
  by (induction xs) auto

text \<open>An \<open>UPDATE\<close> or \<open>DELETE\<close> with a condition splits a table in two.\<close>

lemma sum_rows_partition:
  "sum_rows f xs = sum_rows f (filter P xs) + sum_rows f (filter (\<lambda>x. \<not> P x) xs)"
  by (induction xs) auto

lemma sum_rows_filter: "sum_rows f (filter P xs) = sum_rows (\<lambda>x. if P x then f x else 0) xs"
  by (induction xs) auto

lemma sum_rows_update_one:
  assumes "distinct (map k xs)" and "x \<in> set xs"
  shows "sum_rows f (map (\<lambda>y. if k y = k x then g y else y) xs)
    = sum_rows f xs + f (g x) - f x"
  using assms
proof (induction xs)
  case Nil
  then show ?case by simp
next
  case (Cons a xs)
  show ?case
  proof (cases "a = x")
    case True
    with Cons.prems have "\<And>y. y \<in> set xs \<Longrightarrow> k y \<noteq> k x"
      by (metis distinct.simps(2) image_eqI list.set_map list.simps(9))
    then have "map (\<lambda>y. if k y = k x then g y else y) xs = xs"
      by (simp cong: map_cong)
    with True show ?thesis by simp
  next
    case False
    with Cons.prems have "x \<in> set xs" "k a \<noteq> k x" by (auto simp: image_iff)
    with Cons show ?thesis by simp
  qed
qed

lemma sum_rows_remove_one:
  assumes "distinct (map k xs)" and "x \<in> set xs"
  shows "sum_rows f (filter (\<lambda>y. k y \<noteq> k x) xs) = sum_rows f xs - f x"
  using assms
proof (induction xs)
  case Nil
  then show ?case by simp
next
  case (Cons a xs)
  show ?case
  proof (cases "a = x")
    case True
    with Cons.prems have "\<And>y. y \<in> set xs \<Longrightarrow> k y \<noteq> k x"
      by (metis distinct.simps(2) image_eqI list.set_map list.simps(9))
    then have "filter (\<lambda>y. k y \<noteq> k x) xs = xs" by (simp add: filter_id_conv)
    with True show ?thesis by simp
  next
    case False
    with Cons.prems have "x \<in> set xs" "k a \<noteq> k x" by (auto simp: image_iff)
    with Cons show ?thesis by simp
  qed
qed

lemma map_key_update [simp]:
  "(\<And>y. k (g y) = k y) \<Longrightarrow> map k (map (\<lambda>y. if P y then g y else y) xs) = map k xs"
  by auto

lemma distinct_map_filterI [simp]: "distinct (map k xs) \<Longrightarrow> distinct (map k (filter P xs))"
  by (rule distinct_map_filter)

end
