(* ===== verification/Names.thy ===== *)
theory Names
  imports Prelude
begin

text \<open>
  Names and paths. \<open>NodeName\<close> and \<open>parse_path\<close> of \<open>crates/core/src/name.rs\<close>, the relative
  paths of the sync engine (\<open>crates/client/src/sync/path.rs\<close>), and the few \<open>str\<close> methods
  of the Rust standard library they are written with. Strings are UTF-8 bytes.
\<close>

section \<open>Methods of str\<close>

abbreviation slash :: char where "slash \<equiv> CHR ''/''"
abbreviation backslash :: char where "backslash \<equiv> CHR 0x5C"

text \<open>\<open>split(c)\<close> yields at least one piece, empty pieces included.\<close>

fun split_on :: "char \<Rightarrow> string \<Rightarrow> string list" where
  "split_on c [] = [[]]"
| "split_on c (x # xs) =
     (if x = c then [] # split_on c xs
      else (case split_on c xs of [] \<Rightarrow> [[x]] | s # ss \<Rightarrow> (x # s) # ss))"

fun join :: "string \<Rightarrow> string list \<Rightarrow> string" where
  "join sep [] = []"
| "join sep [x] = x"
| "join sep (x # y # zs) = x @ sep @ join sep (y # zs)"

definition rsplit_once :: "char \<Rightarrow> string \<Rightarrow> (string \<times> string) option" where
  "rsplit_once c s =
     (let k = length (takeWhile (\<lambda>x. x \<noteq> c) (rev s)) in
      if k = length s then None
      else Some (take (length s - k - 1) s, drop (length s - k) s))"

definition split_once :: "char \<Rightarrow> string \<Rightarrow> (string \<times> string) option" where
  "split_once c s =
     (if c \<in> set s
      then Some (takeWhile (\<lambda>x. x \<noteq> c) s, tl (dropWhile (\<lambda>x. x \<noteq> c) s)) else None)"

definition starts_with :: "string \<Rightarrow> string \<Rightarrow> bool" where
  "starts_with s p \<longleftrightarrow> take (length p) s = p"

definition ends_with :: "string \<Rightarrow> string \<Rightarrow> bool" where
  "ends_with s p \<longleftrightarrow> starts_with (rev s) (rev p)"

definition strip_prefix :: "string \<Rightarrow> string \<Rightarrow> string option" where
  "strip_prefix s p = (if starts_with s p then Some (drop (length p) s) else None)"

text \<open>A byte that continues a character is \<open>10xxxxxx\<close>; \<open>is_char_boundary\<close> tests for it.\<close>

definition continues :: "char \<Rightarrow> bool" where
  "continues c \<longleftrightarrow> 128 \<le> (of_char c :: nat) \<and> (of_char c :: nat) < 192"

definition is_char_boundary :: "string \<Rightarrow> nat \<Rightarrow> bool" where
  "is_char_boundary s i \<longleftrightarrow>
     i = 0 \<or> i = length s \<or> (i < length s \<and> \<not> continues (s ! i))"

text \<open>
  \<open>char::is_control\<close> holds of the code points 0 to 31 and 127 to 159, whose encodings are the
  single bytes below 32 and 127, and the pairs of the byte 194 with a byte from 128 to 159.
\<close>

definition ascii_control :: "char \<Rightarrow> bool" where
  "ascii_control c \<longleftrightarrow> (of_char c :: nat) < 32 \<or> (of_char c :: nat) = 127"

fun has_control :: "string \<Rightarrow> bool" where
  "has_control [] = False"
| "has_control [c] = ascii_control c"
| "has_control (c # d # cs) =
     (ascii_control c
      \<or> ((of_char c :: nat) = 194 \<and> 128 \<le> (of_char d :: nat) \<and> (of_char d :: nat) \<le> 159)
      \<or> has_control (d # cs))"

text \<open>The loop \<open>while !s.is_char_boundary(cut) { cut -= 1; }\<close>; 0 is always a boundary.\<close>

fun floor_boundary :: "string \<Rightarrow> nat \<Rightarrow> nat" where
  "floor_boundary s 0 = 0"
| "floor_boundary s (Suc k) = (if is_char_boundary s (Suc k) then Suc k else floor_boundary s k)"

lemma floor_boundary_le: "floor_boundary s k \<le> k"
  by (induction k) (auto intro: le_SucI)

lemma floor_boundary_boundary: "is_char_boundary s (floor_boundary s k)"
  by (induction k) (auto simp: is_char_boundary_def)

text \<open>The decimal digits of a number, as \<open>format!("{}")\<close> prints them.\<close>

fun decimal :: "nat \<Rightarrow> string" where
  "decimal n = (if n < 10 then [char_of (48 + n)] else decimal (n div 10) @ [char_of (48 + n mod 10)])"

declare decimal.simps [simp del]

definition digit_value :: "char \<Rightarrow> nat" where
  "digit_value c = of_char c - 48"

lemma digit_value_char: "d < 10 \<Longrightarrow> digit_value (char_of (48 + d)) = d"
  by (simp add: digit_value_def)

lemma decimal_value: "foldl (\<lambda>v c. 10 * v + digit_value c) 0 (decimal n) = n"
proof (induction n rule: decimal.induct)
  case (1 n)
  show ?case
  proof (cases "n < 10")
    case True
    then show ?thesis by (simp add: decimal.simps [of n] digit_value_char)
  next
    case False
    with 1 show ?thesis by (simp add: decimal.simps [of n] digit_value_char)
  qed
qed

lemma decimal_inj: "decimal m = decimal n \<Longrightarrow> m = n"
  by (metis decimal_value)

lemma decimal_length: "k < 10 ^ Suc d \<Longrightarrow> length (decimal k) \<le> Suc d"
proof (induction d arbitrary: k)
  case 0
  then show ?case by (simp add: decimal.simps [of k])
next
  case (Suc d)
  show ?case
  proof (cases "k < 10")
    case True
    then show ?thesis by (simp add: decimal.simps [of k])
  next
    case False
    have "k div 10 < 10 ^ Suc d" using Suc.prems by simp
    from Suc.IH [OF this] False show ?thesis by (simp add: decimal.simps [of k])
  qed
qed

lemma decimal_digits: "c \<in> set (decimal n) \<Longrightarrow> 48 \<le> (of_char c :: nat) \<and> (of_char c :: nat) \<le> 57"
proof (induction n rule: decimal.induct)
  case (1 n)
  have d: "48 \<le> (of_char (char_of (48 + d)) :: nat) \<and> (of_char (char_of (48 + d)) :: nat) \<le> 57" if "d < 10" for d :: nat
    using that by simp
  show ?case
  proof (cases "n < 10")
    case True
    with 1(2) d show ?thesis by (simp add: decimal.simps [of n])
  next
    case False
    with 1 d [of "n mod 10"] show ?thesis by (auto simp: decimal.simps [of n])
  qed
qed

lemma starts_with_iff: "starts_with s p \<longleftrightarrow> (\<exists>t. s = p @ t)"
  unfolding starts_with_def by (metis append_eq_conv_conj append_take_drop_id)

text \<open>\<open>trim_end\<close> drops the characters of Unicode's \<open>White_Space\<close>, here their encodings.\<close>

definition white_space :: "string list" where
  "white_space = map (map char_of)
     ([[9], [10], [11], [12], [13], [32], [194, 133], [194, 160], [225, 154, 128]]
      @ map (\<lambda>k. [226, 128, k]) ([128..<139] @ [168, 169, 175]) @ [[226, 129, 159], [227, 128, 128 :: nat]])"

function trim_front :: "string list \<Rightarrow> string \<Rightarrow> string" where
  "trim_front ws s = (case find (\<lambda>w. w \<noteq> [] \<and> starts_with s w) ws of
     None \<Rightarrow> s | Some w \<Rightarrow> trim_front ws (drop (length w) s))"
  by pat_completeness auto
termination
proof (relation "measure (\<lambda>(ws, s). length s)")
  fix ws :: "string list" and s w
  assume "find (\<lambda>w. w \<noteq> [] \<and> starts_with s w) ws = Some w"
  then have "w \<noteq> []" "starts_with s w" using find_Some_set by fastforce+
  then show "((ws, drop (length w) s), ws, s) \<in> measure (\<lambda>(ws, s). length s)"
    by (auto simp: starts_with_iff)
qed simp

declare trim_front.simps [simp del]

definition trim_end :: "string \<Rightarrow> string" where
  "trim_end s = rev (trim_front (map rev white_space) (rev s))"

definition trim :: "string \<Rightarrow> string" where
  "trim s = trim_end (trim_front white_space s)"

text \<open>\<open>chars().count()\<close> counts the bytes that begin a character.\<close>

definition char_count :: "string \<Rightarrow> nat" where
  "char_count s = length (filter (\<lambda>c. \<not> continues c) s)"

definition ascii_lower :: "char \<Rightarrow> char" where
  "ascii_lower c = (if CHR ''A'' \<le> c \<and> c \<le> CHR ''Z'' then char_of ((of_char c :: nat) + 32) else c)"

definition eq_ignore_ascii_case :: "string \<Rightarrow> string \<Rightarrow> bool" where
  "eq_ignore_ascii_case s t \<longleftrightarrow> map ascii_lower s = map ascii_lower t"

text \<open>\<open>parse::<i64>()\<close>: an optional sign and digits, within 64 bits.\<close>

definition is_digit :: "char \<Rightarrow> bool" where
  "is_digit c \<longleftrightarrow> CHR ''0'' \<le> c \<and> c \<le> CHR ''9''"

definition parse_digits :: "string \<Rightarrow> nat option" where
  "parse_digits s = (if s \<noteq> [] \<and> list_all is_digit s
     then Some (foldl (\<lambda>v c. 10 * v + digit_value c) 0 s) else None)"

definition parse_i64 :: "string \<Rightarrow> int option" where
  "parse_i64 s =
     (let (sign, digits) = (case s of
          c # cs \<Rightarrow> if c = CHR ''-'' then (- 1 :: int, cs) else if c = CHR ''+'' then (1, cs) else (1, s)
        | [] \<Rightarrow> (1, s))
      in Option.bind (parse_digits digits) (\<lambda>n.
         let v = sign * int n in if - (2 ^ 63) \<le> v \<and> v < 2 ^ 63 then Some v else None))"

lemma strip_prefix_eq_Some: "strip_prefix s p = Some t \<longleftrightarrow> s = p @ t"
  by (auto simp: strip_prefix_def starts_with_iff)

lemma split_on_not_Nil [simp]: "split_on c s \<noteq> []"
  by (induction s) (auto split: list.splits)

lemma split_on_no_sep: "c \<notin> set s \<Longrightarrow> split_on c s = [s]"
  by (induction s) auto

lemma split_on_pieces: "t \<in> set (split_on c s) \<Longrightarrow> c \<notin> set t"
  by (induction s arbitrary: t) (fastforce split: list.splits if_splits)+

lemma split_on_append: "c \<notin> set s \<Longrightarrow> split_on c (s @ c # t) = s # split_on c t"
  by (induction s) auto

lemma split_on_append_list:
  "split_on c (s @ c # t) = split_on c s @ split_on c t"
  by (induction s) (auto split: list.splits simp: neq_Nil_conv)

lemma join_split_on: "join [c] (split_on c s) = s"
proof (induction s)
  case Nil
  then show ?case by simp
next
  case (Cons x xs)
  obtain p ps where "split_on c xs = p # ps"
    by (meson neq_Nil_conv split_on_not_Nil)
  with Cons show ?case by (cases ps) auto
qed

lemma split_on_join:
  "ss \<noteq> [] \<Longrightarrow> (\<And>s. s \<in> set ss \<Longrightarrow> c \<notin> set s) \<Longrightarrow> split_on c (join [c] ss) = ss"
proof (induction ss rule: list_nonempty_induct)
  case (single x)
  then show ?case by (simp add: split_on_no_sep)
next
  case (cons x xs)
  then obtain y ys where "xs = y # ys" by (cases xs) auto
  with cons show ?case by (simp add: split_on_append)
qed

lemma split_on_inject: "split_on c s = split_on c t \<longleftrightarrow> s = t"
  by (metis join_split_on)

lemma join_append:
  "xs \<noteq> [] \<Longrightarrow> ys \<noteq> [] \<Longrightarrow> join sep (xs @ ys) = join sep xs @ sep @ join sep ys"
proof (induction xs rule: list_nonempty_induct)
  case (single x)
  then show ?case by (cases ys) auto
next
  case (cons x xs)
  then obtain y zs where "xs = y # zs" by (cases xs) auto
  with cons show ?case by simp
qed

lemma length_takeWhile_full: "length (takeWhile P xs) = length xs \<longleftrightarrow> (\<forall>x\<in>set xs. P x)"
  by (metis takeWhile_eq_all_conv takeWhile_dropWhile_id append_eq_append_conv append_Nil2)

lemma rsplit_once_None: "rsplit_once c s = None \<longleftrightarrow> c \<notin> set s"
  using length_takeWhile_full [of "\<lambda>x. x \<noteq> c" "rev s"] by (auto simp: rsplit_once_def Let_def)

lemma rsplit_once_append: "c \<notin> set t \<Longrightarrow> rsplit_once c (s @ c # t) = Some (s, t)"
proof -
  assume "c \<notin> set t"
  then have "takeWhile (\<lambda>x. x \<noteq> c) (rev (s @ c # t)) = rev t"
    using takeWhile_append2 [of "rev t" "\<lambda>x. x \<noteq> c" "c # rev s"] by auto
  then have "length (takeWhile (\<lambda>x. x \<noteq> c) (rev (s @ c # t))) = length t" by simp
  then show ?thesis by (simp add: rsplit_once_def Let_def)
qed

lemma rsplit_once_Some: "rsplit_once c s = Some (a, b) \<longleftrightarrow> s = a @ c # b \<and> c \<notin> set b"
proof
  assume r: "rsplit_once c s = Some (a, b)"
  then have "c \<in> set s" using rsplit_once_None [of c s] by force
  then obtain x y where "s = x @ c # y" "c \<notin> set y"
    by (metis split_list_last)
  with r show "s = a @ c # b \<and> c \<notin> set b" by (simp add: rsplit_once_append)
qed (simp add: rsplit_once_append)

lemma split_once_Some: "split_once c s = Some (a, b) \<longleftrightarrow> s = a @ c # b \<and> c \<notin> set a"
proof
  assume "split_once c s = Some (a, b)"
  then have c: "c \<in> set s" and ab: "a = takeWhile (\<lambda>x. x \<noteq> c) s" "b = tl (dropWhile (\<lambda>x. x \<noteq> c) s)"
    by (auto simp: split_once_def split: if_splits)
  obtain y ys where d: "dropWhile (\<lambda>x. x \<noteq> c) s = y # ys"
    using c by (cases "dropWhile (\<lambda>x. x \<noteq> c) s") (auto simp: dropWhile_eq_Nil_conv)
  then have "y = c" using hd_dropWhile [of "\<lambda>x. x \<noteq> c" s] by force
  then show "s = a @ c # b \<and> c \<notin> set a"
    using takeWhile_dropWhile_id [of "\<lambda>x. x \<noteq> c" s] d ab set_takeWhileD by fastforce
qed (auto simp: split_once_def takeWhile_append dropWhile_append)

section \<open>Node names\<close>

definition MAX_NAME_LEN :: nat where
  "MAX_NAME_LEN = 255"

datatype node_name = NodeName (as_str: string)

datatype invalid_node_name = Empty | Separator | Relative | TooLong | Control

definition node_name_from_str :: "string \<Rightarrow> invalid_node_name + node_name" where
  "node_name_from_str s =
     (if s = [] then Inl Empty
      else if length s > MAX_NAME_LEN then Inl TooLong
      else if s = ''.'' \<or> s = ''..'' then Inl Relative
      else if slash \<in> set s \<or> backslash \<in> set s then Inl Separator
      else if has_control s then Inl Control
      else Inr (NodeName s))"

text \<open>\<open>collect::<Result<Vec<_>, _>>()\<close>: the results in order, or the first error.\<close>

fun collect_results :: "('a \<Rightarrow> 'e + 'b) \<Rightarrow> 'a list \<Rightarrow> 'e + 'b list" where
  "collect_results f [] = Inr []"
| "collect_results f (x # xs) =
     rbind (f x) (\<lambda>y. rbind (collect_results f xs) (\<lambda>ys. Inr (y # ys)))"

definition parse_path :: "string \<Rightarrow> invalid_node_name + node_name list" where
  "parse_path path =
     collect_results node_name_from_str (filter (\<lambda>s. s \<noteq> []) (split_on slash path))"

definition valid_name :: "string \<Rightarrow> bool" where
  "valid_name s \<longleftrightarrow> node_name_from_str s = Inr (NodeName s)"

lemma valid_name_iff:
  "valid_name s \<longleftrightarrow> s \<noteq> [] \<and> length s \<le> MAX_NAME_LEN \<and> s \<noteq> ''.'' \<and> s \<noteq> ''..''
     \<and> slash \<notin> set s \<and> backslash \<notin> set s \<and> \<not> has_control s"
  by (auto simp: valid_name_def node_name_from_str_def)

lemma node_name_from_str_eq_Inr:
  "node_name_from_str s = Inr n \<longleftrightarrow> n = NodeName s \<and> valid_name s"
  by (auto simp: valid_name_def node_name_from_str_def split: if_splits)

lemma collect_results_eq_Inr:
  "collect_results f xs = Inr ys \<longleftrightarrow> list_all2 (\<lambda>x y. f x = Inr y) xs ys"
proof (induction xs arbitrary: ys)
  case Nil
  then show ?case by auto
next
  case (Cons x xs)
  then show ?case by (cases ys) (auto simp: rbind_eq_Inr list_all2_Cons1)
qed

lemma collect_node_names:
  "collect_results node_name_from_str xs = Inr ns
     \<longleftrightarrow> (\<forall>x\<in>set xs. valid_name x) \<and> ns = map NodeName xs"
  unfolding collect_results_eq_Inr node_name_from_str_eq_Inr
  by (induction xs arbitrary: ns) (auto simp: list_all2_Cons1)

lemma parse_path_eq_Inr:
  "parse_path s = Inr ns \<longleftrightarrow>
     (\<forall>x\<in>set (split_on slash s). x \<noteq> [] \<longrightarrow> valid_name x)
     \<and> ns = map NodeName (filter (\<lambda>x. x \<noteq> []) (split_on slash s))"
  by (auto simp: parse_path_def collect_node_names)

section \<open>Relative paths\<close>

datatype relpath = RelPath (path_str: string)

datatype invalid_rel_path = EmptyPath | Segment invalid_node_name

definition relpath_parse :: "string \<Rightarrow> invalid_rel_path + relpath" where
  "relpath_parse input =
     rbind (map_err Segment (parse_path input)) (\<lambda>segments.
     if segments = [] then Inl EmptyPath
     else Inr (RelPath (join [slash] (map as_str segments))))"

definition depth :: "relpath \<Rightarrow> nat" where
  "depth p = length (split_on slash (path_str p))"

definition file_name :: "relpath \<Rightarrow> string" where
  "file_name p = (case rsplit_once slash (path_str p) of Some (_, name) \<Rightarrow> name | None \<Rightarrow> path_str p)"

definition is_inside :: "relpath \<Rightarrow> relpath \<Rightarrow> bool" where
  "is_inside p directory =
     (case strip_prefix (path_str p) (path_str directory) of
        None \<Rightarrow> False | Some rest \<Rightarrow> starts_with rest [slash])"

definition parent :: "relpath \<Rightarrow> relpath option" where
  "parent p = map_option (\<lambda>(up, _). RelPath up) (rsplit_once slash (path_str p))"

definition child_path :: "relpath \<Rightarrow> string \<Rightarrow> invalid_rel_path + relpath" where
  "child_path p name = relpath_parse (path_str p @ [slash] @ name)"

definition with_file_name :: "relpath \<Rightarrow> string \<Rightarrow> invalid_rel_path + relpath" where
  "with_file_name p name =
     (case parent p of Some up \<Rightarrow> child_path up name | None \<Rightarrow> relpath_parse name)"

text \<open>A local path is the list of its components; \<open>join\<close> appends one.\<close>

type_synonym local_path = "string list"

definition to_path :: "relpath \<Rightarrow> local_path \<Rightarrow> local_path" where
  "to_path p root = foldl (\<lambda>at segment. at @ [segment]) root (split_on slash (path_str p))"

text \<open>The derived order is the order of the bytes.\<close>

instantiation relpath :: linorder
begin

definition less_eq_relpath :: "relpath \<Rightarrow> relpath \<Rightarrow> bool" where
  "less_eq_relpath p q \<longleftrightarrow> path_str p \<le> path_str q"

definition less_relpath :: "relpath \<Rightarrow> relpath \<Rightarrow> bool" where
  "less_relpath p q \<longleftrightarrow> path_str p < path_str q"

instance
  by intro_classes (auto simp: less_eq_relpath_def less_relpath_def relpath.expand)

end

definition segments :: "relpath \<Rightarrow> string list" where
  "segments p = split_on slash (path_str p)"

definition valid_relpath :: "relpath \<Rightarrow> bool" where
  "valid_relpath p \<longleftrightarrow> (\<forall>s\<in>set (segments p). valid_name s)"

lemma valid_name_no_slash: "valid_name s \<Longrightarrow> slash \<notin> set s"
  by (simp add: valid_name_iff)

lemma valid_name_not_Nil: "valid_name s \<Longrightarrow> s \<noteq> []"
  by (simp add: valid_name_iff)

lemma segments_not_Nil [simp]: "segments p \<noteq> []"
  by (simp add: segments_def)

lemma path_str_segments: "path_str p = join [slash] (segments p)"
  by (simp add: segments_def join_split_on)

lemma segments_inject: "segments p = segments q \<longleftrightarrow> p = q"
  by (metis path_str_segments relpath.expand)

lemma segments_join:
  assumes "ss \<noteq> []" and "\<forall>s\<in>set ss. valid_name s"
  shows "segments (RelPath (join [slash] ss)) = ss"
  using assms by (simp add: segments_def split_on_join valid_name_no_slash)

lemma relpath_parse_eq_Inr:
  "relpath_parse s = Inr p \<longleftrightarrow>
     (\<exists>ss. ss = filter (\<lambda>x. x \<noteq> []) (split_on slash s) \<and> ss \<noteq> []
        \<and> (\<forall>x\<in>set ss. valid_name x) \<and> p = RelPath (join [slash] ss))"
proof -
  have m: "map (as_str \<circ> NodeName) xs = xs" for xs by (simp add: map_idI)
  show ?thesis
    by (auto simp: relpath_parse_def rbind_eq_Inr parse_path_eq_Inr m valid_name_iff)
qed

lemma relpath_parse_valid: "relpath_parse s = Inr p \<Longrightarrow> valid_relpath p"
  by (auto simp: relpath_parse_eq_Inr valid_relpath_def segments_join)

lemma relpath_parse_segments:
  "relpath_parse s = Inr p \<Longrightarrow> segments p = filter (\<lambda>x. x \<noteq> []) (split_on slash s)"
  by (auto simp: relpath_parse_eq_Inr segments_join)

lemma relpath_parse_joined:
  assumes "ss \<noteq> []" and "\<forall>s\<in>set ss. valid_name s"
  shows "relpath_parse (join [slash] ss) = Inr (RelPath (join [slash] ss))"
proof -
  have "split_on slash (join [slash] ss) = ss"
    using assms by (simp add: split_on_join valid_name_no_slash)
  moreover have "filter (\<lambda>x. x \<noteq> []) ss = ss"
    using assms(2) by (auto simp: filter_id_conv valid_name_not_Nil)
  ultimately show ?thesis using assms by (simp add: relpath_parse_eq_Inr)
qed

lemma valid_relpath_parse:
  "valid_relpath p \<Longrightarrow> relpath_parse (path_str p) = Inr p"
  by (metis path_str_segments relpath.collapse relpath_parse_joined segments_not_Nil
      valid_relpath_def)

lemma is_inside_text: "is_inside p d \<longleftrightarrow> (\<exists>t. path_str p = path_str d @ slash # t)"
  by (auto simp: is_inside_def strip_prefix_eq_Some starts_with_iff split: option.splits)
     (metis append.assoc append_Cons append_Nil option.distinct(1) option.inject strip_prefix_eq_Some)+

lemma is_inside_iff: "is_inside p d \<longleftrightarrow> (\<exists>rest. rest \<noteq> [] \<and> segments p = segments d @ rest)"
proof
  assume "is_inside p d"
  then obtain t where "path_str p = path_str d @ slash # t" by (auto simp: is_inside_text)
  then show "\<exists>rest. rest \<noteq> [] \<and> segments p = segments d @ rest"
    by (intro exI [of _ "split_on slash t"]) (simp add: segments_def split_on_append_list)
next
  assume "\<exists>rest. rest \<noteq> [] \<and> segments p = segments d @ rest"
  then obtain rest where "rest \<noteq> []" "segments p = segments d @ rest" by blast
  then have "path_str p = path_str d @ slash # join [slash] rest"
    by (simp add: path_str_segments join_append)
  then show "is_inside p d" by (auto simp: is_inside_text)
qed

lemma last_segment: "segments p = ss \<Longrightarrow> length ss \<noteq> 1 \<Longrightarrow>
  rsplit_once slash (path_str p) = Some (join [slash] (butlast ss), last ss)"
proof -
  assume s: "segments p = ss" "length ss \<noteq> 1"
  then have ne: "ss \<noteq> []" "butlast ss \<noteq> []" using segments_not_Nil [of p]
    by (auto simp del: segments_not_Nil) (metis append_butlast_last_id append_self_conv2 length_Cons list.size(3))
  have "path_str p = join [slash] (butlast ss @ [last ss])"
    unfolding append_butlast_last_id [OF ne(1)] by (simp only: path_str_segments s)
  also have "\<dots> = join [slash] (butlast ss) @ slash # last ss"
    using ne(2) by (simp add: join_append)
  finally have "path_str p = join [slash] (butlast ss) @ slash # last ss" .
  moreover have "slash \<notin> set (last ss)"
    using s ne(1) split_on_pieces [of "last ss" slash "path_str p"] by (simp add: segments_def)
  ultimately show ?thesis by (simp add: rsplit_once_append)
qed

lemma one_segment: "length (segments p) = 1 \<Longrightarrow> rsplit_once slash (path_str p) = None \<and> segments p = [path_str p]"
proof -
  assume "length (segments p) = 1"
  then obtain s where s: "segments p = [s]" by (auto simp: length_Suc_conv)
  then have "path_str p = s" by (simp add: path_str_segments)
  moreover have "slash \<notin> set s"
    using s split_on_pieces [of s slash "path_str p"] by (simp add: segments_def)
  ultimately show ?thesis using s by (simp add: rsplit_once_None)
qed

lemma parent_segments:
  "parent p = (if length (segments p) = 1 then None else Some (RelPath (join [slash] (butlast (segments p)))))"
  using last_segment [OF refl, of p] one_segment [of p] by (simp add: parent_def)

lemma file_name_segments: "file_name p = last (segments p)"
  using last_segment [OF refl, of p] one_segment [of p] by (cases "length (segments p) = 1") (simp_all add: file_name_def)

lemma to_path_segments: "to_path p base = base @ segments p"
proof -
  have "foldl (\<lambda>at segment. at @ [segment]) base ss = base @ ss" for ss :: "string list"
    by (induction ss arbitrary: base) auto
  then show ?thesis by (simp add: to_path_def segments_def)
qed

section \<open>Properties\<close>

text \<open>
  Parsing and printing a path are inverse: whatever parses prints as its segments joined by
  slashes and parses again to itself, repeated and outer slashes are dropped, and two paths with
  the same segments are the same.
\<close>

theorem relpath_round_trip:
  assumes "relpath_parse s = Inr p"
  shows "relpath_parse (path_str p) = Inr p
    \<and> segments p = filter (\<lambda>x. x \<noteq> []) (split_on slash s) \<and> (\<forall>x\<in>set (segments p). valid_name x)
    \<and> to_path p base = base @ segments p \<and> depth p = length (segments p)
    \<and> (\<forall>q. segments q = segments p \<longrightarrow> q = p)"
proof -
  have "depth p = length (segments p)" by (simp add: depth_def segments_def)
  moreover have "\<forall>x\<in>set (segments p). valid_name x"
    using relpath_parse_valid [OF assms] by (simp add: valid_relpath_def)
  ultimately show ?thesis
    using valid_relpath_parse [OF relpath_parse_valid [OF assms]] relpath_parse_segments [OF assms]
      to_path_segments segments_inject by blast
qed

theorem relpath_round_trip_witness:
  "relpath_parse ''/a//b/'' = Inr (RelPath ''a/b'') \<and> relpath_parse ''a/b'' = Inr (RelPath ''a/b'')"
proof -
  have p: "relpath_parse ''/a//b/'' = Inr (RelPath ''a/b'')" by code_simp
  from relpath_round_trip [OF p] p show ?thesis by simp
qed

text \<open>
  The text comparison of \<open>is_inside\<close> is the test that the segments of the directory are a
  proper prefix: \<open>photos!notes\<close> and \<open>photoshoot/x\<close> are not inside \<open>photos\<close>, and the parent of a
  path is exactly the one it is directly inside.
\<close>

theorem is_inside_segments:
  "(is_inside p d \<longleftrightarrow> (\<exists>rest. rest \<noteq> [] \<and> segments p = segments d @ rest))
   \<and> (parent p = (if length (segments p) = 1 then None else Some (RelPath (join [slash] (butlast (segments p))))))
   \<and> file_name p = last (segments p)"
  by (intro conjI is_inside_iff parent_segments file_name_segments)

end
