(* ===== verification/Schema.thy ===== *)
theory Schema
  imports Names "HOL-Library.Word"
begin

text \<open>
  The data of the server: the row types of \<open>crates/core/src\<close> (\<open>node.rs\<close>, \<open>user.rs\<close>, \<open>role.rs\<close>,
  \<open>grant.rs\<close>, \<open>version.rs\<close>, \<open>share.rs\<close>), the errors of \<open>api/src/error.rs\<close>, the tables and
  constraints of \<open>api/migrations\<close>, and the database as a record of tables. A table is a list of
  rows; a statement that changes it checks the constraints of the table it leaves behind and
  fails with the constraint it breaks, as Postgres does. A timestamp is a number of
  microseconds, a \<open>Uuid\<close> the 128-bit number it is, a \<open>BIGINT\<close> an \<open>int\<close> (the quotas bound every
  size that is added up).
\<close>

type_synonym uuid = nat
type_synonym timestamp = int
type_synonym blob_hash = "8 word list"

abbreviation second :: timestamp where "second \<equiv> 1000000"

section \<open>Code outside the repository\<close>

text \<open>
  What the server calls in third-party crates is a parameter: the hexadecimal form of a digest
  (\<open>hex\<close>), the simple and the hyphenated form of a \<open>Uuid\<close>, BLAKE3, Argon2 (a hash is of a salt and a password), the case mapping of Unicode, the
  \<open>lower\<close> of Postgres, signed tokens (of a user, a session and an expiry in seconds; decoding
  checks the signature and the expiry at a time), Base64, percent decoding, and percent encoding of
  the bytes a set names, the path of a URI, what may be the value of a header, the date of HTTP, the
  letters of Unicode, and the events an XML reader finds, each name with the namespace it resolves
  to.
\<close>

datatype xml_event =
    XmlStart "string option" string
  | XmlEmpty "string option" string
  | XmlEnd string
  | XmlText string
  | XmlOther
  | XmlError

record crates =
  hex_encode :: "blob_hash \<Rightarrow> string"
  uuid_simple :: "uuid \<Rightarrow> string"
  uuid_display :: "uuid \<Rightarrow> string"
  blake3 :: "string \<Rightarrow> blob_hash"
  argon2_hash :: "string \<Rightarrow> string \<Rightarrow> string option"
  argon2_verify :: "string \<Rightarrow> string \<Rightarrow> bool"
  to_lowercase :: "string \<Rightarrow> string"
  pg_lower :: "string \<Rightarrow> string"
  jwt_encode :: "uuid \<Rightarrow> uuid \<Rightarrow> int \<Rightarrow> string option"
  jwt_decode :: "timestamp \<Rightarrow> string \<Rightarrow> (uuid \<times> uuid) option"
  base64_decode :: "string \<Rightarrow> string option"
  percent_decode :: "string \<Rightarrow> string"
  percent_encode :: "(char \<Rightarrow> bool) \<Rightarrow> string \<Rightarrow> string"
  uri_path :: "string \<Rightarrow> string option"
  header_value :: "string \<Rightarrow> string option"
  http_date :: "timestamp \<Rightarrow> string"
  alphabetic :: "string \<Rightarrow> bool"
  alphanumeric :: "string \<Rightarrow> bool"
  xml_events :: "string \<Rightarrow> xml_event list"

section \<open>Rows\<close>

datatype node_kind = Directory | File

datatype access = Read | Write

datatype role = Admin | Member | Reader

record node =
  n_id :: uuid
  n_owner :: uuid
  n_parent :: "uuid option"
  n_name :: string
  n_kind :: node_kind
  n_blob :: "blob_hash option"
  n_size :: int
  n_etag :: string
  n_created :: timestamp
  n_updated :: timestamp
  n_deleted :: "timestamp option"
  n_trash_root :: "uuid option"

record blob =
  b_hash :: blob_hash
  b_size :: int
  b_refs :: int
  b_created :: timestamp
  b_unreferenced :: "timestamp option"

record quota =
  q_owner :: uuid
  q_used :: int
  q_max :: int

record version =
  v_id :: uuid
  v_node :: uuid
  v_blob :: blob_hash
  v_size :: int
  v_created :: timestamp

record thumbnail =
  t_source :: blob_hash
  t_edge :: int
  t_blob :: blob_hash

record user =
  u_id :: uuid
  u_email :: string
  u_display_name :: string
  u_password_hash :: string
  u_role :: role
  u_created :: timestamp
  u_disabled :: "timestamp option"

record grant =
  g_id :: uuid
  g_node :: uuid
  g_email :: string
  g_access :: access
  g_mount_name :: string
  g_created_by :: uuid
  g_created :: timestamp

record lock =
  l_token :: string
  l_node :: uuid
  l_owner :: uuid
  l_holder :: "string option"
  l_deep :: bool
  l_expires :: timestamp

record share =
  s_id :: uuid
  s_node :: uuid
  s_created_by :: uuid
  s_token_hash :: string
  s_password_hash :: "string option"
  s_expires :: "timestamp option"
  s_created :: timestamp
  s_last_used :: "timestamp option"
  s_revoked :: "timestamp option"

record session =
  x_id :: uuid
  x_user :: uuid
  x_created :: timestamp
  x_expires :: timestamp

record app_password =
  ap_id :: uuid
  ap_user :: uuid
  ap_name :: string
  ap_hash :: string
  ap_created :: timestamp
  ap_last_used :: "timestamp option"
  ap_revoked :: "timestamp option"

datatype scope = Login | Share

record attempt =
  at_scope :: scope
  at_subject :: string
  at_failures :: int
  at_last :: timestamp
  at_blocked :: "timestamp option"

record upload =
  up_id :: uuid
  up_owner :: uuid
  up_path :: string
  up_size :: int
  up_received :: int
  up_staged :: string
  up_writing :: "timestamp option"
  up_writer :: "uuid option"
  up_created :: timestamp
  up_expires :: timestamp

section \<open>Errors\<close>

datatype db_error =
    CheckViolation string
  | UniqueViolation string
  | ForeignKeyViolation string
  | RowNotFound
  | ColumnDecode

datatype weak_password = TooShort nat

datatype invalid_email = EmailEmpty | EmailTooLong | EmailShape

datatype storage_error =
    BlobNotFound blob_hash | Upstream | Io | Remote string | OverLimit

datatype not_an_image = Format | TooBig | Unreadable

datatype api_error =
    Unauthenticated
  | InvalidCredentials
  | WeakPassword weak_password
  | Credential
  | NotFound
  | SharePassword
  | TooManyAttempts int
  | Forbidden
  | SessionRequired
  | AppPasswordRequired
  | Conflict string
  | MoveIntoSelf
  | AlreadyGranted
  | AcrossAccounts
  | Locked string
  | InvalidPath invalid_node_name
  | InvalidEmail invalid_email
  | QuotaExceeded
  | PreconditionFailed
  | OffsetMismatch int
  | Incomplete int int
  | TooManySessions int
  | AlreadyWriting
  | WrongKind string
  | NotAnImage not_an_image
  | Storage storage_error
  | Database db_error

section \<open>The database\<close>

text \<open>
  \<open>uuids\<close> holds the identifiers \<open>Uuid::now_v7()\<close> will answer, in order; drawing one drops it.
\<close>

record db =
  users :: "user list"
  nodes :: "node list"
  blobs :: "blob list"
  quotas :: "quota list"
  versions :: "version list"
  thumbnails :: "thumbnail list"
  grants :: "grant list"
  locks :: "lock list"
  shares :: "share list"
  sessions :: "session list"
  app_passwords :: "app_password list"
  attempts :: "attempt list"
  uploads :: "upload list"
  settings :: "(string \<times> string) list"
  uuids :: "nat \<Rightarrow> uuid"

definition now_v7 :: "db \<Rightarrow> uuid \<times> db" where
  "now_v7 db = (uuids db 0, db\<lparr>uuids := \<lambda>k. uuids db (Suc k)\<rparr>)"

definition empty_db :: "(nat \<Rightarrow> uuid) \<Rightarrow> db" where
  "empty_db ids = \<lparr>users = [], nodes = [], blobs = [], quotas = [], versions = [],
     thumbnails = [], grants = [], locks = [], shares = [], sessions = [], app_passwords = [],
     attempts = [], uploads = [], settings = [], uuids = ids\<rparr>"

text \<open>\<open>Node::is_trashed\<close>, negated, is the \<open>deleted_at IS NULL\<close> of every query.\<close>

definition is_trashed :: "node \<Rightarrow> bool" where
  "is_trashed n \<longleftrightarrow> n_deleted n \<noteq> None"

definition live :: "node \<Rightarrow> bool" where
  "live n \<longleftrightarrow> n_deleted n = None"

definition find_node :: "node list \<Rightarrow> uuid \<Rightarrow> node option" where
  "find_node ns i = find (\<lambda>n. n_id n = i) ns"

section \<open>Constraints\<close>

text \<open>The \<open>CHECK\<close> constraints of \<open>nodes\<close>, after every migration.\<close>

definition node_checks :: "node \<Rightarrow> bool" where
  "node_checks n \<longleftrightarrow>
     ((n_parent n = None \<and> n_name n = [])
        \<or> (n_parent n \<noteq> None \<and> n_name n \<noteq> [] \<and> slash \<notin> set (n_name n)))
     \<and> 0 \<le> n_size n
     \<and> ((n_kind n = File \<and> n_blob n \<noteq> None)
        \<or> (n_kind n = Directory \<and> n_blob n = None \<and> n_size n = 0))
     \<and> (n_deleted n = None) = (n_trash_root n = None)"

text \<open>
  What a statement that leaves the rows \<open>ns\<close> in \<open>nodes\<close> breaks: the checks, the primary key,
  the two partial unique indexes, then the foreign keys.
\<close>

definition nodes_violation :: "uuid list \<Rightarrow> blob_hash list \<Rightarrow> node list \<Rightarrow> db_error option" where
  "nodes_violation us hs ns =
     (if \<not> list_all node_checks ns then Some (CheckViolation ''nodes'')
      else if \<not> distinct (map n_id ns) then Some (UniqueViolation ''nodes_pkey'')
      else if \<not> distinct (map (\<lambda>n. (n_parent n, n_name n))
                 (filter (\<lambda>n. live n \<and> n_parent n \<noteq> None) ns))
        then Some (UniqueViolation ''nodes_unique_name_per_parent'')
      else if \<not> distinct (map n_owner (filter (\<lambda>n. live n \<and> n_parent n = None) ns))
        then Some (UniqueViolation ''nodes_single_root_per_owner'')
      else if \<not> list_all (\<lambda>n. case n_parent n of None \<Rightarrow> True | Some p \<Rightarrow> p \<in> set (map n_id ns)) ns
        then Some (ForeignKeyViolation ''nodes_parent_id_fkey'')
      else if \<not> list_all (\<lambda>n. case n_trash_root n of None \<Rightarrow> True | Some r \<Rightarrow> r \<in> set (map n_id ns)) ns
        then Some (ForeignKeyViolation ''nodes_trash_root_id_fkey'')
      else if \<not> list_all (\<lambda>n. case n_blob n of None \<Rightarrow> True | Some h \<Rightarrow> h \<in> set hs) ns
        then Some (ForeignKeyViolation ''nodes_blob_hash_fkey'')
      else if \<not> list_all (\<lambda>n. n_owner n \<in> set us) ns
        then Some (ForeignKeyViolation ''nodes_owner_exists'')
      else None)"

text \<open>An \<open>INSERT\<close> or \<open>UPDATE\<close> of \<open>nodes\<close> that would leave the rows \<open>ns\<close>.\<close>

definition store_nodes :: "node list \<Rightarrow> db \<Rightarrow> db_error + db" where
  "store_nodes ns db =
     (case nodes_violation (map u_id (users db)) (map b_hash (blobs db)) ns of
        Some e \<Rightarrow> Inl e
      | None \<Rightarrow> Inr (db\<lparr>nodes := ns\<rparr>))"

definition nodes_ok :: "db \<Rightarrow> bool" where
  "nodes_ok db \<longleftrightarrow> nodes_violation (map u_id (users db)) (map b_hash (blobs db)) (nodes db) = None"

text \<open>The constraints of \<open>blobs\<close>, \<open>quotas\<close> and \<open>versions\<close>.\<close>

definition blobs_ok :: "db \<Rightarrow> bool" where
  "blobs_ok db \<longleftrightarrow> distinct (map b_hash (blobs db))
     \<and> list_all (\<lambda>b. 0 \<le> b_refs b \<and> 0 \<le> b_size b) (blobs db)"

definition quotas_ok :: "db \<Rightarrow> bool" where
  "quotas_ok db \<longleftrightarrow> distinct (map q_owner (quotas db))
     \<and> list_all (\<lambda>q. 0 \<le> q_used q \<and> 0 < q_max q) (quotas db)"

definition versions_ok :: "db \<Rightarrow> bool" where
  "versions_ok db \<longleftrightarrow> distinct (map v_id (versions db))
     \<and> list_all (\<lambda>v. 0 \<le> v_size v \<and> v_node v \<in> set (map n_id (nodes db))
          \<and> v_blob v \<in> set (map b_hash (blobs db))) (versions db)"

definition schema_ok :: "db \<Rightarrow> bool" where
  "schema_ok db \<longleftrightarrow> nodes_ok db \<and> blobs_ok db \<and> quotas_ok db \<and> versions_ok db"

text \<open>
  A \<open>DELETE\<close> of nodes takes with it what references them \<open>ON DELETE CASCADE\<close>: versions, grants,
  locks and shares. The nodes below are added by the caller (see \<open>Trash\<close>).
\<close>

definition drop_nodes :: "uuid list \<Rightarrow> db \<Rightarrow> db" where
  "drop_nodes ids db = db\<lparr>
     nodes := filter (\<lambda>n. n_id n \<notin> set ids) (nodes db),
     versions := filter (\<lambda>v. v_node v \<notin> set ids) (versions db),
     grants := filter (\<lambda>g. g_node g \<notin> set ids) (grants db),
     locks := filter (\<lambda>l. l_node l \<notin> set ids) (locks db),
     shares := filter (\<lambda>s. s_node s \<notin> set ids) (shares db)\<rparr>"

section \<open>Lemmas\<close>

lemma find_node_Some: "find_node ns i = Some n \<Longrightarrow> n \<in> set ns \<and> n_id n = i"
  using find_Some_set by (fastforce simp: find_node_def)

lemma find_node_None: "find_node ns i = None \<longleftrightarrow> i \<notin> n_id ` set ns"
  by (auto simp: find_node_def find_None_set)

lemma find_node_distinct:
  "distinct (map n_id ns) \<Longrightarrow> n \<in> set ns \<Longrightarrow> find_node ns (n_id n) = Some n"
  by (simp add: find_node_def find_distinct_key)

lemma nodes_violation_None:
  "nodes_violation us hs ns = None \<longleftrightarrow>
     list_all node_checks ns \<and> distinct (map n_id ns)
     \<and> distinct (map (\<lambda>n. (n_parent n, n_name n)) (filter (\<lambda>n. live n \<and> n_parent n \<noteq> None) ns))
     \<and> distinct (map n_owner (filter (\<lambda>n. live n \<and> n_parent n = None) ns))
     \<and> (\<forall>n\<in>set ns. \<forall>p. n_parent n = Some p \<longrightarrow> p \<in> n_id ` set ns)
     \<and> (\<forall>n\<in>set ns. \<forall>r. n_trash_root n = Some r \<longrightarrow> r \<in> n_id ` set ns)
     \<and> (\<forall>n\<in>set ns. \<forall>h. n_blob n = Some h \<longrightarrow> h \<in> set hs)
     \<and> (\<forall>n\<in>set ns. n_owner n \<in> set us)"
  by (simp add: nodes_violation_def list_all_iff split: option.splits) blast

lemma store_nodes_eq_Inr:
  "store_nodes ns db = Inr db' \<longleftrightarrow>
     nodes_violation (map u_id (users db)) (map b_hash (blobs db)) ns = None
     \<and> db' = db\<lparr>nodes := ns\<rparr>"
  by (auto simp: store_nodes_def split: option.splits)

lemma now_v7_simps [simp]:
  "nodes (snd (now_v7 db)) = nodes db" "blobs (snd (now_v7 db)) = blobs db"
  "quotas (snd (now_v7 db)) = quotas db" "versions (snd (now_v7 db)) = versions db"
  "users (snd (now_v7 db)) = users db" "thumbnails (snd (now_v7 db)) = thumbnails db"
  "grants (snd (now_v7 db)) = grants db" "locks (snd (now_v7 db)) = locks db"
  "shares (snd (now_v7 db)) = shares db" "sessions (snd (now_v7 db)) = sessions db"
  "app_passwords (snd (now_v7 db)) = app_passwords db" "attempts (snd (now_v7 db)) = attempts db"
  "uploads (snd (now_v7 db)) = uploads db" "settings (snd (now_v7 db)) = settings db" "fst (now_v7 db) = uuids db 0"
  by (simp_all add: now_v7_def)

lemma nodes_okD:
  assumes "nodes_ok db"
  shows nodes_ok_distinct: "distinct (map n_id (nodes db))"
    and nodes_ok_checks: "n \<in> set (nodes db) \<Longrightarrow> node_checks n"
    and nodes_ok_parent: "n \<in> set (nodes db) \<Longrightarrow> n_parent n = Some p \<Longrightarrow> p \<in> n_id ` set (nodes db)"
    and nodes_ok_blob: "n \<in> set (nodes db) \<Longrightarrow> n_blob n = Some h \<Longrightarrow> h \<in> set (map b_hash (blobs db))"
  using assms by (auto simp: nodes_ok_def nodes_violation_None list_all_iff)

lemma node_checks_size: "node_checks n \<Longrightarrow> 0 \<le> n_size n"
  by (simp add: node_checks_def)

lemma node_checks_directory: "node_checks n \<Longrightarrow> n_kind n = Directory \<Longrightarrow> n_size n = 0 \<and> n_blob n = None"
  by (simp add: node_checks_def)

lemma node_checks_file: "node_checks n \<Longrightarrow> n_kind n = File \<longleftrightarrow> n_blob n \<noteq> None"
  by (cases "n_kind n") (auto simp: node_checks_def)

lemma node_checks_trash: "node_checks n \<Longrightarrow> n_deleted n = None \<longleftrightarrow> n_trash_root n = None"
  by (simp add: node_checks_def)

text \<open>The constraints of \<open>nodes\<close> read only the identifiers of the users and the digests of the blobs.\<close>

lemma nodes_ok_frame:
  "nodes db' = nodes db \<Longrightarrow> map u_id (users db') = map u_id (users db)
   \<Longrightarrow> map b_hash (blobs db') = map b_hash (blobs db) \<Longrightarrow> nodes_ok db' = nodes_ok db"
  by (simp add: nodes_ok_def)

lemma versions_ok_frame:
  "versions db' = versions db \<Longrightarrow> map n_id (nodes db') = map n_id (nodes db)
   \<Longrightarrow> map b_hash (blobs db') = map b_hash (blobs db) \<Longrightarrow> versions_ok db' = versions_ok db"
  by (simp add: versions_ok_def)

lemma schema_okD:
  "schema_ok db \<Longrightarrow> nodes_ok db" "schema_ok db \<Longrightarrow> blobs_ok db"
  "schema_ok db \<Longrightarrow> quotas_ok db" "schema_ok db \<Longrightarrow> versions_ok db"
  by (simp_all add: schema_ok_def)

end
