(* ===== verification/Ledger.thy ===== *)
theory Ledger
  imports Schema
begin

text \<open>
  The two counters the server keeps: the bytes an account has used and the references a blob
  has. \<open>charge_quota\<close>, \<open>room_left\<close>, \<open>room_for\<close>, \<open>acquire_blob\<close>, \<open>release_blob\<close> and
  \<open>register_blob\<close> of \<open>api/src/db.rs\<close>, with the contract the rest of the server relies on stated
  as two locales: a charge moves one account's counter by the amount it names, and a list of
  releases takes from each blob what the list holds of it.
\<close>

section \<open>Operations\<close>

definition find_quota :: "uuid \<Rightarrow> db \<Rightarrow> quota option" where
  "find_quota owner db = find (\<lambda>q. q_owner q = owner) (quotas db)"

definition find_blob :: "blob_hash \<Rightarrow> db \<Rightarrow> blob option" where
  "find_blob h db = find (\<lambda>b. b_hash b = h) (blobs db)"

definition charge_quota :: "uuid \<Rightarrow> int \<Rightarrow> db \<Rightarrow> api_error + db" where
  "charge_quota owner delta db =
     (if delta = 0 then Inr db
      else let hit = (\<lambda>q. q_owner q = owner \<and> q_used q + delta \<le> q_max q) in
        if \<not> list_ex hit (quotas db) then Inl QuotaExceeded
        else if list_ex (\<lambda>q. hit q \<and> q_used q + delta < 0) (quotas db)
          then Inl (Database (CheckViolation ''quotas_bytes_used_check''))
        else Inr (db\<lparr>quotas := map (\<lambda>q. if hit q then q\<lparr>q_used := q_used q + delta\<rparr> else q)
               (quotas db)\<rparr>))"

definition room_left :: "uuid \<Rightarrow> db \<Rightarrow> int option" where
  "room_left owner db = map_option (\<lambda>q. q_max q - q_used q) (find_quota owner db)"

definition room_for :: "uuid \<Rightarrow> int \<Rightarrow> db \<Rightarrow> api_error + unit" where
  "room_for owner bytes db =
     (case room_left owner db of
        Some room \<Rightarrow> (if bytes > room then Inl QuotaExceeded else Inr ())
      | None \<Rightarrow> Inr ())"

definition acquire_blob :: "blob_hash \<Rightarrow> db \<Rightarrow> db" where
  "acquire_blob h db = db\<lparr>blobs := map (\<lambda>b. if b_hash b = h
     then b\<lparr>b_refs := b_refs b + 1, b_unreferenced := None\<rparr> else b) (blobs db)\<rparr>"

definition release_blob :: "timestamp \<Rightarrow> blob_hash \<Rightarrow> db \<Rightarrow> db" where
  "release_blob now h db = db\<lparr>blobs := map (\<lambda>b. if b_hash b = h \<and> b_refs b > 0
     then b\<lparr>b_refs := b_refs b - 1,
            b_unreferenced := (if b_refs b - 1 = 0 then Some now else None)\<rparr> else b) (blobs db)\<rparr>"

text \<open>\<open>INSERT INTO blobs ... ON CONFLICT DO NOTHING\<close>, for \<open>register_blob\<close> and \<open>put_file\<close>.\<close>

definition insert_blob :: "blob \<Rightarrow> db \<Rightarrow> api_error + db" where
  "insert_blob b db =
     (if b_size b < 0 then Inl (Database (CheckViolation ''blobs_size_check''))
      else if b_hash b \<in> set (map b_hash (blobs db)) then Inr db
      else Inr (db\<lparr>blobs := blobs db @ [b]\<rparr>))"

definition register_blob :: "timestamp \<Rightarrow> blob_hash \<Rightarrow> int \<Rightarrow> db \<Rightarrow> api_error + db" where
  "register_blob now h bytes = insert_blob
     \<lparr>b_hash = h, b_size = bytes, b_refs = 0, b_created = now, b_unreferenced = Some now\<rparr>"

section \<open>What the counters hold\<close>

definition used :: "db \<Rightarrow> uuid \<Rightarrow> int" where
  "used db owner = (case find_quota owner db of None \<Rightarrow> 0 | Some q \<Rightarrow> q_used q)"

definition stored_refs :: "db \<Rightarrow> blob_hash \<Rightarrow> int" where
  "stored_refs db h = (case find_blob h db of None \<Rightarrow> 0 | Some b \<Rightarrow> b_refs b)"

definition has_blob :: "db \<Rightarrow> blob_hash \<Rightarrow> bool" where
  "has_blob db h \<longleftrightarrow> h \<in> set (map b_hash (blobs db))"

section \<open>Two contracts\<close>

text \<open>A counter per key that a charge moves by the amount it names.\<close>

locale charge_book =
  fixes ok :: "'s \<Rightarrow> bool"
    and total :: "'s \<Rightarrow> 'k \<Rightarrow> int"
    and charge :: "'k \<Rightarrow> int \<Rightarrow> 's \<Rightarrow> 'e + 's"
  assumes charge_ok: "ok s \<Longrightarrow> charge k d s = Inr t \<Longrightarrow> ok t"
    and charge_total: "ok s \<Longrightarrow> charge k d s = Inr t \<Longrightarrow>
      total t x = total s x + (if x = k then d else 0)"
begin

text \<open>A run of charges moves a counter by the sum of the amounts that name it.\<close>

lemma charges_total:
  "ok s \<Longrightarrow> rfold (\<lambda>(k, d). charge k d) ps s = Inr t \<Longrightarrow>
   ok t \<and> total t x = total s x + sum_rows (\<lambda>(k, d). if x = k then d else 0) ps"
proof (induction ps arbitrary: s)
  case Nil
  then show ?case by simp
next
  case (Cons p ps)
  obtain k d where p: "p = (k, d)" by force
  with Cons.prems(2) obtain u where u: "charge k d s = Inr u"
    "rfold (\<lambda>(k, d). charge k d) ps u = Inr t"
    by (auto simp: rbind_eq_Inr)
  from Cons.IH [OF charge_ok [OF Cons.prems(1) u(1)] u(2)] charge_total [OF Cons.prems(1) u(1)]
  show ?case by (simp add: p)
qed

lemma charge_twice:
  "ok s \<Longrightarrow> charge k d s = Inr t \<Longrightarrow> charge k e t = Inr u \<Longrightarrow>
   total u x = total s x + (if x = k then d + e else 0)"
  using charge_ok charge_total by fastforce

end

text \<open>A reference count per key; a release of a key nothing references is refused silently.\<close>

locale reference_book =
  fixes ok :: "'s \<Rightarrow> bool"
    and count :: "'s \<Rightarrow> 'k \<Rightarrow> int"
    and has :: "'s \<Rightarrow> 'k \<Rightarrow> bool"
    and acquire :: "'k \<Rightarrow> 's \<Rightarrow> 's"
    and release :: "'k \<Rightarrow> 's \<Rightarrow> 's"
  assumes acquire_ok: "ok s \<Longrightarrow> ok (acquire k s)"
    and release_ok: "ok s \<Longrightarrow> ok (release k s)"
    and acquire_count: "ok s \<Longrightarrow> has s k \<Longrightarrow>
      count (acquire k s) x = count s x + (if x = k then 1 else 0)"
    and release_count: "ok s \<Longrightarrow> 0 < count s k \<Longrightarrow>
      count (release k s) x = count s x - (if x = k then 1 else 0)"
    and release_none: "ok s \<Longrightarrow> count s k \<le> 0 \<Longrightarrow> count (release k s) x = count s x"
    and count_nonneg: "ok s \<Longrightarrow> 0 \<le> count s k"
begin

lemma releases_ok: "ok s \<Longrightarrow> ok (fold release ks s)"
  by (induction ks arbitrary: s) (auto simp: release_ok)

text \<open>A list of releases takes exactly what it lists, where there is that much to take.\<close>

lemma releases_count:
  assumes "ok s" and "\<And>k. int (count_list ks k) \<le> count s k"
  shows "count (fold release ks s) x = count s x - int (count_list ks x)"
  using assms
proof (induction ks arbitrary: s)
  case Nil
  then show ?case by simp
next
  case (Cons k ks)
  have pos: "0 < count s k" using Cons.prems(2) [of k] by simp
  note step = release_count [OF Cons.prems(1) pos]
  have "int (count_list ks y) \<le> count (release k s) y" for y
    using Cons.prems(2) [of y] by (simp add: step split: if_splits)
  from Cons.IH [OF release_ok [OF Cons.prems(1)] this]
  show ?case by (simp add: step)
qed

lemma acquire_release:
  "ok s \<Longrightarrow> has s k \<Longrightarrow> count (release k (acquire k s)) x = count s x"
  using acquire_count [of s k x] acquire_count [of s k k] release_count [of "acquire k s" k x]
    acquire_ok [of s k] count_nonneg [of s k] by auto

end

section \<open>The model keeps the contracts\<close>

lemma charge_quota_eq_Inr:
  "charge_quota owner delta db = Inr db' \<longleftrightarrow>
     (if delta = 0 then db' = db
      else (\<exists>q\<in>set (quotas db). q_owner q = owner \<and> q_used q + delta \<le> q_max q)
        \<and> (\<forall>q\<in>set (quotas db). q_owner q = owner \<and> q_used q + delta \<le> q_max q
              \<longrightarrow> 0 \<le> q_used q + delta)
        \<and> db' = db\<lparr>quotas := map (\<lambda>q. if q_owner q = owner \<and> q_used q + delta \<le> q_max q
              then q\<lparr>q_used := q_used q + delta\<rparr> else q) (quotas db)\<rparr>)"
  by (auto simp: charge_quota_def Let_def list_ex_iff split: if_splits)

lemma charge_quota_frame:
  assumes "charge_quota owner delta db = Inr db'"
  shows "nodes db' = nodes db" "blobs db' = blobs db" "versions db' = versions db"
    "users db' = users db" "thumbnails db' = thumbnails db" "grants db' = grants db"
    "locks db' = locks db" "shares db' = shares db" "uuids db' = uuids db"
    "map q_owner (quotas db') = map q_owner (quotas db)"
    "map q_max (quotas db') = map q_max (quotas db)"
    "sessions db' = sessions db" "app_passwords db' = app_passwords db"
    "attempts db' = attempts db" "uploads db' = uploads db" "settings db' = settings db"
  using assms by (auto simp: charge_quota_eq_Inr split: if_splits)

lemma find_map_same_key:
  assumes "\<And>y. k (g y) = k y"
  shows "find (\<lambda>y. k y = a) (map g xs) = map_option g (find (\<lambda>y. k y = a) xs)"
  by (induction xs) (auto simp: assms)

lemma find_quota_eq:
  "distinct (map q_owner (quotas db)) \<Longrightarrow> q \<in> set (quotas db) \<Longrightarrow> find_quota (q_owner q) db = Some q"
  by (simp add: find_quota_def find_distinct_key)

lemma find_quota_Some: "find_quota owner db = Some q \<Longrightarrow> q \<in> set (quotas db) \<and> q_owner q = owner"
  using find_Some_set by (fastforce simp: find_quota_def)

lemma charge_quota_ok: "quotas_ok db \<Longrightarrow> charge_quota owner d db = Inr db' \<Longrightarrow> quotas_ok db'"
  using charge_quota_frame(10) [of owner d db db']
  by (auto simp: quotas_ok_def charge_quota_eq_Inr list_all_iff split: if_splits)

lemma charge_quota_used:
  assumes "quotas_ok db" and "charge_quota owner d db = Inr db'"
  shows "used db' x = used db x + (if x = owner then d else 0)"
proof (cases "d = 0")
  case True
  with assms(2) show ?thesis by (simp add: charge_quota_eq_Inr)
next
  case False
  let ?hit = "\<lambda>q. q_owner q = owner \<and> q_used q + d \<le> q_max q"
  let ?g = "\<lambda>q. if ?hit q then q\<lparr>q_used := q_used q + d\<rparr> else q"
  from assms(2) False obtain q0 where q0: "q0 \<in> set (quotas db)" "?hit q0"
    and db': "db' = db\<lparr>quotas := map ?g (quotas db)\<rparr>"
    by (auto simp: charge_quota_eq_Inr)
  have "find_quota x db' = map_option ?g (find_quota x db)"
    unfolding find_quota_def db' by (simp add: find_map_same_key)
  moreover have "find_quota owner db = Some q0"
    using assms(1) q0 find_quota_eq by (auto simp: quotas_ok_def)
  moreover have "find_quota x db = Some q \<Longrightarrow> q_owner q = x" for q
    using find_quota_Some by blast
  ultimately show ?thesis using q0(2)
    by (cases "x = owner") (auto simp: used_def split: option.splits)
qed

interpretation quota_ledger: charge_book quotas_ok used charge_quota
  by unfold_locales (auto simp: charge_quota_ok charge_quota_used)

lemma blobs_map_frame:
  assumes "\<And>b. b_hash (g b) = b_hash b"
  shows "find_blob h (db\<lparr>blobs := map g (blobs db)\<rparr>) = map_option g (find_blob h db)"
  unfolding find_blob_def by (simp add: find_map_same_key assms)

lemma find_blob_Some: "find_blob h db = Some b \<Longrightarrow> b \<in> set (blobs db) \<and> b_hash b = h"
  using find_Some_set by (fastforce simp: find_blob_def)

lemma has_blob_find: "has_blob db h \<longleftrightarrow> (\<exists>b. find_blob h db = Some b)"
  using find_None_set [of "\<lambda>b. b_hash b = h" "blobs db"]
  by (cases "find_blob h db") (auto simp: has_blob_def find_blob_def dest: find_Some_set)

lemma stored_refs_nonneg: "blobs_ok db \<Longrightarrow> 0 \<le> stored_refs db h"
  using find_blob_Some by (fastforce simp: stored_refs_def blobs_ok_def list_all_iff split: option.splits)

lemma acquire_blob_count:
  "has_blob db h \<Longrightarrow> stored_refs (acquire_blob h db) x = stored_refs db x + (if x = h then 1 else 0)"
  using find_blob_Some [of x db]
  by (auto simp: has_blob_find stored_refs_def acquire_blob_def blobs_map_frame split: option.splits)

lemma release_blob_count:
  "0 < stored_refs db h \<Longrightarrow>
     stored_refs (release_blob now h db) x = stored_refs db x - (if x = h then 1 else 0)"
  using find_blob_Some [of x db]
  by (auto simp: stored_refs_def release_blob_def blobs_map_frame split: option.splits)

lemma release_blob_none:
  "stored_refs db h \<le> 0 \<Longrightarrow> stored_refs (release_blob now h db) x = stored_refs db x"
  using find_blob_Some [of x db]
  by (auto simp: stored_refs_def release_blob_def blobs_map_frame split: option.splits)

lemma acquire_blob_hashes: "map b_hash (blobs (acquire_blob h db)) = map b_hash (blobs db)"
  by (simp add: acquire_blob_def)

lemma release_blob_hashes: "map b_hash (blobs (release_blob now h db)) = map b_hash (blobs db)"
  by (simp add: release_blob_def)

lemma acquire_blob_ok: "blobs_ok db \<Longrightarrow> blobs_ok (acquire_blob h db)"
  unfolding blobs_ok_def acquire_blob_hashes by (auto simp: list_all_iff acquire_blob_def)

lemma release_blob_ok: "blobs_ok db \<Longrightarrow> blobs_ok (release_blob now h db)"
  unfolding blobs_ok_def release_blob_hashes by (auto simp: list_all_iff release_blob_def)

interpretation blob_ledger:
  reference_book blobs_ok stored_refs has_blob acquire_blob "release_blob now" for now
  by unfold_locales (auto simp: acquire_blob_ok release_blob_ok acquire_blob_count
      release_blob_count release_blob_none stored_refs_nonneg)

section \<open>Frames\<close>

lemma acquire_blob_frame [simp]:
  "nodes (acquire_blob h db) = nodes db" "quotas (acquire_blob h db) = quotas db"
  "versions (acquire_blob h db) = versions db" "users (acquire_blob h db) = users db"
  "thumbnails (acquire_blob h db) = thumbnails db" "grants (acquire_blob h db) = grants db"
  "locks (acquire_blob h db) = locks db" "shares (acquire_blob h db) = shares db"
  "uuids (acquire_blob h db) = uuids db" "sessions (acquire_blob h db) = sessions db"
  "app_passwords (acquire_blob h db) = app_passwords db" "attempts (acquire_blob h db) = attempts db"
  "uploads (acquire_blob h db) = uploads db" "settings (acquire_blob h db) = settings db"
  by (simp_all add: acquire_blob_def)

lemma release_blob_frame [simp]:
  "nodes (release_blob now h db) = nodes db" "quotas (release_blob now h db) = quotas db"
  "versions (release_blob now h db) = versions db" "users (release_blob now h db) = users db"
  "thumbnails (release_blob now h db) = thumbnails db" "grants (release_blob now h db) = grants db"
  "locks (release_blob now h db) = locks db" "shares (release_blob now h db) = shares db"
  "uuids (release_blob now h db) = uuids db" "sessions (release_blob now h db) = sessions db"
  "app_passwords (release_blob now h db) = app_passwords db" "attempts (release_blob now h db) = attempts db"
  "uploads (release_blob now h db) = uploads db" "settings (release_blob now h db) = settings db"
  by (simp_all add: release_blob_def)

lemma fold_release_frame [simp]:
  "nodes (fold (release_blob now) hs db) = nodes db"
  "quotas (fold (release_blob now) hs db) = quotas db"
  "versions (fold (release_blob now) hs db) = versions db"
  "users (fold (release_blob now) hs db) = users db"
  "thumbnails (fold (release_blob now) hs db) = thumbnails db"
  "grants (fold (release_blob now) hs db) = grants db" "locks (fold (release_blob now) hs db) = locks db"
  "shares (fold (release_blob now) hs db) = shares db" "sessions (fold (release_blob now) hs db) = sessions db"
  "app_passwords (fold (release_blob now) hs db) = app_passwords db"
  "attempts (fold (release_blob now) hs db) = attempts db" "uploads (fold (release_blob now) hs db) = uploads db"
  "settings (fold (release_blob now) hs db) = settings db"
  "uuids (fold (release_blob now) hs db) = uuids db"
  "map b_hash (blobs (fold (release_blob now) hs db)) = map b_hash (blobs db)"
  by (induction hs arbitrary: db) (simp_all add: release_blob_hashes)

lemma used_frame [simp]:
  "used (acquire_blob h db) = used db" "used (release_blob now h db) = used db"
  by (simp_all add: fun_eq_iff used_def find_quota_def)

lemma used_fold_release [simp]: "used (fold (release_blob now) hs db) = used db"
  by (simp add: fun_eq_iff used_def find_quota_def)

lemma used_quotas: "quotas db' = quotas db \<Longrightarrow> used db' = used db"
  by (simp add: fun_eq_iff used_def find_quota_def)

lemma stored_refs_blobs: "blobs db' = blobs db \<Longrightarrow> stored_refs db' = stored_refs db"
  by (simp add: fun_eq_iff stored_refs_def find_blob_def)

lemma stored_refs_charge:
  "charge_quota owner d db = Inr db' \<Longrightarrow> stored_refs db' = stored_refs db"
  by (auto simp: fun_eq_iff stored_refs_def find_blob_def charge_quota_frame)

text \<open>Moving the counters keeps every constraint.\<close>

lemma schema_ok_counters:
  assumes "schema_ok db" and "nodes db' = nodes db" and "versions db' = versions db"
    and "map u_id (users db') = map u_id (users db)"
    and "map b_hash (blobs db') = map b_hash (blobs db)"
    and "blobs_ok db'" and "quotas_ok db'"
  shows "schema_ok db'"
  using assms by (simp add: schema_ok_def nodes_ok_def versions_ok_def)

lemma schema_ok_acquire: "schema_ok db \<Longrightarrow> schema_ok (acquire_blob h db)"
  by (rule schema_ok_counters [of db])
     (simp_all add: acquire_blob_hashes acquire_blob_ok schema_okD del: map_map,
      simp add: quotas_ok_def schema_ok_def)

lemma schema_ok_releases: "schema_ok db \<Longrightarrow> schema_ok (fold (release_blob now) hs db)"
  by (rule schema_ok_counters [of db])
     (simp_all add: blob_ledger.releases_ok schema_okD del: map_map,
      simp add: quotas_ok_def schema_ok_def)

lemma schema_ok_charge:
  assumes "schema_ok db" and "charge_quota owner d db = Inr db'"
  shows "schema_ok db'"
  using assms charge_quota_frame [OF assms(2)] charge_quota_ok
  by (intro schema_ok_counters [OF assms(1)]) (auto simp: schema_ok_def blobs_ok_def)

end
