(* ===== verification/Books.thy ===== *)
theory Books
  imports Ledger
begin

text \<open>
  The consistency check of \<open>api/src/check.rs\<close>: what the references of a blob and the usage of an
  account should be, read off the tables, and the rows whose counters differ. The two counters
  balance when the check has nothing to report; every operation of the tree keeps that
  (\<open>Versions\<close>, \<open>Tree\<close>, \<open>Trash\<close>).
\<close>

section \<open>The expected values\<close>

definition expected_references :: "db \<Rightarrow> blob_hash \<Rightarrow> int" where
  "expected_references db h =
     count_rows (\<lambda>n. n_blob n = Some h) (nodes db)
     + count_rows (\<lambda>v. v_blob v = h) (versions db)
     + count_rows (\<lambda>t. t_blob t = h) (thumbnails db)"

definition expected_usage :: "db \<Rightarrow> uuid \<Rightarrow> int" where
  "expected_usage db owner =
     sum_rows n_size (filter (\<lambda>n. n_kind n = File \<and> live n \<and> n_owner n = owner) (nodes db))
     + sum_rows v_size (filter (\<lambda>v. case find_node (nodes db) (v_node v) of
          Some n \<Rightarrow> live n \<and> n_owner n = owner | None \<Rightarrow> False) (versions db))"

section \<open>The check\<close>

record wrong_count =
  wc_hash :: blob_hash
  wc_stored :: int
  wc_expected :: int

record wrong_usage =
  wu_owner :: uuid
  wu_stored :: int
  wu_expected :: int

definition wrong_counts :: "db \<Rightarrow> wrong_count list" where
  "wrong_counts db = sort_key wc_hash (map
     (\<lambda>b. \<lparr>wc_hash = b_hash b, wc_stored = b_refs b, wc_expected = expected_references db (b_hash b)\<rparr>)
     (filter (\<lambda>b. b_refs b \<noteq> expected_references db (b_hash b)) (blobs db)))"

definition wrong_usages :: "db \<Rightarrow> wrong_usage list" where
  "wrong_usages db = sort_key wu_owner (map
     (\<lambda>q. \<lparr>wu_owner = q_owner q, wu_stored = q_used q, wu_expected = expected_usage db (q_owner q)\<rparr>)
     (filter (\<lambda>q. q_used q \<noteq> expected_usage db (q_owner q)) (quotas db)))"

text \<open>The digests any row refers to, in order, each once.\<close>

definition wanted :: "db \<Rightarrow> blob_hash list" where
  "wanted db = sort (remdups (List.map_filter n_blob (nodes db)
     @ map v_blob (versions db) @ map t_blob (thumbnails db)))"

text \<open>A blob store answers a read with the bytes or an error.\<close>

type_synonym blob_reader = "blob_hash \<Rightarrow> storage_error + string"

datatype condition = Sound | Missing | Corrupt

definition inspect :: "crates \<Rightarrow> blob_reader \<Rightarrow> blob_hash \<Rightarrow> bool \<Rightarrow> api_error + condition" where
  "inspect C reads h verify_content =
     (case reads h of
        Inl (BlobNotFound _) \<Rightarrow> Inr Missing
      | Inl other \<Rightarrow> Inl (Storage other)
      | Inr bytes \<Rightarrow> Inr (if \<not> verify_content then Sound
                         else if blake3 C bytes = h then Sound else Corrupt))"

record options =
  verify_content :: bool
  do_repair :: bool

record findings =
  missing :: "blob_hash list"
  corrupt :: "blob_hash list"
  f_wrong_counts :: "wrong_count list"
  f_wrong_usage :: "wrong_usage list"
  checked_blobs :: nat
  repaired :: bool

definition needs_a_person :: "findings \<Rightarrow> bool" where
  "needs_a_person f \<longleftrightarrow> missing f \<noteq> [] \<or> corrupt f \<noteq> []"

definition is_clean :: "findings \<Rightarrow> bool" where
  "is_clean f \<longleftrightarrow> \<not> needs_a_person f \<and> f_wrong_counts f = [] \<and> f_wrong_usage f = []"

fun inspect_all :: "crates \<Rightarrow> blob_reader \<Rightarrow> bool \<Rightarrow> blob_hash list \<Rightarrow> findings \<Rightarrow> api_error + findings" where
  "inspect_all C reads v [] f = Inr f"
| "inspect_all C reads v (h # hs) f =
     rbind (inspect C reads h v) (\<lambda>c. inspect_all C reads v hs
       (case c of Sound \<Rightarrow> f
        | Missing \<Rightarrow> f\<lparr>missing := missing f @ [h]\<rparr>
        | Corrupt \<Rightarrow> f\<lparr>corrupt := corrupt f @ [h]\<rparr>))"

definition repair_count :: "timestamp \<Rightarrow> wrong_count \<Rightarrow> db \<Rightarrow> db" where
  "repair_count now w db = db\<lparr>blobs := map (\<lambda>b. if b_hash b = wc_hash w
     then b\<lparr>b_refs := wc_expected w,
            b_unreferenced := (if wc_expected w = 0
               then (case b_unreferenced b of Some since \<Rightarrow> Some since | None \<Rightarrow> Some now)
               else None)\<rparr>
     else b) (blobs db)\<rparr>"

definition repair_usage :: "wrong_usage \<Rightarrow> db \<Rightarrow> db" where
  "repair_usage w db = db\<lparr>quotas := map (\<lambda>q. if q_owner q = wu_owner w
     then q\<lparr>q_used := wu_expected w\<rparr> else q) (quotas db)\<rparr>"

definition repair :: "timestamp \<Rightarrow> findings \<Rightarrow> db \<Rightarrow> db" where
  "repair now f db = fold repair_usage (f_wrong_usage f) (fold (repair_count now) (f_wrong_counts f) db)"

definition run_check :: "crates \<Rightarrow> blob_reader \<Rightarrow> timestamp \<Rightarrow> options \<Rightarrow> db \<Rightarrow> api_error + findings \<times> db" where
  "run_check C reads now opts db =
     rbind (inspect_all C reads (verify_content opts) (wanted db)
       \<lparr>missing = [], corrupt = [], f_wrong_counts = wrong_counts db,
        f_wrong_usage = wrong_usages db, checked_blobs = length (wanted db), repaired = False\<rparr>)
     (\<lambda>f. if do_repair opts
       then Inr (f\<lparr>f_wrong_counts := [], f_wrong_usage := [], repaired := True\<rparr>, repair now f db)
       else Inr (f, db))"

section \<open>Balance\<close>

text \<open>
  Every blob counts the rows that hold it, and every account is charged what it holds; an account
  without a quota row holds nothing that is charged.
\<close>

definition books_balance :: "db \<Rightarrow> bool" where
  "books_balance db \<longleftrightarrow>
     list_all (\<lambda>b. b_refs b = expected_references db (b_hash b)) (blobs db)
     \<and> list_all (\<lambda>owner. used db owner = expected_usage db owner)
         (map q_owner (quotas db) @ map n_owner (nodes db))"

definition balanced :: "db \<Rightarrow> bool" where
  "balanced db \<longleftrightarrow> (\<forall>h. stored_refs db h = expected_references db h)
     \<and> (\<forall>owner. used db owner = expected_usage db owner)"

text \<open>The bytes the versions of a node hold, and what a node costs its owner while it is live.\<close>

definition held_bytes :: "version list \<Rightarrow> uuid \<Rightarrow> int" where
  "held_bytes vs i = sum_rows (\<lambda>v. if v_node v = i then v_size v else 0) vs"

definition cost :: "version list \<Rightarrow> node \<Rightarrow> int" where
  "cost vs n = n_size n + held_bytes vs (n_id n)"

lemma held_bytes_append [simp]:
  "held_bytes (vs @ ws) i = held_bytes vs i + held_bytes ws i"
  by (simp add: held_bytes_def)

lemma held_bytes_Nil [simp]: "held_bytes [] i = 0"
  by (simp add: held_bytes_def)

lemma held_bytes_Cons [simp]:
  "held_bytes (v # vs) i = (if v_node v = i then v_size v else 0) + held_bytes vs i"
  by (simp add: held_bytes_def)

lemma held_bytes_nonneg: "(\<And>v. v \<in> set vs \<Longrightarrow> 0 \<le> v_size v) \<Longrightarrow> 0 \<le> held_bytes vs i"
  by (simp add: held_bytes_def sum_rows_nonneg)

lemma held_bytes_none: "(\<And>v. v \<in> set vs \<Longrightarrow> v_node v \<noteq> i) \<Longrightarrow> held_bytes vs i = 0"
  by (simp add: held_bytes_def sum_rows_zero)

text \<open>A join of one row on the key it names is a sum over the other table.\<close>

lemma join_one:
  assumes "distinct (map n_id ns)"
  shows "(case find_node ns i of Some n \<Rightarrow> if P n then x else 0 | None \<Rightarrow> 0)
    = sum_rows (\<lambda>n. if n_id n = i \<and> P n then (x::int) else 0) ns"
  using assms
proof (induction ns)
  case Nil
  then show ?case by (simp add: find_node_def)
next
  case (Cons m ns)
  show ?case
  proof (cases "n_id m = i")
    case True
    with Cons.prems have "\<forall>n\<in>set ns. n_id n \<noteq> i" by (auto simp: image_iff)
    then have "sum_rows (\<lambda>n. if n_id n = i \<and> P n then x else 0) ns = 0"
      by (intro sum_rows_zero) auto
    with True show ?thesis by (simp add: find_node_def)
  next
    case False
    with Cons show ?thesis by (simp add: find_node_def)
  qed
qed

lemma join_versions:
  assumes "distinct (map n_id ns)"
  shows "sum_rows v_size (filter (\<lambda>v. case find_node ns (v_node v) of
      Some n \<Rightarrow> P n | None \<Rightarrow> False) vs)
    = sum_rows (\<lambda>n. if P n then held_bytes vs (n_id n) else 0) ns"
proof (induction vs)
  case Nil
  then show ?case by (simp add: sum_rows_zero)
next
  case (Cons v vs)
  let ?j = "case find_node ns (v_node v) of Some n \<Rightarrow> P n | None \<Rightarrow> False"
  have "(if ?j then v_size v else 0)
      = (case find_node ns (v_node v) of Some n \<Rightarrow> if P n then v_size v else 0 | None \<Rightarrow> 0)"
    by (simp split: option.splits)
  also have "\<dots> = sum_rows (\<lambda>n. if n_id n = v_node v \<and> P n then v_size v else 0) ns"
    by (rule join_one [OF assms])
  finally have one: "(if ?j then v_size v else 0) = \<dots>" .
  have "sum_rows (\<lambda>n. if P n then held_bytes (v # vs) (n_id n) else 0) ns
      = sum_rows (\<lambda>n. (if n_id n = v_node v \<and> P n then v_size v else 0)
          + (if P n then held_bytes vs (n_id n) else 0)) ns"
    by (intro sum_rows_cong) auto
  with Cons one show ?case by (simp add: sum_rows_add split: if_splits)
qed

text \<open>Usage is the cost of every live node of the account.\<close>

lemma expected_usage_cost:
  assumes "nodes_ok db"
  shows "expected_usage db owner =
    sum_rows (\<lambda>n. if live n \<and> n_owner n = owner then cost (versions db) n else 0) (nodes db)"
proof -
  have "sum_rows n_size (filter (\<lambda>n. n_kind n = File \<and> live n \<and> n_owner n = owner) (nodes db))
      = sum_rows (\<lambda>n. if live n \<and> n_owner n = owner then n_size n else 0) (nodes db)"
    unfolding sum_rows_filter
    by (intro sum_rows_cong) (metis assms node_checks_directory node_kind.exhaust nodes_ok_checks)
  moreover have "sum_rows (\<lambda>n. if live n \<and> n_owner n = owner then cost (versions db) n else 0) (nodes db)
      = sum_rows (\<lambda>n. (if live n \<and> n_owner n = owner then n_size n else 0)
          + (if live n \<and> n_owner n = owner then held_bytes (versions db) (n_id n) else 0)) (nodes db)"
    by (intro sum_rows_cong) (simp add: cost_def)
  ultimately show ?thesis
    using join_versions [OF nodes_ok_distinct [OF assms],
        of "\<lambda>n. live n \<and> n_owner n = owner" "versions db"]
    by (simp add: expected_usage_def sum_rows_add)
qed

text \<open>What is charged or referenced belongs to a row the check visits.\<close>

lemma find_quota_None: "find_quota owner db = None \<longleftrightarrow> owner \<notin> q_owner ` set (quotas db)"
  by (auto simp: find_quota_def find_None_set)

lemma expected_usage_no_node:
  "nodes_ok db \<Longrightarrow> owner \<notin> n_owner ` set (nodes db) \<Longrightarrow> expected_usage db owner = 0"
  by (auto simp: expected_usage_cost image_iff intro!: sum_rows_zero)

lemma expected_references_no_blob:
  assumes "schema_ok db" and "\<forall>t\<in>set (thumbnails db). has_blob db (t_blob t)" and "\<not> has_blob db h"
  shows "expected_references db h = 0"
proof -
  have "count_rows (\<lambda>n. n_blob n = Some h) (nodes db) = 0"
    using nodes_ok_blob [OF schema_okD(1) [OF assms(1)]] assms(3)
    by (auto simp: count_rows_sum has_blob_def intro!: sum_rows_zero)
  moreover have "count_rows (\<lambda>v. v_blob v = h) (versions db) = 0"
    using schema_okD(4) [OF assms(1)] assms(3)
    by (auto simp: count_rows_sum has_blob_def versions_ok_def list_all_iff intro!: sum_rows_zero)
  moreover have "count_rows (\<lambda>t. t_blob t = h) (thumbnails db) = 0"
    using assms(2,3) by (auto simp: count_rows_sum intro!: sum_rows_zero)
  ultimately show ?thesis by (simp add: expected_references_def)
qed

definition thumbnails_ok :: "db \<Rightarrow> bool" where
  "thumbnails_ok db \<longleftrightarrow> list_all (\<lambda>t. has_blob db (t_blob t) \<and> has_blob db (t_source t)) (thumbnails db)"

lemma books_balance_iff:
  assumes "schema_ok db" and "thumbnails_ok db"
  shows "books_balance db \<longleftrightarrow> balanced db"
proof -
  have ids: "distinct (map b_hash (blobs db))"
    using schema_okD(2) [OF assms(1)] by (simp add: blobs_ok_def)
  have "list_all (\<lambda>b. b_refs b = expected_references db (b_hash b)) (blobs db)
      \<longleftrightarrow> (\<forall>h. stored_refs db h = expected_references db h)" (is "?L \<longleftrightarrow> ?R")
  proof
    assume ?L
    show ?R
    proof
      fix h
      show "stored_refs db h = expected_references db h"
      proof (cases "find_blob h db")
        case None
        then have "\<not> has_blob db h" by (simp add: has_blob_find)
        with assms have "expected_references db h = 0"
          by (intro expected_references_no_blob) (auto simp: thumbnails_ok_def list_all_iff)
        with None show ?thesis by (simp add: stored_refs_def)
      next
        case (Some b)
        with \<open>?L\<close> find_blob_Some [OF Some] show ?thesis
          by (auto simp: stored_refs_def list_all_iff)
      qed
    qed
  next
    assume ?R
    have "b_refs b = expected_references db (b_hash b)" if "b \<in> set (blobs db)" for b
      using \<open>?R\<close> [rule_format, of "b_hash b"] find_distinct_key [OF ids that]
      by (simp add: stored_refs_def find_blob_def)
    then show ?L by (simp add: list_all_iff)
  qed
  moreover have "list_all (\<lambda>owner. used db owner = expected_usage db owner)
        (map q_owner (quotas db) @ map n_owner (nodes db))
      \<longleftrightarrow> (\<forall>owner. used db owner = expected_usage db owner)"
    (is "?L \<longleftrightarrow> ?R")
  proof
    assume ?L
    show ?R
    proof
      fix owner
      show "used db owner = expected_usage db owner"
      proof (cases "owner \<in> q_owner ` set (quotas db) \<union> n_owner ` set (nodes db)")
        case True
        with \<open>?L\<close> show ?thesis by (auto simp: list_all_iff)
      next
        case False
        then have "find_quota owner db = None" by (simp add: find_quota_None)
        moreover have "expected_usage db owner = 0"
          using False expected_usage_no_node [OF schema_okD(1) [OF assms(1)]] by simp
        ultimately show ?thesis by (simp add: used_def)
      qed
    qed
  qed (simp add: list_all_iff)
  ultimately show ?thesis by (simp add: books_balance_def balanced_def)
qed

text \<open>Balanced books are what the check reports nothing about.\<close>

lemma sort_key_Nil_iff: "sort_key f xs = [] \<longleftrightarrow> xs = []"
  by (metis length_0_conv length_sort)

lemma wrong_counts_empty:
  "wrong_counts db = [] \<longleftrightarrow> list_all (\<lambda>b. b_refs b = expected_references db (b_hash b)) (blobs db)"
  by (simp add: wrong_counts_def sort_key_Nil_iff filter_empty_conv list_all_iff)

lemma wrong_usages_empty:
  "wrong_usages db = [] \<longleftrightarrow> list_all (\<lambda>q. q_used q = expected_usage db (q_owner q)) (quotas db)"
  by (simp add: wrong_usages_def sort_key_Nil_iff filter_empty_conv list_all_iff)

lemma balanced_check:
  assumes "schema_ok db" and "balanced db"
  shows "wrong_counts db = []" and "wrong_usages db = []"
proof -
  have keys: "distinct (map b_hash (blobs db))" "distinct (map q_owner (quotas db))"
    using assms(1) by (simp_all add: schema_ok_def blobs_ok_def quotas_ok_def)
  have bal: "stored_refs db h = expected_references db h" "used db owner = expected_usage db owner"
    for h owner using assms(2) by (simp_all add: balanced_def)
  have "b_refs b = expected_references db (b_hash b)" if "b \<in> set (blobs db)" for b
    using bal(1) [of "b_hash b"] find_distinct_key [OF keys(1) that]
    by (simp add: stored_refs_def find_blob_def)
  then show "wrong_counts db = []" by (simp add: wrong_counts_empty list_all_iff)
  have "q_used q = expected_usage db (q_owner q)" if "q \<in> set (quotas db)" for q
    using bal(2) [of "q_owner q"] find_quota_eq [OF keys(2) that] by (simp add: used_def)
  then show "wrong_usages db = []" by (simp add: wrong_usages_empty list_all_iff)
qed

section \<open>Repair\<close>

lemma fold_repair_count:
  assumes "\<And>w. w \<in> set ws \<Longrightarrow> wc_expected w = E (wc_hash w)"
  shows "\<exists>g. fold (repair_count now) ws db = db\<lparr>blobs := map g (blobs db)\<rparr>
     \<and> (\<forall>b. b_hash (g b) = b_hash b
          \<and> b_refs (g b) = (if b_hash b \<in> wc_hash ` set ws then E (b_hash b) else b_refs b))"
  using assms
proof (induction ws arbitrary: db)
  case Nil
  then show ?case by (intro exI [of _ id]) simp
next
  case (Cons w ws)
  let ?h = "\<lambda>b. if b_hash b = wc_hash w
     then b\<lparr>b_refs := wc_expected w,
            b_unreferenced := (if wc_expected w = 0
               then (case b_unreferenced b of Some since \<Rightarrow> Some since | None \<Rightarrow> Some now)
               else None)\<rparr> else b"
  from Cons.IH [of "repair_count now w db"] Cons.prems obtain g where
    g: "fold (repair_count now) ws (repair_count now w db)
        = (repair_count now w db)\<lparr>blobs := map g (blobs (repair_count now w db))\<rparr>"
      "\<And>b. b_hash (g b) = b_hash b"
      "\<And>b. b_refs (g b) = (if b_hash b \<in> wc_hash ` set ws then E (b_hash b) else b_refs b)"
    by auto
  have rc: "repair_count now w db = db\<lparr>blobs := map ?h (blobs db)\<rparr>"
    by (simp add: repair_count_def)
  have "wc_expected w = E (wc_hash w)" using Cons.prems by simp
  moreover have "fold (repair_count now) (w # ws) db = db\<lparr>blobs := map (g \<circ> ?h) (blobs db)\<rparr>"
    by (simp add: g(1)) (simp add: rc)
  ultimately show ?case by (intro exI [of _ "g \<circ> ?h"]) (auto simp: g(2,3))
qed

lemma fold_repair_usage:
  assumes "\<And>w. w \<in> set ws \<Longrightarrow> wu_expected w = E (wu_owner w)"
  shows "\<exists>g. fold repair_usage ws db = db\<lparr>quotas := map g (quotas db)\<rparr>
     \<and> (\<forall>q. q_owner (g q) = q_owner q
          \<and> q_used (g q) = (if q_owner q \<in> wu_owner ` set ws then E (q_owner q) else q_used q))"
  using assms
proof (induction ws arbitrary: db)
  case Nil
  then show ?case by (intro exI [of _ id]) simp
next
  case (Cons w ws)
  let ?h = "\<lambda>q. if q_owner q = wu_owner w then q\<lparr>q_used := wu_expected w\<rparr> else q"
  from Cons.IH [of "repair_usage w db"] Cons.prems obtain g where
    g: "fold repair_usage ws (repair_usage w db)
        = (repair_usage w db)\<lparr>quotas := map g (quotas (repair_usage w db))\<rparr>"
      "\<And>q. q_owner (g q) = q_owner q"
      "\<And>q. q_used (g q) = (if q_owner q \<in> wu_owner ` set ws then E (q_owner q) else q_used q)"
    by auto
  have rc: "repair_usage w db = db\<lparr>quotas := map ?h (quotas db)\<rparr>"
    by (simp add: repair_usage_def)
  have "wu_expected w = E (wu_owner w)" using Cons.prems by simp
  moreover have "fold repair_usage (w # ws) db = db\<lparr>quotas := map (g \<circ> ?h) (quotas db)\<rparr>"
    by (simp add: g(1)) (simp add: rc)
  ultimately show ?case by (intro exI [of _ "g \<circ> ?h"]) (auto simp: g(2,3))
qed

lemma repair_balances:
  assumes "f_wrong_counts f = wrong_counts db" and "f_wrong_usage f = wrong_usages db"
    and "db' = repair now f db"
  shows "wrong_counts db' = []" and "wrong_usages db' = []"
    and "nodes db' = nodes db" and "versions db' = versions db"
proof -
  have wc: "\<And>w. w \<in> set (wrong_counts db) \<Longrightarrow> wc_expected w = expected_references db (wc_hash w)"
    and wu: "\<And>w. w \<in> set (wrong_usages db) \<Longrightarrow> wu_expected w = expected_usage db (wu_owner w)"
    by (auto simp: wrong_counts_def wrong_usages_def)
  obtain g where g: "fold (repair_count now) (wrong_counts db) db = db\<lparr>blobs := map g (blobs db)\<rparr>"
    "\<And>b. b_hash (g b) = b_hash b"
    "\<And>b. b_refs (g b) = (if b_hash b \<in> wc_hash ` set (wrong_counts db)
       then expected_references db (b_hash b) else b_refs b)"
    using fold_repair_count [where ws = "wrong_counts db" and E = "expected_references db"
        and now = now and db = db] wc by metis
  obtain k where k: "fold repair_usage (wrong_usages db) (db\<lparr>blobs := map g (blobs db)\<rparr>)
      = db\<lparr>blobs := map g (blobs db), quotas := map k (quotas db)\<rparr>"
    "\<And>q. q_owner (k q) = q_owner q"
    "\<And>q. q_used (k q) = (if q_owner q \<in> wu_owner ` set (wrong_usages db)
       then expected_usage db (q_owner q) else q_used q)"
    using fold_repair_usage [where ws = "wrong_usages db" and E = "expected_usage db"
        and db = "db\<lparr>blobs := map g (blobs db)\<rparr>"] wu by auto
  have db': "db' = db\<lparr>blobs := map g (blobs db), quotas := map k (quotas db)\<rparr>"
    using assms g(1) k(1) by (simp add: repair_def)
  have e: "expected_references db' = expected_references db" "expected_usage db' = expected_usage db"
    by (simp_all add: fun_eq_iff db' expected_references_def expected_usage_def)
  have "b_hash b \<in> wc_hash ` set (wrong_counts db)"
    if "b \<in> set (blobs db)" "b_refs b \<noteq> expected_references db (b_hash b)" for b
    using that by (auto simp: wrong_counts_def image_iff)
  then show "wrong_counts db' = []"
    unfolding wrong_counts_empty e by (auto simp: db' g list_all_iff)
  have "q_owner q \<in> wu_owner ` set (wrong_usages db)"
    if "q \<in> set (quotas db)" "q_used q \<noteq> expected_usage db (q_owner q)" for q
    using that by (auto simp: wrong_usages_def image_iff)
  then show "wrong_usages db' = []"
    unfolding wrong_usages_empty e by (auto simp: db' k list_all_iff)
  show "nodes db' = nodes db" "versions db' = versions db" by (simp_all add: db')
qed

lemma inspect_all_rows:
  "inspect_all C reads v hs f = Inr f' \<Longrightarrow>
     f_wrong_counts f' = f_wrong_counts f \<and> f_wrong_usage f' = f_wrong_usage f"
proof (induction hs arbitrary: f)
  case Nil
  then show ?case by simp
next
  case (Cons h hs)
  then obtain c where "inspect_all C reads v hs (case c of Sound \<Rightarrow> f
      | Missing \<Rightarrow> f\<lparr>missing := missing f @ [h]\<rparr> | Corrupt \<Rightarrow> f\<lparr>corrupt := corrupt f @ [h]\<rparr>) = Inr f'"
    by (auto simp: rbind_eq_Inr)
  from Cons.IH [OF this] show ?case by (cases c) auto
qed

end
