(* ===== verification/Versions.thy ===== *)
theory Versions
  imports Books
begin

text \<open>
  What an overwrite keeps: \<open>api/src/versions.rs\<close>. A version row holds a reference to the blob it
  keeps and is charged to the owner of its node, so every way of dropping one releases the blob
  and gives the bytes back. The lemmas state each operation by how far it moves the two counters
  away from what the tables say they should be.
\<close>

section \<open>Operations\<close>

definition versions_of :: "uuid \<Rightarrow> db \<Rightarrow> version list" where
  "versions_of node db = filter (\<lambda>v. v_node v = node) (versions db)"

text \<open>\<open>ORDER BY id DESC\<close>: newest first, since a version 7 UUID grows with time.\<close>

definition list_versions :: "uuid \<Rightarrow> db \<Rightarrow> version list" where
  "list_versions node db = rev (sort_key v_id (versions_of node db))"

definition find_version :: "uuid \<Rightarrow> uuid \<Rightarrow> db \<Rightarrow> api_error + version" where
  "find_version node i db = ok_or NotFound (find (\<lambda>v. v_node v = node \<and> v_id v = i) (versions db))"

definition release_versions :: "timestamp \<Rightarrow> version list \<Rightarrow> db \<Rightarrow> int \<times> db" where
  "release_versions now held db = (sum_rows v_size held, fold (release_blob now) (map v_blob held) db)"

text \<open>\<open>DELETE FROM versions WHERE ... RETURNING\<close>: the rows it takes and the table it leaves.\<close>

definition delete_versions :: "(version \<Rightarrow> bool) \<Rightarrow> db \<Rightarrow> version list \<times> db" where
  "delete_versions P db =
     (filter P (versions db), db\<lparr>versions := filter (\<lambda>v. \<not> P v) (versions db)\<rparr>)"

definition take_version :: "timestamp \<Rightarrow> uuid \<Rightarrow> uuid \<Rightarrow> uuid \<Rightarrow> db \<Rightarrow> api_error + version \<times> db" where
  "take_version now owner node i db =
     (case delete_versions (\<lambda>v. v_node v = node \<and> v_id v = i) db of
        ([], _) \<Rightarrow> Inl NotFound
      | (taken # _, db1) \<Rightarrow>
          rbind (charge_quota owner (- v_size taken) (release_blob now (v_blob taken) db1))
            (\<lambda>db2. Inr (taken, db2)))"

definition store_version :: "version \<Rightarrow> db \<Rightarrow> api_error + db" where
  "store_version v db =
     (if v_size v < 0 then Inl (Database (CheckViolation ''versions_size_check''))
      else if v_id v \<in> set (map v_id (versions db))
        then Inl (Database (UniqueViolation ''versions_pkey''))
      else if v_node v \<notin> set (map n_id (nodes db))
        then Inl (Database (ForeignKeyViolation ''versions_node_id_fkey''))
      else if v_blob v \<notin> set (map b_hash (blobs db))
        then Inl (Database (ForeignKeyViolation ''versions_blob_hash_fkey''))
      else Inr (db\<lparr>versions := versions db @ [v]\<rparr>))"

definition keep :: "timestamp \<Rightarrow> uuid \<Rightarrow> blob_hash \<Rightarrow> int \<Rightarrow> db \<Rightarrow> api_error + db" where
  "keep now node h bytes db = (let (i, db1) = now_v7 db in
     store_version \<lparr>v_id = i, v_node = node, v_blob = h, v_size = bytes, v_created = now\<rparr> db1)"

definition held_by :: "uuid \<Rightarrow> db \<Rightarrow> int" where
  "held_by node db = sum_rows v_size (versions_of node db)"

definition prune_beyond :: "timestamp \<Rightarrow> uuid \<Rightarrow> uuid \<Rightarrow> int \<Rightarrow> db \<Rightarrow> api_error + db" where
  "prune_beyond now owner node kept db =
     (let beyond = map v_id (drop (nat (max kept 0)) (list_versions node db));
          (dropped, db1) = delete_versions (\<lambda>v. v_id v \<in> set beyond) db;
          (freed, db2) = release_versions now dropped db1
      in charge_quota owner (- freed) db2)"

definition drop_oldest :: "timestamp \<Rightarrow> uuid \<Rightarrow> uuid \<Rightarrow> db \<Rightarrow> api_error + bool \<times> db" where
  "drop_oldest now owner node db =
     (let oldest = take 1 (map v_id (sort_key v_id (versions_of node db)));
          (dropped, db1) = delete_versions (\<lambda>v. [v_id v] = oldest) db
      in if dropped = [] then Inr (False, db1)
         else let (freed, db2) = release_versions now dropped db1
           in rbind (charge_quota owner (- freed) db2) (\<lambda>db3. Inr (True, db3)))"

definition size_under :: "uuid list \<Rightarrow> db \<Rightarrow> int" where
  "size_under ids db = sum_rows v_size (filter (\<lambda>v. v_node v \<in> set ids) (versions db))"

definition blobs_under :: "uuid list \<Rightarrow> db \<Rightarrow> blob_hash list" where
  "blobs_under ids db = map v_blob (filter (\<lambda>v. v_node v \<in> set ids) (versions db))"

section \<open>Making room\<close>

lemma versions_of_shrinks:
  assumes "drop_oldest now owner node db = Inr (True, db')"
  shows "length (versions_of node db') < length (versions_of node db)"
proof -
  let ?vs = "sort_key v_id (versions_of node db)"
  let ?P = "\<lambda>v. [v_id v] = take 1 (map v_id ?vs)"
  obtain db2 where ne: "filter ?P (versions db) \<noteq> []"
    and c: "charge_quota owner (- sum_rows v_size (filter ?P (versions db))) db2 = Inr db'"
    and v2: "versions db2 = filter (\<lambda>v. \<not> ?P v) (versions db)"
    using assms
    by (auto simp: drop_oldest_def Let_def delete_versions_def release_versions_def rbind_eq_Inr
        split: if_splits)
  have "?vs \<noteq> []" using ne by (auto simp: filter_empty_conv)
  then obtain w ws where w: "?vs = w # ws" by (cases ?vs) auto
  then have "w \<in> set ?vs" by simp
  then have w_in: "w \<in> set (versions_of node db)" by simp
  have "versions db' = filter (\<lambda>v. \<not> ?P v) (versions db)"
    using charge_quota_frame(3) [OF c] v2 by simp
  then have "versions_of node db' = filter (\<lambda>v. \<not> ?P v) (versions_of node db)"
    by (simp add: versions_of_def conj_commute)
  then show ?thesis
    using length_filter_less [OF w_in, of "\<lambda>v. \<not> ?P v"] w by simp
qed

text \<open>
  The loop drops the oldest version until the charge fits, and gives up keeping one when there is
  nothing left to drop. Every turn leaves the node one version fewer.
\<close>

function make_room :: "timestamp \<Rightarrow> uuid \<Rightarrow> uuid \<Rightarrow> int \<Rightarrow> int \<Rightarrow> db \<Rightarrow> api_error + bool \<times> db" where
  "make_room now owner node bytes previous db =
     (case charge_quota owner bytes db of
        Inr db1 \<Rightarrow> Inr (True, db1)
      | Inl QuotaExceeded \<Rightarrow>
          (case drop_oldest now owner node db of
             Inl e \<Rightarrow> Inl e
           | Inr (dropped, db1) \<Rightarrow>
               if \<not> dropped
               then rbind (charge_quota owner (bytes - previous) db1) (\<lambda>db2. Inr (False, db2))
               else make_room now owner node bytes previous db1)
      | Inl other \<Rightarrow> Inl other)"
  by pat_completeness auto
termination
  by (relation "measure (\<lambda>(_, _, node, _, _, db). length (versions_of node db))")
     (auto simp: versions_of_shrinks)

declare make_room.simps [simp del]

section \<open>How far the counters are off\<close>

definition ref_drift :: "db \<Rightarrow> blob_hash \<Rightarrow> int" where
  "ref_drift db h = stored_refs db h - expected_references db h"

definition use_drift :: "db \<Rightarrow> uuid \<Rightarrow> int" where
  "use_drift db owner = used db owner - expected_usage db owner"

lemma balanced_drift: "balanced db \<longleftrightarrow> (\<forall>h. ref_drift db h = 0) \<and> (\<forall>owner. use_drift db owner = 0)"
  by (simp add: balanced_def ref_drift_def use_drift_def)

text \<open>Every blob is counted at least as often as versions hold it, so no release is refused.\<close>

definition covered :: "db \<Rightarrow> bool" where
  "covered db \<longleftrightarrow> (\<forall>h. count_rows (\<lambda>v. v_blob v = h) (versions db) \<le> stored_refs db h)"

lemma balanced_covered: "balanced db \<Longrightarrow> covered db"
  unfolding covered_def balanced_def expected_references_def
  by (smt (verit) count_rows_nonneg)

lemma count_list_rows: "int (count_list (map f xs) y) = count_rows (\<lambda>x. f x = y) xs"
  by (induction xs) auto

lemma expected_frame:
  assumes "nodes db' = nodes db" and "versions db' = versions db"
  shows "expected_usage db' = expected_usage db"
    and "thumbnails db' = thumbnails db \<Longrightarrow> expected_references db' = expected_references db"
  using assms by (simp_all add: fun_eq_iff expected_usage_def expected_references_def)

lemma count_rows_partition:
  "count_rows Q (filter (\<lambda>x. \<not> P x) xs) = count_rows Q xs - count_rows Q (filter P xs)"
  by (induction xs) auto

lemma count_rows_filter_le: "count_rows Q (filter P xs) \<le> count_rows Q xs"
  by (induction xs) auto

text \<open>A charge moves one account's drift, an acquired reference one blob's.\<close>

lemma charge_drift:
  assumes "quotas_ok db" and "charge_quota owner d db = Inr db'"
  shows "use_drift db' x = use_drift db x + (if x = owner then d else 0)"
    and "ref_drift db' = ref_drift db" and "covered db' = covered db"
proof -
  note fr = charge_quota_frame [OF assms(2)]
  note e = expected_frame [OF fr(1,3)]
  show "use_drift db' x = use_drift db x + (if x = owner then d else 0)"
    using quota_ledger.charge_total [OF assms] by (simp add: use_drift_def e)
  show "ref_drift db' = ref_drift db" "covered db' = covered db"
    using stored_refs_charge [OF assms(2)] fr(3,5) e(2)
    by (simp_all add: fun_eq_iff ref_drift_def covered_def)
qed

text \<open>
  Deleting versions of one live node, releasing what they held and giving the bytes back to the
  node's owner moves nothing.
\<close>

lemma drop_versions:
  assumes ok: "schema_ok db" and cov: "covered db"
    and n: "find_node (nodes db) i = Some n" "live n" "n_owner n = owner"
    and P: "\<And>v. v \<in> set (versions db) \<Longrightarrow> P v \<Longrightarrow> v_node v = i"
    and c: "charge_quota owner (- sum_rows v_size (filter P (versions db)))
      (fold (release_blob now) (map v_blob (filter P (versions db)))
        (db\<lparr>versions := filter (\<lambda>v. \<not> P v) (versions db)\<rparr>)) = Inr db'"
  shows "schema_ok db'" and "covered db'" and "ref_drift db' = ref_drift db"
    and "use_drift db' = use_drift db" and "nodes db' = nodes db"
    and "versions db' = filter (\<lambda>v. \<not> P v) (versions db)"
    and "map b_hash (blobs db') = map b_hash (blobs db)"
    and "users db' = users db" and "thumbnails db' = thumbnails db"
proof -
  let ?gone = "filter P (versions db)"
  let ?db1 = "db\<lparr>versions := filter (\<lambda>v. \<not> P v) (versions db)\<rparr>"
  let ?db2 = "fold (release_blob now) (map v_blob ?gone) ?db1"
  have ok1: "schema_ok ?db1"
    using ok by (auto simp: schema_ok_def nodes_ok_def blobs_ok_def quotas_ok_def versions_ok_def list_all_iff)
  have st1: "stored_refs ?db1 = stored_refs db"
    by (simp add: fun_eq_iff stored_refs_def find_blob_def)
  have le: "int (count_list (map v_blob ?gone) h) \<le> stored_refs ?db1 h" for h
    unfolding count_list_rows st1
    by (rule order_trans [OF count_rows_filter_le cov [unfolded covered_def, rule_format]])
  have st2: "stored_refs ?db2 h = stored_refs db h - count_rows (\<lambda>v. v_blob v = h) ?gone" for h
    using blob_ledger.releases_count [OF schema_okD(2) [OF ok1] le]
    by (simp add: st1 count_list_rows)
  have ok2: "schema_ok ?db2" by (rule schema_ok_releases [OF ok1])
  show "schema_ok db'" by (rule schema_ok_charge [OF ok2 c])
  have er2: "expected_references ?db2 h
      = expected_references db h - count_rows (\<lambda>v. v_blob v = h) ?gone" for h
    by (simp add: expected_references_def count_rows_partition)
  have "sum_rows v_size (filter (\<lambda>v. case find_node (nodes db) (v_node v) of
          Some n \<Rightarrow> live n \<and> n_owner n = x | None \<Rightarrow> False) ?gone)
      = (if x = owner then sum_rows v_size ?gone else 0)" for x
    unfolding sum_rows_filter using P n
    by (auto intro!: sum_rows_cong sum_rows_zero)
  then have eu2: "expected_usage ?db2 x
      = expected_usage db x - (if x = owner then sum_rows v_size ?gone else 0)" for x
    using sum_rows_partition [of v_size "filter (\<lambda>v. case find_node (nodes db) (v_node v) of
          Some n \<Rightarrow> live n \<and> n_owner n = x | None \<Rightarrow> False) (versions db)" P]
    by (simp add: expected_usage_def conj_commute)
  have us2: "used ?db2 = used db" by (rule used_quotas) simp
  have q2: "quotas_ok ?db2" by (rule schema_okD(3) [OF ok2])
  note dr = charge_drift [OF q2 c]
  have "ref_drift ?db2 = ref_drift db" by (simp add: fun_eq_iff ref_drift_def st2 er2)
  then show "ref_drift db' = ref_drift db" using dr(2) by simp
  have ud2: "use_drift ?db2 x
      = use_drift db x + (if x = owner then sum_rows v_size ?gone else 0)" for x
    unfolding use_drift_def us2 eu2 by simp
  show "use_drift db' = use_drift db"
    using dr(1) unfolding ud2 by (simp add: fun_eq_iff)
  have "covered ?db2" using cov by (simp add: covered_def st2 count_rows_partition)
  then show "covered db'" using dr(3) by simp
  show "nodes db' = nodes db" "versions db' = filter (\<lambda>v. \<not> P v) (versions db)"
    "map b_hash (blobs db') = map b_hash (blobs db)" "users db' = users db"
    "thumbnails db' = thumbnails db"
    using charge_quota_frame [OF c] by simp_all
qed

text \<open>The same for each operation that drops versions.\<close>

definition same_books :: "db \<Rightarrow> db \<Rightarrow> bool" where
  "same_books db db' \<longleftrightarrow> ref_drift db' = ref_drift db \<and> use_drift db' = use_drift db
     \<and> nodes db' = nodes db \<and> users db' = users db \<and> thumbnails db' = thumbnails db
     \<and> map b_hash (blobs db') = map b_hash (blobs db) \<and> set (versions db') \<subseteq> set (versions db)"

lemma same_books_refl [simp]: "same_books db db"
  by (simp add: same_books_def)

lemma same_books_trans: "same_books db db1 \<Longrightarrow> same_books db1 db2 \<Longrightarrow> same_books db db2"
  by (auto simp: same_books_def)

lemma prune_beyond_books:
  assumes "schema_ok db" and "covered db"
    and "find_node (nodes db) i = Some n" "live n" "n_owner n = owner"
    and "prune_beyond now owner i kept db = Inr db'"
  shows "schema_ok db'" and "covered db'" and "same_books db db'"
proof -
  let ?P = "\<lambda>v. v_id v \<in> set (map v_id (drop (nat (max kept 0)) (list_versions i db)))"
  have d: "distinct (map v_id (versions db))"
    using schema_okD(4) [OF assms(1)] by (simp add: versions_ok_def)
  have P: "v_node v = i" if "v \<in> set (versions db)" "?P v" for v
  proof -
    from that(2) obtain w where "w \<in> set (list_versions i db)" "v_id w = v_id v"
      using in_set_dropD by fastforce
    then have "w \<in> set (versions db)" "v_node w = i" "v_id w = v_id v"
      by (auto simp: list_versions_def versions_of_def)
    with distinct_key_eq [OF d this(1) that(1) this(3)] show ?thesis by simp
  qed
  have c: "charge_quota owner (- sum_rows v_size (filter ?P (versions db)))
      (fold (release_blob now) (map v_blob (filter ?P (versions db)))
        (db\<lparr>versions := filter (\<lambda>v. \<not> ?P v) (versions db)\<rparr>)) = Inr db'"
    using assms(6) by (simp add: prune_beyond_def Let_def delete_versions_def release_versions_def)
  note r = drop_versions [OF assms(1,2,3,4,5) P c]
  show "schema_ok db'" "covered db'" "same_books db db'"
    using r by (auto simp: same_books_def)
qed

lemma drop_oldest_books:
  assumes "schema_ok db" and "covered db"
    and "find_node (nodes db) i = Some n" "live n" "n_owner n = owner"
    and "drop_oldest now owner i db = Inr (dropped, db')"
  shows "schema_ok db'" and "covered db'" and "same_books db db'" and "\<not> dropped \<Longrightarrow> db' = db"
proof -
  let ?P = "\<lambda>v. [v_id v] = take 1 (map v_id (sort_key v_id (versions_of i db)))"
  have d: "distinct (map v_id (versions db))"
    using schema_okD(4) [OF assms(1)] by (simp add: versions_ok_def)
  have P: "v_node v = i" if "v \<in> set (versions db)" "?P v" for v
  proof -
    from that(2) obtain w ws where w: "sort_key v_id (versions_of i db) = w # ws" "v_id w = v_id v"
      by (cases "sort_key v_id (versions_of i db)") auto
    then have "w \<in> set (sort_key v_id (versions_of i db))" by simp
    then have "w \<in> set (versions db)" "v_node w = i" by (auto simp: versions_of_def)
    with distinct_key_eq [OF d this(1) that(1) w(2)] show ?thesis by simp
  qed
  have r: "schema_ok db' \<and> covered db' \<and> same_books db db' \<and> (\<not> dropped \<longrightarrow> db' = db)"
  proof (cases "filter ?P (versions db) = []")
    case True
    then have "filter (\<lambda>v. \<not> ?P v) (versions db) = versions db"
      by (auto simp: filter_empty_conv filter_id_conv)
    with True assms show ?thesis
      by (simp add: drop_oldest_def Let_def delete_versions_def)
  next
    case False
    then have c: "charge_quota owner (- sum_rows v_size (filter ?P (versions db)))
      (fold (release_blob now) (map v_blob (filter ?P (versions db)))
        (db\<lparr>versions := filter (\<lambda>v. \<not> ?P v) (versions db)\<rparr>)) = Inr db'" and "dropped"
      using assms(6)
      by (auto simp: drop_oldest_def Let_def delete_versions_def release_versions_def rbind_eq_Inr)
    with drop_versions [OF assms(1,2,3,4,5) P c] show ?thesis by (auto simp: same_books_def)
  qed
  then show "schema_ok db'" "covered db'" "same_books db db'" "\<not> dropped \<Longrightarrow> db' = db" by simp_all
qed

lemma take_version_books:
  assumes "schema_ok db" and "covered db"
    and "find_node (nodes db) node = Some n" "live n" "n_owner n = owner"
    and "take_version now owner node i db = Inr (v, db')"
  shows "schema_ok db'" and "covered db'" and "same_books db db'"
    and "v \<in> set (versions db)" and "v_node v = node" and "v_id v = i"
proof -
  let ?P = "\<lambda>v. v_node v = node \<and> v_id v = i"
  have d: "distinct (map v_id (versions db))"
    using schema_okD(4) [OF assms(1)] by (simp add: versions_ok_def)
  from assms(6) obtain vs where vs: "filter ?P (versions db) = v # vs"
    and c: "charge_quota owner (- v_size v) (release_blob now (v_blob v)
        (db\<lparr>versions := filter (\<lambda>v. \<not> ?P v) (versions db)\<rparr>)) = Inr db'"
    by (auto simp: take_version_def delete_versions_def rbind_eq_Inr split: list.splits)
  have "distinct (map v_id (v # vs))"
    using distinct_map_filterI [OF d, of ?P] by (simp only: vs)
  moreover have "\<forall>w\<in>set (v # vs). ?P w" by (simp only: vs [symmetric] set_filter) simp
  ultimately have e: "vs = []" by (cases vs) (simp_all only: list.map distinct.simps list.set ball_simps insert_iff, blast)
  have gone: "filter ?P (versions db) = [v]"
    by (rule trans [OF vs]) (simp only: e)
  have c': "charge_quota owner (- sum_rows v_size (filter ?P (versions db)))
      (fold (release_blob now) (map v_blob (filter ?P (versions db)))
        (db\<lparr>versions := filter (\<lambda>v. \<not> ?P v) (versions db)\<rparr>)) = Inr db'"
    unfolding gone using c by simp
  have P: "v_node w = node" if "?P w" for w using that by simp
  note r = drop_versions [OF assms(1,2,3,4,5) P c']
  show "schema_ok db'" "covered db'" "same_books db db'" using r by (auto simp: same_books_def)
  have "v \<in> set (filter ?P (versions db))" by (simp only: gone list.set_intros)
  then show "v \<in> set (versions db)" "v_node v = node" "v_id v = i" by auto
qed

text \<open>A charge on top of unchanged books, and the loop that makes room for one.\<close>

definition charged :: "uuid \<Rightarrow> int \<Rightarrow> db \<Rightarrow> db \<Rightarrow> bool" where
  "charged owner d db db' \<longleftrightarrow> ref_drift db' = ref_drift db
     \<and> (\<forall>x. use_drift db' x = use_drift db x + (if x = owner then d else 0))
     \<and> nodes db' = nodes db \<and> users db' = users db \<and> thumbnails db' = thumbnails db
     \<and> map b_hash (blobs db') = map b_hash (blobs db) \<and> set (versions db') \<subseteq> set (versions db)"

lemma charge_charged:
  "quotas_ok db \<Longrightarrow> charge_quota owner d db = Inr db' \<Longrightarrow> charged owner d db db'"
  using charge_drift [of db owner d db'] charge_quota_frame [of owner d db db']
  by (simp add: charged_def)

lemma same_charged: "same_books db db1 \<Longrightarrow> charged owner d db1 db2 \<Longrightarrow> charged owner d db db2"
  by (auto simp: charged_def same_books_def)

lemma charged_same: "charged owner d db db1 \<Longrightarrow> same_books db1 db2 \<Longrightarrow> charged owner d db db2"
  by (auto simp: charged_def same_books_def)

lemma make_room_books:
  "make_room now owner i bytes previous db = Inr (versioned, db') \<Longrightarrow>
   schema_ok db \<Longrightarrow> covered db \<Longrightarrow> find_node (nodes db) i = Some n \<Longrightarrow> live n \<Longrightarrow>
   n_owner n = owner \<Longrightarrow>
   schema_ok db' \<and> covered db'
     \<and> charged owner (if versioned then bytes else bytes - previous) db db'"
proof (induction now owner i bytes previous db rule: make_room.induct)
  case (1 now owner i bytes previous db)
  have direct: ?case if "charge_quota owner d db = Inr db'"
    and "d = (if versioned then bytes else bytes - previous)" for d
    using that 1(3-) charge_charged [of db owner d db'] schema_ok_charge [of db owner d db']
      charge_drift(3) [of db owner d db'] by (simp add: schema_ok_def)
  show ?case
  proof (cases "charge_quota owner bytes db")
    case (Inr db1)
    with 1(2) have "versioned" "db1 = db'" by (simp_all add: make_room.simps [of now])
    with Inr show ?thesis by (intro direct) auto
  next
    case (Inl e)
    with 1(2) have e: "e = QuotaExceeded"
      by (cases e) (simp_all add: make_room.simps [of now])
    obtain dropped db1 where d: "drop_oldest now owner i db = Inr (dropped, db1)"
      using 1(2) Inl e by (cases "drop_oldest now owner i db") (auto simp: make_room.simps [of now])
    note b = drop_oldest_books [OF 1(3,4,5,6,7) d]
    show ?thesis
    proof (cases dropped)
      case True
      have "make_room now owner i bytes previous db1 = Inr (versioned, db')"
        using 1(2) Inl e d True by (simp add: make_room.simps [of now owner i bytes previous db])
      moreover have "find_node (nodes db1) i = Some n"
        using b(3) 1(5) by (simp add: same_books_def)
      ultimately have "schema_ok db' \<and> covered db'
          \<and> charged owner (if versioned then bytes else bytes - previous) db1 db'"
        using 1(1) [OF Inl e d] True b(1,2) 1(6,7) by simp
      with same_charged [OF b(3)] show ?thesis by blast
    next
      case False
      with 1(2) Inl e d b(4) have "charge_quota owner (bytes - previous) db = Inr db'" "\<not> versioned"
        by (auto simp: make_room.simps [of now] rbind_eq_Inr)
      then show ?thesis by (intro direct) auto
    qed
  qed
qed

end
