(* ===== verification/Walk.thy ===== *)
theory Walk
  imports Schema
begin

text \<open>
  The recursive queries of the server. \<open>ancestry\<close> is the query that climbs from a node
  (\<open>contains\<close> in \<open>api/src/db.rs\<close>, \<open>covering\<close> in \<open>api/src/dav/locks.rs\<close>), \<open>descend\<close> the one that
  walks down from it (\<open>send\<close> and \<open>purge\<close> in \<open>api/src/trash.rs\<close>, \<open>none_below\<close> in \<open>locks.rs\<close>); the
  \<open>CYCLE id\<close> clause is the trail, which stops a walk that meets a row it already passed. Where
  no node is above itself the two are the reflexive transitive closure of the parent relation.
\<close>

section \<open>The queries\<close>

lemma card_trail:
  assumes "i \<in> n_id ` set ns" and "i \<notin> set trail"
  shows "card (n_id ` set ns - set (i # trail)) < card (n_id ` set ns - set trail)"
  by (rule psubset_card_mono) (use assms in auto)

function ancestry :: "node list \<Rightarrow> uuid list \<Rightarrow> uuid \<Rightarrow> uuid list" where
  "ancestry ns trail i =
     (if i \<in> set trail then []
      else case find_node ns i of
        None \<Rightarrow> []
      | Some n \<Rightarrow> i # (case n_parent n of None \<Rightarrow> [] | Some p \<Rightarrow> ancestry ns (i # trail) p))"
  by pat_completeness auto
termination
proof (relation "measure (\<lambda>(ns, trail, i). card (n_id ` set ns - set trail))")
  fix ns :: "node list" and trail i n p
  assume "i \<notin> set trail" and "find_node ns i = Some n"
  then have "i \<in> n_id ` set ns" "i \<notin> set trail" by (auto dest: find_node_Some)
  from card_trail [OF this] show "((ns, i # trail, p), ns, trail, i)
      \<in> measure (\<lambda>(ns, trail, i). card (n_id ` set ns - set trail))"
    by simp
qed simp

declare ancestry.simps [simp del]

text \<open>\<open>Q\<close> is what the query asks of a row it descends to (\<open>deleted_at IS NULL\<close>, a batch, nothing).\<close>

function descend :: "(node \<Rightarrow> bool) \<Rightarrow> node list \<Rightarrow> uuid list \<Rightarrow> uuid \<Rightarrow> uuid list" where
  "descend Q ns trail i =
     (if i \<notin> n_id ` set ns \<or> i \<in> set trail then []
      else i # concat (map (\<lambda>c. descend Q ns (i # trail) (n_id c))
        (filter (\<lambda>c. n_parent c = Some i \<and> Q c) ns)))"
  by pat_completeness auto
termination
proof (relation "measure (\<lambda>(Q, ns, trail, i). card (n_id ` set ns - set trail))")
  fix Q :: "node \<Rightarrow> bool" and ns :: "node list" and trail i c
  assume "\<not> (i \<notin> n_id ` set ns \<or> i \<in> set trail)"
  then have "i \<in> n_id ` set ns" "i \<notin> set trail" by auto
  from card_trail [OF this] show "((Q, ns, i # trail, n_id c), Q, ns, trail, i)
      \<in> measure (\<lambda>(Q, ns, trail, i). card (n_id ` set ns - set trail))"
    by simp
qed simp

declare descend.simps [simp del]

section \<open>The relation they walk\<close>

text \<open>A row \<open>c\<close> that satisfies \<open>Q\<close> is below the node it names as its parent.\<close>

definition below :: "(node \<Rightarrow> bool) \<Rightarrow> node list \<Rightarrow> (uuid \<times> uuid) set" where
  "below Q ns = {(n_id n, p) | n p. n \<in> set ns \<and> n_parent n = Some p \<and> Q n}"

abbreviation all_rows :: "node \<Rightarrow> bool" where
  "all_rows \<equiv> \<lambda>_. True"

definition forest :: "node list \<Rightarrow> bool" where
  "forest ns \<longleftrightarrow> distinct (map n_id ns) \<and> acyclic (below all_rows ns)
     \<and> (\<forall>n\<in>set ns. \<forall>p. n_parent n = Some p \<longrightarrow> p \<in> n_id ` set ns)"

lemma below_mono: "below Q ns \<subseteq> below all_rows ns"
  by (auto simp: below_def)

lemma below_star_mono: "(i, j) \<in> (below Q ns)\<^sup>* \<Longrightarrow> (i, j) \<in> (below all_rows ns)\<^sup>*"
  using rtrancl_mono [OF below_mono] by blast

lemma below_single:
  assumes "distinct (map n_id ns)" and "(c, p) \<in> below Q ns" and "(c, q) \<in> below R ns"
  shows "p = q"
proof -
  from assms(2,3) obtain m n where "m \<in> set ns" "n_id m = c" "n_parent m = Some p"
    "n \<in> set ns" "n_id n = c" "n_parent n = Some q" by (auto simp: below_def)
  with distinct_key_eq [OF assms(1), of m n] show ?thesis by simp
qed

lemma below_find:
  "distinct (map n_id ns) \<Longrightarrow> find_node ns i = Some n \<Longrightarrow> n_parent n = Some p \<Longrightarrow>
   (i, p) \<in> below all_rows ns"
  using find_node_Some by (force simp: below_def)

lemma forest_no_cycle: "forest ns \<Longrightarrow> (i, j) \<in> below Q ns \<Longrightarrow> (j, i) \<in> (below R ns)\<^sup>* \<Longrightarrow> False"
  using below_mono [of Q ns] below_star_mono [of j i R ns] rtrancl_into_trancl2 [of i j "below all_rows ns" i]
  by (auto simp: forest_def acyclic_def)

text \<open>Climbing finds exactly the node and what is above it.\<close>

lemma ancestry_sound: "j \<in> set (ancestry ns trail i) \<Longrightarrow> distinct (map n_id ns) \<Longrightarrow>
   (i, j) \<in> (below all_rows ns)\<^sup>*"
proof (induction ns trail i rule: ancestry.induct)
  case (1 ns trail i)
  from 1(2) obtain n where n: "i \<notin> set trail" "find_node ns i = Some n"
    and j: "j = i \<or> (\<exists>p. n_parent n = Some p \<and> j \<in> set (ancestry ns (i # trail) p))"
    by (auto simp: ancestry.simps [of ns trail i] split: if_splits option.splits) metis+
  from j show ?case
  proof
    assume "\<exists>p. n_parent n = Some p \<and> j \<in> set (ancestry ns (i # trail) p)"
    then obtain p where p: "n_parent n = Some p" "j \<in> set (ancestry ns (i # trail) p)" by blast
    from 1(1) [OF n p(1) p(2) 1(3)] below_find [OF 1(3) n(2) p(1)] show ?thesis
      by (rule converse_rtrancl_into_rtrancl [rotated])
  qed simp
qed

lemma ancestry_complete:
  assumes "forest ns" and "(i, j) \<in> (below all_rows ns)\<^sup>*" and "j \<in> n_id ` set ns"
    and "\<And>t. t \<in> set trail \<Longrightarrow> (i, t) \<notin> (below all_rows ns)\<^sup>*"
  shows "j \<in> set (ancestry ns trail i)"
  using assms(2,4)
proof (induction arbitrary: trail rule: converse_rtrancl_induct)
  case base
  from assms(3) obtain n where "find_node ns j = Some n"
    using find_node_None [of ns j] by (cases "find_node ns j") auto
  moreover have "j \<notin> set trail" using base [of j] by blast
  ultimately show ?case by (simp add: ancestry.simps [of ns trail j])
next
  case (step i p)
  from step(1) obtain n where n: "n \<in> set ns" "n_id n = i" "n_parent n = Some p"
    by (auto simp: below_def)
  then have f: "find_node ns i = Some n"
    using assms(1) find_node_distinct by (auto simp: forest_def)
  have i: "i \<notin> set trail" using step(4) [of i] by blast
  have "j \<in> set (ancestry ns (i # trail) p)"
  proof (rule step(3))
    fix t assume "t \<in> set (i # trail)"
    then consider "t = i" | "t \<in> set trail" by auto
    then show "(p, t) \<notin> (below all_rows ns)\<^sup>*"
    proof cases
      case 1
      with forest_no_cycle [OF assms(1) step(1)] show ?thesis by blast
    next
      case 2
      from step(4) [OF this] step(1) show ?thesis
        by (meson converse_rtrancl_into_rtrancl)
    qed
  qed
  with f i n(3) show ?case by (simp add: ancestry.simps [of ns trail i])
qed

lemma ancestry_iff:
  assumes "forest ns" and "j \<in> n_id ` set ns"
  shows "j \<in> set (ancestry ns [] i) \<longleftrightarrow> (i, j) \<in> (below all_rows ns)\<^sup>*"
  using ancestry_sound [of j ns "[]" i] ancestry_complete [OF assms(1) _ assms(2), of i "[]"] assms(1)
  by (auto simp: forest_def)

text \<open>Descending finds exactly the node and what is below it, each once.\<close>

lemma descend_sound: "j \<in> set (descend Q ns trail i) \<Longrightarrow> (j, i) \<in> (below Q ns)\<^sup>* \<and> i \<in> n_id ` set ns"
proof (induction Q ns trail i rule: descend.induct)
  case (1 Q ns trail i)
  from 1(2) have c: "\<not> (i \<notin> n_id ` set ns \<or> i \<in> set trail)"
    by (auto simp: descend.simps [of Q ns trail i] split: if_splits)
  with 1(2) have "j = i \<or> (\<exists>c. c \<in> set (filter (\<lambda>c. n_parent c = Some i \<and> Q c) ns)
      \<and> j \<in> set (descend Q ns (i # trail) (n_id c)))"
    by (auto simp: descend.simps [of Q ns trail i])
  then show ?case
  proof
    assume "\<exists>c. c \<in> set (filter (\<lambda>c. n_parent c = Some i \<and> Q c) ns)
      \<and> j \<in> set (descend Q ns (i # trail) (n_id c))"
    then obtain c where m: "c \<in> set (filter (\<lambda>c. n_parent c = Some i \<and> Q c) ns)"
      and jc: "j \<in> set (descend Q ns (i # trail) (n_id c))" by blast
    from 1(1) [OF c m jc] have "(j, n_id c) \<in> (below Q ns)\<^sup>*" by blast
    moreover have "(n_id c, i) \<in> below Q ns" using m by (auto simp: below_def)
    ultimately show ?thesis using c by (auto intro: rtrancl_into_rtrancl)
  qed (use c in simp)
qed

lemma descend_complete:
  assumes "forest ns" and "(j, i) \<in> (below Q ns)\<^sup>*" and "i \<in> n_id ` set ns"
    and "\<And>t. t \<in> set trail \<Longrightarrow> (t, i) \<notin> (below Q ns)\<^sup>*"
  shows "j \<in> set (descend Q ns trail i)"
  using assms(2-4)
proof (induction arbitrary: trail rule: rtrancl_induct)
  case base
  have "j \<notin> set trail" using base(2) [of j] by blast
  with base(1) show ?case by (simp add: descend.simps [of Q ns trail j])
next
  case (step c i)
  from step(2) obtain n where n: "n \<in> set ns" "n_id n = c" "n_parent n = Some i" "Q n"
    by (auto simp: below_def)
  have i: "i \<notin> set trail" using step(5) [of i] by blast
  have "j \<in> set (descend Q ns (i # trail) c)"
  proof (rule step(3))
    show "c \<in> n_id ` set ns" using n by auto
    fix t assume "t \<in> set (i # trail)"
    then consider "t = i" | "t \<in> set trail" by auto
    then show "(t, c) \<notin> (below Q ns)\<^sup>*"
    proof cases
      case 1
      with forest_no_cycle [OF assms(1) step(2)] show ?thesis by blast
    next
      case 2
      from step(5) [OF this] step(2) show ?thesis by (meson rtrancl_into_rtrancl)
    qed
  qed
  with i n step(4) show ?case by (auto simp: descend.simps [of Q ns trail i])
qed

lemma descend_iff:
  assumes "forest ns"
  shows "j \<in> set (descend Q ns [] i) \<longleftrightarrow> (j, i) \<in> (below Q ns)\<^sup>* \<and> i \<in> n_id ` set ns"
  using descend_sound [of j Q ns "[]" i] descend_complete [OF assms, of j i Q "[]"] by auto

lemma descend_ids: "j \<in> set (descend Q ns trail i) \<Longrightarrow> j \<in> n_id ` set ns"
  using descend_sound [of j Q ns trail i]
  by (auto elim: converse_rtranclE simp: below_def)

lemma below_up_comparable:
  assumes "distinct (map n_id ns)" and "(x, a) \<in> (below Q ns)\<^sup>*" and "(x, b) \<in> (below Q ns)\<^sup>*"
  shows "(a, b) \<in> (below Q ns)\<^sup>* \<or> (b, a) \<in> (below Q ns)\<^sup>*"
  using assms(2,3)
proof (induction rule: converse_rtrancl_induct)
  case base
  then show ?case by simp
next
  case (step x y)
  from step(4) show ?case
  proof (cases rule: converse_rtranclE)
    case base
    with step(1,2) show ?thesis by (meson converse_rtrancl_into_rtrancl)
  next
    case (step z)
    with below_single [OF assms(1) \<open>(x, y) \<in> below Q ns\<close>] \<open>(y, b) \<in> (below Q ns)\<^sup>* \<Longrightarrow> _\<close>
    show ?thesis by auto
  qed
qed

lemma distinct_concat_disjoint:
  assumes "\<And>x. x \<in> set xs \<Longrightarrow> distinct (f x)" and "distinct xs"
    and "\<And>x y. x \<in> set xs \<Longrightarrow> y \<in> set xs \<Longrightarrow> x \<noteq> y \<Longrightarrow> set (f x) \<inter> set (f y) = {}"
  shows "distinct (concat (map f xs))"
  using assms
proof (induction xs)
  case Nil
  then show ?case by simp
next
  case (Cons a xs)
  have "set (f a) \<inter> set (f y) = {}" if "y \<in> set xs" for y
    using Cons.prems(2) that by (intro Cons.prems(3)) auto
  moreover have "distinct (concat (map f xs))"
    using Cons.prems by (intro Cons.IH) auto
  ultimately show ?case using Cons.prems(1) [of a] by auto
qed

lemma descend_distinct: "forest ns \<Longrightarrow> distinct (descend Q ns trail i)"
proof (induction Q ns trail i rule: descend.induct)
  case (1 Q ns trail i)
  let ?cs = "filter (\<lambda>c. n_parent c = Some i \<and> Q c) ns"
  let ?f = "\<lambda>c. descend Q ns (i # trail) (n_id c)"
  show ?case
  proof (cases "i \<notin> n_id ` set ns \<or> i \<in> set trail")
    case True
    then show ?thesis by (simp add: descend.simps [of Q ns trail i])
  next
    case False
    have ids: "distinct (map n_id ns)" using 1(2) by (simp add: forest_def)
    have up: "(n_id c, i) \<in> below Q ns" if "c \<in> set ?cs" for c
      using that by (auto simp: below_def)
    have self: "i \<notin> set (?f c)" if "c \<in> set ?cs" for c
      using descend_sound [of i Q ns "i # trail" "n_id c"] forest_no_cycle [OF 1(2) up [OF that]]
      by blast
    have disj: "set (?f c) \<inter> set (?f d) = {}" if cd: "c \<in> set ?cs" "d \<in> set ?cs" "c \<noteq> d" for c d
    proof (rule ccontr)
      assume "set (?f c) \<inter> set (?f d) \<noteq> {}"
      then obtain x where "(x, n_id c) \<in> (below Q ns)\<^sup>*" "(x, n_id d) \<in> (below Q ns)\<^sup>*"
        using descend_sound by blast
      from below_up_comparable [OF ids this]
      have "n_id c = n_id d \<or> (i, n_id d) \<in> (below Q ns)\<^sup>* \<or> (i, n_id c) \<in> (below Q ns)\<^sup>*"
        using below_single [OF ids up [OF cd(1)]] below_single [OF ids up [OF cd(2)]]
        by (metis converse_rtranclE)
      moreover have "n_id c \<noteq> n_id d"
        using distinct_key_eq [OF ids, of c d] cd by auto
      ultimately show False
        using forest_no_cycle [OF 1(2) up [OF cd(1)]] forest_no_cycle [OF 1(2) up [OF cd(2)]] by blast
    qed
    have "distinct ?cs" using ids by (simp add: distinct_map)
    then have "distinct (concat (map ?f ?cs))"
      using 1(1) [OF False _ 1(2)] disj by (intro distinct_concat_disjoint) auto
    with False self show ?thesis by (simp add: descend.simps [of Q ns trail i])
  qed
qed

text \<open>Below an acyclic row the trail stops nothing, so a subtree is its root and its children's.\<close>

lemma descend_length_trail:
  assumes "forest ns" and "\<And>t. t \<in> set trail \<Longrightarrow> (t, i) \<notin> (below Q ns)\<^sup>*"
  shows "length (descend Q ns trail i) = length (descend Q ns [] i)"
proof -
  have "set (descend Q ns trail i) = set (descend Q ns [] i)"
  proof (intro set_eqI iffI)
    fix j
    assume "j \<in> set (descend Q ns trail i)"
    from descend_sound [OF this] show "j \<in> set (descend Q ns [] i)"
      by (simp add: descend_iff [OF assms(1)])
  next
    fix j
    assume "j \<in> set (descend Q ns [] i)"
    then show "j \<in> set (descend Q ns trail i)"
      using descend_complete [OF assms(1) _ _ assms(2)] by (simp add: descend_iff [OF assms(1)])
  qed
  then show ?thesis
    using distinct_card [OF descend_distinct [OF assms(1)]] by metis
qed

lemma descend_length:
  assumes "forest ns" and "i \<in> n_id ` set ns"
  shows "length (descend Q ns [] i)
    = Suc (sum_list (map (\<lambda>c. length (descend Q ns [] (n_id c))) (filter (\<lambda>c. n_parent c = Some i \<and> Q c) ns)))"
proof -
  have "length (descend Q ns [i] (n_id c)) = length (descend Q ns [] (n_id c))"
    if "c \<in> set (filter (\<lambda>c. n_parent c = Some i \<and> Q c) ns)" for c
  proof (rule descend_length_trail [OF assms(1)])
    have "(n_id c, i) \<in> below Q ns" using that by (auto simp: below_def)
    then show "(t, n_id c) \<notin> (below Q ns)\<^sup>*" if "t \<in> set [i]" for t
      using that forest_no_cycle [OF assms(1)] by auto
  qed
  then have "sum_list (map (\<lambda>c. length (descend Q ns [i] (n_id c))) (filter (\<lambda>c. n_parent c = Some i \<and> Q c) ns))
      = sum_list (map (\<lambda>c. length (descend Q ns [] (n_id c))) (filter (\<lambda>c. n_parent c = Some i \<and> Q c) ns))"
    by (intro arg_cong [of _ _ sum_list] map_cong) auto
  then show ?thesis
    using assms(2) by (simp add: descend.simps [of Q ns "[]" i] length_concat comp_def)
qed

lemma descend_length_le: "forest ns \<Longrightarrow> length (descend Q ns [] i) \<le> length ns"
proof -
  assume f: "forest ns"
  have "card (set (descend Q ns [] i)) \<le> card (set (map n_id ns))"
    by (rule card_mono) (use descend_ids in auto)
  also have "\<dots> \<le> length ns" using card_length [of "map n_id ns"] by simp
  finally show ?thesis by (simp add: distinct_card [OF descend_distinct [OF f]])
qed

text \<open>A walk reads only the identifiers, the parents and the condition of the rows.\<close>

lemma below_map:
  assumes "\<And>n. n \<in> set ns \<Longrightarrow> n_id (f n) = n_id n \<and> n_parent (f n) = n_parent n"
  shows "below all_rows (map f ns) = below all_rows ns"
proof -
  have "(x, p) \<in> below all_rows (map f ns) \<longleftrightarrow> (x, p) \<in> below all_rows ns" for x p
    unfolding below_def using assms by (auto simp: image_iff) metis+
  then show ?thesis by auto
qed

lemma forest_map:
  assumes "\<And>n. n \<in> set ns \<Longrightarrow> n_id (f n) = n_id n \<and> n_parent (f n) = n_parent n"
  shows "forest (map f ns) \<longleftrightarrow> forest ns"
proof -
  have ids: "map n_id (map f ns) = map n_id ns" using assms by simp
  have "n_id ` set (map f ns) = n_id ` set ns" by (metis ids list.set_map)
  moreover have "(\<forall>n\<in>set (map f ns). \<forall>p. n_parent n = Some p \<longrightarrow> p \<in> A)
      \<longleftrightarrow> (\<forall>n\<in>set ns. \<forall>p. n_parent n = Some p \<longrightarrow> p \<in> A)" for A
    using assms by auto
  moreover have b: "below all_rows (map f ns) = below all_rows ns" by (rule below_map) (rule assms)
  ultimately show ?thesis by (simp only: forest_def ids b)
qed

text \<open>A new leaf, and a subset of the rows that keeps parents, leave a forest.\<close>

lemma forest_append_leaf:
  assumes "forest ns" and "n_id m \<notin> n_id ` set ns"
    and "\<forall>p. n_parent m = Some p \<longrightarrow> p \<in> n_id ` set ns"
  shows "forest (ns @ [m])"
proof -
  have new: "(x, n_id m) \<notin> below all_rows ns" for x
    using assms(1,2) by (auto simp: below_def forest_def)
  have "below all_rows (ns @ [m])
      = (case n_parent m of None \<Rightarrow> below all_rows ns | Some p \<Rightarrow> insert (n_id m, p) (below all_rows ns))"
    by (auto simp: below_def split: option.splits)
  moreover have "acyclic (insert (n_id m, p) (below all_rows ns))" if "n_parent m = Some p" for p
  proof -
    have "p \<in> n_id ` set ns" using that assms(3) by simp
    then have "p \<noteq> n_id m" using assms(2) by metis
    then have "(p, n_id m) \<notin> (below all_rows ns)\<^sup>*"
      using new by (auto elim: rtranclE)
    with assms(1) show ?thesis by (simp add: acyclic_insert forest_def)
  qed
  ultimately have "acyclic (below all_rows (ns @ [m]))"
    using assms(1) by (auto simp: forest_def split: option.splits)
  with assms show ?thesis by (auto simp: forest_def)
qed

lemma forest_subset:
  assumes "forest ns" and "\<And>n p. n \<in> set ns \<Longrightarrow> P n \<Longrightarrow> n_parent n = Some p \<Longrightarrow>
    p \<in> n_id ` set (filter P ns)"
  shows "forest (filter P ns)"
proof -
  have "below all_rows (filter P ns) \<subseteq> below all_rows ns" by (auto simp: below_def)
  with assms show ?thesis by (auto simp: forest_def intro: acyclic_subset)
qed

text \<open>Rows whose parents have smaller identifiers are a forest.\<close>

lemma forest_ascending:
  assumes "distinct (map n_id ns)"
    and "list_all (\<lambda>n. case n_parent n of None \<Rightarrow> True
      | Some p \<Rightarrow> p < n_id n \<and> p \<in> set (map n_id ns)) ns"
  shows "forest ns"
proof -
  have "below all_rows ns \<subseteq> {(i, j). j < i}"
    using assms(2) by (force simp: below_def list_all_iff)
  moreover have "trans {(i, j :: uuid). j < i}" by (auto simp: trans_def)
  ultimately have "(below all_rows ns)\<^sup>+ \<subseteq> {(i, j). j < i}"
    using trancl_mono_subset [of "below all_rows ns" "{(i, j). j < i}"] trancl_id by metis
  then have "acyclic (below all_rows ns)" by (auto simp: acyclic_def)
  with assms show ?thesis by (auto simp: forest_def list_all_iff split: option.splits)
qed

end
