(* ===== verification/Tree.thy ===== *)
theory Tree
  imports Versions Walk
begin

text \<open>
  The file tree of \<open>api/src/db.rs\<close> and \<open>crates/core/src/node.rs\<close>: an account's rows hang off its
  root, names are unique among live siblings, a file carries a blob and is charged for it. The
  invariant \<open>sound\<close> joins the constraints of the schema, the shape of the tree and the balance of
  the two counters; the operations that write the tree keep it.
\<close>

section \<open>Operations\<close>

subsection \<open>Tags\<close>

definition quoted :: "string \<Rightarrow> string" where
  "quoted s = CHR 0x22 # s @ [CHR 0x22]"

definition etag_for_file :: "crates \<Rightarrow> blob_hash \<Rightarrow> string" where
  "etag_for_file C h = quoted (take 32 (hex_encode C h))"

definition etag_for_directory :: "crates \<Rightarrow> db \<Rightarrow> string \<times> db" where
  "etag_for_directory C db = (let (i, db1) = now_v7 db in (quoted (uuid_simple C i), db1))"

subsection \<open>Lookups\<close>

definition child :: "uuid \<Rightarrow> node_name \<Rightarrow> db \<Rightarrow> node option" where
  "child i name db =
     find (\<lambda>n. n_parent n = Some i \<and> n_name n = as_str name \<and> live n) (nodes db)"

definition live_node :: "uuid \<Rightarrow> db \<Rightarrow> node option" where
  "live_node i db = find (\<lambda>n. n_id n = i \<and> live n) (nodes db)"

definition children_in :: "uuid \<Rightarrow> db \<Rightarrow> node list" where
  "children_in i db = filter (\<lambda>n. n_parent n = Some i \<and> live n) (nodes db)"

text \<open>\<open>ORDER BY kind DESC, name\<close>: the enum lists directories before files, so files come first.\<close>

definition list_children :: "uuid \<Rightarrow> db \<Rightarrow> node list" where
  "list_children i db = sort_key (\<lambda>n. ((if n_kind n = File then 0 else 1::nat) # map of_char (n_name n)))
     (children_in i db)"

fun resolve :: "node \<Rightarrow> node_name list \<Rightarrow> db \<Rightarrow> api_error + node" where
  "resolve current [] db = Inr current"
| "resolve current (segment # rest) db =
     rbind (ok_or NotFound (child (n_id current) segment db)) (\<lambda>c. resolve c rest db)"

definition contains :: "node \<Rightarrow> node \<Rightarrow> db \<Rightarrow> bool" where
  "contains ancestor n db \<longleftrightarrow> n_id ancestor \<in> set (ancestry (nodes db) [] (n_id n))"

subsection \<open>Writing rows\<close>

definition name_taken :: "db_error \<Rightarrow> string \<Rightarrow> api_error" where
  "name_taken e name = (if e = UniqueViolation ''nodes_unique_name_per_parent''
     then Conflict name else Database e)"

definition insert_node :: "node \<Rightarrow> db \<Rightarrow> db_error + db" where
  "insert_node n db = store_nodes (nodes db @ [n]) db"

definition update_node :: "uuid \<Rightarrow> (node \<Rightarrow> node) \<Rightarrow> db \<Rightarrow> db_error + db" where
  "update_node i f db = store_nodes (map (\<lambda>n. if n_id n = i then f n else n) (nodes db)) db"

text \<open>\<open>fetch_one\<close> and the row a \<open>RETURNING\<close> clause answers.\<close>

definition fetch_one :: "uuid \<Rightarrow> db \<Rightarrow> api_error + node" where
  "fetch_one i db = ok_or (Database RowNotFound) (find_node (nodes db) i)"

definition insert_quota :: "uuid \<Rightarrow> int \<Rightarrow> db \<Rightarrow> api_error + db" where
  "insert_quota owner quota_bytes db =
     (if quota_bytes \<le> 0 then Inl (Database (CheckViolation ''quotas_bytes_max_check''))
      else if owner \<in> set (map q_owner (quotas db)) then Inr db
      else if owner \<notin> set (map u_id (users db))
        then Inl (Database (ForeignKeyViolation ''quotas_owner_exists''))
      else Inr (db\<lparr>quotas := quotas db @ [\<lparr>q_owner = owner, q_used = 0, q_max = quota_bytes\<rparr>]\<rparr>))"

definition ensure_root :: "crates \<Rightarrow> timestamp \<Rightarrow> uuid \<Rightarrow> int \<Rightarrow> db \<Rightarrow> api_error + node \<times> db" where
  "ensure_root C now owner quota_bytes db =
     rbind (insert_quota owner quota_bytes db) (\<lambda>db1.
     let (i, db2) = now_v7 db1;
         (etag, db3) = etag_for_directory C db2;
         n = \<lparr>n_id = i, n_owner = owner, n_parent = None, n_name = [], n_kind = Directory,
              n_blob = None, n_size = 0, n_etag = etag, n_created = now, n_updated = now,
              n_deleted = None, n_trash_root = None\<rparr>
     in rbind (case insert_node n db3 of
            Inr db4 \<Rightarrow> Inr db4
          | Inl (UniqueViolation _) \<Rightarrow> Inr db3
          | Inl e \<Rightarrow> Inl (Database e))
        (\<lambda>db4. rbind (ok_or (Database RowNotFound)
            (find (\<lambda>n. n_owner n = owner \<and> n_parent n = None \<and> live n) (nodes db4)))
          (\<lambda>root. Inr (root, db4))))"

definition insert_directory ::
    "crates \<Rightarrow> timestamp \<Rightarrow> uuid \<Rightarrow> uuid \<Rightarrow> node_name \<Rightarrow> db \<Rightarrow> api_error + node \<times> db" where
  "insert_directory C now owner i name db =
     (let (new, db1) = now_v7 db;
          (etag, db2) = etag_for_directory C db1;
          n = \<lparr>n_id = new, n_owner = owner, n_parent = Some i, n_name = as_str name,
               n_kind = Directory, n_blob = None, n_size = 0, n_etag = etag, n_created = now,
               n_updated = now, n_deleted = None, n_trash_root = None\<rparr>
      in case insert_node n db2 of
           Inr db3 \<Rightarrow> Inr (n, db3)
         | Inl e \<Rightarrow>
             if e = UniqueViolation ''nodes_unique_name_per_parent''
             then (case child i name db2 of
                 Some existing \<Rightarrow> (if n_kind existing = Directory then Inr (existing, db2)
                   else Inl (Conflict (as_str name)))
               | None \<Rightarrow> Inl (Conflict (as_str name)))
             else Inl (Database e))"

fun create_segments ::
    "crates \<Rightarrow> timestamp \<Rightarrow> uuid \<Rightarrow> node \<Rightarrow> node_name list \<Rightarrow> db \<Rightarrow> api_error + node \<times> db" where
  "create_segments C now owner current [] db = Inr (current, db)"
| "create_segments C now owner current (segment # rest) db =
     rbind (case child (n_id current) segment db of
         Some existing \<Rightarrow> (if n_kind existing = Directory then Inr (existing, db)
           else Inl (Conflict (as_str segment)))
       | None \<Rightarrow> insert_directory C now owner (n_id current) segment db)
     (\<lambda>(next, db1). create_segments C now owner next rest db1)"

definition create_directories ::
    "crates \<Rightarrow> timestamp \<Rightarrow> uuid \<Rightarrow> node \<Rightarrow> node_name list \<Rightarrow> db \<Rightarrow> api_error + node \<times> db" where
  "create_directories C now owner root path db =
     (if path \<noteq> [] \<and> n_kind root \<noteq> Directory then Inl (WrongKind ''directory'')
      else create_segments C now owner root path db)"

definition put_file ::
    "crates \<Rightarrow> timestamp \<Rightarrow> uuid \<Rightarrow> node \<Rightarrow> node_name \<Rightarrow> blob_hash \<Rightarrow> int \<Rightarrow> int \<Rightarrow> db
      \<Rightarrow> api_error + node \<times> db" where
  "put_file C now owner dir name h bytes versions_kept db =
     rbind (insert_blob \<lparr>b_hash = h, b_size = bytes, b_refs = 0, b_created = now,
         b_unreferenced = None\<rparr> db) (\<lambda>db1.
     let existing = child (n_id dir) name db1;
         previous = (case existing of None \<Rightarrow> None
           | Some n \<Rightarrow> map_option (\<lambda>b. (n_id n, b, n_size n)) (n_blob n))
     in if (case existing of Some n \<Rightarrow> n_kind n = Directory | None \<Rightarrow> False)
        then Inl (Conflict (as_str name))
        else rbind (case previous of
            Some (i, b, s) \<Rightarrow>
              if versions_kept > 0 \<and> s > 0 \<and> b \<noteq> h then make_room now owner i bytes s db1
              else rbind (charge_quota owner (bytes - s) db1) (\<lambda>db2. Inr (False, db2))
          | None \<Rightarrow> rbind (charge_quota owner bytes db1) (\<lambda>db2. Inr (False, db2)))
        (\<lambda>(versioned, db2).
        rbind (case previous of
            Some (i, b, s) \<Rightarrow>
              rbind (if versioned then keep now i b s (acquire_blob h db2)
                     else Inr (release_blob now b (acquire_blob h db2)))
                (prune_beyond now owner i versions_kept)
          | None \<Rightarrow> Inr (acquire_blob h db2))
        (\<lambda>db3. case existing of
            Some n \<Rightarrow>
              rbind (map_err Database (update_node (n_id n)
                (\<lambda>r. r\<lparr>n_blob := Some h, n_size := bytes, n_etag := etag_for_file C h,
                       n_updated := now\<rparr>) db3))
              (\<lambda>db4. rbind (fetch_one (n_id n) db4) (\<lambda>r. Inr (r, db4)))
          | None \<Rightarrow>
              let (i, db4) = now_v7 db3;
                  n = \<lparr>n_id = i, n_owner = owner, n_parent = Some (n_id dir),
                       n_name = as_str name, n_kind = File, n_blob = Some h, n_size = bytes,
                       n_etag = etag_for_file C h, n_created = now, n_updated = now,
                       n_deleted = None, n_trash_root = None\<rparr>
              in rbind (map_err Database (insert_node n db4)) (\<lambda>db5. Inr (n, db5)))))"

definition copy_one ::
    "crates \<Rightarrow> timestamp \<Rightarrow> uuid \<Rightarrow> uuid \<Rightarrow> string \<Rightarrow> node \<Rightarrow> db \<Rightarrow> api_error + node \<times> db" where
  "copy_one C now owner i name original db =
     (let (etag, db1) = (case n_kind original of
            Directory \<Rightarrow> etag_for_directory C db
          | File \<Rightarrow> (n_etag original, db));
          (new, db2) = now_v7 db1;
          n = \<lparr>n_id = new, n_owner = owner, n_parent = Some i, n_name = name,
               n_kind = n_kind original, n_blob = n_blob original, n_size = n_size original,
               n_etag = etag, n_created = now, n_updated = now, n_deleted = None,
               n_trash_root = None\<rparr>
      in rbind (map_err (\<lambda>e. name_taken e name) (insert_node n db2)) (\<lambda>db3.
         Inr (n, case n_blob original of None \<Rightarrow> db3 | Some h \<Rightarrow> acquire_blob h db3)))"

fun copy_children ::
    "crates \<Rightarrow> timestamp \<Rightarrow> uuid \<Rightarrow> uuid \<Rightarrow> node list \<Rightarrow> int \<times> (uuid \<times> uuid) list \<times> db
      \<Rightarrow> api_error + int \<times> (uuid \<times> uuid) list \<times> db" where
  "copy_children C now owner into [] acc = Inr acc"
| "copy_children C now owner into (original # rest) (spent, pending, db) =
     rbind (copy_one C now owner into (n_name original) original db) (\<lambda>(copy, db1).
       copy_children C now owner into rest
         (spent + n_size original,
          (if n_kind original = Directory then (n_id original, n_id copy) # pending else pending),
          db1))"

text \<open>
  The loop over the directories still to copy; \<open>pending\<close> is the stack, its top first. Fuel bounds
  the turns, and \<open>None\<close> is running out of it.
\<close>

fun copy_pending ::
    "nat \<Rightarrow> crates \<Rightarrow> timestamp \<Rightarrow> uuid \<Rightarrow> int \<times> (uuid \<times> uuid) list \<times> db
      \<Rightarrow> (api_error + int \<times> db) option" where
  "copy_pending fuel C now owner (spent, [], db) = Some (Inr (spent, db))"
| "copy_pending 0 C now owner (spent, p # pending, db) = None"
| "copy_pending (Suc fuel) C now owner (spent, (origin, into) # pending, db) =
     (case copy_children C now owner into (children_in origin db) (spent, pending, db) of
        Inl e \<Rightarrow> Some (Inl e)
      | Inr acc \<Rightarrow> copy_pending fuel C now owner acc)"

text \<open>Each turn takes a directory below the source, so there are at most as many as rows.\<close>

definition copy_tree ::
    "crates \<Rightarrow> timestamp \<Rightarrow> uuid \<Rightarrow> node \<Rightarrow> node \<Rightarrow> node_name \<Rightarrow> db
      \<Rightarrow> (api_error + node \<times> db) option" where
  "copy_tree C now owner source dir name db =
     (if n_kind dir \<noteq> Directory then Some (Inl (WrongKind ''directory''))
      else if n_kind source = Directory \<and> contains source dir db then Some (Inl MoveIntoSelf)
      else if child (n_id dir) name db \<noteq> None then Some (Inl (Conflict (as_str name)))
      else case copy_one C now owner (n_id dir) (as_str name) source db of
          Inl e \<Rightarrow> Some (Inl e)
        | Inr (root, db1) \<Rightarrow>
            map_option (\<lambda>r. rbind r (\<lambda>(spent, db2).
                rbind (charge_quota owner spent db2) (\<lambda>db3. Inr (root, db3))))
              (copy_pending (length (nodes db)) C now owner
                (n_size source, [(n_id source, n_id root)], db1)))"

definition rename :: "crates \<Rightarrow> timestamp \<Rightarrow> node \<Rightarrow> node \<Rightarrow> node_name \<Rightarrow> db \<Rightarrow> api_error + node \<times> db" where
  "rename C now n dir name db =
     (if n_kind dir \<noteq> Directory then Inl (WrongKind ''directory'')
      else if n_kind n = Directory \<and> contains n dir db then Inl MoveIntoSelf
      else if child (n_id dir) name db \<noteq> None then Inl (Conflict (as_str name))
      else let (etag, db1) = (case n_kind n of
                 Directory \<Rightarrow> etag_for_directory C db
               | File \<Rightarrow> (n_etag n, db))
        in rbind (map_err (\<lambda>e. name_taken e (as_str name)) (update_node (n_id n)
              (\<lambda>r. r\<lparr>n_parent := Some (n_id dir), n_name := as_str name, n_etag := etag,
                     n_updated := now\<rparr>) db1))
           (\<lambda>db2. rbind (fetch_one (n_id n) db2) (\<lambda>r. Inr (r, db2))))"

section \<open>The invariant\<close>

text \<open>What a row owes the row it hangs from.\<close>

definition hangs :: "node \<Rightarrow> node \<Rightarrow> bool" where
  "hangs n p \<longleftrightarrow> n_kind p = Directory \<and> n_owner p = n_owner n \<and> (live n \<longrightarrow> live p)
     \<and> (n_trash_root n \<noteq> None \<longrightarrow> n_trash_root n = Some (n_id n) \<or> n_trash_root p = n_trash_root n)"

definition heads :: "node \<Rightarrow> bool" where
  "heads n \<longleftrightarrow> n_kind n = Directory \<and> (n_trash_root n \<noteq> None \<longrightarrow> n_trash_root n = Some (n_id n))"

definition tree_rows :: "node list \<Rightarrow> bool" where
  "tree_rows ns \<longleftrightarrow> forest ns
     \<and> list_all (\<lambda>n. list_all (\<lambda>p. n_parent n = Some (n_id p) \<longrightarrow> hangs n p) ns) ns
     \<and> list_all (\<lambda>n. n_parent n = None \<longrightarrow> heads n) ns"

definition tree_ok :: "db \<Rightarrow> bool" where
  "tree_ok db \<longleftrightarrow> tree_rows (nodes db)
     \<and> list_all (\<lambda>v. list_all (\<lambda>n. n_id n = v_node v \<longrightarrow> n_kind n = File) (nodes db)) (versions db)"

definition sound :: "db \<Rightarrow> bool" where
  "sound db \<longleftrightarrow> schema_ok db \<and> thumbnails_ok db \<and> tree_ok db \<and> balanced db"

section \<open>Drift of the elementary statements\<close>

text \<open>What a row adds to the usage of an account.\<close>

definition row_share :: "version list \<Rightarrow> uuid \<Rightarrow> node \<Rightarrow> int" where
  "row_share vs x n = (if live n \<and> n_owner n = x then cost vs n else 0)"

lemma expected_usage_shares:
  "nodes_ok db \<Longrightarrow> expected_usage db x = sum_rows (row_share (versions db) x) (nodes db)"
  by (simp add: expected_usage_cost row_share_def [abs_def])

lemma nodes_drift:
  assumes "nodes_ok db" and "nodes_ok (db\<lparr>nodes := ns\<rparr>)"
  shows "use_drift (db\<lparr>nodes := ns\<rparr>) x = use_drift db x
      + sum_rows (row_share (versions db) x) (nodes db) - sum_rows (row_share (versions db) x) ns"
    and "ref_drift (db\<lparr>nodes := ns\<rparr>) h = ref_drift db h
      + count_rows (\<lambda>n. n_blob n = Some h) (nodes db) - count_rows (\<lambda>n. n_blob n = Some h) ns"
proof -
  have "used (db\<lparr>nodes := ns\<rparr>) = used db" by (rule used_quotas) simp
  moreover have "stored_refs (db\<lparr>nodes := ns\<rparr>) = stored_refs db" by (rule stored_refs_blobs) simp
  ultimately show "use_drift (db\<lparr>nodes := ns\<rparr>) x = use_drift db x
      + sum_rows (row_share (versions db) x) (nodes db) - sum_rows (row_share (versions db) x) ns"
    and "ref_drift (db\<lparr>nodes := ns\<rparr>) h = ref_drift db h
      + count_rows (\<lambda>n. n_blob n = Some h) (nodes db) - count_rows (\<lambda>n. n_blob n = Some h) ns"
    by (simp_all add: use_drift_def ref_drift_def expected_usage_shares assms expected_references_def)
qed

lemma acquire_drift:
  assumes "has_blob db h"
  shows "ref_drift (acquire_blob h db) x = ref_drift db x + (if x = h then 1 else 0)"
    and "use_drift (acquire_blob h db) = use_drift db"
proof -
  have "expected_usage (acquire_blob h db) = expected_usage db" by (rule expected_frame) simp_all
  moreover have "expected_references (acquire_blob h db) = expected_references db"
    by (rule expected_frame) simp_all
  ultimately show "ref_drift (acquire_blob h db) x = ref_drift db x + (if x = h then 1 else 0)"
    and "use_drift (acquire_blob h db) = use_drift db"
    using assms by (simp_all add: ref_drift_def fun_eq_iff use_drift_def acquire_blob_count)
qed

lemma release_drift:
  assumes "0 < stored_refs db h"
  shows "ref_drift (release_blob now h db) x = ref_drift db x - (if x = h then 1 else 0)"
    and "use_drift (release_blob now h db) = use_drift db"
proof -
  have "expected_usage (release_blob now h db) = expected_usage db" by (rule expected_frame) simp_all
  moreover have "expected_references (release_blob now h db) = expected_references db"
    by (rule expected_frame) simp_all
  ultimately show "ref_drift (release_blob now h db) x = ref_drift db x - (if x = h then 1 else 0)"
    and "use_drift (release_blob now h db) = use_drift db"
    using assms by (simp_all add: ref_drift_def fun_eq_iff use_drift_def release_blob_count)
qed

lemma store_version_eq_Inr:
  "store_version v db = Inr db' \<longleftrightarrow> 0 \<le> v_size v \<and> v_id v \<notin> v_id ` set (versions db)
     \<and> v_node v \<in> n_id ` set (nodes db) \<and> has_blob db (v_blob v)
     \<and> db' = db\<lparr>versions := versions db @ [v]\<rparr>"
  by (auto simp: store_version_def has_blob_def)

lemma now_v7_drift [simp]:
  "schema_ok (snd (now_v7 db)) = schema_ok db" "tree_ok (snd (now_v7 db)) = tree_ok db"
  "thumbnails_ok (snd (now_v7 db)) = thumbnails_ok db" "ref_drift (snd (now_v7 db)) = ref_drift db"
  "use_drift (snd (now_v7 db)) = use_drift db" "balanced (snd (now_v7 db)) = balanced db"
  "has_blob (snd (now_v7 db)) = has_blob db" "nodes_ok (snd (now_v7 db)) = nodes_ok db"
  by (simp_all add: schema_ok_def nodes_ok_def blobs_ok_def quotas_ok_def versions_ok_def tree_ok_def
      thumbnails_ok_def fun_eq_iff ref_drift_def use_drift_def balanced_def has_blob_def
      expected_references_def expected_usage_def used_def find_quota_def stored_refs_def find_blob_def)

lemma sound_now_v7 [simp]: "sound (snd (now_v7 db)) = sound db"
  by (simp add: sound_def)

text \<open>The tables apart from the books.\<close>

lemma sound_apart [simp]:
  "sound (db\<lparr>grants := gs\<rparr>) = sound db" "sound (db\<lparr>locks := ls\<rparr>) = sound db"
  "sound (db\<lparr>shares := ss\<rparr>) = sound db" "sound (db\<lparr>sessions := xs\<rparr>) = sound db"
  "sound (db\<lparr>app_passwords := ps\<rparr>) = sound db" "sound (db\<lparr>attempts := ats\<rparr>) = sound db"
  "sound (db\<lparr>uploads := us\<rparr>) = sound db" "sound (db\<lparr>settings := ss'\<rparr>) = sound db"
  "sound (db\<lparr>uuids := is\<rparr>) = sound db"
  by (simp_all add: sound_def schema_ok_def nodes_ok_def blobs_ok_def quotas_ok_def versions_ok_def
      thumbnails_ok_def has_blob_def tree_ok_def balanced_def stored_refs_def find_blob_def
      expected_references_def used_def find_quota_def expected_usage_def)

lemma keep_books:
  assumes ok: "schema_ok db" and n: "find_node (nodes db) i = Some n" "live n" "n_owner n = owner"
    and k: "keep now i b s db = Inr db'"
  shows "schema_ok db'" and "nodes db' = nodes db" and "users db' = users db"
    and "thumbnails db' = thumbnails db" and "blobs db' = blobs db"
    and "ref_drift db' x = ref_drift db x - (if x = b then 1 else 0)"
    and "use_drift db' y = use_drift db y - (if y = owner then s else 0)"
    and "\<exists>v. v_node v = i \<and> versions db' = versions db @ [v]"
proof -
  obtain v where v: "v_node v = i" "v_blob v = b" "v_size v = s"
    and st: "store_version v (snd (now_v7 db)) = Inr db'"
    using k that [of "\<lparr>v_id = uuids db 0, v_node = i, v_blob = b, v_size = s, v_created = now\<rparr>"]
    by (simp add: keep_def case_prod_unfold Let_def)
  note db' = st [unfolded store_version_eq_Inr]
  have e: "nodes db' = nodes db" "users db' = users db" "thumbnails db' = thumbnails db"
    "blobs db' = blobs db" "quotas db' = quotas db" "versions db' = versions db @ [v]"
    using db' by simp_all
  show "schema_ok db'"
    using ok db' by (auto simp: schema_ok_def nodes_ok_def blobs_ok_def quotas_ok_def versions_ok_def has_blob_def)
  show "nodes db' = nodes db" "users db' = users db" "thumbnails db' = thumbnails db"
    "blobs db' = blobs db" "\<exists>v. v_node v = i \<and> versions db' = versions db @ [v]"
    using e v by auto
  show "ref_drift db' x = ref_drift db x - (if x = b then 1 else 0)"
    by (simp add: ref_drift_def stored_refs_blobs [OF e(4)] expected_references_def e v)
  show "use_drift db' y = use_drift db y - (if y = owner then s else 0)"
    by (simp add: use_drift_def used_quotas [OF e(5)] expected_usage_def e v n)
qed

text \<open>A blob row that nothing refers to yet counts nothing.\<close>

lemma insert_blob_eq_Inr:
  "insert_blob b db = Inr db' \<longleftrightarrow> 0 \<le> b_size b
     \<and> db' = (if has_blob db (b_hash b) then db else db\<lparr>blobs := blobs db @ [b]\<rparr>)"
  by (auto simp: insert_blob_def has_blob_def)

lemma find_append_other:
  "\<not> P y \<Longrightarrow> find P (xs @ [y]) = find P xs"
  by (induction xs) auto

lemma find_append_new:
  "(\<And>x. x \<in> set xs \<Longrightarrow> \<not> P x) \<Longrightarrow> find P (xs @ [y]) = (if P y then Some y else None)"
  by (induction xs) auto

lemma insert_blob_sound:
  assumes "sound db" and i: "insert_blob b db = Inr db'" and z: "b_refs b = 0"
  shows "sound db'" and "has_blob db' (b_hash b)" and "nodes db' = nodes db"
    and "users db' = users db" and "versions db' = versions db" and "thumbnails db' = thumbnails db"
    and "\<And>h. has_blob db h \<Longrightarrow> has_blob db' h" and "quotas db' = quotas db" and "uuids db' = uuids db"
proof -
  note e = i [unfolded insert_blob_eq_Inr]
  show f: "has_blob db' (b_hash b)" "nodes db' = nodes db" "users db' = users db"
    "versions db' = versions db" "thumbnails db' = thumbnails db" "quotas db' = quotas db"
    "uuids db' = uuids db"
    using e by (auto simp: has_blob_def)
  show m: "has_blob db h \<Longrightarrow> has_blob db' h" for h using e by (auto simp: has_blob_def)
  show "sound db'"
  proof (cases "has_blob db (b_hash b)")
    case True
    with e assms(1) show ?thesis by simp
  next
    case False
    with e have db': "db' = db\<lparr>blobs := blobs db @ [b]\<rparr>" and pos: "0 \<le> b_size b" by auto
    have s: "schema_ok db" "thumbnails_ok db" "tree_ok db" "balanced db"
      using assms(1) by (simp_all add: sound_def)
    have nv: "nodes_violation us hs ns = None \<Longrightarrow> nodes_violation us (hs @ hs') ns = None" for us hs hs' ns
      unfolding nodes_violation_None by auto
    have sr: "stored_refs db' h = stored_refs db h" for h
    proof (cases "h = b_hash b")
      case True
      have "\<not> b_hash b' = h" if "b' \<in> set (blobs db)" for b'
        using False True that by (metis has_blob_def image_eqI list.set_map)
      then have "find_blob h db' = (if b_hash b = h then Some b else None)"
        unfolding find_blob_def db' by (simp add: find_append_new)
      then have "find_blob h db' = Some b" using True by simp
      moreover have "find_blob h db = None" using False True has_blob_find by fastforce
      ultimately show ?thesis by (simp add: stored_refs_def z)
    next
      case False
      then show ?thesis by (simp add: stored_refs_def find_blob_def db' find_append_other)
    qed
    have "nodes_ok db'" using schema_okD(1) [OF s(1)] by (simp add: db' nodes_ok_def nv)
    moreover have "blobs_ok db'"
      using schema_okD(2) [OF s(1)] False pos z by (simp add: db' blobs_ok_def has_blob_def)
    moreover have "versions_ok db'"
      using schema_okD(4) [OF s(1)] by (auto simp: db' versions_ok_def list_all_iff)
    ultimately have "schema_ok db'"
      using schema_okD(3) [OF s(1)] by (simp add: schema_ok_def quotas_ok_def f)
    moreover have "thumbnails_ok db'"
      using s(2) m by (simp add: thumbnails_ok_def f list_all_iff)
    moreover have "tree_ok db'" using s(3) by (simp add: tree_ok_def f)
    moreover have "balanced db'"
      using s(4) unfolding balanced_def sr expected_references_def expected_usage_def f
        used_quotas [OF f(6)] .
    ultimately show ?thesis by (simp add: sound_def)
  qed
qed

section \<open>Rows of a tree\<close>

lemma tree_rowsD:
  assumes "tree_rows ns"
  shows tree_rows_forest: "forest ns"
    and tree_rows_hangs: "n \<in> set ns \<Longrightarrow> p \<in> set ns \<Longrightarrow> n_parent n = Some (n_id p) \<Longrightarrow> hangs n p"
    and tree_rows_root: "n \<in> set ns \<Longrightarrow> n_parent n = None \<Longrightarrow> heads n"
  using assms unfolding tree_rows_def list_all_iff by blast+

lemma tree_rowsI:
  assumes "forest ns"
    and "\<And>n p. n \<in> set ns \<Longrightarrow> p \<in> set ns \<Longrightarrow> n_parent n = Some (n_id p) \<Longrightarrow> hangs n p"
    and "\<And>n. n \<in> set ns \<Longrightarrow> n_parent n = None \<Longrightarrow> heads n"
  shows "tree_rows ns"
  using assms unfolding tree_rows_def list_all_iff by blast

text \<open>A new live leaf under a live directory of its owner.\<close>

lemma tree_rows_leaf:
  assumes "tree_rows ns" and fresh: "n_id m \<notin> n_id ` set ns"
    and top: "n_parent m = None \<Longrightarrow> heads m"
    and par: "\<And>i. n_parent m = Some i \<Longrightarrow> \<exists>p\<in>set ns. n_id p = i \<and> hangs m p"
  shows "tree_rows (ns @ [m])"
proof (rule tree_rowsI)
  have f: "forest ns" by (rule tree_rows_forest [OF assms(1)])
  then have closed: "\<And>n i. n \<in> set ns \<Longrightarrow> n_parent n = Some i \<Longrightarrow> i \<in> n_id ` set ns"
    by (auto simp: forest_def)
  show "forest (ns @ [m])"
    using par by (intro forest_append_leaf f fresh) force
  fix n p
  assume np: "n \<in> set (ns @ [m])" "p \<in> set (ns @ [m])" "n_parent n = Some (n_id p)"
  show "hangs n p"
  proof (cases "n = m")
    case True
    with par [of "n_id p"] np obtain q where q: "q \<in> set ns" "n_id q = n_id p" "hangs m q" by auto
    then have "p \<noteq> m" using fresh by (metis image_eqI)
    with np have "p \<in> set ns" by auto
    then have "p = q" using q distinct_key_eq [of n_id ns p q] f by (auto simp: forest_def)
    with q True show ?thesis by simp
  next
    case False
    with np have n: "n \<in> set ns" by auto
    then have "n_id p \<in> n_id ` set ns" using closed np(3) by blast
    then have "p \<noteq> m" using fresh by metis
    with np have "p \<in> set ns" by auto
    with n np(3) show ?thesis using tree_rows_hangs [OF assms(1)] by blast
  qed
next
  fix n
  assume "n \<in> set (ns @ [m])" "n_parent n = None"
  then show "heads n"
    using top tree_rows_root [OF assms(1), of n] by auto
qed

text \<open>A rewrite of the rows that leaves what the shape of the tree reads.\<close>

definition same_shape :: "node \<Rightarrow> node \<Rightarrow> bool" where
  "same_shape n m \<longleftrightarrow> n_id m = n_id n \<and> n_parent m = n_parent n \<and> n_owner m = n_owner n
     \<and> n_kind m = n_kind n \<and> n_deleted m = n_deleted n \<and> n_trash_root m = n_trash_root n"

lemma tree_rows_same_shape:
  assumes "tree_rows ns" and f: "\<And>n. n \<in> set ns \<Longrightarrow> same_shape n (f n)"
  shows "tree_rows (map f ns)"
proof (rule tree_rowsI)
  show "forest (map f ns)"
    using tree_rows_forest [OF assms(1)] f by (subst forest_map) (auto simp: same_shape_def)
  show "hangs n p" if "n \<in> set (map f ns)" "p \<in> set (map f ns)" "n_parent n = Some (n_id p)" for n p
  proof -
    from that obtain n0 p0 where o: "n0 \<in> set ns" "n = f n0" "p0 \<in> set ns" "p = f p0" by auto
    note s = f [OF o(1)] f [OF o(3)]
    have "hangs n0 p0"
      using tree_rows_hangs [OF assms(1) o(1,3)] that(3) s by (auto simp: same_shape_def o)
    then show ?thesis using s by (auto simp: hangs_def same_shape_def o live_def)
  qed
  show "heads n" if "n \<in> set (map f ns)" "n_parent n = None" for n
  proof -
    from that obtain n0 where o: "n0 \<in> set ns" "n = f n0" by auto
    with f [OF o(1)] tree_rows_root [OF assms(1) o(1)] that show ?thesis
      by (auto simp: same_shape_def heads_def)
  qed
qed

section \<open>Storing rows\<close>

lemma store_nodes_ok:
  assumes "schema_ok db" and "store_nodes ns db = Inr db'"
    and "n_id ` set (nodes db) \<subseteq> n_id ` set ns"
  shows "schema_ok db'" and "db' = db\<lparr>nodes := ns\<rparr>" and "nodes_ok db'"
proof -
  note s = assms(2) [unfolded store_nodes_eq_Inr]
  show db': "db' = db\<lparr>nodes := ns\<rparr>" using s by simp
  show ok: "nodes_ok db'" using s by (simp add: nodes_ok_def)
  have "versions_ok db'"
    using schema_okD(4) [OF assms(1)] assms(3) by (auto simp: versions_ok_def db' list_all_iff)
  with ok show "schema_ok db'"
    using assms(1) by (simp add: schema_ok_def db' blobs_ok_def quotas_ok_def)
qed

text \<open>The tables other than \<open>nodes\<close>, and the identifiers still to draw.\<close>

definition same_rest :: "db \<Rightarrow> db \<Rightarrow> bool" where
  "same_rest db db' \<longleftrightarrow> users db' = users db \<and> blobs db' = blobs db \<and> quotas db' = quotas db
     \<and> versions db' = versions db \<and> thumbnails db' = thumbnails db \<and> grants db' = grants db
     \<and> locks db' = locks db \<and> shares db' = shares db"

lemma same_rest_nodes [simp]: "same_rest db (db\<lparr>nodes := ns\<rparr>)"
  by (simp add: same_rest_def)

lemma thumbnails_ok_rest: "same_rest db db' \<Longrightarrow> thumbnails_ok db' = thumbnails_ok db"
  by (simp add: same_rest_def thumbnails_ok_def has_blob_def)

lemma insert_node_books:
  assumes ok: "schema_ok db" "tree_ok db" and i: "insert_node m db = Inr db'"
    and tr: "n_trash_root m = None" "live m" and top: "n_parent m = None \<Longrightarrow> n_kind m = Directory"
    and par: "\<And>i. n_parent m = Some i \<Longrightarrow> \<exists>p\<in>set (nodes db). n_id p = i \<and> hangs m p"
  shows "schema_ok db'" and "tree_ok db'" and "nodes db' = nodes db @ [m]" and "same_rest db db'"
    and "ref_drift db' h = ref_drift db h - (if n_blob m = Some h then 1 else 0)"
    and "use_drift db' x = use_drift db x - (if x = n_owner m then n_size m else 0)"
    and "n_id m \<notin> n_id ` set (nodes db)" and "uuids db' = uuids db"
proof -
  have st: "store_nodes (nodes db @ [m]) db = Inr db'" using i by (simp add: insert_node_def)
  note r = store_nodes_ok [OF ok(1) st]
  show s: "schema_ok db'" by (rule r) auto
  have db': "db' = db\<lparr>nodes := nodes db @ [m]\<rparr>" by (rule r) auto
  then show "nodes db' = nodes db @ [m]" "same_rest db db'" "uuids db' = uuids db" by simp_all
  have d: "distinct (map n_id (nodes db @ [m]))"
    using nodes_ok_distinct [OF schema_okD(1) [OF s]] by (simp add: db')
  then show fresh: "n_id m \<notin> n_id ` set (nodes db)" by simp
  have vs: "v_node v \<noteq> n_id m" if "v \<in> set (versions db)" for v
    using schema_okD(4) [OF ok(1)] that fresh unfolding versions_ok_def list_all_iff list.set_map
    by metis
  have "tree_rows (nodes db @ [m])"
    using ok(2) fresh tr(1) top par by (intro tree_rows_leaf) (auto simp: tree_ok_def heads_def)
  moreover have "n_kind m = File" if "v \<in> set (versions db)" "n_id m = v_node v" for v
    using vs [OF that(1)] that(2) by simp
  ultimately show "tree_ok db'"
    using ok(2) by (auto simp: tree_ok_def db' list_all_iff)
  have "held_bytes (versions db) (n_id m) = 0" by (rule held_bytes_none) (rule vs)
  then have "row_share (versions db) x m = (if x = n_owner m then n_size m else 0)"
    using tr(2) by (simp add: row_share_def cost_def)
  with nodes_drift(1) [OF schema_okD(1) [OF ok(1)], of "nodes db @ [m]" x] schema_okD(1) [OF s]
  show "use_drift db' x = use_drift db x - (if x = n_owner m then n_size m else 0)"
    by (simp add: db')
  from nodes_drift(2) [OF schema_okD(1) [OF ok(1)], of "nodes db @ [m]" h] schema_okD(1) [OF s]
  show "ref_drift db' h = ref_drift db h - (if n_blob m = Some h then 1 else 0)"
    by (simp add: db')
qed

lemma update_node_books:
  assumes ok: "schema_ok db" "tree_ok db" and u: "update_node i f db = Inr db'"
    and n: "find_node (nodes db) i = Some n" and f: "same_shape n (f n)"
  shows "schema_ok db'" and "tree_ok db'" and "same_rest db db'" and "uuids db' = uuids db"
    and "nodes db' = map (\<lambda>n. if n_id n = i then f n else n) (nodes db)"
    and "ref_drift db' h = ref_drift db h
      - (if n_blob (f n) = Some h then 1 else 0) + (if n_blob n = Some h then 1 else 0)"
    and "use_drift db' x = use_drift db x
      - (if live n \<and> x = n_owner n then n_size (f n) - n_size n else 0)"
proof -
  let ?g = "\<lambda>n. if n_id n = i then f n else n"
  have st: "store_nodes (map ?g (nodes db)) db = Inr db'" using u by (simp add: update_node_def)
  have nn: "n \<in> set (nodes db)" "n_id n = i" using find_node_Some [OF n] by simp_all
  have d: "distinct (map n_id (nodes db))" by (rule nodes_ok_distinct [OF schema_okD(1) [OF ok(1)]])
  have one: "m = n" if "m \<in> set (nodes db)" "n_id m = i" for m
    using distinct_key_eq [OF d that(1) nn(1)] that(2) nn(2) by simp
  have sh: "same_shape m (?g m)" if "m \<in> set (nodes db)" for m
    using one [OF that] f by (auto simp: same_shape_def)
  have ids: "map n_id (map ?g (nodes db)) = map n_id (nodes db)"
    using sh by (auto simp: same_shape_def)
  then have sub: "n_id ` set (map ?g (nodes db)) = n_id ` set (nodes db)"
    by (metis list.set_map)
  note r = store_nodes_ok [OF ok(1) st]
  show s: "schema_ok db'" by (rule r) (simp only: sub order_refl)
  have db': "db' = db\<lparr>nodes := map ?g (nodes db)\<rparr>" by (rule r) (simp only: sub order_refl)
  then show "nodes db' = map ?g (nodes db)" "same_rest db db'" "uuids db' = uuids db" by simp_all
  have "tree_rows (map ?g (nodes db))"
    using ok(2) sh by (intro tree_rows_same_shape) (auto simp: tree_ok_def)
  moreover have "n_kind m = File" if "v \<in> set (versions db)" "m \<in> set (map ?g (nodes db))"
    "n_id m = v_node v" for v m
  proof -
    from that(2) obtain m0 where m0: "m0 \<in> set (nodes db)" "m = ?g m0" by auto
    with sh [OF m0(1)] that ok(2) show ?thesis by (auto simp: tree_ok_def list_all_iff same_shape_def)
  qed
  ultimately show "tree_ok db'" by (auto simp: tree_ok_def db' list_all_iff)
  have g: "map ?g (nodes db) = map (\<lambda>m. if n_id m = n_id n then f m else m) (nodes db)"
    by (simp add: nn)
  have okm: "nodes_ok (db\<lparr>nodes := map ?g (nodes db)\<rparr>)" using schema_okD(1) [OF s] by (simp add: db')
  note dr = nodes_drift [OF schema_okD(1) [OF ok(1)] okm]
  show "ref_drift db' h = ref_drift db h
      - (if n_blob (f n) = Some h then 1 else 0) + (if n_blob n = Some h then 1 else 0)"
    using dr(2) [of h] unfolding g count_rows_sum sum_rows_update_one [OF d nn(1)]
    by (simp add: db' g)
  show "use_drift db' x = use_drift db x
      - (if live n \<and> x = n_owner n then n_size (f n) - n_size n else 0)"
    using dr(1) [of x] f unfolding g sum_rows_update_one [OF d nn(1)]
    by (auto simp: db' g row_share_def same_shape_def cost_def live_def)
qed

section \<open>Directories\<close>

text \<open>A place to write: a live directory of the account.\<close>

definition home :: "uuid \<Rightarrow> uuid \<Rightarrow> db \<Rightarrow> bool" where
  "home owner i db \<longleftrightarrow> (case find_node (nodes db) i of
     Some p \<Rightarrow> live p \<and> n_kind p = Directory \<and> n_owner p = owner | None \<Rightarrow> False)"

lemma etag_for_directory_simps [simp]:
  "snd (etag_for_directory C db) = snd (now_v7 db)"
  "fst (etag_for_directory C db) = quoted (uuid_simple C (uuids db 0))"
  by (simp_all add: etag_for_directory_def case_prod_unfold Let_def)

lemma soundD:
  "sound db \<Longrightarrow> schema_ok db" "sound db \<Longrightarrow> thumbnails_ok db" "sound db \<Longrightarrow> tree_ok db"
  "sound db \<Longrightarrow> balanced db" "sound db \<Longrightarrow> nodes_ok db" "sound db \<Longrightarrow> distinct (map n_id (nodes db))"
  "sound db \<Longrightarrow> tree_rows (nodes db)" "sound db \<Longrightarrow> forest (nodes db)" "sound db \<Longrightarrow> covered db"
  by (simp_all add: sound_def schema_okD nodes_ok_distinct tree_ok_def tree_rows_forest balanced_covered)

lemma sound_find: "sound db \<Longrightarrow> n \<in> set (nodes db) \<Longrightarrow> find_node (nodes db) (n_id n) = Some n"
  by (simp add: find_node_distinct soundD)

lemma homeI: "sound db \<Longrightarrow> p \<in> set (nodes db) \<Longrightarrow> live p \<Longrightarrow> n_kind p = Directory \<Longrightarrow>
   home (n_owner p) (n_id p) db"
  by (simp add: home_def sound_find)

lemma homeE:
  assumes "home owner i db"
  obtains p where "p \<in> set (nodes db)" "n_id p = i" "live p" "n_kind p = Directory" "n_owner p = owner"
    "find_node (nodes db) i = Some p"
  using assms find_node_Some [of "nodes db" i] by (auto simp: home_def split: option.splits)

lemma find_append_Some: "find P xs = Some x \<Longrightarrow> find P (xs @ ys) = Some x"
  by (induction xs) (auto split: if_splits)

lemma home_append: "home owner i db \<Longrightarrow> nodes db' = nodes db @ ns \<Longrightarrow> home owner i db'"
  by (auto simp: home_def find_node_def find_append_Some split: option.splits)

lemma child_Some:
  assumes "child i name db = Some n"
  shows "n \<in> set (nodes db)" and "n_parent n = Some i" and "n_name n = as_str name" and "live n"
  using find_Some_set [OF assms [unfolded child_def]] by simp_all

lemma child_now_v7 [simp]: "child i name (snd (now_v7 db)) = child i name db"
  by (simp add: child_def)

lemma insert_node_sound:
  assumes "sound db" and "insert_node m db = Inr db'"
    and "n_trash_root m = None" "live m" "n_blob m = None" "n_size m = 0" "n_kind m = Directory"
    and "\<And>i. n_parent m = Some i \<Longrightarrow> home (n_owner m) i db"
  shows "sound db'" and "nodes db' = nodes db @ [m]" and "same_rest db db'"
proof -
  have par: "\<exists>p\<in>set (nodes db). n_id p = i \<and> hangs m p" if "n_parent m = Some i" for i
    using assms(8) [OF that] by (rule homeE) (use assms(3) in \<open>auto simp: hangs_def\<close>)
  note r = insert_node_books [OF soundD(1) [OF assms(1)] soundD(3) [OF assms(1)] assms(2,3,4)
      assms(7) par]
  have "balanced db'"
    using soundD(4) [OF assms(1)] r(5,6) assms(5,6) by (simp add: balanced_drift)
  moreover have "thumbnails_ok db'"
    using soundD(2) [OF assms(1)] thumbnails_ok_rest [OF r(4)] by simp
  ultimately show "sound db'" using r(1,2) by (simp add: sound_def)
  show "nodes db' = nodes db @ [m]" "same_rest db db'" using r(3,4) by simp_all
qed

lemma insert_directory_sound:
  assumes "sound db" and "home owner i db" and ins: "insert_directory C now owner i name db = Inr (n, db')"
  shows "sound db'" and "n \<in> set (nodes db')" and "n_parent n = Some i" and "n_name n = as_str name"
    and "live n" and "n_kind n = Directory" and "\<exists>ns. nodes db' = nodes db @ ns"
proof -
  let ?db2 = "snd (now_v7 (snd (now_v7 db)))"
  have s2: "sound ?db2" and n2: "nodes ?db2 = nodes db" using assms(1) by simp_all
  consider (new) m where "insert_node m ?db2 = Inr db'" "n = m" "n_id m = uuids db 0"
      "n_owner m = owner" "n_parent m = Some i" "n_name m = as_str name" "n_kind m = Directory"
      "n_blob m = None" "n_size m = 0" "n_deleted m = None" "n_trash_root m = None"
    | (old) "child i name db = Some n" "n_kind n = Directory" "db' = ?db2"
    using ins by (auto simp: insert_directory_def case_prod_unfold Let_def
        split: sum.splits if_splits option.splits)
  then have "sound db' \<and> n \<in> set (nodes db') \<and> n_parent n = Some i \<and> n_name n = as_str name
    \<and> live n \<and> n_kind n = Directory \<and> (\<exists>ns. nodes db' = nodes db @ ns)"
  proof cases
    case new
    have "home owner i ?db2" using assms(2) by (simp add: home_def)
    with new have h: "\<And>j. n_parent m = Some j \<Longrightarrow> home (n_owner m) j ?db2" by simp
    have l: "live m" using new by (simp add: live_def)
    note r = insert_node_sound [OF s2 new(1) new(11) l new(8,9,7) h]
    show ?thesis using new r n2 l by auto
  next
    case old
    with s2 child_Some [OF old(1)] show ?thesis by simp
  qed
  then show "sound db'" "n \<in> set (nodes db')" "n_parent n = Some i" "n_name n = as_str name"
    "live n" "n_kind n = Directory" "\<exists>ns. nodes db' = nodes db @ ns" by blast+
qed

lemma child_owner:
  assumes "sound db" and "home owner i db" and "n \<in> set (nodes db)" and "n_parent n = Some i"
  shows "n_owner n = owner"
proof -
  from assms(2) obtain p where "p \<in> set (nodes db)" "n_id p = i" "n_owner p = owner" by (rule homeE)
  with tree_rows_hangs [OF soundD(7) [OF assms(1)] assms(3), of p] assms(4) show ?thesis
    by (simp add: hangs_def)
qed

lemma create_segments_sound:
  "create_segments C now owner cur path db = Inr (n, db') \<Longrightarrow> sound db \<Longrightarrow> home owner (n_id cur) db \<Longrightarrow>
   cur \<in> set (nodes db) \<Longrightarrow>
   sound db' \<and> home owner (n_id n) db' \<and> n \<in> set (nodes db') \<and> (\<exists>ns. nodes db' = nodes db @ ns)"
proof (induction C now owner cur path db rule: create_segments.induct)
  case (1 C now owner cur db)
  then show ?case by auto
next
  case (2 C now owner cur segment rest db)
  from 2(2) obtain m db1 where m: "(case child (n_id cur) segment db of
         Some existing \<Rightarrow> (if n_kind existing = Directory then Inr (existing, db)
           else Inl (Conflict (as_str segment)))
       | None \<Rightarrow> insert_directory C now owner (n_id cur) segment db) = Inr (m, db1)"
    and rest: "create_segments C now owner m rest db1 = Inr (n, db')"
    by (auto simp: rbind_eq_Inr)
  have step: "sound db1 \<and> m \<in> set (nodes db1) \<and> n_parent m = Some (n_id cur) \<and> live m
      \<and> n_kind m = Directory \<and> (\<exists>ns. nodes db1 = nodes db @ ns)"
  proof (cases "child (n_id cur) segment db")
    case None
    with m have i: "insert_directory C now owner (n_id cur) segment db = Inr (m, db1)" by simp
    show ?thesis using insert_directory_sound [OF 2(3,4) i] by blast
  next
    case (Some e)
    with m have "db1 = db" "m = e" "n_kind e = Directory" by (auto split: if_splits)
    with child_Some [OF Some] 2(3) show ?thesis by auto
  qed
  then obtain ns where ns: "nodes db1 = nodes db @ ns" by blast
  have "home owner (n_id cur) db1" by (rule home_append [OF 2(4) ns])
  with step have "n_owner m = owner" using child_owner by blast
  with step homeI [of db1 m] have "home owner (n_id m) db1" by simp
  moreover have "sound db1" "m \<in> set (nodes db1)" using step by auto
  ultimately have "sound db' \<and> home owner (n_id n) db' \<and> n \<in> set (nodes db')
      \<and> (\<exists>ns. nodes db' = nodes db1 @ ns)"
    using 2(1) [OF rest] by blast
  with ns show ?case by auto
qed

lemma create_directories_sound:
  assumes "create_directories C now owner root path db = Inr (n, db')" and "sound db"
    and "home owner (n_id root) db" and "root \<in> set (nodes db)"
  shows "sound db' \<and> home owner (n_id n) db' \<and> n \<in> set (nodes db') \<and> (\<exists>ns. nodes db' = nodes db @ ns)"
  using assms create_segments_sound by (auto simp: create_directories_def split: if_splits)

section \<open>The root of an account\<close>

lemma insert_quota_sound:
  assumes "sound db" and "insert_quota owner b db = Inr db'"
  shows "sound db'" and "nodes db' = nodes db" and "uuids db' = uuids db"
proof -
  from assms(2) have b: "0 < b"
    and db': "db' = db \<or> owner \<notin> q_owner ` set (quotas db)
      \<and> db' = db\<lparr>quotas := quotas db @ [\<lparr>q_owner = owner, q_used = 0, q_max = b\<rparr>]\<rparr>"
    by (auto simp: insert_quota_def split: if_splits)
  then show n: "nodes db' = nodes db" "uuids db' = uuids db" by auto
  show "sound db'"
  proof (cases "db' = db")
    case True
    with assms(1) show ?thesis by simp
  next
    case False
    let ?q = "\<lparr>q_owner = owner, q_used = 0, q_max = b\<rparr>"
    from db' False have new: "owner \<notin> q_owner ` set (quotas db)" and e: "db' = db\<lparr>quotas := quotas db @ [?q]\<rparr>"
      by auto
    have none: "find_quota owner db = None" using new by (simp add: find_quota_None)
    have "used db' x = used db x" for x
    proof (cases "x = owner")
      case True
      have "q_owner q \<noteq> x" if "q \<in> set (quotas db)" for q
        using new True that by (metis image_eqI)
      then have "find_quota x db' = Some ?q"
        by (simp add: find_quota_def e find_append_new True)
      with none True show ?thesis by (simp add: used_def)
    next
      case False
      then show ?thesis by (simp add: used_def find_quota_def e find_append_other)
    qed
    then have bal: "balanced db'"
      using soundD(4) [OF assms(1)]
      by (simp add: balanced_def stored_refs_def find_blob_def expected_references_def
          expected_usage_def e)
    have "quotas_ok db'"
      using schema_okD(3) [OF soundD(1) [OF assms(1)]] new b by (simp add: quotas_ok_def e)
    then show ?thesis
      using assms(1) bal
      by (simp add: sound_def schema_ok_def nodes_ok_def blobs_ok_def versions_ok_def thumbnails_ok_def
          has_blob_def tree_ok_def e)
  qed
qed

lemma ensure_root_sound:
  assumes "sound db" and er: "ensure_root C now owner quota_bytes db = Inr (root, db')"
  shows "sound db'" and "home owner (n_id root) db'" and "root \<in> set (nodes db')"
    and "n_parent root = None" and "\<exists>ns. nodes db' = nodes db @ ns"
proof -
  obtain db1 where q: "insert_quota owner quota_bytes db = Inr db1"
    using er by (auto simp: ensure_root_def rbind_eq_Inr)
  note q1 = insert_quota_sound [OF assms(1) q]
  let ?db3 = "snd (now_v7 (snd (now_v7 db1)))"
  have s3: "sound ?db3" and n3: "nodes ?db3 = nodes db" using q1 by simp_all
  have f: "find (\<lambda>n. n_owner n = owner \<and> n_parent n = None \<and> live n) (nodes db') = Some root"
    using er q by (auto simp: ensure_root_def rbind_eq_Inr case_prod_unfold Let_def)
  have "db' = ?db3 \<or> (\<exists>m. insert_node m ?db3 = Inr db' \<and> n_owner m = owner \<and> n_parent m = None
      \<and> n_kind m = Directory \<and> n_blob m = None \<and> n_size m = 0 \<and> n_deleted m = None
      \<and> n_trash_root m = None)"
    using er q by (auto simp: ensure_root_def rbind_eq_Inr case_prod_unfold Let_def
        split: sum.splits db_error.splits)
  then have "sound db' \<and> (\<exists>ns. nodes db' = nodes db @ ns)"
  proof
    assume "db' = ?db3"
    with s3 n3 show ?thesis by simp
  next
    assume "\<exists>m. insert_node m ?db3 = Inr db' \<and> n_owner m = owner \<and> n_parent m = None
      \<and> n_kind m = Directory \<and> n_blob m = None \<and> n_size m = 0 \<and> n_deleted m = None
      \<and> n_trash_root m = None"
    then obtain m where m: "insert_node m ?db3 = Inr db'" "n_parent m = None"
      "n_kind m = Directory" "n_blob m = None" "n_size m = 0" "n_deleted m = None"
      "n_trash_root m = None" by blast
    have "live m" using m by (simp add: live_def)
    with insert_node_sound [OF s3 m(1,7) _ m(4,5,3)] m(2) n3 show ?thesis by simp
  qed
  then show s: "sound db'" and "\<exists>ns. nodes db' = nodes db @ ns" by blast+
  from find_Some_set [OF f] have r: "root \<in> set (nodes db')" "n_owner root = owner"
    "n_parent root = None" "live root" by simp_all
  then show "root \<in> set (nodes db')" "n_parent root = None" by simp_all
  have "n_kind root = Directory"
    using tree_rows_root [OF soundD(7) [OF s] r(1,3)] by (simp add: heads_def)
  with homeI [OF s r(1,4)] r(2) show "home owner (n_id root) db'" by simp
qed

section \<open>Writing a file\<close>

text \<open>A run of statements moves the two drifts and leaves the rows of the tree alone.\<close>

definition at_key :: "'k \<Rightarrow> int \<Rightarrow> 'k \<Rightarrow> int" where
  "at_key k d x = (if x = k then d else 0)"

definition moved :: "(blob_hash \<Rightarrow> int) \<Rightarrow> (uuid \<Rightarrow> int) \<Rightarrow> db \<Rightarrow> db \<Rightarrow> bool" where
  "moved r u db db' \<longleftrightarrow> (\<forall>h. ref_drift db' h = ref_drift db h + r h)
     \<and> (\<forall>x. use_drift db' x = use_drift db x + u x) \<and> nodes db' = nodes db \<and> users db' = users db
     \<and> thumbnails db' = thumbnails db \<and> map b_hash (blobs db') = map b_hash (blobs db)"

abbreviation unmoved :: "'k \<Rightarrow> int" where
  "unmoved \<equiv> \<lambda>_. 0"

lemma moved_trans:
  "moved r u db db1 \<Longrightarrow> moved r' u' db1 db2 \<Longrightarrow> moved (\<lambda>h. r h + r' h) (\<lambda>x. u x + u' x) db db2"
  by (simp add: moved_def)

lemma moved_cong: "moved r u db db' \<Longrightarrow> r = r' \<Longrightarrow> u = u' \<Longrightarrow> moved r' u' db db'"
  by simp

lemma charged_moved: "charged owner d db db' \<Longrightarrow> moved unmoved (at_key owner d) db db'"
  by (simp add: charged_def moved_def at_key_def)

lemma same_books_moved: "same_books db db' \<Longrightarrow> moved unmoved unmoved db db'"
  by (simp add: same_books_def moved_def)

lemma charge_moved:
  "quotas_ok db \<Longrightarrow> charge_quota owner d db = Inr db' \<Longrightarrow> moved unmoved (at_key owner d) db db'"
  by (intro charged_moved charge_charged)

lemma acquire_moved: "has_blob db h \<Longrightarrow> moved (at_key h 1) unmoved db (acquire_blob h db)"
  unfolding moved_def using acquire_drift [of db h] acquire_blob_hashes [of h db]
  by (simp add: at_key_def)

lemma release_moved: "0 < stored_refs db h \<Longrightarrow> moved (at_key h (- 1)) unmoved db (release_blob now h db)"
  unfolding moved_def using release_drift [of db h now] release_blob_hashes [of now h db]
  by (simp add: at_key_def)

lemma keep_moved:
  "schema_ok db \<Longrightarrow> find_node (nodes db) i = Some n \<Longrightarrow> live n \<Longrightarrow> n_owner n = owner \<Longrightarrow>
   keep now i b s db = Inr db' \<Longrightarrow> moved (at_key b (- 1)) (at_key owner (- s)) db db'"
  unfolding moved_def using keep_books [of db i n owner now b s db'] by (simp add: at_key_def)

lemma moved_has_blob: "moved r u db db' \<Longrightarrow> has_blob db' = has_blob db"
  by (simp add: moved_def has_blob_def fun_eq_iff)

lemma moved_thumbnails: "moved r u db db' \<Longrightarrow> thumbnails_ok db' = thumbnails_ok db"
  by (simp add: thumbnails_ok_def moved_has_blob) (simp add: moved_def)

lemma covered_drift:
  assumes "\<And>h. 0 \<le> ref_drift db h + count_rows (\<lambda>n. n_blob n = Some h) (nodes db)"
  shows "covered db"
  unfolding covered_def
proof
  fix h
  have "0 \<le> count_rows (\<lambda>t. t_blob t = h) (thumbnails db)" by simp
  with assms [of h] show "count_rows (\<lambda>v. v_blob v = h) (versions db) \<le> stored_refs db h"
    by (simp add: ref_drift_def expected_references_def del: count_rows_nonneg)
qed

lemma count_rows_pos: "x \<in> set xs \<Longrightarrow> P x \<Longrightarrow> 1 \<le> count_rows P xs"
proof (induction xs)
  case (Cons a xs)
  then show ?case using count_rows_nonneg [of P xs] by (auto simp del: count_rows_nonneg)
qed simp

lemma tree_ok_versions:
  assumes "tree_ok db" and "nodes db' = nodes db"
    and "\<And>v n. v \<in> set (versions db') \<Longrightarrow> v \<notin> set (versions db) \<Longrightarrow> n \<in> set (nodes db) \<Longrightarrow>
      n_id n = v_node v \<Longrightarrow> n_kind n = File"
  shows "tree_ok db'"
  using assms unfolding tree_ok_def list_all_iff by metis

text \<open>What an overwrite does to the books before it touches the row it overwrites.\<close>

lemma overwrite_books:
  assumes s: "sound db" and n: "n \<in> set (nodes db)" "live n" "n_owner n = owner" "n_kind n = File"
    and b: "n_blob n = Some b" and h: "has_blob db h"
    and room: "(if versions_kept > 0 \<and> n_size n > 0 \<and> b \<noteq> h
        then make_room now owner (n_id n) bytes (n_size n) db
        else rbind (charge_quota owner (bytes - n_size n) db) (\<lambda>db2. Inr (False, db2)))
      = Inr (versioned, db2)"
    and old: "rbind (if versioned then keep now (n_id n) b (n_size n) (acquire_blob h db2)
        else Inr (release_blob now b (acquire_blob h db2)))
      (prune_beyond now owner (n_id n) versions_kept) = Inr db3"
  shows "schema_ok db3" and "tree_ok db3"
    and "moved (\<lambda>x. at_key h 1 x + at_key b (- 1) x) (at_key owner (bytes - n_size n)) db db3"
proof -
  let ?acq = "acquire_blob h db2"
  have f: "find_node (nodes db) (n_id n) = Some n" by (rule sound_find [OF s n(1)])
  have ok: "schema_ok db" "covered db" "tree_ok db" using s by (simp_all add: soundD)
  have s1: "schema_ok db2 \<and> charged owner (if versioned then bytes else bytes - n_size n) db db2"
  proof (cases "versions_kept > 0 \<and> n_size n > 0 \<and> b \<noteq> h")
    case True
    with room make_room_books [OF _ ok(1,2) f n(2,3)] show ?thesis by simp
  next
    case False
    then have c: "charge_quota owner (bytes - n_size n) db = Inr db2" "\<not> versioned"
      using room by (auto simp: rbind_eq_Inr)
    with charge_charged [OF schema_okD(3) [OF ok(1)] c(1)] schema_ok_charge [OF ok(1) c(1)]
    show ?thesis by simp
  qed
  then have ok2: "schema_ok db2" and sub2: "set (versions db2) \<subseteq> set (versions db)"
    and m1: "moved unmoved (at_key owner (if versioned then bytes else bytes - n_size n)) db db2"
    using charged_moved by (auto simp: charged_def)
  have h2: "has_blob db2 h" using h moved_has_blob [OF m1] by simp
  note m2 = moved_trans [OF m1 acquire_moved [OF h2]]
  have okA: "schema_ok ?acq" by (rule schema_ok_acquire [OF ok2])
  have fA: "find_node (nodes ?acq) (n_id n) = Some n" using f m1 by (simp add: moved_def)
  have one: "1 \<le> count_rows (\<lambda>n. n_blob n = Some b) (nodes db)" by (rule count_rows_pos [OF n(1)]) (rule b)
  have "ref_drift ?acq b = at_key h 1 b"
    using m2 soundD(4) [OF s] by (simp add: moved_def balanced_drift)
  moreover have "nodes ?acq = nodes db" using m2 by (simp add: moved_def)
  ultimately have pos: "0 < stored_refs ?acq b"
    using one count_rows_nonneg [of "\<lambda>v. v_blob v = b" "versions ?acq"]
      count_rows_nonneg [of "\<lambda>t. t_blob t = b" "thumbnails ?acq"]
    by (auto simp: ref_drift_def expected_references_def at_key_def split: if_splits
        simp del: count_rows_nonneg acquire_blob_frame(3,5))
  from old obtain dbk where k: "(if versioned then keep now (n_id n) b (n_size n) ?acq
      else Inr (release_blob now b ?acq)) = Inr dbk"
    and pr: "prune_beyond now owner (n_id n) versions_kept dbk = Inr db3"
    by (auto simp: rbind_eq_Inr)
  have s3: "schema_ok dbk \<and> moved (at_key b (- 1)) (at_key owner (if versioned then - n_size n else 0)) ?acq dbk
      \<and> (\<forall>v\<in>set (versions dbk). v \<in> set (versions db2) \<or> v_node v = n_id n)"
  proof (cases versioned)
    case True
    then have kk: "keep now (n_id n) b (n_size n) ?acq = Inr dbk" using k by simp
    from keep_books [OF okA fA n(2,3) kk] keep_moved [OF okA fA n(2,3) kk] True show ?thesis by auto
  next
    case False
    then have e: "dbk = release_blob now b ?acq" using k by simp
    from schema_ok_releases [OF okA, of now "[b]"] have "schema_ok dbk" by (simp add: e)
    moreover have "moved (at_key b (- 1)) (at_key owner 0) ?acq dbk"
      unfolding e by (rule moved_cong [OF release_moved [OF pos]]) (auto simp: at_key_def)
    ultimately show ?thesis using False by (simp add: e)
  qed
  then have okk: "schema_ok dbk"
    and mk: "moved (at_key b (- 1)) (at_key owner (if versioned then - n_size n else 0)) ?acq dbk" by auto
  note m3 = moved_trans [OF m2 mk]
  have nk: "nodes dbk = nodes db" using m3 by (simp add: moved_def)
  have "covered dbk"
  proof (rule covered_drift)
    fix x
    have "ref_drift dbk x = at_key h 1 x + at_key b (- 1) x"
      using m3 soundD(4) [OF s] by (simp add: moved_def balanced_drift)
    then show "0 \<le> ref_drift dbk x + count_rows (\<lambda>n. n_blob n = Some x) (nodes dbk)"
      using one count_rows_nonneg [of "\<lambda>n. n_blob n = Some x" "nodes db"]
      by (auto simp: nk at_key_def simp del: count_rows_nonneg)
  qed
  moreover have fk: "find_node (nodes dbk) (n_id n) = Some n" using f nk by simp
  ultimately have p: "schema_ok db3" "same_books dbk db3"
    using prune_beyond_books [OF okk _ fk n(2,3) pr] by auto
  show "schema_ok db3" by (rule p(1))
  show m4: "moved (\<lambda>x. at_key h 1 x + at_key b (- 1) x) (at_key owner (bytes - n_size n)) db db3"
    by (rule moved_cong [OF moved_trans [OF m3 same_books_moved [OF p(2)]]]) (auto simp: at_key_def fun_eq_iff)
  show "tree_ok db3"
  proof (rule tree_ok_versions [OF ok(3)])
    show "nodes db3 = nodes db" using m4 by (simp add: moved_def)
    fix v m
    assume "v \<in> set (versions db3)" "v \<notin> set (versions db)" and m: "m \<in> set (nodes db)" "n_id m = v_node v"
    then have "v_node v = n_id n" using p(2) s3 sub2 by (auto simp: same_books_def)
    then have "m = n" using m n(1) distinct_key_eq [OF soundD(6) [OF s], of m n] by simp
    then show "n_kind m = File" using n(4) by simp
  qed
qed

text \<open>Live siblings have different names, so a lookup finds the row that has the name.\<close>

lemma child_unique_ok:
  assumes "nodes_ok db" and "n \<in> set (nodes db)" and "n_parent n = Some i" and "n_name n = as_str name"
    and "live n"
  shows "child i name db = Some n"
proof -
  let ?ls = "filter (\<lambda>n. live n \<and> n_parent n \<noteq> None) (nodes db)"
  have d: "distinct (map (\<lambda>n. (n_parent n, n_name n)) ?ls)"
    using assms(1) by (simp add: nodes_ok_def nodes_violation_None)
  have "child i name db \<noteq> None"
    using assms(2-5) by (auto simp: child_def find_None_set)
  then obtain m where m: "child i name db = Some m" by blast
  note c = child_Some [OF m]
  have "m = n"
    by (rule distinct_key_eq [OF d]) (use c assms(2-5) in auto)
  with m show ?thesis by simp
qed

lemmas child_unique = child_unique_ok [OF soundD(5)]

lemma update_file_sound:
  assumes s: "sound db" and n: "n \<in> set (nodes db)" "live n" "n_owner n = owner" "n_kind n = File"
    and b: "n_blob n = Some b"
    and ok: "schema_ok db3" "tree_ok db3"
    and m: "moved (\<lambda>x. at_key h 1 x + at_key b (- 1) x) (at_key owner (bytes - n_size n)) db db3"
    and u: "update_node (n_id n) (\<lambda>r. r\<lparr>n_blob := Some h, n_size := bytes, n_etag := e,
       n_updated := now\<rparr>) db3 = Inr db4"
  shows "sound db4"
    and "nodes db4 = map (\<lambda>r. if n_id r = n_id n then r\<lparr>n_blob := Some h, n_size := bytes, n_etag := e,
       n_updated := now\<rparr> else r) (nodes db)"
proof -
  have f: "find_node (nodes db3) (n_id n) = Some n"
    using sound_find [OF s n(1)] m by (simp add: moved_def)
  note r = update_node_books [OF ok u f, simplified same_shape_def, simplified]
  show "nodes db4 = map (\<lambda>r. if n_id r = n_id n then r\<lparr>n_blob := Some h, n_size := bytes, n_etag := e,
       n_updated := now\<rparr> else r) (nodes db)"
    using r(5) m by (simp add: moved_def)
  have "ref_drift db4 x = 0" "use_drift db4 y = 0" for x y
    using r(6) [of x] r(7) [of y] m soundD(4) [OF s] n b
    by (auto simp: moved_def balanced_drift at_key_def)
  moreover have "thumbnails_ok db4"
    using thumbnails_ok_rest [OF r(3)] moved_thumbnails [OF m] soundD(2) [OF s] by simp
  ultimately show "sound db4" using r(1,2) by (simp add: sound_def balanced_drift)
qed

lemma insert_file_sound:
  assumes s: "sound db" and ok: "schema_ok db3" and m: "moved (at_key h 1) (at_key owner bytes) db db3"
    and vs: "versions db3 = versions db" and i: "insert_node n db3 = Inr db4" and dir: "home owner i db"
    and n: "n_owner n = owner" "n_parent n = Some i" "n_kind n = File" "n_blob n = Some h" "n_size n = bytes"
      "live n" "n_trash_root n = None"
  shows "sound db4" and "nodes db4 = nodes db @ [n]"
proof -
  have ns: "nodes db3 = nodes db" using m by (simp add: moved_def)
  have t3: "tree_ok db3" using soundD(3) [OF s] by (simp add: tree_ok_def ns vs)
  have par: "\<exists>p\<in>set (nodes db3). n_id p = j \<and> hangs n p" if "n_parent n = Some j" for j
    using dir by (rule homeE) (use n that in \<open>auto simp: hangs_def ns\<close>)
  have top: "n_parent n = None \<Longrightarrow> n_kind n = Directory" using n(2) by simp
  note r = insert_node_books [OF ok t3 i n(7,6) top par]
  have "ref_drift db4 x = 0" "use_drift db4 y = 0" for x y
    using r(5) [of x] r(6) [of y] m soundD(4) [OF s] n
    by (auto simp: moved_def balanced_drift at_key_def)
  moreover have "thumbnails_ok db4"
    using thumbnails_ok_rest [OF r(4)] moved_thumbnails [OF m] soundD(2) [OF s] by simp
  ultimately show "sound db4" using r(1,2) by (simp add: sound_def balanced_drift)
  show "nodes db4 = nodes db @ [n]" using r(3) ns by simp
qed

text \<open>The bind of a sum whose first part is a case distinction of its own.\<close>

lemma put_file_cases:
  assumes "put_file C now owner dir name h bytes kept db = Inr (n, db')"
  obtains (existing) db1 e b versioned db2 db3 where
      "insert_blob \<lparr>b_hash = h, b_size = bytes, b_refs = 0, b_created = now, b_unreferenced = None\<rparr> db = Inr db1"
      "child (n_id dir) name db1 = Some e" "n_kind e = File" "n_blob e = Some b"
      "(if kept > 0 \<and> n_size e > 0 \<and> b \<noteq> h then make_room now owner (n_id e) bytes (n_size e) db1
        else rbind (charge_quota owner (bytes - n_size e) db1) (\<lambda>db2. Inr (False, db2))) = Inr (versioned, db2)"
      "rbind (if versioned then keep now (n_id e) b (n_size e) (acquire_blob h db2)
        else Inr (release_blob now b (acquire_blob h db2))) (prune_beyond now owner (n_id e) kept) = Inr db3"
      "update_node (n_id e) (\<lambda>r. r\<lparr>n_blob := Some h, n_size := bytes, n_etag := etag_for_file C h,
         n_updated := now\<rparr>) db3 = Inr db'"
      "find_node (nodes db') (n_id e) = Some n"
    | (fresh) db1 db2 where
      "insert_blob \<lparr>b_hash = h, b_size = bytes, b_refs = 0, b_created = now, b_unreferenced = None\<rparr> db = Inr db1"
      "child (n_id dir) name db1 = None"
      "charge_quota owner bytes db1 = Inr db2"
      "insert_node n (snd (now_v7 (acquire_blob h db2))) = Inr db'"
      "n = \<lparr>n_id = uuids db2 0, n_owner = owner, n_parent = Some (n_id dir), n_name = as_str name,
         n_kind = File, n_blob = Some h, n_size = bytes, n_etag = etag_for_file C h, n_created = now,
         n_updated = now, n_deleted = None, n_trash_root = None\<rparr>"
    | (broken) db1 e where
      "insert_blob \<lparr>b_hash = h, b_size = bytes, b_refs = 0, b_created = now, b_unreferenced = None\<rparr> db = Inr db1"
      "child (n_id dir) name db1 = Some e" "n_kind e = File" "n_blob e = None"
proof -
  obtain db1 where d1: "insert_blob \<lparr>b_hash = h, b_size = bytes, b_refs = 0, b_created = now,
      b_unreferenced = None\<rparr> db = Inr db1"
    using assms by (auto simp: put_file_def rbind_eq_Inr)
  show thesis
  proof (cases "child (n_id dir) name db1")
    case None
    with assms d1 obtain db2 where c: "charge_quota owner bytes db1 = Inr db2"
      by (auto simp: put_file_def rbind_eq_Inr)
    show thesis
      by (rule fresh [OF d1 None c]) (use assms d1 None c in
        \<open>auto simp: put_file_def rbind_eq_Inr case_prod_unfold Let_def\<close>)
  next
    case (Some e)
    have k: "n_kind e = File"
      using assms d1 Some by (cases "n_kind e") (auto simp: put_file_def)
    show thesis
    proof (cases "n_blob e")
      case None
      show thesis by (rule broken [OF d1 Some k None])
    next
      case b: (Some b)
      obtain vd where r: "(if kept > 0 \<and> n_size e > 0 \<and> b \<noteq> h
          then make_room now owner (n_id e) bytes (n_size e) db1
          else rbind (charge_quota owner (bytes - n_size e) db1) (\<lambda>db2. Inr (False, db2))) = Inr vd"
        using assms d1 Some k b by (auto simp: put_file_def rbind_eq_Inr)
      obtain db3 where o: "rbind (if fst vd then keep now (n_id e) b (n_size e) (acquire_blob h (snd vd))
          else Inr (release_blob now b (acquire_blob h (snd vd)))) (prune_beyond now owner (n_id e) kept) = Inr db3"
        using assms unfolding put_file_def d1 Some b rbind_Inr Let_def option.case option.map prod.case r
        by (auto simp: k case_prod_unfold rbind_eq_Inr)
      have rest: "update_node (n_id e) (\<lambda>r. r\<lparr>n_blob := Some h, n_size := bytes,
          n_etag := etag_for_file C h, n_updated := now\<rparr>) db3 = Inr db'
        \<and> find_node (nodes db') (n_id e) = Some n"
        using assms unfolding put_file_def d1 Some b rbind_Inr Let_def option.case option.map prod.case r
        by (auto simp: k case_prod_unfold o fetch_one_def rbind_eq_Inr map_err_eq_Inr)
      show thesis
        by (rule existing [OF d1 Some k b, of "fst vd" "snd vd" db3]) (use r o rest in simp_all)
    qed
  qed
qed

lemma put_file_sound:
  assumes s: "sound db" and dir: "home owner (n_id dir) db"
    and p: "put_file C now owner dir name h bytes kept db = Inr (n, db')"
  shows "sound db'" and "child (n_id dir) name db' = Some n" and "n_kind n = File"
    and "n_blob n = Some h" and "n_size n = bytes" and "n_owner n = owner"
proof -
  have "sound db' \<and> n \<in> set (nodes db') \<and> n_parent n = Some (n_id dir) \<and> n_name n = as_str name
    \<and> live n \<and> n_kind n = File \<and> n_blob n = Some h \<and> n_size n = bytes \<and> n_owner n = owner"
    using p
  proof (cases rule: put_file_cases)
    case (existing db1 e b versioned db2 db3)
    note ib = insert_blob_sound [OF s existing(1), simplified]
    note ch = child_Some [OF existing(2)]
    have "home owner (n_id dir) db1" using dir ib(3) by (simp add: home_def)
    with child_owner [OF ib(1) _ ch(1,2)] have o: "n_owner e = owner" by simp
    note w = overwrite_books [OF ib(1) ch(1,4) o existing(3,4) ib(2) existing(5,6)]
    note u = update_file_sound [OF ib(1) ch(1,4) o existing(3,4) w existing(7)]
    have "e\<lparr>n_blob := Some h, n_size := bytes, n_etag := etag_for_file C h, n_updated := now\<rparr> \<in> set (nodes db')"
      unfolding u(2) using ch(1) by force
    then have "n = e\<lparr>n_blob := Some h, n_size := bytes, n_etag := etag_for_file C h, n_updated := now\<rparr>"
      using sound_find [OF u(1)] existing(8) by fastforce
    then show ?thesis
      using u(1) ch o existing(3) find_node_Some [OF existing(8)] by (auto simp: live_def)
  next
    case (fresh db1 db2)
    note ib = insert_blob_sound [OF s fresh(1), simplified]
    have ok1: "schema_ok db1" by (rule soundD(1) [OF ib(1)])
    note c = charge_moved [OF schema_okD(3) [OF ok1] fresh(3)]
    have "has_blob db2 h" using ib(2) moved_has_blob [OF c] by simp
    from moved_trans [OF c acquire_moved [OF this]]
    have m: "moved (at_key h 1) (at_key owner bytes) db1 (snd (now_v7 (acquire_blob h db2)))"
      by (simp add: moved_def)
    have ok3: "schema_ok (snd (now_v7 (acquire_blob h db2)))"
      using schema_ok_acquire [OF schema_ok_charge [OF ok1 fresh(3)]] by simp
    have d1: "home owner (n_id dir) db1" using dir ib(3) by (simp add: home_def)
    have "versions (snd (now_v7 (acquire_blob h db2))) = versions db1"
      using charge_quota_frame(3) [OF fresh(3)] by simp
    from insert_file_sound [OF ib(1) ok3 m this fresh(4) d1] fresh(5)
    show ?thesis by (simp add: live_def)
  next
    case (broken db1 e)
    note ib = insert_blob_sound [OF s broken(1), simplified]
    have "e \<in> set (nodes db1)" using child_Some [OF broken(2)] by simp
    with node_checks_file nodes_ok_checks [OF soundD(5) [OF ib(1)]] broken(3,4) show ?thesis by blast
  qed
  then show "sound db'" and r: "n_kind n = File" "n_blob n = Some h" "n_size n = bytes" "n_owner n = owner"
    and "child (n_id dir) name db' = Some n"
    by (auto intro: child_unique)
qed

section \<open>Moving\<close>

lemma forest_reparent:
  assumes f: "forest ns" and n: "n \<in> set ns" and d: "d \<in> n_id ` set ns"
    and out: "(d, n_id n) \<notin> (below all_rows ns)\<^sup>*"
    and g: "\<And>r. r \<in> set ns \<Longrightarrow> n_id (g r) = n_id r
      \<and> n_parent (g r) = (if n_id r = n_id n then Some d else n_parent r)"
  shows "forest (map g ns)"
proof -
  let ?new = "{(i, j) \<in> below all_rows ns. i \<noteq> n_id n}"
  have sub: "below all_rows (map g ns) \<subseteq> insert (n_id n, d) ?new"
  proof (rule subrelI)
    fix x y assume "(x, y) \<in> below all_rows (map g ns)"
    then obtain r where r: "r \<in> set ns" "x = n_id (g r)" "n_parent (g r) = Some y"
      by (auto simp: below_def)
    note gr = g [OF r(1)]
    show "(x, y) \<in> insert (n_id n, d) ?new"
    proof (cases "n_id r = n_id n")
      case True
      with r gr have "x = n_id n" "y = d" by (simp_all only: simp_thms if_True option.inject)
      then show ?thesis by simp
    next
      case False
      with r gr have "n_parent r = Some y" "x = n_id r" by (simp_all only: if_False)
      with r(1) have "(x, y) \<in> below all_rows ns" unfolding below_def by blast
      with False \<open>x = n_id r\<close> show ?thesis by simp
    qed
  qed
  have new: "?new \<subseteq> below all_rows ns" by blast
  have "acyclic ?new" by (rule acyclic_subset [OF _ new]) (use f in \<open>simp add: forest_def\<close>)
  moreover have "(d, n_id n) \<notin> ?new\<^sup>*"
    using out rtrancl_mono [OF new] by blast
  ultimately have "acyclic (insert (n_id n, d) ?new)" by (simp add: acyclic_insert)
  then have ac: "acyclic (below all_rows (map g ns))" by (rule acyclic_subset [OF _ sub])
  have ids: "map n_id (map g ns) = map n_id ns" using g by simp
  then have "n_id ` set (map g ns) = n_id ` set ns" by (metis list.set_map)
  moreover have "\<forall>r\<in>set (map g ns). \<forall>p. n_parent r = Some p \<longrightarrow> p \<in> n_id ` set ns"
    using f g d by (auto simp: forest_def split: if_splits)
  ultimately show ?thesis
    using ac f unfolding forest_def ids by simp
qed

lemma contains_iff:
  assumes "sound db" and "a \<in> set (nodes db)"
  shows "contains a n db \<longleftrightarrow> (n_id n, n_id a) \<in> (below all_rows (nodes db))\<^sup>*"
  unfolding contains_def by (rule ancestry_iff [OF soundD(8) [OF assms(1)]]) (use assms(2) in simp)

text \<open>Nothing hangs from a file.\<close>

lemma file_is_leaf:
  assumes "sound db" and "n \<in> set (nodes db)" and "n_kind n = File"
    and "(i, n_id n) \<in> (below all_rows (nodes db))\<^sup>*"
  shows "i = n_id n"
  using assms(4)
proof (cases rule: rtranclE)
  case (step y)
  then obtain c where "c \<in> set (nodes db)" "n_parent c = Some (n_id n)" by (auto simp: below_def)
  with tree_rows_hangs [OF soundD(7) [OF assms(1)] _ assms(2)] assms(3) show ?thesis
    by (auto simp: hangs_def)
qed

lemma tree_rows_reparent:
  assumes t: "tree_rows ns" and n: "n \<in> set ns" "live n" "n_trash_root n = None"
    and p: "p \<in> set ns" "live p" "n_kind p = Directory" "n_owner p = n_owner n"
    and out: "(n_id p, n_id n) \<notin> (below all_rows ns)\<^sup>*"
    and g: "\<And>r. r \<in> set ns \<Longrightarrow> n_id (g r) = n_id r \<and> n_owner (g r) = n_owner r \<and> n_kind (g r) = n_kind r
      \<and> n_deleted (g r) = n_deleted r \<and> n_trash_root (g r) = n_trash_root r
      \<and> n_parent (g r) = (if n_id r = n_id n then Some (n_id p) else n_parent r)"
  shows "tree_rows (map g ns)"
proof (rule tree_rowsI)
  have f: "forest ns" by (rule tree_rows_forest [OF t])
  then have d: "distinct (map n_id ns)" by (simp add: forest_def)
  show "forest (map g ns)"
    by (rule forest_reparent [OF f n(1) _ out]) (use p(1) g in simp_all)
  show "hangs a b" if ab: "a \<in> set (map g ns)" "b \<in> set (map g ns)" "n_parent a = Some (n_id b)" for a b
  proof -
    from ab obtain a0 b0 where o: "a0 \<in> set ns" "a = g a0" "b0 \<in> set ns" "b = g b0" by auto
    note ga = g [OF o(1)] and gb = g [OF o(3)]
    show ?thesis
    proof (cases "n_id a0 = n_id n")
      case True
      then have a: "a0 = n" using distinct_key_eq [OF d o(1) n(1)] by simp
      with ab(3) ga gb o have "n_id b0 = n_id p" by simp
      then have "b0 = p" using distinct_key_eq [OF d o(3) p(1)] by simp
      with a ga gb p n show ?thesis by (simp add: hangs_def live_def o)
    next
      case False
      with ab(3) ga gb o have "n_parent a0 = Some (n_id b0)" by simp
      from tree_rows_hangs [OF t o(1,3) this] ga gb show ?thesis by (simp add: hangs_def live_def o)
    qed
  qed
  show "heads a" if "a \<in> set (map g ns)" "n_parent a = None" for a
  proof -
    from that obtain a0 where o: "a0 \<in> set ns" "a = g a0" by auto
    with that g [OF o(1)] have "n_parent a0 = None" by (simp split: if_splits)
    from tree_rows_root [OF t o(1) this] g [OF o(1)] show ?thesis by (simp add: heads_def o)
  qed
qed

lemma rename_sound:
  assumes s: "sound db" and n: "n \<in> set (nodes db)" "live n" and dir: "dir \<in> set (nodes db)" "live dir"
    and own: "n_owner dir = n_owner n" and r: "rename C now n dir name db = Inr (m, db')"
  shows "sound db'" and "child (n_id dir) name db' = Some m" and "n_id m = n_id n"
    and "n_blob m = n_blob n" and "n_size m = n_size n" and "n_kind m = n_kind n"
proof -
  from r obtain etag db1 where k: "n_kind dir = Directory" "n_kind n = Directory \<longrightarrow> \<not> contains n dir db"
    and d1: "db1 = db \<or> db1 = snd (now_v7 db)"
    and u: "update_node (n_id n) (\<lambda>r. r\<lparr>n_parent := Some (n_id dir), n_name := as_str name,
       n_etag := etag, n_updated := now\<rparr>) db1 = Inr db'"
    and fm: "find_node (nodes db') (n_id n) = Some m"
    by (auto simp: rename_def rbind_eq_Inr case_prod_unfold Let_def fetch_one_def
        split: if_splits node_kind.splits)
  let ?f = "\<lambda>r. r\<lparr>n_parent := Some (n_id dir), n_name := as_str name, n_etag := etag, n_updated := now\<rparr>"
  let ?g = "\<lambda>r. if n_id r = n_id n then ?f r else r"
  have s1: "sound db1" and ns1: "nodes db1 = nodes db" and vs1: "versions db1 = versions db" using d1 s by auto
  have st: "store_nodes (map ?g (nodes db1)) db1 = Inr db'" using u by (simp add: update_node_def)
  have ids: "map n_id (map ?g (nodes db1)) = map n_id (nodes db1)" by simp
  have sub: "n_id ` set (map ?g (nodes db1)) = n_id ` set (nodes db1)" by (metis ids list.set_map)
  note so = store_nodes_ok [OF soundD(1) [OF s1] st, unfolded sub, OF order_refl]
  have ns: "nodes db' = map ?g (nodes db)" using so(2) ns1 by simp
  have out: "(n_id dir, n_id n) \<notin> (below all_rows (nodes db))\<^sup>*"
  proof (cases "n_kind n")
    case Directory
    with k(2) contains_iff [OF s n(1)] show ?thesis by simp
  next
    case File
    then have "n_id dir \<noteq> n_id n"
      using k(1) distinct_key_eq [OF soundD(6) [OF s] dir(1) n(1)] by auto
    with file_is_leaf [OF s n(1) File] show ?thesis by blast
  qed
  have tr: "n_trash_root n = None"
    using node_checks_trash [OF nodes_ok_checks [OF soundD(5) [OF s] n(1)]] n(2) by (simp add: live_def)
  have "tree_rows (nodes db')"
    unfolding ns by (rule tree_rows_reparent [OF soundD(7) [OF s] n tr dir k(1) own out]) auto
  moreover have "n_kind a = File" if "v \<in> set (versions db')" "a \<in> set (nodes db')" "n_id a = v_node v" for v a
  proof -
    from that(2) obtain a0 where a0: "a0 \<in> set (nodes db)" "a = ?g a0" by (auto simp: ns)
    then have "n_id a0 = v_node v" "n_kind a = n_kind a0" using that(3) by (auto split: if_splits)
    with a0(1) that(1) soundD(3) [OF s] so(2) vs1 show ?thesis by (auto simp: tree_ok_def list_all_iff)
  qed
  ultimately have t: "tree_ok db'" by (auto simp: tree_ok_def list_all_iff)
  have ok: "nodes_ok (db1\<lparr>nodes := map ?g (nodes db1)\<rparr>)" using so(2,3) by simp
  have "sum_rows (row_share (versions db1) x) (map ?g (nodes db1)) = sum_rows (row_share (versions db1) x) (nodes db1)" for x
    by (auto simp: sum_rows_map row_share_def cost_def live_def intro!: sum_rows_cong)
  moreover have "count_rows (\<lambda>n. n_blob n = Some h) (map ?g (nodes db1)) = count_rows (\<lambda>n. n_blob n = Some h) (nodes db1)" for h
    by (auto simp: count_rows_sum sum_rows_map intro!: sum_rows_cong)
  ultimately have "balanced db'"
    using nodes_drift [OF soundD(5) [OF s1] ok] soundD(4) [OF s1] by (simp add: balanced_drift so(2))
  moreover have "thumbnails_ok db'"
    using soundD(2) [OF s1] so(2) by (simp add: thumbnails_ok_def has_blob_def)
  ultimately show s': "sound db'" using so(1) t by (simp add: sound_def)
  have "?f n \<in> set (nodes db')" unfolding ns using n(1) by force
  from sound_find [OF s' this] fm have m: "m = ?f n" by simp
  then show "n_id m = n_id n" "n_blob m = n_blob n" "n_size m = n_size n" "n_kind m = n_kind n" by simp_all
  show "child (n_id dir) name db' = Some m"
    by (rule child_unique [OF s']) (use find_node_Some [OF fm] m n(2) in \<open>simp_all add: live_def\<close>)
qed

end
