(* ===== verification/Copy.thy ===== *)
theory Copy
  imports Tree
begin

text \<open>
  \<open>copy_tree\<close> of \<open>api/src/db.rs\<close>: the copy of a directory walks the source with a stack of
  directories still to copy, charges the account once at the end, and always finishes.
\<close>

section \<open>Books during a copy\<close>

text \<open>A copy is charged when it is complete, so until then the account is short by what it copied.\<close>

definition short_by :: "uuid \<Rightarrow> int \<Rightarrow> db \<Rightarrow> bool" where
  "short_by owner c db \<longleftrightarrow> schema_ok db \<and> tree_ok db \<and> thumbnails_ok db
     \<and> (\<forall>h. ref_drift db h = 0) \<and> (\<forall>x. use_drift db x = at_key owner (- c) x)"

lemma short_by_sound: "short_by owner 0 db \<longleftrightarrow> sound db"
  by (auto simp: short_by_def sound_def balanced_drift at_key_def)

lemma short_by_now_v7 [simp]: "short_by owner c (snd (now_v7 db)) = short_by owner c db"
  by (simp add: short_by_def)

lemma short_by_distinct: "short_by owner c db \<Longrightarrow> distinct (map n_id (nodes db))"
  by (simp add: short_by_def nodes_ok_distinct schema_okD)

lemma short_by_charge:
  assumes "short_by owner c db" and "charge_quota owner c db = Inr db'"
  shows "sound db'" and "nodes db' = nodes db"
proof -
  have ok: "schema_ok db" using assms(1) by (simp add: short_by_def)
  note m = charge_moved [OF schema_okD(3) [OF ok] assms(2)]
  note f = charge_quota_frame [OF assms(2)]
  show "nodes db' = nodes db" by (rule f)
  have "tree_ok db'" using assms(1) f(1,3) by (simp add: short_by_def tree_ok_def)
  moreover have "thumbnails_ok db'" using moved_thumbnails [OF m] assms(1) by (simp add: short_by_def)
  moreover have "balanced db'"
    using m assms(1) by (auto simp: balanced_drift moved_def short_by_def at_key_def)
  ultimately show "sound db'" using schema_ok_charge [OF ok assms(2)] by (simp add: sound_def)
qed

lemma find_node_append_fresh:
  "n_id n \<notin> n_id ` set ns \<Longrightarrow> find_node (ns @ [n]) (n_id n) = Some n"
  unfolding find_node_def by (subst find_append_new) (auto simp: image_iff)

text \<open>What a copy of one row looks like next to the row it copies.\<close>

definition copy_of :: "crates \<Rightarrow> node \<Rightarrow> node \<Rightarrow> bool" where
  "copy_of C original n \<longleftrightarrow> n_kind n = n_kind original \<and> n_blob n = n_blob original
     \<and> n_size n = n_size original \<and> live n
     \<and> (n_kind original = File \<longrightarrow> n_etag n = n_etag original)"

lemma copy_one_books:
  assumes b: "short_by owner c db" and i: "home owner i db"
    and cp: "copy_one C now owner i name original db = Inr (n, db')"
  shows "short_by owner (c + n_size original) db'" and "nodes db' = nodes db @ [n]"
    and "n_parent n = Some i" and "n_name n = name" and "copy_of C original n" and "n_owner n = owner"
    and "n_id n \<notin> n_id ` set (nodes db)"
    and "n_kind original = Directory \<Longrightarrow> home owner (n_id n) db'"
proof -
  let ?d = "if n_kind original = Directory then snd (now_v7 (snd (now_v7 db))) else snd (now_v7 db)"
  have "\<exists>db3. insert_node n ?d = Inr db3
      \<and> db' = (case n_blob original of None \<Rightarrow> db3 | Some h \<Rightarrow> acquire_blob h db3)"
    using cp by (cases "n_kind original") (auto simp: copy_one_def rbind_eq_Inr case_prod_unfold Let_def)
  moreover have "short_by owner c ?d" "nodes ?d = nodes db" using b by simp_all
  ultimately obtain db2 db3 where d2: "short_by owner c db2" "nodes db2 = nodes db"
    and ins: "insert_node n db2 = Inr db3"
    and d': "db' = (case n_blob original of None \<Rightarrow> db3 | Some h \<Rightarrow> acquire_blob h db3)" by blast
  have n: "n_parent n = Some i" "n_name n = name" "n_kind n = n_kind original" "n_blob n = n_blob original"
      "n_size n = n_size original" "n_owner n = owner" "live n" "n_trash_root n = None"
      "n_kind original = File \<Longrightarrow> n_etag n = n_etag original"
    using cp by (cases "n_kind original";
      auto simp: copy_one_def rbind_eq_Inr case_prod_unfold Let_def live_def)+
  show "n_parent n = Some i" "n_name n = name" "n_owner n = owner" using n by simp_all
  show "copy_of C original n" using n by (simp add: copy_of_def)
  have ok2: "schema_ok db2" "tree_ok db2" using d2(1) by (simp_all add: short_by_def)
  have par: "\<exists>p\<in>set (nodes db2). n_id p = j \<and> hangs n p" if "n_parent n = Some j" for j
    using i by (rule homeE) (use n that d2(2) in \<open>auto simp: hangs_def\<close>)
  have top: "n_parent n = None \<Longrightarrow> n_kind n = Directory" using n(1) by simp
  note r = insert_node_books [OF ok2 ins n(8,7) top par]
  have fr: "nodes db' = nodes db3" by (simp add: d' split: option.splits)
  then show ns: "nodes db' = nodes db @ [n]" using r(3) d2(2) by simp
  show fresh: "n_id n \<notin> n_id ` set (nodes db)" using r(7) d2(2) by simp
  show "home owner (n_id n) db'" if "n_kind original = Directory"
    using find_node_append_fresh [OF fresh] n that by (simp add: home_def ns)
  show "short_by owner (c + n_size original) db'"
  proof (cases "n_blob original")
    case None
    with r d2(1) n thumbnails_ok_rest [OF r(4)] show ?thesis
      by (auto simp: short_by_def d' at_key_def)
  next
    case (Some h)
    have "h \<in> set (map b_hash (blobs db3))"
      by (rule nodes_ok_blob [OF schema_okD(1) [OF r(1)], of n]) (use r(3) n(4) Some in simp_all)
    then have hb: "has_blob db3 h" by (simp add: has_blob_def)
    note m = acquire_moved [OF hb]
    have e: "db' = acquire_blob h db3" using Some by (simp add: d')
    have "schema_ok db'" unfolding e by (rule schema_ok_acquire [OF r(1)])
    moreover have "tree_ok db'" using r(2) by (simp add: e tree_ok_def)
    moreover have "thumbnails_ok db'"
      using moved_thumbnails [OF m] thumbnails_ok_rest [OF r(4)] d2(1) by (simp add: e short_by_def)
    moreover have "ref_drift db' x = 0" "use_drift db' y = at_key owner (- (c + n_size original)) y" for x y
      using r(5) [of x] r(6) [of y] m d2(1) n Some
      by (auto simp: e moved_def short_by_def at_key_def)
    ultimately show ?thesis by (simp add: short_by_def)
  qed
qed

text \<open>The children of one directory.\<close>

lemma copy_children_books:
  "copy_children C now owner into os (spent, pending, db) = Inr (spent', pending', db') \<Longrightarrow>
   short_by owner spent db \<Longrightarrow> home owner into db \<Longrightarrow> (\<forall>(f, t)\<in>set pending. home owner t db) \<Longrightarrow>
   short_by owner spent' db' \<and> (\<forall>(f, t)\<in>set pending'. home owner t db')
     \<and> (\<exists>ns. nodes db' = nodes db @ ns \<and> list_all2 (\<lambda>a n. copy_of C a n \<and> n_name n = n_name a
           \<and> n_parent n = Some into \<and> n_id n \<notin> n_id ` set (nodes db)) os ns
         \<and> pending' = rev (map (\<lambda>(a, n). (n_id a, n_id n))
             (filter (\<lambda>(a, n). n_kind a = Directory) (zip os ns))) @ pending)"
proof (induction os arbitrary: spent pending db)
  case Nil
  then show ?case by simp
next
  case (Cons a os)
  from Cons.prems(1) obtain n db1 where one: "copy_one C now owner into (n_name a) a db = Inr (n, db1)"
    and rest: "copy_children C now owner into os (spent + n_size a,
      (if n_kind a = Directory then (n_id a, n_id n) # pending else pending), db1)
        = Inr (spent', pending', db')"
    by (auto simp: rbind_eq_Inr)
  note c = copy_one_books [OF Cons.prems(2,3) one]
  have homes: "home owner t db1" if "home owner t db" for t
    by (rule home_append [OF that c(2)])
  have "\<forall>(f, t)\<in>set (if n_kind a = Directory then (n_id a, n_id n) # pending else pending). home owner t db1"
    using c(8) homes Cons.prems(4) by auto
  from Cons.IH [OF rest c(1) homes [OF Cons.prems(3)] this] obtain ns where
    r: "short_by owner spent' db'" "\<forall>(f, t)\<in>set pending'. home owner t db'"
      "nodes db' = nodes db1 @ ns"
      "list_all2 (\<lambda>a n. copy_of C a n \<and> n_name n = n_name a \<and> n_parent n = Some into
         \<and> n_id n \<notin> n_id ` set (nodes db1)) os ns"
      "pending' = rev (map (\<lambda>(a, n). (n_id a, n_id n)) (filter (\<lambda>(a, n). n_kind a = Directory) (zip os ns)))
        @ (if n_kind a = Directory then (n_id a, n_id n) # pending else pending)"
    by auto
  have "list_all2 (\<lambda>a n. copy_of C a n \<and> n_name n = n_name a \<and> n_parent n = Some into
      \<and> n_id n \<notin> n_id ` set (nodes db)) (a # os) (n # ns)"
    using c(2-5,7) by (auto intro: list_all2_mono [OF r(4)])
  with r c(2) show ?case by (intro conjI exI [of _ "n # ns"]) auto
qed

lemma copy_pending_books:
  "copy_pending fuel C now owner (spent, pending, db) = Some (Inr (spent', db')) \<Longrightarrow>
   short_by owner spent db \<Longrightarrow> (\<forall>(f, t)\<in>set pending. home owner t db) \<Longrightarrow>
   short_by owner spent' db' \<and> (\<exists>ns. nodes db' = nodes db @ ns)"
proof (induction fuel arbitrary: spent pending db)
  case 0
  then show ?case by (cases pending) auto
next
  case (Suc fuel)
  show ?case
  proof (cases pending)
    case Nil
    with Suc.prems show ?thesis by auto
  next
    case (Cons p rest)
    obtain f t where p: "p = (f, t)" by force
    from Suc.prems(1) Cons p obtain spent1 pending1 db1 where
      c: "copy_children C now owner t (children_in f db) (spent, rest, db) = Inr (spent1, pending1, db1)"
      and more: "copy_pending fuel C now owner (spent1, pending1, db1) = Some (Inr (spent', db'))"
      by (auto split: sum.splits)
    from Suc.prems(3) Cons p have "home owner t db" "\<forall>(f, t)\<in>set rest. home owner t db" by auto
    with copy_children_books [OF c Suc.prems(2)] obtain ns where
      "short_by owner spent1 db1" "\<forall>(f, t)\<in>set pending1. home owner t db1" "nodes db1 = nodes db @ ns"
      by blast
    with Suc.IH [OF more] show ?thesis by auto
  qed
qed

lemma no_children_of_file:
  assumes "short_by owner c db" and "f \<in> set (nodes db)" and "n_kind f = File"
  shows "children_in (n_id f) db = []"
proof -
  have "tree_rows (nodes db)" using assms(1) by (simp add: short_by_def tree_ok_def)
  from tree_rows_hangs [OF this _ assms(2)] assms(3) show ?thesis
    by (auto simp: children_in_def filter_empty_conv hangs_def)
qed

lemma copy_pending_done:
  "copy_pending fuel C now owner (spent, [], db) = Some (Inr (spent, db))"
  by (cases fuel) simp_all

lemma copy_tree_sound:
  assumes s: "sound db" and src: "source \<in> set (nodes db)" and dir: "home owner (n_id dir) db"
    and c: "copy_tree C now owner source dir name db = Some (Inr (root, db'))"
  shows "sound db'" and "child (n_id dir) name db' = Some root" and "copy_of C source root"
    and "\<exists>ns. nodes db' = nodes db @ root # ns"
proof -
  from c obtain db1 spent db2 where
    one: "copy_one C now owner (n_id dir) (as_str name) source db = Inr (root, db1)"
    and more: "copy_pending (length (nodes db)) C now owner (n_size source, [(n_id source, n_id root)], db1)
        = Some (Inr (spent, db2))"
    and ch: "charge_quota owner spent db2 = Inr db'"
    by (auto simp: copy_tree_def rbind_eq_Inr split: if_splits sum.splits)
  have s0: "short_by owner 0 db" using s by (simp add: short_by_sound)
  note a = copy_one_books [OF s0 dir one]
  have r: "short_by owner spent db2 \<and> (\<exists>ns. nodes db2 = nodes db1 @ ns)"
  proof (cases "n_kind source")
    case Directory
    with copy_pending_books [OF more] a(1,8) show ?thesis by simp
  next
    case File
    have "source \<in> set (nodes db1)" using src a(2) by simp
    with no_children_of_file [OF a(1) _ File] have "children_in (n_id source) db1 = []" by blast
    with more have "spent = n_size source" "db2 = db1"
      by (cases "length (nodes db)"; simp add: copy_pending_done)+
    with a(1) show ?thesis by simp
  qed
  then have sb: "short_by owner spent db2" by blast
  note sd = short_by_charge [OF sb ch]
  show "sound db'" by (rule sd(1))
  from r a(2) sd(2) show ns: "\<exists>ns. nodes db' = nodes db @ root # ns" by auto
  show "copy_of C source root" by (rule a(5))
  show "child (n_id dir) name db' = Some root"
    by (rule child_unique [OF sd(1)]) (use ns a in \<open>auto simp: copy_of_def\<close>)
qed

section \<open>The copy finishes and mirrors its source\<close>

text \<open>
  The loop against the tree \<open>db0\<close> it started from: what is below the source (\<open>S\<close>) never gains a
  child, a directory still to fill has none, and one that is filled has a copy of each child of
  its original under the same name.
\<close>

definition mirrors :: "crates \<Rightarrow> db \<Rightarrow> db \<Rightarrow> (uuid \<times> uuid) set \<Rightarrow> uuid \<times> uuid \<Rightarrow> bool" where
  "mirrors C db0 db R ft \<longleftrightarrow> (\<forall>name. case child (fst ft) name db0 of
       None \<Rightarrow> child (snd ft) name db = None
     | Some a \<Rightarrow> \<exists>n. child (snd ft) name db = Some n \<and> copy_of C a n
         \<and> (n_kind a = Directory \<longrightarrow> (n_id a, n_id n) \<in> R))"

definition copying ::
    "crates \<Rightarrow> db \<Rightarrow> uuid set \<Rightarrow> uuid \<Rightarrow> (uuid \<times> uuid) set \<Rightarrow> (uuid \<times> uuid) list \<Rightarrow> int \<Rightarrow> db \<Rightarrow> bool" where
  "copying C db0 S owner filled pending spent db \<longleftrightarrow> short_by owner spent db
     \<and> (\<exists>new. nodes db = nodes db0 @ new \<and> (\<forall>m\<in>set new. n_parent m \<notin> Some ` S))
     \<and> (\<forall>(f, t)\<in>set pending. f \<in> S \<and> t \<notin> S \<and> home owner t db \<and> children_in t db = [])
     \<and> distinct (map snd pending) \<and> snd ` filled \<inter> snd ` set pending = {}
     \<and> snd ` filled \<subseteq> n_id ` set (nodes db)
     \<and> (\<forall>ft\<in>filled. mirrors C db0 db (filled \<union> set pending) ft)"

lemma child_children: "child i name db = Some a \<Longrightarrow> a \<in> set (children_in i db)"
  using child_Some [of i name db a] by (simp add: children_in_def)

lemma child_None_children:
  "child i name db = None \<longleftrightarrow> (\<forall>a\<in>set (children_in i db). n_name a \<noteq> as_str name)"
  by (auto simp: child_def children_in_def find_None_set)

lemma find_append_none: "\<forall>y\<in>set ys. \<not> P y \<Longrightarrow> find P (xs @ ys) = find P xs"
  by (induction xs) (auto simp: find_None_set)

lemma children_in_append:
  assumes "nodes db' = nodes db @ ns" and "\<forall>n\<in>set ns. n_parent n \<noteq> Some i"
  shows "children_in i db' = children_in i db" and "child i name db' = child i name db"
  using assms by (auto simp: children_in_def child_def filter_empty_conv intro!: find_append_none)

text \<open>What the children of one directory become, row by row.\<close>

definition copied :: "crates \<Rightarrow> uuid \<Rightarrow> node \<Rightarrow> node \<Rightarrow> bool" where
  "copied C into a n \<longleftrightarrow> copy_of C a n \<and> n_name n = n_name a \<and> n_parent n = Some into"

lemma list_all2_zip_left: "list_all2 P xs ys \<Longrightarrow> x \<in> set xs \<Longrightarrow> \<exists>y. (x, y) \<in> set (zip xs ys) \<and> P x y"
  by (induction rule: list_all2_induct) auto

lemma list_all2_zip_right: "list_all2 P xs ys \<Longrightarrow> y \<in> set ys \<Longrightarrow> \<exists>x. (x, y) \<in> set (zip xs ys) \<and> P x y"
  by (induction rule: list_all2_induct) auto

lemma list_all2_zip_all: "list_all2 P xs ys \<Longrightarrow> (x, y) \<in> set (zip xs ys) \<Longrightarrow> P x y"
  by (induction rule: list_all2_induct) auto

definition new_pairs :: "node list \<Rightarrow> node list \<Rightarrow> (uuid \<times> uuid) list" where
  "new_pairs os ns = rev (map (\<lambda>(a, n). (n_id a, n_id n)) (filter (\<lambda>(a, n). n_kind a = Directory) (zip os ns)))"

lemma new_pairs_iff:
  "ft \<in> set (new_pairs os ns) \<longleftrightarrow> (\<exists>a n. (a, n) \<in> set (zip os ns) \<and> n_kind a = Directory \<and> ft = (n_id a, n_id n))"
  by (force simp: new_pairs_def)

lemma new_pairs_distinct: "distinct (map n_id ns) \<Longrightarrow> distinct (map snd (new_pairs os ns))"
proof -
  have "distinct (map snd (map (\<lambda>(a, n). (n_id a, n_id n)) (filter P (zip os ns))))"
    if "distinct (map n_id ns)" for P
    using that
  proof (induction os ns rule: list_induct2')
    case (4 a os n ns)
    have "n_id n \<notin> n_id ` snd ` set (zip os ns)"
      using 4(2) by (auto dest: set_zip_rightD)
    with 4 show ?case by (auto simp: image_iff)
  qed simp_all
  moreover assume "distinct (map n_id ns)"
  ultimately show ?thesis by (simp add: new_pairs_def rev_map [symmetric])
qed

text \<open>A directory that was empty and got a copy of every child mirrors its original.\<close>

lemma mirrors_filled:
  assumes ok: "nodes_ok db1" and ns: "nodes db1 = nodes db @ ns" and none: "children_in t db = []"
    and cp: "list_all2 (copied C t) (children_in f db0) ns"
    and R: "set (new_pairs (children_in f db0) ns) \<subseteq> R"
  shows "mirrors C db0 db1 R (f, t)"
  unfolding mirrors_def fst_conv snd_conv
proof (rule allI, split option.split, intro conjI impI allI)
  fix name
  assume nf: "child f name db0 = None"
  have "n_name n \<noteq> as_str name" if "n \<in> set (children_in t db1)" for n
  proof -
    have "n \<in> set ns" using that none by (auto simp: children_in_def ns filter_empty_conv)
    from list_all2_zip_right [OF cp this] obtain a where
      "(a, n) \<in> set (zip (children_in f db0) ns)" "n_name n = n_name a" by (auto simp: copied_def)
    with nf show ?thesis by (auto simp: child_None_children dest: set_zip_leftD)
  qed
  then show "child t name db1 = None" by (simp add: child_None_children)
next
  fix name a
  assume "child f name db0 = Some a"
  then have a: "a \<in> set (children_in f db0)" "n_name a = as_str name"
    using child_children child_Some by blast+
  from list_all2_zip_left [OF cp a(1)] obtain n where
    n: "(a, n) \<in> set (zip (children_in f db0) ns)" "copied C t a n" by blast
  then have "n \<in> set (nodes db1)" by (auto simp: ns dest: set_zip_rightD)
  then have "child t name db1 = Some n"
    using n(2) a(2) by (intro child_unique_ok [OF ok]) (auto simp: copied_def copy_of_def)
  moreover have "n_kind a = Directory \<longrightarrow> (n_id a, n_id n) \<in> R"
    using n(1) R new_pairs_iff [of "(n_id a, n_id n)" "children_in f db0" ns] by blast
  ultimately show "\<exists>n. child t name db1 = Some n \<and> copy_of C a n
      \<and> (n_kind a = Directory \<longrightarrow> (n_id a, n_id n) \<in> R)"
    using n(2) by (auto simp: copied_def)
qed

lemma mirrors_kept:
  assumes "mirrors C db0 db R ft" and "nodes db1 = nodes db @ ns" and "\<forall>n\<in>set ns. n_parent n \<noteq> Some (snd ft)"
    and "R \<subseteq> R'"
  shows "mirrors C db0 db1 R' ft"
  using assms(1,4) children_in_append(2) [OF assms(2,3)]
  unfolding mirrors_def by (fastforce split: option.splits)

text \<open>What the walk sees of the tree it copies: the live rows below the source.\<close>

abbreviation subtree :: "db \<Rightarrow> uuid \<Rightarrow> uuid set" where
  "subtree db i \<equiv> {j. (j, i) \<in> (below live (nodes db))\<^sup>*}"

definition weight :: "db \<Rightarrow> (uuid \<times> uuid) list \<Rightarrow> nat" where
  "weight db pending = sum_list (map (\<lambda>(f, t). length (descend live (nodes db) [] f)) pending)"

lemma subtree_ids: "i \<in> n_id ` set (nodes db) \<Longrightarrow> subtree db i \<subseteq> n_id ` set (nodes db)"
proof
  fix j
  assume i: "i \<in> n_id ` set (nodes db)" and "j \<in> subtree db i"
  then have "(j, i) \<in> (below live (nodes db))\<^sup>*" by simp
  then show "j \<in> n_id ` set (nodes db)"
    by (cases rule: converse_rtranclE) (use i in \<open>auto simp: below_def\<close>)
qed

lemma subtree_child:
  assumes "f \<in> subtree db i" and "c \<in> set (children_in f db)"
  shows "n_id c \<in> subtree db i"
proof -
  have "(n_id c, f) \<in> below live (nodes db)" using assms(2) by (auto simp: children_in_def below_def)
  with assms(1) show ?thesis by (simp add: converse_rtrancl_into_rtrancl)
qed

lemma weight_new_pairs:
  "length os = length ns \<Longrightarrow>
   weight db (new_pairs os ns) \<le> sum_list (map (\<lambda>c. length (descend live (nodes db) [] (n_id c))) os)"
  unfolding weight_def new_pairs_def rev_map [symmetric] sum_list_rev map_map
  by (induction os ns rule: list_induct2) (auto simp: sum_list_rev)

lemma weight_step:
  assumes "forest (nodes db)" and "f \<in> n_id ` set (nodes db)" and "length (children_in f db) = length ns"
  shows "weight db (new_pairs (children_in f db) ns @ rest) < weight db ((f, t) # rest)"
proof -
  have "weight db (new_pairs (children_in f db) ns @ rest)
      = weight db (new_pairs (children_in f db) ns) + weight db rest" by (simp add: weight_def)
  also have "\<dots> < length (descend live (nodes db) [] f) + weight db rest"
    using weight_new_pairs [OF assms(3), of db] descend_length [OF assms(1,2), of live]
    by (simp add: children_in_def [of f db])
  finally show ?thesis by (simp add: weight_def)
qed

lemma copying_children:
  assumes "copying C db0 S owner filled pending spent db" and "f \<in> S"
  shows "children_in f db = children_in f db0"
proof -
  from assms(1) obtain new where "nodes db = nodes db0 @ new" "\<forall>m\<in>set new. n_parent m \<notin> Some ` S"
    by (auto simp: copying_def)
  with assms(2) show ?thesis by (intro children_in_append(1)) auto
qed

text \<open>One turn: a directory is filled and the directories in it are pending.\<close>

lemma copying_step:
  assumes S: "S = subtree db0 s" "s \<in> n_id ` set (nodes db0)"
    and inv: "copying C db0 S owner filled ((f, t) # rest) spent db"
    and c: "copy_children C now owner t (children_in f db) (spent, rest, db) = Inr (spent1, pending1, db1)"
  obtains ns where "length (children_in f db0) = length ns"
    "pending1 = new_pairs (children_in f db0) ns @ rest"
    "copying C db0 S owner (insert (f, t) filled) pending1 spent1 db1"
proof -
  let ?os = "children_in f db0"
  from inv obtain new where
    sb: "short_by owner spent db" and new: "nodes db = nodes db0 @ new" "\<forall>m\<in>set new. n_parent m \<notin> Some ` S"
    and ft: "f \<in> S" "t \<notin> S" "home owner t db" "children_in t db = []"
    and rest: "\<And>f' t'. (f', t') \<in> set rest \<Longrightarrow> f' \<in> S \<and> t' \<notin> S \<and> home owner t' db \<and> children_in t' db = []"
    and dis: "distinct (t # map snd rest)" "snd ` filled \<inter> set (t # map snd rest) = {}"
    and sub: "snd ` filled \<subseteq> n_id ` set (nodes db)"
    and mir: "\<And>x. x \<in> filled \<Longrightarrow> mirrors C db0 db (filled \<union> set ((f, t) # rest)) x"
    unfolding copying_def by (fastforce simp: split_beta)
  have os: "children_in f db = ?os" by (rule copying_children [OF inv ft(1)])
  have "\<forall>(f, t)\<in>set rest. home owner t db" using rest by auto
  from copy_children_books [OF c sb ft(3) this] obtain ns where
    sb1: "short_by owner spent1 db1" and home1: "\<forall>(f, t)\<in>set pending1. home owner t db1"
    and ns: "nodes db1 = nodes db @ ns"
    and l2: "list_all2 (\<lambda>a n. copy_of C a n \<and> n_name n = n_name a \<and> n_parent n = Some t
      \<and> n_id n \<notin> n_id ` set (nodes db)) ?os ns"
    and p1: "pending1 = new_pairs ?os ns @ rest"
    unfolding os new_pairs_def by auto
  have cp: "list_all2 (copied C t) ?os ns" by (rule list_all2_mono [OF l2]) (simp add: copied_def)
  have par: "\<forall>n\<in>set ns. n_parent n = Some t \<and> n_id n \<notin> n_id ` set (nodes db)"
    using list_all2_zip_right [OF l2] by blast
  have t_in: "t \<in> n_id ` set (nodes db)" using ft(3) by (auto elim: homeE)
  have rest_in: "t' \<in> n_id ` set (nodes db)" if "(f', t') \<in> set rest" for f' t'
    using rest [OF that] by (auto elim: homeE)
  have d1: "distinct (map n_id (nodes db1))" by (rule short_by_distinct [OF sb1])
  have closed: "\<And>m p. m \<in> set (nodes db) \<Longrightarrow> n_parent m = Some p \<Longrightarrow> p \<in> n_id ` set (nodes db)"
    using sb nodes_ok_parent schema_okD(1) by (force simp: short_by_def)
  have Sdb: "S \<subseteq> n_id ` set (nodes db)" using subtree_ids [OF S(2)] new(1) by (auto simp: S(1))
  have np: "f' \<in> S \<and> t' \<in> n_id ` set ns" if "(f', t') \<in> set (new_pairs ?os ns)" for f' t'
    using that subtree_child [of f s db0] ft(1) by (auto simp: new_pairs_iff S(1) dest: set_zip_leftD set_zip_rightD)
  have ch_new: "children_in t' db1 = []" if "t' \<in> n_id ` set ns" for t'
  proof -
    have "t' \<notin> n_id ` set (nodes db)" using that par by (metis imageE)
    then have "n_parent m \<noteq> Some t'" if "m \<in> set (nodes db)" for m using closed [OF that] by blast
    moreover have "n_parent m \<noteq> Some t'" if "m \<in> set ns" for m
      using par that t_in \<open>t' \<notin> n_id ` set (nodes db)\<close> by (metis option.inject)
    ultimately show ?thesis by (auto simp: children_in_def ns filter_empty_conv)
  qed
  have ch_rest: "children_in t' db1 = []" if "(f', t') \<in> set rest" for f' t'
    using children_in_append(1) [OF ns, of t'] rest [OF that] dis(1) par that by force
  have pend: "\<forall>(f', t')\<in>set pending1. f' \<in> S \<and> t' \<notin> S \<and> home owner t' db1 \<and> children_in t' db1 = []"
  proof (clarify, intro conjI)
    fix f' t'
    assume m: "(f', t') \<in> set pending1"
    show "home owner t' db1" using home1 m by blast
    have "(f' \<in> S \<and> t' \<in> n_id ` set ns) \<or> (f', t') \<in> set rest" using m np by (auto simp: p1)
    then have "f' \<in> S \<and> t' \<notin> S \<and> children_in t' db1 = []"
    proof
      assume "f' \<in> S \<and> t' \<in> n_id ` set ns"
      then show ?thesis using ch_new [of t'] par Sdb by blast
    next
      assume "(f', t') \<in> set rest"
      with rest [OF this] ch_rest [OF this] show ?thesis by blast
    qed
    then show "f' \<in> S" "t' \<notin> S" "children_in t' db1 = []" by simp_all
  qed
  have fresh: "set (map snd (new_pairs ?os ns)) \<inter> n_id ` set (nodes db) = {}"
  proof -
    have "n_id ` set ns \<inter> n_id ` set (nodes db) = {}" using par by blast
    moreover have "set (map snd (new_pairs ?os ns)) \<subseteq> n_id ` set ns" using np by auto
    ultimately show ?thesis by blast
  qed
  have "distinct (map snd (new_pairs ?os ns))"
    by (rule new_pairs_distinct) (use d1 in \<open>simp add: ns\<close>)
  then have dist: "distinct (map snd pending1)"
  proof -
    have "set (map snd rest) \<subseteq> n_id ` set (nodes db)" using rest_in by auto
    then have "set (map snd (new_pairs ?os ns)) \<inter> set (map snd rest) = {}" using fresh by blast
    moreover assume "distinct (map snd (new_pairs ?os ns))"
    ultimately show ?thesis using dis(1) by (simp add: p1)
  qed
  have filled: "snd ` insert (f, t) filled \<inter> snd ` set pending1 = {}"
    "snd ` insert (f, t) filled \<subseteq> n_id ` set (nodes db1)"
    unfolding p1 ns using dis sub t_in fresh by auto
  let ?R = "insert (f, t) filled \<union> set pending1"
  have "mirrors C db0 db1 ?R x" if "x \<in> filled" for x
    by (rule mirrors_kept [OF mir [OF that] ns]) (use par dis(2) that in \<open>auto simp: p1\<close>)
  moreover have "mirrors C db0 db1 ?R (f, t)"
    by (rule mirrors_filled [OF _ ns ft(4) cp]) (use sb1 in \<open>auto simp: short_by_def schema_okD p1\<close>)
  moreover have "\<exists>new. nodes db1 = nodes db0 @ new \<and> (\<forall>m\<in>set new. n_parent m \<notin> Some ` S)"
    by (rule exI [of _ "new @ ns"]) (use new par ft(2) in \<open>auto simp: ns\<close>)
  ultimately have "copying C db0 S owner (insert (f, t) filled) pending1 spent1 db1"
    unfolding copying_def using sb1 pend dist filled by blast
  with that [OF list_all2_lengthD [OF cp] p1] show thesis by blast
qed

lemma copy_pending_total:
  assumes S: "S = subtree db0 s" "s \<in> n_id ` set (nodes db0)" and f: "forest (nodes db0)"
  shows "copying C db0 S owner filled pending spent db \<Longrightarrow> weight db0 pending \<le> fuel \<Longrightarrow>
    \<exists>r. copy_pending fuel C now owner (spent, pending, db) = Some r
      \<and> (\<forall>spent' db'. r = Inr (spent', db') \<longrightarrow>
          (\<exists>filled'. filled \<union> set pending \<subseteq> filled' \<and> copying C db0 S owner filled' [] spent' db'))"
proof (induction fuel arbitrary: filled pending spent db)
  case 0
  have "pending = []"
  proof (rule ccontr)
    assume "pending \<noteq> []"
    then obtain g t rest where p: "pending = (g, t) # rest" by (metis list.exhaust surj_pair)
    then have "g \<in> n_id ` set (nodes db0)" using 0(1) subtree_ids [OF S(2)] by (auto simp: copying_def S(1))
    from descend_length [OF f this, of live] 0(2) show False by (simp add: weight_def p)
  qed
  with 0 show ?case by auto
next
  case (Suc fuel)
  show ?case
  proof (cases pending)
    case Nil
    with Suc.prems show ?thesis by auto
  next
    case (Cons p rest)
    obtain g t where p: "p = (g, t)" by force
    have inv: "copying C db0 S owner filled ((g, t) # rest) spent db" using Suc.prems(1) by (simp add: Cons p)
    show ?thesis
    proof (cases "copy_children C now owner t (children_in g db) (spent, rest, db)")
      case (Inl e)
      then show ?thesis by (simp add: Cons p)
    next
      case (Inr acc)
      obtain spent1 pending1 db1 where acc: "acc = (spent1, pending1, db1)" by (metis prod_cases3)
      from copying_step [OF S inv Inr [unfolded acc]] obtain ns where
        len: "length (children_in g db0) = length ns" and p1: "pending1 = new_pairs (children_in g db0) ns @ rest"
        and inv1: "copying C db0 S owner (insert (g, t) filled) pending1 spent1 db1" .
      have "g \<in> n_id ` set (nodes db0)" using inv subtree_ids [OF S(2)] by (auto simp: copying_def S(1))
      from weight_step [OF f this len, of rest t] have "weight db0 pending1 \<le> fuel"
        using Suc.prems(2) by (simp add: p1 Cons p)
      from Suc.IH [OF inv1 this] show ?thesis
        by (auto simp: Cons p Inr acc p1) (metis (no_types, lifting) Un_iff insert_iff subset_iff)+
    qed
  qed
qed

text \<open>The stack the copy starts from.\<close>

lemma copying_start:
  assumes s: "sound db" and src: "source \<in> set (nodes db)" and k: "n_kind source = Directory"
    and dir: "home owner (n_id dir) db" and nc: "\<not> contains source dir db"
    and one: "copy_one C now owner (n_id dir) name source db = Inr (root, db1)"
  shows "copying C db (subtree db (n_id source)) owner {} [(n_id source, n_id root)] (n_size source) db1"
proof -
  let ?S = "subtree db (n_id source)"
  have s0: "short_by owner 0 db" using s by (simp add: short_by_sound)
  note a = copy_one_books [OF s0 dir one]
  have "(n_id dir, n_id source) \<notin> (below live (nodes db))\<^sup>*"
    using nc contains_iff [OF s src] below_star_mono by blast
  then have out: "n_id dir \<notin> ?S" by simp
  have "?S \<subseteq> n_id ` set (nodes db)" by (rule subtree_ids) (use src in simp)
  then have fresh: "n_id root \<notin> ?S" using a(7) by blast
  have par: "n_parent m \<noteq> Some (n_id root)" if "m \<in> set (nodes db)" for m
    using nodes_ok_parent [OF soundD(5) [OF s] that] a(7) by blast
  have "n_id dir \<in> n_id ` set (nodes db)" using dir by (rule homeE) (metis image_eqI)
  then have "n_id dir \<noteq> n_id root" using a(7) by metis
  then have "children_in (n_id root) db1 = []"
    using par a(2,3) by (auto simp: children_in_def filter_empty_conv)
  with out fresh a(1-3) a(8) [OF k] show ?thesis by (auto simp: copying_def)
qed

text \<open>Two directories that mirror each other all the way down answer every path alike.\<close>

definition answers_alike :: "crates \<Rightarrow> api_error + node \<Rightarrow> api_error + node \<Rightarrow> bool" where
  "answers_alike C r r' \<longleftrightarrow> (case r of Inl e \<Rightarrow> r' = Inl e | Inr a \<Rightarrow> \<exists>n. r' = Inr n \<and> copy_of C a n)"

lemma mirrors_resolve:
  assumes b0: "sound db0" and b: "sound db"
    and m: "\<And>x. x \<in> R \<Longrightarrow> mirrors C db0 db R x"
  shows "copy_of C a n \<Longrightarrow> a \<in> set (nodes db0) \<Longrightarrow> n \<in> set (nodes db) \<Longrightarrow>
    (n_kind a = Directory \<longrightarrow> (n_id a, n_id n) \<in> R) \<Longrightarrow>
    answers_alike C (resolve a path db0) (resolve n path db)"
proof (induction path arbitrary: a n)
  case Nil
  then show ?case by (simp add: answers_alike_def)
next
  case (Cons x path)
  show ?case
  proof (cases "n_kind a")
    case Directory
    with Cons.prems(4) m have mm: "mirrors C db0 db R (n_id a, n_id n)" by blast
    show ?thesis
    proof (cases "child (n_id a) x db0")
      case None
      with mm have "child (n_id n) x db = None" by (auto simp: mirrors_def dest!: spec [of _ x])
      with None show ?thesis by (simp add: answers_alike_def)
    next
      case (Some c)
      with mm obtain d where d: "child (n_id n) x db = Some d" "copy_of C c d"
        "n_kind c = Directory \<longrightarrow> (n_id c, n_id d) \<in> R"
        by (auto simp: mirrors_def dest!: spec [of _ x])
      from Cons.IH [OF d(2) _ _ d(3)] child_Some(1) [OF Some] child_Some(1) [OF d(1)]
      show ?thesis by (simp add: Some d(1))
    qed
  next
    case File
    have "short_by (0::nat) 0 db0" "short_by (0::nat) 0 db" using b0 b by (simp_all add: short_by_sound)
    moreover have "n_kind n = File" using Cons.prems(1) File by (simp add: copy_of_def)
    ultimately have "children_in (n_id a) db0 = []" "children_in (n_id n) db = []"
      using no_children_of_file Cons.prems(2,3) File by blast+
    then have "child (n_id a) x db0 = None" "child (n_id n) x db = None"
      by (simp_all add: child_None_children)
    then show ?thesis by (simp add: answers_alike_def)
  qed
qed

lemma copy_tree_loop:
  assumes s: "sound db" and src: "source \<in> set (nodes db)" and dir: "home owner (n_id dir) db"
    and nc: "n_kind source = Directory \<longrightarrow> \<not> contains source dir db"
    and one: "copy_one C now owner (n_id dir) name source db = Inr (root, db1)"
  shows "\<exists>r. copy_pending (length (nodes db)) C now owner (n_size source, [(n_id source, n_id root)], db1) = Some r
    \<and> (\<forall>spent db2. r = Inr (spent, db2) \<longrightarrow> n_kind source = Directory \<longrightarrow>
        (\<exists>R. (n_id source, n_id root) \<in> R \<and> (\<forall>x\<in>R. mirrors C db db2 R x)))"
proof (cases "n_kind source")
  case Directory
  have in_ids: "n_id source \<in> n_id ` set (nodes db)" using src by simp
  have w: "weight db [(n_id source, n_id root)] \<le> length (nodes db)"
    using descend_length_le [OF soundD(8) [OF s]] by (simp add: weight_def)
  from nc Directory have "\<not> contains source dir db" by simp
  from copy_pending_total [OF refl in_ids soundD(8) [OF s] copying_start [OF s src Directory dir this one] w]
  obtain r where r: "copy_pending (length (nodes db)) C now owner (n_size source, [(n_id source, n_id root)], db1) = Some r"
    "\<And>spent db2. r = Inr (spent, db2) \<Longrightarrow> \<exists>R. {} \<union> set [(n_id source, n_id root)] \<subseteq> R
       \<and> copying C db (subtree db (n_id source)) owner R [] spent db2" by blast
  have "\<exists>R. (n_id source, n_id root) \<in> R \<and> (\<forall>x\<in>R. mirrors C db db2 R x)" if "r = Inr (spent, db2)" for spent db2
    using r(2) [OF that] by (auto simp: copying_def)
  with r(1) show ?thesis by blast
next
  case File
  have s0: "short_by owner 0 db" using s by (simp add: short_by_sound)
  note a = copy_one_books [OF s0 dir one]
  have "source \<in> set (nodes db1)" using src a(2) by simp
  from no_children_of_file [OF a(1) this File] have "children_in (n_id source) db1 = []" .
  moreover obtain k where "length (nodes db) = Suc k" using src by (cases "nodes db") auto
  ultimately show ?thesis by (simp add: copy_pending_done File)
qed

lemma copy_tree_returns:
  assumes "sound db" and "source \<in> set (nodes db)" and "dir \<in> set (nodes db)" and "live dir"
    and "n_owner dir = owner"
  shows "copy_tree C now owner source dir name db \<noteq> None"
proof -
  have home: "home owner (n_id dir) db" if "n_kind dir = Directory"
    using homeI [OF assms(1,3,4) that] assms(5) by simp
  have "copy_pending (length (nodes db)) C now owner (n_size source, [(n_id source, n_id root)], db1) \<noteq> None"
    if "n_kind dir = Directory" "\<not> (n_kind source = Directory \<and> contains source dir db)"
      "copy_one C now owner (n_id dir) (as_str name) source db = Inr (root, db1)" for root db1
    using copy_tree_loop [OF assms(1,2) home [OF that(1)] _ that(3)] that(2) by auto
  then show ?thesis by (auto simp: copy_tree_def split: sum.splits)
qed

lemma copy_tree_mirrors:
  assumes s: "sound db" and src: "source \<in> set (nodes db)" and dir: "home owner (n_id dir) db"
    and c: "copy_tree C now owner source dir name db = Some (Inr (root, db'))"
  shows "answers_alike C (resolve source path db) (resolve root path db')"
proof -
  note t = copy_tree_sound [OF s src dir c]
  from c obtain db1 spent db2 where
    one: "copy_one C now owner (n_id dir) (as_str name) source db = Inr (root, db1)"
    and nc: "n_kind source = Directory \<longrightarrow> \<not> contains source dir db"
    and more: "copy_pending (length (nodes db)) C now owner (n_size source, [(n_id source, n_id root)], db1)
        = Some (Inr (spent, db2))"
    and ch: "charge_quota owner spent db2 = Inr db'"
    by (auto simp: copy_tree_def rbind_eq_Inr split: if_splits sum.splits)
  obtain R where R: "n_kind source = Directory \<longrightarrow> (n_id source, n_id root) \<in> R"
    "\<And>x. x \<in> R \<Longrightarrow> mirrors C db db2 R x"
  proof (cases "n_kind source")
    case Directory
    with copy_tree_loop [OF s src dir nc one] more that show thesis by auto
  next
    case File
    with that [of "{}"] show thesis by simp
  qed
  have "child i x db' = child i x db2" for i x
    using charge_quota_frame(1) [OF ch] by (simp add: child_def)
  then have "mirrors C db db' R x" if "x \<in> R" for x using R(2) [OF that] by (simp only: mirrors_def simp_thms)
  moreover have "root \<in> set (nodes db')" using t(4) by auto
  ultimately show ?thesis using mirrors_resolve [OF s t(1) _ t(3) src _ R(1)] by blast
qed

end
