(* ===== verification/Trash.thy ===== *)
theory Trash
  imports Tree
begin

text \<open>
  The trash of \<open>api/src/trash.rs\<close>: sending a subtree to the trash marks it as one batch and gives
  its bytes back, restoring a batch charges them again and opens the ancestors that were trashed
  after it, purging deletes for good. The invariant \<open>sound\<close> of \<open>Tree\<close> is kept by each of them.
\<close>

section \<open>Operations\<close>

definition trash_rows :: "timestamp \<Rightarrow> uuid \<Rightarrow> uuid list \<Rightarrow> node list \<Rightarrow> node list" where
  "trash_rows now root ids ns = map (\<lambda>r. if n_id r \<in> set ids
     then r\<lparr>n_deleted := Some now, n_trash_root := Some root\<rparr> else r) ns"

definition send :: "timestamp \<Rightarrow> node \<Rightarrow> db \<Rightarrow> api_error + db" where
  "send now n db =
     (let ids = (if live_node (n_id n) db = None then [] else descend live (nodes db) [] (n_id n));
          freed = sum_rows n_size (filter (\<lambda>r. n_id r \<in> set ids) (nodes db)) + size_under ids db
      in rbind (map_err Database (store_nodes (trash_rows now (n_id n) ids (nodes db)) db))
           (charge_quota (n_owner n) (- freed)))"

text \<open>\<open>ORDER BY deleted_at DESC, name\<close>.\<close>

definition list_trash :: "uuid \<Rightarrow> db \<Rightarrow> node list" where
  "list_trash owner db = sort_key (\<lambda>n. - (case n_deleted n of Some d \<Rightarrow> d | None \<Rightarrow> 0))
     (sort_key n_name (filter (\<lambda>n. n_owner n = owner \<and> n_trash_root n = Some (n_id n)) (nodes db)))"

definition trash_root :: "uuid \<Rightarrow> uuid \<Rightarrow> db \<Rightarrow> api_error + node" where
  "trash_root owner i db = ok_or NotFound
     (find (\<lambda>n. n_id n = i \<and> n_owner n = owner \<and> n_trash_root n = Some i) (nodes db))"

definition untrash :: "node \<Rightarrow> node" where
  "untrash n = n\<lparr>n_deleted := None, n_trash_root := None\<rparr>"

lemma untrash_simps [simp]:
  "n_id (untrash n) = n_id n" "n_parent (untrash n) = n_parent n" "n_owner (untrash n) = n_owner n"
  "n_kind (untrash n) = n_kind n" "n_blob (untrash n) = n_blob n" "n_size (untrash n) = n_size n"
  "n_name (untrash n) = n_name n" "live (untrash n)" "n_trash_root (untrash n) = None"
  "is_trashed (untrash n) \<longleftrightarrow> False"
  by (simp_all add: untrash_def live_def is_trashed_def)

lemma untrash_one:
  "filter is_trashed (map (\<lambda>n. if n_id n = i then untrash n else n) ns)
     = filter (\<lambda>n. n_id n \<noteq> i) (filter is_trashed ns)"
  by (induction ns) auto

text \<open>The climb opens a trashed row at every turn, so it ends at a live one or at the top.\<close>

function restore_ancestors ::
    "uuid option \<Rightarrow> int \<Rightarrow> uuid list \<Rightarrow> db \<Rightarrow> api_error + int \<times> uuid list \<times> db" where
  "restore_ancestors next spent opened db =
     (case next of
        None \<Rightarrow> Inr (spent, opened, db)
      | Some i \<Rightarrow>
          (case find (\<lambda>n. n_id n = i \<and> is_trashed n) (nodes db) of
             None \<Rightarrow> Inr (spent, opened, db)
           | Some a \<Rightarrow>
               (case n_trash_root a of
                  None \<Rightarrow> Inl (Database ColumnDecode)
                | Some batch \<Rightarrow>
                    (case update_node i untrash db of
                       Inl e \<Rightarrow> Inl (name_taken e (n_name a))
                     | Inr db1 \<Rightarrow> restore_ancestors (n_parent a) (spent + n_size a)
                         (if batch \<in> set opened then opened else opened @ [batch]) db1))))"
  by pat_completeness auto
termination
proof (relation "measure (\<lambda>(_, _, _, db). length (filter is_trashed (nodes db)))")
  fix up :: "uuid option" and i spent opened db a batch db1
  assume f: "find (\<lambda>n. n_id n = i \<and> is_trashed n) (nodes db) = Some a"
    and u: "update_node i untrash db = Inr db1"
  let ?g = "\<lambda>n. if n_id n = i then untrash n else n"
  from f have a: "a \<in> set (filter is_trashed (nodes db))" "n_id a = i" using find_Some_set by fastforce+
  have "nodes db1 = map ?g (nodes db)"
    using u by (simp add: update_node_def store_nodes_eq_Inr)
  then have "filter is_trashed (nodes db1) = filter (\<lambda>n. n_id n \<noteq> i) (filter is_trashed (nodes db))"
    by (simp add: untrash_one)
  with length_filter_less [OF a(1), of "\<lambda>n. n_id n \<noteq> i"] a(2)
  show "((n_parent a, spent + n_size a, if batch \<in> set opened then opened else opened @ [batch], db1),
      up, spent, opened, db) \<in> measure (\<lambda>(_, _, _, db). length (filter is_trashed (nodes db)))"
    by simp
qed simp

declare restore_ancestors.simps [simp del]

text \<open>What is left of a batch below what was opened gets a root of its own.\<close>

definition stranded :: "uuid \<Rightarrow> node list \<Rightarrow> (uuid \<times> uuid) list" where
  "stranded batch ns = concat (map (\<lambda>s. map (\<lambda>i. (i, n_id s))
       (descend (\<lambda>n. n_trash_root n = Some batch \<and> is_trashed n) ns [] (n_id s)))
     (filter (\<lambda>s. n_trash_root s = Some batch \<and> is_trashed s
        \<and> list_ex (\<lambda>p. n_parent s = Some (n_id p) \<and> live p) ns) ns))"

definition reroot_survivors :: "uuid \<Rightarrow> db \<Rightarrow> db_error + db" where
  "reroot_survivors batch db = store_nodes (map (\<lambda>n. case map_of (stranded batch (nodes db)) (n_id n) of
       Some s \<Rightarrow> n\<lparr>n_trash_root := Some s\<rparr> | None \<Rightarrow> n) (nodes db)) db"

definition restore :: "uuid \<Rightarrow> uuid \<Rightarrow> db \<Rightarrow> api_error + node \<times> db" where
  "restore owner i db =
     rbind (trash_root owner i db) (\<lambda>root.
     rbind (restore_ancestors (n_parent root) 0 [] db) (\<lambda>(charged_above, opened, db1).
     let rows = filter (\<lambda>n. n_trash_root n = Some (n_id root)) (nodes db1);
         ids = map n_id rows
     in rbind (map_err (\<lambda>e. name_taken e (n_name root)) (store_nodes
            (map (\<lambda>n. if n_trash_root n = Some (n_id root) then untrash n else n) (nodes db1)) db1))
        (\<lambda>db2.
        let spent = charged_above + sum_rows n_size rows + size_under ids db2
        in rbind (rfold (\<lambda>batch d. map_err Database (reroot_survivors batch d)) opened db2) (\<lambda>db3.
           rbind (charge_quota owner spent db3) (\<lambda>db4.
           rbind (fetch_one (n_id root) db4) (\<lambda>n. Inr (n, db4)))))))"

text \<open>\<open>ON DELETE CASCADE\<close> over both references a row has to another: its parent and its batch.\<close>

definition cascade_once :: "node list \<Rightarrow> uuid list \<Rightarrow> uuid list" where
  "cascade_once ns ids = map n_id (filter (\<lambda>n. n_id n \<in> set ids
     \<or> (case n_parent n of Some p \<Rightarrow> p \<in> set ids | None \<Rightarrow> False)
     \<or> (case n_trash_root n of Some r \<Rightarrow> r \<in> set ids | None \<Rightarrow> False)) ns)"

definition cascade :: "node list \<Rightarrow> uuid \<Rightarrow> uuid list" where
  "cascade ns i = (cascade_once ns ^^ length ns) [i]"

definition delete_node :: "uuid \<Rightarrow> db \<Rightarrow> db" where
  "delete_node i db = drop_nodes (cascade (nodes db) i) db"

definition purge :: "timestamp \<Rightarrow> uuid \<Rightarrow> uuid \<Rightarrow> db \<Rightarrow> api_error + db" where
  "purge now owner i db =
     rbind (trash_root owner i db) (\<lambda>root.
     let ids = descend (\<lambda>_. True) (nodes db) [] (n_id root);
         held = List.map_filter (\<lambda>j. Option.bind (find_node (nodes db) j) n_blob) ids @ blobs_under ids db
     in Inr (fold (release_blob now) held (delete_node (n_id root) db)))"

definition trash_roots :: "uuid \<Rightarrow> db \<Rightarrow> uuid list" where
  "trash_roots owner db = map n_id (sort_key (\<lambda>n. - (case n_deleted n of Some d \<Rightarrow> d | None \<Rightarrow> 0))
     (filter (\<lambda>n. n_owner n = owner \<and> n_trash_root n = Some (n_id n)) (nodes db)))"

fun empty_roots :: "timestamp \<Rightarrow> uuid \<Rightarrow> uuid list \<Rightarrow> nat \<Rightarrow> db \<Rightarrow> api_error + nat \<times> db" where
  "empty_roots now owner [] purged db = Inr (purged, db)"
| "empty_roots now owner (i # is) purged db =
     (case purge now owner i db of
        Inr db1 \<Rightarrow> empty_roots now owner is (Suc purged) db1
      | Inl NotFound \<Rightarrow> empty_roots now owner is purged db
      | Inl other \<Rightarrow> Inl other)"

definition empty_trash :: "timestamp \<Rightarrow> uuid \<Rightarrow> db \<Rightarrow> api_error + nat \<times> db" where
  "empty_trash now owner db = empty_roots now owner (trash_roots owner db) 0 db"

text \<open>A purge of its own transaction: what fails is rolled back and skipped.\<close>

fun expire_due :: "timestamp \<Rightarrow> (uuid \<times> uuid) list \<Rightarrow> nat \<Rightarrow> db \<Rightarrow> nat \<times> db" where
  "expire_due now [] purged db = (purged, db)"
| "expire_due now ((owner, i) # due) purged db =
     (case purge now owner i db of
        Inr db1 \<Rightarrow> expire_due now due (Suc purged) db1
      | Inl _ \<Rightarrow> expire_due now due purged db)"

definition due_roots :: "timestamp \<Rightarrow> db \<Rightarrow> (uuid \<times> uuid) list" where
  "due_roots before db = take 10000 (map (\<lambda>n. (n_owner n, n_id n))
     (sort_key (\<lambda>n. - (case n_deleted n of Some d \<Rightarrow> d | None \<Rightarrow> 0))
       (filter (\<lambda>n. n_trash_root n = Some (n_id n)
          \<and> (case n_deleted n of Some d \<Rightarrow> d < before | None \<Rightarrow> False)) (nodes db))))"

definition expire :: "timestamp \<Rightarrow> timestamp \<Rightarrow> db \<Rightarrow> nat \<times> db" where
  "expire now retention db = expire_due now (due_roots (now - retention) db) 0 db"

section \<open>Marking rows\<close>

text \<open>The updates of this theory change only when a row was deleted and in which batch.\<close>

definition same_body :: "node \<Rightarrow> node \<Rightarrow> bool" where
  "same_body n m \<longleftrightarrow> n_id m = n_id n \<and> n_parent m = n_parent n \<and> n_owner m = n_owner n
     \<and> n_kind m = n_kind n \<and> n_blob m = n_blob n \<and> n_size m = n_size n \<and> n_name m = n_name n"

lemma same_body_refl [simp]: "same_body n n"
  by (simp add: same_body_def)

lemma same_body_untrash [simp]: "same_body n (untrash n)"
  by (simp add: same_body_def)

definition files_versioned :: "db \<Rightarrow> bool" where
  "files_versioned db \<longleftrightarrow> (\<forall>v\<in>set (versions db). \<forall>n\<in>set (nodes db). n_id n = v_node v \<longrightarrow> n_kind n = File)"

lemma tree_ok_split: "tree_ok db \<longleftrightarrow> tree_rows (nodes db) \<and> files_versioned db"
  by (auto simp: tree_ok_def files_versioned_def list_all_iff)

definition share_lost :: "db \<Rightarrow> (node \<Rightarrow> node) \<Rightarrow> uuid \<Rightarrow> int" where
  "share_lost db g x =
     sum_rows (\<lambda>n. row_share (versions db) x n - row_share (versions db) x (g n)) (nodes db)"

lemma mark_books:
  assumes ok: "schema_ok db" and st: "store_nodes (map g (nodes db)) db = Inr db'"
    and g: "\<And>n. n \<in> set (nodes db) \<Longrightarrow> same_body n (g n)"
  shows "schema_ok db'" and "db' = db\<lparr>nodes := map g (nodes db)\<rparr>" and "ref_drift db' = ref_drift db"
    and "use_drift db' x = use_drift db x + share_lost db g x"
    and "files_versioned db \<Longrightarrow> files_versioned db'" and "thumbnails_ok db' = thumbnails_ok db"
    and "forest (nodes db') = forest (nodes db)"
    and "below all_rows (nodes db') = below all_rows (nodes db)"
proof -
  have sh: "n_id (g n) = n_id n \<and> n_parent (g n) = n_parent n" if "n \<in> set (nodes db)" for n
    using g [OF that] by (simp add: same_body_def)
  then have ids: "n_id ` set (map g (nodes db)) = n_id ` set (nodes db)"
    by (auto simp: image_iff intro: rev_image_eqI)
  note r = store_nodes_ok [OF ok st, unfolded ids, OF order_refl]
  show "schema_ok db'" by (rule r)
  show db': "db' = db\<lparr>nodes := map g (nodes db)\<rparr>" by (rule r)
  have okm: "nodes_ok (db\<lparr>nodes := map g (nodes db)\<rparr>)" using r(3) db' by simp
  note dr = nodes_drift [OF schema_okD(1) [OF ok] okm]
  have "count_rows (\<lambda>n. n_blob n = Some h) (map g (nodes db)) = count_rows (\<lambda>n. n_blob n = Some h) (nodes db)" for h
    using g by (auto simp: count_rows_sum sum_rows_map same_body_def intro!: sum_rows_cong)
  then show "ref_drift db' = ref_drift db" by (simp add: fun_eq_iff dr(2) db')
  have "share_lost db g x = sum_rows (row_share (versions db) x) (nodes db)
      - sum_rows (row_share (versions db) x) (map g (nodes db))"
    using sum_rows_add [of "\<lambda>n. row_share (versions db) x n - row_share (versions db) x (g n)"
        "\<lambda>n. row_share (versions db) x (g n)" "nodes db"]
    by (simp add: share_lost_def sum_rows_map comp_def)
  then show "use_drift db' x = use_drift db x + share_lost db g x" by (simp add: dr(1) db')
  show "files_versioned db \<Longrightarrow> files_versioned db'"
    using g by (auto simp: files_versioned_def db' same_body_def)
  show "thumbnails_ok db' = thumbnails_ok db" by (simp add: thumbnails_ok_def has_blob_def db')
  show "forest (nodes db') = forest (nodes db)" unfolding db' by simp (rule forest_map, rule sh)
  show "below all_rows (nodes db') = below all_rows (nodes db)" unfolding db' by simp (rule below_map, rule sh)
qed

text \<open>What the tree keeps while a batch is being opened: the rows whose batch is among \<open>opened\<close> may
hang from a live row, and the row \<open>next\<close> may still be trashed above a live one.\<close>

definition loosely_hangs :: "uuid option \<Rightarrow> uuid set \<Rightarrow> node \<Rightarrow> node \<Rightarrow> bool" where
  "loosely_hangs next opened n p \<longleftrightarrow> n_kind p = Directory \<and> n_owner p = n_owner n
     \<and> (live n \<longrightarrow> live p \<or> next = Some (n_id p))
     \<and> (\<forall>r. n_trash_root n = Some r \<longrightarrow> r = n_id n \<or> n_trash_root p = Some r \<or> (r \<in> opened \<and> live p))"

definition loose :: "uuid option \<Rightarrow> uuid set \<Rightarrow> node list \<Rightarrow> bool" where
  "loose next opened ns \<longleftrightarrow> forest ns
     \<and> (\<forall>n\<in>set ns. \<forall>p\<in>set ns. n_parent n = Some (n_id p) \<longrightarrow> loosely_hangs next opened n p)
     \<and> (\<forall>n\<in>set ns. n_parent n = None \<longrightarrow> heads n)"

lemma loose_tree_rows: "loose None {} ns \<longleftrightarrow> tree_rows ns"
proof -
  have "loosely_hangs None {} n p = hangs n p" for n p
    by (cases "n_trash_root n") (auto simp: loosely_hangs_def hangs_def)
  then show ?thesis by (simp add: loose_def tree_rows_def list_all_iff)
qed

lemma looseD:
  assumes "loose up B ns"
  shows loose_forest: "forest ns"
    and loose_hangs: "n \<in> set ns \<Longrightarrow> p \<in> set ns \<Longrightarrow> n_parent n = Some (n_id p) \<Longrightarrow> loosely_hangs up B n p"
    and loose_heads: "n \<in> set ns \<Longrightarrow> n_parent n = None \<Longrightarrow> heads n"
  using assms unfolding loose_def by blast+

lemma loose_map:
  assumes "loose up B ns" and g: "\<And>n. n \<in> set ns \<Longrightarrow> same_body n (g n)"
    and h: "\<And>n p. n \<in> set ns \<Longrightarrow> p \<in> set ns \<Longrightarrow> n_parent n = Some (n_id p) \<Longrightarrow>
      loosely_hangs up B n p \<Longrightarrow> loosely_hangs up' B' (g n) (g p)"
    and t: "\<And>n. n \<in> set ns \<Longrightarrow> n_parent n = None \<Longrightarrow> heads n \<Longrightarrow> heads (g n)"
  shows "loose up' B' (map g ns)"
  unfolding loose_def
proof (intro conjI ballI impI)
  have "forest (map g ns) = forest ns" by (rule forest_map) (use g in \<open>auto simp: same_body_def\<close>)
  then show "forest (map g ns)" using loose_forest [OF assms(1)] by simp
  fix n assume "n \<in> set (map g ns)"
  then obtain n0 where n0: "n0 \<in> set ns" "n = g n0" by auto
  show "heads n" if "n_parent n = None"
    using t [OF n0(1)] loose_heads [OF assms(1) n0(1)] g [OF n0(1)] that by (simp add: n0 same_body_def)
  fix p assume "p \<in> set (map g ns)" and np: "n_parent n = Some (n_id p)"
  then obtain p0 where p0: "p0 \<in> set ns" "p = g p0" by auto
  have "n_parent n0 = Some (n_id p0)" using np g [OF n0(1)] g [OF p0(1)] by (simp add: n0 p0 same_body_def)
  with h [OF n0(1) p0(1)] loose_hangs [OF assms(1) n0(1) p0(1)] show "loosely_hangs up' B' n p"
    by (simp add: n0 p0)
qed

section \<open>Sending to the trash\<close>

lemma live_node_Some:
  "live_node i db = Some n \<Longrightarrow> n \<in> set (nodes db) \<and> n_id n = i \<and> live n"
  unfolding live_node_def by (drule find_Some_set) simp

lemma live_node_eq: "sound db \<Longrightarrow> n \<in> set (nodes db) \<Longrightarrow> live n \<Longrightarrow> live_node (n_id n) db = Some n"
proof -
  assume s: "sound db" and n: "n \<in> set (nodes db)" "live n"
  then have "live_node (n_id n) db \<noteq> None" by (auto simp: live_node_def find_None_set)
  then obtain m where m: "live_node (n_id n) db = Some m" by blast
  from live_node_Some [OF m] distinct_key_eq [OF soundD(6) [OF s], of m n] n have "m = n" by simp
  with m show ?thesis by simp
qed

text \<open>Every row below a row of an account belongs to it.\<close>

lemma below_owner_loose:
  assumes s: "loose up B ns" and n: "n \<in> set ns" and b: "(n_id m, n_id n) \<in> (below Q ns)\<^sup>*" and m: "m \<in> set ns"
  shows "n_owner m = n_owner n"
  using b m
proof (induction "n_id m" arbitrary: m rule: converse_rtrancl_induct)
  case base
  have "distinct (map n_id ns)" using loose_forest [OF s] by (simp add: forest_def)
  from distinct_key_eq [OF this base(2) n] base(1) show ?case by simp
next
  case (step j)
  have f: "forest ns" by (rule loose_forest [OF s])
  then have d: "distinct (map n_id ns)" by (simp add: forest_def)
  from step(1) obtain m0 where m0: "m0 \<in> set ns" "n_id m0 = n_id m" "n_parent m0 = Some j"
    by (auto simp: below_def)
  with distinct_key_eq [OF d m0(1) step(4)] have "n_parent m = Some j" by simp
  moreover from m0 f obtain p where p: "p \<in> set ns" "n_id p = j" by (fastforce simp: forest_def)
  ultimately have "n_owner p = n_owner m" using loose_hangs [OF s step(4) p(1)] by (simp add: loosely_hangs_def)
  with step(3) [of p] p show ?case by simp
qed

lemmas below_owner = below_owner_loose [OF iffD2 [OF loose_tree_rows]]

text \<open>The versions of a set of rows weigh what the rows hold of them.\<close>

lemma size_under_held:
  assumes "schema_ok db"
  shows "size_under ids db = sum_rows (\<lambda>n. if n_id n \<in> set ids then held_bytes (versions db) (n_id n) else 0) (nodes db)"
proof -
  have d: "distinct (map n_id (nodes db))" by (rule nodes_ok_distinct [OF schema_okD(1) [OF assms]])
  have "filter (\<lambda>v. v_node v \<in> set ids) (versions db)
      = filter (\<lambda>v. case find_node (nodes db) (v_node v) of Some n \<Rightarrow> n_id n \<in> set ids | None \<Rightarrow> False) (versions db)"
  proof (rule filter_cong [OF refl])
    fix v assume "v \<in> set (versions db)"
    then have "v_node v \<in> n_id ` set (nodes db)"
      using schema_okD(4) [OF assms] by (auto simp: versions_ok_def list_all_iff)
    then obtain n where "find_node (nodes db) (v_node v) = Some n" using find_node_None by fastforce
    moreover from find_node_Some [OF this] have "n_id n = v_node v" by simp
    ultimately show "(v_node v \<in> set ids) = (case find_node (nodes db) (v_node v) of
      Some n \<Rightarrow> n_id n \<in> set ids | None \<Rightarrow> False)" by simp
  qed
  then show ?thesis
    unfolding size_under_def by (simp only: join_versions [OF d])
qed

text \<open>What a set of rows of one account costs it.\<close>

lemma marked_cost:
  assumes "schema_ok db"
  shows "sum_rows n_size (filter (\<lambda>r. n_id r \<in> set ids) (nodes db)) + size_under ids db
    = sum_rows (\<lambda>n. if n_id n \<in> set ids then cost (versions db) n else 0) (nodes db)"
  unfolding size_under_held [OF assms] sum_rows_filter sum_rows_add [symmetric]
  by (intro sum_rows_cong) (simp add: cost_def)

text \<open>A live row hangs below through live rows only.\<close>

lemma below_live:
  assumes "tree_rows ns" and "m \<in> set ns" and "live m" and "(n_id m, i) \<in> (below all_rows ns)\<^sup>*"
  shows "(n_id m, i) \<in> (below live ns)\<^sup>*"
  using assms(4,2,3)
proof (induction "n_id m" arbitrary: m rule: converse_rtrancl_induct)
  case base
  then show ?case by simp
next
  case (step j)
  have f: "forest ns" by (rule tree_rows_forest [OF assms(1)])
  then have d: "distinct (map n_id ns)" by (simp add: forest_def)
  from step(1) obtain m0 where m0: "m0 \<in> set ns" "n_id m0 = n_id m" "n_parent m0 = Some j"
    by (auto simp: below_def)
  then have "m0 = m" using distinct_key_eq [OF d m0(1) step(4)] by simp
  then have up: "(n_id m, j) \<in> below live ns" using m0 step(5) by (auto simp: below_def)
  from m0 f obtain p where p: "p \<in> set ns" "n_id p = j" by (fastforce simp: forest_def)
  then have "live p" using tree_rows_hangs [OF assms(1) m0(1) p(1)] m0(3) step(5) \<open>m0 = m\<close>
    by (simp add: hangs_def)
  with step(3) [of p] p have "(j, i) \<in> (below live ns)\<^sup>*" by simp
  with up show ?case by (rule converse_rtrancl_into_rtrancl)
qed

lemma trash_rows_tree:
  assumes t: "tree_rows ns" and chk: "\<And>r. r \<in> set ns \<Longrightarrow> node_checks r" and n: "n \<in> set ns" "live n"
    and ids: "set ids = {j. (j, n_id n) \<in> (below live ns)\<^sup>*}"
  shows "tree_rows (trash_rows now (n_id n) ids ns)"
proof -
  let ?g = "\<lambda>r. if n_id r \<in> set ids then r\<lparr>n_deleted := Some now, n_trash_root := Some (n_id n)\<rparr> else r"
  have f: "forest ns" by (rule tree_rows_forest [OF t])
  then have d: "distinct (map n_id ns)" by (simp add: forest_def)
  have parent_in: "n_id p \<in> set ids" if "a \<in> set ns" "n_parent a = Some (n_id p)" "n_id a \<in> set ids" "a \<noteq> n" for a p
  proof -
    have ne: "n_id a \<noteq> n_id n" using distinct_key_eq [OF d that(1) n(1)] that(4) by blast
    from that(3) have "(n_id a, n_id n) \<in> (below live ns)\<^sup>*" by (simp add: ids)
    then obtain y where y: "(n_id a, y) \<in> below live ns" "(y, n_id n) \<in> (below live ns)\<^sup>*"
      using ne by (auto elim: converse_rtranclE)
    have "(n_id a, n_id p) \<in> below all_rows ns" using that(1,2) by (auto simp: below_def)
    with below_single [OF d _ y(1)] have "n_id p = y" by blast
    with y(2) show ?thesis by (simp add: ids)
  qed
  have child_in: "n_id a \<in> set ids" if "a \<in> set ns" "n_parent a = Some (n_id p)" "live a" "n_id p \<in> set ids" for a p
  proof -
    have "(n_id a, n_id p) \<in> below live ns" using that(1-3) by (auto simp: below_def)
    with that(4) show ?thesis by (simp add: ids converse_rtrancl_into_rtrancl)
  qed
  have live_in: "live a" if "a \<in> set ns" "n_id a \<in> set ids" for a
  proof -
    from that(2) have "(n_id a, n_id n) \<in> (below live ns)\<^sup>*" by (simp add: ids)
    then show ?thesis
  proof (cases rule: converse_rtranclE)
    case base
    with distinct_key_eq [OF d that(1) n(1)] n(2) show ?thesis by simp
  next
    case (step y)
    then obtain c where "c \<in> set ns" "n_id c = n_id a" "live c" by (auto simp: below_def)
    with distinct_key_eq [OF d this(1) that(1)] show ?thesis by simp
  qed
  qed
  have "loose None {} (map ?g ns)"
  proof (rule loose_map [of None "{}"])
    show "loose None {} ns" using t by (simp add: loose_tree_rows)
    show "same_body a (?g a)" for a by (simp add: same_body_def)
    show "heads (?g a)" if "a \<in> set ns" "n_parent a = None" "heads a" for a
    proof (cases "n_id a \<in> set ids")
      case True
      have "a = n"
      proof (rule ccontr)
        assume "a \<noteq> n"
        then have "n_id a \<noteq> n_id n" using distinct_key_eq [OF d that(1) n(1)] by blast
        with True obtain y where "(n_id a, y) \<in> below live ns" by (auto simp: ids elim: converse_rtranclE)
        then obtain c where "c \<in> set ns" "n_id c = n_id a" "n_parent c = Some y" by (auto simp: below_def)
        with distinct_key_eq [OF d this(1) that(1)] that(2) show False by simp
      qed
      with that(3) show ?thesis by (simp add: heads_def)
    qed (use that in simp)
    fix a p
    assume a: "a \<in> set ns" "p \<in> set ns" and np: "n_parent a = Some (n_id p)" and h: "loosely_hangs None {} a p"
    show "loosely_hangs None {} (?g a) (?g p)"
    proof (cases "n_id a \<in> set ids")
      case True
      with parent_in [OF a(1) np True] h show ?thesis
        by (cases "a = n") (auto simp: loosely_hangs_def live_def)
    next
      case False
      have "live a \<longrightarrow> n_id p \<notin> set ids" using child_in [OF a(1) np] False by blast
      moreover have "n_id p \<in> set ids \<longrightarrow> n_trash_root p = None"
        using live_in [OF a(2)] node_checks_trash [OF chk [OF a(2)]] by (auto simp: live_def)
      ultimately show ?thesis using False h by (auto simp: loosely_hangs_def live_def)
    qed
  qed
  then show ?thesis by (simp add: loose_tree_rows trash_rows_def)
qed

lemma send_ids:
  assumes "sound db" and "n \<in> set (nodes db)"
  shows "set (descend Q (nodes db) [] (n_id n)) = {j. (j, n_id n) \<in> (below Q (nodes db))\<^sup>*}"
  using descend_iff [OF soundD(8) [OF assms(1)], of _ Q "n_id n"] assms(2) by auto

lemma send_sound:
  assumes s: "sound db" and n: "n \<in> set (nodes db)" "live n" and se: "send now n db = Inr db'"
  shows "sound db'"
    and "nodes db' = trash_rows now (n_id n) (descend live (nodes db) [] (n_id n)) (nodes db)"
proof -
  let ?ids = "descend live (nodes db) [] (n_id n)"
  let ?g = "\<lambda>r. if n_id r \<in> set ?ids then r\<lparr>n_deleted := Some now, n_trash_root := Some (n_id n)\<rparr> else r"
  let ?freed = "sum_rows (\<lambda>r. if n_id r \<in> set ?ids then cost (versions db) r else 0) (nodes db)"
  have ok: "schema_ok db" by (rule soundD(1) [OF s])
  obtain db1 where st: "store_nodes (map ?g (nodes db)) db = Inr db1"
    and ch: "charge_quota (n_owner n) (- ?freed) db1 = Inr db'"
    using se live_node_eq [OF s n] by (auto simp: send_def Let_def rbind_eq_Inr marked_cost [OF ok] trash_rows_def)
  note m = mark_books [OF ok st]
  have sb: "same_body r (?g r)" for r by (simp add: same_body_def)
  note m = m [OF sb]
  note ids = send_ids [OF s n(1), of live]
  have tr: "tree_rows (trash_rows now (n_id n) ?ids (nodes db))"
    by (rule trash_rows_tree [OF soundD(7) [OF s] nodes_ok_checks [OF soundD(5) [OF s]] n ids])
  have own: "n_owner r = n_owner n \<and> live r" if r: "r \<in> set (nodes db)" "n_id r \<in> set ?ids" for r
  proof -
    have b: "(n_id r, n_id n) \<in> (below live (nodes db))\<^sup>*" using r(2) ids by simp
    have "live r" using b
    proof (cases rule: converse_rtranclE)
      case base
      with distinct_key_eq [OF soundD(6) [OF s] r(1) n(1)] n(2) show ?thesis by simp
    next
      case (step y)
      then obtain c where "c \<in> set (nodes db)" "n_id c = n_id r" "live c" by (auto simp: below_def)
      with distinct_key_eq [OF soundD(6) [OF s] this(1) r(1)] show ?thesis by simp
    qed
    with below_owner [OF soundD(7) [OF s] n(1) b r(1)] show ?thesis by simp
  qed
  have "share_lost db ?g x = at_key (n_owner n) ?freed x" for x
  proof -
    have "row_share (versions db) x r - row_share (versions db) x (?g r)
        = (if x = n_owner n then (if n_id r \<in> set ?ids then cost (versions db) r else 0) else 0)"
      if "r \<in> set (nodes db)" for r
      using own [OF that] by (auto simp: row_share_def live_def)
    then have "share_lost db ?g x = sum_rows (\<lambda>r. if x = n_owner n
        then (if n_id r \<in> set ?ids then cost (versions db) r else 0) else 0) (nodes db)"
      unfolding share_lost_def by (rule sum_rows_cong)
    then show ?thesis by (simp add: at_key_def sum_rows_zero)
  qed
  then have u1: "use_drift db1 x = at_key (n_owner n) ?freed x" for x
    using m(4) [of x] soundD(4) [OF s] by (simp add: balanced_drift)
  note c = charge_moved [OF schema_okD(3) [OF m(1)] ch] and fr = charge_quota_frame [OF ch]
  have "balanced db'"
    using c u1 m(3) soundD(4) [OF s] by (simp add: balanced_drift moved_def at_key_def)
  moreover have "thumbnails_ok db'" using moved_thumbnails [OF c] m(6) soundD(2) [OF s] by simp
  moreover have ns: "nodes db' = trash_rows now (n_id n) ?ids (nodes db)"
    using fr(1) m(2) by (simp add: trash_rows_def)
  moreover have "files_versioned db1" by (rule m(5)) (use soundD(3) [OF s] in \<open>simp add: tree_ok_split\<close>)
  then have "files_versioned db'" by (simp add: files_versioned_def fr)
  ultimately show "sound db'"
    using schema_ok_charge [OF m(1) ch] tr by (simp add: sound_def tree_ok_split)
  show "nodes db' = trash_rows now (n_id n) ?ids (nodes db)" by (rule ns)
qed

section \<open>Opening the ancestors\<close>

text \<open>The root of a batch is above every row of it.\<close>

definition batches_above :: "node list \<Rightarrow> bool" where
  "batches_above ns \<longleftrightarrow> (\<forall>n\<in>set ns. \<forall>r. n_trash_root n = Some r \<longrightarrow> (n_id n, r) \<in> (below all_rows ns)\<^sup>*)"

lemma finite_below: "finite (below Q ns)"
proof -
  have "below Q ns \<subseteq> (\<lambda>n. (n_id n, the (n_parent n))) ` set ns" by (force simp: below_def)
  then show ?thesis by (rule finite_subset) simp
qed

lemma batches_above_tree:
  assumes t: "tree_rows ns"
  shows "batches_above ns"
proof -
  have f: "forest ns" by (rule tree_rows_forest [OF t])
  then have "wf ((below all_rows ns)\<inverse>)"
    by (intro finite_acyclic_wf_converse finite_below) (simp add: forest_def)
  then have "n_id n = i \<Longrightarrow> n \<in> set ns \<Longrightarrow> n_trash_root n = Some r \<Longrightarrow> (i, r) \<in> (below all_rows ns)\<^sup>*" for i n r
  proof (induction i arbitrary: n rule: wf_induct_rule)
    case (less i)
    show ?case
    proof (cases "n_parent n")
      case None
      with tree_rows_root [OF t less(3)] less(2,4) show ?thesis by (simp add: heads_def)
    next
      case (Some j)
      with less(3) f obtain p where p: "p \<in> set ns" "n_id p = j" by (fastforce simp: forest_def)
      have e: "(i, j) \<in> below all_rows ns" using less(2,3) Some by (auto simp: below_def)
      from tree_rows_hangs [OF t less(3) p(1)] Some p(2) less(4)
      consider "r = n_id n" | "n_trash_root p = Some r" by (auto simp: hangs_def)
      then show ?thesis
      proof cases
        case 1
        then show ?thesis using less(2) by simp
      next
        case 2
        with less(1) [of j p] e p show ?thesis by (meson converse_rtrancl_into_rtrancl converseI)
      qed
    qed
  qed
  then show ?thesis by (simp add: batches_above_def)
qed

lemma batches_above_map:
  assumes "batches_above ns" and "\<And>n. n \<in> set ns \<Longrightarrow> same_body n (g n)"
    and "\<And>n r. n \<in> set ns \<Longrightarrow> n_trash_root (g n) = Some r \<Longrightarrow>
      n_trash_root n = Some r \<or> (n_id n, r) \<in> (below all_rows ns)\<^sup>*"
  shows "batches_above (map g ns)"
proof -
  have b: "below all_rows (map g ns) = below all_rows ns"
    by (rule below_map) (use assms(2) in \<open>auto simp: same_body_def\<close>)
  show ?thesis unfolding batches_above_def b
  proof (intro ballI allI impI)
    fix m r
    assume "m \<in> set (map g ns)" and r: "n_trash_root m = Some r"
    then obtain n where n: "n \<in> set ns" "m = g n" by auto
    with assms(3) [OF n(1)] r assms(1) have "(n_id n, r) \<in> (below all_rows ns)\<^sup>*"
      by (auto simp: batches_above_def)
    then show "(n_id m, r) \<in> (below all_rows ns)\<^sup>*" using assms(2) [OF n(1)] by (simp add: n same_body_def)
  qed
qed

definition climbing :: "node \<Rightarrow> uuid option \<Rightarrow> uuid set \<Rightarrow> db \<Rightarrow> bool" where
  "climbing root up opened db \<longleftrightarrow> schema_ok db \<and> files_versioned db \<and> thumbnails_ok db \<and> balanced db
     \<and> loose up opened (nodes db) \<and> batches_above (nodes db) \<and> root \<in> set (nodes db)
     \<and> (\<forall>p\<in>set (nodes db). n_parent root = Some (n_id p) \<longrightarrow> live p \<or> up = Some (n_id p))
     \<and> (\<forall>i. up = Some i \<longrightarrow> (n_id root, i) \<in> (below all_rows (nodes db))\<^sup>+)
     \<and> (\<forall>b\<in>opened. (n_id root, b) \<in> (below all_rows (nodes db))\<^sup>+)"

text \<open>A row something hangs from is a directory, which costs nothing.\<close>

lemma parent_costs_nothing:
  assumes "schema_ok db" and "files_versioned db" and "loose up B (nodes db)"
    and "(c, i) \<in> below all_rows (nodes db)" and "a \<in> set (nodes db)" and "n_id a = i"
  shows "cost (versions db) a = 0" and "n_kind a = Directory" and "n_size a = 0"
proof -
  from assms(4) obtain m where m: "m \<in> set (nodes db)" "n_parent m = Some (n_id a)"
    using assms(6) by (auto simp: below_def)
  with loose_hangs [OF assms(3) m(1) assms(5)] show k: "n_kind a = Directory" by (simp add: loosely_hangs_def)
  with node_checks_directory nodes_ok_checks [OF schema_okD(1) [OF assms(1)] assms(5)]
  show z: "n_size a = 0" by blast
  have "v_node v \<noteq> n_id a" if "v \<in> set (versions db)" for v
    using assms(2,5) that k by (force simp: files_versioned_def)
  then have "held_bytes (versions db) (n_id a) = 0" by (rule held_bytes_none)
  with z show "cost (versions db) a = 0" by (simp add: cost_def)
qed

lemma climbing_step:
  assumes c: "climbing root (Some i) B db" and a: "a \<in> set (nodes db)" "n_id a = i" "is_trashed a"
    and b: "n_trash_root a = Some batch" and u: "update_node i untrash db = Inr db1"
  shows "climbing root (n_parent a) (insert batch B) db1" and "n_size a = 0"
proof -
  let ?g = "\<lambda>n. if n_id n = i then untrash n else n"
  let ?E = "below all_rows (nodes db)"
  have ok: "schema_ok db" "files_versioned db" "thumbnails_ok db" "balanced db" "loose (Some i) B (nodes db)"
    "batches_above (nodes db)" "root \<in> set (nodes db)"
    and rp: "\<And>p. p \<in> set (nodes db) \<Longrightarrow> n_parent root = Some (n_id p) \<Longrightarrow> live p \<or> i = n_id p"
    and up: "(n_id root, i) \<in> ?E\<^sup>+" and ab: "\<And>b. b \<in> B \<Longrightarrow> (n_id root, b) \<in> ?E\<^sup>+"
    using c by (auto simp: climbing_def)
  have st: "store_nodes (map ?g (nodes db)) db = Inr db1" using u by (simp add: update_node_def)
  note m = mark_books [OF ok(1) st]
  have sb: "same_body n (?g n)" for n by simp
  note m = m [OF sb]
  have f: "forest (nodes db)" by (rule loose_forest [OF ok(5)])
  then have d: "distinct (map n_id (nodes db))" by (simp add: forest_def)
  have only: "n = a" if "n \<in> set (nodes db)" "n_id n = i" for n
    using distinct_key_eq [OF d that(1) a(1)] that(2) a(2) by simp
  from up obtain y where y: "(y, i) \<in> ?E" by (auto elim: tranclE)
  note z = parent_costs_nothing [OF ok(1,2,5) y a(1,2)]
  show "n_size a = 0" by (rule z)
  have nodes1: "nodes db1 = map ?g (nodes db)" using m(2) by simp
  have "share_lost db ?g x = 0" for x
    unfolding share_lost_def
  proof (rule sum_rows_zero)
    fix n assume "n \<in> set (nodes db)"
    then show "row_share (versions db) x n - row_share (versions db) x (?g n) = 0"
      using only z(1) by (auto simp: row_share_def cost_def)
  qed
  then have "balanced db1" using m(3,4) ok(4) by (simp add: balanced_drift)
  moreover have "loose (n_parent a) (insert batch B) (map ?g (nodes db))"
  proof (rule loose_map [OF ok(5)])
    show "same_body n (?g n)" for n by simp
    show "heads (?g n)" if "n \<in> set (nodes db)" "n_parent n = None" "heads n" for n
      using that by (simp add: heads_def)
    fix n p
    assume n: "n \<in> set (nodes db)" "p \<in> set (nodes db)" and np: "n_parent n = Some (n_id p)"
      and h: "loosely_hangs (Some i) B n p"
    show "loosely_hangs (n_parent a) (insert batch B) (?g n) (?g p)"
    proof (cases "n_id n = i")
      case True
      then have "n = a" by (rule only [OF n(1)])
      with np h True show ?thesis by (auto simp: loosely_hangs_def)
    next
      case False
      show ?thesis
      proof (cases "n_id p = i")
        case True
        then have "p = a" by (rule only [OF n(2)])
        with h False b show ?thesis by (auto simp: loosely_hangs_def)
      next
        case other: False
        with h False show ?thesis by (auto simp: loosely_hangs_def)
      qed
    qed
  qed
  moreover have "batches_above (map ?g (nodes db))"
    by (rule batches_above_map [OF ok(6)]) (auto split: if_splits)
  moreover have rne: "n_id root \<noteq> i" using up f by (auto simp: forest_def acyclic_def)
  then have "root \<in> set (map ?g (nodes db))" using ok(7) by force
  moreover have "live p \<or> n_parent a = Some (n_id p)"
    if "p \<in> set (map ?g (nodes db))" "n_parent root = Some (n_id p)" for p
    using that rp by (auto split: if_splits)
  moreover have "(n_id root, j) \<in> ?E\<^sup>+" if "n_parent a = Some j" for j
  proof -
    have "(i, j) \<in> ?E" using a that by (auto simp: below_def)
    with up show ?thesis by (rule trancl_into_trancl)
  qed
  moreover have "(n_id root, batch) \<in> ?E\<^sup>+"
  proof -
    have "(i, batch) \<in> ?E\<^sup>*" using ok(6) a b by (auto simp: batches_above_def)
    with up show ?thesis by (rule trancl_rtrancl_trancl)
  qed
  ultimately show "climbing root (n_parent a) (insert batch B) db1"
    unfolding climbing_def nodes1 m(8) [unfolded nodes1] using m(1,5,6) ok(2,3) ab by auto
qed

lemma restore_ancestors_climbing:
  "restore_ancestors up spent opened db = Inr (spent', opened', db') \<Longrightarrow> climbing root up (set opened) db \<Longrightarrow>
   climbing root None (set opened') db' \<and> spent' = spent"
proof (induction up spent opened db rule: restore_ancestors.induct)
  case (1 up spent opened db)
  show ?case
  proof (cases up)
    case None
    with 1(2,3) show ?thesis by (simp add: restore_ancestors.simps)
  next
    case (Some i)
    show ?thesis
    proof (cases "find (\<lambda>n. n_id n = i \<and> is_trashed n) (nodes db)")
      case None
      then have l: "live p" if "p \<in> set (nodes db)" "n_id p = i" for p
        using that by (auto simp: find_None_set is_trashed_def live_def)
      from 1(2) Some None have e: "spent' = spent" "opened' = opened" "db' = db"
        by (simp_all add: restore_ancestors.simps)
      have "loosely_hangs None B n p" if "loosely_hangs up B n p" "p \<in> set (nodes db)" for B n p
        using that l by (auto simp: loosely_hangs_def Some)
      then have "loose None (set opened) (nodes db)" using 1(3) by (auto simp: climbing_def loose_def)
      then show ?thesis using 1(3) l by (auto simp: e climbing_def Some)
    next
      case a: (Some a)
      from 1(2) Some a obtain batch db1 where b: "n_trash_root a = Some batch" and u: "update_node i untrash db = Inr db1"
        and more: "restore_ancestors (n_parent a) (spent + n_size a)
          (if batch \<in> set opened then opened else opened @ [batch]) db1 = Inr (spent', opened', db')"
        by (auto simp: restore_ancestors.simps [of "Some i"] split: option.splits sum.splits)
      from find_Some_set [OF a] have aa: "a \<in> set (nodes db)" "n_id a = i" "is_trashed a" by auto
      have "climbing root (Some i) (set opened) db" using 1(3) Some by simp
      note st = climbing_step [OF this aa b u]
      have "set (if batch \<in> set opened then opened else opened @ [batch]) = insert batch (set opened)" by auto
      with st 1(1) [OF Some a b u more] show ?thesis by simp
    qed
  qed
qed

section \<open>Rerooting what stays\<close>

definition in_batch :: "uuid \<Rightarrow> node \<Rightarrow> bool" where
  "in_batch b n \<longleftrightarrow> n_trash_root n = Some b \<and> is_trashed n"

definition survivor :: "uuid \<Rightarrow> node list \<Rightarrow> node \<Rightarrow> bool" where
  "survivor b ns s \<longleftrightarrow> s \<in> set ns \<and> in_batch b s \<and> (\<exists>p\<in>set ns. n_parent s = Some (n_id p) \<and> live p)"

lemma stranded_iff:
  assumes "forest ns"
  shows "(i, j) \<in> set (stranded b ns) \<longleftrightarrow>
    (\<exists>s. survivor b ns s \<and> n_id s = j \<and> (i, j) \<in> (below (in_batch b) ns)\<^sup>*)"
proof -
  have "(\<lambda>n. n_trash_root n = Some b \<and> is_trashed n) = in_batch b" by (simp add: fun_eq_iff in_batch_def)
  then have "(i, j) \<in> set (stranded b ns) \<longleftrightarrow>
      (\<exists>s. survivor b ns s \<and> n_id s = j \<and> i \<in> set (descend (in_batch b) ns [] (n_id s)))"
    by (auto simp: stranded_def survivor_def in_batch_def list_ex_iff)
  also have "\<dots> \<longleftrightarrow> (\<exists>s. survivor b ns s \<and> n_id s = j \<and> (i, j) \<in> (below (in_batch b) ns)\<^sup>*)"
    using descend_iff [OF assms] by (auto simp: survivor_def)
  finally show ?thesis .
qed

lemma in_batch_up:
  assumes "distinct (map n_id ns)" and "n \<in> set ns" and "in_batch b n" and "n_parent n = Some j"
  shows "(n_id n, j) \<in> below (in_batch b) ns"
  using assms by (auto simp: below_def)

lemma stranded_unique:
  assumes f: "forest ns" and chk: "\<And>n. n \<in> set ns \<Longrightarrow> node_checks n"
    and a: "(i, j) \<in> set (stranded b ns)" "(i, k) \<in> set (stranded b ns)"
  shows "j = k"
proof -
  have d: "distinct (map n_id ns)" using f by (simp add: forest_def)
  from a obtain s t where s: "survivor b ns s" "n_id s = j" "(i, j) \<in> (below (in_batch b) ns)\<^sup>*"
    and t: "survivor b ns t" "n_id t = k" "(i, k) \<in> (below (in_batch b) ns)\<^sup>*"
    by (auto simp: stranded_iff [OF f])
  have no: False if u: "survivor b ns u" and w: "survivor b ns w" and b: "(n_id u, n_id w) \<in> (below (in_batch b) ns)\<^sup>*"
    and ne: "n_id u \<noteq> n_id w" for u w
  proof -
    from u obtain p where p: "p \<in> set ns" "n_parent u = Some (n_id p)" "live p" and uu: "u \<in> set ns"
      by (auto simp: survivor_def)
    from b ne obtain y where y: "(n_id u, y) \<in> below (in_batch b) ns" "(y, n_id w) \<in> (below (in_batch b) ns)\<^sup>*"
      by (auto elim: converse_rtranclE)
    have "(n_id u, n_id p) \<in> below all_rows ns" using uu p by (auto simp: below_def)
    from below_single [OF d this y(1)] have yp: "y = n_id p" by simp
    have "in_batch b p"
    proof (cases "y = n_id w")
      case True
      then have "p = w" using distinct_key_eq [OF d p(1), of w] w yp by (auto simp: survivor_def)
      with w show ?thesis by (simp add: survivor_def)
    next
      case False
      with y(2) obtain z where "(y, z) \<in> below (in_batch b) ns" by (auto elim: converse_rtranclE)
      then obtain c where "c \<in> set ns" "n_id c = y" "in_batch b c" by (auto simp: below_def)
      with distinct_key_eq [OF d this(1) p(1)] yp show ?thesis by simp
    qed
    with p(3) show False by (simp add: in_batch_def live_def is_trashed_def)
  qed
  from below_up_comparable [OF d s(3) t(3)] no [OF s(1) t(1)] no [OF t(1) s(1)] s(2) t(2)
  show ?thesis by metis
qed

lemma stranded_in_batch:
  assumes f: "forest ns" and n: "n \<in> set ns" and st: "(n_id n, s) \<in> set (stranded b ns)"
  shows "in_batch b n"
proof -
  have d: "distinct (map n_id ns)" using f by (simp add: forest_def)
  from st obtain w where w: "survivor b ns w" "n_id w = s" "(n_id n, s) \<in> (below (in_batch b) ns)\<^sup>*"
    by (auto simp: stranded_iff [OF f])
  from w(3) show ?thesis
  proof (cases rule: converse_rtranclE)
    case base
    with w(1,2) distinct_key_eq [OF d n, of w] show ?thesis by (auto simp: survivor_def)
  next
    case (step y)
    then obtain c where "c \<in> set ns" "n_id c = n_id n" "in_batch b c" by (auto simp: below_def)
    with distinct_key_eq [OF d this(1) n] show ?thesis by simp
  qed
qed

text \<open>What a row becomes.\<close>

definition rerooted :: "uuid \<Rightarrow> node list \<Rightarrow> node \<Rightarrow> node" where
  "rerooted b ns n = (case map_of (stranded b ns) (n_id n) of
     Some s \<Rightarrow> n\<lparr>n_trash_root := Some s\<rparr> | None \<Rightarrow> n)"

lemma rerooted_simps [simp]:
  "n_id (rerooted b ns n) = n_id n" "n_parent (rerooted b ns n) = n_parent n"
  "n_owner (rerooted b ns n) = n_owner n" "n_kind (rerooted b ns n) = n_kind n"
  "live (rerooted b ns n) = live n" "same_body n (rerooted b ns n)"
  by (simp_all add: rerooted_def live_def same_body_def split: option.splits)

lemma rerooted_cases:
  obtains (stranded) s where "(n_id n, s) \<in> set (stranded b ns)" "n_trash_root (rerooted b ns n) = Some s"
  | (kept) "\<And>s. (n_id n, s) \<notin> set (stranded b ns)" "rerooted b ns n = n"
proof (cases "map_of (stranded b ns) (n_id n)")
  case None
  then have "n_id n \<notin> fst ` set (stranded b ns)" by (simp add: map_of_eq_None_iff)
  then show ?thesis using kept None by (force simp: rerooted_def)
next
  case (Some s)
  then show ?thesis using stranded map_of_SomeD [OF Some] by (simp add: rerooted_def)
qed

lemma reroot_loose:
  assumes l: "loose None B ns" and chk: "\<And>n. n \<in> set ns \<Longrightarrow> node_checks n"
  shows "loose None (B - {b}) (map (rerooted b ns) ns)"
proof (rule loose_map [OF l])
  have f: "forest ns" by (rule loose_forest [OF l])
  then have d: "distinct (map n_id ns)" by (simp add: forest_def)
  show "same_body n (rerooted b ns n)" for n by simp
  have top: "\<exists>p. n_parent n = Some p" if n: "n \<in> set ns" and st: "(n_id n, s) \<in> set (stranded b ns)" for n s
  proof -
    from st obtain w where w: "survivor b ns w" "n_id w = s" "(n_id n, s) \<in> (below (in_batch b) ns)\<^sup>*"
      by (auto simp: stranded_iff [OF f])
    show ?thesis
    proof (cases "n_id n = s")
      case True
      with w(1,2) distinct_key_eq [OF d n, of w] show ?thesis by (auto simp: survivor_def)
    next
      case False
      with w(3) obtain y where "(n_id n, y) \<in> below (in_batch b) ns" by (auto elim: converse_rtranclE)
      then obtain c where "c \<in> set ns" "n_id c = n_id n" "n_parent c = Some y" by (auto simp: below_def)
      with distinct_key_eq [OF d this(1) n] show ?thesis by auto
    qed
  qed
  show "heads (rerooted b ns n)" if "n \<in> set ns" "n_parent n = None" "heads n" for n
    by (cases rule: rerooted_cases [of n b ns]) (use top [OF that(1)] that in auto)
  fix n p
  assume n: "n \<in> set ns" "p \<in> set ns" and np: "n_parent n = Some (n_id p)" and h: "loosely_hangs None B n p"
  have edge: "(n_id n, n_id p) \<in> below all_rows ns" using n np by (auto simp: below_def)
  have trashed: "n_trash_root m \<noteq> None \<Longrightarrow> is_trashed m" if "m \<in> set ns" for m
    using node_checks_trash [OF chk [OF that]] by (auto simp: is_trashed_def)
  have down: "(n_id n, s) \<in> set (stranded b ns)" if "(n_id p, s) \<in> set (stranded b ns)" "n_trash_root n = Some b" for s
  proof -
    have "in_batch b n" using that(2) trashed [OF n(1)] by (simp add: in_batch_def)
    from in_batch_up [OF d n(1) this np] that(1) show ?thesis
      by (auto simp: stranded_iff [OF f] intro: converse_rtrancl_into_rtrancl)
  qed
  have up: "n_id n = s \<or> (n_id p, s) \<in> set (stranded b ns)" if st: "(n_id n, s) \<in> set (stranded b ns)" for s
  proof -
    from st obtain w where w: "survivor b ns w" "n_id w = s" "(n_id n, s) \<in> (below (in_batch b) ns)\<^sup>*"
      by (auto simp: stranded_iff [OF f])
    from w(3) show ?thesis
    proof (cases rule: converse_rtranclE)
      case (step y)
      with below_single [OF d edge step(1)] w show ?thesis by (auto simp: stranded_iff [OF f])
    qed simp
  qed
  have first: "(n_id n, n_id n) \<in> set (stranded b ns)" if "n_trash_root n = Some b" "live p"
  proof -
    have "survivor b ns n" using that n np trashed [OF n(1)] by (auto simp: survivor_def in_batch_def)
    then show ?thesis by (auto simp: stranded_iff [OF f])
  qed
  have "r = n_id n \<or> n_trash_root (rerooted b ns p) = Some r \<or> (r \<in> B - {b} \<and> live p)"
    if r: "n_trash_root (rerooted b ns n) = Some r" for r
  proof (cases rule: rerooted_cases [of n b ns])
    case (stranded s)
    with r have rs: "r = s" by simp
    from up [OF stranded(1)] show ?thesis
    proof
      assume "(n_id p, s) \<in> set (stranded b ns)"
      then have "n_trash_root (rerooted b ns p) = Some s"
        by (cases rule: rerooted_cases [of p b ns]) (use stranded_unique [OF f chk] in auto)
      with rs show ?thesis by simp
    qed (use rs in simp)
  next
    case kept
    with r have r': "n_trash_root n = Some r" by simp
    from h r' consider "r = n_id n" | "n_trash_root p = Some r" | "r \<in> B" "live p"
      by (auto simp: loosely_hangs_def)
    then show ?thesis
    proof cases
      case 2
      have "(n_id p, s) \<notin> set (stranded b ns)" for s
      proof
        assume st: "(n_id p, s) \<in> set (stranded b ns)"
        then have "n_trash_root p = Some b"
          using stranded_in_batch [OF f n(2)] by (simp add: in_batch_def)
        with 2 r' down [OF st] kept(1) show False by simp
      qed
      with 2 show ?thesis by (cases rule: rerooted_cases [of p b ns]) auto
    next
      case 3
      with first r' kept(1) show ?thesis by blast
    qed simp
  qed
  then show "loosely_hangs None (B - {b}) (rerooted b ns n) (rerooted b ns p)"
    using h by (simp add: loosely_hangs_def)
qed

section \<open>Restoring\<close>

text \<open>An account that has its rows back and is not charged for them yet.\<close>

definition owing :: "uuid \<Rightarrow> int \<Rightarrow> uuid set \<Rightarrow> db \<Rightarrow> bool" where
  "owing owner k opened db \<longleftrightarrow> schema_ok db \<and> files_versioned db \<and> thumbnails_ok db
     \<and> loose None opened (nodes db) \<and> (\<forall>h. ref_drift db h = 0)
     \<and> (\<forall>x. use_drift db x = at_key owner (- k) x)"

lemma open_batch:
  assumes c: "climbing root None B db" and r: "n_trash_root root = Some (n_id root)"
    and st: "store_nodes (map (\<lambda>n. if n_trash_root n = Some (n_id root) then untrash n else n) (nodes db)) db = Inr db'"
  shows "owing (n_owner root) (sum_rows n_size (filter (\<lambda>n. n_trash_root n = Some (n_id root)) (nodes db))
      + size_under (map n_id (filter (\<lambda>n. n_trash_root n = Some (n_id root)) (nodes db))) db') B db'"
    and "untrash root \<in> set (nodes db')" and "versions db' = versions db"
proof -
  let ?in = "\<lambda>n. n_trash_root n = Some (n_id root)"
  let ?g = "\<lambda>n. if ?in n then untrash n else n"
  let ?ids = "map n_id (filter ?in (nodes db))"
  have ok: "schema_ok db" "files_versioned db" "thumbnails_ok db" "balanced db" "loose None B (nodes db)"
    "batches_above (nodes db)" "root \<in> set (nodes db)"
    and rp: "\<And>p. p \<in> set (nodes db) \<Longrightarrow> n_parent root = Some (n_id p) \<Longrightarrow> live p"
    and ab: "\<And>b. b \<in> B \<Longrightarrow> (n_id root, b) \<in> (below all_rows (nodes db))\<^sup>+"
    using c by (auto simp: climbing_def)
  note m = mark_books [OF ok(1) st]
  have sb: "same_body n (?g n)" for n by simp
  note m = m [OF sb]
  have f: "forest (nodes db)" by (rule loose_forest [OF ok(5)])
  then have d: "distinct (map n_id (nodes db))" by (simp add: forest_def)
  have rB: "n_id root \<notin> B" using ab f by (auto simp: forest_def acyclic_def)
  show "untrash root \<in> set (nodes db')" using ok(7) r by (auto simp: m(2))
  show v: "versions db' = versions db" by (simp add: m(2))
  have lo: "loose None B (map ?g (nodes db))"
  proof (rule loose_map [OF ok(5)])
    show "same_body n (?g n)" for n by simp
    show "heads (?g n)" if "n \<in> set (nodes db)" "n_parent n = None" "heads n" for n
      using that by (simp add: heads_def)
    fix n p
    assume n: "n \<in> set (nodes db)" "p \<in> set (nodes db)" and np: "n_parent n = Some (n_id p)"
      and h: "loosely_hangs None B n p"
    show "loosely_hangs None B (?g n) (?g p)"
    proof (cases "?in n")
      case True
      from h True rB consider "n_id root = n_id n" | "?in p" by (auto simp: loosely_hangs_def)
      then have "live (?g p)"
      proof cases
        case 1
        then have "n = root" using distinct_key_eq [OF d n(1) ok(7)] by simp
        with rp [OF n(2)] np show ?thesis by simp
      qed simp
      with h True show ?thesis by (auto simp: loosely_hangs_def)
    next
      case False
      then show ?thesis using h by (auto simp: loosely_hangs_def)
    qed
  qed
  have ids: "n_id n \<in> set ?ids \<longleftrightarrow> ?in n" if "n \<in> set (nodes db)" for n
    using that distinct_key_eq [OF d] by auto
  have own: "n_owner n = n_owner root \<and> \<not> live n" if "n \<in> set (nodes db)" "?in n" for n
  proof -
    have "(n_id n, n_id root) \<in> (below all_rows (nodes db))\<^sup>*" using ok(6) that by (auto simp: batches_above_def)
    from below_owner_loose [OF ok(5,7) this that(1)] node_checks_trash [OF nodes_ok_checks [OF schema_okD(1) [OF ok(1)] that(1)]] that(2)
    show ?thesis by (auto simp: live_def)
  qed
  let ?k = "sum_rows (\<lambda>n. if n_id n \<in> set ?ids then cost (versions db) n else 0) (nodes db)"
  have "share_lost db ?g x = at_key (n_owner root) (- ?k) x" for x
  proof -
    have "row_share (versions db) x n - row_share (versions db) x (?g n)
        = - (if x = n_owner root then (if n_id n \<in> set ?ids then cost (versions db) n else 0) else 0)"
      if "n \<in> set (nodes db)" for n
      using own [OF that] unfolding ids [OF that] by (auto simp: row_share_def cost_def)
    then have "share_lost db ?g x = sum_rows (\<lambda>n. - (if x = n_owner root
        then (if n_id n \<in> set ?ids then cost (versions db) n else 0) else 0)) (nodes db)"
      unfolding share_lost_def by (rule sum_rows_cong)
    also have "\<dots> = - sum_rows (\<lambda>n. if x = n_owner root
        then (if n_id n \<in> set ?ids then cost (versions db) n else 0) else 0) (nodes db)"
      by (rule sum_rows_minus)
    finally show ?thesis by (simp add: at_key_def sum_rows_zero)
  qed
  moreover have "sum_rows n_size (filter ?in (nodes db)) = sum_rows n_size (filter (\<lambda>n. n_id n \<in> set ?ids) (nodes db))"
    using ids by (intro arg_cong [of _ _ "sum_rows n_size"] filter_cong) auto
  moreover have "size_under ?ids db' = size_under ?ids db" by (simp add: size_under_def v)
  ultimately have u: "share_lost db ?g x = at_key (n_owner root)
      (- (sum_rows n_size (filter ?in (nodes db)) + size_under ?ids db')) x" for x
    using marked_cost [OF ok(1), of ?ids] by simp
  show "owing (n_owner root) (sum_rows n_size (filter ?in (nodes db)) + size_under ?ids db') B db'"
    using m(1,3,4,5,6) lo u ok(2,3,4) unfolding owing_def by (simp add: m(2) balanced_drift)
qed

lemma reroot_owing:
  assumes o: "owing owner k B db" and st: "reroot_survivors b db = Inr db'"
  shows "owing owner k (B - {b}) db'" and "\<And>n. n \<in> set (nodes db) \<Longrightarrow> live n \<Longrightarrow> n \<in> set (nodes db')"
proof -
  let ?g = "rerooted b (nodes db)"
  have ok: "schema_ok db" "files_versioned db" "thumbnails_ok db" "loose None B (nodes db)"
    using o by (simp_all add: owing_def)
  have "store_nodes (map ?g (nodes db)) db = Inr db'"
    using st by (simp add: reroot_survivors_def rerooted_def [abs_def])
  note m = mark_books [OF ok(1) this]
  have sb: "same_body n (?g n)" for n by simp
  note m = m [OF sb]
  have chk: "node_checks n" if "n \<in> set (nodes db)" for n by (rule nodes_ok_checks [OF schema_okD(1) [OF ok(1)] that])
  have "share_lost db ?g x = 0" for x
    unfolding share_lost_def
  proof (rule sum_rows_zero)
    fix n
    have "n_size (?g n) = n_size n" using sb [of n] by (simp add: same_body_def)
    then show "row_share (versions db) x n - row_share (versions db) x (?g n) = 0"
      by (simp add: row_share_def cost_def)
  qed
  then show "owing owner k (B - {b}) db'"
    using m(1,3,4,5,6) reroot_loose [OF ok(4) chk] o unfolding owing_def by (simp add: m(2))
  fix n assume n: "n \<in> set (nodes db)" "live n"
  have "\<not> in_batch b n" using n(2) by (simp add: in_batch_def is_trashed_def live_def)
  with stranded_in_batch [OF loose_forest [OF ok(4)] n(1)] have "(n_id n, s) \<notin> set (stranded b (nodes db))" for s by blast
  then have "?g n = n" by (cases rule: rerooted_cases [of n b "nodes db"]) auto
  with n(1) show "n \<in> set (nodes db')" by (auto simp: m(2) intro!: rev_image_eqI)
qed

lemma reroots_owing:
  "rfold (\<lambda>batch d. map_err Database (reroot_survivors batch d)) bs db = Inr db' \<Longrightarrow> owing owner k B db \<Longrightarrow>
   B \<subseteq> set bs \<Longrightarrow> owing owner k {} db' \<and> (\<forall>n\<in>set (nodes db). live n \<longrightarrow> n \<in> set (nodes db'))"
proof (induction bs arbitrary: db B)
  case Nil
  then show ?case by simp
next
  case (Cons b bs)
  then obtain db1 where st: "reroot_survivors b db = Inr db1"
    and more: "rfold (\<lambda>batch d. map_err Database (reroot_survivors batch d)) bs db1 = Inr db'"
    by (auto simp: rbind_eq_Inr)
  note r = reroot_owing [OF Cons.prems(2) st]
  from Cons.IH [OF more r(1)] Cons.prems(3) r(2) show ?case by auto
qed

lemma trash_root_Inr:
  assumes "trash_root owner i db = Inr root"
  shows "root \<in> set (nodes db)" and "n_id root = i" and "n_owner root = owner" and "n_trash_root root = Some i"
proof -
  have "find (\<lambda>n. n_id n = i \<and> n_owner n = owner \<and> n_trash_root n = Some i) (nodes db) = Some root"
    using assms by (simp add: trash_root_def)
  from find_Some_set [OF this] show "root \<in> set (nodes db)" "n_id root = i" "n_owner root = owner"
    "n_trash_root root = Some i" by simp_all
qed

lemma restore_sound:
  assumes s: "sound db" and re: "restore owner i db = Inr (n, db')"
  shows "sound db'" and "n \<in> set (nodes db')" and "n_id n = i" and "live n" and "n_owner n = owner"
proof -
  from re obtain root above opened db1 db2 db3 where root: "trash_root owner i db = Inr root"
    and ra: "restore_ancestors (n_parent root) 0 [] db = Inr (above, opened, db1)"
    and st: "store_nodes (map (\<lambda>n. if n_trash_root n = Some (n_id root) then untrash n else n) (nodes db1)) db1 = Inr db2"
    and rr: "rfold (\<lambda>batch d. map_err Database (reroot_survivors batch d)) opened db2 = Inr db3"
    and ch: "charge_quota owner (above + sum_rows n_size (filter (\<lambda>n. n_trash_root n = Some (n_id root)) (nodes db1))
      + size_under (map n_id (filter (\<lambda>n. n_trash_root n = Some (n_id root)) (nodes db1))) db2) db3 = Inr db'"
    and fn: "find_node (nodes db') (n_id root) = Some n"
    by (auto simp: restore_def rbind_eq_Inr Let_def fetch_one_def)
  note rt = trash_root_Inr [OF root]
  have "climbing root (n_parent root) (set []) db"
    unfolding climbing_def
    using soundD(1,2,4,5,7) [OF s] rt(1) soundD(3) [OF s] batches_above_tree [OF soundD(7) [OF s]]
    by (auto simp: tree_ok_split loose_tree_rows [symmetric] loose_def loosely_hangs_def below_def)
  from restore_ancestors_climbing [OF ra this] have c: "climbing root None (set opened) db1" and z: "above = 0" by auto
  have "n_trash_root root = Some (n_id root)" using rt by simp
  note o = open_batch [OF c this st]
  from reroots_owing [OF rr o(1) order_refl] o(2) have w: "owing (n_owner root)
     (sum_rows n_size (filter (\<lambda>n. n_trash_root n = Some (n_id root)) (nodes db1))
      + size_under (map n_id (filter (\<lambda>n. n_trash_root n = Some (n_id root)) (nodes db1))) db2) {} db3"
    and l: "untrash root \<in> set (nodes db3)" by auto
  have ok3: "schema_ok db3" using w by (simp add: owing_def)
  note cm = charge_moved [OF schema_okD(3) [OF ok3] ch] and fr = charge_quota_frame [OF ch]
  have "balanced db'" using cm w z rt(3) by (simp add: balanced_drift moved_def owing_def at_key_def)
  moreover have "thumbnails_ok db'" using moved_thumbnails [OF cm] w by (simp add: owing_def)
  moreover have "tree_ok db'" using w by (simp add: tree_ok_split owing_def loose_tree_rows files_versioned_def fr)
  ultimately show s': "sound db'" using schema_ok_charge [OF ok3 ch] by (simp add: sound_def)
  have "untrash root \<in> set (nodes db')" using l fr(1) by simp
  from sound_find [OF s' this] fn have "n = untrash root" by simp
  with rt \<open>untrash root \<in> set (nodes db')\<close> show "n \<in> set (nodes db')" "n_id n = i" "live n" "n_owner n = owner" by simp_all
qed

section \<open>Purging\<close>

text \<open>What a delete takes with it is exactly what is below the row.\<close>

lemma cascade_once_iff:
  "j \<in> set (cascade_once ns ids) \<longleftrightarrow> (\<exists>n\<in>set ns. n_id n = j \<and> (n_id n \<in> set ids
     \<or> (\<exists>p. n_parent n = Some p \<and> p \<in> set ids) \<or> (\<exists>r. n_trash_root n = Some r \<and> r \<in> set ids)))"
proof -
  have o: "(case x of Some p \<Rightarrow> P p | None \<Rightarrow> False) \<longleftrightarrow> (\<exists>p. x = Some p \<and> P p)" for x :: "uuid option" and P
    by (cases x) auto
  show ?thesis unfolding cascade_once_def o set_map set_filter image_iff by blast
qed

lemma cascade_steps_sound:
  assumes "batches_above ns"
  shows "j \<in> set ((cascade_once ns ^^ k) [i]) \<Longrightarrow> (j, i) \<in> (below all_rows ns)\<^sup>*"
proof (induction k arbitrary: j)
  case 0
  then show ?case by simp
next
  case (Suc k)
  let ?S = "set ((cascade_once ns ^^ k) [i])"
  from Suc(2) obtain n where n: "n \<in> set ns" "n_id n = j"
    and c: "n_id n \<in> ?S \<or> (\<exists>p. n_parent n = Some p \<and> p \<in> ?S) \<or> (\<exists>r. n_trash_root n = Some r \<and> r \<in> ?S)"
    by (auto simp: cascade_once_iff)
  from c show ?case
  proof (elim disjE exE conjE)
    assume "n_id n \<in> ?S"
    with Suc(1) n(2) show ?thesis by simp
  next
    fix p assume p: "n_parent n = Some p" "p \<in> ?S"
    then have "(j, p) \<in> below all_rows ns" using n by (auto simp: below_def)
    with Suc(1) [OF p(2)] show ?thesis by (rule converse_rtrancl_into_rtrancl [rotated])
  next
    fix r assume r: "n_trash_root n = Some r" "r \<in> ?S"
    then have "(j, r) \<in> (below all_rows ns)\<^sup>*" using assms n by (auto simp: batches_above_def)
    with Suc(1) [OF r(2)] show ?thesis by (rule rtrancl_trans [rotated])
  qed
qed

lemma cascade_steps_complete:
  "(j, i) \<in> below all_rows ns ^^ k \<Longrightarrow> j \<in> set ((cascade_once ns ^^ k) [i])"
proof (induction k arbitrary: j)
  case 0
  then show ?case by simp
next
  case (Suc k)
  from Suc(2) obtain z where z: "(j, z) \<in> below all_rows ns" "(z, i) \<in> below all_rows ns ^^ k"
    using relpow_Suc_D2 by metis
  then obtain n where "n \<in> set ns" "n_id n = j" "n_parent n = Some z" by (auto simp: below_def)
  with Suc(1) [OF z(2)] show ?case by (auto simp: cascade_once_iff)
qed

lemma cascade_steps_mono:
  assumes "i \<in> n_id ` set ns" and "k \<le> m"
  shows "set ((cascade_once ns ^^ k) [i]) \<subseteq> set ((cascade_once ns ^^ m) [i])"
proof -
  have sub: "set ((cascade_once ns ^^ k) [i]) \<subseteq> n_id ` set ns" for k
    by (cases k) (use assms(1) in \<open>auto simp: cascade_once_iff\<close>)
  have "set ((cascade_once ns ^^ k) [i]) \<subseteq> set ((cascade_once ns ^^ Suc k) [i])" for k
    using sub [of k] by (fastforce simp: cascade_once_iff)
  then show ?thesis using assms(2) by (rule lift_Suc_mono_le)
qed

lemma cascade_iff:
  assumes t: "tree_rows ns" and i: "i \<in> n_id ` set ns"
  shows "j \<in> set (cascade ns i) \<longleftrightarrow> (j, i) \<in> (below all_rows ns)\<^sup>*"
proof
  show "j \<in> set (cascade ns i) \<Longrightarrow> (j, i) \<in> (below all_rows ns)\<^sup>*"
    unfolding cascade_def by (rule cascade_steps_sound [OF batches_above_tree [OF t]])
  assume "(j, i) \<in> (below all_rows ns)\<^sup>*"
  then obtain k where k: "k \<le> card (below all_rows ns)" "(j, i) \<in> below all_rows ns ^^ k"
    using rtrancl_finite_eq_relpow [OF finite_below] by auto
  have "below all_rows ns \<subseteq> (\<lambda>n. (n_id n, the (n_parent n))) ` set ns" by (force simp: below_def)
  then have "card (below all_rows ns) \<le> card ((\<lambda>n. (n_id n, the (n_parent n))) ` set ns)"
    by (intro card_mono) auto
  also have "\<dots> \<le> length ns" by (meson card_image_le card_length finite_set order_trans)
  finally have "k \<le> length ns" using k(1) by simp
  from cascade_steps_mono [OF i this] cascade_steps_complete [OF k(2)] show "j \<in> set (cascade ns i)"
    unfolding cascade_def by blast
qed

text \<open>Dropping a set of rows no kept row refers to.\<close>

lemma nodes_violation_filter:
  assumes "nodes_violation us hs ns = None"
    and "\<And>n p. n \<in> set ns \<Longrightarrow> P n \<Longrightarrow> n_parent n = Some p \<Longrightarrow> p \<in> n_id ` set (filter P ns)"
    and "\<And>n r. n \<in> set ns \<Longrightarrow> P n \<Longrightarrow> n_trash_root n = Some r \<Longrightarrow> r \<in> n_id ` set (filter P ns)"
  shows "nodes_violation us hs (filter P ns) = None"
proof -
  have sw: "filter Q (filter P ns) = filter P (filter Q ns)" for Q by (simp add: conj_commute)
  note v = assms(1) [unfolded nodes_violation_None]
  have d: "distinct (map n_id (filter P ns))"
    "distinct (map (\<lambda>n. (n_parent n, n_name n)) (filter P (filter (\<lambda>n. live n \<and> n_parent n \<noteq> None) ns)))"
    "distinct (map n_owner (filter P (filter (\<lambda>n. live n \<and> n_parent n = None) ns)))"
    by (rule distinct_map_filterI, use v in blast)+
  have f: "\<forall>n\<in>set (filter P ns). \<forall>p. n_parent n = Some p \<longrightarrow> p \<in> n_id ` set (filter P ns)"
    "\<forall>n\<in>set (filter P ns). \<forall>r. n_trash_root n = Some r \<longrightarrow> r \<in> n_id ` set (filter P ns)"
    using assms(2,3) by auto
  show ?thesis
    unfolding nodes_violation_None sw using d f v by (auto simp: list_all_iff)
qed

text \<open>The references a list of rows holds, row by row.\<close>

lemma count_held:
  assumes "distinct ids" and "distinct (map n_id ns)"
  shows "int (count_list (List.map_filter (\<lambda>j. Option.bind (find_node ns j) n_blob) ids) h)
    = count_rows (\<lambda>n. n_id n \<in> set ids \<and> n_blob n = Some h) ns"
  using assms(1)
proof (induction ids)
  case Nil
  then show ?case by (simp add: count_rows_sum sum_rows_zero List.map_filter_def)
next
  case (Cons j ids)
  have "(if Option.bind (find_node ns j) n_blob = Some h then 1 else 0)
      = (case find_node ns j of Some n \<Rightarrow> if n_blob n = Some h then 1 else (0::int) | None \<Rightarrow> 0)"
    by (cases "find_node ns j") auto
  also have "\<dots> = sum_rows (\<lambda>n. if n_id n = j \<and> n_blob n = Some h then 1 else 0) ns"
    by (rule join_one [OF assms(2)])
  finally have one: "(if Option.bind (find_node ns j) n_blob = Some h then 1 else 0) = \<dots>" .
  have "count_rows (\<lambda>n. n_id n \<in> set (j # ids) \<and> n_blob n = Some h) ns
      = sum_rows (\<lambda>n. (if n_id n = j \<and> n_blob n = Some h then 1 else 0)
          + (if n_id n \<in> set ids \<and> n_blob n = Some h then 1 else 0)) ns"
    unfolding count_rows_sum using Cons.prems by (intro sum_rows_cong) auto
  then show ?case
    using Cons one by (auto simp: sum_rows_add count_rows_sum [symmetric] List.map_filter_simps
        split: option.splits if_splits)
qed

lemma count_blobs_under:
  "int (count_list (blobs_under ids db) h) = count_rows (\<lambda>v. v_node v \<in> set ids \<and> v_blob v = h) (versions db)"
  unfolding blobs_under_def count_list_rows by (induction "versions db" arbitrary: db) (auto simp: count_rows_def conj_commute)

lemma count_list_append: "count_list (xs @ ys) x = count_list xs x + count_list ys x"
  by (induction xs) auto

text \<open>A row below a trashed row is trashed.\<close>

lemma below_trashed:
  assumes "sound db" and "m \<in> set (nodes db)" and "live m" and "(n_id m, n_id n) \<in> (below all_rows (nodes db))\<^sup>*"
    and "n \<in> set (nodes db)"
  shows "live n"
proof -
  from below_live [OF soundD(7) [OF assms(1)] assms(2-4)] have b: "(n_id m, n_id n) \<in> (below live (nodes db))\<^sup>*" .
  then show ?thesis
  proof (cases rule: rtranclE)
    case base
    with distinct_key_eq [OF soundD(6) [OF assms(1)] assms(2,5)] assms(3) show ?thesis by simp
  next
    case (step y)
    then obtain c where "c \<in> set (nodes db)" "live c" "n_parent c = Some (n_id n)" by (auto simp: below_def)
    with tree_rows_hangs [OF soundD(7) [OF assms(1)] _ assms(5)] show ?thesis by (auto simp: hangs_def)
  qed
qed

lemma count_rows_removed:
  "count_rows Q (filter (\<lambda>x. f x \<notin> A) xs) = count_rows Q xs - count_rows (\<lambda>x. f x \<in> A \<and> Q x) xs"
  by (induction xs) auto

lemma drop_nodes_sound:
  assumes s: "sound db" and n: "n \<in> set (nodes db)" "\<not> live n"
    and D: "set ids = {j. (j, n_id n) \<in> (below all_rows (nodes db))\<^sup>*}"
    and held: "\<And>h. int (count_list held h) = count_rows (\<lambda>m. n_id m \<in> set ids \<and> n_blob m = Some h) (nodes db)
      + count_rows (\<lambda>v. v_node v \<in> set ids \<and> v_blob v = h) (versions db)"
  shows "sound (fold (release_blob now) held (drop_nodes ids db))"
proof -
  let ?P = "\<lambda>m. n_id m \<notin> set ids"
  let ?V = "\<lambda>v. v_node v \<notin> set ids"
  let ?db1 = "drop_nodes ids db"
  let ?db2 = "fold (release_blob now) held ?db1"
  have ok: "schema_ok db" "tree_rows (nodes db)" "forest (nodes db)" "balanced db" "nodes_ok db"
    using s by (simp_all add: soundD)
  have closed: "p \<notin> set ids" if "m \<in> set (nodes db)" "?P m" "(n_id m, p) \<in> (below all_rows (nodes db))\<^sup>*" for m p
    using that(2,3) by (auto simp: D intro: rtrancl_trans)
  have kept_parent: "p \<in> n_id ` set (filter ?P (nodes db))"
    if m: "m \<in> set (nodes db)" "?P m" "n_parent m = Some p" for m p
  proof -
    have "p \<in> n_id ` set (nodes db)" by (rule nodes_ok_parent [OF ok(5) m(1,3)])
    moreover have "(n_id m, p) \<in> below all_rows (nodes db)" using m(1,3) by (auto simp: below_def)
    ultimately show ?thesis using closed [OF m(1,2)] by auto
  qed
  have kept_root: "r \<in> n_id ` set (filter ?P (nodes db))"
    if m: "m \<in> set (nodes db)" "?P m" "n_trash_root m = Some r" for m r
  proof -
    have "r \<in> n_id ` set (nodes db)" using ok(5) m(1,3) by (auto simp: nodes_ok_def nodes_violation_None)
    moreover have "(n_id m, r) \<in> (below all_rows (nodes db))\<^sup>*"
      using batches_above_tree [OF ok(2)] m(1,3) by (auto simp: batches_above_def)
    ultimately show ?thesis using closed [OF m(1,2)] by auto
  qed
  have n1: "nodes ?db1 = filter ?P (nodes db)" and v1: "versions ?db1 = filter ?V (versions db)"
    and q1: "quotas ?db1 = quotas db" and b1: "blobs ?db1 = blobs db" and u1: "users ?db1 = users db"
    and t1: "thumbnails ?db1 = thumbnails db" by (simp_all add: drop_nodes_def)
  have nok1: "nodes_ok ?db1"
    using ok(5) nodes_violation_filter [OF _ kept_parent kept_root, of "map u_id (users db)" "map b_hash (blobs db)"]
    by (simp add: nodes_ok_def n1 b1 u1)
  have "versions_ok ?db1"
    using schema_okD(4) [OF ok(1)] by (auto simp: versions_ok_def v1 n1 b1 list_all_iff)
  then have ok1: "schema_ok ?db1"
    using nok1 ok(1) by (simp add: schema_ok_def blobs_ok_def quotas_ok_def b1 q1)
  have st1: "stored_refs ?db1 = stored_refs db" by (rule stored_refs_blobs [OF b1])
  have er1: "expected_references ?db1 h = expected_references db h - int (count_list held h)" for h
    unfolding held by (simp add: expected_references_def n1 v1 t1 count_rows_removed)
  have le: "int (count_list held h) \<le> stored_refs ?db1 h" for h
  proof -
    have "0 \<le> expected_references ?db1 h" by (simp add: expected_references_def)
    then show ?thesis using er1 [of h] ok(4) st1 by (simp add: balanced_def)
  qed
  have sr2: "stored_refs ?db2 h = expected_references ?db2 h" for h
  proof -
    have "stored_refs ?db2 h = stored_refs db h - int (count_list held h)"
      using blob_ledger.releases_count [OF schema_okD(2) [OF ok1] le] st1 by simp
    moreover have "expected_references ?db2 h = expected_references ?db1 h" by (simp add: expected_references_def)
    ultimately show ?thesis using er1 ok(4) by (simp add: balanced_def)
  qed
  have dead: "\<not> live m" if "m \<in> set (nodes db)" "\<not> ?P m" for m
    using below_trashed [OF s that(1) _ _ n(1)] that(2) n(2) by (auto simp: D)
  have heldb: "held_bytes (versions ?db1) (n_id m) = held_bytes (versions db) (n_id m)" if "?P m" for m
    unfolding v1 held_bytes_def sum_rows_filter by (intro sum_rows_cong) (use that in auto)
  have "expected_usage ?db1 x = expected_usage db x" for x
  proof -
    have "sum_rows (row_share (versions ?db1) x) (filter ?P (nodes db)) = sum_rows (row_share (versions db) x) (nodes db)"
      unfolding sum_rows_filter
      by (intro sum_rows_cong) (use dead heldb in \<open>auto simp: row_share_def cost_def\<close>)
    then show ?thesis using expected_usage_shares [OF nok1] expected_usage_shares [OF ok(5)] by (simp add: n1)
  qed
  moreover have "expected_usage ?db2 = expected_usage ?db1" by (simp add: fun_eq_iff expected_usage_def)
  moreover have "used ?db2 = used db" using used_quotas [OF q1] by simp
  ultimately have bal: "balanced ?db2" using sr2 ok(4) by (simp add: balanced_def)
  have "tree_rows (filter ?P (nodes db))"
  proof (rule tree_rowsI)
    show "forest (filter ?P (nodes db))" by (rule forest_subset [OF ok(3) kept_parent])
  qed (use tree_rows_hangs [OF ok(2)] tree_rows_root [OF ok(2)] in auto)
  moreover have "files_versioned ?db1"
    using soundD(3) [OF s] by (auto simp: tree_ok_split files_versioned_def n1 v1)
  ultimately have "tree_ok ?db2" by (simp add: tree_ok_split files_versioned_def n1)
  moreover have "map b_hash (blobs ?db2) = map b_hash (blobs db)" by (simp add: b1)
  then have "thumbnails_ok ?db2" using soundD(2) [OF s] by (simp add: thumbnails_ok_def has_blob_def t1 del: map_map)
  ultimately show ?thesis using bal schema_ok_releases [OF ok1] by (simp add: sound_def)
qed

lemma drop_nodes_cong: "set ids = set ids' \<Longrightarrow> drop_nodes ids db = drop_nodes ids' db"
  by (simp add: drop_nodes_def)

lemma purge_sound:
  assumes s: "sound db" and p: "purge now owner i db = Inr db'"
  shows "sound db'" and "\<exists>n\<in>set (nodes db). n_id n = i \<and> n_owner n = owner \<and> n_trash_root n = Some i"
    and "nodes db' = filter (\<lambda>m. (n_id m, i) \<notin> (below all_rows (nodes db))\<^sup>*) (nodes db)"
proof -
  from p obtain root where r: "trash_root owner i db = Inr root" by (auto simp: purge_def rbind_eq_Inr)
  note rt = trash_root_Inr [OF r]
  show "\<exists>n\<in>set (nodes db). n_id n = i \<and> n_owner n = owner \<and> n_trash_root n = Some i" using rt by blast
  let ?ids = "descend all_rows (nodes db) [] i"
  let ?held = "List.map_filter (\<lambda>j. Option.bind (find_node (nodes db) j) n_blob) ?ids @ blobs_under ?ids db"
  have in_ids: "i \<in> n_id ` set (nodes db)" using rt(1,2) by auto
  have D: "set ?ids = {j. (j, i) \<in> (below all_rows (nodes db))\<^sup>*}" using send_ids [OF s rt(1)] rt(2) by simp
  have "set (cascade (nodes db) i) = set ?ids" using cascade_iff [OF soundD(7) [OF s] in_ids] D by auto
  then have e: "delete_node i db = drop_nodes ?ids db" unfolding delete_node_def by (rule drop_nodes_cong)
  have db': "db' = fold (release_blob now) ?held (drop_nodes ?ids db)"
    using p r rt(2) by (simp add: purge_def Let_def e)
  have "\<not> live root"
    using node_checks_trash [OF nodes_ok_checks [OF soundD(5) [OF s] rt(1)]] rt(4) by (auto simp: live_def)
  moreover have "set ?ids = {j. (j, n_id root) \<in> (below all_rows (nodes db))\<^sup>*}" using D rt(2) by simp
  ultimately show "sound db'" unfolding db'
    by (rule drop_nodes_sound [OF s rt(1)])
       (simp add: count_list_append count_blobs_under
          count_held [OF descend_distinct [OF soundD(8) [OF s]] soundD(6) [OF s]])
  show "nodes db' = filter (\<lambda>m. (n_id m, i) \<notin> (below all_rows (nodes db))\<^sup>*) (nodes db)"
    unfolding db' by (simp add: drop_nodes_def D)
qed

lemma empty_roots_sound:
  "empty_roots now owner is k db = Inr (k', db') \<Longrightarrow> sound db \<Longrightarrow> sound db'"
proof (induction now owner "is" k db rule: empty_roots.induct)
  case (2 now owner i "is" k db)
  show ?case
  proof (cases "purge now owner i db")
    case (Inl e)
    with 2(3) have "e = NotFound" by (cases e) auto
    with 2 Inl show ?thesis by simp
  next
    case (Inr db1)
    with 2 purge_sound(1) [OF 2(4) Inr] show ?thesis by simp
  qed
qed simp

lemma empty_trash_sound: "empty_trash now owner db = Inr (k, db') \<Longrightarrow> sound db \<Longrightarrow> sound db'"
  unfolding empty_trash_def by (rule empty_roots_sound)

lemma expire_due_sound: "expire_due now due k db = (k', db') \<Longrightarrow> sound db \<Longrightarrow> sound db'"
proof (induction now due k db rule: expire_due.induct)
  case (2 now owner i due k db)
  show ?case
  proof (cases "purge now owner i db")
    case (Inl e)
    with 2 show ?thesis by simp
  next
    case (Inr db1)
    with 2 purge_sound(1) [OF 2(4) Inr] show ?thesis by simp
  qed
qed simp

lemma expire_sound: "expire now retention db = (k, db') \<Longrightarrow> sound db \<Longrightarrow> sound db'"
  unfolding expire_def by (rule expire_due_sound)

section \<open>Sending and restoring\<close>

lemma batch_root_trashed:
  assumes t: "tree_rows ns" and n: "n \<in> set ns" and r: "n_trash_root n = Some r"
  shows "\<exists>x\<in>set ns. n_id x = r \<and> n_trash_root x = Some r"
proof -
  have f: "forest ns" by (rule tree_rows_forest [OF t])
  then have "wf ((below all_rows ns)\<inverse>)"
    by (intro finite_acyclic_wf_converse finite_below) (simp add: forest_def)
  then have "n_id n = i \<Longrightarrow> n \<in> set ns \<Longrightarrow> n_trash_root n = Some r \<Longrightarrow> ?thesis" for i n
  proof (induction i arbitrary: n rule: wf_induct_rule)
    case (less i)
    show ?case
    proof (cases "n_parent n")
      case None
      with tree_rows_root [OF t less(3)] less(3,4) show ?thesis by (auto simp: heads_def)
    next
      case (Some j)
      with less(3) f obtain p where p: "p \<in> set ns" "n_id p = j" by (fastforce simp: forest_def)
      have e: "(i, j) \<in> below all_rows ns" using less(2,3) Some by (auto simp: below_def)
      from tree_rows_hangs [OF t less(3) p(1)] Some p(2) less(4)
      consider "r = n_id n" | "n_trash_root p = Some r" by (auto simp: hangs_def)
      then show ?thesis
        by cases (use less e p in \<open>auto\<close>)
    qed
  qed
  with n r show ?thesis by blast
qed

lemma charge_back:
  assumes "charge_quota owner (- d) db = Inr db1" and "0 \<le> d"
    and "\<And>q. q \<in> set (quotas db) \<Longrightarrow> q_owner q = owner \<Longrightarrow> q_used q \<le> q_max q"
    and "quotas db2 = quotas db1" and "\<And>q. q \<in> set (quotas db) \<Longrightarrow> 0 \<le> q_used q"
  shows "charge_quota owner d db2 = Inr (db2\<lparr>quotas := quotas db\<rparr>)"
proof (cases "d = 0")
  case True
  with assms(1,4) show ?thesis by (simp add: charge_quota_def)
next
  case False
  let ?g = "\<lambda>q. if q_owner q = owner \<and> q_used q + - d \<le> q_max q then q\<lparr>q_used := q_used q + - d\<rparr> else q"
  let ?h = "\<lambda>q. if q_owner q = owner \<and> q_used q + d \<le> q_max q then q\<lparr>q_used := q_used q + d\<rparr> else q"
  from assms(1) False obtain q0 where q0: "q0 \<in> set (quotas db)" "q_owner q0 = owner"
    and q1: "quotas db1 = map ?g (quotas db)"
    by (auto simp: charge_quota_eq_Inr)
  have undo: "?h (?g q) = q" if "q \<in> set (quotas db)" for q
    using assms(2,3) that by (cases q) fastforce
  have "map ?h (map ?g (quotas db)) = quotas db"
    unfolding map_map comp_def by (rule map_idI) (rule undo)
  then have "map ?h (quotas db2) = quotas db" by (simp only: assms(4) q1)
  moreover have "\<exists>q\<in>set (quotas db2). q_owner q = owner \<and> q_used q + d \<le> q_max q"
  proof -
    have m: "q_used q0 \<le> q_max q0" by (rule assms(3) [OF q0])
    then have e: "?g q0 = q0\<lparr>q_used := q_used q0 + - d\<rparr>" using assms(2) q0(2) by simp
    have "?g q0 \<in> set (quotas db2)" unfolding assms(4) q1 set_map by (rule imageI [OF q0(1)])
    then show ?thesis unfolding e by (rule bexI [rotated]) (use m q0(2) in simp)
  qed
  moreover have "\<forall>q\<in>set (quotas db2). q_owner q = owner \<longrightarrow> 0 \<le> q_used q + d"
  proof (intro ballI impI)
    fix q assume q: "q \<in> set (quotas db2)" "q_owner q = owner"
    then obtain p where p: "p \<in> set (quotas db)" "q = ?g p" unfolding assms(4) q1 set_map by blast
    show "0 \<le> q_used q + d"
      using assms(2) assms(5) [OF p(1)] unfolding p(2) by (simp split: if_split)
  qed
  ultimately show ?thesis
    unfolding charge_quota_eq_Inr using False by simp
qed

lemma send_restore:
  assumes s: "sound db" and n: "n \<in> set (nodes db)" "live n"
    and room: "\<And>q. q \<in> set (quotas db) \<Longrightarrow> q_owner q = n_owner n \<Longrightarrow> q_used q \<le> q_max q"
    and se: "send now n db = Inr db1"
  shows "restore (n_owner n) (n_id n) db1 = Inr (n, db)"
proof -
  let ?ids = "descend live (nodes db) [] (n_id n)"
  let ?mark = "\<lambda>r. r\<lparr>n_deleted := Some now, n_trash_root := Some (n_id n)\<rparr>"
  let ?g = "\<lambda>r. if n_id r \<in> set ?ids then ?mark r else r"
  let ?in = "\<lambda>m. n_trash_root m = Some (n_id n)"
  let ?freed = "sum_rows n_size (filter (\<lambda>r. n_id r \<in> set ?ids) (nodes db)) + size_under ?ids db"
  note ids = send_ids [OF s n(1), of live]
  have chk: "n_trash_root m = None \<longleftrightarrow> live m" if "m \<in> set (nodes db)" for m
    using node_checks_trash [OF nodes_ok_checks [OF soundD(5) [OF s] that]] by (auto simp: live_def)
  have s1: "sound db1" and ns1: "nodes db1 = map ?g (nodes db)"
    using send_sound [OF s n se] by (simp_all add: trash_rows_def)
  obtain dbm where st: "dbm = db\<lparr>nodes := map ?g (nodes db)\<rparr>" and ch: "charge_quota (n_owner n) (- ?freed) dbm = Inr db1"
    using se live_node_eq [OF s n] by (auto simp: send_def Let_def rbind_eq_Inr trash_rows_def store_nodes_eq_Inr)
  note fr = charge_quota_frame [OF ch]
  have self: "n_id n \<in> set ?ids" by (simp add: ids)
  have r1: "?mark n \<in> set (nodes db1)" using n(1) self by (force simp: ns1)
  have root: "trash_root (n_owner n) (n_id n) db1 = Inr (?mark n)"
  proof -
    have "find (\<lambda>m. n_id m = n_id n \<and> n_owner m = n_owner n \<and> ?in m) (nodes db1) \<noteq> None"
      unfolding find_None_set using r1 by force
    then obtain m where m: "find (\<lambda>m. n_id m = n_id n \<and> n_owner m = n_owner n \<and> ?in m) (nodes db1) = Some m" by blast
    from find_Some_set [OF m] have "m \<in> set (nodes db1)" "n_id m = n_id (?mark n)" by simp_all
    with distinct_key_eq [OF soundD(6) [OF s1] _ r1] have "m = ?mark n" by blast
    with m show ?thesis by (simp add: trash_root_def)
  qed
  have no_parent_trashed: "find (\<lambda>m. n_id m = i \<and> is_trashed m) (nodes db1) = None" if i: "n_parent n = Some i" for i
    unfolding find_None_set
  proof (intro ballI notI)
    fix m' assume "m' \<in> set (nodes db1)" and m': "n_id m' = i \<and> is_trashed m'"
    then obtain m where "m \<in> set (nodes db)" "m' = ?g m" by (auto simp: ns1)
    with m' have m: "m \<in> set (nodes db)" "i = n_id m" "is_trashed (?g m)" by auto
    have e: "(n_id n, n_id m) \<in> below all_rows (nodes db)" using n(1) i m(2) by (auto simp: below_def)
    have "live m" using tree_rows_hangs [OF soundD(7) [OF s] n(1) m(1)] i m(2) n(2) by (simp add: hangs_def)
    moreover have "n_id m \<notin> set ?ids" using forest_no_cycle [OF soundD(8) [OF s] e] by (auto simp: ids)
    ultimately show False using m(3) by (simp add: is_trashed_def live_def)
  qed
  then have ra: "restore_ancestors (n_parent (?mark n)) 0 [] db1 = Inr (0, [], db1)"
    by (simp add: restore_ancestors.simps split: option.splits)
  have inb: "?in (?g m) \<longleftrightarrow> n_id m \<in> set ?ids" if "m \<in> set (nodes db)" for m
  proof -
    have False if "?in m"
      using batch_root_trashed [OF soundD(7) [OF s] \<open>m \<in> set (nodes db)\<close> that] chk n
        distinct_key_eq [OF soundD(6) [OF s] _ n(1)] by fastforce
    then show ?thesis by auto
  qed
  have "untrash (?mark m) = m" if "m \<in> set (nodes db)" "n_id m \<in> set ?ids" for m
  proof -
    have "live m"
    proof (cases "n_id m = n_id n")
      case True
      with distinct_key_eq [OF soundD(6) [OF s] that(1) n(1)] n(2) show ?thesis by simp
    next
      case False
      with that(2) obtain y where "(n_id m, y) \<in> below live (nodes db)" by (auto simp: ids elim: converse_rtranclE)
      then obtain c where "c \<in> set (nodes db)" "n_id c = n_id m" "live c" by (auto simp: below_def)
      with distinct_key_eq [OF soundD(6) [OF s] this(1) that(1)] show ?thesis by simp
    qed
    with chk [OF that(1)] show ?thesis by (simp add: untrash_def live_def)
  qed
  then have undo: "map (\<lambda>m. if ?in m then untrash m else m) (nodes db1) = nodes db"
    unfolding ns1 map_map comp_def using inb by (intro map_idI) auto
  let ?rows = "filter ?in (nodes db1)"
  have rows: "?rows = map ?mark (filter (\<lambda>m. n_id m \<in> set ?ids) (nodes db))"
    unfolding ns1 filter_map comp_def using inb by (auto simp: filter_map comp_def cong: filter_cong map_cong)
  have us: "users db1 = users db" "blobs db1 = blobs db" "versions db1 = versions db" using fr st by simp_all
  have st2: "store_nodes (map (\<lambda>m. if ?in m then untrash m else m) (nodes db1)) db1 = Inr (db1\<lparr>nodes := nodes db\<rparr>)"
    using soundD(5) [OF s] by (simp add: undo store_nodes_def nodes_ok_def us)
  have sz: "sum_rows n_size ?rows = sum_rows n_size (filter (\<lambda>m. n_id m \<in> set ?ids) (nodes db))"
    unfolding rows by (simp add: sum_rows_map comp_def)
  have "set (map n_id ?rows) = set ?ids"
    using descend_ids [of _ live "nodes db" "[]" "n_id n"] unfolding rows by force
  then have su: "size_under (map n_id ?rows) (db1\<lparr>nodes := nodes db\<rparr>) = size_under ?ids db"
    by (simp add: size_under_def us)
  have pos: "0 \<le> ?freed"
    unfolding marked_cost [OF soundD(1) [OF s]]
  proof (rule sum_rows_nonneg)
    fix m assume m: "m \<in> set (nodes db)"
    have "0 \<le> held_bytes (versions db) (n_id m)"
      using schema_okD(4) [OF soundD(1) [OF s]] by (intro held_bytes_nonneg) (auto simp: versions_ok_def list_all_iff)
    with node_checks_size [OF nodes_ok_checks [OF soundD(5) [OF s] m]]
    show "0 \<le> (if n_id m \<in> set ?ids then cost (versions db) m else 0)" by (simp add: cost_def)
  qed
  have "charge_quota (n_owner n) ?freed (db1\<lparr>nodes := nodes db\<rparr>)
      = Inr (db1\<lparr>nodes := nodes db, quotas := quotas dbm\<rparr>)"
    using charge_back [OF ch pos, of "db1\<lparr>nodes := nodes db\<rparr>"] room st schema_okD(3) [OF soundD(1) [OF s]]
    by (simp add: quotas_ok_def list_all_iff)
  moreover have "db1\<lparr>nodes := nodes db, quotas := quotas dbm\<rparr> = db"
    using fr st by (intro db.equality) simp_all
  ultimately have ch2: "charge_quota (n_owner n) (0 + sum_rows n_size ?rows
      + size_under (map n_id ?rows) (db1\<lparr>nodes := nodes db\<rparr>)) (db1\<lparr>nodes := nodes db\<rparr>) = Inr db"
    using sz su by simp
  have "n_id (?mark n) = n_id n" by simp
  then show ?thesis
    unfolding restore_def root rbind_Inr ra prod.case Let_def
    using st2 ch2 sound_find [OF s n(1)] by (simp add: fetch_one_def)
qed

end
