(* ===== verification/Grants.thy ===== *)
theory Grants
  imports Tree
begin

text \<open>
  What an account shares with another: \<open>api/src/grants.rs\<close> and \<open>crates/core/src/grant.rs\<close>. A grant
  mounts a node for an address under a name no other grant of that address has.
\<close>

section \<open>Operations\<close>

fun may_write_access :: "access \<Rightarrow> bool" where
  "may_write_access Write = True"
| "may_write_access Read = False"

definition SHARED_WITH_ME :: string where
  "SHARED_WITH_ME = ''Shared with me''"

record mount =
  m_id :: uuid
  m_node :: uuid
  m_access :: access
  m_name :: string

record given_grant =
  gv_id :: uuid
  gv_node :: uuid
  gv_name :: string
  gv_kind :: node_kind
  gv_email :: string
  gv_access :: access
  gv_in_trash :: bool
  gv_created :: timestamp

record received_grant =
  rv_id :: uuid
  rv_name :: string
  rv_kind :: node_kind
  rv_access :: access
  rv_owner_email :: string
  rv_owner_name :: string
  rv_created :: timestamp

definition numbered :: "string \<Rightarrow> nat \<Rightarrow> string" where
  "numbered name ordinal =
     (let suffix = '' ('' @ decimal ordinal @ '')'';
          cut = floor_boundary name (min (MAX_NAME_LEN - length suffix) (length name))
      in take cut name @ suffix)"

definition reached_by :: "uuid \<Rightarrow> string \<Rightarrow> db \<Rightarrow> node list" where
  "reached_by owner grantee db = filter (\<lambda>n. n_owner n = owner
     \<and> n_id n \<in> set (map g_node (filter (\<lambda>g. g_email g = grantee) (grants db)))) (nodes db)"

text \<open>Two ordinals never give the same name, so the taken names run out.\<close>

lemma numbered_inj: "numbered w i = numbered w j \<Longrightarrow> i = j"
proof -
  let ?digits = "\<lambda>s. takeWhile (\<lambda>c. c \<noteq> CHR ''('') (tl (rev s))"
  have "?digits (numbered w k) = rev (decimal k)" for k
  proof -
    have "CHR ''('' \<notin> set (decimal k)" using decimal_digits [of "CHR ''(''" k] by auto
    moreover obtain p where "numbered w k = p @ '' ('' @ decimal k @ '')''"
      by (simp add: numbered_def Let_def)
    ultimately show ?thesis by (auto simp: takeWhile_tail takeWhile_append2)
  qed
  then show "numbered w i = numbered w j \<Longrightarrow> i = j" by (metis decimal_inj rev_rev_ident)
qed

lemma finite_taken: "finite {k. ordinal \<le> k \<and> numbered w k \<in> set taken}"
proof -
  have "inj_on (numbered w) {k. ordinal \<le> k \<and> numbered w k \<in> set taken}"
    by (rule inj_onI) (rule numbered_inj)
  moreover have "numbered w ` {k. ordinal \<le> k \<and> numbered w k \<in> set taken} \<subseteq> set taken" by auto
  ultimately show ?thesis by (rule inj_on_finite) simp
qed

function free_name :: "string list \<Rightarrow> string \<Rightarrow> string \<Rightarrow> nat \<Rightarrow> string" where
  "free_name taken want candidate ordinal =
     (if candidate \<in> set taken then free_name taken want (numbered want ordinal) (Suc ordinal)
      else candidate)"
  by pat_completeness auto
termination
proof (relation "measure (\<lambda>(taken, want, candidate, ordinal).
    card {k. ordinal \<le> k \<and> numbered want k \<in> set taken} + (if candidate \<in> set taken then 1 else 0))")
  fix taken :: "string list" and want candidate ordinal
  assume c: "candidate \<in> set taken"
  let ?A = "\<lambda>m. {k. m \<le> k \<and> numbered want k \<in> set taken}"
  have "card (?A (Suc ordinal)) + (if numbered want ordinal \<in> set taken then 1 else 0) \<le> card (?A ordinal)"
  proof (cases "numbered want ordinal \<in> set taken")
    case True
    then have "?A ordinal = insert ordinal (?A (Suc ordinal))" by (auto simp: le_eq_less_or_eq)
    then show ?thesis using True by (simp add: finite_taken)
  next
    case False
    have "?A (Suc ordinal) \<subseteq> ?A ordinal" by auto
    with False show ?thesis by (simp add: card_mono finite_taken)
  qed
  with c show "((taken, want, numbered want ordinal, Suc ordinal), taken, want, candidate, ordinal)
      \<in> measure (\<lambda>(taken, want, candidate, ordinal).
        card {k. ordinal \<le> k \<and> numbered want k \<in> set taken} + (if candidate \<in> set taken then 1 else 0))"
    by simp
qed simp

declare free_name.simps [simp del]

definition free_mount_name :: "string \<Rightarrow> string \<Rightarrow> db \<Rightarrow> string" where
  "free_mount_name grantee want db =
     free_name (map g_mount_name (filter (\<lambda>g. g_email g = grantee) (grants db))) want want 2"

text \<open>The constraints of \<open>grants\<close>.\<close>

definition grants_violation :: "db \<Rightarrow> grant list \<Rightarrow> db_error option" where
  "grants_violation db gs =
     (if \<not> list_all (\<lambda>g. g_mount_name g \<noteq> [] \<and> slash \<notin> set (g_mount_name g)) gs
        then Some (CheckViolation ''grants_mount_name_check'')
      else if \<not> distinct (map g_id gs) then Some (UniqueViolation ''grants_pkey'')
      else if \<not> distinct (map (\<lambda>g. (g_node g, g_email g)) gs)
        then Some (UniqueViolation ''grants_once_per_address'')
      else if \<not> distinct (map (\<lambda>g. (g_email g, g_mount_name g)) gs)
        then Some (UniqueViolation ''grants_mount_names'')
      else if \<not> list_all (\<lambda>g. g_node g \<in> set (map n_id (nodes db))) gs
        then Some (ForeignKeyViolation ''grants_node_id_fkey'')
      else if \<not> list_all (\<lambda>g. g_created_by g \<in> set (map u_id (users db))) gs
        then Some (ForeignKeyViolation ''grants_created_by_fkey'')
      else None)"

definition store_grants :: "grant list \<Rightarrow> db \<Rightarrow> db_error + db" where
  "store_grants gs db = (case grants_violation db gs of Some e \<Rightarrow> Inl e | None \<Rightarrow> Inr (db\<lparr>grants := gs\<rparr>))"

definition grants_ok :: "db \<Rightarrow> bool" where
  "grants_ok db \<longleftrightarrow> grants_violation db (grants db) = None"

definition give :: "timestamp \<Rightarrow> user \<Rightarrow> node \<Rightarrow> string \<Rightarrow> access \<Rightarrow> db \<Rightarrow> api_error + given_grant \<times> db" where
  "give now owner n grantee acc db =
     (if grantee = u_email owner then Inl (WrongKind ''different address from your own'')
      else if list_ex (\<lambda>reached. contains reached n db \<or> contains n reached db)
                (reached_by (n_owner n) grantee db) then Inl AlreadyGranted
      else let mount_name = free_mount_name grantee (n_name n) db;
               (i, db1) = now_v7 db;
               g = \<lparr>g_id = i, g_node = n_id n, g_email = grantee, g_access = acc,
                    g_mount_name = mount_name, g_created_by = u_id owner, g_created = now\<rparr>
        in case store_grants (grants db1 @ [g]) db1 of
             Inl e \<Rightarrow> Inl (if e = UniqueViolation ''grants_once_per_address'' then AlreadyGranted else Database e)
           | Inr db2 \<Rightarrow> Inr (\<lparr>gv_id = i, gv_node = n_id n, gv_name = n_name n, gv_kind = n_kind n,
                gv_email = grantee, gv_access = acc, gv_in_trash = False, gv_created = now\<rparr>, db2))"

text \<open>An account that changes its address takes its grants along, one by one.\<close>

definition reassign_one :: "string \<Rightarrow> grant \<Rightarrow> db \<Rightarrow> api_error + db" where
  "reassign_one new g db =
     (case find (\<lambda>e. g_email e = new \<and> g_node e = g_node g) (grants db) of
        Some existing \<Rightarrow>
          let raised = (if may_write_access (g_access g) \<and> \<not> may_write_access (g_access existing)
                then map (\<lambda>e. if g_id e = g_id existing then e\<lparr>g_access := g_access g\<rparr> else e) (grants db)
                else grants db)
          in Inr (db\<lparr>grants := filter (\<lambda>e. g_id e \<noteq> g_id g) raised\<rparr>)
      | None \<Rightarrow>
          let name = free_mount_name new (g_mount_name g) db
          in map_err Database (store_grants (map (\<lambda>e. if g_id e = g_id g
               then e\<lparr>g_email := new, g_mount_name := name\<rparr> else e) (grants db)) db))"

definition reassign :: "string \<Rightarrow> string \<Rightarrow> db \<Rightarrow> api_error + db" where
  "reassign previous new db =
     rfold (reassign_one new) (sort_key g_created (filter (\<lambda>g. g_email g = previous) (grants db))) db"

definition given :: "uuid \<Rightarrow> db \<Rightarrow> given_grant list" where
  "given owner db = List.map_filter (\<lambda>g. case find_node (nodes db) (g_node g) of
       Some n \<Rightarrow> if n_owner n = owner then Some \<lparr>gv_id = g_id g, gv_node = g_node g, gv_name = n_name n,
           gv_kind = n_kind n, gv_email = g_email g, gv_access = g_access g,
           gv_in_trash = is_trashed n, gv_created = g_created g\<rparr> else None
     | None \<Rightarrow> None) (rev (sort_key g_created (grants db)))"

definition received :: "crates \<Rightarrow> string \<Rightarrow> db \<Rightarrow> received_grant list" where
  "received C grantee db = List.map_filter (\<lambda>g. case live_node (g_node g) db of
       Some n \<Rightarrow> (case find (\<lambda>u. u_id u = n_owner n) (users db) of
           Some u \<Rightarrow> Some \<lparr>rv_id = g_id g, rv_name = g_mount_name g, rv_kind = n_kind n,
             rv_access = g_access g, rv_owner_email = u_email u, rv_owner_name = u_display_name u,
             rv_created = g_created g\<rparr>
         | None \<Rightarrow> None)
     | None \<Rightarrow> None)
     (sort_key (\<lambda>g. pg_lower C (g_mount_name g)) (filter (\<lambda>g. g_email g = grantee) (grants db)))"

definition as_mount :: "grant \<Rightarrow> mount" where
  "as_mount g = \<lparr>m_id = g_id g, m_node = g_node g, m_access = g_access g, m_name = g_mount_name g\<rparr>"

definition mounts :: "crates \<Rightarrow> string \<Rightarrow> db \<Rightarrow> (mount \<times> node) list" where
  "mounts C grantee db = List.map_filter
     (\<lambda>g. map_option (\<lambda>n. (as_mount g, n)) (live_node (g_node g) db))
     (sort_key (\<lambda>g. pg_lower C (g_mount_name g)) (filter (\<lambda>g. g_email g = grantee) (grants db)))"

definition mount_named :: "string \<Rightarrow> node_name \<Rightarrow> db \<Rightarrow> api_error + mount \<times> node" where
  "mount_named grantee name db =
     rbind (ok_or NotFound (find (\<lambda>g. g_email g = grantee \<and> g_mount_name g = as_str name) (grants db))) (\<lambda>g.
     rbind (ok_or NotFound (live_node (g_node g) db)) (\<lambda>n. Inr (as_mount g, n)))"

definition withdraw :: "user \<Rightarrow> uuid \<Rightarrow> db \<Rightarrow> api_error + db" where
  "withdraw caller i db =
     (let mine = (\<lambda>g. g_id g = i \<and> (g_email g = u_email caller
          \<or> g_node g \<in> set (map n_id (filter (\<lambda>n. n_owner n = u_id caller) (nodes db)))))
      in if \<not> list_ex mine (grants db) then Inl NotFound
         else Inr (db\<lparr>grants := filter (\<lambda>g. \<not> mine g) (grants db)\<rparr>))"

section \<open>Lemmas\<close>

lemma numbered_fits: "length (decimal k) + 3 \<le> MAX_NAME_LEN \<Longrightarrow> length (numbered w k) \<le> MAX_NAME_LEN"
  using floor_boundary_le [of w "min (MAX_NAME_LEN - length ('' ('' @ decimal k @ '')'')) (length w)"]
  by (auto simp: numbered_def Let_def)

lemma free_name_free: "free_name taken want candidate ordinal \<notin> set taken"
proof (induction taken want candidate ordinal rule: free_name.induct)
  case (1 taken want candidate ordinal)
  then show ?case by (cases "candidate \<in> set taken") (simp_all add: free_name.simps [of taken want candidate])
qed

lemma free_mount_name_free:
  assumes "g \<in> set (grants db)" and "g_email g = grantee"
  shows "g_mount_name g \<noteq> free_mount_name grantee want db"
proof -
  have "g_mount_name g \<in> set (map g_mount_name (filter (\<lambda>g. g_email g = grantee) (grants db)))"
    using assms by simp
  then show ?thesis
    using free_name_free [of "map g_mount_name (filter (\<lambda>g. g_email g = grantee) (grants db))" want want 2]
    unfolding free_mount_name_def by metis
qed

lemma free_name_range:
  "free_name taken want candidate ordinal = candidate
   \<or> (\<exists>k. free_name taken want candidate ordinal = numbered want k
        \<and> k \<le> ordinal + card {j. ordinal \<le> j \<and> numbered want j \<in> set taken})"
proof (induction taken want candidate ordinal rule: free_name.induct)
  case (1 taken want candidate ordinal)
  let ?A = "\<lambda>m. {j. m \<le> j \<and> numbered want j \<in> set taken}"
  let ?r = "free_name taken want (numbered want ordinal) (Suc ordinal)"
  show ?case
  proof (cases "candidate \<in> set taken")
    case False
    then show ?thesis by (simp add: free_name.simps [of taken want candidate])
  next
    case True
    have r: "free_name taken want candidate ordinal = ?r"
      using True by (simp add: free_name.simps [of taken want candidate])
    from 1 [OF True] consider "?r = numbered want ordinal"
      | k where "?r = numbered want k" "k \<le> Suc ordinal + card (?A (Suc ordinal))" "?r \<noteq> numbered want ordinal" by blast
    then show ?thesis
    proof cases
      case 1
      with r show ?thesis by (intro disjI2 exI [of _ ordinal]) simp
    next
      case (2 k)
      have "numbered want ordinal \<in> set taken"
        using 2(3) by (rule_tac ccontr) (simp add: free_name.simps [of taken want "numbered want ordinal"])
      then have "?A ordinal = insert ordinal (?A (Suc ordinal))" by (auto simp: le_eq_less_or_eq)
      then have "card (?A ordinal) = Suc (card (?A (Suc ordinal)))" by (simp add: finite_taken)
      with 2 r show ?thesis by (intro disjI2 exI [of _ k]) simp
    qed
  qed
qed

lemma taken_card: "card {j. m \<le> j \<and> numbered want j \<in> set taken} \<le> length taken"
proof -
  have "card {j. m \<le> j \<and> numbered want j \<in> set taken} \<le> card (set taken)"
    by (rule card_inj_on_le [of "numbered want"]) (auto intro: inj_onI dest: numbered_inj)
  also have "\<dots> \<le> length taken" by (rule card_length)
  finally show ?thesis .
qed

text \<open>With fewer than a billion grants the ordinal stays far below the 32 bits it has.\<close>

lemma free_mount_name_shape:
  "free_mount_name grantee want db = want
   \<or> (\<exists>k. free_mount_name grantee want db = numbered want k \<and> k \<le> length (grants db) + 2)"
proof -
  let ?taken = "map g_mount_name (filter (\<lambda>g. g_email g = grantee) (grants db))"
  have "card {j. 2 \<le> j \<and> numbered want j \<in> set ?taken} \<le> length (grants db)"
    using le_trans [OF taken_card [of 2 want ?taken]] length_filter_le [of "\<lambda>g. g_email g = grantee" "grants db"]
    unfolding length_map by blast
  then have "k \<le> length (grants db) + 2"
    if "k \<le> 2 + card {j. 2 \<le> j \<and> numbered want j \<in> set ?taken}" for k
    using that by linarith
  with free_name_range [of ?taken want want 2] show ?thesis
    unfolding free_mount_name_def by blast
qed

lemma free_mount_name_length:
  assumes "length want \<le> MAX_NAME_LEN" and "length (grants db) < 10 ^ 9"
  shows "length (free_mount_name grantee want db) \<le> MAX_NAME_LEN"
proof -
  have "length (numbered want k) \<le> MAX_NAME_LEN" if "k \<le> length (grants db) + 2" for k
  proof (rule numbered_fits)
    have "k < 10 ^ Suc 9" using that assms(2) by simp
    from decimal_length [OF this] show "length (decimal k) + 3 \<le> MAX_NAME_LEN" by (simp add: MAX_NAME_LEN_def)
  qed
  with free_mount_name_shape [of grantee want db] assms(1) show ?thesis by metis
qed

text \<open>No grant of an address reaches into another one of the same owner.\<close>

definition overlap :: "db \<Rightarrow> grant \<Rightarrow> grant \<Rightarrow> bool" where
  "overlap db g h \<longleftrightarrow> g_email g = g_email h \<and>
     (case (find_node (nodes db) (g_node g), find_node (nodes db) (g_node h)) of
        (Some m, Some n) \<Rightarrow> n_owner m = n_owner n \<and> contains m n db
      | _ \<Rightarrow> False)"

definition unnested :: "db \<Rightarrow> bool" where
  "unnested db \<longleftrightarrow> list_all (\<lambda>g. list_all (\<lambda>h. g_id g \<noteq> g_id h \<longrightarrow> \<not> overlap db g h) (grants db)) (grants db)"

lemma store_grants_eq_Inr:
  "store_grants gs db = Inr db' \<longleftrightarrow> grants_violation db gs = None \<and> db' = db\<lparr>grants := gs\<rparr>"
  by (auto simp: store_grants_def split: option.splits)

lemma grants_violation_None:
  "grants_violation db gs = None \<longleftrightarrow>
     list_all (\<lambda>g. g_mount_name g \<noteq> [] \<and> slash \<notin> set (g_mount_name g)) gs
     \<and> distinct (map g_id gs) \<and> distinct (map (\<lambda>g. (g_node g, g_email g)) gs)
     \<and> distinct (map (\<lambda>g. (g_email g, g_mount_name g)) gs)
     \<and> list_all (\<lambda>g. g_node g \<in> set (map n_id (nodes db))) gs
     \<and> list_all (\<lambda>g. g_created_by g \<in> set (map u_id (users db))) gs"
  by (simp add: grants_violation_def)

lemma contains_grants [simp]: "contains m n (db\<lparr>grants := gs\<rparr>) = contains m n db"
  "contains m n (snd (now_v7 db)) = contains m n db"
  by (simp_all add: contains_def)

lemma overlap_frame:
  "overlap (db\<lparr>grants := gs\<rparr>) g h = overlap db g h" "overlap (snd (now_v7 db)) g h = overlap db g h"
  by (auto simp: overlap_def split: option.splits)

lemma give_Inr:
  assumes "give now owner n grantee acc db = Inr (view, db')"
  obtains g where "db' = (snd (now_v7 db))\<lparr>grants := grants db @ [g]\<rparr>" "grants_ok db'"
    "g_node g = n_id n" "g_email g = grantee" "g_access g = acc" "g_created_by g = u_id owner"
    "g_mount_name g = free_mount_name grantee (n_name n) db" "g_id g = gv_id view"
    "\<And>r. r \<in> set (reached_by (n_owner n) grantee db) \<Longrightarrow> \<not> contains r n db \<and> \<not> contains n r db"
  using assms by (auto simp: give_def Let_def case_prod_unfold store_grants_eq_Inr grants_ok_def
      grants_violation_None list_ex_iff split: if_splits sum.splits)

text \<open>A new grant reaches into no other of its address and account, and none reaches into it.\<close>

lemma give_apart:
  assumes n: "find_node (nodes db) (n_id n) = Some n" and gi: "give now owner n grantee acc db = Inr (view, db')"
  obtains g where "grants db' = grants db @ [g]" "g_id g = gv_id view" "g_node g = n_id n" "g_email g = grantee"
    "g_access g = acc" "list_all (\<lambda>h. \<not> overlap db' g h \<and> \<not> overlap db' h g) (grants db)"
    "\<And>x y. overlap db' x y = overlap db x y"
  using gi
proof (cases rule: give_Inr)
  case (1 g)
  have e: "overlap db' x y = overlap db x y" for x y by (simp add: 1(1) overlap_frame)
  have "\<not> overlap db g h \<and> \<not> overlap db h g" if "h \<in> set (grants db)" for h
  proof (cases "g_email h = grantee")
    case True
    show ?thesis
    proof (cases "find_node (nodes db) (g_node h)")
      case None
      then show ?thesis by (simp add: overlap_def split: option.splits)
    next
      case (Some m)
      have "m \<in> set (reached_by (n_owner n) grantee db)" if "n_owner m = n_owner n"
        using find_node_Some [OF Some] True that \<open>h \<in> set (grants db)\<close> by (auto simp: reached_by_def)
      with 1(9) have "n_owner m = n_owner n \<longrightarrow> \<not> contains m n db \<and> \<not> contains n m db" by blast
      with Some n 1(3) show ?thesis by (auto simp: overlap_def)
    qed
  next
    case False
    with 1(4) show ?thesis by (auto simp: overlap_def)
  qed
  with 1 e show thesis by (intro that [of g]) (auto simp: list_all_iff)
qed

lemma give_unnested:
  assumes u: "unnested db" and n: "find_node (nodes db) (n_id n) = Some n"
    and gi: "give now owner n grantee acc db = Inr (view, db')"
  shows "unnested db'"
proof -
  from give_apart [OF n gi] obtain g where g: "grants db' = grants db @ [g]"
    "list_all (\<lambda>h. \<not> overlap db' g h \<and> \<not> overlap db' h g) (grants db)" "\<And>x y. overlap db' x y = overlap db x y" by metis
  with u show ?thesis by (auto simp: unnested_def list_all_iff)
qed

lemma give_sound: "give now owner n grantee acc db = Inr (view, db') \<Longrightarrow> sound db' = sound db"
  by (erule give_Inr) simp

lemma reassign_one_sound: "reassign_one new g db = Inr db' \<Longrightarrow> sound db' = sound db"
  by (auto simp: reassign_one_def Let_def store_grants_eq_Inr map_err_eq_Inr split: option.splits)

lemma reassign_sound:
  assumes "reassign previous new db = Inr db'" and "sound db"
  shows "sound db'"
  using rfold_invariant [where P = sound, OF assms(1) [unfolded reassign_def] assms(2)] reassign_one_sound by blast

lemma withdraw_sound: "withdraw caller i db = Inr db' \<Longrightarrow> sound db' = sound db"
  by (auto simp: withdraw_def Let_def split: if_splits)

text \<open>An address that changes keeps what it could reach, and leaves no grant behind.\<close>

definition reaches_as :: "string \<Rightarrow> grant \<Rightarrow> db \<Rightarrow> bool" where
  "reaches_as address g db \<longleftrightarrow> (\<exists>h\<in>set (grants db). g_email h = address \<and> g_node h = g_node g
     \<and> (g_access g = Write \<longrightarrow> g_access h = Write))"

lemma may_write_access_iff: "may_write_access a \<longleftrightarrow> a = Write"
  by (cases a) simp_all

lemma reassign_one_step:
  assumes r: "reassign_one new g db = Inr db'" and d: "distinct (map g_id (grants db))"
    and g: "g \<in> set (grants db)" "g_email g = previous" and ne: "previous \<noteq> new"
  shows "distinct (map g_id (grants db'))" and "reaches_as new g db'"
    and "\<And>h. h \<in> set (grants db) \<Longrightarrow> g_email h = previous \<Longrightarrow> g_id h \<noteq> g_id g \<Longrightarrow> h \<in> set (grants db')"
    and "\<And>h. h \<in> set (grants db') \<Longrightarrow> g_email h = previous \<Longrightarrow> h \<in> set (grants db) \<and> g_id h \<noteq> g_id g"
    and "\<And>k. reaches_as new k db \<Longrightarrow> reaches_as new k db'"
proof -
  have "distinct (map g_id (grants db')) \<and> reaches_as new g db'
    \<and> (\<forall>h. h \<in> set (grants db) \<longrightarrow> g_email h = previous \<longrightarrow> g_id h \<noteq> g_id g \<longrightarrow> h \<in> set (grants db'))
    \<and> (\<forall>h. h \<in> set (grants db') \<longrightarrow> g_email h = previous \<longrightarrow> h \<in> set (grants db) \<and> g_id h \<noteq> g_id g)
    \<and> (\<forall>k. reaches_as new k db \<longrightarrow> reaches_as new k db')"
  proof (cases "find (\<lambda>e. g_email e = new \<and> g_node e = g_node g) (grants db)")
    case None
    then obtain name where db': "grants db' = map (\<lambda>e. if g_id e = g_id g
        then e\<lparr>g_email := new, g_mount_name := name\<rparr> else e) (grants db)"
      using r by (auto simp: reassign_one_def Let_def store_grants_eq_Inr map_err_eq_Inr)
    let ?f = "\<lambda>e. if g_id e = g_id g then e\<lparr>g_email := new, g_mount_name := name\<rparr> else e"
    have "map g_id (grants db') = map g_id (grants db)" by (simp add: db')
    then have "distinct (map g_id (grants db'))" using d by simp
    moreover have "?f g \<in> set (grants db')" unfolding db' set_map by (rule imageI [OF g(1)])
    then have "reaches_as new g db'" unfolding reaches_as_def by (rule bexI [rotated]) simp
    moreover have "reaches_as new k db'" if k: "reaches_as new k db" for k
    proof -
      from k obtain h where h: "h \<in> set (grants db)" "g_email h = new" "g_node h = g_node k"
        "g_access k = Write \<longrightarrow> g_access h = Write" by (auto simp: reaches_as_def)
      have "?f h \<in> set (grants db')" unfolding db' set_map by (rule imageI [OF h(1)])
      then show ?thesis unfolding reaches_as_def by (rule bexI [rotated]) (use h in simp)
    qed
    ultimately show ?thesis using ne by (auto simp: db')
  next
    case (Some x)
    from find_Some_set [OF Some] have x: "x \<in> set (grants db)" "g_email x = new" "g_node x = g_node g" by auto
    let ?f = "\<lambda>e. if g_id e = g_id x \<and> may_write_access (g_access g) \<and> \<not> may_write_access (g_access x)
        then e\<lparr>g_access := g_access g\<rparr> else e"
    have db': "grants db' = filter (\<lambda>e. g_id e \<noteq> g_id g) (map ?f (grants db))"
      using r Some by (auto simp: reassign_one_def Let_def intro: filter_cong)
    have only: "h = x" if "h \<in> set (grants db)" "g_id h = g_id x" for h
      using distinct_key_eq [OF d that(1) x(1) that(2)] .
    have xg: "g_id x \<noteq> g_id g" using distinct_key_eq [OF d x(1) g(1)] x(2) g(2) ne by auto
    have e: "map g_id (map ?f (grants db)) = map g_id (grants db)" by simp
    have "distinct (map g_id (map ?f (grants db)))" unfolding e by (rule d)
    then have "distinct (map g_id (grants db'))" unfolding db' by (rule distinct_map_filterI)
    moreover have m: "?f h \<in> set (grants db')" if "h \<in> set (grants db)" "g_id h \<noteq> g_id g" for h
      using that by (auto simp: db')
    have "reaches_as new g db'" unfolding reaches_as_def
      by (rule bexI [OF _ m [OF x(1) xg]]) (use x in \<open>simp add: may_write_access_iff\<close>)
    moreover have "reaches_as new k db'" if k: "reaches_as new k db" for k
    proof -
      from k obtain h where h: "h \<in> set (grants db)" "g_email h = new" "g_node h = g_node k"
        "g_access k = Write \<longrightarrow> g_access h = Write" by (auto simp: reaches_as_def)
      have "g_id h \<noteq> g_id g" using distinct_key_eq [OF d h(1) g(1)] h(2) g(2) ne by auto
      show ?thesis unfolding reaches_as_def
        by (rule bexI [OF _ m [OF h(1) \<open>g_id h \<noteq> g_id g\<close>]]) (use h only [OF h(1)] in \<open>auto simp: may_write_access_iff\<close>)
    qed
    moreover have "h \<in> set (grants db')" if "h \<in> set (grants db)" "g_email h = previous" "g_id h \<noteq> g_id g" for h
    proof -
      have "g_id h \<noteq> g_id x" using only [OF that(1)] x(2) that(2) ne by auto
      with m [OF that(1,3)] show ?thesis by simp
    qed
    moreover have "h \<in> set (grants db) \<and> g_id h \<noteq> g_id g" if "h \<in> set (grants db')" "g_email h = previous" for h
    proof -
      from that obtain h0 where h0: "h0 \<in> set (grants db)" "h = ?f h0" "g_id h \<noteq> g_id g" by (auto simp: db')
      then have "g_id h0 \<noteq> g_id x" using only [OF h0(1)] x(2) that(2) ne by (auto split: if_splits)
      with h0 show ?thesis by simp
    qed
    ultimately show ?thesis by blast
  qed
  then show "distinct (map g_id (grants db'))" "reaches_as new g db'"
    "\<And>h. h \<in> set (grants db) \<Longrightarrow> g_email h = previous \<Longrightarrow> g_id h \<noteq> g_id g \<Longrightarrow> h \<in> set (grants db')"
    "\<And>h. h \<in> set (grants db') \<Longrightarrow> g_email h = previous \<Longrightarrow> h \<in> set (grants db) \<and> g_id h \<noteq> g_id g"
    "\<And>k. reaches_as new k db \<Longrightarrow> reaches_as new k db'" by blast+
qed

lemma reassign_fold:
  "rfold (reassign_one new) gs db = Inr db' \<Longrightarrow> previous \<noteq> new \<Longrightarrow> distinct (map g_id (grants db)) \<Longrightarrow>
   distinct (map g_id gs) \<Longrightarrow> (\<forall>g\<in>set gs. g \<in> set (grants db) \<and> g_email g = previous) \<Longrightarrow>
   (\<forall>g\<in>set gs. reaches_as new g db') \<and> (\<forall>k. reaches_as new k db \<longrightarrow> reaches_as new k db')
   \<and> (\<forall>h\<in>set (grants db'). g_email h = previous \<longrightarrow> h \<in> set (grants db) \<and> g_id h \<notin> g_id ` set gs)"
proof (induction gs arbitrary: db)
  case Nil
  then show ?case by simp
next
  case (Cons g gs)
  from Cons.prems(1) obtain db1 where one: "reassign_one new g db = Inr db1"
    and rest: "rfold (reassign_one new) gs db1 = Inr db'" by (auto simp: rbind_eq_Inr)
  from Cons.prems(5) have g: "g \<in> set (grants db)" "g_email g = previous" by auto
  note st = reassign_one_step [OF one Cons.prems(3) g Cons.prems(2)]
  have "g_id h \<noteq> g_id g" if "h \<in> set gs" for h using Cons.prems(4) that by (auto simp: image_iff)
  then have "\<forall>h\<in>set gs. h \<in> set (grants db1) \<and> g_email h = previous"
    using Cons.prems(5) st(3) by auto
  from Cons.IH [OF rest Cons.prems(2) st(1) _ this] Cons.prems(4)
  have r: "\<forall>h\<in>set gs. reaches_as new h db'" "\<forall>k. reaches_as new k db1 \<longrightarrow> reaches_as new k db'"
    "\<forall>h\<in>set (grants db'). g_email h = previous \<longrightarrow> h \<in> set (grants db1) \<and> g_id h \<notin> g_id ` set gs" by auto
  show ?case using r st(2,4,5) by auto
qed

lemma reassign_keeps_reach:
  assumes r: "reassign previous new db = Inr db'" and ne: "previous \<noteq> new" and ok: "grants_ok db"
  shows "\<And>g. g \<in> set (grants db) \<Longrightarrow> g_email g = previous \<Longrightarrow> reaches_as new g db'"
    and "\<And>h. h \<in> set (grants db') \<Longrightarrow> g_email h \<noteq> previous"
proof -
  let ?gs = "sort_key g_created (filter (\<lambda>g. g_email g = previous) (grants db))"
  have d: "distinct (map g_id (grants db))" using ok by (simp add: grants_ok_def grants_violation_None)
  have "distinct (map g_id ?gs)"
    using distinct_map_filterI [OF d, of "\<lambda>g. g_email g = previous"] by (simp add: distinct_map)
  from reassign_fold [OF r [unfolded reassign_def] ne d this]
  have f: "\<forall>g\<in>set ?gs. reaches_as new g db'"
    "\<forall>h\<in>set (grants db'). g_email h = previous \<longrightarrow> h \<in> set (grants db) \<and> g_id h \<notin> g_id ` set ?gs" by auto
  show "\<And>g. g \<in> set (grants db) \<Longrightarrow> g_email g = previous \<Longrightarrow> reaches_as new g db'" using f(1) by auto
  show "\<And>h. h \<in> set (grants db') \<Longrightarrow> g_email h \<noteq> previous" using f(2) by auto
qed

end
