(* ===== verification/Access.thy ===== *)
theory Access
  imports Grants
begin

text \<open>
  Who reaches what: \<open>api/src/access.rs\<close>. A path is resolved in the caller's own tree, or, below
  \<open>Shared with me\<close>, in what a grant mounts. The lemmas state that a lookup never leaves the two.
\<close>

section \<open>Places\<close>

datatype place = Own node | SharedWithMe | Shared node mount bool

fun writable :: "place \<Rightarrow> bool" where
  "writable (Own n) = True"
| "writable SharedWithMe = False"
| "writable (Shared n m at_mount) = may_write_access (m_access m)"

fun into_movable :: "place \<Rightarrow> api_error + node" where
  "into_movable (Own n) = Inr n"
| "into_movable (Shared n m at_mount) = (if at_mount then Inl Forbidden else Inr n)"
| "into_movable SharedWithMe = Inl Forbidden"

fun into_node :: "place \<Rightarrow> api_error + node" where
  "into_node (Own n) = Inr n"
| "into_node (Shared n m at_mount) = Inr (if at_mount then n\<lparr>n_name := m_name m\<rparr> else n)"
| "into_node SharedWithMe = Inl (WrongKind ''file'')"

definition is_shelf :: "node_name \<Rightarrow> bool" where
  "is_shelf segment \<longleftrightarrow> as_str segment = SHARED_WITH_ME"

definition locate :: "crates \<Rightarrow> timestamp \<Rightarrow> user \<Rightarrow> node_name list \<Rightarrow> int \<Rightarrow> db \<Rightarrow> api_error + place \<times> db" where
  "locate C now caller path quota db =
     (if path \<noteq> [] \<and> is_shelf (hd path)
      then (case tl path of
          [] \<Rightarrow> Inr (SharedWithMe, db)
        | mount_name # below_mount \<Rightarrow>
            rbind (mount_named (u_email caller) mount_name db) (\<lambda>(m, start).
            rbind (resolve start below_mount db) (\<lambda>n. Inr (Shared n m (below_mount = []), db))))
      else rbind (ensure_root C now (u_id caller) quota db) (\<lambda>(root, db1).
        rbind (resolve root path db1) (\<lambda>n. Inr (Own n, db1))))"

definition locate_writable :: "crates \<Rightarrow> timestamp \<Rightarrow> user \<Rightarrow> node_name list \<Rightarrow> int \<Rightarrow> db \<Rightarrow> api_error + place \<times> db" where
  "locate_writable C now caller path quota db =
     rbind (locate C now caller path quota db) (\<lambda>(place, db1).
       if writable place then Inr (place, db1) else Inl Forbidden)"

definition directory_for_write ::
    "crates \<Rightarrow> timestamp \<Rightarrow> user \<Rightarrow> node_name list \<Rightarrow> bool \<Rightarrow> int \<Rightarrow> db \<Rightarrow> api_error + node \<times> db" where
  "directory_for_write C now caller path create quota db =
     rbind (if path \<noteq> [] \<and> is_shelf (hd path)
        then (case tl path of
            [] \<Rightarrow> Inl Forbidden
          | mount_name # below_mount \<Rightarrow>
              rbind (mount_named (u_email caller) mount_name db) (\<lambda>(m, start).
                if may_write_access (m_access m) then Inr (start, below_mount, db) else Inl Forbidden))
        else rbind (ensure_root C now (u_id caller) quota db) (\<lambda>(root, db1). Inr (root, path, db1)))
     (\<lambda>(start, rest, db1).
     rbind (if create then create_directories C now (n_owner start) start rest db1
        else rbind (resolve start rest db1) (\<lambda>n. Inr (n, db1)))
     (\<lambda>(dir, db2). if n_kind dir = Directory then Inr (dir, db2) else Inl (WrongKind ''directory'')))"

definition refuse_reserved :: "node \<Rightarrow> node_name \<Rightarrow> api_error + unit" where
  "refuse_reserved dir name =
     (if n_parent dir = None \<and> is_shelf name then Inl (Conflict SHARED_WITH_ME) else Inr ())"

definition file_target ::
    "crates \<Rightarrow> timestamp \<Rightarrow> user \<Rightarrow> node_name list \<Rightarrow> bool \<Rightarrow> int \<Rightarrow> db \<Rightarrow> api_error + node \<times> node_name \<times> db" where
  "file_target C now caller path create quota db =
     (if length path = 2 \<and> is_shelf (hd path)
      then rbind (mount_named (u_email caller) (path ! 1) db) (\<lambda>(m, n).
        if \<not> may_write_access (m_access m) then Inl Forbidden
        else if n_kind n = Directory then Inl (Conflict (m_name m))
        else rbind (ok_or NotFound (n_parent n)) (\<lambda>i.
          rbind (ok_or NotFound (live_node i db)) (\<lambda>dir.
          rbind (map_err InvalidPath (node_name_from_str (n_name n))) (\<lambda>name.
            Inr (dir, name, db)))))
      else if path = [] then Inl (WrongKind ''file path'')
      else rbind (directory_for_write C now caller (butlast path) create quota db) (\<lambda>(dir, db1).
        rbind (refuse_reserved dir (last path)) (\<lambda>_. Inr (dir, last path, db1))))"

definition quota_holder :: "crates \<Rightarrow> timestamp \<Rightarrow> user \<Rightarrow> node_name list \<Rightarrow> int \<Rightarrow> db \<Rightarrow> api_error + uuid \<times> db" where
  "quota_holder C now caller path quota db =
     (if path \<noteq> [] \<and> is_shelf (hd path)
      then (case tl path of
          [] \<Rightarrow> Inl (Conflict SHARED_WITH_ME)
        | mount_name # _ \<Rightarrow>
            rbind (mount_named (u_email caller) mount_name db) (\<lambda>(m, start).
              if may_write_access (m_access m) then Inr (n_owner start, db) else Inl Forbidden))
      else rbind (ensure_root C now (u_id caller) quota db) (\<lambda>(root, db1). Inr (u_id caller, db1)))"

subsection \<open>The shelf\<close>

text \<open>The sixteen bytes of a \<open>Uuid\<close>, most significant first, and back; \<open>from_custom_bytes\<close> sets the
version to 8 and the variant bits.\<close>

definition uuid_bytes :: "uuid \<Rightarrow> string" where
  "uuid_bytes i = map (\<lambda>k. char_of (i div 256 ^ (15 - k) mod 256)) [0..<16]"

definition bytes_uuid :: "nat list \<Rightarrow> uuid" where
  "bytes_uuid = foldl (\<lambda>v b. 256 * v + b) 0"

definition from_custom_bytes :: "nat list \<Rightarrow> uuid" where
  "from_custom_bytes bs = bytes_uuid (bs[6 := bs ! 6 mod 16 + 128, 8 := bs ! 8 mod 64 + 128])"

definition shelf_id :: "crates \<Rightarrow> uuid \<Rightarrow> uuid" where
  "shelf_id C owner = from_custom_bytes (map unat (take 16 (blake3 C (''shared-with-me:'' @ uuid_bytes owner))))"

definition shelf :: "crates \<Rightarrow> user \<Rightarrow> node \<Rightarrow> db \<Rightarrow> (node \<times> (node \<times> access) list) option" where
  "shelf C caller root db =
     (let ms = mounts C (u_email caller) db; i = shelf_id C (u_id caller) in
      if ms = [] then None
      else Some (\<lparr>n_id = i, n_owner = u_id caller, n_parent = Some (n_id root), n_name = SHARED_WITH_ME,
           n_kind = Directory, n_blob = None, n_size = 0,
           n_etag = quoted (take 32 (hex_encode C (blake3 C (concat
             (map (\<lambda>(m, n). uuid_bytes (m_id m) @ m_name m @ n_etag n) ms))))),
           n_created = n_created root,
           n_updated = foldl max (n_created root) (map (\<lambda>(m, n). n_updated n) ms),
           n_deleted = None, n_trash_root = None\<rparr>,
         map (\<lambda>(m, n). (n\<lparr>n_name := m_name m, n_parent := Some i\<rparr>, m_access m)) ms))"

section \<open>A lookup stays below where it starts\<close>

lemma resolve_below:
  "resolve start path db = Inr n \<Longrightarrow> (n_id n, n_id start) \<in> (below live (nodes db))\<^sup>*
     \<and> (n = start \<or> (n \<in> set (nodes db) \<and> live n))"
proof (induction path arbitrary: start)
  case Nil
  then show ?case by simp
next
  case (Cons x path)
  then obtain c where c: "child (n_id start) x db = Some c" and r: "resolve c path db = Inr n"
    by (auto simp: rbind_eq_Inr)
  note ch = child_Some [OF c]
  have "(n_id c, n_id start) \<in> below live (nodes db)" using ch by (auto simp: below_def)
  with Cons.IH [OF r] ch show ?case by (auto intro: rtrancl_into_rtrancl)
qed

lemma mount_named_Inr:
  assumes "mount_named email name db = Inr (m, start)"
  shows "\<exists>g\<in>set (grants db). g_email g = email \<and> g_access g = m_access m \<and> g_node g = n_id start"
    and "start \<in> set (nodes db)" and "live start"
proof -
  from assms obtain g where g: "find (\<lambda>g. g_email g = email \<and> g_mount_name g = as_str name) (grants db) = Some g"
    and l: "live_node (g_node g) db = Some start" and m: "m = as_mount g"
    by (auto simp: mount_named_def rbind_eq_Inr)
  have t: "start \<in> set (nodes db) \<and> n_id start = g_node g \<and> live start"
    using l unfolding live_node_def by (drule_tac find_Some_set) simp
  from find_Some_set [OF g] t m
  show "\<exists>g\<in>set (grants db). g_email g = email \<and> g_access g = m_access m \<and> g_node g = n_id start"
    by (auto simp: as_mount_def)
  show "start \<in> set (nodes db)" "live start" using t by simp_all
qed

text \<open>What a caller may see, and what a caller may change.\<close>

definition may_see :: "user \<Rightarrow> node \<Rightarrow> db \<Rightarrow> bool" where
  "may_see caller n db \<longleftrightarrow> n_owner n = u_id caller
     \<or> (\<exists>g\<in>set (grants db). g_email g = u_email caller \<and> (n_id n, g_node g) \<in> (below live (nodes db))\<^sup>*)"

definition may_change :: "user \<Rightarrow> node \<Rightarrow> db \<Rightarrow> bool" where
  "may_change caller n db \<longleftrightarrow> n_owner n = u_id caller
     \<or> (\<exists>g\<in>set (grants db). g_email g = u_email caller \<and> g_access g = Write
          \<and> (n_id n, g_node g) \<in> (below live (nodes db))\<^sup>*)"

lemma may_change_see: "may_change caller n db \<Longrightarrow> may_see caller n db"
  by (auto simp: may_change_def may_see_def)

text \<open>Creating the root leaves the grants alone.\<close>

lemma ensure_root_grants:
  assumes "ensure_root C now owner quota db = Inr (root, db')"
  shows "grants db' = grants db" and "n_owner root = owner" and "live root"
proof -
  obtain db1 where q: "insert_quota owner quota db = Inr db1"
    using assms by (auto simp: ensure_root_def rbind_eq_Inr)
  let ?db3 = "snd (now_v7 (snd (now_v7 db1)))"
  have "db' = ?db3 \<or> (\<exists>m. insert_node m ?db3 = Inr db')"
    using assms q by (auto simp: ensure_root_def rbind_eq_Inr case_prod_unfold Let_def
        split: sum.splits db_error.splits)
  then have "grants db' = grants db1" by (auto simp: insert_node_def store_nodes_eq_Inr)
  moreover have "grants db1 = grants db" using q by (auto simp: insert_quota_def split: if_splits)
  ultimately show "grants db' = grants db" by simp
  have "find (\<lambda>n. n_owner n = owner \<and> n_parent n = None \<and> live n) (nodes db') = Some root"
    using assms by (auto simp: ensure_root_def rbind_eq_Inr case_prod_unfold Let_def)
  from find_Some_set [OF this] show "n_owner root = owner" "live root" by auto
qed

lemma same_owner_below:
  assumes s: "sound db" and "(n_id n, n_id start) \<in> (below live (nodes db))\<^sup>*" and "n \<in> set (nodes db)"
    and "start \<in> set (nodes db)"
  shows "n_owner n = n_owner start"
  using assms(2,3)
proof (induction "n_id n" arbitrary: n rule: converse_rtrancl_induct)
  case base
  with distinct_key_eq [OF soundD(6) [OF s] base(2) assms(4)] show ?case by simp
next
  case (step j)
  from step(1) obtain m where m: "m \<in> set (nodes db)" "n_id m = n_id n" "n_parent m = Some j" by (auto simp: below_def)
  with distinct_key_eq [OF soundD(6) [OF s] m(1) step(4)] have np: "n_parent n = Some j" by simp
  from nodes_ok_parent [OF soundD(5) [OF s] step(4) np] obtain p where p: "p \<in> set (nodes db)" "n_id p = j" by auto
  with tree_rows_hangs [OF soundD(7) [OF s] step(4) p(1)] np have "n_owner p = n_owner n" by (simp add: hangs_def)
  with step(3) [of p] p show ?case by simp
qed

lemma locate_sound:
  assumes s: "sound db" and l: "locate C now caller path quota db = Inr (place, db')"
  shows "sound db' \<and> (\<exists>ns. nodes db' = nodes db @ ns) \<and> grants db' = grants db
    \<and> (case place of
        Own n \<Rightarrow> n \<in> set (nodes db') \<and> live n \<and> n_owner n = u_id caller
      | SharedWithMe \<Rightarrow> True
      | Shared n m at_mount \<Rightarrow> n \<in> set (nodes db') \<and> live n \<and> may_see caller n db'
          \<and> (m_access m = Write \<longrightarrow> may_change caller n db'))"
proof (cases "path \<noteq> [] \<and> is_shelf (hd path)")
  case True
  show ?thesis
  proof (cases "tl path")
    case Nil
    with l True s show ?thesis by (auto simp: locate_def)
  next
    case (Cons mount_name rest)
    with l True obtain m start n where mn: "mount_named (u_email caller) mount_name db = Inr (m, start)"
      and r: "resolve start rest db = Inr n" and e: "place = Shared n m (rest = [])" "db' = db"
      by (auto simp: locate_def rbind_eq_Inr)
    note mo = mount_named_Inr [OF mn] and re = resolve_below [OF r]
    have "n \<in> set (nodes db) \<and> live n" using re mo by auto
    moreover have "may_see caller n db" using mo(1) re by (auto simp: may_see_def)
    moreover have "m_access m = Write \<longrightarrow> may_change caller n db" using mo(1) re by (auto simp: may_change_def)
    ultimately show ?thesis using s by (simp add: e)
  qed
next
  case False
  with l obtain root n where er: "ensure_root C now (u_id caller) quota db = Inr (root, db')"
    and r: "resolve root path db' = Inr n" and e: "place = Own n"
    by (auto simp: locate_def rbind_eq_Inr)
  note en = ensure_root_sound [OF s er] and eg = ensure_root_grants [OF er] and re = resolve_below [OF r]
  have n: "n \<in> set (nodes db') \<and> live n" using re en(3) eg(3) by auto
  then have "n_owner n = u_id caller" using same_owner_below [OF en(1) _ _ en(3)] re eg(2) by auto
  with n en eg(1) show ?thesis by (auto simp: e)
qed

lemma below_append: "nodes db' = nodes db @ ns \<Longrightarrow> (i, j) \<in> (below Q (nodes db))\<^sup>* \<Longrightarrow> (i, j) \<in> (below Q (nodes db'))\<^sup>*"
  by (rule rtrancl_mono [THEN subsetD, rotated]) (auto simp: below_def)

lemma insert_directory_grants:
  "insert_directory C now owner i name db = Inr (n, db') \<Longrightarrow> grants db' = grants db"
  by (auto simp: insert_directory_def case_prod_unfold Let_def insert_node_def store_nodes_def
      split: sum.splits if_splits option.splits)

lemma create_segments_below:
  "create_segments C now owner cur path db = Inr (n, db') \<Longrightarrow> sound db \<Longrightarrow> home owner (n_id cur) db \<Longrightarrow>
   cur \<in> set (nodes db) \<Longrightarrow> (n_id n, n_id cur) \<in> (below live (nodes db'))\<^sup>* \<and> grants db' = grants db
     \<and> (live cur \<longrightarrow> live n) \<and> (n_kind cur = Directory \<longrightarrow> n_kind n = Directory)"
proof (induction C now owner cur path db rule: create_segments.induct)
  case (1 C now owner cur db)
  then show ?case by auto
next
  case (2 C now owner cur segment rest db)
  from 2(2) obtain m db1 where m: "(case child (n_id cur) segment db of
         Some existing \<Rightarrow> (if n_kind existing = Directory then Inr (existing, db)
           else Inl (Conflict (as_str segment)))
       | None \<Rightarrow> insert_directory C now owner (n_id cur) segment db) = Inr (m, db1)"
    and rest: "create_segments C now owner m rest db1 = Inr (n, db')"
    by (auto simp: rbind_eq_Inr)
  have step: "sound db1 \<and> m \<in> set (nodes db1) \<and> n_parent m = Some (n_id cur) \<and> live m
      \<and> n_kind m = Directory \<and> (\<exists>ns. nodes db1 = nodes db @ ns) \<and> grants db1 = grants db"
  proof (cases "child (n_id cur) segment db")
    case None
    with m have i: "insert_directory C now owner (n_id cur) segment db = Inr (m, db1)" by simp
    show ?thesis using insert_directory_sound [OF 2(3,4) i] insert_directory_grants [OF i] by blast
  next
    case (Some e)
    with m have "db1 = db" "m = e" "n_kind e = Directory" by (auto split: if_splits)
    with child_Some [OF Some] 2(3) show ?thesis by auto
  qed
  then obtain ns where ns: "nodes db1 = nodes db @ ns" by blast
  have "home owner (n_id cur) db1" by (rule home_append [OF 2(4) ns])
  with step have "n_owner m = owner" using child_owner by blast
  with step homeI [of db1 m] have hm: "home owner (n_id m) db1" by simp
  have s1: "sound db1" and m1: "m \<in> set (nodes db1)" using step by auto
  from 2(1) [OF rest s1 hm m1] have r: "(n_id n, n_id m) \<in> (below live (nodes db'))\<^sup>*" "grants db' = grants db1"
    "live m \<longrightarrow> live n" "n_kind m = Directory \<longrightarrow> n_kind n = Directory" by auto
  from create_segments_sound [OF rest s1 hm m1] obtain ns' where "nodes db' = nodes db1 @ ns'" by blast
  then have "m \<in> set (nodes db')" using m1 by simp
  then have "(n_id m, n_id cur) \<in> below live (nodes db')" using step by (auto simp: below_def)
  with r step show ?case by (auto intro: rtrancl_into_rtrancl)
qed

text \<open>A directory to write in is a live directory the caller may change.\<close>

lemma directory_for_write_sound:
  assumes s: "sound db" and d: "directory_for_write C now caller path create quota db = Inr (dir, db')"
  shows "sound db'" and "\<exists>ns. nodes db' = nodes db @ ns" and "grants db' = grants db"
    and "dir \<in> set (nodes db')" and "live dir" and "n_kind dir = Directory" and "may_change caller dir db'"
proof -
  obtain x where st0: "(if path \<noteq> [] \<and> is_shelf (hd path)
        then (case tl path of
            [] \<Rightarrow> Inl Forbidden
          | mount_name # below_mount \<Rightarrow>
              rbind (mount_named (u_email caller) mount_name db) (\<lambda>(m, start).
                if may_write_access (m_access m) then Inr (start, below_mount, db) else Inl Forbidden))
        else rbind (ensure_root C now (u_id caller) quota db) (\<lambda>(root, db1). Inr (root, path, db1))) = Inr x"
    and go0: "(case x of (start, rest, db1) \<Rightarrow>
        rbind (if create then create_directories C now (n_owner start) start rest db1
          else rbind (resolve start rest db1) (\<lambda>n. Inr (n, db1)))
        (\<lambda>(dir, db2). if n_kind dir = Directory then Inr (dir, db2) else Inl (WrongKind ''directory''))) = Inr (dir, db')"
    by (rule rbindE [OF d [unfolded directory_for_write_def]])
  obtain start rest db1 where x: "x = (start, rest, db1)" by (metis prod_cases3)
  note st = st0 [unfolded x]
  obtain y where go1: "(if create then create_directories C now (n_owner start) start rest db1
          else rbind (resolve start rest db1) (\<lambda>n. Inr (n, db1))) = Inr y"
    and k0: "(case y of (dir, db2) \<Rightarrow> if n_kind dir = Directory then Inr (dir, db2)
      else Inl (WrongKind ''directory'')) = Inr (dir, db')"
    by (rule rbindE [OF go0 [unfolded x prod.case]])
  have y: "y = (dir, db')" and k: "n_kind dir = Directory" using k0 by (auto split: prod.splits if_splits)
  note go = go1 [unfolded y]
  have start: "sound db1 \<and> (\<exists>ns. nodes db1 = nodes db @ ns) \<and> grants db1 = grants db
      \<and> start \<in> set (nodes db1) \<and> live start \<and> may_change caller start db1"
  proof (cases "path \<noteq> [] \<and> is_shelf (hd path)")
    case True
    then obtain mount_name below_mount where tp: "tl path = mount_name # below_mount"
      using st by (cases "tl path") simp_all
    have "rbind (mount_named (u_email caller) mount_name db) (\<lambda>(m, start).
        if may_write_access (m_access m) then Inr (start, below_mount, db) else Inl Forbidden)
      = Inr (start, rest, db1)" using st unfolding if_P [OF True] tp list.case .
    then obtain z where z: "mount_named (u_email caller) mount_name db = Inr z"
      "(case z of (m, start) \<Rightarrow> if may_write_access (m_access m) then Inr (start, below_mount, db)
        else Inl Forbidden) = Inr (start, rest, db1)" by (rule rbindE)
    obtain m found where zz: "z = (m, found)" by (cases z)
    have w: "may_write_access (m_access m)" using z(2) unfolding zz by (simp split: if_splits)
    with z(2) have e: "found = start" "db1 = db" unfolding zz by simp_all
    have mn: "mount_named (u_email caller) mount_name db = Inr (m, start)" using z(1) zz e(1) by simp
    note mo = mount_named_Inr [OF mn]
    have "may_change caller start db" using mo(1) w by (auto simp: may_change_def may_write_access_iff)
    with mo s show ?thesis by (simp add: e)
  next
    case False
    then have er: "ensure_root C now (u_id caller) quota db = Inr (start, db1)"
      using st by (auto simp: rbind_eq_Inr)
    from ensure_root_sound [OF s er] ensure_root_grants [OF er] show ?thesis by (auto simp: may_change_def)
  qed
  have r: "sound db' \<and> (\<exists>ns. nodes db' = nodes db1 @ ns) \<and> grants db' = grants db1 \<and> dir \<in> set (nodes db')
      \<and> live dir \<and> (n_id dir, n_id start) \<in> (below live (nodes db'))\<^sup>*"
  proof (cases create)
    case True
    then have cd: "create_directories C now (n_owner start) start rest db1 = Inr (dir, db')" using go by simp
    have sd: "n_kind start = Directory"
      using cd k by (auto simp: create_directories_def split: if_splits)
    then have h: "home (n_owner start) (n_id start) db1" using homeI start by blast
    have cs: "create_segments C now (n_owner start) start rest db1 = Inr (dir, db')"
      using cd by (simp add: create_directories_def split: if_splits)
    from create_segments_sound [OF cs] create_segments_below [OF cs] h start show ?thesis by auto
  next
    case False
    then have re: "resolve start rest db1 = Inr dir" "db' = db1" using go by (auto simp: rbind_eq_Inr)
    with resolve_below [OF re(1)] start show ?thesis by auto
  qed
  show "sound db'" "dir \<in> set (nodes db')" "live dir" "n_kind dir = Directory"
    "\<exists>ns. nodes db' = nodes db @ ns" "grants db' = grants db" using r start k by auto
  have "start \<in> set (nodes db')" using r start by auto
  then have o: "n_owner dir = n_owner start" using same_owner_below [of db' dir start] r by blast
  from start have "may_change caller start db1" by blast
  then consider "n_owner start = u_id caller" | g where "g \<in> set (grants db1)" "g_email g = u_email caller"
    "g_access g = Write" "(n_id start, g_node g) \<in> (below live (nodes db1))\<^sup>*"
    by (auto simp: may_change_def)
  then show "may_change caller dir db'"
  proof cases
    case 1
    with o show ?thesis by (simp add: may_change_def)
  next
    case 2
    from r obtain ns where "nodes db' = nodes db1 @ ns" by blast
    from below_append [OF this 2(4)] r have "(n_id dir, g_node g) \<in> (below live (nodes db'))\<^sup>*"
      by (auto intro: rtrancl_trans)
    with 2 r show ?thesis by (auto simp: may_change_def)
  qed
qed

text \<open>
  A file to write is a name in a live directory: the caller may change the directory, or the name
  is that of a shared file the caller may change.
\<close>

lemma file_target_sound:
  assumes s: "sound db" and t: "file_target C now caller path create quota db = Inr (dir, name, db')"
  shows "sound db'" and "grants db' = grants db" and "home (n_owner dir) (n_id dir) db'" and "dir \<in> set (nodes db')"
    and "may_change caller dir db'
      \<or> (\<exists>n. child (n_id dir) name db' = Some n \<and> may_change caller n db')"
proof -
  have "sound db' \<and> grants db' = grants db \<and> home (n_owner dir) (n_id dir) db' \<and> dir \<in> set (nodes db')
    \<and> (may_change caller dir db' \<or> (\<exists>n. child (n_id dir) name db' = Some n \<and> may_change caller n db'))"
  proof (cases "length path = 2 \<and> is_shelf (hd path)")
    case True
    with t have "rbind (mount_named (u_email caller) (path ! 1) db) (\<lambda>(m, n).
        if \<not> may_write_access (m_access m) then Inl Forbidden
        else if n_kind n = Directory then Inl (Conflict (m_name m))
        else rbind (ok_or NotFound (n_parent n)) (\<lambda>i.
          rbind (ok_or NotFound (live_node i db)) (\<lambda>dir.
          rbind (map_err InvalidPath (node_name_from_str (n_name n))) (\<lambda>name.
            Inr (dir, name, db))))) = Inr (dir, name, db')" by (simp add: file_target_def)
    then obtain m n where mn: "mount_named (u_email caller) (path ! 1) db = Inr (m, n)"
      and rest: "(if \<not> may_write_access (m_access m) then Inl Forbidden
        else if n_kind n = Directory then Inl (Conflict (m_name m))
        else rbind (ok_or NotFound (n_parent n)) (\<lambda>i.
          rbind (ok_or NotFound (live_node i db)) (\<lambda>dir.
          rbind (map_err InvalidPath (node_name_from_str (n_name n))) (\<lambda>name.
            Inr (dir, name, db))))) = Inr (dir, name, db')"
      by (rule rbindE) auto
    have w: "may_write_access (m_access m)" and k: "n_kind n \<noteq> Directory" using rest by (auto split: if_splits)
    with rest obtain i where up: "n_parent n = Some i" and ln: "live_node i db = Some dir"
      and nm: "node_name_from_str (n_name n) = Inr name" and e: "db' = db"
      by (auto simp: rbind_eq_Inr)
    note mo = mount_named_Inr [OF mn]
    have d: "dir \<in> set (nodes db)" "n_id dir = i" "live dir"
      using ln unfolding live_node_def by (drule_tac find_Some_set, simp)+
    have "n_kind dir = Directory"
      using tree_rows_hangs [OF soundD(7) [OF s] mo(2) d(1)] up d(2) by (simp add: hangs_def)
    then have h: "home (n_owner dir) (n_id dir) db" using homeI [OF s d(1,3)] by simp
    have "as_str name = n_name n" using nm by (auto simp: node_name_from_str_def split: if_splits)
    then have "child (n_id dir) name db = Some n" using child_unique [OF s mo(2)] up d(2) mo(3) by simp
    moreover have "may_change caller n db" using mo(1) w by (auto simp: may_change_def may_write_access_iff)
    ultimately show ?thesis using s h d by (auto simp: e)
  next
    case False
    with t have d: "directory_for_write C now caller (butlast path) create quota db = Inr (dir, db')"
      by (auto simp: file_target_def rbind_eq_Inr split: if_splits)
    note dw = directory_for_write_sound [OF s d]
    show ?thesis using dw homeI [OF dw(1,4,5,6)] by blast
  qed
  then show "sound db'" "grants db' = grants db" "home (n_owner dir) (n_id dir) db'" "dir \<in> set (nodes db')"
    "may_change caller dir db' \<or> (\<exists>n. child (n_id dir) name db' = Some n \<and> may_change caller n db')" by blast+
qed

end
