(* ===== verification/Snapshots.thy ===== *)
theory Snapshots
  imports Names "HOL-Library.Word" "HOL-Library.RBT"
begin

text \<open>
  What the sync client knows of a folder: \<open>crates/client/src/sync/snapshot.rs\<close> and the record of
  the last agreement in \<open>state.rs\<close>. A \<open>BTreeMap\<close> is a search tree of the library (\<open>RBT\<close>), whose
  entries come in the order of the keys.
\<close>

datatype entry = EDirectory | EFile (e_etag: string) (e_size: "64 word")

fun entry_is_directory :: "entry \<Rightarrow> bool" where
  "entry_is_directory EDirectory = True"
| "entry_is_directory (EFile _ _) = False"

type_synonym snapshot = "(relpath, entry) rbt"

text \<open>\<open>BTreeMap::retain\<close>.\<close>

definition retain :: "('k::linorder \<Rightarrow> bool) \<Rightarrow> ('k, 'v) rbt \<Rightarrow> ('k, 'v) rbt" where
  "retain P m = RBT.bulkload (filter (\<lambda>(k, _). P k) (RBT.entries m))"

lemma lookup_retain [simp]:
  fixes m :: "('k::linorder, 'v) rbt"
  shows "RBT.lookup (retain P m) k = (if P k then RBT.lookup m k else None)"
proof -
  have "map_of (filter (\<lambda>(k, _). P k) xs) k = (if P k then map_of xs k else None)" for xs :: "('k \<times> 'v) list"
    by (induction xs) auto
  then show ?thesis by (simp add: retain_def)
qed

lemma set_keys: "k \<in> set (RBT.keys m) \<longleftrightarrow> RBT.lookup m k \<noteq> None"
  by (metis RBT.lookup_keys domIff)

section \<open>The state of the last agreement\<close>

definition STATE_FILE_NAME :: string where "STATE_FILE_NAME = ''.stashden-sync.json''"
definition LEGACY_STATE_FILE_NAME :: string where "LEGACY_STATE_FILE_NAME = ''.roxycloud-sync.json''"

definition is_state_file :: "string \<Rightarrow> bool" where
  "is_state_file name \<longleftrightarrow> name = STATE_FILE_NAME \<or> name = LEGACY_STATE_FILE_NAME"

record tracked =
  k_entry :: entry
  k_mtime :: "int option"

type_synonym sync_state = "(relpath, tracked) rbt"

definition base_of :: "sync_state \<Rightarrow> snapshot" where
  "base_of st = RBT.map (\<lambda>_. k_entry) st"

definition record_entry :: "relpath \<Rightarrow> entry \<Rightarrow> int option \<Rightarrow> sync_state \<Rightarrow> sync_state" where
  "record_entry p e mtime st = RBT.insert p \<lparr>k_entry = e, k_mtime = mtime\<rparr> st"

definition forget :: "relpath \<Rightarrow> sync_state \<Rightarrow> sync_state" where
  "forget p st = RBT.delete p st"

lemma lookup_base: "RBT.lookup (base_of st) p = map_option k_entry (RBT.lookup st p)"
  by (simp add: base_of_def)

lemma base_record [simp]: "RBT.lookup (base_of (record_entry p e m st)) = (RBT.lookup (base_of st))(p \<mapsto> e)"
  by (rule ext) (simp add: lookup_base record_entry_def)

lemma base_forget [simp]: "RBT.lookup (base_of (forget p st)) = (RBT.lookup (base_of st))(p := None)"
  by (rule ext) (simp add: lookup_base forget_def)

end
