(* ===== verification/Plan.thy ===== *)
theory Plan
  imports Snapshots
begin

text \<open>
  The three-way merge of \<open>crates/client/src/sync/plan.rs\<close>: what a run does to each path, from what
  the folder holds, what the server holds, and what they last agreed on. The lemmas state when
  each action is planned, in which order, and that no edit is overwritten by one.
\<close>

section \<open>Actions\<close>

datatype action =
    CreateLocalDirectory relpath
  | CreateRemoteDirectory relpath
  | Download relpath
  | Upload relpath
  | DeleteLocal relpath
  | DeleteRemote relpath
  | RemoveLocalDirectory relpath
  | RemoveRemoteDirectory relpath
  | Forget relpath
  | KeepBoth relpath relpath
  | SetAside relpath relpath

record plan =
  actions :: "action list"
  blocked :: "relpath list"
  held :: "relpath list"

definition plan_is_empty :: "plan \<Rightarrow> bool" where
  "plan_is_empty p \<longleftrightarrow> actions p = [] \<and> blocked p = [] \<and> held p = []"

definition floor_char_boundary :: "string \<Rightarrow> nat \<Rightarrow> nat" where
  "floor_char_boundary text limit =
     (if length text \<le> limit then length text
      else case find (is_char_boundary text) (rev [0..<Suc limit]) of Some at \<Rightarrow> at | None \<Rightarrow> 0)"

text \<open>
  \<open>stamp\<close> is the instant of the run as \<open>chrono\<close> prints it, \<open>20260903T120000Z\<close>; the code counts on
  it leaving room in a name (\<open>room\<close> would underflow otherwise).
\<close>

definition conflict_suffix :: "string \<Rightarrow> string" where
  "conflict_suffix stamp = '' (conflict '' @ stamp @ '')''"

definition conflict_name :: "string \<Rightarrow> string \<Rightarrow> string" where
  "conflict_name name stamp =
     (let suffix = conflict_suffix stamp;
          (stem, extension) = (case rsplit_once CHR ''.'' name of
              Some (stem, extension) \<Rightarrow> if stem \<noteq> [] then (stem, CHR ''.'' # extension) else (name, [])
            | None \<Rightarrow> (name, []));
          extension = (if length suffix + length extension < MAX_NAME_LEN then extension else []);
          room = MAX_NAME_LEN - length suffix - length extension
      in take (floor_char_boundary stem room) stem @ suffix @ extension)"

definition conflict_copy :: "relpath \<Rightarrow> string \<Rightarrow> relpath option" where
  "conflict_copy p stamp =
     (case with_file_name p (conflict_name (file_name p) stamp) of Inr q \<Rightarrow> Some q | Inl _ \<Rightarrow> None)"

definition for_file :: "relpath \<Rightarrow> entry option \<Rightarrow> entry option \<Rightarrow> entry option \<Rightarrow> string \<Rightarrow> action option" where
  "for_file p local remote base stamp =
     (case (local, remote) of
        (Some left, Some right) \<Rightarrow>
          (if left = right then None
           else if base = Some left then Some (Download p)
           else if base = Some right then Some (Upload p)
           else map_option (KeepBoth p) (conflict_copy p stamp))
      | (Some _, None) \<Rightarrow>
          Some (case base of
              Some recorded \<Rightarrow> if Some recorded = local then DeleteLocal p else Upload p
            | None \<Rightarrow> Upload p)
      | (None, Some _) \<Rightarrow>
          Some (case base of
              Some recorded \<Rightarrow> if Some recorded = remote then DeleteRemote p else Download p
            | None \<Rightarrow> Download p)
      | (None, None) \<Rightarrow> None)"

text \<open>
  The scan of the range of keys that starts at the directory and ends with the first key that
  does not begin with its text; siblings such as \<open>photos!notes\<close> are in it and are passed over.
\<close>

definition holds_only_what_was_synced :: "snapshot \<Rightarrow> snapshot \<Rightarrow> relpath \<Rightarrow> bool" where
  "holds_only_what_was_synced remote base d =
     list_all (\<lambda>(p, e). RBT.lookup base p = Some e)
       (filter (\<lambda>(p, _). is_inside p d)
         (takeWhile (\<lambda>(p, _). starts_with (path_str p) (path_str d))
           (dropWhile (\<lambda>(p, _). p = d)
             (filter (\<lambda>(p, _). d \<le> p) (RBT.entries remote)))))"

section \<open>The merge\<close>

record buckets =
  created :: "action list"
  transfers :: "action list"
  deletions :: "action list"
  removed :: "action list"
  removed_remotely :: "action list"
  forgotten :: "action list"
  at_odds :: "relpath list"

definition no_buckets :: buckets where
  "no_buckets = \<lparr>created = [], transfers = [], deletions = [], removed = [], removed_remotely = [],
     forgotten = [], at_odds = []\<rparr>"

text \<open>Which list an arm of the match pushes to, and what.\<close>

datatype verdict =
    Settled
  | Create action
  | Transfer action
  | Delete action
  | Remove action
  | RemoveRemotely action
  | Drop action
  | AtOdds relpath

fun push :: "verdict \<Rightarrow> buckets \<Rightarrow> buckets" where
  "push Settled b = b"
| "push (Create a) b = b\<lparr>created := created b @ [a]\<rparr>"
| "push (Transfer a) b = b\<lparr>transfers := transfers b @ [a]\<rparr>"
| "push (Delete a) b = b\<lparr>deletions := deletions b @ [a]\<rparr>"
| "push (Remove a) b = b\<lparr>removed := removed b @ [a]\<rparr>"
| "push (RemoveRemotely a) b = b\<lparr>removed_remotely := removed_remotely b @ [a]\<rparr>"
| "push (Drop a) b = b\<lparr>forgotten := forgotten b @ [a]\<rparr>"
| "push (AtOdds p) b = b\<lparr>at_odds := at_odds b @ [p]\<rparr>"

definition for_path :: "snapshot \<Rightarrow> snapshot \<Rightarrow> snapshot \<Rightarrow> string \<Rightarrow> relpath \<Rightarrow> verdict" where
  "for_path local remote base stamp p =
     (case (RBT.lookup local p, RBT.lookup remote p) of
        (Some EDirectory, Some EDirectory) \<Rightarrow> Settled
      | (None, None) \<Rightarrow> (if RBT.lookup base p \<noteq> None then Drop (Forget p) else Settled)
      | (None, Some EDirectory) \<Rightarrow>
          (if RBT.lookup base p = None then Create (CreateLocalDirectory p)
           else if holds_only_what_was_synced remote base p then RemoveRemotely (RemoveRemoteDirectory p)
           else Settled)
      | (Some EDirectory, None) \<Rightarrow>
          (if RBT.lookup base p \<noteq> None then Remove (RemoveLocalDirectory p)
           else Create (CreateRemoteDirectory p))
      | (l, r) \<Rightarrow>
          if l \<noteq> None \<and> r \<noteq> None \<and> entry_is_directory (the l) \<noteq> entry_is_directory (the r)
          then AtOdds p
          else (case for_file p l r (RBT.lookup base p) stamp of
              None \<Rightarrow> Settled
            | Some (DeleteLocal q) \<Rightarrow> Delete (DeleteLocal q)
            | Some (DeleteRemote q) \<Rightarrow> Delete (DeleteRemote q)
            | Some other \<Rightarrow> Transfer other))"

definition all_paths :: "snapshot \<Rightarrow> snapshot \<Rightarrow> snapshot \<Rightarrow> relpath list" where
  "all_paths local remote base = sort (remdups (RBT.keys local @ RBT.keys remote @ RBT.keys base))"

definition reconcile :: "snapshot \<Rightarrow> snapshot \<Rightarrow> snapshot \<Rightarrow> string \<Rightarrow> plan" where
  "reconcile local remote base stamp =
     (let b = fold (\<lambda>p. push (for_path local remote base stamp p)) (all_paths local remote base) no_buckets
      in \<lparr>actions = created b @ transfers b @ deletions b @ rev (removed_remotely b) @ rev (removed b)
            @ forgotten b,
          blocked = at_odds b, held = []\<rparr>)"

section \<open>When each action is planned\<close>

fun subject :: "action \<Rightarrow> relpath" where
  "subject (CreateLocalDirectory p) = p"
| "subject (CreateRemoteDirectory p) = p"
| "subject (RemoveLocalDirectory p) = p"
| "subject (RemoveRemoteDirectory p) = p"
| "subject (Forget p) = p"
| "subject (Download p) = p"
| "subject (Upload p) = p"
| "subject (DeleteLocal p) = p"
| "subject (DeleteRemote p) = p"
| "subject (KeepBoth p _) = p"
| "subject (SetAside p _) = p"

definition is_file :: "entry option \<Rightarrow> bool" where
  "is_file e \<longleftrightarrow> e \<noteq> None \<and> e \<noteq> Some EDirectory"

text \<open>
  What the merge is meant to do, per action: a side that still is what was agreed on takes what
  the other side has become, a side that changed is never overwritten.
\<close>

definition wants :: "snapshot \<Rightarrow> snapshot \<Rightarrow> snapshot \<Rightarrow> string \<Rightarrow> action \<Rightarrow> bool" where
  "wants local remote base stamp a =
     (let l = RBT.lookup local (subject a); r = RBT.lookup remote (subject a);
          b = RBT.lookup base (subject a)
      in case a of
        CreateLocalDirectory p \<Rightarrow> l = None \<and> r = Some EDirectory \<and> b = None
      | CreateRemoteDirectory p \<Rightarrow> l = Some EDirectory \<and> r = None \<and> b = None
      | Download p \<Rightarrow> is_file r \<and> l \<noteq> r \<and> (if l = None then b \<noteq> r else is_file l \<and> b = l)
      | Upload p \<Rightarrow> is_file l \<and> l \<noteq> r \<and> (if r = None then b \<noteq> l else is_file r \<and> b = r)
      | DeleteLocal p \<Rightarrow> is_file l \<and> r = None \<and> b = l
      | DeleteRemote p \<Rightarrow> is_file r \<and> l = None \<and> b = r
      | RemoveLocalDirectory p \<Rightarrow> l = Some EDirectory \<and> r = None \<and> b \<noteq> None
      | RemoveRemoteDirectory p \<Rightarrow> r = Some EDirectory \<and> l = None \<and> b \<noteq> None
          \<and> (\<forall>q e. RBT.lookup remote q = Some e \<and> is_inside q p \<longrightarrow> RBT.lookup base q = Some e)
      | Forget p \<Rightarrow> l = None \<and> r = None \<and> b \<noteq> None
      | KeepBoth p q \<Rightarrow> is_file l \<and> is_file r \<and> l \<noteq> r \<and> b \<noteq> l \<and> b \<noteq> r \<and> conflict_copy p stamp = Some q
      | SetAside p q \<Rightarrow> False)"

subsection \<open>The scan of a directory\<close>

lemma prefix_between:
  fixes d :: "'a::linorder list"
  shows "d \<le> q \<Longrightarrow> q \<le> d @ t \<Longrightarrow> \<exists>u. q = d @ u"
proof (induction d arbitrary: q)
  case Nil
  then show ?case by simp
next
  case (Cons x d)
  then show ?case by (cases q) auto
qed

lemma before_extension: "(d :: 'a::linorder list) < d @ x # t"
  by (induction d) auto

lemma inside_after: "is_inside p d \<Longrightarrow> d < p"
  by (auto simp: is_inside_text less_relpath_def before_extension)

lemma set_takeWhile_closed:
  "(\<And>xs1 x xs2 y. xs = xs1 @ x # xs2 \<Longrightarrow> y \<in> set xs2 \<Longrightarrow> P y \<Longrightarrow> P x) \<Longrightarrow>
   set (takeWhile P xs) = {x \<in> set xs. P x}"
proof (induction xs)
  case Nil
  then show ?case by simp
next
  case (Cons a xs)
  have "set (takeWhile P xs) = {x \<in> set xs. P x}"
    by (rule Cons.IH) (metis Cons.prems append_Cons)
  moreover have "P a" if "P y" "y \<in> set xs" for y
    using Cons.prems [of "[]" a xs y] that by simp
  ultimately show ?case by auto
qed

lemma holds_only_what_was_synced_iff:
  "holds_only_what_was_synced remote base d \<longleftrightarrow>
     (\<forall>p e. RBT.lookup remote p = Some e \<and> is_inside p d \<longrightarrow> RBT.lookup base p = Some e)"
proof -
  let ?xs = "filter (\<lambda>(p, _). d \<le> p) (RBT.entries remote)"
  let ?ys = "dropWhile (\<lambda>(p, _). p = d) ?xs"
  let ?P = "\<lambda>(p, e). starts_with (path_str p) (path_str d)"
  have "sorted (map fst (RBT.entries remote))" by (rule RBT.sorted_entries)
  then have sorted: "sorted (map fst ?xs)" by (rule sorted_filter)
  have "\<exists>zs. ?xs = zs @ ?ys" by (metis takeWhile_dropWhile_id)
  then obtain zs where zs: "?xs = zs @ ?ys" by blast
  have closed: "?P x" if "?ys = xs1 @ x # xs2" "y \<in> set xs2" "?P y" for xs1 x xs2 y
  proof -
    have "sorted (map fst (zs @ xs1 @ x # xs2))" using sorted zs that(1) by simp
    then have "fst x \<le> fst y" using that(2) by (auto simp: sorted_append)
    moreover have "x \<in> set ?xs" by (subst zs) (simp add: that(1))
    then have "d \<le> fst x" by auto
    ultimately show ?thesis
      using that(3) prefix_between [of "path_str d" "path_str (fst x)"]
      by (auto simp: less_eq_relpath_def starts_with_iff split: prod.splits)
  qed
  have keep: "z \<in> set ?ys" if "z \<in> set ?xs" "is_inside (fst z) d" for z
  proof -
    have "z \<notin> set (takeWhile (\<lambda>(p, _). p = d) ?xs)"
      using inside_after [OF that(2)] by (auto dest!: set_takeWhileD)
    then show ?thesis using that(1) by (metis Un_iff set_append takeWhile_dropWhile_id)
  qed
  have "set (filter (\<lambda>(p, _). is_inside p d) (takeWhile ?P ?ys)) = {z \<in> set ?ys. ?P z \<and> is_inside (fst z) d}"
    using set_takeWhile_closed [of ?ys ?P] closed by auto
  also have "\<dots> = {z \<in> set (RBT.entries remote). is_inside (fst z) d}"
  proof -
    have "z \<in> set ?ys \<Longrightarrow> z \<in> set (RBT.entries remote)" for z
      by (auto dest!: set_dropWhileD)
    moreover have "z \<in> set ?ys \<and> ?P z" if "z \<in> set (RBT.entries remote)" "is_inside (fst z) d" for z
      using keep [of z] that inside_after [OF that(2)]
      by (auto simp: is_inside_text starts_with_iff split: prod.splits)
    ultimately show ?thesis by blast
  qed
  finally show ?thesis
    by (auto simp: holds_only_what_was_synced_def list_all_iff RBT.lookup_in_tree) 
qed

subsection \<open>The fold over the paths\<close>

fun created_by :: "verdict \<Rightarrow> action list" where "created_by (Create a) = [a]" | "created_by _ = []"
fun transfers_by :: "verdict \<Rightarrow> action list" where "transfers_by (Transfer a) = [a]" | "transfers_by _ = []"
fun deletions_by :: "verdict \<Rightarrow> action list" where "deletions_by (Delete a) = [a]" | "deletions_by _ = []"
fun removed_by :: "verdict \<Rightarrow> action list" where "removed_by (Remove a) = [a]" | "removed_by _ = []"
fun removed_remotely_by :: "verdict \<Rightarrow> action list" where
  "removed_remotely_by (RemoveRemotely a) = [a]" | "removed_remotely_by _ = []"
fun forgotten_by :: "verdict \<Rightarrow> action list" where "forgotten_by (Drop a) = [a]" | "forgotten_by _ = []"
fun at_odds_by :: "verdict \<Rightarrow> relpath list" where "at_odds_by (AtOdds p) = [p]" | "at_odds_by _ = []"

lemma push_all:
  "created (fold (\<lambda>p. push (f p)) ps x) = created x @ concat (map (created_by \<circ> f) ps)"
  "transfers (fold (\<lambda>p. push (f p)) ps x) = transfers x @ concat (map (transfers_by \<circ> f) ps)"
  "deletions (fold (\<lambda>p. push (f p)) ps x) = deletions x @ concat (map (deletions_by \<circ> f) ps)"
  "removed (fold (\<lambda>p. push (f p)) ps x) = removed x @ concat (map (removed_by \<circ> f) ps)"
  "removed_remotely (fold (\<lambda>p. push (f p)) ps x) = removed_remotely x @ concat (map (removed_remotely_by \<circ> f) ps)"
  "forgotten (fold (\<lambda>p. push (f p)) ps x) = forgotten x @ concat (map (forgotten_by \<circ> f) ps)"
  "at_odds (fold (\<lambda>p. push (f p)) ps x) = at_odds x @ concat (map (at_odds_by \<circ> f) ps)"
proof (induction ps arbitrary: x)
  case (Cons p ps)
  { case 1 show ?case by (cases "f p") (simp_all add: Cons.IH) }
  { case 2 show ?case by (cases "f p") (simp_all add: Cons.IH) }
  { case 3 show ?case by (cases "f p") (simp_all add: Cons.IH) }
  { case 4 show ?case by (cases "f p") (simp_all add: Cons.IH) }
  { case 5 show ?case by (cases "f p") (simp_all add: Cons.IH) }
  { case 6 show ?case by (cases "f p") (simp_all add: Cons.IH) }
  { case 7 show ?case by (cases "f p") (simp_all add: Cons.IH) }
qed simp_all

fun action_of :: "verdict \<Rightarrow> action option" where
  "action_of Settled = None"
| "action_of (Create a) = Some a"
| "action_of (Transfer a) = Some a"
| "action_of (Delete a) = Some a"
| "action_of (Remove a) = Some a"
| "action_of (RemoveRemotely a) = Some a"
| "action_of (Drop a) = Some a"
| "action_of (AtOdds _) = None"

lemma reconcile_sets:
  "set (actions (reconcile l r b stamp)) = {a. \<exists>p\<in>set (all_paths l r b). action_of (for_path l r b stamp p) = Some a}"
  "set (blocked (reconcile l r b stamp)) = {p. \<exists>q\<in>set (all_paths l r b). for_path l r b stamp q = AtOdds p}"
proof -
  have "action_of v = Some a \<longleftrightarrow> a \<in> set (created_by v) \<or> a \<in> set (transfers_by v) \<or> a \<in> set (deletions_by v)
      \<or> a \<in> set (removed_by v) \<or> a \<in> set (removed_remotely_by v) \<or> a \<in> set (forgotten_by v)" for v a
    by (cases v) auto
  then show "set (actions (reconcile l r b stamp))
      = {a. \<exists>p\<in>set (all_paths l r b). action_of (for_path l r b stamp p) = Some a}"
    by (auto simp: reconcile_def Let_def push_all no_buckets_def)
  have "v = AtOdds p \<longleftrightarrow> p \<in> set (at_odds_by v)" for v p by (cases v) auto
  then show "set (blocked (reconcile l r b stamp)) = {p. \<exists>q\<in>set (all_paths l r b). for_path l r b stamp q = AtOdds p}"
    by (auto simp: reconcile_def Let_def push_all no_buckets_def)
qed

lemma all_paths_iff: "p \<in> set (all_paths l r b) \<longleftrightarrow>
    RBT.lookup l p \<noteq> None \<or> RBT.lookup r p \<noteq> None \<or> RBT.lookup b p \<noteq> None"
  by (auto simp: all_paths_def set_keys)

lemma for_file_Some: "for_file p l r b stamp = Some a \<Longrightarrow>
    subject a = p \<and> (case a of Download _ \<Rightarrow> r \<noteq> None \<and> l \<noteq> r \<and> (if l = None then b \<noteq> r else b = l)
      | Upload _ \<Rightarrow> l \<noteq> None \<and> l \<noteq> r \<and> (if r = None then b \<noteq> l else b = r \<and> b \<noteq> l)
      | DeleteLocal _ \<Rightarrow> l \<noteq> None \<and> r = None \<and> b = l
      | DeleteRemote _ \<Rightarrow> r \<noteq> None \<and> l = None \<and> b = r
      | KeepBoth _ q \<Rightarrow> l \<noteq> None \<and> r \<noteq> None \<and> l \<noteq> r \<and> b \<noteq> l \<and> b \<noteq> r \<and> conflict_copy p stamp = Some q
      | _ \<Rightarrow> False)"
  by (auto simp: for_file_def split: option.splits if_splits)

lemma for_path_action:
  "action_of (for_path l r b stamp p) = Some a \<longleftrightarrow> subject a = p \<and> wants l r b stamp a"
proof -
  have ?thesis if "RBT.lookup l p = None \<or> RBT.lookup l p = Some EDirectory"
    using that
  proof
    assume L: "RBT.lookup l p = None"
    show ?thesis
    proof (cases "RBT.lookup r p")
      case None
      with L show ?thesis by (cases a) (auto simp: for_path_def wants_def is_file_def)
    next
      case (Some e)
      show ?thesis
      proof (cases e)
        case EDirectory
        with L Some show ?thesis
          by (cases a) (auto simp: for_path_def wants_def is_file_def holds_only_what_was_synced_iff)
      next
        case (EFile t n)
        with L Some show ?thesis
          by (cases a; cases "RBT.lookup b p") (auto simp: for_path_def wants_def is_file_def for_file_def)
      qed
    qed
  next
    assume L: "RBT.lookup l p = Some EDirectory"
    show ?thesis
    proof (cases "RBT.lookup r p")
      case None
      with L show ?thesis by (cases a) (auto simp: for_path_def wants_def is_file_def)
    next
      case (Some e)
      with L show ?thesis by (cases e; cases a) (auto simp: for_path_def wants_def is_file_def)
    qed
  qed
  moreover have ?thesis if L: "RBT.lookup l p = Some (EFile t n)" for t n
  proof (cases "RBT.lookup r p")
    case None
    with L show ?thesis
      by (cases a; cases "RBT.lookup b p") (auto simp: for_path_def wants_def is_file_def for_file_def)
  next
    case (Some e)
    show ?thesis
    proof (cases e)
      case EDirectory
      with L Some show ?thesis by (cases a) (auto simp: for_path_def wants_def is_file_def)
    next
      case (EFile t' n')
      with L Some show ?thesis
        by (cases a; cases "conflict_copy p stamp")
          (auto simp: for_path_def wants_def is_file_def for_file_def)
    qed
  qed
  ultimately show ?thesis by (metis entry.exhaust option.exhaust)
qed

text \<open>The merge does exactly what it is meant to.\<close>

lemma reconcile_actions: "a \<in> set (actions (reconcile l r b stamp)) \<longleftrightarrow> wants l r b stamp a"
proof -
  have "subject a \<in> set (all_paths l r b)" if "wants l r b stamp a"
    using that by (cases a) (auto simp: wants_def all_paths_iff is_file_def)
  then show ?thesis by (auto simp: reconcile_sets(1) for_path_action)
qed

lemma reconcile_blocked: "p \<in> set (blocked (reconcile l r b stamp)) \<longleftrightarrow>
    (\<exists>e f. RBT.lookup l p = Some e \<and> RBT.lookup r p = Some f \<and> entry_is_directory e \<noteq> entry_is_directory f)"
proof -
  have no: "(case fa of None \<Rightarrow> Settled | Some (DeleteLocal q) \<Rightarrow> Delete (DeleteLocal q)
      | Some (DeleteRemote q) \<Rightarrow> Delete (DeleteRemote q) | Some other \<Rightarrow> Transfer other) \<noteq> AtOdds p" for fa
  proof (cases fa)
    case (Some a)
    then show ?thesis by (cases a) simp_all
  qed simp
  have v: "for_path l r b stamp q = AtOdds p \<longleftrightarrow> q = p \<and> RBT.lookup l p \<noteq> None \<and> RBT.lookup r p \<noteq> None
      \<and> entry_is_directory (the (RBT.lookup l p)) \<noteq> entry_is_directory (the (RBT.lookup r p))" for q
  proof (cases "RBT.lookup l q")
    case None
    then show ?thesis
      by (cases "RBT.lookup r q"; cases "the (RBT.lookup r q)") (auto simp: for_path_def no)
  next
    case (Some e)
    then show ?thesis
      by (cases e; cases "RBT.lookup r q"; cases "the (RBT.lookup r q)") (auto simp: for_path_def no)
  qed
  show ?thesis by (auto simp: reconcile_sets(2) v all_paths_iff)
qed

subsection \<open>Order\<close>

definition precedes :: "action \<Rightarrow> action \<Rightarrow> action list \<Rightarrow> bool" where
  "precedes a c as \<longleftrightarrow> (\<exists>xs ys. as = xs @ ys \<and> a \<in> set xs \<and> c \<in> set ys)"

lemma precedes_append: "a \<in> set xs \<Longrightarrow> c \<in> set ys \<Longrightarrow> precedes a c (xs @ ys)"
  unfolding precedes_def by blast

lemma precedes_left: "precedes a c xs \<Longrightarrow> precedes a c (xs @ ys)"
  unfolding precedes_def by (metis append.assoc set_append UnCI)

lemma precedes_right: "precedes a c ys \<Longrightarrow> precedes a c (xs @ ys)"
  unfolding precedes_def by (metis append.assoc UnCI set_append)

lemma precedes_rev: "precedes a c xs \<Longrightarrow> precedes c a (rev xs)"
  unfolding precedes_def by (metis rev_append set_rev)

lemma precedes_concat:
  "p \<in> set ps \<Longrightarrow> q \<in> set ps \<Longrightarrow> p < q \<Longrightarrow> sorted ps \<Longrightarrow> a \<in> set (f p) \<Longrightarrow> c \<in> set (f q) \<Longrightarrow>
   precedes a c (concat (map f ps))"
proof -
  assume s: "p \<in> set ps" "q \<in> set ps" "p < q" "sorted ps" "a \<in> set (f p)" "c \<in> set (f q)"
  from s(1) obtain xs ys where ps: "ps = xs @ p # ys" by (auto simp: in_set_conv_decomp)
  have "q \<in> set ys" using s(2,3,4) by (auto simp: ps sorted_append)
  then have "precedes a c (concat (map f (xs @ [p])) @ concat (map f ys))"
    using s(5,6) by (intro precedes_append) auto
  then show ?thesis by (simp add: ps)
qed

lemma all_paths_sorted: "sorted (all_paths l r b)"
  by (simp add: all_paths_def)

text \<open>Each list holds actions of one sort.\<close>

fun belongs :: "relpath \<Rightarrow> verdict \<Rightarrow> bool" where
  "belongs p Settled = True"
| "belongs p (Create a) = (a = CreateLocalDirectory p \<or> a = CreateRemoteDirectory p)"
| "belongs p (Transfer a) = (a = Download p \<or> a = Upload p \<or> (\<exists>q. a = KeepBoth p q))"
| "belongs p (Delete a) = (a = DeleteLocal p \<or> a = DeleteRemote p)"
| "belongs p (Remove a) = (a = RemoveLocalDirectory p)"
| "belongs p (RemoveRemotely a) = (a = RemoveRemoteDirectory p)"
| "belongs p (Drop a) = (a = Forget p)"
| "belongs p (AtOdds q) = (q = p)"

lemma for_path_belongs: "belongs p (for_path l r b stamp p)"
proof -
  have f: "belongs p (case for_file p x y z stamp of None \<Rightarrow> Settled | Some (DeleteLocal q) \<Rightarrow> Delete (DeleteLocal q)
      | Some (DeleteRemote q) \<Rightarrow> Delete (DeleteRemote q) | Some other \<Rightarrow> Transfer other)" for x y z
  proof (cases "for_file p x y z stamp")
    case (Some a)
    note for_file_Some [OF Some]
    then show ?thesis unfolding Some by (cases a) auto
  qed simp
  show ?thesis
  proof (cases "RBT.lookup l p")
    case None
    then show ?thesis
      by (cases "RBT.lookup r p"; cases "the (RBT.lookup r p)") (auto simp: for_path_def f)
  next
    case (Some e)
    then show ?thesis
      by (cases e; cases "RBT.lookup r p"; cases "the (RBT.lookup r p)") (auto simp: for_path_def f)
  qed
qed

lemma for_path_shape:
  "x \<in> set (created_by (for_path l r b stamp p)) \<longleftrightarrow> action_of (for_path l r b stamp p) = Some x
     \<and> x \<in> {CreateLocalDirectory p, CreateRemoteDirectory p}"
  "x \<in> set (removed_by (for_path l r b stamp p)) \<longleftrightarrow> action_of (for_path l r b stamp p) = Some x
     \<and> x = RemoveLocalDirectory p"
  "x \<in> set (removed_remotely_by (for_path l r b stamp p)) \<longleftrightarrow> action_of (for_path l r b stamp p) = Some x
     \<and> x = RemoveRemoteDirectory p"
  "x \<in> set (forgotten_by (for_path l r b stamp p)) \<longleftrightarrow> action_of (for_path l r b stamp p) = Some x
     \<and> x = Forget p"
  using for_path_belongs [of p l r b stamp] by (cases "for_path l r b stamp p"; auto)+

text \<open>The lists of a plan, by what is in them.\<close>

definition creations :: "snapshot \<Rightarrow> snapshot \<Rightarrow> snapshot \<Rightarrow> string \<Rightarrow> action list" where
  "creations l r b stamp = concat (map (created_by \<circ> for_path l r b stamp) (all_paths l r b))"

definition contents :: "snapshot \<Rightarrow> snapshot \<Rightarrow> snapshot \<Rightarrow> string \<Rightarrow> action list" where
  "contents l r b stamp = concat (map (transfers_by \<circ> for_path l r b stamp) (all_paths l r b))
     @ concat (map (deletions_by \<circ> for_path l r b stamp) (all_paths l r b))"

definition remote_removals :: "snapshot \<Rightarrow> snapshot \<Rightarrow> snapshot \<Rightarrow> string \<Rightarrow> action list" where
  "remote_removals l r b stamp = concat (map (removed_remotely_by \<circ> for_path l r b stamp) (all_paths l r b))"

definition local_removals :: "snapshot \<Rightarrow> snapshot \<Rightarrow> snapshot \<Rightarrow> string \<Rightarrow> action list" where
  "local_removals l r b stamp = concat (map (removed_by \<circ> for_path l r b stamp) (all_paths l r b))"

definition droppings :: "snapshot \<Rightarrow> snapshot \<Rightarrow> snapshot \<Rightarrow> string \<Rightarrow> action list" where
  "droppings l r b stamp = concat (map (forgotten_by \<circ> for_path l r b stamp) (all_paths l r b))"

lemma reconcile_lists:
  "actions (reconcile l r b stamp) = creations l r b stamp @ contents l r b stamp
     @ rev (remote_removals l r b stamp) @ rev (local_removals l r b stamp) @ droppings l r b stamp"
  by (simp add: reconcile_def Let_def push_all no_buckets_def creations_def contents_def
      remote_removals_def local_removals_def droppings_def)

lemma wants_path: "wants l r b stamp x \<Longrightarrow> subject x \<in> set (all_paths l r b)"
  using reconcile_actions [of x l r b stamp] by (auto simp: reconcile_sets(1) for_path_action)

lemma in_lists:
  assumes "wants l r b stamp x"
  shows "x \<in> set (creations l r b stamp) \<longleftrightarrow> x \<in> {CreateLocalDirectory (subject x), CreateRemoteDirectory (subject x)}"
    and "x \<in> set (remote_removals l r b stamp) \<longleftrightarrow> x = RemoveRemoteDirectory (subject x)"
    and "x \<in> set (local_removals l r b stamp) \<longleftrightarrow> x = RemoveLocalDirectory (subject x)"
    and "x \<in> set (droppings l r b stamp) \<longleftrightarrow> x = Forget (subject x)"
proof -
  note p = wants_path [OF assms]
  note d = for_path_shape for_path_action assms
  show "x \<in> set (creations l r b stamp) \<longleftrightarrow> x \<in> {CreateLocalDirectory (subject x), CreateRemoteDirectory (subject x)}"
    using p by (auto simp: creations_def d)
  show "x \<in> set (remote_removals l r b stamp) \<longleftrightarrow> x = RemoveRemoteDirectory (subject x)"
    using p by (auto simp: remote_removals_def d)
  show "x \<in> set (local_removals l r b stamp) \<longleftrightarrow> x = RemoveLocalDirectory (subject x)"
    using p by (auto simp: local_removals_def d)
  show "x \<in> set (droppings l r b stamp) \<longleftrightarrow> x = Forget (subject x)"
    using p by (auto simp: droppings_def d)
qed

text \<open>A directory is made before anything is done inside it.\<close>

lemma creation_first:
  assumes a: "wants l r b stamp a" "a \<in> {CreateLocalDirectory d, CreateRemoteDirectory d}"
    and c: "wants l r b stamp c" "is_inside (subject c) d"
  shows "precedes a c (actions (reconcile l r b stamp))"
proof -
  have sa: "subject a = d" using a(2) by auto
  have ac: "a \<in> set (creations l r b stamp)" using in_lists(1) [OF a(1)] a(2) by auto
  show ?thesis
  proof (cases "c \<in> set (creations l r b stamp)")
    case True
    have "precedes a c (creations l r b stamp)" unfolding creations_def
    proof (rule precedes_concat [OF _ _ _ all_paths_sorted])
      show "d < subject c" by (rule inside_after [OF c(2)])
      show "d \<in> set (all_paths l r b)" "subject c \<in> set (all_paths l r b)"
        using wants_path [OF a(1)] wants_path [OF c(1)] sa by simp_all
      show "a \<in> set ((created_by \<circ> for_path l r b stamp) d)"
        using a sa by (auto simp: for_path_shape for_path_action)
      show "c \<in> set ((created_by \<circ> for_path l r b stamp) (subject c))"
        using in_lists(1) [OF c(1)] True c(1) by (auto simp: for_path_shape for_path_action)
    qed
    then show ?thesis unfolding reconcile_lists by (rule precedes_left)
  next
    case False
    have "c \<in> set (actions (reconcile l r b stamp))" using c(1) by (simp add: reconcile_actions)
    with False show ?thesis unfolding reconcile_lists by (intro precedes_append [OF ac]) auto
  qed
qed

text \<open>A directory is removed after everything inside it.\<close>

lemma removal_last:
  assumes a: "wants l r b stamp a" "a = RemoveLocalDirectory d \<or> a = RemoveRemoteDirectory d"
    and c: "wants l r b stamp c" "is_inside (subject c) d"
    and sort: "\<forall>p. c \<noteq> Forget p" "a = RemoveRemoteDirectory d \<longrightarrow> (\<forall>p. c \<noteq> RemoveLocalDirectory p)"
  shows "precedes c a (actions (reconcile l r b stamp))"
proof -
  have dl: "d < subject c" by (rule inside_after [OF c(2)])
  have cin: "c \<in> set (creations l r b stamp) \<or> c \<in> set (contents l r b stamp)
      \<or> c \<in> set (remote_removals l r b stamp) \<or> c \<in> set (local_removals l r b stamp)"
    using c(1) sort(1) in_lists(4) [OF c(1)] reconcile_actions [of c l r b stamp]
    unfolding reconcile_lists by auto
  show ?thesis
  proof (cases "a = RemoveLocalDirectory d")
    case True
    then have al: "a \<in> set (local_removals l r b stamp)" using in_lists(3) [OF a(1)] by simp
    show ?thesis
    proof (cases "c \<in> set (local_removals l r b stamp)")
      case cl: True
      have "precedes a c (local_removals l r b stamp)" unfolding local_removals_def
        by (rule precedes_concat [OF wants_path [OF a(1)] wants_path [OF c(1)] _ all_paths_sorted])
          (use True dl cl c(1) a(1) in_lists(3) [OF c(1)] in \<open>auto simp: for_path_shape for_path_action\<close>)
      then have "precedes c a (rev (local_removals l r b stamp))" by (rule precedes_rev)
      then show ?thesis unfolding reconcile_lists by (intro precedes_right precedes_left)
    next
      case False
      have "precedes c a ((creations l r b stamp @ contents l r b stamp @ rev (remote_removals l r b stamp))
          @ rev (local_removals l r b stamp) @ droppings l r b stamp)"
        using cin False al by (intro precedes_append) auto
      then show ?thesis unfolding reconcile_lists by simp
    qed
  next
    case False
    with a(2) have ar: "a = RemoveRemoteDirectory d" by blast
    then have al: "a \<in> set (remote_removals l r b stamp)" using in_lists(2) [OF a(1)] by simp
    have nl: "c \<notin> set (local_removals l r b stamp)" using sort(2) ar in_lists(3) [OF c(1)] by metis
    show ?thesis
    proof (cases "c \<in> set (remote_removals l r b stamp)")
      case cl: True
      have "precedes a c (remote_removals l r b stamp)" unfolding remote_removals_def
        by (rule precedes_concat [OF wants_path [OF a(1)] wants_path [OF c(1)] _ all_paths_sorted])
          (use ar dl cl c(1) a(1) in_lists(2) [OF c(1)] in \<open>auto simp: for_path_shape for_path_action\<close>)
      then have "precedes c a (rev (remote_removals l r b stamp))" by (rule precedes_rev)
      then show ?thesis unfolding reconcile_lists by (intro precedes_right precedes_left)
    next
      case False
      have "precedes c a ((creations l r b stamp @ contents l r b stamp)
          @ rev (remote_removals l r b stamp) @ rev (local_removals l r b stamp) @ droppings l r b stamp)"
        using cin nl False al by (intro precedes_append) auto
      then show ?thesis unfolding reconcile_lists by simp
    qed
  qed
qed

section \<open>The name of a conflict copy\<close>

text \<open>What \<open>chrono\<close> prints for \<open>%Y%m%dT%H%M%SZ\<close>: digits, capitals and perhaps a sign.\<close>

definition plain_stamp :: "string \<Rightarrow> bool" where
  "plain_stamp stamp \<longleftrightarrow> length stamp \<le> 200
     \<and> list_all (\<lambda>c. 43 \<le> (of_char c :: nat) \<and> (of_char c :: nat) \<le> 90 \<and> c \<noteq> slash) stamp"

lemma has_control_take: "has_control (take k s) \<Longrightarrow> has_control s"
proof (induction s arbitrary: k rule: has_control.induct)
  case (2 c)
  then show ?case by (cases k) auto
next
  case (3 c d cs)
  show ?case
  proof (cases k)
    case (Suc j)
    with 3(2) 3(1) [of j] show ?thesis by (cases j) auto
  qed (use 3 in simp)
qed simp

lemma has_control_append:
  "has_control (a @ c # b) \<Longrightarrow> (of_char c :: nat) < 128 \<Longrightarrow> has_control a \<or> has_control (c # b)"
proof (induction a rule: has_control.induct)
  case (2 x)
  then show ?case by auto
qed auto

lemma has_control_ascii:
  "list_all (\<lambda>c. 32 \<le> (of_char c :: nat) \<and> (of_char c :: nat) < 127) s \<Longrightarrow> \<not> has_control s"
  by (induction s rule: has_control.induct) (auto simp: ascii_control_def)

lemma has_control_drop: "has_control (drop k s) \<Longrightarrow> has_control s"
proof (induction s arbitrary: k rule: has_control.induct)
  case (2 c)
  then show ?case by (cases k) auto
next
  case (3 c d cs)
  then show ?case by (cases k) auto
qed simp

lemma floor_char_boundary_bound: "min (length s) (floor_char_boundary s k) \<le> k"
proof -
  have "n \<le> k" if "find P (rev [0..<Suc k]) = Some n" for P n
    using find_Some_set [OF that] by auto
  then show ?thesis
    by (auto simp: floor_char_boundary_def simp del: upt_Suc rev.simps split: option.split)
       (metis min.coboundedI2)
qed

lemma floor_char_boundary_is: "is_char_boundary s (floor_char_boundary s k)"
proof -
  have "is_char_boundary s n" if "find (is_char_boundary s) xs = Some n" for n xs
    using find_Some_set [OF that] by simp
  then show ?thesis by (auto simp: floor_char_boundary_def is_char_boundary_def [of s 0]
      is_char_boundary_def [of s "length s"] split: option.split)
qed

lemma conflict_name_shape:
  assumes "plain_stamp stamp"
  obtains k ext where "conflict_name name stamp = take k name @ conflict_suffix stamp @ ext"
    and "length (conflict_name name stamp) \<le> MAX_NAME_LEN"
    and "ext = [] \<or> (\<exists>stem e. name = stem @ ext \<and> ext = CHR ''.'' # e)"
    and "is_char_boundary name k"
proof -
  let ?suffix = "conflict_suffix stamp"
  let ?split = "case rsplit_once CHR ''.'' name of
      Some (stem, extension) \<Rightarrow> if stem \<noteq> [] then (stem, CHR ''.'' # extension) else (name, [])
    | None \<Rightarrow> (name, [])"
  obtain stem ext0 where sp: "?split = (stem, ext0)" by fastforce
  have parts: "name = stem @ ext0" "ext0 = [] \<or> (\<exists>e. ext0 = CHR ''.'' # e)"
    using sp by (auto simp: rsplit_once_Some split: option.splits if_splits)
  define ext where "ext = (if length ?suffix + length ext0 < MAX_NAME_LEN then ext0 else [])"
  define room where "room = MAX_NAME_LEN - length ?suffix - length ext"
  define k where "k = min (length stem) (floor_char_boundary stem room)"
  have suffix: "length ?suffix \<le> 212" using assms by (simp add: plain_stamp_def conflict_suffix_def)
  have fits: "length ?suffix + length ext + room = MAX_NAME_LEN"
    using suffix by (auto simp: ext_def room_def MAX_NAME_LEN_def)
  have k: "k \<le> room" "k \<le> length stem" using floor_char_boundary_bound [of stem room] by (auto simp: k_def)
  have "take (floor_char_boundary stem room) stem = take k stem" by (simp add: k_def min_def)
  also have "\<dots> = take k name" using k(2) by (simp add: parts(1))
  finally have n: "conflict_name name stamp = take k name @ ?suffix @ ext"
    unfolding conflict_name_def Let_def sp room_def ext_def by simp
  moreover have "length (conflict_name name stamp) \<le> MAX_NAME_LEN"
    unfolding n using fits k(1) by simp
  moreover have "ext = [] \<or> (\<exists>stem e. name = stem @ ext \<and> ext = CHR ''.'' # e)"
    using parts by (auto simp: ext_def)
  moreover have "is_char_boundary name k"
  proof (cases "k < length stem")
    case True
    then have "k = floor_char_boundary stem room" by (simp add: k_def min_def split: if_splits)
    then have "is_char_boundary stem k" by (simp add: floor_char_boundary_is)
    with True show ?thesis by (auto simp: is_char_boundary_def parts(1) nth_append)
  next
    case False
    then have "k = length stem" using k(2) by simp
    then show ?thesis using parts by (auto simp: is_char_boundary_def continues_def nth_append)
  qed
  ultimately show ?thesis by (rule that)
qed

text \<open>The name is always a valid one, so no conflict is dropped.\<close>

lemma conflict_name_valid:
  assumes v: "valid_name name" and st: "plain_stamp stamp"
  shows "valid_name (conflict_name name stamp)"
proof -
  obtain k ext where n: "conflict_name name stamp = take k name @ conflict_suffix stamp @ ext"
    "length (conflict_name name stamp) \<le> MAX_NAME_LEN"
    "ext = [] \<or> (\<exists>stem e. name = stem @ ext \<and> ext = CHR ''.'' # e)"
    by (rule conflict_name_shape [OF st])
  have ext: "set ext \<subseteq> set name" "ext = [] \<or> (\<exists>e. ext = CHR ''.'' # e)" "\<not> has_control ext"
    using n(3) v has_control_drop [of "length name - length ext" name] by (auto simp: valid_name_iff)
  have sf: "list_all (\<lambda>c. 32 \<le> (of_char c :: nat) \<and> (of_char c :: nat) < 127) (conflict_suffix stamp)"
    and sl: "slash \<notin> set (conflict_suffix stamp)" "backslash \<notin> set (conflict_suffix stamp)"
  proof -
    let ?ok = "\<lambda>c. 32 \<le> (of_char c :: nat) \<and> (of_char c :: nat) < 127 \<and> c \<noteq> slash \<and> c \<noteq> backslash"
    have b: "(of_char backslash :: nat) = 92" by simp
    have "?ok c" if "c \<in> set stamp" for c
      using st that b unfolding plain_stamp_def list_all_iff by (cases "c = backslash") force+
    then have "list_all ?ok stamp" by (simp only: list_all_iff) blast
    moreover have "list_all ?ok '' (conflict ''" "list_all ?ok '')''" by simp_all
    ultimately have "list_all ?ok (conflict_suffix stamp)"
      unfolding conflict_suffix_def list_all_append by blast
    then show "list_all (\<lambda>c. 32 \<le> (of_char c :: nat) \<and> (of_char c :: nat) < 127) (conflict_suffix stamp)"
      "slash \<notin> set (conflict_suffix stamp)" "backslash \<notin> set (conflict_suffix stamp)"
      unfolding list_all_iff by blast+
  qed
  have "\<not> has_control (conflict_suffix stamp @ ext)"
  proof (cases "ext = []")
    case False
    then obtain e where e: "ext = CHR ''.'' # e" using ext(2) by blast
    show ?thesis
      using has_control_append [of "conflict_suffix stamp" "CHR ''.''" e] has_control_ascii [OF sf] ext(3)
      unfolding e by fastforce
  qed (use has_control_ascii [OF sf] in simp)
  then have "\<not> has_control (take k name @ CHR '' '' # tl (conflict_suffix stamp) @ ext)"
    using has_control_append [of "take k name" "CHR '' ''" "tl (conflict_suffix stamp) @ ext"]
      has_control_take [of k name] v by (auto simp: valid_name_iff conflict_suffix_def)
  then have c: "\<not> has_control (conflict_name name stamp)"
    by (simp add: n(1) conflict_suffix_def)
  have "12 \<le> length (conflict_name name stamp)" by (simp add: n(1) conflict_suffix_def)
  then have "conflict_name name stamp \<noteq> []" "conflict_name name stamp \<noteq> ''.''" "conflict_name name stamp \<noteq> ''..''"
    by auto
  moreover have "slash \<notin> set (conflict_name name stamp)" "backslash \<notin> set (conflict_name name stamp)"
    using ext(1) sl v set_take_subset [of k name] by (auto simp: n(1) valid_name_iff)
  ultimately show ?thesis using n(2) c by (simp add: valid_name_iff)
qed

lemma with_file_name_valid:
  assumes "valid_relpath p" and "valid_name n"
  shows "with_file_name p n = Inr (RelPath (join [slash] (butlast (segments p) @ [n])))"
proof -
  have all: "\<forall>s\<in>set (butlast (segments p) @ [n]). valid_name s"
    using assms by (auto simp: valid_relpath_def dest: in_set_butlastD)
  note parsed = relpath_parse_joined [OF _ all]
  show ?thesis
  proof (cases "length (segments p) = 1")
    case True
    then have "butlast (segments p) = []" by (cases "segments p") auto
    with parsed True show ?thesis by (simp add: with_file_name_def parent_segments)
  next
    case False
    then have ne: "butlast (segments p) \<noteq> []"
      using segments_not_Nil [of p] by (cases "segments p") (auto simp del: segments_not_Nil)
    with parsed False show ?thesis
      by (simp add: with_file_name_def parent_segments child_path_def join_append)
  qed
qed

lemma conflict_copy_valid:
  assumes "valid_relpath p" and "plain_stamp stamp"
  obtains q where "conflict_copy p stamp = Some q" and "valid_relpath q"
    and "segments q = butlast (segments p) @ [conflict_name (last (segments p)) stamp]"
proof -
  have ne: "segments p \<noteq> []" by simp
  have n: "valid_name (conflict_name (last (segments p)) stamp)"
    using conflict_name_valid assms last_in_set [OF ne] by (auto simp: valid_relpath_def)
  let ?q = "RelPath (join [slash] (butlast (segments p) @ [conflict_name (last (segments p)) stamp]))"
  have all: "\<forall>s\<in>set (butlast (segments p) @ [conflict_name (last (segments p)) stamp]). valid_name s"
    using assms n by (auto simp: valid_relpath_def dest: in_set_butlastD)
  then have sq: "segments ?q = butlast (segments p) @ [conflict_name (last (segments p)) stamp]"
    by (intro segments_join) auto
  have "conflict_copy p stamp = Some ?q"
    by (simp add: conflict_copy_def file_name_segments with_file_name_valid [OF assms(1) n])
  moreover have "valid_relpath ?q" using all by (simp add: valid_relpath_def sq)
  ultimately show ?thesis using sq by (rule that)
qed

section \<open>Properties\<close>

text \<open>
  C20. A run plans an action exactly when the three-way comparison of its path calls for it, and
  blocks exactly the paths that are a file on one side and a directory on the other; in
  particular the scan of a directory's range of keys is the test of everything inside it.
\<close>

theorem reconcile_refines_merge:
  "set (actions (reconcile l r b stamp)) = {a. wants l r b stamp a}
   \<and> set (blocked (reconcile l r b stamp)) = {p. \<exists>e f. RBT.lookup l p = Some e \<and> RBT.lookup r p = Some f
        \<and> entry_is_directory e \<noteq> entry_is_directory f}
   \<and> held (reconcile l r b stamp) = []"
  using reconcile_actions [of _ l r b stamp] reconcile_blocked [of _ l r b stamp]
  by (intro conjI set_eqI) (auto simp: reconcile_def Let_def)

text \<open>
  The name of a conflict copy is free when neither side has it and no other local file would be copied
  to it. Two long names can share one (\<open>conflict_copies_collide\<close>).
\<close>

definition copy_is_free :: "snapshot \<Rightarrow> snapshot \<Rightarrow> string \<Rightarrow> relpath \<Rightarrow> relpath \<Rightarrow> bool" where
  "copy_is_free l r stamp p q \<longleftrightarrow> RBT.lookup l q = None \<and> RBT.lookup r q = None
     \<and> list_all (\<lambda>k. conflict_copy k stamp = Some q \<longrightarrow> k = p) (RBT.keys l)"

lemma copy_is_freeD:
  "copy_is_free l r stamp p q \<Longrightarrow> RBT.lookup l k \<noteq> None \<Longrightarrow> conflict_copy k stamp = Some q \<Longrightarrow> k = p"
  by (auto simp: copy_is_free_def list_all_iff RBT.lookup_keys [symmetric] domIff)

text \<open>
  C21. At the path an action is about, no edit is overwritten: what is replaced or deleted on one side is
  absent there or still what both sides agreed on, a directory is removed on the server only when
  everything inside it is what both sides agreed on, and when both sides changed the local bytes go to a
  conflict copy. Where the name of that copy is free, no other action of the plan touches it, but
  for one that forgets a record of it.
\<close>

theorem no_edit_lost:
  assumes "a \<in> set (actions (reconcile l r b stamp))"
  shows "case a of
      Download p \<Rightarrow> RBT.lookup l p = None \<or> RBT.lookup l p = RBT.lookup b p
    | DeleteLocal p \<Rightarrow> RBT.lookup l p = RBT.lookup b p
    | Upload p \<Rightarrow> RBT.lookup r p = None \<or> RBT.lookup r p = RBT.lookup b p
    | DeleteRemote p \<Rightarrow> RBT.lookup r p = RBT.lookup b p
    | RemoveRemoteDirectory d \<Rightarrow> RBT.lookup l d = None
        \<and> (\<forall>p. is_inside p d \<and> RBT.lookup r p \<noteq> None \<longrightarrow> RBT.lookup r p = RBT.lookup b p)
    | RemoveLocalDirectory d \<Rightarrow> RBT.lookup r d = None
    | KeepBoth p q \<Rightarrow> conflict_copy p stamp = Some q \<and> RBT.lookup l p \<noteq> RBT.lookup b p \<and> RBT.lookup r p \<noteq> RBT.lookup b p
        \<and> (copy_is_free l r stamp p q \<longrightarrow> (\<forall>c\<in>set (actions (reconcile l r b stamp)).
             (subject c = q \<longrightarrow> c = Forget q) \<and> (\<forall>k. c = KeepBoth k q \<longrightarrow> k = p)))
    | _ \<Rightarrow> RBT.lookup l (subject a) = None \<or> RBT.lookup r (subject a) = None"
proof (cases "\<exists>p q. a = KeepBoth p q")
  case True
  then obtain p q where a: "a = KeepBoth p q" by blast
  have w: "wants l r b stamp a" using assms by (simp add: reconcile_actions)
  have "(subject c = q \<longrightarrow> c = Forget q) \<and> (\<forall>k. c = KeepBoth k q \<longrightarrow> k = p)"
    if free: "copy_is_free l r stamp p q" and c: "c \<in> set (actions (reconcile l r b stamp))" for c
  proof -
    from c have wc: "wants l r b stamp c" by (simp add: reconcile_actions)
    from free have n: "RBT.lookup l q = None" "RBT.lookup r q = None" by (simp_all add: copy_is_free_def)
    have "c = Forget q" if "subject c = q"
      using wc n that by (cases c) (auto simp: wants_def is_file_def Let_def)
    moreover have "k = p" if "c = KeepBoth k q" for k
      using wc copy_is_freeD [OF free, of k] that by (auto simp: wants_def is_file_def Let_def)
    ultimately show ?thesis by blast
  qed
  with w show ?thesis by (auto simp: a wants_def Let_def)
next
  case False
  then show ?thesis
    using assms unfolding reconcile_actions by (cases a) (auto simp: wants_def is_file_def Let_def split: if_splits)
qed

text \<open>Three snapshots: a file edited here, one edited there, one edited on both sides.\<close>

definition edited :: "string \<Rightarrow> entry" where "edited tag = EFile tag 3"

definition here :: snapshot where
  "here = RBT.bulkload [(RelPath ''a'', edited ''2''), (RelPath ''b'', edited ''1''), (RelPath ''c'', edited ''2''),
     (RelPath ''d'', EDirectory), (RelPath ''d/x'', edited ''1'')]"

definition there :: snapshot where
  "there = RBT.bulkload [(RelPath ''a'', edited ''1''), (RelPath ''b'', edited ''3''), (RelPath ''c'', edited ''3''),
     (RelPath ''n'', EDirectory), (RelPath ''n/y'', edited ''3'')]"

definition agreed :: snapshot where
  "agreed = RBT.bulkload [(RelPath ''a'', edited ''1''), (RelPath ''b'', edited ''1''), (RelPath ''c'', edited ''1''),
     (RelPath ''d'', EDirectory), (RelPath ''d/x'', edited ''1'')]"

theorem no_edit_lost_witness:
  "Download (RelPath ''b'') \<in> set (actions (reconcile here there agreed ''T''))
   \<and> RBT.lookup here (RelPath ''b'') = RBT.lookup agreed (RelPath ''b'')
   \<and> KeepBoth (RelPath ''c'') (RelPath ''c (conflict T)'') \<in> set (actions (reconcile here there agreed ''T''))
   \<and> Upload (RelPath ''c (conflict T)'') \<notin> set (actions (reconcile here there agreed ''T''))"
proof -
  have d: "Download (RelPath ''b'') \<in> set (actions (reconcile here there agreed ''T''))"
    and k: "KeepBoth (RelPath ''c'') (RelPath ''c (conflict T)'') \<in> set (actions (reconcile here there agreed ''T''))"
    by code_simp+
  have "RBT.lookup here (RelPath ''b'') \<noteq> None" by code_simp
  with no_edit_lost [OF d] have "RBT.lookup here (RelPath ''b'') = RBT.lookup agreed (RelPath ''b'')" by simp
  moreover have "copy_is_free here there ''T'' (RelPath ''c'') (RelPath ''c (conflict T)'')" by code_simp
  with no_edit_lost [OF k] have "Upload (RelPath ''c (conflict T)'') \<notin> set (actions (reconcile here there agreed ''T''))"
    by auto
  ultimately show ?thesis using d k by blast
qed

text \<open>
  Actions come in an order that can be carried out: a directory is created before anything
  inside it is touched, and removed after everything inside it was.
\<close>

theorem plan_order:
  assumes "a \<in> set (actions (reconcile l r b stamp))" and "c \<in> set (actions (reconcile l r b stamp))"
    and "is_inside (subject c) (subject a)"
  shows "(a = CreateLocalDirectory (subject a) \<or> a = CreateRemoteDirectory (subject a)
      \<longrightarrow> precedes a c (actions (reconcile l r b stamp)))
    \<and> (a = RemoveLocalDirectory (subject a) \<and> c \<noteq> Forget (subject c)
      \<longrightarrow> precedes c a (actions (reconcile l r b stamp)))
    \<and> (a = RemoveRemoteDirectory (subject a) \<and> c \<noteq> Forget (subject c) \<and> c \<noteq> RemoveLocalDirectory (subject c)
      \<longrightarrow> precedes c a (actions (reconcile l r b stamp)))"
proof (intro conjI impI)
  have a: "wants l r b stamp a" and c: "wants l r b stamp c" using assms(1,2) by (simp_all add: reconcile_actions)
  { assume "a = CreateLocalDirectory (subject a) \<or> a = CreateRemoteDirectory (subject a)"
    then show "precedes a c (actions (reconcile l r b stamp))"
      using creation_first [OF a _ c assms(3)] by blast }
  { assume "a = RemoveLocalDirectory (subject a) \<and> c \<noteq> Forget (subject c)"
    then show "precedes c a (actions (reconcile l r b stamp))"
      using removal_last [OF a _ c assms(3)] by (metis action.distinct subject.simps(5)) }
  { assume "a = RemoveRemoteDirectory (subject a) \<and> c \<noteq> Forget (subject c) \<and> c \<noteq> RemoveLocalDirectory (subject c)"
    then show "precedes c a (actions (reconcile l r b stamp))"
      using removal_last [OF a _ c assms(3)] by (metis subject.simps(3,5)) }
qed

theorem plan_order_witness:
  "precedes (CreateLocalDirectory (RelPath ''n'')) (Download (RelPath ''n/y'')) (actions (reconcile here there agreed ''T''))
   \<and> precedes (DeleteLocal (RelPath ''d/x'')) (RemoveLocalDirectory (RelPath ''d'')) (actions (reconcile here there agreed ''T''))"
proof
  have "CreateLocalDirectory (RelPath ''n'') \<in> set (actions (reconcile here there agreed ''T''))"
    "Download (RelPath ''n/y'') \<in> set (actions (reconcile here there agreed ''T''))"
    "is_inside (subject (Download (RelPath ''n/y''))) (subject (CreateLocalDirectory (RelPath ''n'')))" by code_simp+
  from plan_order [OF this] show "precedes (CreateLocalDirectory (RelPath ''n'')) (Download (RelPath ''n/y''))
      (actions (reconcile here there agreed ''T''))" by simp
  have "RemoveLocalDirectory (RelPath ''d'') \<in> set (actions (reconcile here there agreed ''T''))"
    "DeleteLocal (RelPath ''d/x'') \<in> set (actions (reconcile here there agreed ''T''))"
    "is_inside (subject (DeleteLocal (RelPath ''d/x''))) (subject (RemoveLocalDirectory (RelPath ''d'')))" by code_simp+
  from plan_order [OF this] show "precedes (DeleteLocal (RelPath ''d/x'')) (RemoveLocalDirectory (RelPath ''d''))
      (actions (reconcile here there agreed ''T''))" by simp
qed

text \<open>
  C22. The name of a conflict copy is always a valid name, in the directory of the file, within
  the length of a name and cut at a character boundary; so no conflict is dropped: two sides that
  differ always get an action, unless the path is blocked or is a directory kept for what is in it.
\<close>

theorem conflict_always_named:
  assumes "valid_relpath p" and "plain_stamp stamp"
  shows "\<exists>q. conflict_copy p stamp = Some q \<and> valid_relpath q \<and> parent q = parent p
      \<and> length (file_name q) \<le> MAX_NAME_LEN
      \<and> (\<exists>k ext. file_name q = take k (file_name p) @ conflict_suffix stamp @ ext \<and> is_char_boundary (file_name p) k)"
proof -
  obtain q where q: "conflict_copy p stamp = Some q" "valid_relpath q"
    "segments q = butlast (segments p) @ [conflict_name (last (segments p)) stamp]"
    by (rule conflict_copy_valid [OF assms])
  obtain k ext where n: "conflict_name (last (segments p)) stamp = take k (last (segments p)) @ conflict_suffix stamp @ ext"
    "length (conflict_name (last (segments p)) stamp) \<le> MAX_NAME_LEN" "is_char_boundary (last (segments p)) k"
    by (rule conflict_name_shape [OF assms(2)])
  have "length (segments q) = length (segments p)" using q(3) by (cases "segments p" rule: rev_cases) auto
  then have "parent q = parent p" using q(3) by (simp add: parent_segments)
  with q n show ?thesis by (auto simp: file_name_segments)
qed

theorem conflict_always_named_witness:
  "\<exists>q. conflict_copy (RelPath ''notes/a.txt'') ''20260903T120000Z'' = Some q \<and> parent q = Some (RelPath ''notes'')"
proof -
  have "valid_relpath (RelPath ''notes/a.txt'')" "plain_stamp ''20260903T120000Z''" by code_simp+
  note c = conflict_always_named [OF this]
  have "parent (RelPath ''notes/a.txt'') = Some (RelPath ''notes'')" by code_simp
  with c show ?thesis by metis
qed

definition long_name :: "char \<Rightarrow> string" where
  "long_name c = replicate 240 CHR ''a'' @ [c]"

lemma long_names: "long_name CHR ''x'' \<noteq> long_name CHR ''y''" "valid_name (long_name CHR ''x'')" "valid_name (long_name CHR ''y'')"
  by code_simp+

lemma long_copy_x:
  "conflict_copy (RelPath (long_name CHR ''x'')) ''20260903T120000Z''
     = Some (RelPath (replicate 227 CHR ''a'' @ '' (conflict 20260903T120000Z)''))"
  by code_simp

lemma long_copy_y:
  "conflict_copy (RelPath (long_name CHR ''y'')) ''20260903T120000Z''
     = Some (RelPath (replicate 227 CHR ''a'' @ '' (conflict 20260903T120000Z)''))"
  by code_simp

text \<open>
  Two long names that differ only near their ends get the same conflict copy in one run, so
  the second copy is made over the first.
\<close>

theorem conflict_copies_collide:
  "long_name CHR ''x'' \<noteq> long_name CHR ''y'' \<and> valid_name (long_name CHR ''x'') \<and> valid_name (long_name CHR ''y'')
   \<and> conflict_copy (RelPath (long_name CHR ''x'')) ''20260903T120000Z''
     = conflict_copy (RelPath (long_name CHR ''y'')) ''20260903T120000Z''
   \<and> conflict_copy (RelPath (long_name CHR ''x'')) ''20260903T120000Z'' \<noteq> None"
  by (simp add: long_names long_copy_x long_copy_y)

end
