(* ===== verification/Held.thy ===== *)
theory Held
  imports Plan Grants
begin

text \<open>
  What a run holds back from the server: \<open>crates/client/src/sync/held.rs\<close>. Shares mount under a
  shelf; nothing is written into a read-only one or loose on the shelf, and neither the shelf nor
  a share itself is removed.
\<close>

section \<open>Rules\<close>

record held_rules =
  h_shelf :: "relpath option"
  h_mounts :: "(relpath \<times> access) list"

definition held_default :: held_rules where
  "held_default = \<lparr>h_shelf = None, h_mounts = []\<rparr>"

definition from_mounts :: "(string \<times> access) list \<Rightarrow> held_rules" where
  "from_mounts ms = (case relpath_parse SHARED_WITH_ME of
      Inl _ \<Rightarrow> held_default
    | Inr rack \<Rightarrow> \<lparr>h_shelf = Some rack,
        h_mounts = List.map_filter (\<lambda>(name, a). case child_path rack name of
          Inr p \<Rightarrow> Some (p, a) | Inl _ \<Rightarrow> None) ms\<rparr>)"

definition read_only :: "held_rules \<Rightarrow> relpath \<Rightarrow> bool" where
  "read_only h p \<longleftrightarrow> list_ex (\<lambda>(m, a). \<not> may_write_access a \<and> (p = m \<or> is_inside p m)) (h_mounts h)"

definition fixed :: "held_rules \<Rightarrow> relpath \<Rightarrow> bool" where
  "fixed h p \<longleftrightarrow> h_shelf h = Some p \<or> list_ex (\<lambda>(m, _). m = p) (h_mounts h)"

definition loose_on_the_shelf :: "held_rules \<Rightarrow> relpath \<Rightarrow> bool" where
  "loose_on_the_shelf h p = (case h_shelf h of
      None \<Rightarrow> False
    | Some rack \<Rightarrow>
        let under_a_mount = list_ex (\<lambda>(m, _). m = p \<or> is_inside p m) (h_mounts h)
        in p = rack \<or> (is_inside p rack \<and> \<not> under_a_mount))"

definition refuses_upload :: "held_rules \<Rightarrow> relpath \<Rightarrow> bool" where
  "refuses_upload h p \<longleftrightarrow> read_only h p \<or> loose_on_the_shelf h p"

definition holding :: "held_rules \<Rightarrow> action \<Rightarrow> relpath list \<Rightarrow> relpath option" where
  "holding h a uprooted =
     (let kept_put = (\<lambda>p. if refuses_upload h p then Some p else None);
          kept_removal = (\<lambda>p. if read_only h p \<or> fixed h p \<or> list_ex (is_inside p) uprooted then Some p else None)
      in case a of
        Upload p \<Rightarrow> kept_put p
      | CreateRemoteDirectory p \<Rightarrow> kept_put p
      | DeleteRemote p \<Rightarrow> kept_removal p
      | RemoveRemoteDirectory p \<Rightarrow> kept_removal p
      | _ \<Rightarrow> None)"

definition uprooted :: "held_rules \<Rightarrow> action list \<Rightarrow> relpath list" where
  "uprooted h as = List.map_filter (\<lambda>a. case a of
      RemoveRemoteDirectory p \<Rightarrow> if fixed h p then Some p else None | _ \<Rightarrow> None) as"

fun hold_each :: "held_rules \<Rightarrow> relpath list \<Rightarrow> action list \<Rightarrow> action list \<times> relpath list \<Rightarrow> action list \<times> relpath list" where
  "hold_each h up [] acc = acc"
| "hold_each h up (a # as) (kept, back_held) =
     hold_each h up as
       (case a of
          KeepBoth p copy \<Rightarrow>
            if refuses_upload h copy then (kept @ [SetAside p copy], back_held @ [copy])
            else (kept @ [a], back_held)
        | _ \<Rightarrow> (case holding h a up of
              Some p \<Rightarrow> (kept, back_held @ [p])
            | None \<Rightarrow> (kept @ [a], back_held)))"

definition apply_held :: "held_rules \<Rightarrow> plan \<Rightarrow> plan" where
  "apply_held h p =
     (let (kept, back_held) = hold_each h (uprooted h (actions p)) (actions p) ([], held p)
      in \<lparr>actions = kept, blocked = blocked p, held = back_held\<rparr>)"

section \<open>What comes through\<close>

definition after_holding :: "held_rules \<Rightarrow> relpath list \<Rightarrow> action \<Rightarrow> action option" where
  "after_holding h up a = (case a of
      KeepBoth p copy \<Rightarrow> Some (if refuses_upload h copy then SetAside p copy else a)
    | _ \<Rightarrow> (if holding h a up = None then Some a else None))"

lemma hold_each_kept:
  "fst (hold_each h up as (kept, back_held)) = kept @ List.map_filter (after_holding h up) as"
proof (induction as arbitrary: kept back_held)
  case Nil
  then show ?case by (simp add: map_filter_def)
next
  case (Cons a as)
  show ?case
    by (cases a) (auto simp: Cons.IH map_filter_def after_holding_def holding_def Let_def)
qed

lemma hold_each_held:
  "set (snd (hold_each h up as (kept, back_held))) = set back_held \<union> {p. \<exists>a\<in>set as. holding h a up = Some p}
     \<union> {q. \<exists>p. KeepBoth p q \<in> set as \<and> refuses_upload h q}"
proof (induction as arbitrary: kept back_held)
  case Nil
  then show ?case by simp
next
  case (Cons a as)
  show ?case
    by (cases a) (auto simp: Cons.IH holding_def Let_def)
qed

lemma apply_held_actions: "actions (apply_held h p) = List.map_filter (after_holding h (uprooted h (actions p))) (actions p)"
  using hold_each_kept [of h "uprooted h (actions p)" "actions p" "[]" "held p"]
  by (simp add: apply_held_def case_prod_unfold Let_def)

lemma in_map_filter: "y \<in> set (List.map_filter f xs) \<longleftrightarrow> (\<exists>x\<in>set xs. f x = Some y)"
  by (force simp: map_filter_def)

lemma uprooted_iff: "d \<in> set (uprooted h as) \<longleftrightarrow> RemoveRemoteDirectory d \<in> set as \<and> fixed h d"
proof -
  have "(case a of RemoveRemoteDirectory p \<Rightarrow> if fixed h p then Some p else None | _ \<Rightarrow> None) = Some d
      \<longleftrightarrow> a = RemoveRemoteDirectory d \<and> fixed h d" for a
    by (cases a) auto
  then show ?thesis by (simp add: uprooted_def in_map_filter)
qed

lemma after_holding_Some:
  "after_holding h up a = Some c \<Longrightarrow> c = a \<or> (\<exists>p q. a = KeepBoth p q \<and> c = SetAside p q)"
  by (cases a) (auto simp: after_holding_def split: if_splits)

text \<open>What a plan would write to the server.\<close>

fun writes_remote :: "action \<Rightarrow> relpath option" where
  "writes_remote (Upload p) = Some p"
| "writes_remote (CreateRemoteDirectory p) = Some p"
| "writes_remote (DeleteRemote p) = Some p"
| "writes_remote (RemoveRemoteDirectory p) = Some p"
| "writes_remote (KeepBoth p q) = Some q"
| "writes_remote _ = None"

section \<open>Properties\<close>

text \<open>
  C23. Of what a plan would do to the server, nothing that comes through touches a read-only share,
  nothing is put loose on the shelf, neither the shelf nor a share is removed, and nothing inside
  a directory whose removal was held back is removed either.
\<close>

theorem shares_left_alone:
  assumes "c \<in> set (actions (apply_held h p))" and "writes_remote c = Some q"
  shows "\<not> read_only h q
    \<and> (c = Upload q \<or> c = CreateRemoteDirectory q \<or> (\<exists>p. c = KeepBoth p q) \<longrightarrow> \<not> loose_on_the_shelf h q)
    \<and> (c = DeleteRemote q \<or> c = RemoveRemoteDirectory q \<longrightarrow> \<not> fixed h q
        \<and> (\<forall>d. RemoveRemoteDirectory d \<in> set (actions p) \<and> fixed h d \<longrightarrow> \<not> is_inside q d))"
proof -
  from assms(1) obtain a where a: "after_holding h (uprooted h (actions p)) a = Some c"
    by (auto simp: apply_held_actions in_map_filter)
  show ?thesis using a assms(2)
    by (cases a) (auto simp: after_holding_def holding_def Let_def refuses_upload_def list_ex_iff uprooted_iff
        split: if_splits)
qed

definition shelf_of :: held_rules where
  "shelf_of = from_mounts [(''archive'', Read), (''inbox'', Write)]"

definition held_sample :: plan where
  "held_sample = \<lparr>actions = [Upload (RelPath ''Shared with me/archive/new''), Upload (RelPath ''Shared with me/inbox/new''),
     DeleteRemote (RelPath ''Shared with me/inbox/old''), RemoveRemoteDirectory (RelPath ''Shared with me/inbox'')],
     blocked = [], held = []\<rparr>"

theorem shares_left_alone_witness:
  "actions (apply_held shelf_of held_sample) = [Upload (RelPath ''Shared with me/inbox/new'')]
   \<and> \<not> read_only shelf_of (RelPath ''Shared with me/inbox/new'')"
proof -
  have a: "actions (apply_held shelf_of held_sample) = [Upload (RelPath ''Shared with me/inbox/new'')]" by code_simp
  then have "Upload (RelPath ''Shared with me/inbox/new'') \<in> set (actions (apply_held shelf_of held_sample))" by simp
  from shares_left_alone [OF this] a show ?thesis by simp
qed

text \<open>
  C24. Holding back never adds work and never loses a path silently: what comes through was planned
  or is a conflict whose copy stays here; what does not come through,
  and every copy that stays, is reported; and nothing that only reads the server is held.
\<close>

theorem holding_accounts_for_all:
  "(\<forall>c\<in>set (actions (apply_held h p)). c \<in> set (actions p)
      \<or> (\<exists>q r. c = SetAside q r \<and> KeepBoth q r \<in> set (actions p) \<and> r \<in> set (held (apply_held h p))))
   \<and> (\<forall>a\<in>set (actions p). a \<in> set (actions (apply_held h p))
      \<or> (\<exists>q. writes_remote a = Some q \<and> q \<in> set (held (apply_held h p))))
   \<and> (\<forall>a\<in>set (actions p). writes_remote a = None \<longrightarrow> a \<in> set (actions (apply_held h p)))
   \<and> length (actions (apply_held h p)) \<le> length (actions p) \<and> blocked (apply_held h p) = blocked p"
proof -
  let ?up = "uprooted h (actions p)"
  have acts: "c \<in> set (actions (apply_held h p)) \<longleftrightarrow> (\<exists>a\<in>set (actions p). after_holding h ?up a = Some c)" for c
    by (simp add: apply_held_actions in_map_filter)
  have kept_back: "q \<in> set (held (apply_held h p)) \<longleftrightarrow> q \<in> set (held p) \<or> (\<exists>a\<in>set (actions p). holding h a ?up = Some q)
      \<or> (\<exists>p'. KeepBoth p' q \<in> set (actions p) \<and> refuses_upload h q)" for q
    using hold_each_held [of h ?up "actions p" "[]" "held p"]
    by (simp add: apply_held_def case_prod_unfold Let_def)
  have through: "c \<in> set (actions p)
      \<or> (\<exists>q r. c = SetAside q r \<and> KeepBoth q r \<in> set (actions p) \<and> r \<in> set (held (apply_held h p)))"
    if "a \<in> set (actions p)" "after_holding h ?up a = Some c" for a c
    using after_holding_Some [OF that(2)]
  proof
    assume "\<exists>q r. a = KeepBoth q r \<and> c = SetAside q r"
    then obtain q r where qr: "a = KeepBoth q r" "c = SetAside q r" by blast
    with that(2) have "refuses_upload h r" by (simp add: after_holding_def split: if_splits)
    with qr that(1) kept_back show ?thesis by blast
  qed (use that(1) in simp)
  have out: "a \<in> set (actions (apply_held h p)) \<or> (\<exists>q. writes_remote a = Some q \<and> q \<in> set (held (apply_held h p)))"
    if "a \<in> set (actions p)" for a
  proof (cases "after_holding h ?up a = Some a")
    case True
    with that acts show ?thesis by blast
  next
    case False
    then have "(\<exists>q. writes_remote a = Some q \<and> holding h a ?up = Some q)
        \<or> (\<exists>q r. a = KeepBoth q r \<and> refuses_upload h r)"
      by (cases a) (auto simp: after_holding_def holding_def Let_def split: if_splits)
    with that kept_back show ?thesis by fastforce
  qed
  have read: "a \<in> set (actions (apply_held h p))" if "a \<in> set (actions p)" "writes_remote a = None" for a
  proof -
    have "after_holding h ?up a = Some a"
      using that(2) by (cases a) (simp_all add: after_holding_def holding_def Let_def)
    with that(1) acts show ?thesis by blast
  qed
  have "length (actions (apply_held h p)) \<le> length (actions p)"
    unfolding apply_held_actions map_filter_def by simp
  moreover have "blocked (apply_held h p) = blocked p" by (simp add: apply_held_def case_prod_unfold Let_def)
  ultimately show ?thesis using acts through out read by blast
qed

theorem holding_accounts_for_all_witness:
  "Upload (RelPath ''Shared with me/archive/new'') \<in> set (actions held_sample)
   \<and> RelPath ''Shared with me/archive/new'' \<in> set (held (apply_held shelf_of held_sample))"
proof -
  have m: "Upload (RelPath ''Shared with me/archive/new'') \<in> set (actions held_sample)"
    by (simp add: held_sample_def)
  have "actions (apply_held shelf_of held_sample) = [Upload (RelPath ''Shared with me/inbox/new'')]" by code_simp
  then have "Upload (RelPath ''Shared with me/archive/new'') \<notin> set (actions (apply_held shelf_of held_sample))" by simp
  with holding_accounts_for_all [of shelf_of held_sample] m
  have "\<exists>q. writes_remote (Upload (RelPath ''Shared with me/archive/new'')) = Some q
      \<and> q \<in> set (held (apply_held shelf_of held_sample))" by blast
  with m show ?thesis by simp
qed

end
