(* ===== verification/Fit.thy ===== *)
theory Fit
  imports Plan
begin

text \<open>
  What a folder can hold and what it leaves alone: \<open>crates/client/src/sync/fit.rs\<close> and
  \<open>ignore.rs\<close>. The tables of Unicode (normalisation, the mapping to lower case) are parameters.
  The lemma at the end states what is left once the unfit paths are set aside.
\<close>

record unicode =
  nfc :: "string \<Rightarrow> string"
  lower :: "string \<Rightarrow> string"

section \<open>Ignored names\<close>

definition PARTIAL_SUFFIX :: string where "PARTIAL_SUFFIX = ''.stashpart''"

definition SYSTEM_FILES :: "string list" where
  "SYSTEM_FILES = [''.ds_store'', ''thumbs.db'', ''ehthumbs.db'', ''desktop.ini'']"

definition is_ignored :: "unicode \<Rightarrow> string \<Rightarrow> bool" where
  "is_ignored U name \<longleftrightarrow> lower U name \<in> set SYSTEM_FILES
     \<or> starts_with name ''~$'' \<or> starts_with name ''._''
     \<or> (starts_with name ''.~lock.'' \<and> ends_with name ''#'')
     \<or> ends_with name PARTIAL_SUFFIX"

definition hides :: "unicode \<Rightarrow> relpath \<Rightarrow> bool" where
  "hides U p \<longleftrightarrow> list_ex (is_ignored U) (split_on slash (path_str p))"

section \<open>Names Windows refuses\<close>

definition WINDOWS_FORBIDDEN :: "char list" where
  "WINDOWS_FORBIDDEN = [CHR ''<'', CHR ''>'', CHR '':'', CHR 0x22, CHR ''|'', CHR ''?'', CHR ''*'']"

definition WINDOWS_RESERVED :: "string list" where
  "WINDOWS_RESERVED = [''con'', ''prn'', ''aux'', ''nul'']"

definition reserved_device :: "string \<Rightarrow> bool" where
  "reserved_device stem \<longleftrightarrow> stem \<in> set WINDOWS_RESERVED
     \<or> list_ex (\<lambda>prefix. case strip_prefix stem prefix of
          Some [d] \<Rightarrow> CHR ''1'' \<le> d \<and> d \<le> CHR ''9'' | _ \<Rightarrow> False) [''com'', ''lpt'']"

definition windows_holds :: "unicode \<Rightarrow> string \<Rightarrow> bool" where
  "windows_holds U name \<longleftrightarrow>
     \<not> (list_ex (\<lambda>c. c \<in> set WINDOWS_FORBIDDEN) name \<or> ends_with name ''.'' \<or> ends_with name '' '')
     \<and> \<not> reserved_device (lower U (trim_end (hd (split_on CHR ''.'' name))))"

section \<open>What a folder cannot hold\<close>

record rules =
  windows_names :: bool
  folds_case :: bool

definition folded :: "unicode \<Rightarrow> relpath \<Rightarrow> string" where
  "folded U p = lower U (nfc U (path_str p))"

text \<open>\<open>entry(k).or_insert_with\<close>.\<close>

definition or_insert :: "'k::linorder \<Rightarrow> 'v \<Rightarrow> ('k, 'v) rbt \<Rightarrow> ('k, 'v) rbt" where
  "or_insert k v m = (case RBT.lookup m k of None \<Rightarrow> RBT.insert k v m | Some _ \<Rightarrow> m)"

definition refused_names :: "unicode \<Rightarrow> relpath list \<Rightarrow> (relpath, string) rbt \<Rightarrow> (relpath, string) rbt" where
  "refused_names U ps m = fold (\<lambda>(p, reason). RBT.insert p reason)
     (List.map_filter (\<lambda>p. map_option
         (\<lambda>name. (p, ''Windows cannot hold a file or folder named '' @ [CHR 0x22] @ name @ [CHR 0x22]))
         (find (\<lambda>name. \<not> windows_holds U name) (split_on slash (path_str p)))) ps) m"

definition spellings :: "unicode \<Rightarrow> relpath list \<Rightarrow> (string, relpath list) rbt" where
  "spellings U ps = fold (\<lambda>p m. RBT.insert (folded U p)
     (insort_insert p (case RBT.lookup m (folded U p) of None \<Rightarrow> [] | Some qs \<Rightarrow> qs)) m) ps RBT.empty"

definition clash_reason :: "relpath list \<Rightarrow> relpath \<Rightarrow> string" where
  "clash_reason clashing p =
     ''this folder cannot tell it apart from '' @ join '', '' (map path_str (filter (\<lambda>q. q \<noteq> p) clashing))
     @ '', which differs only in case or accents''"

definition clashes :: "unicode \<Rightarrow> relpath list \<Rightarrow> (relpath, string) rbt \<Rightarrow> (relpath, string) rbt" where
  "clashes U ps m = fold (\<lambda>clashing m. fold (\<lambda>p. or_insert p (clash_reason clashing p)) clashing m)
     (filter (\<lambda>qs. 1 < length qs) (map snd (RBT.entries (spellings U ps)))) m"

definition inside_unfit :: "relpath list \<Rightarrow> relpath list \<Rightarrow> (relpath, string) rbt \<Rightarrow> (relpath, string) rbt" where
  "inside_unfit folders ps m = fold (\<lambda>(p, reason). or_insert p reason)
     (List.map_filter (\<lambda>p. map_option
         (\<lambda>folder. (p, ''it is inside '' @ path_str folder @ '', which this folder cannot hold''))
         (find (is_inside p) folders)) ps) m"

definition unfit :: "unicode \<Rightarrow> snapshot \<Rightarrow> snapshot \<Rightarrow> rules \<Rightarrow> (relpath, string) rbt" where
  "unfit U local remote rs =
     (let m1 = (if windows_names rs then refused_names U (RBT.keys remote) RBT.empty else RBT.empty);
          m2 = (if folds_case rs then clashes U (RBT.keys local @ RBT.keys remote) m1 else m1)
      in inside_unfit (RBT.keys m2) (RBT.keys local @ RBT.keys remote) m2)"

section \<open>What is left\<close>

lemma or_insert_dom: "RBT.lookup (or_insert k v m) x \<noteq> None \<longleftrightarrow> x = k \<or> RBT.lookup m x \<noteq> None"
  by (auto simp: or_insert_def split: option.splits)

lemma fold_insert_dom:
  "RBT.lookup (fold (\<lambda>(p, reason). RBT.insert p reason) prs m) x \<noteq> None \<longleftrightarrow> x \<in> fst ` set prs \<or> RBT.lookup m x \<noteq> None"
  by (induction prs arbitrary: m) (auto split: if_splits)

lemma fold_or_insert_pairs_dom:
  "RBT.lookup (fold (\<lambda>(p, reason). or_insert p reason) prs m) x \<noteq> None \<longleftrightarrow> x \<in> fst ` set prs \<or> RBT.lookup m x \<noteq> None"
proof (induction prs arbitrary: m)
  case (Cons pr prs)
  have "RBT.lookup (fold (\<lambda>(p, reason). or_insert p reason) prs (or_insert (fst pr) (snd pr) m)) x \<noteq> None
      \<longleftrightarrow> x \<in> fst ` set prs \<or> RBT.lookup (or_insert (fst pr) (snd pr) m) x \<noteq> None" by (rule Cons.IH)
  then show ?case by (simp add: case_prod_unfold or_insert_dom del: not_None_eq) blast
qed simp

lemma map_filter_keys:
  "x \<in> fst ` set (List.map_filter (\<lambda>p. map_option (\<lambda>y. (p, f p y)) (g p)) ps) \<longleftrightarrow> x \<in> set ps \<and> g x \<noteq> None"
  by (force simp: map_filter_def)

lemma refused_names_dom:
  "RBT.lookup (refused_names U ps m) x \<noteq> None \<longleftrightarrow>
     RBT.lookup m x \<noteq> None \<or> (x \<in> set ps \<and> \<not> list_all (windows_holds U) (segments x))"
proof -
  have "find (\<lambda>name. \<not> windows_holds U name) (segments x) = None \<longleftrightarrow> list_all (windows_holds U) (segments x)"
    by (simp add: find_None_set list_all_iff)
  then show ?thesis
    unfolding refused_names_def fold_insert_dom map_filter_keys segments_def by (auto simp del: not_None_eq)
qed

lemma insort_insert_set:
  fixes A :: "'a::linorder set"
  shows "finite A \<Longrightarrow> insort_insert p (sorted_list_of_set A) = sorted_list_of_set (insert p A)"
  by (cases "p \<in> A") (simp_all add: insort_insert_triv insort_insert_insort insert_absorb sorted_list_of_set_insert)

lemma spellings_snoc: "spellings U (ps @ [p]) = RBT.insert (folded U p)
    (insort_insert p (case RBT.lookup (spellings U ps) (folded U p) of None \<Rightarrow> [] | Some qs \<Rightarrow> qs)) (spellings U ps)"
  by (simp add: spellings_def)

lemma spellings_value:
  "RBT.lookup (spellings U ps) s =
     (if s \<in> set (map (folded U) ps) then Some (sorted_list_of_set {p \<in> set ps. folded U p = s}) else None)"
proof (induction ps arbitrary: s rule: rev_induct)
  case Nil
  then show ?case by (simp add: spellings_def)
next
  case (snoc p ps)
  let ?A = "{q \<in> set ps. folded U q = folded U p}"
  have "insort_insert p (case RBT.lookup (spellings U ps) (folded U p) of None \<Rightarrow> [] | Some qs \<Rightarrow> qs)
      = sorted_list_of_set (insert p ?A)"
  proof (cases "folded U p \<in> set (map (folded U) ps)")
    case False
    then have A: "?A = {}" by (metis (mono_tags, lifting) Collect_empty_eq image_eqI set_map)
    show ?thesis unfolding A using snoc [of "folded U p"] False by (simp add: insort_insert_key_def)
  next
    case True
    with insort_insert_set [of ?A p] snoc [of "folded U p"] show ?thesis by simp
  qed
  moreover have "{q \<in> set (ps @ [p]). folded U q = folded U p} = insert p ?A" by auto
  moreover have "folded U p \<noteq> s \<Longrightarrow> {q \<in> set (ps @ [p]). folded U q = s} = {q \<in> set ps. folded U q = s}" by auto
  ultimately show ?case using snoc [of s] by (simp add: spellings_snoc)
qed

lemma clashing_groups:
  "qs \<in> set (filter (\<lambda>qs. 1 < length qs) (map snd (RBT.entries (spellings U ps)))) \<longleftrightarrow>
     (\<exists>s\<in>set (map (folded U) ps). qs = sorted_list_of_set {p \<in> set ps. folded U p = s}) \<and> 1 < length qs"
proof -
  have "(s, qs) \<in> set (RBT.entries (spellings U ps)) \<longleftrightarrow>
      s \<in> set (map (folded U) ps) \<and> qs = sorted_list_of_set {p \<in> set ps. folded U p = s}" for s
    by (auto simp: spellings_value simp flip: RBT.lookup_in_tree)
  then show ?thesis by (force simp: image_iff)
qed

lemma fold_or_insert_dom:
  "RBT.lookup (fold (\<lambda>p. or_insert p (f p)) ps m) x \<noteq> None \<longleftrightarrow> x \<in> set ps \<or> RBT.lookup m x \<noteq> None"
proof (induction ps arbitrary: m)
  case (Cons p ps)
  have "RBT.lookup (fold (\<lambda>p. or_insert p (f p)) ps (or_insert p (f p) m)) x \<noteq> None
      \<longleftrightarrow> x \<in> set ps \<or> RBT.lookup (or_insert p (f p) m) x \<noteq> None" by (rule Cons.IH)
  then show ?case by (simp only: fold_simps comp_apply or_insert_dom) auto
qed simp

lemma fold_groups_dom:
  "RBT.lookup (fold (\<lambda>qs m. fold (\<lambda>p. or_insert p (f qs p)) qs m) gs m) x \<noteq> None
     \<longleftrightarrow> (\<exists>qs\<in>set gs. x \<in> set qs) \<or> RBT.lookup m x \<noteq> None"
proof (induction gs arbitrary: m)
  case (Cons g gs)
  have "RBT.lookup (fold (\<lambda>qs m. fold (\<lambda>p. or_insert p (f qs p)) qs m) gs
        (fold (\<lambda>p. or_insert p (f g p)) g m)) x \<noteq> None
      \<longleftrightarrow> (\<exists>qs\<in>set gs. x \<in> set qs) \<or> RBT.lookup (fold (\<lambda>p. or_insert p (f g p)) g m) x \<noteq> None"
    by (rule Cons.IH)
  then show ?case by (simp add: fold_or_insert_dom del: not_None_eq) blast
qed simp

lemma two_of: "finite A \<Longrightarrow> 1 < card A \<longleftrightarrow> (\<exists>x\<in>A. \<exists>y\<in>A. x \<noteq> y)"
  by (metis One_nat_def card_le_Suc0_iff_eq not_le)

lemma clashes_dom:
  "RBT.lookup (clashes U ps m) x \<noteq> None \<longleftrightarrow>
     RBT.lookup m x \<noteq> None \<or> (x \<in> set ps \<and> (\<exists>y\<in>set ps. y \<noteq> x \<and> folded U y = folded U x))"
proof -
  have "(\<exists>qs\<in>set (filter (\<lambda>qs. 1 < length qs) (map snd (RBT.entries (spellings U ps)))). x \<in> set qs)
      \<longleftrightarrow> (x \<in> set ps \<and> (\<exists>y\<in>set ps. y \<noteq> x \<and> folded U y = folded U x))" (is "?l \<longleftrightarrow> ?r")
  proof
    assume ?l
    then obtain s where s: "x \<in> set ps" "folded U x = s" "1 < card {p \<in> set ps. folded U p = s}"
      unfolding Bex_def clashing_groups by auto
    then obtain a b where ab: "a \<in> {p \<in> set ps. folded U p = s}" "b \<in> {p \<in> set ps. folded U p = s}" "a \<noteq> b"
      using two_of [of "{p \<in> set ps. folded U p = s}"] by auto
    show ?r
    proof (cases "a = x")
      case True
      with ab s show ?thesis by (intro conjI bexI [of _ b]) auto
    next
      case False
      with ab s show ?thesis by (intro conjI bexI [of _ a]) auto
    qed
  next
    assume r: ?r
    let ?A = "{p \<in> set ps. folded U p = folded U x}"
    have "1 < card ?A" using r two_of [of ?A] by auto
    then have "sorted_list_of_set ?A \<in> set (filter (\<lambda>qs. 1 < length qs) (map snd (RBT.entries (spellings U ps))))"
      unfolding clashing_groups using r by auto
    moreover have "x \<in> set (sorted_list_of_set ?A)" using r by simp
    ultimately show ?l by blast
  qed
  then show ?thesis unfolding clashes_def fold_groups_dom by blast
qed

lemma inside_unfit_dom:
  "RBT.lookup (inside_unfit fs ps m) x \<noteq> None \<longleftrightarrow>
     RBT.lookup m x \<noteq> None \<or> (x \<in> set ps \<and> (\<exists>f\<in>set fs. is_inside x f))"
  unfolding inside_unfit_def fold_or_insert_pairs_dom map_filter_keys find_None_set by blast

text \<open>What is unfit, by the three reasons there are.\<close>

lemma unfit_iff:
  "RBT.lookup (unfit U local remote rs) x \<noteq> None \<longleftrightarrow>
     (let ps = set (RBT.keys local) \<union> set (RBT.keys remote);
          direct = (\<lambda>p. (windows_names rs \<and> p \<in> set (RBT.keys remote) \<and> \<not> list_all (windows_holds U) (segments p))
            \<or> (folds_case rs \<and> p \<in> ps \<and> (\<exists>q\<in>ps. q \<noteq> p \<and> folded U q = folded U p)))
      in direct x \<or> (x \<in> ps \<and> (\<exists>f. direct f \<and> is_inside x f)))"
proof -
  define m1 where "m1 = (if windows_names rs then refused_names U (RBT.keys remote) RBT.empty else RBT.empty)"
  define m2 where "m2 = (if folds_case rs then clashes U (RBT.keys local @ RBT.keys remote) m1 else m1)"
  have m1: "RBT.lookup m1 p \<noteq> None \<longleftrightarrow>
      windows_names rs \<and> p \<in> set (RBT.keys remote) \<and> \<not> list_all (windows_holds U) (segments p)" for p
    using refused_names_dom [of U "RBT.keys remote" RBT.empty p] by (simp add: m1_def del: not_None_eq)
  have m2: "RBT.lookup m2 p \<noteq> None \<longleftrightarrow> RBT.lookup m1 p \<noteq> None
      \<or> (folds_case rs \<and> p \<in> set (RBT.keys local) \<union> set (RBT.keys remote)
          \<and> (\<exists>q\<in>set (RBT.keys local) \<union> set (RBT.keys remote). q \<noteq> p \<and> folded U q = folded U p))" for p
    using clashes_dom [of U "RBT.keys local @ RBT.keys remote" m1 p] by (simp add: m2_def del: not_None_eq)
  have "unfit U local remote rs = inside_unfit (RBT.keys m2) (RBT.keys local @ RBT.keys remote) m2"
    by (simp add: unfit_def m1_def m2_def Let_def)
  then have "RBT.lookup (unfit U local remote rs) x \<noteq> None \<longleftrightarrow> RBT.lookup m2 x \<noteq> None
      \<or> (x \<in> set (RBT.keys local) \<union> set (RBT.keys remote) \<and> (\<exists>f. RBT.lookup m2 f \<noteq> None \<and> is_inside x f))"
    by (simp only: inside_unfit_dom set_append Bex_def set_keys)
  then show ?thesis unfolding Let_def m2 m1 by blast
qed

section \<open>Properties\<close>

text \<open>
  C25. What is left of both sides once the unfit paths are set aside can be held: on Windows no
  name from the server is one it refuses, in a folder that folds case no two paths fold to the
  same spelling, and nothing is left inside a path that was set aside.
\<close>

theorem fit_can_be_held:
  assumes "p \<in> set (RBT.keys (retain (\<lambda>p. RBT.lookup (unfit U local remote rs) p = None) remote))"
  shows "(windows_names rs \<longrightarrow> list_all (windows_holds U) (segments p))
    \<and> (folds_case rs \<longrightarrow> (\<forall>q. q \<in> set (RBT.keys local) \<or> q \<in> set (RBT.keys remote) \<longrightarrow>
          folded U q = folded U p \<longrightarrow> q = p))
    \<and> (\<forall>d. RBT.lookup (unfit U local remote rs) d \<noteq> None \<longrightarrow> \<not> is_inside p d)"
proof -
  have p: "RBT.lookup (unfit U local remote rs) p = None" "p \<in> set (RBT.keys remote)"
    using assms by (auto simp: set_keys split: if_splits)
  have trans: "is_inside p d \<Longrightarrow> is_inside d f \<Longrightarrow> is_inside p f" for d f
    by (force simp: is_inside_text)
  let ?ps = "set (RBT.keys local) \<union> set (RBT.keys remote)"
  define direct where "direct = (\<lambda>p. (windows_names rs \<and> p \<in> set (RBT.keys remote) \<and> \<not> list_all (windows_holds U) (segments p))
      \<or> (folds_case rs \<and> p \<in> ?ps \<and> (\<exists>q\<in>?ps. q \<noteq> p \<and> folded U q = folded U p)))"
  have u: "RBT.lookup (unfit U local remote rs) x \<noteq> None
      \<longleftrightarrow> direct x \<or> (x \<in> ?ps \<and> (\<exists>f. direct f \<and> is_inside x f))" for x
    unfolding direct_def unfit_iff Let_def ..
  have np: "\<not> direct p" "\<And>f. direct f \<Longrightarrow> \<not> is_inside p f" using u [of p] p by auto
  have "\<not> is_inside p d" if "RBT.lookup (unfit U local remote rs) d \<noteq> None" for d
  proof
    assume i: "is_inside p d"
    have "direct d \<or> (\<exists>f. direct f \<and> is_inside d f)" using iffD1 [OF u that] by fast
    then show False
    proof (elim disjE exE conjE)
      assume "direct d"
      with np(2) i show False by simp
    next
      fix f assume "direct f" "is_inside d f"
      then show False using np(2) [of f] trans [OF i, of f] by blast
    qed
  qed
  moreover have "windows_names rs \<longrightarrow> list_all (windows_holds U) (segments p)"
    using np(1) p(2) by (auto simp: direct_def)
  moreover have "folds_case rs \<longrightarrow> (\<forall>q. q \<in> set (RBT.keys local) \<or> q \<in> set (RBT.keys remote) \<longrightarrow>
      folded U q = folded U p \<longrightarrow> q = p)"
    using np(1) p(2) by (auto simp: direct_def)
  ultimately show ?thesis by blast
qed

definition plain_letters :: unicode where
  "plain_letters = \<lparr>nfc = id,
     lower = map (\<lambda>c. if CHR ''A'' \<le> c \<and> c \<le> CHR ''Z'' then char_of ((of_char c :: nat) + 32) else c)\<rparr>"

definition clashing_names :: snapshot where
  "clashing_names = RBT.bulkload [(RelPath ''A'', EDirectory), (RelPath ''a'', EDirectory), (RelPath ''ok'', EDirectory)]"

theorem fit_can_be_held_witness:
  "RBT.keys (retain (\<lambda>p. RBT.lookup (unfit plain_letters RBT.empty clashing_names
       \<lparr>windows_names = True, folds_case = True\<rparr>) p = None) clashing_names) = [RelPath ''ok'']
   \<and> list_all (windows_holds plain_letters) (segments (RelPath ''ok''))"
proof -
  let ?rs = "\<lparr>windows_names = True, folds_case = True\<rparr>"
  have k: "RBT.keys (retain (\<lambda>p. RBT.lookup (unfit plain_letters RBT.empty clashing_names ?rs) p = None)
      clashing_names) = [RelPath ''ok'']" by code_simp
  then have "RelPath ''ok'' \<in> set (RBT.keys (retain (\<lambda>p. RBT.lookup
      (unfit plain_letters RBT.empty clashing_names ?rs) p = None) clashing_names))" by simp
  from fit_can_be_held [OF this] k show ?thesis by simp
qed

end
