(* ===== verification/Sample.thy ===== *)
theory Sample
  imports Tree
begin

text \<open>
  A small database that every witness of the development starts from: one account with a
  directory, a file in it and a quota. It is sound (see \<open>Tree\<close>).
\<close>

section \<open>A small account\<close>

text \<open>
  One user with a root, a directory \<open>a\<close> and a file \<open>f\<close> of five bytes in it, a quota of a thousand.
\<close>

definition sample_crates :: crates where
  "sample_crates = \<lparr>hex_encode = map (\<lambda>w. char_of (unat w)),
     uuid_simple = (\<lambda>i. map (\<lambda>_. CHR ''a'') [0..<i]),
     uuid_display = (\<lambda>i. map (\<lambda>_. CHR ''b'') [0..<i]), blake3 = (\<lambda>s. map (\<lambda>c. of_nat (of_char c)) s),
     argon2_hash = (\<lambda>salt s. Some s), argon2_verify = (\<lambda>p h. p = h), to_lowercase = id, pg_lower = id,
     jwt_encode = (\<lambda>u s t. Some (map (\<lambda>_. CHR ''u'') [0..<u] @ [CHR ''.''] @ map (\<lambda>_. CHR ''s'') [0..<s])),
     jwt_decode = (\<lambda>now t. Some (length (filter (\<lambda>c. c = CHR ''u'') t), length (filter (\<lambda>c. c = CHR ''s'') t))),
     base64_decode = Some, percent_decode = id, percent_encode = (\<lambda>_. id), uri_path = Some, header_value = Some,
     http_date = (\<lambda>_. []), alphabetic = (\<lambda>_. True), alphanumeric = (\<lambda>_. True), xml_events = (\<lambda>_. [])\<rparr>"

definition sample_row :: "uuid \<Rightarrow> uuid option \<Rightarrow> string \<Rightarrow> node" where
  "sample_row i up name = \<lparr>n_id = i, n_owner = 1, n_parent = up, n_name = name, n_kind = Directory,
     n_blob = None, n_size = 0, n_etag = ''e'', n_created = 0, n_updated = 0, n_deleted = None,
     n_trash_root = None\<rparr>"

definition sample_root :: node where "sample_root = sample_row 10 None []"
definition sample_dir :: node where "sample_dir = sample_row 11 (Some 10) ''a''"
definition sample_file :: node where
  "sample_file = (sample_row 12 (Some 11) ''f'')\<lparr>n_kind := File, n_blob := Some [1], n_size := 5\<rparr>"

definition sample_user :: user where
  "sample_user = \<lparr>u_id = 1, u_email = ''ada@example.com'', u_display_name = ''Ada'',
     u_password_hash = [], u_role = Member, u_created = 0, u_disabled = None\<rparr>"

definition sample_blob :: blob where
  "sample_blob = \<lparr>b_hash = [1], b_size = 5, b_refs = 1, b_created = 0, b_unreferenced = None\<rparr>"

definition sample :: db where
  "sample = (empty_db (\<lambda>k. 100 + k))\<lparr>users := [sample_user], nodes := [sample_root, sample_dir, sample_file],
     blobs := [sample_blob], quotas := [\<lparr>q_owner = 1, q_used = 5, q_max = 1000\<rparr>]\<rparr>"

lemmas sample_rows = sample_root_def sample_dir_def sample_file_def sample_row_def sample_user_def sample_blob_def

lemma sample_schema: "schema_ok sample"
  by code_simp

lemma sample_sound: "sound sample"
proof -
  have t: "thumbnails_ok sample" by code_simp
  have "forest (nodes sample)" by (rule forest_ascending) code_simp+
  moreover have "list_all (\<lambda>n. list_all (\<lambda>p. n_parent n = Some (n_id p) \<longrightarrow> hangs n p) (nodes sample)) (nodes sample)"
    by code_simp
  moreover have "list_all (\<lambda>n. n_parent n = None \<longrightarrow> heads n) (nodes sample)" by code_simp
  ultimately have "tree_ok sample" by (simp add: tree_ok_def tree_rows_def sample_def empty_db_def)
  moreover have "books_balance sample" by code_simp
  ultimately show ?thesis
    using sample_schema t books_balance_iff by (simp add: sound_def)
qed

lemma ok_result: "\<not> isl r \<Longrightarrow> \<exists>x. r = Inr x"
  by (cases r) auto

lemma ok_pair: "\<not> isl r \<Longrightarrow> \<exists>x y. r = Inr (x, y)"
  by (cases r) auto

lemma sample_nodes: "nodes sample = [sample_root, sample_dir, sample_file]"
  by (simp add: sample_def empty_db_def)

lemma sample_home: "home 1 (n_id sample_dir) sample"
  by code_simp

text \<open>The account shares its directory with a second one, which may write to it.\<close>

definition sample_guest :: user where
  "sample_guest = sample_user\<lparr>u_id := 2, u_email := ''bob@example.com'', u_display_name := ''Bob''\<rparr>"

definition sample_grant :: grant where
  "sample_grant = \<lparr>g_id = 50, g_node = 11, g_email = ''bob@example.com'', g_access = Write,
     g_mount_name = ''a'', g_created_by = 1, g_created = 0\<rparr>"

definition shared :: db where
  "shared = sample\<lparr>users := [sample_user, sample_guest], grants := [sample_grant]\<rparr>"

lemma shared_sound: "sound shared"
proof -
  have "tree_ok shared" using sample_sound by (simp add: sound_def tree_ok_def shared_def)
  moreover have "schema_ok shared" "thumbnails_ok shared" "books_balance shared" by code_simp+
  ultimately show ?thesis using books_balance_iff by (simp add: sound_def)
qed

end
