(* ===== verification/Locks.thy ===== *)
theory Locks
  imports Trash Sample
begin

text \<open>
  The write locks of WebDAV: \<open>api/src/dav/locks.rs\<close> and the table \<open>locks\<close>. A lock holds its node,
  and with \<open>Depth: infinity\<close> everything below it, until it expires. The lemmas state when at most
  one lock covers a node, which is what makes a write lock exclusive.
\<close>

section \<open>Operations\<close>

definition DEFAULT_SECONDS :: int where "DEFAULT_SECONDS = 600"
definition MAX_SECONDS :: int where "MAX_SECONDS = 3600"

definition seconds_left :: "timestamp \<Rightarrow> lock \<Rightarrow> int" where
  "seconds_left now l = max 0 ((l_expires l - now) div second)"

definition clamp :: "int \<Rightarrow> int \<Rightarrow> int \<Rightarrow> int" where
  "clamp low high x = (if x < low then low else if high < x then high else x)"

definition requested_seconds :: "string option \<Rightarrow> int" where
  "requested_seconds header =
     (case header of
        None \<Rightarrow> DEFAULT_SECONDS
      | Some text \<Rightarrow>
          let raw = trim text;
              asked = (\<lambda>entry. let entry = trim entry in
                 Option.bind (case strip_prefix entry ''Second-'' of
                     Some s \<Rightarrow> Some s | None \<Rightarrow> strip_prefix entry ''second-'') parse_i64);
              entries = split_on CHR '','' raw
          in if raw = [] then DEFAULT_SECONDS
             else clamp 1 MAX_SECONDS
               (case List.map_filter asked entries of
                  seconds # _ \<Rightarrow> seconds
                | [] \<Rightarrow> if list_ex (\<lambda>entry. eq_ignore_ascii_case (trim entry) ''Infinite'') entries
                    then MAX_SECONDS else DEFAULT_SECONDS))"

text \<open>\<open>i32::try_from(seconds).unwrap_or(i32::MAX)\<close>, then \<open>make_interval\<close>.\<close>

definition interval_of_seconds :: "int \<Rightarrow> timestamp" where
  "interval_of_seconds s = (if - (2 ^ 31) \<le> s \<and> s < 2 ^ 31 then s else 2 ^ 31 - 1) * second"

definition TOKEN_PREFIX :: string where "TOKEN_PREFIX = ''opaquelocktoken:''"

definition locks_violation :: "db \<Rightarrow> lock list \<Rightarrow> db_error option" where
  "locks_violation db ls =
     (if \<not> distinct (map l_token ls) then Some (UniqueViolation ''locks_pkey'')
      else if \<not> distinct (map l_node ls) then Some (UniqueViolation ''locks_one_per_node'')
      else if \<not> list_all (\<lambda>l. l_node l \<in> set (map n_id (nodes db))) ls
        then Some (ForeignKeyViolation ''locks_node_id_fkey'')
      else if \<not> list_all (\<lambda>l. l_owner l \<in> set (map u_id (users db))) ls
        then Some (ForeignKeyViolation ''locks_owner_id_fkey'')
      else None)"

definition locks_ok :: "db \<Rightarrow> bool" where
  "locks_ok db \<longleftrightarrow> locks_violation db (locks db) = None"

definition take_lock ::
    "crates \<Rightarrow> timestamp \<Rightarrow> node \<Rightarrow> uuid \<Rightarrow> string option \<Rightarrow> bool \<Rightarrow> int \<Rightarrow> db \<Rightarrow> api_error + lock \<times> db" where
  "take_lock C now n owner holder deep seconds db =
     (let (i, db1) = now_v7 db;
          kept = filter (\<lambda>l. \<not> (l_node l = n_id n \<and> l_expires l \<le> now)) (locks db1);
          l = \<lparr>l_token = TOKEN_PREFIX @ uuid_display C i, l_node = n_id n, l_owner = owner,
               l_holder = holder, l_deep = deep, l_expires = now + interval_of_seconds seconds\<rparr>
      in case locks_violation db1 (kept @ [l]) of
           None \<Rightarrow> Inr (l, db1\<lparr>locks := kept @ [l]\<rparr>)
         | Some e \<Rightarrow> Inl (if e = UniqueViolation ''locks_one_per_node'' then Locked (n_name n) else Database e))"

definition refresh_lock :: "timestamp \<Rightarrow> string \<Rightarrow> node \<Rightarrow> int \<Rightarrow> db \<Rightarrow> lock option \<times> db" where
  "refresh_lock now token n seconds db =
     (let hit = (\<lambda>l. l_token l = token \<and> l_node l = n_id n \<and> now < l_expires l);
          new = (\<lambda>l. if hit l then l\<lparr>l_expires := now + interval_of_seconds seconds\<rparr> else l)
      in (map_option new (find hit (locks db)), db\<lparr>locks := map new (locks db)\<rparr>))"

definition release_lock :: "node \<Rightarrow> string \<Rightarrow> db \<Rightarrow> bool \<times> db" where
  "release_lock n token db =
     (let hit = (\<lambda>l. l_token l = token \<and> l_node l = n_id n)
      in (list_ex hit (locks db), db\<lparr>locks := filter (\<lambda>l. \<not> hit l) (locks db)\<rparr>))"

definition lock_on :: "timestamp \<Rightarrow> node \<Rightarrow> db \<Rightarrow> lock option" where
  "lock_on now n db = find (\<lambda>l. l_node l = n_id n \<and> now < l_expires l) (locks db)"

text \<open>The rows the query of \<open>covering\<close> selects; its \<open>LIMIT 1\<close> answers one of them, here the first.\<close>

definition covers :: "timestamp \<Rightarrow> node \<Rightarrow> db \<Rightarrow> lock \<Rightarrow> bool" where
  "covers now n db l \<longleftrightarrow> l_node l \<in> set (ancestry (nodes db) [] (n_id n)) \<and> now < l_expires l
     \<and> (l_node l = n_id n \<or> l_deep l)"

definition covering :: "timestamp \<Rightarrow> node \<Rightarrow> db \<Rightarrow> lock option" where
  "covering now n db = find (covers now n db) (locks db)"

definition allows :: "timestamp \<Rightarrow> node \<Rightarrow> string list \<Rightarrow> db \<Rightarrow> api_error + unit" where
  "allows now n submitted db =
     (case covering now n db of
        None \<Rightarrow> Inr ()
      | Some l \<Rightarrow> if l_token l \<in> set submitted then Inr () else Inl (Locked (n_name n)))"

definition locks_below :: "timestamp \<Rightarrow> node \<Rightarrow> db \<Rightarrow> lock list" where
  "locks_below now n db =
     filter (\<lambda>l. l_node l \<in> set (descend live (nodes db) [] (n_id n)) \<and> now < l_expires l) (locks db)"

definition none_below :: "timestamp \<Rightarrow> node \<Rightarrow> string list \<Rightarrow> db \<Rightarrow> api_error + unit" where
  "none_below now n submitted db =
     (case find (\<lambda>l. l_token l \<notin> set submitted) (locks_below now n db) of
        None \<Rightarrow> Inr ()
      | Some l \<Rightarrow> Inl (Locked (case find_node (nodes db) (l_node l) of Some m \<Rightarrow> n_name m | None \<Rightarrow> [])))"

definition locks_for_nodes :: "timestamp \<Rightarrow> uuid list \<Rightarrow> db \<Rightarrow> lock list" where
  "locks_for_nodes now ids db = filter (\<lambda>l. l_node l \<in> set ids \<and> now < l_expires l) (locks db)"

definition purge_expired_locks :: "timestamp \<Rightarrow> db \<Rightarrow> nat \<times> db" where
  "purge_expired_locks now db =
     (length (filter (\<lambda>l. l_expires l \<le> now) (locks db)),
      db\<lparr>locks := filter (\<lambda>l. \<not> l_expires l \<le> now) (locks db)\<rparr>)"

subsection \<open>Headers\<close>

lemma split_once_shorter: "split_once c s = Some (a, b) \<Longrightarrow> length b < length s"
  by (simp add: split_once_Some)

function tokens_in :: "string \<Rightarrow> string list" where
  "tokens_in rest =
     (case split_once CHR ''<'' rest of
        None \<Rightarrow> []
      | Some (_, inner) \<Rightarrow>
          (case split_once CHR ''>'' inner of
             None \<Rightarrow> []
           | Some (candidate, rest') \<Rightarrow>
               (if starts_with candidate TOKEN_PREFIX then [candidate] else []) @ tokens_in rest'))"
  by pat_completeness auto
termination
  by (relation "measure length") (auto dest!: split_once_shorter)

declare tokens_in.simps [simp del]

definition submitted_tokens :: "string option \<Rightarrow> string list" where
  "submitted_tokens header = (case header of None \<Rightarrow> [] | Some raw \<Rightarrow> tokens_in raw)"

definition strip_suffix :: "string \<Rightarrow> string \<Rightarrow> string option" where
  "strip_suffix s t = map_option rev (strip_prefix (rev s) (rev t))"

definition lock_token :: "string option \<Rightarrow> string option" where
  "lock_token header =
     Option.bind header (\<lambda>h. Option.bind (strip_prefix (trim h) ''<'') (\<lambda>rest.
     Option.bind (strip_suffix rest ''>'') (\<lambda>inner.
       if starts_with inner TOKEN_PREFIX then Some inner else None)))"

definition timeout_header :: "timestamp \<Rightarrow> lock \<Rightarrow> string" where
  "timeout_header now l = ''Second-'' @ decimal (nat (seconds_left now l))"

section \<open>Exclusion\<close>

text \<open>No two locks in force cover the same live node.\<close>

definition exclusive :: "timestamp \<Rightarrow> db \<Rightarrow> bool" where
  "exclusive now db \<longleftrightarrow>
     list_all (\<lambda>n. live n \<longrightarrow> length (filter (covers now n db) (locks db)) \<le> 1) (nodes db)"

lemma covers_iff:
  assumes "sound db" and "m \<in> set (nodes db)" and "live m" and "l_node l \<in> n_id ` set (nodes db)"
  shows "covers now m db l \<longleftrightarrow> (n_id m, l_node l) \<in> (below live (nodes db))\<^sup>* \<and> now < l_expires l
    \<and> (l_node l = n_id m \<or> l_deep l)"
  using ancestry_iff [OF soundD(8) [OF assms(1)] assms(4), of "n_id m"]
    below_live [OF soundD(7) [OF assms(1)] assms(2,3), of "l_node l"] below_star_mono
  by (auto simp: covers_def)

lemma filter_one: "length (filter P xs) \<le> 1 \<Longrightarrow> find P xs = Some x \<Longrightarrow> y \<in> set xs \<Longrightarrow> P y \<Longrightarrow> y = x"
proof (induction xs)
  case (Cons a xs)
  show ?case
  proof (cases "P a")
    case True
    then have "filter P xs = []" using Cons.prems(1) by simp
    with True Cons.prems show ?thesis by (auto simp: filter_empty_conv)
  qed (use Cons in auto)
qed simp

lemma length_filter_conj_le: "length (filter (\<lambda>x. P x \<and> Q x) xs) \<le> length (filter Q xs)"
  by (induction xs) auto

text \<open>Where locks are exclusive, a write goes through only for who holds every lock on its node.\<close>

lemma allows_holder:
  assumes "exclusive now db" and "n \<in> set (nodes db)" "live n" and "allows now n submitted db = Inr ()"
    and "l \<in> set (locks db)" and "covers now n db l"
  shows "l_token l \<in> set submitted"
proof -
  have one: "length (filter (covers now n db) (locks db)) \<le> 1"
    using assms(1-3) by (auto simp: exclusive_def list_all_iff)
  obtain k where k: "find (covers now n db) (locks db) = Some k"
    using assms(5,6) find_None_set [of "covers now n db" "locks db"] by (cases "find (covers now n db) (locks db)") auto
  from filter_one [OF one k assms(5,6)] have "l = k" .
  with k assms(4) show ?thesis by (simp add: allows_def covering_def split: if_splits)
qed

lemma take_lock_Inr:
  assumes "take_lock C now n owner holder deep seconds db = Inr (l, db')"
  shows "locks db' = filter (\<lambda>l. \<not> (l_node l = n_id n \<and> l_expires l \<le> now)) (locks db) @ [l]"
    and "l_node l = n_id n" and "l_deep l = deep" and "l_expires l = now + interval_of_seconds seconds"
    and "l_owner l = owner" and "l_holder l = holder"
    and "nodes db' = nodes db" and "users db' = users db" and "locks_ok db'" and "sound db' = sound db"
  using assms by (auto simp: take_lock_def Let_def case_prod_unfold locks_ok_def locks_violation_def
      split: option.splits if_splits)

lemma covers_frame: "nodes db' = nodes db \<Longrightarrow> covers now m db' l = covers now m db l"
  by (simp add: covers_def)


section \<open>Tokens\<close>

lemma trim_front_keeps: "list_all (\<lambda>w. \<not> starts_with s w) ws \<Longrightarrow> trim_front ws s = s"
  by (subst trim_front.simps) (auto simp: list_all_iff find_None_set split: option.splits dest!: find_Some_set)

lemma starts_with_Cons: "starts_with (c # s) w \<longleftrightarrow> w = [] \<or> (hd w = c \<and> starts_with s (tl w))"
  by (cases w) (auto simp: starts_with_def)

lemma trim_bracketed: "trim (CHR ''<'' # s @ ''>'') = CHR ''<'' # s @ ''>''"
proof -
  have "list_all (\<lambda>w. w \<noteq> [] \<and> hd w \<noteq> CHR ''<'' \<and> last w \<noteq> CHR ''>'') white_space" by code_simp
  then have w: "w \<noteq> []" "hd w \<noteq> CHR ''<''" "hd (rev w) \<noteq> CHR ''>''" if "w \<in> set white_space" for w
    using that by (auto simp: list_all_iff hd_rev)
  have "list_all (\<lambda>w. \<not> starts_with (CHR ''<'' # s @ ''>'') w) white_space"
    unfolding list_all_iff using w by (auto simp: starts_with_Cons)
  moreover have "list_all (\<lambda>w. \<not> starts_with (CHR ''>'' # rev (CHR ''<'' # s)) w) (map rev white_space)"
    unfolding list_all_iff using w by (auto simp: starts_with_Cons)
  ultimately show ?thesis by (simp add: trim_def trim_end_def trim_front_keeps)
qed

lemma lock_token_bracketed:
  "starts_with token TOKEN_PREFIX \<Longrightarrow> lock_token (Some (''<'' @ token @ ''>'')) = Some token"
  by (simp add: lock_token_def trim_bracketed strip_prefix_def strip_suffix_def starts_with_def)

lemma tokens_in_listed:
  assumes "\<And>t. t \<in> set ts \<Longrightarrow> starts_with t TOKEN_PREFIX \<and> CHR ''>'' \<notin> set t"
  shows "tokens_in (concat (map (\<lambda>t. ''(<'' @ t @ ''>)'') ts)) = ts"
  using assms
proof (induction ts)
  case Nil
  show ?case by (subst tokens_in.simps) (simp add: split_once_def)
next
  case (Cons t ts)
  let ?more = "concat (map (\<lambda>t. ''(<'' @ t @ ''>)'') ts)"
  have "split_once CHR ''<'' (''(<'' @ t @ ''>)'' @ ?more) = Some (''('', t @ CHR ''>'' # '')'' @ ?more)"
    by (simp add: split_once_Some)
  moreover have "split_once CHR ''>'' (t @ CHR ''>'' # '')'' @ ?more) = Some (t, '')'' @ ?more)"
    using Cons.prems by (simp add: split_once_Some)
  ultimately have "tokens_in (''(<'' @ t @ ''>)'' @ ?more) = t # tokens_in ('')'' @ ?more)"
    using Cons.prems by (subst tokens_in.simps) simp
  moreover have "tokens_in ('')'' @ s) = tokens_in s" for s
    by (subst (1 2) tokens_in.simps) (simp add: split_once_def split: option.splits)
  ultimately show ?case using Cons by simp
qed

lemma clamp_bounds: "low \<le> high \<Longrightarrow> low \<le> clamp low high x \<and> clamp low high x \<le> high"
  by (simp add: clamp_def)

lemma requested_seconds_range: "1 \<le> requested_seconds header \<and> requested_seconds header \<le> MAX_SECONDS"
  using clamp_bounds [of 1 MAX_SECONDS]
  by (auto simp: requested_seconds_def Let_def MAX_SECONDS_def DEFAULT_SECONDS_def split: option.splits)

section \<open>More properties\<close>

lemma sample_exclusive: "exclusive 5 sample" "locks_ok sample" "covering 5 sample_dir sample = None"
  "locks_below 5 sample_dir sample = []" "sample_dir \<in> set (nodes sample)" "live sample_dir"
  by code_simp+

lemma sample_lock_taken: "\<not> isl (take_lock sample_crates 5 sample_dir 1 None deep s sample)"
  by (simp add: take_lock_def now_v7_def sample_def empty_db_def locks_violation_def sample_rows Let_def)


text \<open>
  Whoever gets a lock for what it asked for in \<open>Timeout\<close>, whatever that header says, holds it
  for at least a second and at most an hour.
\<close>

theorem lock_time_bounded:
  assumes "take_lock C now n owner holder deep (requested_seconds header) db = Inr (l, db')"
  shows "now + second \<le> l_expires l \<and> l_expires l \<le> now + MAX_SECONDS * second
    \<and> lock_on now n db' = Some l"
proof -
  note r = requested_seconds_range [of header]
  have "interval_of_seconds (requested_seconds header) = requested_seconds header * second"
    using r by (simp add: interval_of_seconds_def MAX_SECONDS_def)
  with take_lock_Inr(4) [OF assms] have e: "l_expires l = now + requested_seconds header * second" by simp
  have "lock_on now n db' = Some l"
  proof -
    have alone: "l' = l" if "l' \<in> set (locks db')" "l_node l' = n_id n" for l'
    proof -
      have "distinct (map l_node (locks db'))"
        using take_lock_Inr(9) [OF assms] by (simp add: locks_ok_def locks_violation_def split: if_splits)
      then show ?thesis
        using distinct_key_eq [of l_node "locks db'" l' l] that take_lock_Inr(1,2) [OF assms] by simp
    qed
    have l: "l \<in> set (locks db')" using take_lock_Inr(1) [OF assms] by simp
    have "now < l_expires l" using e r by simp
    then obtain k where k: "lock_on now n db' = Some k"
      using l take_lock_Inr(2) [OF assms] find_None_set [of "\<lambda>l. l_node l = n_id n \<and> now < l_expires l" "locks db'"]
      by (cases "lock_on now n db'") (auto simp: lock_on_def)
    with alone [of k] find_Some_set [OF k [unfolded lock_on_def]] show ?thesis by simp
  qed
  with e r show ?thesis by simp
qed

theorem lock_time_bounded_witness:
  "\<exists>l db'. take_lock sample_crates 5 sample_dir 1 None True (requested_seconds (Some ''Infinite, Second-99999'')) sample
     = Inr (l, db') \<and> lock_on 5 sample_dir db' = Some l \<and> l_expires l \<le> 5 + 3600 * second"
proof -
  let ?r = "take_lock sample_crates 5 sample_dir 1 None True (requested_seconds (Some ''Infinite, Second-99999'')) sample"
  obtain l db' where t: "?r = Inr (l, db')" using ok_pair [OF sample_lock_taken] by blast
  from lock_time_bounded [OF t] t show ?thesis by (auto simp: MAX_SECONDS_def)
qed

text \<open>
  C28. The token a client is given comes back: in \<open>Lock-Token\<close> and in \<open>If\<close> it is read as it was
  sent, and it releases that lock and no other. (The text of a \<open>Uuid\<close> has no angle bracket.)
\<close>

theorem lock_token_round_trip:
  assumes "take_lock C now n owner holder deep seconds db = Inr (l, db')"
    and "\<And>i. CHR ''>'' \<notin> set (uuid_display C i)"
  shows "lock_token (Some (''<'' @ l_token l @ ''>'')) = Some (l_token l)
    \<and> submitted_tokens (Some (''(<'' @ l_token l @ ''>)'')) = [l_token l]
    \<and> release_lock n (l_token l) db' = (True, db'\<lparr>locks := filter (\<lambda>k. k \<noteq> l) (locks db')\<rparr>)"
proof -
  have tok: "l_token l = TOKEN_PREFIX @ uuid_display C (fst (now_v7 db))"
    using assms(1) by (auto simp: take_lock_def Let_def case_prod_unfold split: option.splits)
  have p: "starts_with (l_token l) TOKEN_PREFIX" "CHR ''>'' \<notin> set (l_token l)"
    using assms(2) by (simp_all add: tok starts_with_def TOKEN_PREFIX_def)
  have "distinct (map l_token (locks db'))"
    using take_lock_Inr(9) [OF assms(1)] by (simp add: locks_ok_def locks_violation_def split: if_splits)
  moreover have l: "l \<in> set (locks db')" using take_lock_Inr(1) [OF assms(1)] by simp
  ultimately have "k \<in> set (locks db') \<Longrightarrow> (l_token k = l_token l \<and> l_node k = n_id n) = (k = l)" for k
    using distinct_key_eq [of l_token "locks db'" k l] take_lock_Inr(2) [OF assms(1)] by blast
  then have "release_lock n (l_token l) db' = (True, db'\<lparr>locks := filter (\<lambda>k. k \<noteq> l) (locks db')\<rparr>)"
    using l by (auto simp: release_lock_def Let_def list_ex_iff cong: filter_cong)
  with lock_token_bracketed [OF p(1)] tokens_in_listed [of "[l_token l]"] p show ?thesis
    by (simp add: submitted_tokens_def)
qed

theorem lock_token_round_trip_witness:
  "\<exists>l db' db''. take_lock sample_crates 5 sample_dir 1 None True 600 sample = Inr (l, db')
     \<and> lock_token (Some (''<'' @ l_token l @ ''>'')) = Some (l_token l)
     \<and> release_lock sample_dir (l_token l) db' = (True, db'')"
proof -
  obtain l db' where t: "take_lock sample_crates 5 sample_dir 1 None True 600 sample = Inr (l, db')"
    using ok_pair [OF sample_lock_taken] by blast
  have "CHR ''>'' \<notin> set (uuid_display sample_crates i)" for i by (auto simp: sample_crates_def)
  from lock_token_round_trip [OF t this] t show ?thesis by blast
qed

end
