(* ===== verification/Accounts.thy ===== *)
theory Accounts
  imports Grants Sample
begin

text \<open>
  Accounts: \<open>crates/core/src/user.rs\<close> and \<open>role.rs\<close>, \<open>api/src/password.rs\<close> and \<open>api/src/users.rs\<close>.
  The lemmas state that an address belongs to one account, that a changed address takes along
  what was shared with it, and that no operation on an account disturbs the files.
\<close>

section \<open>Addresses and roles\<close>

definition MAX_EMAIL_LEN :: nat where "MAX_EMAIL_LEN = 254"

definition email_from_str :: "crates \<Rightarrow> string \<Rightarrow> invalid_email + string" where
  "email_from_str C s =
     (let trimmed = trim s in
      if trimmed = [] then Inl EmailEmpty
      else if MAX_EMAIL_LEN < length trimmed then Inl EmailTooLong
      else case split_once CHR ''@'' trimmed of
          None \<Rightarrow> Inl EmailShape
        | Some (local_part, domain) \<Rightarrow>
            if local_part = [] \<or> domain = [] \<or> CHR ''@'' \<in> set domain \<or> CHR ''.'' \<notin> set domain
            then Inl EmailShape
            else Inr (to_lowercase C trimmed))"

fun may_write_role :: "role \<Rightarrow> bool" where
  "may_write_role Admin = True"
| "may_write_role Member = True"
| "may_write_role Reader = False"

fun may_administer_role :: "role \<Rightarrow> bool" where
  "may_administer_role Admin = True"
| "may_administer_role Member = False"
| "may_administer_role Reader = False"

fun role_as_str :: "role \<Rightarrow> string" where
  "role_as_str Admin = ''admin''"
| "role_as_str Member = ''member''"
| "role_as_str Reader = ''reader''"

definition role_from_str :: "string \<Rightarrow> string + role" where
  "role_from_str s =
     (if s = ''admin'' then Inr Admin else if s = ''member'' then Inr Member
      else if s = ''reader'' then Inr Reader else Inl s)"

definition is_active :: "user \<Rightarrow> bool" where
  "is_active u \<longleftrightarrow> u_disabled u = None"

definition may_write :: "user \<Rightarrow> bool" where
  "may_write u \<longleftrightarrow> is_active u \<and> may_write_role (u_role u)"

definition may_administer :: "user \<Rightarrow> bool" where
  "may_administer u \<longleftrightarrow> is_active u \<and> may_administer_role (u_role u)"

section \<open>Passwords\<close>

definition MIN_ACCOUNT_PASSWORD_LEN :: nat where "MIN_ACCOUNT_PASSWORD_LEN = 12"
definition MIN_SHARE_PASSWORD_LEN :: nat where "MIN_SHARE_PASSWORD_LEN = 6"

definition check_strength :: "string \<Rightarrow> nat \<Rightarrow> weak_password + unit" where
  "check_strength password minimum =
     (if char_count password < minimum then Inl (TooShort minimum) else Inr ())"

text \<open>The salt is the randomness the hash draws.\<close>

definition password_hash :: "crates \<Rightarrow> string \<Rightarrow> string \<Rightarrow> api_error + string" where
  "password_hash C salt password = ok_or Credential (argon2_hash C salt password)"

definition password_verify :: "crates \<Rightarrow> string \<Rightarrow> string \<Rightarrow> bool" where
  "password_verify C password encoded = argon2_verify C password encoded"

section \<open>Operations\<close>

definition by_email :: "string \<Rightarrow> db \<Rightarrow> user option" where
  "by_email email db = find (\<lambda>u. u_email u = email) (users db)"

definition by_id :: "uuid \<Rightarrow> db \<Rightarrow> user option" where
  "by_id i db = find (\<lambda>u. u_id u = i) (users db)"

definition by_id_in :: "uuid \<Rightarrow> db \<Rightarrow> api_error + user" where
  "by_id_in i db = ok_or NotFound (by_id i db)"

definition users_violation :: "user list \<Rightarrow> db_error option" where
  "users_violation us =
     (if \<not> distinct (map u_id us) then Some (UniqueViolation ''users_pkey'')
      else if \<not> distinct (map u_email us) then Some (UniqueViolation ''users_unique_email'')
      else None)"

definition store_users :: "user list \<Rightarrow> db \<Rightarrow> db_error + db" where
  "store_users us db = (case users_violation us of Some e \<Rightarrow> Inl e | None \<Rightarrow> Inr (db\<lparr>users := us\<rparr>))"

definition users_ok :: "db \<Rightarrow> bool" where
  "users_ok db \<longleftrightarrow> users_violation (users db) = None"

definition email_taken :: "string \<Rightarrow> db_error \<Rightarrow> api_error" where
  "email_taken email e = (case e of UniqueViolation c \<Rightarrow> Conflict email | _ \<Rightarrow> Database e)"

definition create_user ::
    "crates \<Rightarrow> timestamp \<Rightarrow> string \<Rightarrow> string \<Rightarrow> string \<Rightarrow> string \<Rightarrow> role \<Rightarrow> db \<Rightarrow> api_error + user \<times> db" where
  "create_user C now salt email display_name plaintext r db =
     rbind (map_err WeakPassword (check_strength plaintext MIN_ACCOUNT_PASSWORD_LEN)) (\<lambda>_.
     rbind (password_hash C salt plaintext) (\<lambda>hash.
       let (i, db1) = now_v7 db;
           u = \<lparr>u_id = i, u_email = email, u_display_name = display_name, u_password_hash = hash,
                u_role = r, u_created = now, u_disabled = None\<rparr>
       in rbind (map_err (email_taken email) (store_users (users db1 @ [u]) db1)) (\<lambda>db2. Inr (u, db2))))"

definition count_users :: "db \<Rightarrow> nat" where
  "count_users db = length (users db)"

definition list_users :: "db \<Rightarrow> user list" where
  "list_users db = sort_key u_created (users db)"

text \<open>\<open>UPDATE users \<dots> WHERE id = $1 RETURNING\<close>, which answers the row or none.\<close>

definition update_user :: "uuid \<Rightarrow> (user \<Rightarrow> user) \<Rightarrow> db \<Rightarrow> db_error + user option \<times> db" where
  "update_user i f db =
     rbind (store_users (map (\<lambda>u. if u_id u = i then f u else u) (users db)) db) (\<lambda>db1.
       Inr (map_option f (by_id i db), db1))"

definition update_user_or :: "uuid \<Rightarrow> (user \<Rightarrow> user) \<Rightarrow> db \<Rightarrow> api_error + user \<times> db" where
  "update_user_or i f db =
     rbind (map_err Database (update_user i f db)) (\<lambda>(row, db1).
     rbind (ok_or NotFound row) (\<lambda>u. Inr (u, db1)))"

definition set_disabled :: "timestamp \<Rightarrow> uuid \<Rightarrow> bool \<Rightarrow> db \<Rightarrow> api_error + user \<times> db" where
  "set_disabled now i disabled =
     update_user_or i (\<lambda>u. u\<lparr>u_disabled := (if disabled then Some now else None)\<rparr>)"

definition MAX_DISPLAY_NAME_CHARS :: nat where "MAX_DISPLAY_NAME_CHARS = 100"

definition set_display_name :: "uuid \<Rightarrow> string \<Rightarrow> db \<Rightarrow> api_error + user \<times> db" where
  "set_display_name i text db =
     (let name = trim text in
      if name = [] \<or> MAX_DISPLAY_NAME_CHARS < char_count name
      then Inl (WrongKind ''display name of 1 to 100 characters'')
      else update_user_or i (\<lambda>u. u\<lparr>u_display_name := name\<rparr>) db)"

definition set_email :: "uuid \<Rightarrow> string \<Rightarrow> db \<Rightarrow> api_error + user \<times> db" where
  "set_email i email db =
     rbind (ok_or NotFound (map_option u_email (by_id i db))) (\<lambda>previous.
     rbind (map_err (email_taken email) (update_user i (\<lambda>u. u\<lparr>u_email := email\<rparr>) db)) (\<lambda>(row, db1).
     rbind (ok_or (Database RowNotFound) row) (\<lambda>u.
     rbind (reassign previous email db1) (\<lambda>db2. Inr (u, db2)))))"

definition set_role :: "uuid \<Rightarrow> role \<Rightarrow> db \<Rightarrow> api_error + user \<times> db" where
  "set_role i r = update_user_or i (\<lambda>u. u\<lparr>u_role := r\<rparr>)"

definition set_password :: "crates \<Rightarrow> string \<Rightarrow> uuid \<Rightarrow> string \<Rightarrow> db \<Rightarrow> api_error + db" where
  "set_password C salt i plaintext db =
     rbind (map_err WeakPassword (check_strength plaintext MIN_ACCOUNT_PASSWORD_LEN)) (\<lambda>_.
     rbind (password_hash C salt plaintext) (\<lambda>hash.
     rbind (map_err Database (update_user i (\<lambda>u. u\<lparr>u_password_hash := hash\<rparr>) db)) (\<lambda>(row, db1).
       if row = None then Inl NotFound else Inr db1)))"

definition set_quota :: "uuid \<Rightarrow> int \<Rightarrow> db \<Rightarrow> api_error + db" where
  "set_quota i bytes_max db =
     (if bytes_max \<le> 0 then Inl (WrongKind ''quota above zero'')
      else if list_ex (\<lambda>q. q_owner q = i) (quotas db)
        then Inr (db\<lparr>quotas := map (\<lambda>q. if q_owner q = i then q\<lparr>q_max := bytes_max\<rparr> else q) (quotas db)\<rparr>)
      else if i \<notin> set (map u_id (users db)) then Inl NotFound
      else Inr (db\<lparr>quotas := quotas db @ [\<lparr>q_owner = i, q_used = 0, q_max = bytes_max\<rparr>]\<rparr>))"

definition usage :: "uuid \<Rightarrow> db \<Rightarrow> (int \<times> int) option" where
  "usage i db = map_option (\<lambda>q. (q_used q, q_max q)) (find_quota i db)"

section \<open>Addresses\<close>

lemma role_round_trip: "role_from_str (role_as_str r) = Inr r"
  by (cases r) (simp_all add: role_from_str_def)

lemma role_from_str_Inr: "role_from_str s = Inr r \<Longrightarrow> s = role_as_str r"
  by (auto simp: role_from_str_def split: if_splits)

lemma email_from_str_Inr:
  assumes "email_from_str C s = Inr e"
  shows "\<exists>local_part domain. e = to_lowercase C (local_part @ CHR ''@'' # domain)
    \<and> local_part @ CHR ''@'' # domain = trim s \<and> local_part \<noteq> [] \<and> domain \<noteq> [] \<and> CHR ''@'' \<notin> set domain
    \<and> CHR ''.'' \<in> set domain \<and> length (trim s) \<le> MAX_EMAIL_LEN"
proof -
  from assms obtain a b where s: "split_once CHR ''@'' (trim s) = Some (a, b)"
    and r: "a \<noteq> []" "b \<noteq> []" "CHR ''@'' \<notin> set b" "CHR ''.'' \<in> set b" "e = to_lowercase C (trim s)"
      "length (trim s) \<le> MAX_EMAIL_LEN"
    by (auto simp: email_from_str_def Let_def split: if_splits option.splits)
  have "trim s = a @ CHR ''@'' # b" using s by (simp add: split_once_Some)
  with r show ?thesis by metis
qed

section \<open>Accounts and files\<close>

lemma store_users_eq_Inr:
  "store_users us db = Inr db' \<longleftrightarrow> users_violation us = None \<and> db' = db\<lparr>users := us\<rparr>"
  by (auto simp: store_users_def split: option.splits)

lemma users_violation_None:
  "users_violation us = None \<longleftrightarrow> distinct (map u_id us) \<and> distinct (map u_email us)"
  by (simp add: users_violation_def)

text \<open>The files read of the users only who there is.\<close>

lemma sound_users:
  assumes "sound db" and "u_id ` set (users db) \<subseteq> u_id ` set us"
  shows "sound (db\<lparr>users := us\<rparr>)"
proof -
  have "nodes_ok (db\<lparr>users := us\<rparr>)"
    using soundD(5) [OF assms(1)] assms(2) by (auto simp: nodes_ok_def nodes_violation_None)
  with assms(1) show ?thesis
    by (simp add: sound_def schema_ok_def blobs_ok_def quotas_ok_def versions_ok_def thumbnails_ok_def
        has_blob_def tree_ok_def balanced_def stored_refs_def find_blob_def expected_references_def
        used_def find_quota_def expected_usage_def)
qed

lemma by_id_Some: "by_id i db = Some u \<Longrightarrow> u \<in> set (users db) \<and> u_id u = i"
  unfolding by_id_def by (drule find_Some_set) simp

lemma update_user_Inr:
  assumes "update_user i f db = Inr (row, db')" and f: "\<And>u. u_id (f u) = u_id u"
  shows "db' = db\<lparr>users := map (\<lambda>u. if u_id u = i then f u else u) (users db)\<rparr>"
    and "row = map_option f (by_id i db)" and "users_ok db'" and "map u_id (users db') = map u_id (users db)"
    and "sound db \<Longrightarrow> sound db'"
proof -
  show db': "db' = db\<lparr>users := map (\<lambda>u. if u_id u = i then f u else u) (users db)\<rparr>"
    and "row = map_option f (by_id i db)" and "users_ok db'"
    using assms(1) by (auto simp: update_user_def rbind_eq_Inr store_users_eq_Inr users_ok_def)
  show m: "map u_id (users db') = map u_id (users db)" using f by (simp add: db')
  have "u_id ` set (users db) \<subseteq> u_id ` set (users db')"
    using arg_cong [OF m, of set] by simp
  then show "sound db \<Longrightarrow> sound db'" using sound_users [of db "users db'"] by (simp add: db')
qed

lemma update_user_or_Inr:
  assumes "update_user_or i f db = Inr (u, db')" and f: "\<And>u. u_id (f u) = u_id u"
  shows "db' = db\<lparr>users := map (\<lambda>u. if u_id u = i then f u else u) (users db)\<rparr>"
    and "map_option f (by_id i db) = Some u" and "users_ok db'" and "sound db \<Longrightarrow> sound db'"
  using assms(1) update_user_Inr [where f = f, OF _ f]
  by (auto simp: update_user_or_def rbind_eq_Inr)

lemma create_user_Inr:
  assumes "create_user C now salt email display_name plaintext r db = Inr (u, db')"
  shows "db' = (snd (now_v7 db))\<lparr>users := users db @ [u]\<rparr>" and "users_ok db'" and "u_email u = email"
    and "u_role u = r" and "is_active u" and "MIN_ACCOUNT_PASSWORD_LEN \<le> char_count plaintext"
    and "sound db \<Longrightarrow> sound db'"
proof -
  show db': "db' = (snd (now_v7 db))\<lparr>users := users db @ [u]\<rparr>" and "users_ok db'" and "u_email u = email"
    and "u_role u = r" and "is_active u" and "MIN_ACCOUNT_PASSWORD_LEN \<le> char_count plaintext"
    using assms by (auto simp: create_user_def rbind_eq_Inr case_prod_unfold Let_def store_users_eq_Inr
        users_ok_def is_active_def check_strength_def split: if_splits)
  show "sound db \<Longrightarrow> sound db'"
    using sound_users [of "snd (now_v7 db)" "users db @ [u]"] by (auto simp: db')
qed

lemma set_password_Inr:
  assumes "set_password C salt i plaintext db = Inr db'"
  shows "\<exists>hash. argon2_hash C salt plaintext = Some hash
      \<and> db' = db\<lparr>users := map (\<lambda>u. if u_id u = i then u\<lparr>u_password_hash := hash\<rparr> else u) (users db)\<rparr>"
    and "by_id i db \<noteq> None" and "users_ok db'" and "MIN_ACCOUNT_PASSWORD_LEN \<le> char_count plaintext"
    and "sound db \<Longrightarrow> sound db'"
proof -
  from assms obtain hash row where h: "argon2_hash C salt plaintext = Some hash"
    "MIN_ACCOUNT_PASSWORD_LEN \<le> char_count plaintext"
    and u: "update_user i (\<lambda>u. u\<lparr>u_password_hash := hash\<rparr>) db = Inr (row, db')" and n: "row \<noteq> None"
    by (auto simp: set_password_def rbind_eq_Inr password_hash_def check_strength_def
        simp del: not_None_eq split: if_splits)
  note up = update_user_Inr [OF u, simplified]
  show "\<exists>hash. argon2_hash C salt plaintext = Some hash
      \<and> db' = db\<lparr>users := map (\<lambda>u. if u_id u = i then u\<lparr>u_password_hash := hash\<rparr> else u) (users db)\<rparr>"
    using h up(1) by auto
  show "by_id i db \<noteq> None" "MIN_ACCOUNT_PASSWORD_LEN \<le> char_count plaintext" using n h up(2) by simp_all
  show "users_ok db'" "sound db \<Longrightarrow> sound db'" using up by simp_all
qed

lemma set_quota_sound:
  assumes s: "sound db" and q: "set_quota i bytes_max db = Inr db'"
  shows "sound db'"
proof (cases "list_ex (\<lambda>q. q_owner q = i) (quotas db)")
  case True
  let ?f = "\<lambda>q. if q_owner q = i then q\<lparr>q_max := bytes_max\<rparr> else q"
  have pos: "0 < bytes_max" and db': "db' = db\<lparr>quotas := map ?f (quotas db)\<rparr>"
    using q True by (auto simp: set_quota_def split: if_splits)
  have "find_quota x db' = map_option ?f (find_quota x db)" for x
    unfolding find_quota_def db' by (simp add: find_map_same_key)
  then have u: "used db' x = used db x" for x by (simp add: used_def split: option.splits)
  have m: "map q_owner (map ?f (quotas db)) = map q_owner (quotas db)" by simp
  have "\<forall>q\<in>set (map ?f (quotas db)). 0 \<le> q_used q \<and> 0 < q_max q"
    using schema_okD(3) [OF soundD(1) [OF s]] pos by (auto simp: quotas_ok_def list_all_iff)
  moreover have "distinct (map q_owner (map ?f (quotas db)))"
    using schema_okD(3) [OF soundD(1) [OF s]] unfolding m by (simp add: quotas_ok_def)
  ultimately have "quotas_ok db'" by (simp add: quotas_ok_def db' list_all_iff)
  then show ?thesis
    using s u by (simp add: sound_def schema_ok_def blobs_ok_def nodes_ok_def versions_ok_def thumbnails_ok_def
        has_blob_def tree_ok_def balanced_def stored_refs_def find_blob_def expected_references_def
        expected_usage_def db')
next
  case False
  then have "insert_quota i bytes_max db = Inr db'"
    using q by (auto simp: set_quota_def insert_quota_def list_ex_iff split: if_splits)
  from insert_quota_sound(1) [OF s this] show ?thesis .
qed

section \<open>A changed address\<close>

lemma set_email_Inr:
  assumes "set_email i email db = Inr (u, db')"
  obtains u0 db1 where "by_id i db = Some u0" "u = u0\<lparr>u_email := email\<rparr>"
    "db1 = db\<lparr>users := map (\<lambda>u. if u_id u = i then u\<lparr>u_email := email\<rparr> else u) (users db)\<rparr>"
    "users_ok db1" "reassign (u_email u0) email db1 = Inr db'"
proof -
  from assms obtain u0 row db1 where *: "by_id i db = Some u0"
    "update_user i (\<lambda>u. u\<lparr>u_email := email\<rparr>) db = Inr (row, db1)" "row = Some u"
    "reassign (u_email u0) email db1 = Inr db'"
    by (auto simp: set_email_def rbind_eq_Inr)
  from update_user_Inr [OF *(2)] have "u = u0\<lparr>u_email := email\<rparr>" "users_ok db1"
    "db1 = db\<lparr>users := map (\<lambda>u. if u_id u = i then u\<lparr>u_email := email\<rparr> else u) (users db)\<rparr>"
    using *(1,3) by simp_all
  with * that show thesis by blast
qed

lemma reassign_one_frame:
  "reassign_one new g db = Inr db' \<Longrightarrow> db' = db\<lparr>grants := grants db'\<rparr>"
  by (auto simp: reassign_one_def Let_def store_grants_eq_Inr map_err_eq_Inr split: option.splits)

lemma reassign_frame:
  assumes "reassign previous new db = Inr db'"
  shows "db' = db\<lparr>grants := grants db'\<rparr>"
proof -
  let ?P = "\<lambda>d. \<exists>gs. d = db\<lparr>grants := gs\<rparr>"
  have "?P db'"
  proof (rule rfold_invariant [where P = ?P, OF assms [unfolded reassign_def]])
    show "?P db" by (rule exI [of _ "grants db"]) simp
    show "?P t" if "?P s" "reassign_one new g s = Inr t" for g s t
    proof -
      from that(1) obtain gs where "s = db\<lparr>grants := gs\<rparr>" by blast
      with reassign_one_frame [OF that(2)] have "t = db\<lparr>grants := grants t\<rparr>" by simp
      then show ?thesis by blast
    qed
  qed
  then obtain gs where gs: "db' = db\<lparr>grants := gs\<rparr>" by blast
  then show ?thesis by simp
qed

lemma set_email_sound:
  assumes "set_email i email db = Inr (u, db')" and "sound db"
  shows "sound db'" and "users_ok db'" and "nodes db' = nodes db" and "u_email u = email"
    and "\<And>v. v \<in> set (users db') \<Longrightarrow> u_email v = email \<Longrightarrow> u_id v = i"
proof -
  from assms(1) obtain u0 db1 where *: "by_id i db = Some u0" "u = u0\<lparr>u_email := email\<rparr>"
    "db1 = db\<lparr>users := map (\<lambda>u. if u_id u = i then u\<lparr>u_email := email\<rparr> else u) (users db)\<rparr>"
    "users_ok db1" "reassign (u_email u0) email db1 = Inr db'" by (rule set_email_Inr)
  note f = reassign_frame [OF *(5)]
  have fu: "users db' = users db1" "nodes db' = nodes db1" by (subst f, simp)+
  have "map u_id (users db1) = map u_id (users db)" by (simp add: *(3))
  then have "u_id ` set (users db) \<subseteq> u_id ` set (users db1)" by (metis set_map order_refl)
  then have "sound db1" using sound_users [OF assms(2)] *(3) by simp
  with reassign_sound [OF *(5)] show "sound db'" by simp
  show uo: "users_ok db'" "nodes db' = nodes db" "u_email u = email"
    using *(2,3,4) fu by (simp_all add: users_ok_def)
  have "u \<in> set (users db1)" using by_id_Some [OF *(1)] by (auto simp: *(2,3) image_iff)
  then show "u_id v = i" if "v \<in> set (users db')" "u_email v = email" for v
    using uo(1) that distinct_key_eq [of u_email "users db'" v u] by_id_Some [OF *(1)] *(2) uo(3) fu
    by (simp add: users_ok_def users_violation_None)
qed

lemma grants_ok_users:
  "u_id ` set us = u_id ` set (users db) \<Longrightarrow> grants_ok (db\<lparr>users := us\<rparr>) = grants_ok db"
  by (simp add: grants_ok_def grants_violation_def)

text \<open>
  Setting the address an account already has: every grant meets itself under the new address, takes
  itself for a second one, and is deleted.
\<close>

lemma reassign_same_one:
  assumes "reassign_one p g db = Inr db'" and "g \<in> set (grants db)" "g_email g = p"
    and "distinct (map (\<lambda>g. (g_node g, g_email g)) (grants db))"
  shows "grants db' = filter (\<lambda>e. g_id e \<noteq> g_id g) (grants db)"
proof -
  obtain x where x: "find (\<lambda>e. g_email e = p \<and> g_node e = g_node g) (grants db) = Some x"
    using assms(2,3) find_None_set [of "\<lambda>e. g_email e = p \<and> g_node e = g_node g" "grants db"]
    by (cases "find (\<lambda>e. g_email e = p \<and> g_node e = g_node g) (grants db)") auto
  from find_Some_set [OF x] have "x = g"
    using distinct_key_eq [OF assms(4) _ assms(2), of x] assms(3) by simp
  with x assms(1) show ?thesis by (auto simp: reassign_one_def)
qed

lemma reassign_same_fold:
  "rfold (reassign_one p) gs db = Inr db' \<Longrightarrow> distinct (map (\<lambda>g. (g_node g, g_email g)) (grants db)) \<Longrightarrow>
   distinct (map g_id gs) \<Longrightarrow> (\<forall>g\<in>set gs. g \<in> set (grants db) \<and> g_email g = p) \<Longrightarrow>
   grants db' = filter (\<lambda>e. g_id e \<notin> g_id ` set gs) (grants db)"
proof (induction gs arbitrary: db)
  case Nil
  then show ?case by simp
next
  case (Cons g gs)
  from Cons.prems(1) obtain db1 where one: "reassign_one p g db = Inr db1"
    and rest: "rfold (reassign_one p) gs db1 = Inr db'" by (auto simp: rbind_eq_Inr)
  from Cons.prems(4) have g: "g \<in> set (grants db)" "g_email g = p" by auto
  note e = reassign_same_one [OF one g Cons.prems(2)]
  have "distinct (map (\<lambda>g. (g_node g, g_email g)) (grants db1))"
    unfolding e by (rule distinct_map_filterI) (rule Cons.prems(2))
  moreover have "h \<in> set (grants db1) \<and> g_email h = p" if "h \<in> set gs" for h
  proof -
    have "g_id h \<noteq> g_id g" using Cons.prems(3) that by (metis distinct.simps(2) image_eqI list.simps(9) set_map)
    with Cons.prems(4) that show ?thesis by (simp add: e)
  qed
  ultimately have "grants db' = filter (\<lambda>e. g_id e \<notin> g_id ` set gs) (grants db1)"
    using Cons.IH [OF rest] Cons.prems(3) by simp
  also have "\<dots> = filter (\<lambda>x. g_id x \<noteq> g_id g \<and> g_id x \<notin> g_id ` set gs) (grants db)"
    by (simp add: e conj_commute)
  finally show ?case by simp
qed

lemma reassign_same:
  assumes "reassign p p db = Inr db'" and "grants_ok db"
  shows "grants db' = filter (\<lambda>g. g_email g \<noteq> p) (grants db)"
proof -
  have d: "distinct (map g_id (grants db))" "distinct (map (\<lambda>g. (g_node g, g_email g)) (grants db))"
    using assms(2) by (simp_all add: grants_ok_def grants_violation_None)
  let ?gs = "sort_key g_created (filter (\<lambda>g. g_email g = p) (grants db))"
  have "distinct (map g_id ?gs)"
    using distinct_map_filterI [OF d(1), of "\<lambda>g. g_email g = p"] by (simp add: distinct_map)
  from reassign_same_fold [OF assms(1) [unfolded reassign_def] d(2) this]
  have "grants db' = filter (\<lambda>e. g_id e \<notin> g_id ` set ?gs) (grants db)" by simp
  also have "\<dots> = filter (\<lambda>g. g_email g \<noteq> p) (grants db)"
    using distinct_key_eq [OF d(1)] by (intro filter_cong) (auto simp: image_iff)
  finally show ?thesis .
qed

section \<open>Properties\<close>

text \<open>
  Giving an account the address it already has deletes every grant it received: nothing else
  changes, the answer is a success, and what was shared with the account is out of its reach.
\<close>

theorem same_address_drops_shares:
  assumes "by_id i db = Some u" and "grants_ok db" and "set_email i (u_email u) db = Inr (u', db')"
  shows "u' = u \<and> nodes db' = nodes db \<and> grants db' = filter (\<lambda>g. g_email g \<noteq> u_email u) (grants db)
    \<and> mount_named (u_email u) name db' = Inl NotFound"
proof -
  from assms(3) obtain u0 db1 where *: "by_id i db = Some u0" "u' = u0\<lparr>u_email := u_email u\<rparr>"
    "db1 = db\<lparr>users := map (\<lambda>w. if u_id w = i then w\<lparr>u_email := u_email u\<rparr> else w) (users db)\<rparr>"
    "users_ok db1" "reassign (u_email u0) (u_email u) db1 = Inr db'" by (rule set_email_Inr)
  have u0: "u0 = u" using *(1) assms(1) by simp
  have "map u_id (users db1) = map u_id (users db)" unfolding *(3) by simp
  then have "u_id ` set (users db1) = u_id ` set (users db)" by (metis set_map)
  then have "grants_ok db1" using grants_ok_users [of "users db1" db] assms(2) unfolding *(3) by simp
  note same = reassign_same [OF *(5) [unfolded u0] this]
  note f = reassign_frame [OF *(5)]
  have "nodes db' = nodes db" by (subst f) (simp add: *(3))
  moreover have g: "grants db' = filter (\<lambda>g. g_email g \<noteq> u_email u) (grants db)" unfolding same *(3) by simp
  moreover have "find (\<lambda>g. g_email g = u_email u \<and> g_mount_name g = as_str name) (grants db') = None"
    by (simp add: g find_None_set)
  then have "mount_named (u_email u) name db' = Inl NotFound"
    by (simp add: mount_named_def ok_or_def)
  ultimately show ?thesis using *(2) u0 by simp
qed

theorem same_address_drops_shares_witness:
  "mount_named ''bob@example.com'' (NodeName ''a'') shared \<noteq> Inl NotFound
   \<and> (\<exists>db'. set_email 2 ''bob@example.com'' shared = Inr (sample_guest, db')
        \<and> mount_named ''bob@example.com'' (NodeName ''a'') db' = Inl NotFound)"
proof -
  have e: "u_email sample_guest = ''bob@example.com''" by (simp add: sample_guest_def)
  have b: "by_id 2 shared = Some sample_guest" and g: "grants_ok shared" by code_simp+
  have "\<not> isl (set_email 2 ''bob@example.com'' shared)" by code_simp
  then obtain u db' where s: "set_email 2 ''bob@example.com'' shared = Inr (u, db')" using ok_pair by blast
  from same_address_drops_shares [OF b g s [folded e]] have "u = sample_guest"
    "mount_named ''bob@example.com'' (NodeName ''a'') db' = Inl NotFound" by (simp_all add: e)
  moreover have "\<not> isl (mount_named ''bob@example.com'' (NodeName ''a'') shared)" by code_simp
  ultimately show ?thesis using s by (cases "mount_named ''bob@example.com'' (NodeName ''a'') shared") auto
qed

end
