(* ===== verification/Attempts.thy ===== *)
theory Attempts
  imports Accounts
begin

text \<open>
  The limit on guessing: \<open>api/src/attempts.rs\<close> and the table \<open>attempts\<close>. A guess is evaluated when
  \<open>spend\<close> lets it through; the lemmas state how long the blocks between two guesses get.
\<close>

section \<open>Operations\<close>

definition FREE_ATTEMPTS :: int where "FREE_ATTEMPTS = 10"
definition FIRST_BLOCK_SECONDS :: int where "FIRST_BLOCK_SECONDS = 60"
definition LONGEST_BLOCK_SECONDS :: int where "LONGEST_BLOCK_SECONDS = 60 * 60"
definition MEMORY_SECONDS :: int where "MEMORY_SECONDS = 24 * 60 * 60"

text \<open>The saturating arithmetic of an integer of \<open>w\<close> bits.\<close>

definition saturate :: "nat \<Rightarrow> int \<Rightarrow> int" where
  "saturate w x = max (- (2 ^ (w - 1))) (min (2 ^ (w - 1) - 1) x)"

definition blocked_for :: "int \<Rightarrow> int" where
  "blocked_for recorded =
     (let over = saturate 32 (recorded - FREE_ATTEMPTS) in
      if over < 0 then 0
      else min (saturate 64 (FIRST_BLOCK_SECONDS * 2 ^ min (nat over) 31)) LONGEST_BLOCK_SECONDS)"

text \<open>\<open>ceil(extract(epoch FROM \<dots>))\<close> of a number of microseconds.\<close>

definition ceil_seconds :: "int \<Rightarrow> int" where
  "ceil_seconds us = - ((- us) div second)"

definition of_subject :: "scope \<Rightarrow> string \<Rightarrow> attempt \<Rightarrow> bool" where
  "of_subject scope subject a \<longleftrightarrow> at_scope a = scope \<and> at_subject a = subject"

definition standing :: "timestamp \<Rightarrow> scope \<Rightarrow> string \<Rightarrow> db \<Rightarrow> attempt option" where
  "standing now scope subject db =
     find (\<lambda>a. of_subject scope subject a \<and> now - MEMORY_SECONDS * second < at_last a) (attempts db)"

definition upsert :: "attempt \<Rightarrow> db \<Rightarrow> db" where
  "upsert row db =
     (let same = of_subject (at_scope row) (at_subject row) in
      db\<lparr>attempts := (if list_ex same (attempts db)
        then map (\<lambda>a. if same a then row else a) (attempts db) else attempts db @ [row])\<rparr>)"

definition spend :: "timestamp \<Rightarrow> scope \<Rightarrow> string \<Rightarrow> db \<Rightarrow> api_error + db" where
  "spend now scope subject db =
     (let row = standing now scope subject db;
          until = Option.bind row at_blocked;
          blocked = (case until of None \<Rightarrow> False | Some t \<Rightarrow> now < t);
          seconds = (case until of None \<Rightarrow> 0 | Some t \<Rightarrow> ceil_seconds (t - now))
      in if blocked then Inl (TooManyAttempts (max seconds 1))
         else let count = (case row of Some a \<Rightarrow> saturate 32 (at_failures a + 1) | None \<Rightarrow> 1);
                  block = blocked_for count
              in Inr (upsert \<lparr>at_scope = scope, at_subject = subject, at_failures = count, at_last = now,
                   at_blocked = (if 0 < block then Some (now + block * second) else None)\<rparr> db))"

definition forget_attempts :: "scope \<Rightarrow> string \<Rightarrow> db \<Rightarrow> db" where
  "forget_attempts scope subject db = db\<lparr>attempts := filter (\<lambda>a. \<not> of_subject scope subject a) (attempts db)\<rparr>"

definition purge_expired_attempts :: "timestamp \<Rightarrow> db \<Rightarrow> nat \<times> db" where
  "purge_expired_attempts now db =
     (let old = (\<lambda>a. at_last a < now - MEMORY_SECONDS * second) in
      (length (filter old (attempts db)), db\<lparr>attempts := filter (\<lambda>a. \<not> old a) (attempts db)\<rparr>))"

text \<open>The primary key and the check of \<open>attempts\<close>, and the width of \<open>INTEGER\<close>.\<close>

definition attempts_ok :: "db \<Rightarrow> bool" where
  "attempts_ok db \<longleftrightarrow> distinct (map (\<lambda>a. (at_scope a, at_subject a)) (attempts db))
     \<and> list_all (\<lambda>a. 0 < at_failures a \<and> at_failures a < 2 ^ 31) (attempts db)"

section \<open>Blocks\<close>

lemma saturate_nonneg: "0 \<le> x \<Longrightarrow> 0 \<le> saturate w x"
  by (simp add: saturate_def)

lemma saturate_id: "- (2 ^ (w - 1)) \<le> x \<Longrightarrow> x < 2 ^ (w - 1) \<Longrightarrow> saturate w x = x"
  by (simp add: saturate_def)

lemma blocked_for_range: "0 \<le> blocked_for n \<and> blocked_for n \<le> LONGEST_BLOCK_SECONDS"
  using saturate_nonneg [of "FIRST_BLOCK_SECONDS * 2 ^ k" 64 for k]
  by (simp add: blocked_for_def Let_def FIRST_BLOCK_SECONDS_def LONGEST_BLOCK_SECONDS_def)

lemma two_power_min: "(2 :: int) ^ min k 31 \<le> 2 ^ 31"
  by (rule power_increasing) simp_all

text \<open>Free below the tenth, doubling from a minute, an hour from the sixteenth on.\<close>

lemma blocked_for_doubles:
  assumes "- (2 ^ 31) + 10 \<le> n" and "n < 2 ^ 31"
  shows "blocked_for n = (if n < 10 then 0 else min (60 * 2 ^ nat (n - 10)) 3600)"
proof (cases "n < 10")
  case True
  with assms show ?thesis by (simp add: blocked_for_def Let_def saturate_def FREE_ATTEMPTS_def)
next
  case False
  have s: "saturate 32 (n - FREE_ATTEMPTS) = n - 10"
    using False assms by (simp add: saturate_def FREE_ATTEMPTS_def)
  let ?k = "nat (n - 10)"
  have p: "(2 :: int) ^ min ?k 31 \<le> 2 ^ 31" by (rule two_power_min)
  have s64: "saturate 64 (FIRST_BLOCK_SECONDS * 2 ^ min ?k 31) = 60 * 2 ^ min ?k 31"
    unfolding FIRST_BLOCK_SECONDS_def
  proof (rule saturate_id)
    show "60 * (2 :: int) ^ min ?k 31 < 2 ^ (64 - 1)" using mult_left_mono [OF p, of 60] by simp
    show "- (2 ^ (64 - 1)) \<le> 60 * (2 :: int) ^ min ?k 31" by (rule order_trans [of _ 0]) simp_all
  qed
  have "min (60 * 2 ^ min ?k 31) 3600 = min (60 * (2 :: int) ^ ?k) 3600"
  proof (cases "?k \<le> 31")
    case True
    then show ?thesis by simp
  next
    case False
    have "(2 :: int) ^ 31 \<le> 2 ^ ?k" by (rule power_increasing) (use False in simp_all)
    with False show ?thesis by simp
  qed
  with False s s64 show ?thesis
    by (simp add: blocked_for_def Let_def LONGEST_BLOCK_SECONDS_def)
qed

lemma blocked_for_mono:
  assumes "0 \<le> m" "m \<le> n" "n < 2 ^ 31"
  shows "blocked_for m \<le> blocked_for n"
proof -
  have "(2 :: int) ^ nat (m - 10) \<le> 2 ^ nat (n - 10)"
    by (rule power_increasing) (use assms in simp_all)
  moreover have "(1 :: int) \<le> 2 ^ nat (n - 10)" by simp
  ultimately show ?thesis
    using assms blocked_for_doubles [of m] blocked_for_doubles [of n] min.mono [of "60 * 2 ^ nat (m - 10)" "60 * 2 ^ nat (n - 10)" "3600 :: int" 3600]
      blocked_for_range [of n] by (cases "m < 10") simp_all
qed

lemma blocked_for_full: "16 \<le> n \<Longrightarrow> n < 2 ^ 31 \<Longrightarrow> blocked_for n = 3600"
proof -
  assume n: "16 \<le> n" "n < 2 ^ 31"
  have "(2 :: int) ^ 6 \<le> 2 ^ nat (n - 10)" by (rule power_increasing) (use n in simp_all)
  then show ?thesis using n blocked_for_doubles [of n] by simp
qed

section \<open>Guesses let through\<close>

lemma upsert_find:
  "of_subject (at_scope row) (at_subject row) = same \<Longrightarrow>
   find same (attempts (upsert row db)) = Some row"
proof -
  assume same: "of_subject (at_scope row) (at_subject row) = same"
  then have r: "same row" by (auto simp: of_subject_def)
  have "find same (map (\<lambda>a. if same a then row else a) xs) = Some row" if "list_ex same xs" for xs
    using that by (induction xs) (auto simp: r)
  moreover have "find same (xs @ [row]) = Some row" if "\<not> list_ex same xs" for xs
    using that by (induction xs) (auto simp: r)
  ultimately show ?thesis by (simp add: upsert_def same)
qed

text \<open>What a sequence of guesses at one subject is let through, at the given times, and the state after.\<close>

fun guesses :: "scope \<Rightarrow> string \<Rightarrow> timestamp list \<Rightarrow> db \<Rightarrow> timestamp list \<times> db" where
  "guesses scope subject [] db = ([], db)"
| "guesses scope subject (t # ts) db =
     (case spend t scope subject db of
        Inl _ \<Rightarrow> guesses scope subject ts db
      | Inr db1 \<Rightarrow> (let (through, db2) = guesses scope subject ts db1 in (t # through, db2)))"

lemma blocked_for_not_pos: "\<not> 0 < blocked_for n \<Longrightarrow> blocked_for n = 0"
  using blocked_for_range [of n] by simp

text \<open>The row a guess leaves: counted once more, blocked for what the count costs.\<close>

definition fresh :: "int \<Rightarrow> timestamp \<Rightarrow> attempt \<Rightarrow> bool" where
  "fresh n t a \<longleftrightarrow> at_failures a = n \<and> at_last a = t
     \<and> at_blocked a = (if 0 < blocked_for n then Some (t + blocked_for n * second) else None)"

lemma spend_Inr:
  assumes "spend t scope subject db = Inr db'"
  shows "\<exists>a. find (of_subject scope subject) (attempts db') = Some a
    \<and> fresh (case standing t scope subject db of Some b \<Rightarrow> saturate 32 (at_failures b + 1) | None \<Rightarrow> 1) t a"
proof -
  let ?n = "case standing t scope subject db of Some b \<Rightarrow> saturate 32 (at_failures b + 1) | None \<Rightarrow> 1"
  let ?row = "\<lparr>at_scope = scope, at_subject = subject, at_failures = ?n, at_last = t,
     at_blocked = (if 0 < blocked_for ?n then Some (t + blocked_for ?n * second) else None)\<rparr>"
  have "db' = upsert ?row db" using assms by (simp add: spend_def Let_def split: if_splits)
  then have "find (of_subject scope subject) (attempts db') = Some ?row" using upsert_find by simp
  moreover have "fresh ?n t ?row" by (simp add: fresh_def)
  ultimately show ?thesis by blast
qed

lemma standing_fresh:
  assumes "find (of_subject scope subject) (attempts db) = Some a" "fresh n l a"
    and "t < l + MEMORY_SECONDS * second"
  shows "standing t scope subject db = Some a"
  using assms(1)
proof (induction "attempts db" arbitrary: db)
  case (Cons x xs)
  show ?case
  proof (cases "of_subject scope subject x")
    case True
    with Cons.prems Cons.hyps(2) [symmetric] have "x = a" by simp
    with True Cons.hyps(2) [symmetric] assms(2,3) show ?thesis by (simp add: standing_def fresh_def)
  next
    case False
    with Cons.prems Cons.hyps(2) [symmetric]
    have "find (of_subject scope subject) (attempts (db\<lparr>attempts := xs\<rparr>)) = Some a" by simp
    from Cons.hyps(1) [OF _ this] False Cons.hyps(2) [symmetric] show ?thesis by (simp add: standing_def)
  qed
qed simp

text \<open>A guess after one at \<open>l\<close> waits out the block of that one, and counts one more.\<close>

lemma spend_after:
  assumes a: "find (of_subject scope subject) (attempts db) = Some a" "fresh n l a" "0 < n" "n < 2 ^ 31"
    and t: "l \<le> t" "t < l + MEMORY_SECONDS * second"
  shows "spend t scope subject db = Inr db' \<Longrightarrow> l + blocked_for n * second \<le> t
      \<and> (\<exists>b. find (of_subject scope subject) (attempts db') = Some b \<and> fresh (min (n + 1) (2 ^ 31 - 1)) t b)"
    and "spend t scope subject db = Inl e \<Longrightarrow> 0 < blocked_for n"
proof -
  have st: "standing t scope subject db = Some a" by (rule standing_fresh [OF a(1,2) t(2)])
  have b: "at_blocked a = (if 0 < blocked_for n then Some (l + blocked_for n * second) else None)"
    and f: "at_failures a = n" using a(2) by (simp_all add: fresh_def)
  show "l + blocked_for n * second \<le> t
      \<and> (\<exists>b. find (of_subject scope subject) (attempts db') = Some b \<and> fresh (min (n + 1) (2 ^ 31 - 1)) t b)"
    if s: "spend t scope subject db = Inr db'"
  proof
    show "l + blocked_for n * second \<le> t"
    proof (cases "0 < blocked_for n")
      case True
      then show ?thesis using s st b by (simp add: spend_def Let_def split: if_splits)
    next
      case False
      from blocked_for_not_pos [OF this] t(1) show ?thesis by simp
    qed
    have "saturate 32 (n + 1) = min (n + 1) (2 ^ 31 - 1)" using a(3) by (simp add: saturate_def)
    then show "\<exists>b. find (of_subject scope subject) (attempts db') = Some b \<and> fresh (min (n + 1) (2 ^ 31 - 1)) t b"
      using spend_Inr [OF s] st f by simp
  qed
  show "0 < blocked_for n" if "spend t scope subject db = Inl e"
    using that st b by (simp add: spend_def Let_def split: if_splits)
qed

definition wait_total :: "int \<Rightarrow> nat \<Rightarrow> int" where
  "wait_total n m = (\<Sum>i<m. blocked_for (n + int i))"

lemma wait_total_Suc: "wait_total n (Suc m) = blocked_for n + wait_total (n + 1) m"
  unfolding wait_total_def by (subst sum.lessThan_Suc_shift) (simp add: algebra_simps)

lemma wait_total_mono: "m \<le> m' \<Longrightarrow> wait_total n m \<le> wait_total n m'"
  unfolding wait_total_def by (rule sum_mono2) (auto simp: blocked_for_range)

text \<open>
  After a guess at \<open>l\<close> that counted at least \<open>k\<close>, the guesses let through before \<open>stop\<close> leave room
  for every block between them.
\<close>

lemma guesses_wait:
  "find (of_subject scope subject) (attempts db) = Some a \<Longrightarrow> fresh n l a \<Longrightarrow> 0 < k \<Longrightarrow> k \<le> n \<Longrightarrow> n < 2 ^ 31 \<Longrightarrow>
   k + int (length ts) < 2 ^ 31 \<Longrightarrow> sorted ts \<Longrightarrow> (\<forall>t\<in>set ts. l \<le> t \<and> t < stop) \<Longrightarrow>
   stop \<le> l + MEMORY_SECONDS * second \<Longrightarrow> m = length (fst (guesses scope subject ts db)) \<Longrightarrow> 0 < m \<Longrightarrow>
   l + wait_total k m * second < stop"
proof (induction ts arbitrary: db a n l k m)
  case Nil
  then show ?case by simp
next
  case (Cons t ts)
  have t: "l \<le> t" "t < l + MEMORY_SECONDS * second" "t < stop" using Cons.prems by auto
  have "0 < n" using Cons.prems(3,4) by simp
  note after = spend_after [OF Cons.prems(1,2) this Cons.prems(5) t(1,2)]
  have ts: "sorted ts" "\<forall>x\<in>set ts. t \<le> x \<and> x < stop" "\<forall>x\<in>set ts. l \<le> x \<and> x < stop"
    using Cons.prems(7,8) by auto
  show ?case
  proof (cases "spend t scope subject db")
    case (Inl e)
    then have "m = length (fst (guesses scope subject ts db))" using Cons.prems(10) by simp
    from Cons.IH [OF Cons.prems(1-5) _ ts(1,3) Cons.prems(9) this Cons.prems(11)] Cons.prems(6)
    show ?thesis by simp
  next
    case (Inr db1)
    from after(1) [OF Inr] obtain b where w: "l + blocked_for n * second \<le> t"
      and b: "find (of_subject scope subject) (attempts db1) = Some b" "fresh (min (n + 1) (2 ^ 31 - 1)) t b" by blast
    let ?m = "length (fst (guesses scope subject ts db1))"
    have m: "m = Suc ?m" using Inr Cons.prems(10) by (simp add: case_prod_unfold Let_def)
    have "blocked_for k \<le> blocked_for n"
      by (rule blocked_for_mono) (use Cons.prems(3,4,5) in simp_all)
    with w have kt: "l + blocked_for k * second \<le> t" by simp
    show ?thesis
    proof (cases "?m = 0")
      case True
      with m kt t(3) show ?thesis by (simp add: wait_total_def)
    next
      case False
      have "t + wait_total (k + 1) ?m * second < stop"
      proof (rule Cons.IH [OF b _ _ _ _ ts(1,2) _ refl])
        show "k + 1 \<le> min (n + 1) (2 ^ 31 - 1)" using Cons.prems(4,6) by simp
        show "stop \<le> t + MEMORY_SECONDS * second" using Cons.prems(9) t(1) by simp
      qed (use Cons.prems(3,6) False in simp_all)
      with kt m show ?thesis by (simp add: wait_total_Suc distrib_right)
    qed
  qed
qed

lemma wait_total_day: "MEMORY_SECONDS \<le> wait_total 1 38"
  by code_simp

lemma guesses_skip: "fst (guesses scope subject ts db) = t # rest \<Longrightarrow>
  \<exists>before after db1. ts = before @ t # after \<and> spend t scope subject db = Inr db1
    \<and> rest = fst (guesses scope subject after db1)"
proof (induction ts)
  case (Cons x xs)
  show ?case
  proof (cases "spend x scope subject db")
    case (Inl e)
    with Cons.prems have "fst (guesses scope subject xs db) = t # rest" by simp
    from Cons.IH [OF this] show ?thesis by (metis append_Cons)
  next
    case (Inr db1)
    with Cons.prems have "x = t" "rest = fst (guesses scope subject xs db1)"
      by (auto simp: case_prod_unfold Let_def)
    with Inr show ?thesis by blast
  qed
qed simp

lemma guesses_fresh:
  assumes "attempts_ok db" and "spend t scope subject db = Inr db1"
  obtains a n where "find (of_subject scope subject) (attempts db1) = Some a" "fresh n t a" "1 \<le> n" "n < 2 ^ 31"
proof -
  let ?n = "case standing t scope subject db of Some b \<Rightarrow> saturate 32 (at_failures b + 1) | None \<Rightarrow> 1"
  from spend_Inr [OF assms(2)] obtain a where "find (of_subject scope subject) (attempts db1) = Some a"
    "fresh ?n t a" by blast
  moreover have "1 \<le> ?n \<and> ?n < 2 ^ 31"
  proof (cases "standing t scope subject db")
    case (Some b)
    then have "b \<in> set (attempts db)" unfolding standing_def by (auto dest: find_Some_set)
    with assms(1) Some show ?thesis by (auto simp: attempts_ok_def list_all_iff saturate_def)
  qed simp
  ultimately show thesis using that by blast
qed

text \<open>Up to ten guesses at a subject nothing stands against all get through.\<close>

lemma guesses_free:
  "find (of_subject scope subject) (attempts db) = Some a \<Longrightarrow> fresh n l a \<Longrightarrow> 0 < n \<Longrightarrow>
   n + int (length ts) \<le> 10 \<Longrightarrow> sorted ts \<Longrightarrow> (\<forall>t\<in>set ts. l \<le> t \<and> t < l + MEMORY_SECONDS * second) \<Longrightarrow>
   fst (guesses scope subject ts db) = ts"
proof (induction ts arbitrary: db a n l)
  case (Cons t ts)
  have t: "l \<le> t" "t < l + MEMORY_SECONDS * second" using Cons.prems by auto
  have n: "n < 2 ^ 31" "n < 10" using Cons.prems(4) by simp_all
  note after = spend_after [OF Cons.prems(1-3) n(1) t]
  have "blocked_for n = 0" using n(2) Cons.prems(3) blocked_for_doubles [of n] by simp
  with after(2) obtain db1 where s: "spend t scope subject db = Inr db1" by (cases "spend t scope subject db") auto
  from after(1) [OF this] obtain b where b: "find (of_subject scope subject) (attempts db1) = Some b"
    "fresh (min (n + 1) (2 ^ 31 - 1)) t b" by blast
  have "min (n + 1) (2 ^ 31 - 1) = n + 1" using n by simp
  with b(2) have f: "fresh (n + 1) t b" by simp
  have "fst (guesses scope subject ts db1) = ts"
  proof (rule Cons.IH [OF b(1) f])
    show "\<forall>x\<in>set ts. t \<le> x \<and> x < t + MEMORY_SECONDS * second" using Cons.prems(5,6) t(1) by auto
  qed (use Cons.prems in simp_all)
  with s show ?case by (simp add: case_prod_unfold Let_def)
qed simp

section \<open>Properties\<close>

text \<open>
  C29. However often somebody guesses at one subject within a day, at most 38 guesses are let
  through, whatever was counted before; and the first ten guesses at a subject nothing is counted
  against are all let through.
\<close>

theorem guessing_is_bounded:
  assumes "attempts_ok db" and "sorted ts" and "\<forall>t\<in>set ts. s \<le> t \<and> t < s + MEMORY_SECONDS * second"
    and "int (length ts) < 2 ^ 31 - 1"
  shows "length (fst (guesses scope subject ts db)) \<le> 38
    \<and> ((\<forall>a\<in>set (attempts db). \<not> of_subject scope subject a) \<longrightarrow>
        fst (guesses scope subject (take 10 ts) db) = take 10 ts)"
proof (intro conjI impI)
  show "length (fst (guesses scope subject ts db)) \<le> 38"
  proof (rule ccontr)
    assume "\<not> ?thesis"
    then obtain t rest where g: "fst (guesses scope subject ts db) = t # rest" and r: "38 \<le> length rest"
      by (cases "fst (guesses scope subject ts db)") auto
    from guesses_skip [OF g] obtain before after db1 where ts: "ts = before @ t # after"
      and s: "spend t scope subject db = Inr db1" "rest = fst (guesses scope subject after db1)" by blast
    from guesses_fresh [OF assms(1) s(1)] obtain a n where
      a: "find (of_subject scope subject) (attempts db1) = Some a" "fresh n t a" "1 \<le> n" "n < 2 ^ 31" .
    have "t + wait_total 1 (length rest) * second < s + MEMORY_SECONDS * second"
    proof (rule guesses_wait [OF a(1,2) _ a(3,4) _ _ _ _ _])
      show "sorted after" using assms(2) ts by (simp add: sorted_append)
      show "\<forall>x\<in>set after. t \<le> x \<and> x < s + MEMORY_SECONDS * second"
        using assms(2,3) ts by (auto simp: sorted_append)
      show "s + MEMORY_SECONDS * second \<le> t + MEMORY_SECONDS * second" using assms(3) ts by simp
    qed (use assms(4) ts s(2) r in auto)
    moreover have "MEMORY_SECONDS \<le> wait_total 1 (length rest)"
      using wait_total_day wait_total_mono [OF r, of 1] by simp
    moreover have "s \<le> t" using assms(3) ts by simp
    ultimately show False by simp
  qed
next
  assume none: "\<forall>a\<in>set (attempts db). \<not> of_subject scope subject a"
  show "fst (guesses scope subject (take 10 ts) db) = take 10 ts"
  proof (cases "take 10 ts")
    case (Cons t rest)
    have "standing t scope subject db = None" using none by (auto simp: standing_def find_None_set)
    then obtain db1 where s: "spend t scope subject db = Inr db1" by (simp add: spend_def Let_def)
    from spend_Inr [OF s] \<open>standing t scope subject db = None\<close> obtain a where
      a: "find (of_subject scope subject) (attempts db1) = Some a" "fresh 1 t a" by auto
    have l: "length (take 10 ts) \<le> 10" by simp
    have "sorted (t # rest)" using sorted_wrt_take [of "(\<le>)" ts 10] assms(2) Cons by simp
    moreover have "\<forall>x\<in>set (t # rest). s \<le> x \<and> x < s + MEMORY_SECONDS * second"
      using assms(3) set_take_subset [of 10 ts] unfolding Cons [symmetric] by blast
    ultimately have "fst (guesses scope subject rest db1) = rest"
      by (intro guesses_free [OF a]) (use l Cons in auto)
    with s Cons show ?thesis by (simp add: case_prod_unfold Let_def)
  qed simp
qed

theorem guessing_is_bounded_witness:
  "length (fst (guesses Login ''a@b.c'' [0, second, 2 * second] (empty_db id))) \<le> 38
   \<and> fst (guesses Login ''a@b.c'' [0, second, 2 * second] (empty_db id)) = [0, second, 2 * second]"
proof -
  have "attempts_ok (empty_db id)" by code_simp
  moreover have "\<forall>t\<in>set [0, second, 2 * second]. 0 \<le> t \<and> t < 0 + MEMORY_SECONDS * second"
    by (simp add: MEMORY_SECONDS_def)
  ultimately show ?thesis
    using guessing_is_bounded [of "empty_db id" "[0, second, 2 * second]" 0 Login "''a@b.c''"]
    by (simp add: empty_db_def)
qed

end
