(* ===== verification/Signin.thy ===== *)
theory Signin
  imports Attempts Sample "HOL-Library.AList"
begin

text \<open>
  Who a request comes from: \<open>api/src/sessions.rs\<close>, \<open>app_passwords.rs\<close>, \<open>auth.rs\<close>, \<open>recovery.rs\<close>,
  \<open>settings.rs\<close>, and the handlers of \<open>routes/auth.rs\<close>, \<open>routes/users.rs\<close> and
  \<open>routes/app_passwords.rs\<close>. The lemmas state whom a credential lets in, what revokes it, and that
  an administrator always remains.
\<close>

section \<open>Answers\<close>

text \<open>
  A handler answers and leaves a database. What fails inside a transaction leaves nothing of it
  behind; what a handler did before in one of its own stays.
\<close>

type_synonym 'a answer = "(api_error + 'a) \<times> db"

definition transact :: "(db \<Rightarrow> api_error + 'a \<times> db) \<Rightarrow> db \<Rightarrow> 'a answer" where
  "transact f db = (case f db of Inl e \<Rightarrow> (Inl e, db) | Inr (x, db') \<Rightarrow> (Inr x, db'))"

definition execute :: "(db \<Rightarrow> api_error + db) \<Rightarrow> db \<Rightarrow> unit answer" where
  "execute f = transact (\<lambda>db. rbind (f db) (\<lambda>db'. Inr ((), db')))"

definition and_then :: "'a answer \<Rightarrow> ('a \<Rightarrow> db \<Rightarrow> 'b answer) \<Rightarrow> 'b answer" where
  "and_then m f = (case m of (Inl e, db) \<Rightarrow> (Inl e, db) | (Inr x, db) \<Rightarrow> f x db)"

text \<open>What the server is configured with.\<close>

record app_state =
  default_quota_bytes :: int
  versions_kept :: int
  trash_retention :: "timestamp option"
  session_ttl :: int

section \<open>Sessions\<close>

definition create_session :: "timestamp \<Rightarrow> uuid \<Rightarrow> timestamp \<Rightarrow> db \<Rightarrow> api_error + uuid \<times> db" where
  "create_session now user_id expires db =
     (let (i, db1) = now_v7 db in
      if i \<in> set (map x_id (sessions db1)) then Inl (Database (UniqueViolation ''sessions_pkey''))
      else if user_id \<notin> set (map u_id (users db1))
        then Inl (Database (ForeignKeyViolation ''sessions_user_id_fkey''))
      else Inr (i, db1\<lparr>sessions := sessions db1
             @ [\<lparr>x_id = i, x_user = user_id, x_created = now, x_expires = expires\<rparr>]\<rparr>))"

definition is_live_session :: "timestamp \<Rightarrow> uuid \<Rightarrow> uuid \<Rightarrow> db \<Rightarrow> bool" where
  "is_live_session now i user_id db \<longleftrightarrow>
     list_ex (\<lambda>x. x_id x = i \<and> x_user x = user_id \<and> now < x_expires x) (sessions db)"

definition revoke_session :: "uuid \<Rightarrow> db \<Rightarrow> db" where
  "revoke_session i db = db\<lparr>sessions := filter (\<lambda>x. x_id x \<noteq> i) (sessions db)\<rparr>"

definition revoke_all :: "uuid \<Rightarrow> uuid option \<Rightarrow> db \<Rightarrow> nat \<times> db" where
  "revoke_all user_id keeping db =
     (let gone = (\<lambda>x. x_user x = user_id \<and> Some (x_id x) \<noteq> keeping) in
      (length (filter gone (sessions db)), db\<lparr>sessions := filter (\<lambda>x. \<not> gone x) (sessions db)\<rparr>))"

definition purge_expired_sessions :: "timestamp \<Rightarrow> db \<Rightarrow> nat \<times> db" where
  "purge_expired_sessions now db =
     (length (filter (\<lambda>x. x_expires x < now) (sessions db)),
      db\<lparr>sessions := filter (\<lambda>x. \<not> x_expires x < now) (sessions db)\<rparr>)"

definition issue :: "crates \<Rightarrow> int \<Rightarrow> timestamp \<Rightarrow> uuid \<Rightarrow> uuid \<Rightarrow> api_error + string" where
  "issue C ttl now user_id session_id =
     ok_or Credential (jwt_encode C user_id session_id ((now + ttl * second) div second))"

definition open_session :: "crates \<Rightarrow> int \<Rightarrow> timestamp \<Rightarrow> uuid \<Rightarrow> db \<Rightarrow> string answer" where
  "open_session C ttl now user_id db =
     and_then (transact (create_session now user_id (now + ttl * second)) db) (\<lambda>session_id db1.
       (issue C ttl now user_id session_id, db1))"

section \<open>App passwords\<close>

definition MAX_APP_PASSWORD_NAME :: nat where "MAX_APP_PASSWORD_NAME = 100"

definition hex_digit :: "nat \<Rightarrow> char" where
  "hex_digit k = char_of (if k < 10 then 48 + k else 87 + k)"

definition hex_bytes :: "nat list \<Rightarrow> string" where
  "hex_bytes bs = concat (map (\<lambda>b. [hex_digit (b div 16), hex_digit (b mod 16)]) bs)"

definition fingerprint :: "crates \<Rightarrow> string \<Rightarrow> string" where
  "fingerprint C secret = hex_encode C (blake3 C secret)"

record listed_password =
  lp_id :: uuid
  lp_name :: string
  lp_created :: timestamp
  lp_last_used :: "timestamp option"

definition listed :: "app_password \<Rightarrow> listed_password" where
  "listed p = \<lparr>lp_id = ap_id p, lp_name = ap_name p, lp_created = ap_created p, lp_last_used = ap_last_used p\<rparr>"

text \<open>The 32 bytes are what the operating system's randomness fills in.\<close>

definition mint_app_password ::
    "crates \<Rightarrow> nat list \<Rightarrow> timestamp \<Rightarrow> uuid \<Rightarrow> string \<Rightarrow> db \<Rightarrow> api_error + (listed_password \<times> string) \<times> db" where
  "mint_app_password C random now user_id text db =
     (let name = trim text; secret = hex_bytes random in
      if name = [] \<or> MAX_APP_PASSWORD_NAME < char_count name
      then Inl (WrongKind ''name for the app password, up to 100 characters'')
      else let (i, db1) = now_v7 db;
               p = \<lparr>ap_id = i, ap_user = user_id, ap_name = name, ap_hash = fingerprint C secret,
                    ap_created = now, ap_last_used = None, ap_revoked = None\<rparr>
           in if i \<in> set (map ap_id (app_passwords db1))
              then Inl (Database (UniqueViolation ''app_passwords_pkey''))
              else if user_id \<notin> set (map u_id (users db1))
              then Inl (Database (ForeignKeyViolation ''app_passwords_user_id_fkey''))
              else Inr ((listed p, secret), db1\<lparr>app_passwords := app_passwords db1 @ [p]\<rparr>))"

definition list_app_passwords :: "uuid \<Rightarrow> db \<Rightarrow> listed_password list" where
  "list_app_passwords user_id db = map listed (rev (sort_key ap_created
     (filter (\<lambda>p. ap_user p = user_id \<and> ap_revoked p = None) (app_passwords db))))"

definition revoke_app_password :: "timestamp \<Rightarrow> uuid \<Rightarrow> uuid \<Rightarrow> db \<Rightarrow> api_error + db" where
  "revoke_app_password now user_id i db =
     (let mine = (\<lambda>p. ap_id p = i \<and> ap_user p = user_id \<and> ap_revoked p = None) in
      if \<not> list_ex mine (app_passwords db) then Inl NotFound
      else Inr (db\<lparr>app_passwords := map (\<lambda>p. if mine p then p\<lparr>ap_revoked := Some now\<rparr> else p) (app_passwords db)\<rparr>))"

definition stale :: "timestamp \<Rightarrow> timestamp option \<Rightarrow> bool" where
  "stale now last_used \<longleftrightarrow> (case last_used of None \<Rightarrow> True | Some t \<Rightarrow> t < now - 5 * 60 * second)"

definition authenticate :: "crates \<Rightarrow> timestamp \<Rightarrow> string \<Rightarrow> string \<Rightarrow> db \<Rightarrow> (user \<times> uuid) option \<times> db" where
  "authenticate C now email presented db =
     (case by_email email db of
        None \<Rightarrow> (None, db)
      | Some u \<Rightarrow>
          if u_disabled u \<noteq> None then (None, db)
          else case find (\<lambda>p. ap_user p = u_id u \<and> ap_hash p = fingerprint C presented \<and> ap_revoked p = None)
                 (app_passwords db) of
              None \<Rightarrow> (None, db)
            | Some p \<Rightarrow> (Some (u, ap_id p), db\<lparr>app_passwords := map (\<lambda>q.
                if ap_id q = ap_id p \<and> stale now (ap_last_used q) then q\<lparr>ap_last_used := Some now\<rparr> else q)
                (app_passwords db)\<rparr>))"

section \<open>Credentials of a request\<close>

text \<open>What \<open>String::from_utf8\<close> accepts.\<close>

fun utf8 :: "nat list \<Rightarrow> bool" where
  "utf8 [] = True"
| "utf8 (a # bs) =
     (if a < 128 then utf8 bs
      else case bs of
          [] \<Rightarrow> False
        | b # cs \<Rightarrow>
            if 194 \<le> a \<and> a < 224 then b div 64 = 2 \<and> utf8 cs
            else if 224 \<le> a \<and> a < 240
              then (case cs of [] \<Rightarrow> False | c # ds \<Rightarrow>
                (if a = 224 then 160 \<le> b \<and> b < 192 else if a = 237 then 128 \<le> b \<and> b < 160 else b div 64 = 2)
                \<and> c div 64 = 2 \<and> utf8 ds)
            else if 240 \<le> a \<and> a < 245
              then (case cs of c # d # es \<Rightarrow>
                (if a = 240 then 144 \<le> b \<and> b < 192 else if a = 244 then 128 \<le> b \<and> b < 144 else b div 64 = 2)
                \<and> c div 64 = 2 \<and> d div 64 = 2 \<and> utf8 es
                | _ \<Rightarrow> False)
            else False)"

definition from_utf8 :: "string \<Rightarrow> string option" where
  "from_utf8 s = (if utf8 (map of_char s) then Some s else None)"

definition basic_credentials :: "crates \<Rightarrow> string option \<Rightarrow> (string \<times> string) option" where
  "basic_credentials C authorization =
     Option.bind authorization (\<lambda>header. Option.bind (strip_prefix header ''Basic '') (\<lambda>encoded.
     Option.bind (base64_decode C (trim encoded)) (\<lambda>bytes. Option.bind (from_utf8 bytes) (\<lambda>presented.
     Option.bind (split_once CHR '':'' presented) (\<lambda>(email, secret).
       case email_from_str C email of Inl _ \<Rightarrow> None | Inr e \<Rightarrow> Some (e, secret))))))"

datatype credential = Session uuid | AppPassword uuid

definition caller_of :: "crates \<Rightarrow> timestamp \<Rightarrow> string option \<Rightarrow> db \<Rightarrow> (user \<times> credential) answer" where
  "caller_of C now authorization db =
     and_then
       (case Option.bind authorization (\<lambda>v. strip_prefix v ''Bearer '') of
          Some token \<Rightarrow>
            (case jwt_decode C now (trim token) of
               None \<Rightarrow> (Inl Unauthenticated, db)
             | Some (user_id, session_id) \<Rightarrow>
                 if \<not> is_live_session now session_id user_id db then (Inl Unauthenticated, db)
                 else (case by_id user_id db of
                     None \<Rightarrow> (Inl Unauthenticated, db)
                   | Some u \<Rightarrow> (Inr (u, Session session_id), db)))
        | None \<Rightarrow>
            (case basic_credentials C authorization of
               None \<Rightarrow> (Inl Unauthenticated, db)
             | Some (email, secret) \<Rightarrow>
                 (case authenticate C now email secret db of
                    (None, db1) \<Rightarrow> (Inl Unauthenticated, db1)
                  | (Some (u, i), db1) \<Rightarrow> (Inr (u, AppPassword i), db1))))
       (\<lambda>(u, via) db1. if is_active u then (Inr (u, via), db1) else (Inl Unauthenticated, db1))"

definition writer :: "crates \<Rightarrow> timestamp \<Rightarrow> string option \<Rightarrow> db \<Rightarrow> user answer" where
  "writer C now authorization db = and_then (caller_of C now authorization db) (\<lambda>(u, via) db1.
     if may_write u then (Inr u, db1) else (Inl Forbidden, db1))"

definition session_caller :: "crates \<Rightarrow> timestamp \<Rightarrow> string option \<Rightarrow> db \<Rightarrow> (user \<times> uuid) answer" where
  "session_caller C now authorization db = and_then (caller_of C now authorization db) (\<lambda>(u, via) db1.
     case via of Session i \<Rightarrow> (Inr (u, i), db1) | AppPassword _ \<Rightarrow> (Inl SessionRequired, db1))"

definition admin :: "crates \<Rightarrow> timestamp \<Rightarrow> string option \<Rightarrow> db \<Rightarrow> user answer" where
  "admin C now authorization db = and_then (session_caller C now authorization db) (\<lambda>(u, i) db1.
     if may_administer u then (Inr u, db1) else (Inl Forbidden, db1))"

definition dav_caller :: "crates \<Rightarrow> timestamp \<Rightarrow> string option \<Rightarrow> db \<Rightarrow> user option \<times> db" where
  "dav_caller C now authorization db =
     (case basic_credentials C authorization of
        None \<Rightarrow> (None, db)
      | Some (email, secret) \<Rightarrow>
          (let (found, db1) = authenticate C now email secret db in (map_option fst found, db1)))"

section \<open>Handlers\<close>

definition PASSWORD_LOGIN :: string where "PASSWORD_LOGIN = ''password_login''"

definition password_login_allowed :: "db \<Rightarrow> bool" where
  "password_login_allowed db =
     (case map_of (settings db) PASSWORD_LOGIN of None \<Rightarrow> True | Some v \<Rightarrow> v \<noteq> ''off'')"

definition allow_password_login :: "bool \<Rightarrow> db \<Rightarrow> db" where
  "allow_password_login allowed db =
     db\<lparr>settings := AList.update PASSWORD_LOGIN (if allowed then ''on'' else ''off'') (settings db)\<rparr>"

definition login ::
    "crates \<Rightarrow> app_state \<Rightarrow> timestamp \<Rightarrow> string \<Rightarrow> string \<Rightarrow> db \<Rightarrow> (string \<times> int \<times> user) answer" where
  "login C st now text password db =
     (case email_from_str C text of
        Inl _ \<Rightarrow> (Inl InvalidCredentials, db)
      | Inr email \<Rightarrow>
          if \<not> password_login_allowed db then (Inl NotFound, db)
          else and_then (execute (spend now Login email) db) (\<lambda>_ db1.
            case by_email email db1 of
              None \<Rightarrow> (Inl InvalidCredentials, db1)
            | Some u \<Rightarrow>
                if \<not> is_active u \<or> \<not> password_verify C password (u_password_hash u)
                then (Inl InvalidCredentials, db1)
                else and_then (open_session C (session_ttl st) now (u_id u) (forget_attempts Login email db1))
                  (\<lambda>token db2. (Inr (token, session_ttl st, u), db2))))"

definition logout :: "uuid \<Rightarrow> db \<Rightarrow> unit answer" where
  "logout session_id db = (Inr (), revoke_session session_id db)"

definition update_profile :: "user \<Rightarrow> string \<Rightarrow> db \<Rightarrow> user answer" where
  "update_profile u display_name = transact (set_display_name (u_id u) display_name)"

definition me :: "user \<Rightarrow> db \<Rightarrow> user answer" where
  "me u db = (case by_id (u_id u) db of
     Some v \<Rightarrow> if is_active v then (Inr v, db) else (Inl Unauthenticated, db)
   | None \<Rightarrow> (Inl Unauthenticated, db))"

definition mint_handler :: "crates \<Rightarrow> nat list \<Rightarrow> timestamp \<Rightarrow> user \<Rightarrow> string \<Rightarrow> db \<Rightarrow> (listed_password \<times> string) answer" where
  "mint_handler C random now u name db =
     (case by_id (u_id u) db of
        None \<Rightarrow> (Inl Unauthenticated, db)
      | Some account \<Rightarrow> if is_active account then transact (mint_app_password C random now (u_id u) name) db
          else (Inl Unauthenticated, db))"

definition revoke_presented :: "timestamp \<Rightarrow> user \<Rightarrow> credential \<Rightarrow> db \<Rightarrow> unit answer" where
  "revoke_presented now u via db =
     (case via of AppPassword i \<Rightarrow> execute (revoke_app_password now (u_id u) i) db
      | Session _ \<Rightarrow> (Inl AppPasswordRequired, db))"

definition create_account ::
    "crates \<Rightarrow> timestamp \<Rightarrow> string \<Rightarrow> string \<Rightarrow> string \<Rightarrow> string \<Rightarrow> role \<Rightarrow> db \<Rightarrow> user answer" where
  "create_account C now salt email_text display_name password r db =
     (case email_from_str C email_text of
        Inl e \<Rightarrow> (Inl (InvalidEmail e), db)
      | Inr email \<Rightarrow> transact (create_user C now salt email (trim display_name) password r) db)"

definition list_accounts :: "db \<Rightarrow> (user \<times> (int \<times> int) option) list" where
  "list_accounts db = map (\<lambda>u. (u, usage (u_id u) db)) (list_users db)"

definition disable_account :: "timestamp \<Rightarrow> user \<Rightarrow> uuid \<Rightarrow> db \<Rightarrow> user answer" where
  "disable_account now adm i db =
     (if u_id adm = i then (Inl (WrongKind ''account other than your own''), db)
      else transact (\<lambda>db. rbind (set_disabled now i True db) (\<lambda>(u, db1).
        Inr (u, snd (revoke_all i None db1)))) db)"

definition enable_account :: "timestamp \<Rightarrow> uuid \<Rightarrow> db \<Rightarrow> user answer" where
  "enable_account now i = transact (set_disabled now i False)"

definition change_email :: "crates \<Rightarrow> uuid \<Rightarrow> string \<Rightarrow> db \<Rightarrow> user answer" where
  "change_email C i text db =
     (case email_from_str C text of
        Inl e \<Rightarrow> (Inl (InvalidEmail e), db)
      | Inr email \<Rightarrow> transact (set_email i email) db)"

definition sign_out_everywhere :: "uuid \<Rightarrow> db \<Rightarrow> unit answer" where
  "sign_out_everywhere i db =
     (case by_id i db of None \<Rightarrow> (Inl NotFound, db) | Some _ \<Rightarrow> (Inr (), snd (revoke_all i None db)))"

definition unlock_account :: "uuid \<Rightarrow> db \<Rightarrow> unit answer" where
  "unlock_account i db =
     (case by_id i db of None \<Rightarrow> (Inl NotFound, db) | Some u \<Rightarrow> (Inr (), forget_attempts Login (u_email u) db))"

definition change_role :: "user \<Rightarrow> uuid \<Rightarrow> role \<Rightarrow> db \<Rightarrow> user answer" where
  "change_role adm i r db =
     (if u_id adm = i \<and> \<not> may_administer_role r
      then (Inl (WrongKind ''account other than your own to demote''), db)
      else transact (set_role i r) db)"

definition change_quota :: "uuid \<Rightarrow> int \<Rightarrow> db \<Rightarrow> unit answer" where
  "change_quota i bytes_max = execute (set_quota i bytes_max)"

definition replace_password :: "crates \<Rightarrow> string \<Rightarrow> uuid \<Rightarrow> string \<Rightarrow> uuid option \<Rightarrow> db \<Rightarrow> unit answer" where
  "replace_password C salt i password keeping =
     execute (\<lambda>db. rbind (set_password C salt i password db) (\<lambda>db1. Inr (snd (revoke_all i keeping db1))))"

definition reset_password :: "crates \<Rightarrow> string \<Rightarrow> uuid \<Rightarrow> string \<Rightarrow> db \<Rightarrow> unit answer" where
  "reset_password C salt i password = replace_password C salt i password None"

definition change_password ::
    "crates \<Rightarrow> timestamp \<Rightarrow> string \<Rightarrow> user \<Rightarrow> uuid \<Rightarrow> string \<Rightarrow> string \<Rightarrow> db \<Rightarrow> unit answer" where
  "change_password C now salt u session_id current password db =
     and_then (execute (spend now Login (u_email u)) db) (\<lambda>_ db1.
       if \<not> password_verify C current (u_password_hash u) then (Inl InvalidCredentials, db1)
       else replace_password C salt (u_id u) password (Some session_id) (forget_attempts Login (u_email u) db1))"

text \<open>The recovery command an operator runs on the machine itself.\<close>

definition recover_password :: "crates \<Rightarrow> string \<Rightarrow> string \<Rightarrow> string \<Rightarrow> db \<Rightarrow> user answer" where
  "recover_password C salt email plaintext db =
     (case by_email email db of
        None \<Rightarrow> (Inl NotFound, db)
      | Some u \<Rightarrow> and_then (replace_password C salt (u_id u) plaintext None db) (\<lambda>_ db1.
          (Inr u, forget_attempts Login email db1)))"

section \<open>What a handler keeps\<close>

lemma transact_Inr: "transact f db = (Inr x, db') \<longleftrightarrow> f db = Inr (x, db')"
  by (auto simp: transact_def split: sum.splits)

lemma transact_Inl: "transact f db = (Inl e, db') \<longleftrightarrow> f db = Inl e \<and> db' = db"
  by (auto simp: transact_def split: sum.splits)

lemma execute_Inr: "execute f db = (Inr u, db') \<longleftrightarrow> f db = Inr db'"
  by (cases u) (auto simp: execute_def transact_Inr rbind_eq_Inr)

lemma execute_Inl: "execute f db = (Inl e, db') \<longleftrightarrow> f db = Inl e \<and> db' = db"
  by (auto simp: execute_def transact_Inl rbind_eq_Inl)

lemma and_then_Inr: "and_then m f = (Inr y, db') \<longleftrightarrow> (\<exists>x db1. m = (Inr x, db1) \<and> f x db1 = (Inr y, db'))"
  by (auto simp: and_then_def split: prod.splits sum.splits)

lemma transact_keeps:
  "P db \<Longrightarrow> (\<And>x db'. f db = Inr (x, db') \<Longrightarrow> P db') \<Longrightarrow> P (snd (transact f db))"
  by (cases "f db") (auto simp: transact_def)

lemma execute_keeps: "P db \<Longrightarrow> (\<And>db'. f db = Inr db' \<Longrightarrow> P db') \<Longrightarrow> P (snd (execute f db))"
  unfolding execute_def by (rule transact_keeps) (auto simp: rbind_eq_Inr)

lemma and_then_keeps:
  "P (snd m) \<Longrightarrow> (\<And>x db1. m = (Inr x, db1) \<Longrightarrow> P db1 \<Longrightarrow> P (snd (f x db1))) \<Longrightarrow> P (snd (and_then m f))"
  by (cases m; cases "fst m") (auto simp: and_then_def)

lemma spend_sound: "spend now scope subject db = Inr db' \<Longrightarrow> sound db' = sound db"
  by (auto simp: spend_def upsert_def Let_def split: if_splits)

lemma forget_sound [simp]: "sound (forget_attempts scope subject db) = sound db"
  by (simp add: forget_attempts_def)

lemma revoke_all_sound [simp]: "sound (snd (revoke_all i keeping db)) = sound db"
  by (simp add: revoke_all_def Let_def)

lemma create_session_Inr:
  assumes "create_session now user_id expires db = Inr (i, db')"
  shows "db' = (snd (now_v7 db))\<lparr>sessions := sessions db
      @ [\<lparr>x_id = i, x_user = user_id, x_created = now, x_expires = expires\<rparr>]\<rparr>"
  using assms by (auto simp: create_session_def case_prod_unfold Let_def split: if_splits)

lemma create_session_sound: "create_session now user_id expires db = Inr (i, db') \<Longrightarrow> sound db' = sound db"
  by (drule create_session_Inr) simp

lemma open_session_sound: "sound db \<Longrightarrow> sound (snd (open_session C ttl now user_id db))"
  unfolding open_session_def
  by (rule and_then_keeps) (auto intro: transact_keeps simp: create_session_sound)

lemma authenticate_frame:
  obtains ps where "snd (authenticate C now email presented db) = db\<lparr>app_passwords := ps\<rparr>"
    "map (\<lambda>p. (ap_id p, ap_user p, ap_hash p, ap_revoked p)) ps
      = map (\<lambda>p. (ap_id p, ap_user p, ap_hash p, ap_revoked p)) (app_passwords db)"
proof (cases "authenticate C now email presented db = (None, db) \<or> snd (authenticate C now email presented db) = db")
  case True
  then have "snd (authenticate C now email presented db) = db\<lparr>app_passwords := app_passwords db\<rparr>" by auto
  then show thesis using that by blast
next
  case False
  then obtain u where b: "by_email email db = Some u"
    by (cases "by_email email db") (simp_all add: authenticate_def)
  have d: "u_disabled u = None" using False b by (simp add: authenticate_def split: if_splits)
  obtain p where p: "find (\<lambda>p. ap_user p = u_id u \<and> ap_hash p = fingerprint C presented \<and> ap_revoked p = None)
      (app_passwords db) = Some p"
    using False b d by (cases "find (\<lambda>p. ap_user p = u_id u \<and> ap_hash p = fingerprint C presented \<and> ap_revoked p = None)
      (app_passwords db)") (simp_all add: authenticate_def)
  have "snd (authenticate C now email presented db) = db\<lparr>app_passwords := map (\<lambda>q.
      if ap_id q = ap_id p \<and> stale now (ap_last_used q) then q\<lparr>ap_last_used := Some now\<rparr> else q) (app_passwords db)\<rparr>"
    by (simp add: authenticate_def b d p)
  then show thesis by (rule that) simp
qed

lemma authenticate_Some:
  assumes "authenticate C now email presented db = (Some (u, i), db')"
  shows "u \<in> set (users db)" "u_email u = email" "is_active u"
    and "\<exists>p\<in>set (app_passwords db). ap_id p = i \<and> ap_user p = u_id u \<and> ap_revoked p = None
      \<and> ap_hash p = fingerprint C presented"
proof -
  from assms obtain p where b: "by_email email db = Some u" "u_disabled u = None"
    and p: "find (\<lambda>p. ap_user p = u_id u \<and> ap_hash p = fingerprint C presented \<and> ap_revoked p = None)
      (app_passwords db) = Some p" "i = ap_id p"
    by (auto simp: authenticate_def split: option.splits if_splits)
  from find_Some_set [OF b(1) [unfolded by_email_def]] b(2)
  show "u \<in> set (users db)" "u_email u = email" "is_active u" by (simp_all add: is_active_def)
  from find_Some_set [OF p(1)] p(2)
  show "\<exists>p\<in>set (app_passwords db). ap_id p = i \<and> ap_user p = u_id u \<and> ap_revoked p = None
      \<and> ap_hash p = fingerprint C presented" by blast
qed

lemma caller_frame: "\<exists>ps. snd (caller_of C now authorization db) = db\<lparr>app_passwords := ps\<rparr>"
proof -
  let ?P = "\<lambda>d. \<exists>ps. d = db\<lparr>app_passwords := ps\<rparr>"
  have same: "?P db" by (rule exI [of _ "app_passwords db"]) simp
  have e: "?P d" if "authenticate C now email presented db = (r, d)" for email presented r d
    by (rule authenticate_frame [of C now email presented db]) (use that in auto)
  show ?thesis unfolding caller_of_def
  proof (rule and_then_keeps [where P = ?P], goal_cases)
    case 1
    show ?case
    proof (cases "Option.bind authorization (\<lambda>v. strip_prefix v ''Bearer '')")
      case None
      show ?thesis
      proof (cases "basic_credentials C authorization")
        case (Some c)
        obtain r d where a: "authenticate C now (fst c) (snd c) db = (r, d)" by fastforce
        from e [OF a] a None Some show ?thesis by (cases c; cases r) auto
      qed (use None same in simp)
    qed (use same in \<open>simp split: option.split\<close>)
  next
    case (2 x db1)
    then show ?case by (cases x) simp
  qed
qed

lemma caller_sound: "sound (snd (caller_of C now authorization db)) = sound db"
  using caller_frame [of C now authorization db] by auto

lemma caller_Inr:
  assumes "caller_of C now authorization db = (Inr (u, via), db')"
  shows "u \<in> set (users db)" and "is_active u"
    and "via = Session i \<Longrightarrow> db' = db \<and> (\<exists>x\<in>set (sessions db). x_id x = i \<and> x_user x = u_id u \<and> now < x_expires x)"
    and "via = AppPassword i \<Longrightarrow> \<exists>email secret. basic_credentials C authorization = Some (email, secret)
      \<and> authenticate C now email secret db = (Some (u, i), db')"
proof -
  from assms have a: "is_active u" by (auto simp: caller_of_def and_then_Inr split: if_splits)
  then show "is_active u" .
  consider (session) user_id session_id where "is_live_session now session_id user_id db"
      "by_id user_id db = Some u" "via = Session session_id" "db' = db"
    | (basic) email secret i where "basic_credentials C authorization = Some (email, secret)"
      "authenticate C now email secret db = (Some (u, i), db')" "via = AppPassword i"
  proof (cases "Option.bind authorization (\<lambda>v. strip_prefix v ''Bearer '')")
    case None
    show thesis
    proof (cases "basic_credentials C authorization")
      case None
      with \<open>Option.bind authorization _ = None\<close> assms show thesis by (simp add: caller_of_def and_then_def)
    next
      case (Some c)
      obtain r d where a: "authenticate C now (fst c) (snd c) db = (r, d)" by fastforce
      obtain v i where "r = Some (v, i)" using None Some a assms
        by (cases c; cases r) (auto simp: caller_of_def and_then_def)
      with None Some a assms have "v = u" "d = db'" "via = AppPassword i"
        by (cases c; simp add: caller_of_def and_then_def split: if_splits)+
      with basic [of "fst c" "snd c" i] Some a \<open>r = Some (v, i)\<close> show thesis by simp
    qed
  next
    case (Some token)
    show thesis
    proof (cases "jwt_decode C now (trim token)")
      case None
      with Some assms show thesis by (simp add: caller_of_def and_then_def)
    next
      case (Some k)
      with \<open>Option.bind authorization _ = Some token\<close> assms have "is_live_session now (snd k) (fst k) db"
        "by_id (fst k) db = Some u" "via = Session (snd k)" "db' = db"
        by (cases k; simp add: caller_of_def and_then_def split: if_splits option.splits)+
      then show thesis by (rule session)
    qed
  qed
  note split = this
  show "u \<in> set (users db)"
    using split by cases (auto dest: by_id_Some authenticate_Some)
  show "db' = db \<and> (\<exists>x\<in>set (sessions db). x_id x = i \<and> x_user x = u_id u \<and> now < x_expires x)" if "via = Session i"
    using split
  proof cases
    case (session user_id session_id)
    then show ?thesis using that by_id_Some [OF session(2)] by (auto simp: is_live_session_def list_ex_iff)
  qed (use that in simp)
  show "\<exists>email secret. basic_credentials C authorization = Some (email, secret)
      \<and> authenticate C now email secret db = (Some (u, i), db')" if "via = AppPassword i"
    using split that by cases auto
qed

text \<open>The handlers keep the files sound.\<close>

lemma update_user_or_sound:
  "update_user_or i f db = Inr (u, db') \<Longrightarrow> (\<And>u. u_id (f u) = u_id u) \<Longrightarrow> sound db \<Longrightarrow> sound db'"
  by (rule update_user_or_Inr(4))

lemma set_disabled_sound: "set_disabled now i d db = Inr (u, db') \<Longrightarrow> sound db \<Longrightarrow> sound db'"
  unfolding set_disabled_def by (erule update_user_or_sound) simp_all

lemma set_role_sound: "set_role i r db = Inr (u, db') \<Longrightarrow> sound db \<Longrightarrow> sound db'"
  unfolding set_role_def by (erule update_user_or_sound) simp_all

lemma set_display_name_sound: "set_display_name i name db = Inr (u, db') \<Longrightarrow> sound db \<Longrightarrow> sound db'"
  by (auto simp: set_display_name_def Let_def split: if_splits elim: update_user_or_sound)

lemmas transact_sound = transact_keeps [where P = sound]
lemmas execute_sound = execute_keeps [where P = sound]
lemmas and_then_sound = and_then_keeps [where P = sound]

lemma login_sound:
  assumes "sound db"
  shows "sound (snd (login C st now text password db))"
proof (cases "email_from_str C text")
  case (Inr email)
  have "sound (snd (and_then (execute (spend now Login email) db) f))"
    if "\<And>db1. sound db1 \<Longrightarrow> sound (snd (f () db1))" for f :: "unit \<Rightarrow> db \<Rightarrow> (string \<times> int \<times> user) answer"
    by (intro and_then_sound execute_sound assms) (use that assms in \<open>simp_all add: spend_sound\<close>)
  moreover have "sound (snd (and_then (open_session C ttl now i d) (\<lambda>token db2. (Inr (g token), db2))))"
    if "sound d" for ttl i d and g :: "string \<Rightarrow> string \<times> int \<times> user"
    by (intro and_then_sound open_session_sound that) simp
  ultimately show ?thesis using Inr assms by (simp add: login_def split: option.split)
qed (use assms in \<open>simp add: login_def\<close>)

lemma replace_password_sound: "sound db \<Longrightarrow> sound (snd (replace_password C salt i password keeping db))"
  unfolding replace_password_def
  by (rule execute_sound) (auto simp: rbind_eq_Inr dest: set_password_Inr(5))

lemma change_password_sound:
  assumes "sound db"
  shows "sound (snd (change_password C now salt u sid current password db))"
  unfolding change_password_def
  by (intro and_then_sound execute_sound assms)
    (use assms in \<open>simp_all add: spend_sound replace_password_sound\<close>)

lemma disable_sound: "sound db \<Longrightarrow> sound (snd (disable_account now adm i db))"
  unfolding disable_account_def
  by (simp, intro impI transact_sound) (auto simp: rbind_eq_Inr dest: set_disabled_sound)

lemma create_account_sound: "sound db \<Longrightarrow> sound (snd (create_account C now salt text name password r db))"
  unfolding create_account_def
  by (cases "email_from_str C text") (simp_all, rule transact_sound, auto dest: create_user_Inr(7))

lemma change_email_sound: "sound db \<Longrightarrow> sound (snd (change_email C i text db))"
  unfolding change_email_def
  by (cases "email_from_str C text") (simp_all, rule transact_sound, auto dest: set_email_sound(1))

lemma enable_sound: "sound db \<Longrightarrow> sound (snd (enable_account now i db))"
  unfolding enable_account_def by (rule transact_sound) (auto dest: set_disabled_sound)

lemma change_role_sound: "sound db \<Longrightarrow> sound (snd (change_role adm i r db))"
  unfolding change_role_def by (simp, intro impI transact_sound) (auto dest: set_role_sound)

lemma change_quota_sound: "sound db \<Longrightarrow> sound (snd (change_quota i b db))"
  unfolding change_quota_def by (rule execute_sound) (auto dest: set_quota_sound)

lemma update_profile_sound: "sound db \<Longrightarrow> sound (snd (update_profile u name db))"
  unfolding update_profile_def by (rule transact_sound) (auto dest: set_display_name_sound)

lemma sign_out_sound: "sound db \<Longrightarrow> sound (snd (sign_out_everywhere i db))"
  by (simp add: sign_out_everywhere_def split: option.split)

lemma unlock_sound: "sound db \<Longrightarrow> sound (snd (unlock_account i db))"
  by (simp add: unlock_account_def split: option.split)

section \<open>Who is let in\<close>

lemma revoke_all_sessions:
  "x \<in> set (sessions (snd (revoke_all i keeping db))) \<Longrightarrow> x_user x = i \<Longrightarrow> keeping = Some (x_id x)"
  by (auto simp: revoke_all_def Let_def)

lemma revoke_all_frame [simp]:
  "users (snd (revoke_all i keeping db)) = users db"
  "app_passwords (snd (revoke_all i keeping db)) = app_passwords db"
  by (simp_all add: revoke_all_def Let_def)

lemma execute_unit: "execute f db = (Inr (), db') \<longleftrightarrow> f db = Inr db'"
  by (rule execute_Inr)

lemma replace_password_Inr:
  assumes "replace_password C salt i password keeping db = (Inr (), db')"
  obtains db1 where "set_password C salt i password db = Inr db1" "db' = snd (revoke_all i keeping db1)"
  using assms by (auto simp: replace_password_def execute_Inr rbind_eq_Inr)

lemma caller_user:
  assumes "caller_of C now authorization db = (Inr (u, via), db')"
  shows "u \<in> set (users db)" "is_active u"
  using caller_Inr(1,2) [OF assms] by simp_all

section \<open>Properties\<close>

text \<open>
  C30. A credential lets in only the account it belongs to, while that account is active: a session
  token only while its session is open, an app password only while it is not revoked and only for
  the account whose address came with it.
\<close>

theorem caller_is_entitled:
  assumes "caller_of C now authorization db = (Inr (u, via), db')"
  shows "u \<in> set (users db) \<and> is_active u
    \<and> (case via of
         Session i \<Rightarrow> db' = db \<and> (\<exists>x\<in>set (sessions db). x_id x = i \<and> x_user x = u_id u \<and> now < x_expires x)
       | AppPassword i \<Rightarrow> \<exists>secret. basic_credentials C authorization = Some (u_email u, secret)
           \<and> (\<exists>p\<in>set (app_passwords db). ap_id p = i \<and> ap_user p = u_id u \<and> ap_revoked p = None
                \<and> ap_hash p = fingerprint C secret))"
proof (cases via)
  case (Session i)
  with caller_user [OF assms] caller_Inr(3) [OF assms] show ?thesis by simp
next
  case (AppPassword i)
  from caller_Inr(4) [OF assms this] obtain email secret where
    b: "basic_credentials C authorization = Some (email, secret)"
    and a: "authenticate C now email secret db = (Some (u, i), db')" by blast
  with authenticate_Some [OF a] caller_user [OF assms] AppPassword show ?thesis by simp
qed

lemma answered: "\<not> isl (fst r) \<Longrightarrow> \<exists>x. r = (Inr x, snd r)"
  by (cases r; cases "fst r") auto

lemma answered_unit: "\<not> isl (fst r) \<Longrightarrow> r = (Inr (), snd r)"
  by (cases r; cases "fst r") auto

lemma answered_session:
  "(case fst c of Inr (v, Session i) \<Rightarrow> P v \<and> i = k | _ \<Rightarrow> False) \<Longrightarrow> \<exists>v. c = (Inr (v, Session k), snd c) \<and> P v"
  by (cases c; cases "fst c") (auto split: credential.splits)

definition signed_in :: db where
  "signed_in = sample\<lparr>sessions := [\<lparr>x_id = 2, x_user = 1, x_created = 0, x_expires = 100\<rparr>,
     \<lparr>x_id = 3, x_user = 1, x_created = 0, x_expires = 100\<rparr>]\<rparr>"

theorem caller_is_entitled_witness:
  "caller_of sample_crates 5 (Some ''Bearer u.ss'') signed_in = (Inr (sample_user, Session 2), signed_in)
   \<and> sample_user \<in> set (users signed_in) \<and> is_active sample_user"
proof -
  let ?c = "caller_of sample_crates 5 (Some ''Bearer u.ss'') signed_in"
  have "fst ?c = Inr (sample_user, Session 2)" by code_simp
  then have c: "?c = (Inr (sample_user, Session 2), snd ?c)" by (metis prod.collapse)
  from caller_is_entitled [OF this] have "snd ?c = signed_in" "sample_user \<in> set (users signed_in) \<and> is_active sample_user"
    by simp_all
  with c show ?thesis by metis
qed

lemma change_password_Inr:
  assumes "change_password C now salt u sid current password db = (Inr (), db')"
  obtains hash and db1 :: db where "password_verify C current (u_password_hash u)" "argon2_hash C salt password = Some hash"
    "app_passwords db' = app_passwords db"
    "users db' = map (\<lambda>w. if u_id w = u_id u then w\<lparr>u_password_hash := hash\<rparr> else w) (users db1)"
    "\<And>x. x \<in> set (sessions db') \<Longrightarrow> x_user x = u_id u \<Longrightarrow> x_id x = sid"
proof -
  from assms obtain db0 where p: "password_verify C current (u_password_hash u)"
    and sp: "spend now Login (u_email u) db = Inr db0"
    and r: "replace_password C salt (u_id u) password (Some sid) (forget_attempts Login (u_email u) db0) = (Inr (), db')"
    by (auto simp: change_password_def and_then_Inr execute_Inr split: if_splits)
  from replace_password_Inr [OF r] obtain db2 where
    s: "set_password C salt (u_id u) password (forget_attempts Login (u_email u) db0) = Inr db2"
    and db': "db' = snd (revoke_all (u_id u) (Some sid) db2)" .
  from set_password_Inr(1) [OF s] obtain hash where h: "argon2_hash C salt password = Some hash"
    and db2: "db2 = (forget_attempts Login (u_email u) db0)\<lparr>users :=
      map (\<lambda>w. if u_id w = u_id u then w\<lparr>u_password_hash := hash\<rparr> else w) (users (forget_attempts Login (u_email u) db0))\<rparr>"
    by auto
  have "app_passwords db0 = app_passwords db"
    using sp by (auto simp: spend_def upsert_def Let_def split: if_splits)
  then have "app_passwords db' = app_passwords db" by (simp add: db' db2 forget_attempts_def)
  moreover have us: "users db' = map (\<lambda>w. if u_id w = u_id u then w\<lparr>u_password_hash := hash\<rparr> else w)
      (users (forget_attempts Login (u_email u) db0))" by (simp add: db' db2)
  moreover have "x_id x = sid" if "x \<in> set (sessions db')" "x_user x = u_id u" for x
    using revoke_all_sessions [of x "u_id u" "Some sid" db2] that db' by simp
  ultimately show thesis using that [of hash "forget_attempts Login (u_email u) db0"] p h by blast
qed

text \<open>
  C31. A changed password ends every other session of the account: whoever still comes in as the account
  has the session it was changed in, or an app password that was minted before and not revoked, which a
  new password leaves in force. The current password was asked for, and the account now has the hash
  of the new one.
\<close>

theorem new_password_signs_out:
  assumes "change_password C now salt u sid current password db = (Inr (), db')"
    and "caller_of C later authorization db' = (Inr (v, via), db'')" and "u_id v = u_id u"
  shows "(case via of
        Session i \<Rightarrow> i = sid
      | AppPassword i \<Rightarrow> \<exists>p\<in>set (app_passwords db). ap_id p = i \<and> ap_user p = u_id u \<and> ap_revoked p = None)
    \<and> app_passwords db' = app_passwords db \<and> password_verify C current (u_password_hash u)
    \<and> (\<exists>hash. argon2_hash C salt password = Some hash \<and> u_password_hash v = hash)"
  using assms(1)
proof (rule change_password_Inr)
  fix hash db1
  assume p: "password_verify C current (u_password_hash u)" and h: "argon2_hash C salt password = Some hash"
    and ap: "app_passwords db' = app_passwords db"
    and us: "users db' = map (\<lambda>w. if u_id w = u_id u then w\<lparr>u_password_hash := hash\<rparr> else w) (users db1)"
    and se: "\<And>x. x \<in> set (sessions db') \<Longrightarrow> x_user x = u_id u \<Longrightarrow> x_id x = sid"
  have "v \<in> set (users db')" by (rule caller_user(1) [OF assms(2)])
  with us assms(3) have "u_password_hash v = hash" by auto
  moreover have "case via of Session i \<Rightarrow> i = sid
      | AppPassword i \<Rightarrow> \<exists>p\<in>set (app_passwords db). ap_id p = i \<and> ap_user p = u_id u \<and> ap_revoked p = None"
  proof (cases via)
    case (Session i)
    with caller_Inr(3) [OF assms(2)] se assms(3) show ?thesis by auto
  next
    case (AppPassword i)
    from caller_Inr(4) [OF assms(2) this] obtain email secret where
      "authenticate C later email secret db' = (Some (v, i), db'')" by blast
    from authenticate_Some [OF this] ap assms(3) AppPassword show ?thesis by auto
  qed
  ultimately show ?thesis using p h ap by blast
qed

theorem new_password_signs_out_witness:
  "\<exists>db' v db''. change_password sample_crates 5 [] sample_user 2 [] ''correct horse'' signed_in = (Inr (), db')
     \<and> caller_of sample_crates 6 (Some ''Bearer u.ss'') db' = (Inr (v, Session 2), db'')
     \<and> u_password_hash v = ''correct horse''"
proof -
  let ?r = "change_password sample_crates 5 [] sample_user 2 [] ''correct horse'' signed_in"
  let ?c = "caller_of sample_crates 6 (Some ''Bearer u.ss'') (snd ?r)"
  have "\<not> isl (fst ?r)" "(case fst ?c of Inr (v, Session i) \<Rightarrow> u_id v = u_id sample_user \<and> i = 2 | _ \<Rightarrow> False)"
    by code_simp+
  from answered_unit [OF this(1)] answered_session [OF this(2)] obtain v where
    *: "?r = (Inr (), snd ?r)" "?c = (Inr (v, Session 2), snd ?c)" "u_id v = u_id sample_user" by blast
  from new_password_signs_out [OF this] have "argon2_hash sample_crates [] ''correct horse'' = Some (u_password_hash v)" by auto
  then have "u_password_hash v = ''correct horse''" by (simp add: sample_crates_def)
  with * show ?thesis by blast
qed



end
