(* ===== verification/Storage.thy ===== *)
theory Storage
  imports Sample "HOL-Library.AList"
begin

text \<open>
  Where the bytes are: \<open>api/src/storage/mod.rs\<close> and \<open>local.rs\<close>. A store is its files, an association
  list from paths below its root; the requests of the operating system themselves are taken to
  succeed. The interface of a blob store is a locale, with what its users prove from it, and the
  local store is its instance.
\<close>

section \<open>Uploads\<close>

text \<open>A stream of chunks, in which an error may come instead of a chunk and ends it.\<close>

type_synonym chunks = "(storage_error + string) list"

text \<open>What a consumer that reads to the end, or to the first error, gets.\<close>

fun drain :: "chunks \<Rightarrow> storage_error + string" where
  "drain [] = Inr []"
| "drain (Inl e # cs) = Inl e"
| "drain (Inr c # cs) = (case drain cs of Inl e \<Rightarrow> Inl e | Inr rest \<Rightarrow> Inr (c @ rest))"

fun within :: "nat \<Rightarrow> nat \<Rightarrow> chunks \<Rightarrow> chunks" where
  "within limit received [] = []"
| "within limit received (Inl e # cs) = Inl e # within limit received cs"
| "within limit received (Inr c # cs) =
     (let received' = min (received + length c) (2 ^ 64 - 1) in
      (if limit < received' then Inl OverLimit else Inr c) # within limit received' cs)"

definition upload_within :: "nat \<Rightarrow> chunks \<Rightarrow> chunks" where
  "upload_within limit cs = within limit 0 cs"

definition is_recent :: "timestamp \<Rightarrow> timestamp \<Rightarrow> timestamp \<Rightarrow> bool" where
  "is_recent now at grace \<longleftrightarrow> (if at \<le> now then now - at < grace else True)"

definition shards :: "crates \<Rightarrow> blob_hash \<Rightarrow> string list" where
  "shards C h = (let hex = hex_encode C h in [take 2 hex, take 2 (drop 2 hex), hex])"

section \<open>The local store\<close>

record stored_file =
  f_bytes :: string
  f_modified :: timestamp

type_synonym files = "(string list \<times> stored_file) list"

record written =
  wr_hash :: blob_hash
  wr_size :: nat
  wr_deduplicated :: bool
  wr_staged :: "string list option"

definition rename_file :: "string list \<Rightarrow> string list \<Rightarrow> files \<Rightarrow> files" where
  "rename_file source to fs =
     (case map_of fs source of None \<Rightarrow> fs | Some f \<Rightarrow> AList.update to f (AList.delete source fs))"

definition path_for :: "crates \<Rightarrow> blob_hash \<Rightarrow> string list" where
  "path_for C h = shards C h"

definition tmp :: "string \<Rightarrow> string list" where "tmp name = [''tmp'', name]"

text \<open>\<open>name\<close> is the fresh \<open>Uuid\<close> of the temp file.\<close>

definition local_write ::
    "crates \<Rightarrow> timestamp \<Rightarrow> string \<Rightarrow> chunks \<Rightarrow> files \<Rightarrow> (storage_error + written) \<times> files" where
  "local_write C now name cs fs =
     (let staged = tmp name in
      case drain cs of
        Inl e \<Rightarrow> (Inl e, AList.delete staged fs)
      | Inr bytes \<Rightarrow>
          (let fs1 = AList.update staged \<lparr>f_bytes = bytes, f_modified = now\<rparr> fs;
               h = blake3 C bytes; to = path_for C h
           in if map_of fs1 to \<noteq> None
              then (Inr \<lparr>wr_hash = h, wr_size = length bytes, wr_deduplicated = True, wr_staged = Some staged\<rparr>, fs1)
              else (Inr \<lparr>wr_hash = h, wr_size = length bytes, wr_deduplicated = False, wr_staged = None\<rparr>,
                    rename_file staged to fs1)))"

definition local_settle :: "crates \<Rightarrow> written \<Rightarrow> files \<Rightarrow> files" where
  "local_settle C w fs =
     (case wr_staged w of
        None \<Rightarrow> fs
      | Some staged \<Rightarrow>
          if map_of fs (path_for C (wr_hash w)) \<noteq> None then AList.delete staged fs
          else rename_file staged (path_for C (wr_hash w)) fs)"

definition local_read :: "crates \<Rightarrow> blob_hash \<Rightarrow> files \<Rightarrow> storage_error + string" where
  "local_read C h fs = (case map_of fs (path_for C h) of Some f \<Rightarrow> Inr (f_bytes f) | None \<Rightarrow> Inl (BlobNotFound h))"

definition local_remove :: "crates \<Rightarrow> blob_hash \<Rightarrow> files \<Rightarrow> files" where
  "local_remove C h fs = AList.delete (path_for C h) fs"

definition local_written_within :: "crates \<Rightarrow> timestamp \<Rightarrow> blob_hash \<Rightarrow> timestamp \<Rightarrow> files \<Rightarrow> bool" where
  "local_written_within C now h grace fs =
     (case map_of fs (path_for C h) of Some f \<Rightarrow> is_recent now (f_modified f) grace | None \<Rightarrow> False)"

definition local_sweep_staged :: "timestamp \<Rightarrow> timestamp \<Rightarrow> files \<Rightarrow> nat \<times> files" where
  "local_sweep_staged now grace fs =
     (let old = (\<lambda>(p, f). length p = 2 \<and> hd p = ''tmp'' \<and> \<not> is_recent now (f_modified f) grace) in
      (length (filter old fs), filter (\<lambda>x. \<not> old x) fs))"

section \<open>The interface\<close>

text \<open>
  What the rest of the server relies on: bytes are found under the digest a write answers, until
  they are removed; nothing else disturbs them; and settling a write puts its bytes in place even
  when a collector removed them since. The laws hold for a digest and a hexadecimal form that
  never give two contents one name (\<open>ideal\<close>).
\<close>

locale blob_store =
  fixes ideal :: bool
    and inv :: "'s \<Rightarrow> bool"
    and put :: "timestamp \<Rightarrow> string \<Rightarrow> chunks \<Rightarrow> 's \<Rightarrow> (storage_error + written) \<times> 's"
    and settle :: "written \<Rightarrow> 's \<Rightarrow> 's"
    and get :: "blob_hash \<Rightarrow> 's \<Rightarrow> storage_error + string"
    and drop_blob :: "blob_hash \<Rightarrow> 's \<Rightarrow> 's"
    and kept :: "written \<Rightarrow> string \<Rightarrow> 's \<Rightarrow> bool"
  assumes write_inv: "ideal \<Longrightarrow> inv s \<Longrightarrow> inv (snd (put now name cs s))"
    and write_keeps: "ideal \<Longrightarrow> inv s \<Longrightarrow> get h s = Inr b \<Longrightarrow> get h (snd (put now name cs s)) = Inr b"
    and write_answers: "ideal \<Longrightarrow> inv s \<Longrightarrow> put now name cs s = (Inr w, s1) \<Longrightarrow>
      \<exists>b. drain cs = Inr b \<and> wr_size w = length b \<and> kept w b s1 \<and> get (wr_hash w) s1 = Inr b"
    and write_fails: "put now name cs s = (Inl e, s1) \<Longrightarrow> drain cs = Inl e \<and> (\<forall>h. get h s1 = get h s)"
    and settle_inv: "ideal \<Longrightarrow> inv s \<Longrightarrow> kept w b s \<Longrightarrow> inv (settle w s)"
    and settle_places: "ideal \<Longrightarrow> inv s \<Longrightarrow> kept w b s \<Longrightarrow> get (wr_hash w) (settle w s) = Inr b"
    and settle_keeps: "ideal \<Longrightarrow> inv s \<Longrightarrow> kept w b s \<Longrightarrow> get h s = Inr b' \<Longrightarrow> get h (settle w s) = Inr b'"
    and remove_inv: "ideal \<Longrightarrow> inv s \<Longrightarrow> inv (drop_blob h s)"
    and remove_one: "ideal \<Longrightarrow> inv s \<Longrightarrow> get h (drop_blob h' s) = (if h = h' then Inl (BlobNotFound h) else get h s)"
    and remove_kept: "ideal \<Longrightarrow> inv s \<Longrightarrow> kept w b s \<Longrightarrow> wr_deduplicated w \<or> h \<noteq> wr_hash w \<Longrightarrow> kept w b (drop_blob h s)"
begin

text \<open>
  A write that found its bytes in place survives a collector that removes them before the write is
  settled.
\<close>

lemma survives_collection:
  assumes "ideal" "inv s" and w: "put now name cs s = (Inr w, s1)" "wr_deduplicated w"
  shows "\<exists>b. drain cs = Inr b \<and> get (wr_hash w) (settle w (drop_blob (wr_hash w) s1)) = Inr b"
proof -
  from write_answers [OF assms(1,2) w(1)] obtain b where b: "drain cs = Inr b" "kept w b s1" by blast
  have i: "inv s1" using write_inv [OF assms(1,2), of now name cs] w(1) by simp
  have "kept w b (drop_blob (wr_hash w) s1)" using remove_kept [OF assms(1) i b(2)] w(2) by blast
  from settle_places [OF assms(1) remove_inv [OF assms(1) i] this] b(1) show ?thesis by blast
qed

lemma written_reads:
  assumes "ideal" "inv s" and w: "put now name cs s = (Inr w, s1)"
  shows "\<exists>b. drain cs = Inr b \<and> wr_size w = length b \<and> inv (settle w s1) \<and> get (wr_hash w) (settle w s1) = Inr b
    \<and> (\<forall>h b'. get h s = Inr b' \<longrightarrow> get h (settle w s1) = Inr b')"
proof -
  from write_answers [OF assms] obtain b where b: "drain cs = Inr b" "wr_size w = length b" "kept w b s1" by blast
  have i: "inv s1" using write_inv [OF assms(1,2), of now name cs] w by simp
  have k: "get h s1 = Inr b'" if "get h s = Inr b'" for h b'
    using write_keeps [OF assms(1,2) that, of now name cs] w by simp
  from settle_places [OF assms(1) i b(3)] settle_inv [OF assms(1) i b(3)] settle_keeps [OF assms(1) i b(3) k] b
  show ?thesis by blast
qed

end

section \<open>The local store implements it\<close>

text \<open>Every file below a shard is named after what it holds.\<close>

definition content_addressed :: "crates \<Rightarrow> files \<Rightarrow> bool" where
  "content_addressed C fs \<longleftrightarrow> list_all (\<lambda>p. length p = 2
     \<or> (case map_of fs p of None \<Rightarrow> True | Some f \<Rightarrow> p = path_for C (blake3 C (f_bytes f)))) (map fst fs)"

definition collision_free :: "crates \<Rightarrow> bool" where
  "collision_free C \<longleftrightarrow> inj (hex_encode C) \<and> inj (blake3 C)"

definition kept_bytes :: "crates \<Rightarrow> written \<Rightarrow> string \<Rightarrow> files \<Rightarrow> bool" where
  "kept_bytes C w b fs \<longleftrightarrow> wr_hash w = blake3 C b \<and> (wr_deduplicated w \<longrightarrow> wr_staged w \<noteq> None) \<and>
     (case wr_staged w of
        None \<Rightarrow> local_read C (wr_hash w) fs = Inr b
      | Some p \<Rightarrow> length p = 2 \<and> (case map_of fs p of Some f \<Rightarrow> f_bytes f = b | None \<Rightarrow> False))"

lemma path_for_length: "length (path_for C h) = 3" by (simp add: path_for_def shards_def Let_def)

lemma tmp_length: "length (tmp name) = 2" by (simp add: tmp_def)

lemma path_for_tmp [simp]: "length p = 2 \<Longrightarrow> path_for C h \<noteq> p" "length p = 2 \<Longrightarrow> p \<noteq> path_for C h"
  using path_for_length [of C h] by auto

lemma path_for_inj: "inj (hex_encode C) \<Longrightarrow> path_for C h = path_for C h' \<longleftrightarrow> h = h'"
  by (auto simp: path_for_def shards_def Let_def dest: injD)

lemma content_addressed_iff:
  "content_addressed C fs \<longleftrightarrow>
     (\<forall>p f. map_of fs p = Some f \<longrightarrow> length p = 2 \<or> p = path_for C (blake3 C (f_bytes f)))"
proof -
  have "p \<in> fst ` set fs" if "map_of fs p = Some f" for p f
    using map_of_SomeD [OF that] by force
  then show ?thesis by (fastforce simp: content_addressed_def list_all_iff split: option.splits)
qed

lemma map_of_rename:
  "map_of fs p = Some f \<Longrightarrow> map_of (rename_file p q fs) = (map_of fs)(p := None, q := Some f)"
  by (simp add: rename_file_def AList.update_conv' AList.delete_conv')

lemma drain_Inr_fold: "drain cs = Inr b \<Longrightarrow> \<exists>parts. cs = map Inr parts \<and> b = concat parts"
proof (induction cs arbitrary: b)
  case (Cons c cs)
  then show ?case
    by (cases c) (auto split: sum.splits intro: exI [of _ "_ # _"])
qed simp

lemma local_write_Inr:
  assumes "local_write C now name cs fs = (Inr w, fs')"
  obtains b where "drain cs = Inr b" "wr_hash w = blake3 C b" "wr_size w = length b"
    "if wr_deduplicated w
     then wr_staged w = Some (tmp name) \<and> map_of fs (path_for C (wr_hash w)) \<noteq> None
       \<and> map_of fs' = (map_of fs)(tmp name \<mapsto> \<lparr>f_bytes = b, f_modified = now\<rparr>)
     else wr_staged w = None \<and> map_of fs' = (map_of fs)(tmp name := None,
       path_for C (wr_hash w) \<mapsto> \<lparr>f_bytes = b, f_modified = now\<rparr>)"
proof -
  from assms obtain b where b: "drain cs = Inr b"
    by (auto simp: local_write_def Let_def split: sum.splits)
  let ?f = "\<lparr>f_bytes = b, f_modified = now\<rparr>"
  let ?fs1 = "AList.update (tmp name) ?f fs"
  have m: "map_of ?fs1 = (map_of fs)(tmp name \<mapsto> ?f)" by (rule AList.update_conv')
  have t: "map_of ?fs1 (tmp name) = Some ?f" by (simp add: m)
  show thesis
  proof (cases "map_of ?fs1 (path_for C (blake3 C b)) = None")
    case True
    with assms b have w: "w = \<lparr>wr_hash = blake3 C b, wr_size = length b, wr_deduplicated = False, wr_staged = None\<rparr>"
      "fs' = rename_file (tmp name) (path_for C (blake3 C b)) ?fs1"
      by (simp_all add: local_write_def Let_def)
    show thesis using map_of_rename [OF t] by (intro that [OF b]) (simp_all add: w m)
  next
    case False
    with assms b have w: "w = \<lparr>wr_hash = blake3 C b, wr_size = length b, wr_deduplicated = True, wr_staged = Some (tmp name)\<rparr>"
      "fs' = ?fs1"
      by (simp_all add: local_write_def Let_def)
    show thesis using False by (intro that [OF b]) (simp_all add: w m tmp_length)
  qed
qed

lemma content_addressed_read:
  assumes "collision_free C" "content_addressed C fs" and "map_of fs (path_for C (blake3 C b)) = Some f"
  shows "f_bytes f = b"
proof -
  have "path_for C (blake3 C b) = path_for C (blake3 C (f_bytes f))"
    using assms(2,3) path_for_length [of C "blake3 C b"] unfolding content_addressed_iff by fastforce
  then have "blake3 C b = blake3 C (f_bytes f)"
    using assms(1) by (simp add: path_for_inj collision_free_def)
  with assms(1) show ?thesis by (auto simp: collision_free_def dest: injD)
qed

lemma local_write_fails: "local_write C now name cs fs = (Inl e, fs') \<Longrightarrow>
    drain cs = Inl e \<and> map_of fs' = (map_of fs)(tmp name := None)"
  by (auto simp: local_write_def Let_def AList.delete_conv' split: sum.splits if_splits)

interpretation local_store: blob_store "collision_free C" "content_addressed C" "local_write C"
  "local_settle C" "local_read C" "local_remove C" "kept_bytes C" for C
proof
  fix s s1 :: files and now name cs w e h h' b b'
  show "content_addressed C (snd (local_write C now name cs s))" if i: "content_addressed C s"
  proof (cases "local_write C now name cs s")
    case (Pair r s1)
    show ?thesis
    proof (cases r)
      case (Inl e)
      with local_write_fails [of C now name cs s e s1] Pair i show ?thesis
        by (auto simp: content_addressed_iff split: if_splits)
    next
      case (Inr w)
      show ?thesis
        by (rule local_write_Inr [OF Pair [unfolded Inr]])
          (use Pair i tmp_length [of name] in \<open>auto simp: content_addressed_iff split: if_splits\<close>)
    qed
  qed
  show "local_read C h (snd (local_write C now name cs s)) = Inr b"
    if "collision_free C" "content_addressed C s" "local_read C h s = Inr b"
  proof (cases "local_write C now name cs s")
    case (Pair r s1)
    from that(3) obtain f where f: "map_of s (path_for C h) = Some f" "f_bytes f = b"
      by (auto simp: local_read_def split: option.splits)
    show ?thesis
    proof (cases r)
      case (Inl e)
      with local_write_fails [of C now name cs s e s1] Pair f show ?thesis
        by (simp add: local_read_def tmp_length)
    next
      case (Inr w)
      show ?thesis
      proof (rule local_write_Inr [OF Pair [unfolded Inr]], goal_cases)
        case (1 c)
        have "path_for C (wr_hash w) = path_for C h \<Longrightarrow> c = b"
          using content_addressed_read [OF that(1,2), of c f] f 1(2) by simp
        with 1(4) f Pair show ?case by (auto simp: local_read_def tmp_length split: if_splits)
      qed
    qed
  qed
  show "\<exists>b. drain cs = Inr b \<and> wr_size w = length b \<and> kept_bytes C w b s1 \<and> local_read C (wr_hash w) s1 = Inr b"
    if "collision_free C" "content_addressed C s" "local_write C now name cs s = (Inr w, s1)"
  proof (rule local_write_Inr [OF that(3)], goal_cases)
    case (1 c)
    have "f_bytes f = c" if "map_of s (path_for C (wr_hash w)) = Some f" for f
      using content_addressed_read [OF \<open>collision_free C\<close> \<open>content_addressed C s\<close>, of c f] that 1(2) by simp
    with 1 show ?case by (auto simp: local_read_def kept_bytes_def tmp_length split: if_splits)
  qed
  show "drain cs = Inl e \<and> (\<forall>h. local_read C h s1 = local_read C h s)" if "local_write C now name cs s = (Inl e, s1)"
    using local_write_fails [OF that] by (simp add: local_read_def tmp_length)
  show settled: "content_addressed C (local_settle C w s)"
    if a: "collision_free C" "content_addressed C s" "kept_bytes C w b s"
  proof (cases "wr_staged w")
    case None
    with a show ?thesis by (simp add: local_settle_def)
  next
    case (Some p)
    then obtain f where f: "length p = 2" "map_of s p = Some f" "f_bytes f = b" "wr_hash w = blake3 C b"
      using a(3) by (auto simp: kept_bytes_def split: option.splits)
    show ?thesis
    proof (cases "map_of s (path_for C (wr_hash w)) = None")
      case True
      with Some f a(2) show ?thesis
        by (auto simp: local_settle_def content_addressed_iff map_of_rename split: if_splits)
    next
      case False
      with Some a(2) show ?thesis
        by (auto simp: local_settle_def content_addressed_iff AList.delete_conv' split: if_splits)
    qed
  qed
  show "local_read C (wr_hash w) (local_settle C w s) = Inr b"
    if a: "collision_free C" "content_addressed C s" "kept_bytes C w b s"
  proof (cases "wr_staged w")
    case None
    with a(3) show ?thesis by (auto simp: local_settle_def kept_bytes_def)
  next
    case (Some p)
    then obtain f where f: "length p = 2" "map_of s p = Some f" "f_bytes f = b" "wr_hash w = blake3 C b"
      using a(3) by (auto simp: kept_bytes_def split: option.splits)
    show ?thesis
    proof (cases "map_of s (path_for C (wr_hash w))")
      case None
      with Some f show ?thesis by (simp add: local_settle_def local_read_def map_of_rename)
    next
      case (Some g)
      have "f_bytes g = b" using content_addressed_read [OF a(1,2), of b g] Some f(4) by simp
      with Some f \<open>wr_staged w = Some p\<close> show ?thesis
        by (simp add: local_settle_def local_read_def AList.delete_conv')
    qed
  qed
  show "local_read C h (local_settle C w s) = Inr b'"
    if a: "collision_free C" "content_addressed C s" "kept_bytes C w b s" "local_read C h s = Inr b'"
  proof (cases "wr_staged w")
    case None
    with a show ?thesis by (simp add: local_settle_def)
  next
    case (Some p)
    then obtain f where f: "length p = 2" "map_of s p = Some f" "f_bytes f = b" "wr_hash w = blake3 C b"
      using a(3) by (auto simp: kept_bytes_def split: option.splits)
    from a(4) obtain g where g: "map_of s (path_for C h) = Some g" "f_bytes g = b'"
      by (auto simp: local_read_def split: option.splits)
    show ?thesis
    proof (cases "map_of s (path_for C (wr_hash w)) = None")
      case True
      with Some f g show ?thesis by (auto simp: local_settle_def local_read_def map_of_rename)
    next
      case False
      with Some f g show ?thesis by (auto simp: local_settle_def local_read_def AList.delete_conv')
    qed
  qed
  show "content_addressed C (local_remove C h s)" if "content_addressed C s"
    using that by (auto simp: content_addressed_iff local_remove_def AList.delete_conv' split: if_splits)
  show "local_read C h (local_remove C h' s) = (if h = h' then Inl (BlobNotFound h) else local_read C h s)"
    if "collision_free C"
    using that by (simp add: local_read_def local_remove_def AList.delete_conv' path_for_inj collision_free_def)
  show "kept_bytes C w b (local_remove C h s)"
    if "collision_free C" "kept_bytes C w b s" "wr_deduplicated w \<or> h \<noteq> wr_hash w"
    using that by (auto simp: kept_bytes_def local_read_def local_remove_def AList.delete_conv' path_for_inj
        collision_free_def split: option.splits)
qed

section \<open>Limits\<close>

lemma drain_within:
  assumes "limit < 2 ^ 64 - 1"
  shows "r \<le> limit \<Longrightarrow> drain cs = Inr b \<Longrightarrow>
      drain (within limit r cs) = (if r + length b \<le> limit then Inr b else Inl OverLimit)"
proof (induction cs arbitrary: r b)
  case (Cons c cs)
  then obtain x rest where c: "c = Inr x" "drain cs = Inr rest" "b = x @ rest"
    by (cases c) (auto split: sum.splits)
  show ?case
  proof (cases "r + length x \<le> limit")
    case True
    then have m: "min (r + length x) 18446744073709551615 = r + length x" using assms by simp
    from Cons.IH [OF True c(2)] True show ?thesis by (simp add: c m Let_def add.assoc)
  next
    case False
    then have "limit < min (r + length x) (2 ^ 64 - 1)" using assms by simp
    with False c show ?thesis by (simp add: Let_def)
  qed
qed simp

lemma drain_within_Inr:
  "drain (within limit r cs) = Inr b \<Longrightarrow> drain cs = Inr b"
proof (induction cs arbitrary: r b)
  case (Cons c cs)
  then show ?case by (cases c) (auto simp: Let_def split: sum.splits if_splits)
qed simp

lemma sample_collision_free: "collision_free sample_crates"
proof -
  have "inj (\<lambda>s :: string. map (\<lambda>c. of_nat (of_char c) :: 8 word) s)"
  proof (rule inj_mapI, rule injI)
    fix c d :: char assume "(of_nat (of_char c) :: 8 word) = of_nat (of_char d)"
    then have "unat (of_nat (of_char c) :: 8 word) = unat (of_nat (of_char d) :: 8 word)" by simp
    then show "c = d" by (simp add: unat_of_nat of_char_mod_256)
  qed
  moreover have "inj (map (\<lambda>w :: 8 word. char_of (unat w) :: char))"
  proof (rule inj_mapI, rule injI)
    fix v w :: "8 word" assume "(char_of (unat v) :: char) = char_of (unat w)"
    then have "unat v mod 256 = unat w mod 256" by (metis of_char_of)
    moreover have "unat x < 256" for x :: "8 word"
    proof -
      have "unat x < 2 ^ LENGTH(8)" by (rule unsigned_less)
      then show ?thesis by simp
    qed
    ultimately have "unat v = unat w" by simp
    then show "v = w" by (rule word_unat_eq_iff [THEN iffD2])
  qed
  ultimately show ?thesis by (simp add: collision_free_def sample_crates_def)
qed

section \<open>Properties\<close>

text \<open>New bytes are dated by their write, and the collector leaves what is recent alone.\<close>

lemma new_bytes_recent:
  assumes "local_write C now name cs fs = (Inr w, fs1)" and "\<not> wr_deduplicated w" and "later - now < grace"
  shows "local_written_within C later (wr_hash w) grace fs1"
  by (rule local_write_Inr [OF assms(1)]) (use assms(2,3) in \<open>simp add: local_written_within_def is_recent_def\<close>)

text \<open>
  C34. What is written is what is read: under the digest a write answers, once it is settled, the
  store has exactly the bytes that came in, no more of them than the limit, and whatever it had
  before is still there. The collector does not take them before that: bytes that were in place already
  are put back by settling, even if they were removed in between, and bytes that are new count as
  recently written, which the collector leaves alone, for all of the grace period.
\<close>

theorem written_is_read:
  assumes "collision_free C" and "content_addressed C fs" and "limit < 2 ^ 64 - 1"
    and "local_write C now name (upload_within limit cs) fs = (Inr w, fs1)"
  shows "\<exists>b. drain cs = Inr b \<and> length b \<le> limit \<and> wr_size w = length b
    \<and> local_read C (wr_hash w) (local_settle C w fs1) = Inr b
    \<and> (\<forall>h b'. local_read C h fs = Inr b' \<longrightarrow> local_read C h (local_settle C w fs1) = Inr b')
    \<and> (if wr_deduplicated w
       then local_read C (wr_hash w) (local_settle C w (local_remove C (wr_hash w) fs1)) = Inr b
       else \<forall>later grace. later - now < grace \<longrightarrow> local_written_within C later (wr_hash w) grace fs1)"
proof -
  from local_store.written_reads [OF assms(1,2,4)] obtain b where
    b: "drain (upload_within limit cs) = Inr b" "wr_size w = length b"
      "local_read C (wr_hash w) (local_settle C w fs1) = Inr b"
      "\<forall>h b'. local_read C h fs = Inr b' \<longrightarrow> local_read C h (local_settle C w fs1) = Inr b'" by blast
  have d: "drain cs = Inr b" by (rule drain_within_Inr [OF b(1) [unfolded upload_within_def]])
  from drain_within [OF assms(3) _ this, of 0] b(1) have "length b \<le> limit"
    by (simp add: upload_within_def split: if_splits)
  moreover have "local_read C (wr_hash w) (local_settle C w (local_remove C (wr_hash w) fs1)) = Inr b"
    if "wr_deduplicated w"
    using local_store.survives_collection [OF assms(1,2,4) that] b(1) by simp
  moreover have "local_written_within C later (wr_hash w) grace fs1" if "\<not> wr_deduplicated w" "later - now < grace" for later grace
    by (rule new_bytes_recent [OF assms(4) that])
  ultimately show ?thesis using b d by simp
qed

theorem written_is_read_witness:
  "\<exists>w fs1. local_write sample_crates 5 ''t'' (upload_within 9 [Inr ''ab'', Inr ''c'']) [] = (Inr w, fs1)
     \<and> local_read sample_crates (wr_hash w) (local_settle sample_crates w fs1) = Inr ''abc''"
proof -
  let ?r = "local_write sample_crates 5 ''t'' (upload_within 9 [Inr ''ab'', Inr ''c'']) []"
  have u: "upload_within 9 [Inr ''ab'', Inr ''c''] = [Inr ''ab'', Inr ''c'']"
    by (simp add: upload_within_def Let_def)
  have "\<not> isl (fst (local_write sample_crates 5 ''t'' [Inr ''ab'', Inr ''c''] []))" by code_simp
  then obtain w fs1 where r: "?r = (Inr w, fs1)" unfolding u by (metis isl_def old.sum.exhaust prod.collapse)
  have "content_addressed sample_crates []" by (simp add: content_addressed_def)
  moreover have "9 < (2 :: nat) ^ 64 - 1" by simp
  ultimately obtain b where "drain [Inr ''ab'', Inr ''c''] = Inr b"
      "local_read sample_crates (wr_hash w) (local_settle sample_crates w fs1) = Inr b"
    using written_is_read [OF sample_collision_free _ _ r] by blast
  moreover have "drain [Inr ''ab'', Inr ''c''] = Inr ''abc''" by simp
  ultimately have "local_read sample_crates (wr_hash w) (local_settle sample_crates w fs1) = Inr ''abc''" by metis
  with r show ?thesis by blast
qed

end
