(* ===== verification/Bodies.thy ===== *)
theory Bodies
  imports Access Signin Storage
begin

text \<open>
  Bytes that come in and go out with a request: \<open>api/src/incoming.rs\<close>, \<open>precondition.rs\<close> and the part
  of \<open>routes/files.rs\<close> that answers bytes. A request's headers are a function from a name to its
  text, \<open>None\<close> where there is none or \<open>to_str\<close> refuses it; its body is a stream of chunks.
\<close>

section \<open>The server\<close>

text \<open>What the handlers that carry bytes change: the database and the blob store.\<close>

record world =
  w_db :: db
  w_files :: files

type_synonym 'a reply = "(api_error + 'a) \<times> world"

type_synonym headers = "string \<Rightarrow> string option"

definition with_db :: "(db \<Rightarrow> 'a answer) \<Rightarrow> world \<Rightarrow> 'a reply" where
  "with_db f w = (case f (w_db w) of (r, db) \<Rightarrow> (r, w\<lparr>w_db := db\<rparr>))"

definition path_segments :: "string \<Rightarrow> api_error + node_name list" where
  "path_segments path = map_err InvalidPath (parse_path path)"

section \<open>Preconditions\<close>

datatype precondition = Unconditional | Exists | Absent | Matches "string list"

definition precondition_of :: "headers \<Rightarrow> precondition" where
  "precondition_of headers =
     (case map_option trim (headers ''if-match'') of
        Some tags \<Rightarrow>
          if tags = ''*'' then Exists
          else Matches (filter (\<lambda>tag. tag \<noteq> []) (map trim (split_on CHR '','' tags)))
      | None \<Rightarrow> if map_option trim (headers ''if-none-match'') = Some ''*'' then Absent else Unconditional)"

definition check_precondition :: "precondition \<Rightarrow> node option \<Rightarrow> api_error + unit" where
  "check_precondition pre existing =
     (let holds = (case pre of
          Unconditional \<Rightarrow> True
        | Exists \<Rightarrow> existing \<noteq> None
        | Absent \<Rightarrow> existing = None
        | Matches tags \<Rightarrow> (case existing of Some n \<Rightarrow> n_etag n \<in> set tags | None \<Rightarrow> False))
      in if holds then Inr () else Inl PreconditionFailed)"

section \<open>Receiving a body\<close>

definition room :: "app_state \<Rightarrow> node \<Rightarrow> node_name \<Rightarrow> db \<Rightarrow> nat" where
  "room st dir name db =
     (let left = (case room_left (n_owner dir) db of Some r \<Rightarrow> r | None \<Rightarrow> default_quota_bytes st);
          replaced = (case child (n_id dir) name db of
             Some existing \<Rightarrow> n_size existing + held_by (n_id existing) db | None \<Rightarrow> 0)
      in nat (saturate 64 (left + replaced)))"

text \<open>\<open>parse::<u64>()\<close>: an optional plus sign and digits, within 64 bits.\<close>

definition parse_u64 :: "string \<Rightarrow> nat option" where
  "parse_u64 s =
     (let digits = (case s of c # cs \<Rightarrow> if c = CHR ''+'' then cs else s | [] \<Rightarrow> s)
      in Option.bind (parse_digits digits) (\<lambda>n. if n < 2 ^ 64 then Some n else None))"

definition declared_length :: "headers \<Rightarrow> nat option" where
  "declared_length headers = Option.bind (headers ''content-length'') parse_u64"

definition receive ::
    "crates \<Rightarrow> timestamp \<Rightarrow> string \<Rightarrow> headers \<Rightarrow> chunks \<Rightarrow> nat \<Rightarrow> world \<Rightarrow> (written \<times> int) reply" where
  "receive C now name headers body limit w =
     (if (case declared_length headers of Some declared \<Rightarrow> limit < declared | None \<Rightarrow> False)
      then (Inl QuotaExceeded, w)
      else case local_write C now name (upload_within limit body) (w_files w) of
          (Inl e, fs) \<Rightarrow> (Inl (if e = OverLimit then QuotaExceeded else Storage e), w\<lparr>w_files := fs\<rparr>)
        | (Inr wr, fs) \<Rightarrow>
            if 2 ^ 63 \<le> wr_size wr then (Inl QuotaExceeded, w\<lparr>w_files := fs\<rparr>)
            else (case register_blob now (wr_hash wr) (int (wr_size wr)) (w_db w) of
                Inl e \<Rightarrow> (Inl e, w\<lparr>w_files := fs\<rparr>)
              | Inr db \<Rightarrow> (Inr (wr, int (wr_size wr)), \<lparr>w_db = db, w_files = fs\<rparr>)))"

section \<open>Answering bytes\<close>

definition etag_header :: "crates \<Rightarrow> node \<Rightarrow> api_error + string" where
  "etag_header C n = ok_or (WrongKind ''printable etag'') (header_value C (n_etag n))"

text \<open>The headers that keep uploaded bytes from being rendered as a page.\<close>

definition never_rendered :: "(string \<times> string) list" where
  "never_rendered = [(''content-type'', ''application/octet-stream''), (''content-disposition'', ''attachment''),
     (''x-content-type-options'', ''nosniff'')]"

record contents =
  c_headers :: "(string \<times> string) list"
  c_body :: string

definition blob_bytes :: "crates \<Rightarrow> blob_hash \<Rightarrow> int \<Rightarrow> string \<Rightarrow> files \<Rightarrow> api_error + contents" where
  "blob_bytes C h bytes etag fs =
     rbind (map_err Storage (local_read C h fs)) (\<lambda>body.
       Inr \<lparr>c_headers = [(''etag'', etag),
              (''content-length'', decimal (if 0 \<le> bytes \<and> bytes < 2 ^ 64 then nat bytes else 0))] @ never_rendered,
            c_body = body\<rparr>)"

definition bytes_of :: "crates \<Rightarrow> node \<Rightarrow> files \<Rightarrow> api_error + contents" where
  "bytes_of C n fs =
     (case (n_kind n, n_blob n) of
        (File, Some h) \<Rightarrow> rbind (etag_header C n) (\<lambda>etag. blob_bytes C h (n_size n) etag fs)
      | _ \<Rightarrow> Inl (WrongKind ''file''))"

section \<open>What they keep\<close>

lemma path_segments_Inr: "path_segments path = Inr ns \<longleftrightarrow> parse_path path = Inr ns"
  by (simp add: path_segments_def)

lemma check_precondition_Inr:
  "check_precondition pre existing = Inr u \<longleftrightarrow> (case pre of
      Unconditional \<Rightarrow> True | Exists \<Rightarrow> existing \<noteq> None | Absent \<Rightarrow> existing = None
    | Matches tags \<Rightarrow> \<exists>n. existing = Some n \<and> n_etag n \<in> set tags)"
  by (auto simp: check_precondition_def split: precondition.splits option.splits if_splits)

lemma with_db_keeps: "P (w_db w) \<Longrightarrow> P (snd (f (w_db w))) \<Longrightarrow> P (w_db (snd (with_db f w)))"
  by (simp add: with_db_def case_prod_unfold)

lemma receive_Inr:
  assumes "receive C now name headers body limit w = (Inr (wr, bytes), w')"
  obtains fs where "local_write C now name (upload_within limit body) (w_files w) = (Inr wr, w_files w')"
    "register_blob now (wr_hash wr) bytes (w_db w) = Inr (w_db w')" "bytes = int (wr_size wr)" "wr_size wr < 2 ^ 63"
  using assms unfolding receive_def
  by (auto split: option.splits if_splits prod.splits sum.splits)

lemma register_blob_sound: "sound db \<Longrightarrow> register_blob now h bytes db = Inr db' \<Longrightarrow> sound db' \<and> nodes db' = nodes db"
  unfolding register_blob_def using insert_blob_sound(1,3) [of db] by simp

end
