(* ===== verification/Frames.thy ===== *)
theory Frames
  imports Copy Trash Access
begin

text \<open>
  What the operations on the tree leave alone: the accounts, and the tables of the features around
  the tree. Each lemma is named after its operation.
\<close>

definition apart :: "db \<Rightarrow> db \<Rightarrow> bool" where
  "apart db db' \<longleftrightarrow> users db' = users db \<and> thumbnails db' = thumbnails db \<and> grants db' = grants db
     \<and> locks db' = locks db \<and> shares db' = shares db \<and> sessions db' = sessions db
     \<and> app_passwords db' = app_passwords db \<and> attempts db' = attempts db \<and> uploads db' = uploads db
     \<and> settings db' = settings db"

named_theorems frames "operations that leave the tables around the tree alone"

lemma apart_refl [simp]: "apart db db"
  by (simp add: apart_def)

lemma apart_trans [trans]: "apart db db1 \<Longrightarrow> apart db1 db2 \<Longrightarrow> apart db db2"
  by (simp add: apart_def)

lemma apart_update [simp]:
  "apart db (db'\<lparr>nodes := ns\<rparr>) = apart db db'" "apart db (db'\<lparr>blobs := bs\<rparr>) = apart db db'"
  "apart db (db'\<lparr>quotas := qs\<rparr>) = apart db db'" "apart db (db'\<lparr>versions := vs\<rparr>) = apart db db'"
  "apart db (snd (now_v7 db')) = apart db db'"
  "apart db (acquire_blob h db') = apart db db'" "apart db (release_blob now h db') = apart db db'"
  "apart db (fold (release_blob now) hs db') = apart db db'"
  by (simp_all add: apart_def)

lemma apart_now [simp]: "apart (snd (now_v7 db)) db' = apart db db'" "apart (acquire_blob h db) db' = apart db db'"
  "apart (release_blob now h db) db' = apart db db'" "apart (fold (release_blob now) hs db) db' = apart db db'"
  "apart (db\<lparr>versions := vs\<rparr>) db' = apart db db'" "apart (db\<lparr>nodes := ns\<rparr>) db' = apart db db'"
  by (simp_all add: apart_def)

lemma charge_apart [frames]: "charge_quota owner d db = Inr db' \<Longrightarrow> apart db db'"
  using charge_quota_frame [of owner d db db'] by (simp add: apart_def)

lemma store_nodes_apart [frames]: "store_nodes ns db = Inr db' \<Longrightarrow> apart db db'"
  by (auto simp: store_nodes_eq_Inr)

lemma node_rows_apart [frames]:
  "insert_node n db = Inr db' \<Longrightarrow> apart db db'" "update_node i f db = Inr db' \<Longrightarrow> apart db db'"
  by (auto simp: insert_node_def update_node_def dest: store_nodes_apart)

lemma insert_blob_apart [frames]: "insert_blob b db = Inr db' \<Longrightarrow> apart db db'"
  by (auto simp: insert_blob_def split: if_splits)

lemma insert_quota_apart [frames]: "insert_quota owner b db = Inr db' \<Longrightarrow> apart db db'"
  by (auto simp: insert_quota_def split: if_splits)

lemma keep_apart [frames]: "keep now i h bytes db = Inr db' \<Longrightarrow> apart db db'"
  by (auto simp: keep_def case_prod_unfold store_version_def Let_def split: if_splits)

lemma prune_beyond_apart [frames]: "prune_beyond now owner i kept db = Inr db' \<Longrightarrow> apart db db'"
  by (auto simp: prune_beyond_def delete_versions_def release_versions_def Let_def dest: charge_apart)

lemma drop_oldest_apart [frames]: "drop_oldest now owner i db = Inr (b, db') \<Longrightarrow> apart db db'"
  by (auto simp: drop_oldest_def delete_versions_def release_versions_def Let_def rbind_eq_Inr
      dest: charge_apart split: if_splits)

lemma take_version_apart [frames]: "take_version now owner i j db = Inr (v, db') \<Longrightarrow> apart db db'"
  by (auto simp: take_version_def delete_versions_def rbind_eq_Inr dest: charge_apart split: list.splits)

lemma make_room_apart [frames]: "make_room now owner i bytes previous db = Inr (b, db') \<Longrightarrow> apart db db'"
proof (induction now owner i bytes previous db rule: make_room.induct)
  case (1 now owner i bytes previous db)
  from 1(2) show ?case
    by (subst (asm) make_room.simps)
      (auto simp: rbind_eq_Inr split: sum.splits api_error.splits if_splits prod.splits
        dest: charge_apart drop_oldest_apart 1(1) intro: apart_trans)
qed

lemma insert_directory_apart [frames]: "insert_directory C now owner i name db = Inr (n, db') \<Longrightarrow> apart db db'"
  by (auto simp: insert_directory_def case_prod_unfold Let_def dest: node_rows_apart
      split: sum.splits if_splits option.splits)

lemma create_segments_apart [frames]: "create_segments C now owner cur path db = Inr (n, db') \<Longrightarrow> apart db db'"
proof (induction C now owner cur path db rule: create_segments.induct)
  case (2 C now owner cur segment rest db)
  then show ?case
    by (auto simp: rbind_eq_Inr split: option.splits if_splits dest: insert_directory_apart intro: apart_trans)
qed simp

lemma create_directories_apart [frames]: "create_directories C now owner cur path db = Inr (n, db') \<Longrightarrow> apart db db'"
  by (auto simp: create_directories_def dest: create_segments_apart split: if_splits)

lemma ensure_root_apart [frames]:
  assumes "ensure_root C now owner b db = Inr (n, db')"
  shows "apart db db'"
proof -
  obtain db1 where q: "insert_quota owner b db = Inr db1"
    using assms by (auto simp: ensure_root_def rbind_eq_Inr)
  let ?db3 = "snd (now_v7 (snd (now_v7 db1)))"
  have "db' = ?db3 \<or> (\<exists>m. insert_node m ?db3 = Inr db')"
    using assms q by (auto simp: ensure_root_def rbind_eq_Inr case_prod_unfold Let_def
        split: sum.splits db_error.splits)
  then have "apart db1 db'" using node_rows_apart(1) [where db = ?db3] by auto
  with insert_quota_apart [OF q] show ?thesis by (rule apart_trans)
qed

lemma put_file_apart [frames]:
  assumes "put_file C now owner dir name h bytes kept db = Inr (n, db')"
  shows "apart db db'"
  using assms
proof (cases rule: put_file_cases)
  case (existing db1 e b versioned db2 db3)
  have "apart db1 db2" using existing(5)
    by (auto simp: rbind_eq_Inr split: if_splits dest: make_room_apart charge_apart)
  moreover have "apart db2 db3" using existing(6)
    by (auto simp: rbind_eq_Inr split: if_splits dest!: keep_apart prune_beyond_apart intro: apart_trans)
  ultimately show ?thesis
    using insert_blob_apart [OF existing(1)] node_rows_apart(2) [OF existing(7)] by (blast intro: apart_trans)
next
  case (fresh db1 db2)
  then show ?thesis
    using insert_blob_apart [OF fresh(1)] charge_apart [OF fresh(3)] node_rows_apart(1) [OF fresh(4)]
    by (auto intro: apart_trans)
next
  case (broken db1 e)
  with assms show ?thesis by (auto simp: put_file_def rbind_eq_Inr case_prod_unfold dest!: insert_blob_apart
      charge_apart node_rows_apart intro: apart_trans)
qed

lemma rename_apart [frames]: "rename C now n dir name db = Inr (m, db') \<Longrightarrow> apart db db'"
  by (auto simp: rename_def Let_def case_prod_unfold rbind_eq_Inr dest!: node_rows_apart split: if_splits node_kind.splits)

lemma copy_one_apart [frames]: "copy_one C now owner i name original db = Inr (n, db') \<Longrightarrow> apart db db'"
  by (auto simp: copy_one_def Let_def case_prod_unfold rbind_eq_Inr dest!: node_rows_apart
      split: node_kind.splits option.splits)

lemma copy_children_apart [frames]:
  "copy_children C now owner into os (spent, pending, db) = Inr (spent', pending', db') \<Longrightarrow> apart db db'"
  by (induction C now owner into os "(spent, pending, db)" arbitrary: spent pending db rule: copy_children.induct)
    (auto simp: rbind_eq_Inr dest!: copy_one_apart intro: apart_trans)

lemma copy_pending_apart [frames]:
  "copy_pending fuel C now owner (spent, pending, db) = Some (Inr (spent', db')) \<Longrightarrow> apart db db'"
proof (induction fuel C now owner "(spent, pending, db)" arbitrary: spent pending db rule: copy_pending.induct)
  case (3 fuel C now owner spent origin into pending db)
  then show ?case by (auto split: sum.splits dest!: copy_children_apart intro: apart_trans)
qed simp_all

lemma copy_tree_apart [frames]:
  "copy_tree C now owner source dir name db = Some (Inr (n, db')) \<Longrightarrow> apart db db'"
  by (auto simp: copy_tree_def rbind_eq_Inr split: if_splits sum.splits
      dest!: copy_one_apart copy_pending_apart charge_apart) (blast intro: apart_trans)+

lemma send_apart [frames]: "send now n db = Inr db' \<Longrightarrow> apart db db'"
  by (auto simp: send_def Let_def rbind_eq_Inr dest!: store_nodes_apart charge_apart intro: apart_trans)

lemma locate_apart [frames]: "locate C now u path quota db = Inr (place, db') \<Longrightarrow> apart db db'"
  by (auto simp: locate_def rbind_eq_Inr dest: ensure_root_apart split: if_splits list.splits)

lemma locate_writable_apart [frames]: "locate_writable C now u path quota db = Inr (place, db') \<Longrightarrow> apart db db'"
  by (auto simp: locate_writable_def rbind_eq_Inr dest: locate_apart split: if_splits)

lemma directory_for_write_apart [frames]:
  "directory_for_write C now u path create quota db = Inr (dir, db') \<Longrightarrow> apart db db'"
  by (auto simp: directory_for_write_def rbind_eq_Inr dest!: ensure_root_apart create_directories_apart
      split: if_splits list.splits intro: apart_trans)

lemma file_target_apart [frames]:
  "file_target C now u path create quota db = Inr (dir, name, db') \<Longrightarrow> apart db db'"
  by (auto simp: file_target_def rbind_eq_Inr dest!: directory_for_write_apart split: if_splits)

end
