(* ===== verification/Files.thy ===== *)
theory Files
  imports Bodies Frames
begin

text \<open>
  The handlers of the REST interface on the tree: \<open>routes/files.rs\<close>, \<open>versions.rs\<close>, \<open>trash.rs\<close> and
  \<open>grants.rs\<close>. Each takes the account the request comes from (see \<open>Signin\<close>) and is the sequence of
  transactions the code runs. The lemmas state that each keeps the files sound, and that what is
  put is what is read back.
\<close>

section \<open>Files\<close>

text \<open>
  A put has two transactions around the body: the first is only read from and rolled back, the
  second checks everything again.
\<close>

definition put_room ::
    "crates \<Rightarrow> app_state \<Rightarrow> timestamp \<Rightarrow> user \<Rightarrow> node_name list \<Rightarrow> precondition \<Rightarrow> db \<Rightarrow> api_error + nat" where
  "put_room C st now u path pre db =
     rbind (file_target C now u path True (default_quota_bytes st) db) (\<lambda>(dir, name, db1).
     rbind (check_precondition pre (child (n_id dir) name db1)) (\<lambda>_. Inr (room st dir name db1)))"

definition put_commit ::
    "crates \<Rightarrow> app_state \<Rightarrow> timestamp \<Rightarrow> user \<Rightarrow> node_name list \<Rightarrow> precondition \<Rightarrow> written \<Rightarrow> int \<Rightarrow> db
      \<Rightarrow> api_error + node \<times> db" where
  "put_commit C st now u path pre wr bytes db =
     rbind (file_target C now u path True (default_quota_bytes st) db) (\<lambda>(dir, name, db1).
     rbind (check_precondition pre (child (n_id dir) name db1)) (\<lambda>_.
       put_file C now (n_owner dir) dir name (wr_hash wr) bytes (versions_kept st) db1))"

definition put ::
    "crates \<Rightarrow> app_state \<Rightarrow> timestamp \<Rightarrow> string \<Rightarrow> user \<Rightarrow> string \<Rightarrow> headers \<Rightarrow> chunks \<Rightarrow> world \<Rightarrow> (string \<times> node) reply" where
  "put C st now tmp_name u path headers body w =
     (case path_segments path of
        Inl e \<Rightarrow> (Inl e, w)
      | Inr names \<Rightarrow>
          if names = [] then (Inl (WrongKind ''file path''), w)
          else (case put_room C st now u names (precondition_of headers) (w_db w) of
              Inl e \<Rightarrow> (Inl e, w)
            | Inr limit \<Rightarrow>
                (case receive C now tmp_name headers body limit w of
                   (Inl e, w1) \<Rightarrow> (Inl e, w1)
                 | (Inr (wr, bytes), w1) \<Rightarrow>
                     (case put_commit C st now u names (precondition_of headers) wr bytes (w_db w1) of
                        Inl e \<Rightarrow> (Inl e, w1)
                      | Inr (n, db2) \<Rightarrow>
                          (rbind (etag_header C n) (\<lambda>etag. Inr (etag, n)),
                           \<lparr>w_db = db2, w_files = local_settle C wr (w_files w1)\<rparr>)))))"

definition located :: "crates \<Rightarrow> app_state \<Rightarrow> timestamp \<Rightarrow> user \<Rightarrow> string \<Rightarrow> db \<Rightarrow> place answer" where
  "located C st now u path db =
     (case path_segments path of
        Inl e \<Rightarrow> (Inl e, db)
      | Inr names \<Rightarrow> transact (locate C now u names (default_quota_bytes st)) db)"

definition get :: "crates \<Rightarrow> app_state \<Rightarrow> timestamp \<Rightarrow> user \<Rightarrow> string \<Rightarrow> world \<Rightarrow> contents reply" where
  "get C st now u path w =
     (case with_db (located C st now u path) w of
        (Inl e, w1) \<Rightarrow> (Inl e, w1)
      | (Inr place, w1) \<Rightarrow> (rbind (into_node place) (\<lambda>n. bytes_of C n (w_files w1)), w1))"

definition rename_handler :: "crates \<Rightarrow> app_state \<Rightarrow> timestamp \<Rightarrow> user \<Rightarrow> string \<Rightarrow> string \<Rightarrow> db \<Rightarrow> (string \<times> node) answer" where
  "rename_handler C st now u source target db =
     (case (path_segments source, path_segments target) of
        (Inl e, _) \<Rightarrow> (Inl e, db)
      | (Inr from_names, Inl e) \<Rightarrow> (Inl e, db)
      | (Inr from_names, Inr to_names) \<Rightarrow>
          if to_names = [] \<or> from_names = [] then (Inl (WrongKind ''path below the root''), db)
          else and_then (transact (\<lambda>db.
              rbind (locate_writable C now u from_names (default_quota_bytes st) db) (\<lambda>(place, db1).
              rbind (into_movable place) (\<lambda>n.
              rbind (directory_for_write C now u (butlast to_names) False (default_quota_bytes st) db1) (\<lambda>(dir, db2).
              rbind (refuse_reserved dir (last to_names)) (\<lambda>_.
                if n_owner dir \<noteq> n_owner n then Inl AcrossAccounts
                else rename C now n dir (last to_names) db2))))) db)
            (\<lambda>moved db1. (rbind (etag_header C moved) (\<lambda>etag. Inr (etag, moved)), db1)))"

definition delete_handler :: "crates \<Rightarrow> app_state \<Rightarrow> timestamp \<Rightarrow> user \<Rightarrow> string \<Rightarrow> db \<Rightarrow> unit answer" where
  "delete_handler C st now u path db =
     (case path_segments path of
        Inl e \<Rightarrow> (Inl e, db)
      | Inr names \<Rightarrow>
          if names = [] then (Inl (WrongKind ''path below the root''), db)
          else execute (\<lambda>db.
            rbind (locate_writable C now u names (default_quota_bytes st) db) (\<lambda>(place, db1).
            rbind (into_movable place) (\<lambda>n. send now n db1))) db)"

definition create_folder :: "crates \<Rightarrow> app_state \<Rightarrow> timestamp \<Rightarrow> user \<Rightarrow> string \<Rightarrow> db \<Rightarrow> (string \<times> node) answer" where
  "create_folder C st now u path db =
     (case path_segments path of
        Inl e \<Rightarrow> (Inl e, db)
      | Inr names \<Rightarrow>
          if names = [] then (Inl (WrongKind ''folder path''), db)
          else and_then (transact (\<lambda>db.
              rbind (directory_for_write C now u (butlast names) True (default_quota_bytes st) db) (\<lambda>(dir, db1).
              rbind (refuse_reserved dir (last names)) (\<lambda>_.
                if child (n_id dir) (last names) db1 \<noteq> None then Inl (Conflict (as_str (last names)))
                else create_directories C now (n_owner dir) dir [last names] db1))) db)
            (\<lambda>created db1. (rbind (etag_header C created) (\<lambda>etag. Inr (etag, created)), db1)))"

definition list_handler :: "crates \<Rightarrow> app_state \<Rightarrow> timestamp \<Rightarrow> user \<Rightarrow> string \<Rightarrow> db \<Rightarrow> node list answer" where
  "list_handler C st now u path db =
     (case path_segments path of
        Inl e \<Rightarrow> (Inl e, db)
      | Inr names \<Rightarrow>
          and_then (transact (\<lambda>db.
              rbind (locate C now u names (default_quota_bytes st) db) (\<lambda>(place, db1).
                case place of
                  SharedWithMe \<Rightarrow>
                    rbind (ensure_root C now (u_id u) (default_quota_bytes st) db1) (\<lambda>(root, db2).
                      Inr (Inl (case shelf C u root db2 of Some (d, entries) \<Rightarrow> map fst entries | None \<Rightarrow> []), db2))
                | _ \<Rightarrow> Inr (Inr place, db1))) db)
            (\<lambda>found db1. case found of
                Inl listing \<Rightarrow> (Inr listing, db1)
              | Inr place \<Rightarrow>
                  (rbind (into_node place) (\<lambda>n.
                     if n_kind n \<noteq> Directory then Inl (WrongKind ''directory'')
                     else Inr (list_children (n_id n) db1)), db1)))"

definition list_root :: "crates \<Rightarrow> app_state \<Rightarrow> timestamp \<Rightarrow> user \<Rightarrow> db \<Rightarrow> node list answer" where
  "list_root C st now u db =
     and_then (transact (\<lambda>db.
         rbind (ensure_root C now (u_id u) (default_quota_bytes st) db) (\<lambda>(root, db1).
           Inr ((root, shelf C u root db1), db1))) db)
       (\<lambda>(root, found) db1.
          (Inr ((case found of Some (d, entries) \<Rightarrow> [d] | None \<Rightarrow> []) @ list_children (n_id root) db1), db1))"

section \<open>Versions\<close>

definition as_file :: "node \<Rightarrow> api_error + node" where
  "as_file n = (if n_kind n = File then Inr n else Inl (WrongKind ''file''))"

definition readable_file ::
    "crates \<Rightarrow> app_state \<Rightarrow> timestamp \<Rightarrow> user \<Rightarrow> node_name list \<Rightarrow> db \<Rightarrow> api_error + node \<times> db" where
  "readable_file C st now u names db =
     rbind (locate C now u names (default_quota_bytes st) db) (\<lambda>(place, db1).
     rbind (into_node place) (\<lambda>n. rbind (as_file n) (\<lambda>n. Inr (n, db1))))"

definition versions_handler :: "crates \<Rightarrow> app_state \<Rightarrow> timestamp \<Rightarrow> user \<Rightarrow> string \<Rightarrow> db \<Rightarrow> version list answer" where
  "versions_handler C st now u path db =
     (case path_segments path of
        Inl e \<Rightarrow> (Inl e, db)
      | Inr names \<Rightarrow> transact (\<lambda>db. rbind (readable_file C st now u names db) (\<lambda>(n, db1).
          Inr (list_versions (n_id n) db1, db1))) db)"

definition version_content :: "crates \<Rightarrow> app_state \<Rightarrow> timestamp \<Rightarrow> user \<Rightarrow> uuid \<Rightarrow> string \<Rightarrow> world \<Rightarrow> contents reply" where
  "version_content C st now u i path w =
     (case path_segments path of
        Inl e \<Rightarrow> (Inl e, w)
      | Inr names \<Rightarrow>
          (case with_db (transact (\<lambda>db. rbind (readable_file C st now u names db) (\<lambda>(n, db1).
              rbind (find_version (n_id n) i db1) (\<lambda>v. Inr (v, db1))))) w of
             (Inl e, w1) \<Rightarrow> (Inl e, w1)
           | (Inr v, w1) \<Rightarrow>
               (rbind (ok_or (WrongKind ''printable etag'') (header_value C (etag_for_file C (v_blob v)))) (\<lambda>etag.
                  blob_bytes C (v_blob v) (v_size v) etag (w_files w1)), w1)))"

definition restore_version :: "crates \<Rightarrow> app_state \<Rightarrow> timestamp \<Rightarrow> user \<Rightarrow> uuid \<Rightarrow> string \<Rightarrow> db \<Rightarrow> node answer" where
  "restore_version C st now u i path db =
     (case path_segments path of
        Inl e \<Rightarrow> (Inl e, db)
      | Inr names \<Rightarrow> transact (\<lambda>db.
          rbind (locate_writable C now u names (default_quota_bytes st) db) (\<lambda>(place, db1).
          rbind (into_node place) (\<lambda>n. rbind (as_file n) (\<lambda>n.
          rbind (take_version now (n_owner n) (n_id n) i db1) (\<lambda>(v, db2).
          rbind (file_target C now u names False (default_quota_bytes st) db2) (\<lambda>(dir, name, db3).
            put_file C now (n_owner dir) dir name (v_blob v) (v_size v) (versions_kept st) db3)))))) db)"

section \<open>The trash and the grants\<close>

text \<open>A trashed node and when it expires.\<close>

definition list_trash_handler :: "app_state \<Rightarrow> user \<Rightarrow> db \<Rightarrow> (node \<times> timestamp option) list" where
  "list_trash_handler st u db = map (\<lambda>n. (n,
     case (n_deleted n, trash_retention st) of (Some d, Some kept) \<Rightarrow> Some (d + kept) | _ \<Rightarrow> None)) (list_trash (u_id u) db)"

definition empty_handler :: "timestamp \<Rightarrow> user \<Rightarrow> db \<Rightarrow> unit answer" where
  "empty_handler now u = execute (\<lambda>db. rbind (empty_trash now (u_id u) db) (\<lambda>(purged, db1). Inr db1))"

definition restore_handler :: "user \<Rightarrow> uuid \<Rightarrow> db \<Rightarrow> node answer" where
  "restore_handler u i = transact (restore (u_id u) i)"

definition purge_handler :: "timestamp \<Rightarrow> user \<Rightarrow> uuid \<Rightarrow> db \<Rightarrow> unit answer" where
  "purge_handler now u i = execute (purge now (u_id u) i)"

definition give_handler ::
    "crates \<Rightarrow> app_state \<Rightarrow> timestamp \<Rightarrow> user \<Rightarrow> string \<Rightarrow> string \<Rightarrow> access \<Rightarrow> db \<Rightarrow> given_grant answer" where
  "give_handler C st now u path email_text acc db =
     (case path_segments path of
        Inl e \<Rightarrow> (Inl e, db)
      | Inr names \<Rightarrow>
          if names = [] then (Inl (WrongKind ''path below the root''), db)
          else (case email_from_str C email_text of
              Inl e \<Rightarrow> (Inl (InvalidEmail e), db)
            | Inr grantee \<Rightarrow> transact (\<lambda>db.
                rbind (locate C now u names (default_quota_bytes st) db) (\<lambda>(place, db1).
                  case place of Own n \<Rightarrow> give now u n grantee acc db1 | _ \<Rightarrow> Inl Forbidden)) db))"

definition given_handler :: "user \<Rightarrow> db \<Rightarrow> given_grant list" where
  "given_handler u db = given (u_id u) db"

definition received_handler :: "crates \<Rightarrow> user \<Rightarrow> db \<Rightarrow> received_grant list" where
  "received_handler C u db = received C (u_email u) db"

definition withdraw_handler :: "user \<Rightarrow> uuid \<Rightarrow> db \<Rightarrow> unit answer" where
  "withdraw_handler u i = execute (withdraw u i)"

section \<open>The handlers keep the files sound\<close>

text \<open>What a located place names.\<close>

lemma locate_named:
  assumes s: "sound db" and l: "locate C now u path quota db = Inr (place, db')"
  shows "sound db'" and "\<exists>ns. nodes db' = nodes db @ ns"
    and "into_movable place = Inr n \<Longrightarrow> n \<in> set (nodes db') \<and> live n"
    and "into_node place = Inr m \<Longrightarrow> \<exists>n\<in>set (nodes db'). live n \<and> m = n\<lparr>n_name := n_name m\<rparr>"
proof -
  note r = locate_sound [OF s l]
  show "sound db'" "\<exists>ns. nodes db' = nodes db @ ns" using r by blast+
  show "n \<in> set (nodes db') \<and> live n" if "into_movable place = Inr n"
    using r that by (cases place) (auto split: if_splits)
  show "\<exists>n\<in>set (nodes db'). live n \<and> m = n\<lparr>n_name := n_name m\<rparr>" if "into_node place = Inr m"
    using r that by (cases place) (auto split: if_splits)
qed

lemma locate_writable_locate:
  "locate_writable C now u path quota db = Inr (place, db') \<Longrightarrow>
     locate C now u path quota db = Inr (place, db') \<and> writable place"
  by (auto simp: locate_writable_def rbind_eq_Inr split: if_splits)

lemma put_commit_sound:
  assumes "sound db" and p: "put_commit C st now u path pre wr bytes db = Inr (n, db')"
  shows "sound db'"
proof -
  from p obtain dir name db1 where t: "file_target C now u path True (default_quota_bytes st) db = Inr (dir, name, db1)"
    and pf: "put_file C now (n_owner dir) dir name (wr_hash wr) bytes (versions_kept st) db1 = Inr (n, db')"
    by (auto simp: put_commit_def rbind_eq_Inr)
  note ft = file_target_sound [OF assms(1) t]
  show ?thesis by (rule put_file_sound(1) [OF ft(1,3) pf])
qed

lemma receive_sound: "sound (w_db w) \<Longrightarrow> sound (w_db (snd (receive C now name headers body limit w)))"
  unfolding receive_def
  by (auto split: option.splits prod.splits sum.splits dest: register_blob_sound)

lemma put_sound:
  assumes "sound (w_db w)"
  shows "sound (w_db (snd (put C st now tmp_name u path headers body w)))"
proof (cases "put C st now tmp_name u path headers body w = (fst (put C st now tmp_name u path headers body w), w)")
  case True
  then show ?thesis using assms by (metis snd_conv)
next
  case False
  then obtain ns limit where ns: "path_segments path = Inr ns" "ns \<noteq> []"
    and r: "put_room C st now u ns (precondition_of headers) (w_db w) = Inr limit"
    by (auto simp: put_def split: sum.splits if_splits)
  obtain x w1 where rc: "receive C now tmp_name headers body limit w = (x, w1)" by fastforce
  have s1: "sound (w_db w1)" using receive_sound [OF assms, of C now tmp_name headers body limit] rc by simp
  show ?thesis using ns r rc s1 put_commit_sound [OF s1]
    by (auto simp: put_def split: sum.splits)
qed

lemma located_sound: "sound db \<Longrightarrow> sound (snd (located C st now u path db))"
  unfolding located_def
  by (cases "path_segments path") (simp_all, rule transact_sound, auto dest: locate_named(1))

lemma get_sound: "sound (w_db w) \<Longrightarrow> sound (w_db (snd (get C st now u path w)))"
  using with_db_keeps [where P = sound and f = "located C st now u path" and w = w] located_sound
  by (auto simp: get_def split: prod.splits sum.splits)

lemma rename_handler_sound:
  assumes "sound db"
  shows "sound (snd (rename_handler C st now u source target db))"
proof -
  have "sound db3" if "locate_writable C now u p q db = Inr (place, db1)" "into_movable place = Inr n"
      "directory_for_write C now u p' False q db1 = Inr (dir, db2)" "n_owner dir = n_owner n"
      "rename C now n dir name db2 = Inr (m, db3)" for p q place db1 n p' dir db2 name m db3
  proof -
    note ln = locate_named [OF assms locate_writable_locate [OF that(1), THEN conjunct1]]
    note dw = directory_for_write_sound [OF ln(1) that(3)]
    have "n \<in> set (nodes db2)" "live n" using ln(3) [OF that(2)] dw(2) by auto
    then show ?thesis by (rule rename_sound(1) [OF dw(1) _ _ dw(4,5) that(4,5)])
  qed
  then show ?thesis unfolding rename_handler_def
    using assms by (auto split: sum.splits if_splits simp: rbind_eq_Inr intro!: and_then_sound transact_sound)
qed

lemma delete_handler_sound:
  assumes "sound db"
  shows "sound (snd (delete_handler C st now u path db))"
proof -
  have "sound db2" if "locate_writable C now u p q db = Inr (place, db1)" "into_movable place = Inr n"
      "send now n db1 = Inr db2" for p q place db1 n db2
  proof -
    note ln = locate_named [OF assms locate_writable_locate [OF that(1), THEN conjunct1]]
    show ?thesis using send_sound(1) [OF ln(1) _ _ that(3)] ln(3) [OF that(2)] by simp
  qed
  then show ?thesis unfolding delete_handler_def
    using assms by (auto split: sum.splits simp: rbind_eq_Inr intro!: execute_sound)
qed

lemma create_folder_sound:
  assumes "sound db"
  shows "sound (snd (create_folder C st now u path db))"
proof -
  have "sound db2" if "directory_for_write C now u p True q db = Inr (dir, db1)"
      "create_directories C now (n_owner dir) dir ns db1 = Inr (n, db2)" for p q dir db1 ns n db2
  proof -
    note dw = directory_for_write_sound [OF assms that(1)]
    show ?thesis using create_directories_sound [OF that(2) dw(1) homeI [OF dw(1,4,5,6)] dw(4)] by simp
  qed
  then show ?thesis unfolding create_folder_def
    using assms by (auto split: sum.splits if_splits simp: rbind_eq_Inr intro!: and_then_sound transact_sound)
qed

lemma list_handler_sound:
  assumes "sound db"
  shows "sound (snd (list_handler C st now u path db))"
proof -
  have "sound db'" if "locate C now u p q db = Inr (place, db1)"
      "(case place of SharedWithMe \<Rightarrow> rbind (ensure_root C now i q' db1) (\<lambda>(root, db2). Inr (f root db2, db2))
        | _ \<Rightarrow> Inr (Inr place, db1)) = Inr (x, db')" for p q place db1 i q' f x db'
    using locate_named(1) [OF assms that(1)] that(2)
    by (cases place) (auto simp: rbind_eq_Inr dest: ensure_root_sound(1))
  then show ?thesis unfolding list_handler_def
    using assms by (auto split: sum.splits simp: rbind_eq_Inr intro!: and_then_sound transact_sound)
qed

lemma list_root_sound: "sound db \<Longrightarrow> sound (snd (list_root C st now u db))"
  unfolding list_root_def
  by (intro and_then_sound transact_sound)
    (auto simp: rbind_eq_Inr dest: ensure_root_sound(1) split: prod.splits)

text \<open>A version that is taken to be put back leaves the books right.\<close>

lemma take_version_sound:
  assumes s: "sound db" and n: "n \<in> set (nodes db)" "live n"
    and t: "take_version now (n_owner n) (n_id n) i db = Inr (v, db')"
  shows "sound db'" and "nodes db' = nodes db"
proof -
  note b = take_version_books [OF soundD(1) [OF s] soundD(9) [OF s] sound_find [OF s n(1)] n(2) refl t]
  have m: "moved unmoved unmoved db db'" by (rule same_books_moved [OF b(3)])
  show ns: "nodes db' = nodes db" using b(3) by (simp add: same_books_def)
  have "tree_ok db'"
    by (rule tree_ok_versions [OF soundD(3) [OF s] ns]) (use b(3) in \<open>auto simp: same_books_def\<close>)
  moreover have "balanced db'"
    using b(3) soundD(4) [OF s] by (simp add: balanced_drift same_books_def)
  ultimately show "sound db'" using b(1) moved_thumbnails [OF m] soundD(2) [OF s] by (simp add: sound_def)
qed

lemma restore_version_sound:
  assumes "sound db"
  shows "sound (snd (restore_version C st now u i path db))"
proof -
  have "sound db4" if a: "locate_writable C now u p q db = Inr (place, db1)" "into_node place = Inr m" "as_file m = Inr n"
      "take_version now (n_owner n) (n_id n) i db1 = Inr (v, db2)"
      "file_target C now u p False q db2 = Inr (dir, name, db3)"
      "put_file C now (n_owner dir) dir name h bytes kept db3 = Inr (x, db4)"
    for p q place db1 m n v db2 dir name db3 h bytes kept x db4
  proof -
    note ln = locate_named [OF assms locate_writable_locate [OF a(1), THEN conjunct1]]
    have "n = m" using a(3) by (simp add: as_file_def split: if_splits)
    with ln(4) [OF a(2)] obtain r where r: "r \<in> set (nodes db1)" "live r" "n = r\<lparr>n_name := n_name n\<rparr>" by blast
    have tv: "take_version now (n_owner r) (n_id r) i db1 = Inr (v, db2)" using a(4) by (subst (asm) (1 2) r(3)) simp
    have "sound db2" by (rule take_version_sound(1) [OF ln(1) r(1,2) tv])
    note ft = file_target_sound [OF this a(5)]
    show ?thesis by (rule put_file_sound(1) [OF ft(1,3) a(6)])
  qed
  then show ?thesis unfolding restore_version_def
    using assms by (auto split: sum.splits simp: rbind_eq_Inr intro!: transact_sound)
qed

lemma readable_file_sound: "sound db \<Longrightarrow> readable_file C st now u ns db = Inr (n, db') \<Longrightarrow> sound db'"
  by (auto simp: readable_file_def rbind_eq_Inr dest: locate_named(1))

lemma versions_handler_sound: "sound db \<Longrightarrow> sound (snd (versions_handler C st now u path db))"
  unfolding versions_handler_def
  by (auto split: sum.splits simp: rbind_eq_Inr dest: readable_file_sound intro!: transact_sound)

lemma version_content_sound:
  assumes s: "sound (w_db w)"
  shows "sound (w_db (snd (version_content C st now u i path w)))"
proof (cases "path_segments path")
  case (Inr ns)
  let ?r = "with_db (transact (\<lambda>db. rbind (readable_file C st now u ns db) (\<lambda>(n, db1).
      rbind (find_version (n_id n) i db1) (\<lambda>v. Inr (v, db1))))) w"
  have "sound (w_db (snd ?r))"
    by (intro with_db_keeps [where P = sound] s transact_sound) (use s in \<open>auto simp: rbind_eq_Inr dest: readable_file_sound\<close>)
  moreover have "snd (version_content C st now u i path w) = snd ?r"
    using Inr by (cases ?r; cases "fst ?r") (simp_all add: version_content_def)
  ultimately show ?thesis by simp
qed (use s in \<open>simp add: version_content_def\<close>)

lemma trash_handlers_sound:
  assumes "sound db"
  shows "sound (snd (empty_handler now u db))" "sound (snd (restore_handler u i db))"
    "sound (snd (purge_handler now u i db))" "sound (snd (withdraw_handler u i db))"
  unfolding empty_handler_def restore_handler_def purge_handler_def withdraw_handler_def
  using assms by (auto simp: rbind_eq_Inr withdraw_sound dest: empty_trash_sound restore_sound(1) purge_sound(1)
      intro!: transact_sound execute_sound)

lemma give_handler_sound:
  assumes "sound db"
  shows "sound (snd (give_handler C st now u path email acc db))"
proof -
  have "sound db'" if "locate C now u p q db = Inr (place, db1)"
      "(case place of Own n \<Rightarrow> give now u n grantee acc db1 | _ \<Rightarrow> Inl Forbidden) = Inr (x, db')"
    for p q place db1 grantee x db'
    using locate_named(1) [OF assms that(1)] that(2) by (cases place) (auto simp: give_sound)
  then show ?thesis unfolding give_handler_def
    using assms by (auto split: sum.splits simp: rbind_eq_Inr intro!: transact_sound)
qed

section \<open>A path that was written is found\<close>

text \<open>Writing a file moves no directory, and overwrites the row that had the name.\<close>

lemma put_file_rows:
  assumes s: "sound db" and dir: "home owner (n_id dir) db"
    and p: "put_file C now owner dir name h bytes kept db = Inr (n, db')"
  shows "m \<in> set (nodes db) \<Longrightarrow> n_kind m = Directory \<Longrightarrow> m \<in> set (nodes db')"
    and "case child (n_id dir) name db of Some e \<Rightarrow> n_kind e = File \<and> n_id n = n_id e
      | None \<Rightarrow> n_id n \<notin> n_id ` set (nodes db)"
    and "m \<in> set (nodes db) \<Longrightarrow> child (n_id dir) name db \<noteq> Some m \<Longrightarrow> m \<in> set (nodes db')"
proof -
  have all: "(m \<in> set (nodes db) \<longrightarrow> child (n_id dir) name db \<noteq> Some m \<longrightarrow> m \<in> set (nodes db'))
    \<and> (case child (n_id dir) name db of Some e \<Rightarrow> n_kind e = File \<and> n_id n = n_id e
        | None \<Rightarrow> n_id n \<notin> n_id ` set (nodes db))"
    using p
  proof (cases rule: put_file_cases)
    case (existing db1 e b versioned db2 db3)
    note ib = insert_blob_sound [OF s existing(1), simplified]
    note ch = child_Some [OF existing(2)]
    have "home owner (n_id dir) db1" using dir ib(3) by (simp add: home_def)
    with child_owner [OF ib(1) _ ch(1,2)] have o: "n_owner e = owner" by simp
    note w = overwrite_books [OF ib(1) ch(1,4) o existing(3,4) ib(2) existing(5,6)]
    note u = update_file_sound [OF ib(1) ch(1,4) o existing(3,4) w existing(7)]
    have c: "child (n_id dir) name db = Some e" using existing(2) ib(3) by (simp add: child_def)
    have "m \<in> set (nodes db')" if m: "m \<in> set (nodes db)" "child (n_id dir) name db \<noteq> Some m"
    proof -
      have "n_id m \<noteq> n_id e"
        using distinct_key_eq [OF soundD(6) [OF ib(1)], of m e] m ch(1) c ib(3) by auto
      with m(1) show ?thesis unfolding u(2) ib(3) by force
    qed
    with c show ?thesis using find_node_Some [OF existing(8)] existing(3) by simp
  next
    case (fresh db1 db2)
    note ib = insert_blob_sound [OF s fresh(1), simplified]
    have ns: "nodes db' = nodes db @ [n]" and d: "distinct (map n_id (nodes db'))"
      using fresh(4) ib(3) charge_quota_frame(1) [OF fresh(3)]
      by (auto simp: insert_node_def store_nodes_eq_Inr nodes_violation_None)
    have "child (n_id dir) name db = None" using fresh(2) ib(3) by (simp add: child_def)
    then show ?thesis using ns d by auto
  next
    case (broken db1 e)
    note ib = insert_blob_sound [OF s broken(1), simplified]
    have "e \<in> set (nodes db1)" using child_Some [OF broken(2)] by simp
    with node_checks_file nodes_ok_checks [OF soundD(5) [OF ib(1)]] broken(3,4) show ?thesis by blast
  qed
  then show "case child (n_id dir) name db of Some e \<Rightarrow> n_kind e = File \<and> n_id n = n_id e
      | None \<Rightarrow> n_id n \<notin> n_id ` set (nodes db)"
    and "m \<in> set (nodes db) \<Longrightarrow> child (n_id dir) name db \<noteq> Some m \<Longrightarrow> m \<in> set (nodes db')" by blast+
  show "m \<in> set (nodes db')" if "m \<in> set (nodes db)" "n_kind m = Directory"
    using all that by (auto split: option.splits)
qed

lemma resolve_append: "resolve start (p @ q) db = rbind (resolve start p db) (\<lambda>d. resolve d q db)"
  by (induction p arbitrary: start) (auto simp: rbind_def split: sum.splits)

lemma resolve_from_directory:
  assumes s: "sound db" and c: "c \<in> set (nodes db)" and "resolve c rest db = Inr d" "n_kind d = Directory"
  shows "n_kind c = Directory"
proof (cases rest)
  case Nil
  with assms show ?thesis by simp
next
  case (Cons x xs)
  then obtain e where e: "child (n_id c) x db = Some e" using assms(3) by (auto simp: rbind_eq_Inr)
  from tree_rows_hangs [OF soundD(7) [OF s] child_Some(1) [OF e] c] child_Some(2) [OF e]
  show ?thesis by (simp add: hangs_def)
qed

lemma resolve_kept:
  assumes s: "sound db" and s': "sound db'" and keep: "\<And>m. m \<in> set (nodes db) \<Longrightarrow> n_kind m = Directory \<Longrightarrow> m \<in> set (nodes db')"
  shows "resolve start path db = Inr d \<Longrightarrow> n_kind d = Directory \<Longrightarrow> resolve start path db' = Inr d"
proof (induction path arbitrary: start)
  case (Cons x path)
  then obtain c where c: "child (n_id start) x db = Some c" "resolve c path db = Inr d" by (auto simp: rbind_eq_Inr)
  note ch = child_Some [OF c(1)]
  have "n_kind c = Directory" by (rule resolve_from_directory [OF s ch(1) c(2) Cons.prems(2)])
  with keep ch have "child (n_id start) x db' = Some c" by (intro child_unique [OF s']) auto
  with Cons c show ?case by simp
qed simp

lemma create_step:
  assumes s: "sound db" and h: "home owner (n_id cur) db"
    and m: "(case child (n_id cur) segment db of
         Some existing \<Rightarrow> (if n_kind existing = Directory then Inr (existing, db)
           else Inl (Conflict (as_str segment)))
       | None \<Rightarrow> insert_directory C now owner (n_id cur) segment db) = Inr (m, db1)"
  shows "sound db1" "m \<in> set (nodes db1)" "n_parent m = Some (n_id cur)" "n_name m = as_str segment" "live m"
    and "home owner (n_id m) db1"
proof -
  have r: "sound db1 \<and> m \<in> set (nodes db1) \<and> n_parent m = Some (n_id cur) \<and> n_name m = as_str segment \<and> live m
      \<and> n_kind m = Directory \<and> (\<exists>ns. nodes db1 = nodes db @ ns)"
  proof (cases "child (n_id cur) segment db")
    case None
    with m have i: "insert_directory C now owner (n_id cur) segment db = Inr (m, db1)" by simp
    show ?thesis using insert_directory_sound [OF s h i] by blast
  next
    case (Some e)
    with m have "db1 = db" "m = e" "n_kind e = Directory" by (auto split: if_splits)
    with child_Some [OF Some] s show ?thesis by auto
  qed
  then show "sound db1" "m \<in> set (nodes db1)" "n_parent m = Some (n_id cur)" "n_name m = as_str segment" "live m"
    by blast+
  from r obtain ns where ns: "nodes db1 = nodes db @ ns" by blast
  have "n_owner m = owner" using child_owner [of db1 owner "n_id cur" m] home_append [OF h ns] r by blast
  with homeI [of db1 m] r show "home owner (n_id m) db1" by blast
qed

lemma create_segments_resolve:
  "create_segments C now owner cur path db = Inr (d, db') \<Longrightarrow> sound db \<Longrightarrow> home owner (n_id cur) db \<Longrightarrow>
   cur \<in> set (nodes db) \<Longrightarrow> resolve cur path db' = Inr d"
proof (induction C now owner cur path db rule: create_segments.induct)
  case (2 C now owner cur segment rest db)
  from 2(2) obtain m db1 where m: "(case child (n_id cur) segment db of
         Some existing \<Rightarrow> (if n_kind existing = Directory then Inr (existing, db)
           else Inl (Conflict (as_str segment)))
       | None \<Rightarrow> insert_directory C now owner (n_id cur) segment db) = Inr (m, db1)"
    and rest: "create_segments C now owner m rest db1 = Inr (d, db')"
    by (auto simp: rbind_eq_Inr)
  note st = create_step [OF 2(3,4) m]
  note cs = create_segments_sound [OF rest st(1,6,2)]
  have "m \<in> set (nodes db')" using cs st(2) by auto
  then have "child (n_id cur) segment db' = Some m" using child_unique cs st(3-5) by blast
  with 2(1) [OF rest st(1,6,2)] show ?case by simp
qed simp

lemma ensure_root_again:
  assumes s: "sound db" and root: "root \<in> set (nodes db)" "live root" "n_parent root = None" "n_owner root = owner"
    and q: "0 < quota"
  obtains db' where "ensure_root C now owner quota db = Inr (root, db')" "nodes db' = nodes db"
proof -
  have "owner \<in> set (map u_id (users db))"
    using soundD(5) [OF s] root by (auto simp: nodes_ok_def nodes_violation_None)
  then have "\<exists>db1. insert_quota owner quota db = Inr db1"
    using q by (cases "owner \<in> set (map q_owner (quotas db))") (simp_all add: insert_quota_def)
  then obtain db1 where i: "insert_quota owner quota db = Inr db1" by blast
  note i1 = insert_quota_sound [OF s i]
  let ?db3 = "snd (now_v7 (snd (now_v7 db1)))"
  let ?n = "\<lparr>n_id = uuids db1 0, n_owner = owner, n_parent = None, n_name = [], n_kind = Directory,
    n_blob = None, n_size = 0, n_etag = quoted (uuid_simple C (uuids (snd (now_v7 db1)) 0)), n_created = now,
    n_updated = now, n_deleted = None, n_trash_root = None\<rparr>"
  let ?roots = "\<lambda>ns. filter (\<lambda>n. live n \<and> n_parent n = None) ns"
  have r1: "root \<in> set (?roots (nodes db1))" using root i1(2) by simp
  have "\<not> distinct (map n_owner (?roots (nodes db1 @ [?n])))" using r1 root(4) by (auto simp: live_def)
  moreover have "list_all node_checks (nodes db1 @ [?n])"
    using soundD(5) [OF i1(1)] by (auto simp: nodes_ok_def nodes_violation_None node_checks_def)
  ultimately have "\<exists>c. nodes_violation us hs (nodes db1 @ [?n]) = Some (UniqueViolation c)" for us hs
    by (auto simp: nodes_violation_def)
  then obtain c where c: "insert_node ?n ?db3 = Inl (UniqueViolation c)"
    by (auto simp: insert_node_def store_nodes_def) (metis option.simps(5))
  obtain x where x: "find (\<lambda>n. n_owner n = owner \<and> n_parent n = None \<and> live n) (nodes db1) = Some x"
    using r1 root(4) find_None_set [of _ "nodes db1"] by fastforce
  have "distinct (map n_owner (?roots (nodes db1)))"
    using soundD(5) [OF i1(1)] by (simp add: nodes_ok_def nodes_violation_None)
  from distinct_key_eq [OF this, of x root] find_Some_set [OF x] r1 root(4) have "x = root" by simp
  then have "ensure_root C now owner quota db = Inr (root, ?db3)"
    using i c x by (simp add: ensure_root_def case_prod_unfold Let_def)
  then show thesis using that i1(2) by simp
qed


lemma mount_named_again:
  assumes "mount_named email x db = Inr (m, f)" and "grants db' = grants db" and "sound db'"
    and "n \<in> set (nodes db')" "live n" "n_id n = n_id f"
  shows "mount_named email x db' = Inr (m, n)"
proof -
  from assms(1) obtain g where g: "find (\<lambda>g. g_email g = email \<and> g_mount_name g = as_str x) (grants db) = Some g"
    and f: "live_node (g_node g) db = Some f" and m: "m = as_mount g"
    by (auto simp: mount_named_def rbind_eq_Inr)
  have "live_node (g_node g) db' = Some n"
    using live_node_eq [OF assms(3-5)] live_node_Some [OF f] assms(6) by simp
  then show ?thesis using g assms(2) by (simp add: mount_named_def m)
qed

text \<open>The directory a write made is where a lookup starts from, and stays there after the write.\<close>

lemma directory_for_write_reached:
  assumes s: "sound db" and d: "directory_for_write C now u path True quota db = Inr (dir, db1)"
  obtains (shelf) m x rest start where "path \<noteq> []" "is_shelf (hd path)" "tl path = x # rest"
      "mount_named (u_email u) x db = Inr (m, start)" "start \<in> set (nodes db1)" "live start"
      "n_kind start = Directory" "resolve start rest db1 = Inr dir"
    | (own) root where "path = [] \<or> \<not> is_shelf (hd path)" "root \<in> set (nodes db1)" "live root"
      "n_parent root = None" "n_owner root = u_id u" "n_kind root = Directory" "0 < quota"
      "resolve root path db1 = Inr dir"
proof -
  have go: "resolve start rest db1 = Inr dir" "start \<in> set (nodes db1)" "n_kind start = Directory"
    if cd: "create_directories C now (n_owner start) start rest db2 = Inr (dir, db1)"
      and s2: "sound db2" and st: "start \<in> set (nodes db2)" "live start" and k: "n_kind dir = Directory" for start rest db2
  proof -
    have sd: "n_kind start = Directory" using cd k by (auto simp: create_directories_def split: if_splits)
    have h: "home (n_owner start) (n_id start) db2" by (rule homeI [OF s2 st sd])
    have cs: "create_segments C now (n_owner start) start rest db2 = Inr (dir, db1)"
      using cd by (simp add: create_directories_def split: if_splits)
    show "resolve start rest db1 = Inr dir" by (rule create_segments_resolve [OF cs s2 h st(1)])
    show "start \<in> set (nodes db1)" using create_segments_sound [OF cs s2 h st(1)] st(1) by auto
    show "n_kind start = Directory" by (rule sd)
  qed
  show thesis
  proof (cases "path \<noteq> [] \<and> is_shelf (hd path)")
    case True
    with d obtain x rest m start where t: "tl path = x # rest"
      and mn: "mount_named (u_email u) x db = Inr (m, start)"
      and cd: "create_directories C now (n_owner start) start rest db = Inr (dir, db1)" and k: "n_kind dir = Directory"
      by (auto simp: directory_for_write_def rbind_eq_Inr split: list.splits if_splits)
    note mo = mount_named_Inr [OF mn]
    note r = go [OF cd s mo(2,3) k]
    show thesis by (rule shelf [OF _ _ t mn r(2) mo(3) r(3,1)]) (use True in simp_all)
  next
    case False
    then obtain root db2 where er: "ensure_root C now (u_id u) quota db = Inr (root, db2)"
      and cd: "create_directories C now (n_owner root) root path db2 = Inr (dir, db1)" and k: "n_kind dir = Directory"
      using d by (auto simp: directory_for_write_def rbind_eq_Inr split: if_splits)
    note es = ensure_root_sound [OF s er] and eg = ensure_root_grants [OF er]
    have q: "0 < quota" using er by (auto simp: ensure_root_def insert_quota_def rbind_eq_Inr split: if_splits)
    note r = go [OF cd es(1,3) eg(3) k]
    show thesis by (rule own [OF _ r(2) eg(3) es(4) eg(2) r(3) q r(1)]) (use False in simp)
  qed
qed

lemma resolve_same_nodes: "nodes db' = nodes db \<Longrightarrow> resolve start path db' = resolve start path db"
  by (induction path arbitrary: start) (simp_all add: child_def)

lemma resolve_child: "resolve d [x] db = Inr n \<longleftrightarrow> child (n_id d) x db = Some n"
  by (auto simp: rbind_eq_Inr)

lemma locate_after_put:
  assumes s: "sound db" and path: "path \<noteq> []" and t: "file_target C now u path True quota db = Inr (dir, name, db1)"
    and p: "put_file C now (n_owner dir) dir name h bytes kept db1 = Inr (n, db2)"
  shows "\<exists>place db3 nm. locate C now' u path quota db2 = Inr (place, db3) \<and> into_node place = Inr (n\<lparr>n_name := nm\<rparr>)"
proof -
  note ft = file_target_sound [OF s t] and pr = put_file_rows [OF _ _ p]
  note pf = put_file_sound [OF ft(1,3) p] and ch = child_Some [OF put_file_sound(2) [OF ft(1,3) p]]
  have g: "grants db2 = grants db" using put_file_apart [OF p] ft(2) by (simp add: apart_def)
  note keep = put_file_rows(1) [OF ft(1,3) p]
  show ?thesis
  proof (cases "length path = 2 \<and> is_shelf (hd path)")
    case True
    then obtain a x where px: "path = [a, x]" by (cases path; cases "tl path") auto
    from t True obtain m f where mn: "mount_named (u_email u) x db = Inr (m, f)" and up: "n_parent f = Some (n_id dir)"
      and nm: "node_name_from_str (n_name f) = Inr name" and e: "db1 = db"
      by (auto simp: file_target_def px rbind_eq_Inr dest: live_node_Some split: if_splits)
    note mo = mount_named_Inr [OF mn]
    have "n_name f = as_str name" using nm by (auto simp: node_name_from_str_def split: if_splits)
    then have "child (n_id dir) name db1 = Some f" using child_unique [OF s mo(2) up] mo(3) by (simp add: e)
    then have "n_id n = n_id f" using put_file_rows(2) [OF ft(1,3) p] by simp
    from mount_named_again [OF mn g pf(1) ch(1,4) this] True show ?thesis
      by (auto simp: locate_def px)
  next
    case False
    with t path have d: "directory_for_write C now u (butlast path) True quota db = Inr (dir, db1)"
      and rr: "refuse_reserved dir (last path) = Inr ()" and nm: "name = last path"
      by (auto simp: file_target_def rbind_eq_Inr split: if_splits)
    have kd: "n_kind dir = Directory" by (rule directory_for_write_sound(6) [OF s d])
    have to: "resolve start (rest @ [last path]) db2 = Inr n" if "resolve start rest db1 = Inr dir" for start rest
      using resolve_kept [OF ft(1) pf(1) keep that kd] pf(2) nm by (simp add: resolve_append)
    have split: "path = butlast path @ [last path]" using path by simp
    from s d show ?thesis
    proof (cases rule: directory_for_write_reached)
      case (shelf m x rest start)
      have tl: "tl path = x # (rest @ [last path])" "hd path = hd (butlast path)"
        using shelf(1,3) by (subst split, simp)+
      have "mount_named (u_email u) x db2 = Inr (m, start)"
        by (rule mount_named_again [OF shelf(4) g pf(1) keep [OF shelf(5,7)] shelf(6) refl])
      then have "locate C now' u path quota db2 = Inr (Shared n m False, db2)"
        using to [OF shelf(8)] shelf(2) path tl by (simp add: locate_def)
      moreover have "into_node (Shared n m False) = Inr (n\<lparr>n_name := n_name n\<rparr>)" by simp
      ultimately show ?thesis by blast
    next
      case (own root)
      have "\<not> is_shelf (hd path)"
      proof (cases "butlast path")
        case Nil
        then have "dir = root" "hd path = last path" using own(8) split by (auto, metis append_Nil list.sel(1))
        with rr own(4) show ?thesis by (auto simp: refuse_reserved_def split: if_splits)
      next
        case (Cons y ys)
        then have "hd path = y" by (subst split) simp
        with own(1) Cons show ?thesis by simp
      qed
      moreover obtain db3 where "ensure_root C now' (u_id u) quota db2 = Inr (root, db3)" "nodes db3 = nodes db2"
        by (rule ensure_root_again [OF pf(1) keep [OF own(2,6)] own(3-5,7)])
      moreover have "resolve root path db2 = Inr n" using to [OF own(8)] path by simp
      ultimately have "locate C now' u path quota db2 = Inr (Own n, db3)"
        by (simp add: locate_def resolve_same_nodes [of db3 db2])
      moreover have "into_node (Own n) = Inr (n\<lparr>n_name := n_name n\<rparr>)" by simp
      ultimately show ?thesis by blast
    qed
  qed
qed


section \<open>A put that succeeds\<close>

text \<open>The sample account puts three bytes where there is nothing yet, and says so.\<close>

definition sample_state :: app_state where
  "sample_state = \<lparr>default_quota_bytes = 1000, versions_kept = 2, trash_retention = None, session_ttl = 60\<rparr>"

definition sample_world :: world where
  "sample_world = \<lparr>w_db = sample, w_files = []\<rparr>"

definition new_only :: headers where
  "new_only name = (if name = ''if-none-match'' then Some ''*'' else None)"

definition sample_written :: written where
  "sample_written = \<lparr>wr_hash = [120, 121, 122], wr_size = 3, wr_deduplicated = False, wr_staged = None\<rparr>"

definition sample_stored :: files where
  "sample_stored = [([''xy'', ''z'', ''xyz''], \<lparr>f_bytes = ''xyz'', f_modified = 5\<rparr>)]"

definition sample_received :: db where
  "sample_received = sample\<lparr>blobs := [sample_blob,
     \<lparr>b_hash = [120, 121, 122], b_size = 3, b_refs = 0, b_created = 5, b_unreferenced = Some 5\<rparr>]\<rparr>"

lemma sample_path: "parse_path ''a/g'' = Inr [NodeName ''a'', NodeName ''g'']"
  by code_simp

lemma new_only_absent: "precondition_of new_only = Absent"
  by code_simp

lemma sample_receive:
  "receive sample_crates 5 ''t'' new_only [Inr ''xyz''] 995 sample_world
     = (Inr (sample_written, 3), \<lparr>w_db = sample_received, w_files = sample_stored\<rparr>)"
proof -
  have "local_write sample_crates 5 ''t'' [Inr ''xyz''] [] = (Inr sample_written, sample_stored)" by code_simp
  moreover have "upload_within 995 [Inr ''xyz''] = [Inr ''xyz'']" by (simp add: upload_within_def Let_def)
  moreover have "register_blob 5 [120, 121, 122] 3 sample = Inr sample_received"
    by (simp add: register_blob_def insert_blob_def sample_received_def sample_def sample_blob_def)
  ultimately show ?thesis
    by (simp add: receive_def declared_length_def new_only_def sample_world_def sample_written_def)
qed

lemma sample_put:
  "\<exists>etag n w'. put sample_crates sample_state 5 ''t'' sample_user ''a/g'' new_only [Inr ''xyz''] sample_world
     = (Inr (etag, n), w')"
proof -
  have r: "put_room sample_crates sample_state 5 sample_user [NodeName ''a'', NodeName ''g''] Absent sample = Inr 995"
    by code_simp
  have "\<not> isl (put_commit sample_crates sample_state 5 sample_user [NodeName ''a'', NodeName ''g''] Absent
      sample_written 3 sample_received)" by code_simp
  then obtain n db2 where p: "put_commit sample_crates sample_state 5 sample_user [NodeName ''a'', NodeName ''g'']
      Absent sample_written 3 sample_received = Inr (n, db2)" using ok_pair by blast
  have "header_value sample_crates t = Some t" for t by (simp add: sample_crates_def)
  then show ?thesis
    by (simp add: put_def path_segments_def sample_path new_only_absent r p etag_header_def
        sample_receive [unfolded sample_world_def] sample_world_def)
qed

section \<open>Properties\<close>

lemma put_Inr:
  assumes "put C st now tmp_name u path headers body w = (Inr (etag, n), w')"
  obtains ns limit wr bytes w1 db2 where "parse_path path = Inr ns" "ns \<noteq> []"
    "put_room C st now u ns (precondition_of headers) (w_db w) = Inr limit"
    "receive C now tmp_name headers body limit w = (Inr (wr, bytes), w1)"
    "put_commit C st now u ns (precondition_of headers) wr bytes (w_db w1) = Inr (n, db2)"
    "header_value C (n_etag n) = Some etag" "w' = \<lparr>w_db = db2, w_files = local_settle C wr (w_files w1)\<rparr>"
proof -
  obtain ns where ns: "parse_path path = Inr ns" "ns \<noteq> []" "path_segments path = Inr ns"
    using assms by (auto simp: put_def path_segments_Inr split: sum.splits if_splits)
  obtain limit where r: "put_room C st now u ns (precondition_of headers) (w_db w) = Inr limit"
    using assms ns by (auto simp: put_def split: sum.splits)
  obtain wr bytes w1 where rc: "receive C now tmp_name headers body limit w = (Inr (wr, bytes), w1)"
    using assms ns r by (auto simp: put_def split: sum.splits prod.splits)
  obtain m db2 where c: "put_commit C st now u ns (precondition_of headers) wr bytes (w_db w1) = Inr (m, db2)"
    using assms ns r rc by (auto simp: put_def split: sum.splits)
  have "m = n" "header_value C (n_etag n) = Some etag" "w' = \<lparr>w_db = db2, w_files = local_settle C wr (w_files w1)\<rparr>"
    using assms ns r rc c by (auto simp: put_def etag_header_def rbind_eq_Inr)
  with that [OF ns(1,2) r rc] c show thesis by blast
qed

text \<open>
  C35. What is put is what is read back: after a put that succeeded, the same account reads at the same
  path, in its own tree or in what is shared with it, exactly the bytes that came in, under the
  tag that was answered.
\<close>

theorem put_then_get:
  assumes "sound (w_db w)" and "collision_free C" and "content_addressed C (w_files w)"
    and "put C st now tmp_name u path headers body w = (Inr (etag, n), w')"
  shows "\<exists>c w''. get C st now' u path w' = (Inr c, w'') \<and> drain body = Inr (c_body c)
    \<and> (''etag'', etag) \<in> set (c_headers c)"
proof -
  obtain ns limit wr bytes w1 db2 where ns: "parse_path path = Inr ns" "ns \<noteq> []"
    and rc: "receive C now tmp_name headers body limit w = (Inr (wr, bytes), w1)"
    and pc: "put_commit C st now u ns (precondition_of headers) wr bytes (w_db w1) = Inr (n, db2)"
    and et: "header_value C (n_etag n) = Some etag"
    and w': "w' = \<lparr>w_db = db2, w_files = local_settle C wr (w_files w1)\<rparr>"
    by (rule put_Inr [OF assms(4)])
  obtain wt: "local_write C now tmp_name (upload_within limit body) (w_files w) = (Inr wr, w_files w1)"
    and rb: "register_blob now (wr_hash wr) bytes (w_db w) = Inr (w_db w1)" by (rule receive_Inr [OF rc])
  from local_store.written_reads [OF assms(2,3) wt] obtain b where
    b: "drain (upload_within limit body) = Inr b" "local_read C (wr_hash wr) (w_files w') = Inr b" by (auto simp: w')
  have db: "drain body = Inr b" by (rule drain_within_Inr [OF b(1) [unfolded upload_within_def]])
  have s1: "sound (w_db w1)" using register_blob_sound [OF assms(1) rb] by simp
  obtain dir name db1 where t: "file_target C now u ns True (default_quota_bytes st) (w_db w1) = Inr (dir, name, db1)"
    and pf: "put_file C now (n_owner dir) dir name (wr_hash wr) bytes (versions_kept st) db1 = Inr (n, db2)"
    using pc by (auto simp: put_commit_def rbind_eq_Inr)
  obtain place db3 nm where l: "locate C now' u ns (default_quota_bytes st) db2 = Inr (place, db3)"
    "into_node place = Inr (n\<lparr>n_name := nm\<rparr>)" using locate_after_put [OF s1 ns(2) t pf] by blast
  note ft = file_target_sound [OF s1 t] and fs = put_file_sound(3,4) [OF file_target_sound(1,3) [OF s1 t] pf]
  have "with_db (located C st now' u path) w' = (Inr place, w'\<lparr>w_db := db3\<rparr>)"
    using l(1) ns(1) by (simp add: with_db_def located_def path_segments_def transact_def w')
  then show ?thesis using l(2) fs et b(2) db
    by (auto simp: get_def bytes_of_def etag_header_def blob_bytes_def w')
qed

theorem put_then_get_witness:
  "\<exists>etag n w' c w''. put sample_crates sample_state 5 ''t'' sample_user ''a/g'' new_only [Inr ''xyz''] sample_world
      = (Inr (etag, n), w')
    \<and> get sample_crates sample_state 6 sample_user ''a/g'' w' = (Inr c, w'') \<and> c_body c = ''xyz''"
proof -
  obtain etag n w' where p: "put sample_crates sample_state 5 ''t'' sample_user ''a/g'' new_only [Inr ''xyz'']
      sample_world = (Inr (etag, n), w')" using sample_put by blast
  have "sound (w_db sample_world)" "content_addressed sample_crates (w_files sample_world)"
    using sample_sound by (simp_all add: sample_world_def content_addressed_def)
  from put_then_get [OF this(1) sample_collision_free this(2) p] obtain c w'' where
    g: "get sample_crates sample_state 6 sample_user ''a/g'' w' = (Inr c, w'')" "drain [Inr ''xyz''] = Inr (c_body c)" by blast
  moreover have "drain [Inr ''xyz''] = Inr ''xyz''" by simp
  ultimately have "c_body c = ''xyz''" by simp
  with p g(1) show ?thesis by blast
qed

text \<open>Finding the place of a file creates directories at most.\<close>

lemma file_target_files:
  assumes s: "sound db" and t: "file_target C now u path create quota db = Inr (dir, name, db')"
    and m: "m \<in> set (nodes db')" "n_kind m = File"
  shows "m \<in> set (nodes db)"
proof -
  have ins: "x \<in> set (nodes d)" if "insert_directory C now owner i nm d = Inr (k, d')" "x \<in> set (nodes d')" "n_kind x = File"
    for C now owner i nm d k d' x
    using that by (auto simp: insert_directory_def case_prod_unfold Let_def insert_node_def store_nodes_eq_Inr
        split: sum.splits if_splits option.splits)
  have seg: "x \<in> set (nodes d)" if "create_segments C now owner cur p d = Inr (k, d')" "x \<in> set (nodes d')" "n_kind x = File"
    for C now owner cur p d k d' x
    using that
  proof (induction C now owner cur p d rule: create_segments.induct)
    case (2 C now owner cur segment rest d)
    then show ?case
      by (auto simp: rbind_eq_Inr split: option.splits if_splits) (blast dest: ins)
  qed simp
  have er: "x \<in> set (nodes d)" if e: "ensure_root C now owner q d = Inr (r, d')" and x: "x \<in> set (nodes d')" "n_kind x = File"
    for owner q d r d' x
  proof -
    obtain d1 where d1: "insert_quota owner q d = Inr d1" "nodes d1 = nodes d"
      using e by (auto simp: ensure_root_def rbind_eq_Inr insert_quota_def split: if_splits)
    then show ?thesis using e x
      by (auto simp: ensure_root_def rbind_eq_Inr case_prod_unfold Let_def insert_node_def store_nodes_eq_Inr
          split: sum.splits db_error.splits)
  qed
  have dw: "m \<in> set (nodes db)" if "directory_for_write C now u p create quota db = Inr (d, db')" for p d
    using that m by (auto simp: directory_for_write_def create_directories_def rbind_eq_Inr dest: seg er
        split: if_splits list.splits)
  show ?thesis using t m by (auto simp: file_target_def rbind_eq_Inr dest: dw split: if_splits)
qed

lemma file_target_appends:
  assumes "sound db" and "file_target C now u path create quota db = Inr (dir, name, db')"
  shows "\<exists>ns. nodes db' = nodes db @ ns"
  using assms directory_for_write_sound(2) [OF assms(1)]
  by (auto simp: file_target_def rbind_eq_Inr split: if_splits)

text \<open>
  C36. A put with a condition changes only what the condition allows: with \<open>If-None-Match: *\<close> it
  makes a new file and never overwrites one; with \<open>If-Match\<close> it overwrites a file that was there,
  under a tag that the client named.
\<close>

theorem put_respects_precondition:
  assumes "sound (w_db w)" and "put C st now tmp_name u path headers body w = (Inr (etag, n), w')"
  shows "case precondition_of headers of
      Unconditional \<Rightarrow> True
    | Exists \<Rightarrow> n_id n \<in> n_id ` set (nodes (w_db w))
    | Absent \<Rightarrow> n_id n \<notin> n_id ` set (nodes (w_db w))
    | Matches tags \<Rightarrow> \<exists>m\<in>set (nodes (w_db w)). n_id m = n_id n \<and> live m \<and> n_etag m \<in> set tags"
proof -
  obtain ns limit wr bytes w1 db2 where ns: "parse_path path = Inr ns" "ns \<noteq> []"
    and rc: "receive C now tmp_name headers body limit w = (Inr (wr, bytes), w1)"
    and pc: "put_commit C st now u ns (precondition_of headers) wr bytes (w_db w1) = Inr (n, db2)"
    by (rule put_Inr [OF assms(2)])
  obtain wt: "register_blob now (wr_hash wr) bytes (w_db w) = Inr (w_db w1)" by (rule receive_Inr [OF rc])
  from register_blob_sound [OF assms(1) wt] have s1: "sound (w_db w1)" and n1: "nodes (w_db w1) = nodes (w_db w)"
    by simp_all
  obtain dir name db1 where t: "file_target C now u ns True (default_quota_bytes st) (w_db w1) = Inr (dir, name, db1)"
    and ck: "check_precondition (precondition_of headers) (child (n_id dir) name db1) = Inr ()"
    and pf: "put_file C now (n_owner dir) dir name (wr_hash wr) bytes (versions_kept st) db1 = Inr (n, db2)"
    using pc by (auto simp: put_commit_def rbind_eq_Inr)
  note ft = file_target_sound [OF s1 t] and ap = file_target_appends [OF s1 t]
  note pr = put_file_rows(2) [OF ft(1,3) pf]
  have found: "m \<in> set (nodes (w_db w)) \<and> n_id m = n_id n \<and> live m" if "child (n_id dir) name db1 = Some m" for m
    using file_target_files [OF s1 t child_Some(1) [OF that]] pr child_Some(4) [OF that] that n1 by simp
  show ?thesis
  proof (cases "child (n_id dir) name db1")
    case None
    with pr have "n_id n \<notin> n_id ` set (nodes (w_db w))" using ap n1 by auto
    with ck None show ?thesis by (auto simp: check_precondition_Inr split: precondition.splits)
  next
    case (Some m)
    with found [OF Some] ck show ?thesis
      by (auto simp: check_precondition_Inr rev_image_eqI [of m] split: precondition.splits)
  qed
qed


theorem put_respects_precondition_witness:
  "\<exists>etag n w'. put sample_crates sample_state 5 ''t'' sample_user ''a/g'' new_only [Inr ''xyz''] sample_world
      = (Inr (etag, n), w') \<and> n_id n \<notin> n_id ` set (nodes sample)"
proof -
  obtain etag n w' where p: "put sample_crates sample_state 5 ''t'' sample_user ''a/g'' new_only [Inr ''xyz'']
      sample_world = (Inr (etag, n), w')" using sample_put by blast
  have "sound (w_db sample_world)" using sample_sound by (simp add: sample_world_def)
  from put_respects_precondition [OF this p] p show ?thesis
    by (auto simp: new_only_absent sample_world_def)
qed

end
