(* ===== verification/Shares.thy ===== *)
theory Shares
  imports Files
begin

text \<open>
  Public links: \<open>api/src/shares.rs\<close>, \<open>crates/core/src/share.rs\<close>, the table \<open>shares\<close> and the handlers of
  \<open>routes/shares.rs\<close>. A link is found by the digest of its token; the lemmas state what a link opens
  and when it no longer does.
\<close>

section \<open>Operations\<close>

record listed_share =
  sh_id :: uuid
  sh_node :: uuid
  sh_name :: string
  sh_has_password :: bool
  sh_expires :: "timestamp option"
  sh_created :: timestamp
  sh_last_used :: "timestamp option"

definition shares_violation :: "db \<Rightarrow> share list \<Rightarrow> db_error option" where
  "shares_violation db ss =
     (if \<not> distinct (map s_id ss) then Some (UniqueViolation ''shares_pkey'')
      else if \<not> distinct (map s_token_hash ss) then Some (UniqueViolation ''shares_token_hash_key'')
      else if \<not> list_all (\<lambda>s. s_node s \<in> set (map n_id (nodes db))) ss
        then Some (ForeignKeyViolation ''shares_node_id_fkey'')
      else if \<not> list_all (\<lambda>s. s_created_by s \<in> set (map u_id (users db))) ss
        then Some (ForeignKeyViolation ''shares_created_by_fkey'')
      else None)"

definition shares_ok :: "db \<Rightarrow> bool" where
  "shares_ok db \<longleftrightarrow> shares_violation db (shares db) = None"

definition store_shares :: "share list \<Rightarrow> db \<Rightarrow> db_error + db" where
  "store_shares ss db = (case shares_violation db ss of Some e \<Rightarrow> Inl e | None \<Rightarrow> Inr (db\<lparr>shares := ss\<rparr>))"

definition share_password :: "crates \<Rightarrow> string \<Rightarrow> string option \<Rightarrow> api_error + string option" where
  "share_password C salt password =
     (case password of
        None \<Rightarrow> Inr None
      | Some secret \<Rightarrow>
          rbind (map_err WeakPassword (check_strength secret MIN_SHARE_PASSWORD_LEN)) (\<lambda>_.
          rbind (password_hash C salt secret) (\<lambda>h. Inr (Some h))))"

text \<open>The bytes are what the operating system's randomness fills in; the token is shown once.\<close>

definition mint ::
    "crates \<Rightarrow> nat list \<Rightarrow> string \<Rightarrow> timestamp \<Rightarrow> uuid \<Rightarrow> node \<Rightarrow> timestamp option \<Rightarrow> string option \<Rightarrow> db
      \<Rightarrow> api_error + (listed_share \<times> string) \<times> db" where
  "mint C random salt now created_by n expires password db =
     (if (case expires of Some t \<Rightarrow> t \<le> now | None \<Rightarrow> False) then Inl (WrongKind ''expiry in the future'')
      else rbind (share_password C salt password) (\<lambda>hash.
        let token = hex_bytes random;
            (i, db1) = now_v7 db;
            s = \<lparr>s_id = i, s_node = n_id n, s_created_by = created_by, s_token_hash = fingerprint C token,
                 s_password_hash = hash, s_expires = expires, s_created = now, s_last_used = None, s_revoked = None\<rparr>
        in rbind (map_err Database (store_shares (shares db1 @ [s]) db1)) (\<lambda>db2.
             Inr ((\<lparr>sh_id = i, sh_node = n_id n, sh_name = n_name n, sh_has_password = (hash \<noteq> None),
                    sh_expires = expires, sh_created = now, sh_last_used = None\<rparr>, token), db2))))"

definition list_shares :: "uuid \<Rightarrow> db \<Rightarrow> listed_share list" where
  "list_shares created_by db = List.map_filter (\<lambda>s. map_option (\<lambda>n.
       \<lparr>sh_id = s_id s, sh_node = s_node s, sh_name = n_name n, sh_has_password = (s_password_hash s \<noteq> None),
        sh_expires = s_expires s, sh_created = s_created s, sh_last_used = s_last_used s\<rparr>)
       (find_node (nodes db) (s_node s)))
     (rev (sort_key s_created (filter (\<lambda>s. s_created_by s = created_by \<and> s_revoked s = None) (shares db))))"

definition revoke_share :: "timestamp \<Rightarrow> uuid \<Rightarrow> uuid \<Rightarrow> db \<Rightarrow> api_error + db" where
  "revoke_share now created_by i db =
     (let mine = (\<lambda>s. s_id s = i \<and> s_created_by s = created_by \<and> s_revoked s = None) in
      if \<not> list_ex mine (shares db) then Inl NotFound
      else Inr (db\<lparr>shares := map (\<lambda>s. if mine s then s\<lparr>s_revoked := Some now\<rparr> else s) (shares db)\<rparr>))"

definition touch_share :: "timestamp \<Rightarrow> uuid \<Rightarrow> db \<Rightarrow> db" where
  "touch_share now i db = db\<lparr>shares := map (\<lambda>s.
     if s_id s = i \<and> stale now (s_last_used s) then s\<lparr>s_last_used := Some now\<rparr> else s) (shares db)\<rparr>"

text \<open>The row a token opens, if it opens one.\<close>

definition in_force :: "crates \<Rightarrow> timestamp \<Rightarrow> string \<Rightarrow> db \<Rightarrow> share \<Rightarrow> bool" where
  "in_force C now token db s \<longleftrightarrow> s_token_hash s = fingerprint C token \<and> s_revoked s = None
     \<and> (case s_expires s of None \<Rightarrow> True | Some t \<Rightarrow> now < t)
     \<and> (case by_id (s_created_by s) db of None \<Rightarrow> False | Some u \<Rightarrow> u_disabled u = None)
     \<and> live_node (s_node s) db \<noteq> None"

text \<open>
  A guess at a password is counted before it is looked at; a visitor who gives none has guessed
  nothing.
\<close>

definition check_share_password ::
    "crates \<Rightarrow> timestamp \<Rightarrow> string \<Rightarrow> string option \<Rightarrow> string option \<Rightarrow> db \<Rightarrow> unit answer" where
  "check_share_password C now token expected presented db =
     (case expected of
        None \<Rightarrow> (Inr (), db)
      | Some hash \<Rightarrow>
          (case presented of
             None \<Rightarrow> (Inl SharePassword, db)
           | Some secret \<Rightarrow>
               and_then (execute (spend now Share (fingerprint C token)) db) (\<lambda>_ db1.
                 if \<not> password_verify C secret hash then (Inl SharePassword, db1)
                 else (Inr (), forget_attempts Share (fingerprint C token) db1))))"

definition open_share :: "crates \<Rightarrow> timestamp \<Rightarrow> string \<Rightarrow> string option \<Rightarrow> db \<Rightarrow> node answer" where
  "open_share C now token presented db =
     (case find (in_force C now token db) (shares db) of
        None \<Rightarrow> (Inl NotFound, db)
      | Some s \<Rightarrow> and_then (check_share_password C now token (s_password_hash s) presented db) (\<lambda>_ db1.
          case live_node (s_node s) db1 of
            None \<Rightarrow> (Inl NotFound, db1)
          | Some n \<Rightarrow> (Inr n, touch_share now (s_id s) db1)))"

section \<open>Handlers\<close>

definition create_share ::
    "crates \<Rightarrow> app_state \<Rightarrow> nat list \<Rightarrow> string \<Rightarrow> timestamp \<Rightarrow> user \<Rightarrow> string \<Rightarrow> timestamp option \<Rightarrow> string option \<Rightarrow> db
      \<Rightarrow> (listed_share \<times> string) answer" where
  "create_share C st random salt now u path expires password db =
     (case path_segments path of
        Inl e \<Rightarrow> (Inl e, db)
      | Inr names \<Rightarrow>
          if names = [] then (Inl (WrongKind ''path below the root''), db)
          else transact (\<lambda>db.
            rbind (locate C now u names (default_quota_bytes st) db) (\<lambda>(place, db1).
              case place of
                Own n \<Rightarrow> mint C random salt now (u_id u) n expires password db1
              | _ \<Rightarrow> Inl Forbidden)) db)"

definition shares_handler :: "user \<Rightarrow> db \<Rightarrow> listed_share list" where
  "shares_handler u db = list_shares (u_id u) db"

definition revoke_handler :: "timestamp \<Rightarrow> user \<Rightarrow> uuid \<Rightarrow> db \<Rightarrow> unit answer" where
  "revoke_handler now u i = execute (revoke_share now (u_id u) i)"

text \<open>A path walks down from what the link was minted for; the password is the bytes of its header.\<close>

definition resolve_link ::
    "crates \<Rightarrow> timestamp \<Rightarrow> string \<Rightarrow> node_name list \<Rightarrow> string option \<Rightarrow> db \<Rightarrow> node answer" where
  "resolve_link C now token path header db =
     and_then (open_share C now token (Option.bind header from_utf8) db) (\<lambda>n db1.
       if path = [] then (Inr n, db1) else (resolve n path db1, db1))"

record entry_shown =
  es_name :: string
  es_kind :: node_kind
  es_size :: int
  es_updated :: timestamp

definition shown :: "node \<Rightarrow> entry_shown" where
  "shown n = \<lparr>es_name = n_name n, es_kind = n_kind n, es_size = n_size n, es_updated = n_updated n\<rparr>"

definition link_listing :: "node \<Rightarrow> db \<Rightarrow> entry_shown \<times> entry_shown list" where
  "link_listing n db = (shown n, if n_kind n = Directory then map shown (list_children (n_id n) db) else [])"

definition open_link ::
    "crates \<Rightarrow> timestamp \<Rightarrow> string \<Rightarrow> string \<Rightarrow> string option \<Rightarrow> db \<Rightarrow> (entry_shown \<times> entry_shown list) answer" where
  "open_link C now token path header db =
     (case path_segments path of
        Inl e \<Rightarrow> (Inl e, db)
      | Inr names \<Rightarrow> and_then (resolve_link C now token names header db) (\<lambda>n db1. (Inr (link_listing n db1), db1)))"

definition never_cached :: "(string \<times> string) list" where
  "never_cached = [(''cache-control'', ''no-store'')]"

definition link_contents :: "crates \<Rightarrow> node \<Rightarrow> files \<Rightarrow> api_error + contents" where
  "link_contents C n fs = rbind (bytes_of C n fs) (\<lambda>c. Inr (c\<lparr>c_headers := c_headers c @ never_cached\<rparr>))"

definition download_link :: "crates \<Rightarrow> timestamp \<Rightarrow> string \<Rightarrow> string \<Rightarrow> string option \<Rightarrow> world \<Rightarrow> contents reply" where
  "download_link C now token path header w =
     (case path_segments path of
        Inl e \<Rightarrow> (Inl e, w)
      | Inr names \<Rightarrow>
          (case with_db (resolve_link C now token names header) w of
             (Inl e, w1) \<Rightarrow> (Inl e, w1)
           | (Inr n, w1) \<Rightarrow> (link_contents C n (w_files w1), w1)))"

section \<open>What they keep\<close>

lemma store_shares_eq_Inr:
  "store_shares ss db = Inr db' \<longleftrightarrow> shares_violation db ss = None \<and> db' = db\<lparr>shares := ss\<rparr>"
  by (auto simp: store_shares_def split: option.splits)

lemma shares_violation_None:
  "shares_violation db ss = None \<longleftrightarrow> distinct (map s_id ss) \<and> distinct (map s_token_hash ss)
     \<and> (\<forall>s\<in>set ss. s_node s \<in> n_id ` set (nodes db) \<and> s_created_by s \<in> u_id ` set (users db))"
  by (auto simp: shares_violation_def list_all_iff)

lemma mint_Inr:
  assumes "mint C random salt now created_by n expires password db = Inr ((view, token), db')"
  obtains hash where "share_password C salt password = Inr hash" "token = hex_bytes random"
    "case expires of None \<Rightarrow> True | Some t \<Rightarrow> now < t" "sh_id view = uuids db 0"
    "db' = (snd (now_v7 db))\<lparr>shares := shares db @ [\<lparr>s_id = uuids db 0, s_node = n_id n, s_created_by = created_by,
       s_token_hash = fingerprint C token, s_password_hash = hash, s_expires = expires, s_created = now,
       s_last_used = None, s_revoked = None\<rparr>]\<rparr>"
    "shares_violation db (shares db') = None"
  using assms
  by (auto simp: mint_def rbind_eq_Inr Let_def case_prod_unfold store_shares_eq_Inr shares_violation_None
      split: if_splits option.splits)

lemma mint_sound: "mint C random salt now created_by n expires password db = Inr (x, db') \<Longrightarrow> sound db' = sound db"
  by (cases x) (auto elim!: mint_Inr)

lemma check_share_password_frame:
  obtains as where "snd (check_share_password C now token expected presented db) = db\<lparr>attempts := as\<rparr>"
proof -
  have "\<exists>as. snd (check_share_password C now token expected presented db) = db\<lparr>attempts := as\<rparr>"
    by (cases expected; cases presented; cases "spend now Share (fingerprint C token) db")
      (auto simp: check_share_password_def and_then_def execute_def transact_def spend_def upsert_def
        forget_attempts_def Let_def split: if_splits intro: exI [of _ "attempts db"])
  then show thesis using that by blast
qed

lemma open_share_frame:
  obtains as ss where "snd (open_share C now token presented db) = db\<lparr>attempts := as, shares := ss\<rparr>"
proof -
  have "\<exists>as ss. snd (open_share C now token presented db) = db\<lparr>attempts := as, shares := ss\<rparr>"
  proof (cases "find (in_force C now token db) (shares db)")
    case None
    then show ?thesis by (auto simp: open_share_def intro!: exI [of _ "attempts db"] exI [of _ "shares db"])
  next
    case (Some s)
    obtain as where as: "snd (check_share_password C now token (s_password_hash s) presented db) = db\<lparr>attempts := as\<rparr>"
      by (rule check_share_password_frame)
    then obtain r where "check_share_password C now token (s_password_hash s) presented db = (r, db\<lparr>attempts := as\<rparr>)"
      by (metis prod.collapse)
    with Some show ?thesis
      by (cases r) (auto simp: open_share_def and_then_def touch_share_def split: option.split
          intro!: exI [of _ as] intro: exI [of _ "shares db"])
  qed
  then show thesis using that by blast
qed

lemma open_share_sound [simp]: "sound (snd (open_share C now token presented db)) = sound db"
  by (rule open_share_frame [of C now token presented db]) simp

lemma share_handlers_sound:
  assumes "sound db"
  shows "sound (snd (create_share C st random salt now u path expires password db))"
    and "sound (snd (revoke_handler now u i db))"
    and "sound (snd (resolve_link C now token names header db))"
    and "sound (snd (open_link C now token path header db))"
proof -
  have "sound db'" if "locate C now u p q db = Inr (place, db1)"
      "(case place of Own n \<Rightarrow> mint C random salt now (u_id u) n expires password db1 | _ \<Rightarrow> Inl Forbidden) = Inr (x, db')"
    for p q place db1 x db'
    using locate_named(1) [OF assms that(1)] that(2) by (cases place) (auto simp: mint_sound)
  then show "sound (snd (create_share C st random salt now u path expires password db))"
    unfolding create_share_def
    using assms by (auto split: sum.splits simp: rbind_eq_Inr intro!: transact_sound)
  show "sound (snd (revoke_handler now u i db))" unfolding revoke_handler_def
    by (rule execute_sound [OF assms]) (use assms in \<open>auto simp: revoke_share_def Let_def split: if_splits\<close>)
  show r: "sound (snd (resolve_link C now token names header db))" for names
    unfolding resolve_link_def by (rule and_then_sound) (simp_all add: assms)
  show "sound (snd (open_link C now token path header db))"
    unfolding open_link_def using r assms by (auto split: sum.splits intro!: and_then_sound)
qed

lemma download_link_sound: "sound (w_db w) \<Longrightarrow> sound (w_db (snd (download_link C now token path header w)))"
proof (cases "path_segments path")
  case (Inr names)
  assume s: "sound (w_db w)"
  have "sound (w_db (snd (with_db (resolve_link C now token names header) w)))"
    by (rule with_db_keeps [where P = sound and f = "resolve_link C now token names header", OF s share_handlers_sound(3) [OF s]])
  moreover have "snd (download_link C now token path header w) = snd (with_db (resolve_link C now token names header) w)"
    using Inr by (cases "with_db (resolve_link C now token names header) w";
      cases "fst (with_db (resolve_link C now token names header) w)") (simp_all add: download_link_def)
  ultimately show ?thesis by simp
qed (simp add: download_link_def)

section \<open>A link of the sample account\<close>

definition sample_minted :: "api_error + (listed_share \<times> string) \<times> db" where
  "sample_minted = mint sample_crates [1, 2, 3] ''salt'' 5 1 sample_dir (Some 100) (Some ''correct horse'') sample"

lemma sample_minted_ok: "\<exists>view token db. sample_minted = Inr ((view, token), db)
  \<and> (case standing 6 Share (fingerprint sample_crates token) sample of None \<Rightarrow> True | _ \<Rightarrow> False)
  \<and> \<not> isl (revoke_share 6 1 (sh_id view) db)
  \<and> \<not> isl (fst (resolve_link sample_crates 6 token [NodeName ''f''] (Some ''correct horse'') db))"
proof -
  have "case sample_minted of Inl e \<Rightarrow> False | Inr ((view, token), db) \<Rightarrow>
      (case standing 6 Share (fingerprint sample_crates token) sample of None \<Rightarrow> True | _ \<Rightarrow> False)
      \<and> \<not> isl (revoke_share 6 1 (sh_id view) db)
      \<and> \<not> isl (fst (resolve_link sample_crates 6 token [NodeName ''f''] (Some ''correct horse'') db))"
    by code_simp
  then show ?thesis by (auto split: sum.splits prod.splits)
qed

section \<open>Properties\<close>

lemma find_share_unique:
  assumes "distinct (map s_token_hash ss)" and "s \<in> set ss" and "find P ss = Some r"
    and "s_token_hash r = s_token_hash s"
  shows "r = s"
  using find_Some_set [OF assms(3)] distinct_key_eq [OF assms(1) _ assms(2)] assms(4) by blast

lemma check_share_password_Inr:
  assumes "check_share_password C now token expected presented db = (Inr u, db')" and "expected = Some hash"
  shows "\<exists>secret. presented = Some secret \<and> password_verify C secret hash"
  using assms by (auto simp: check_share_password_def and_then_Inr split: option.splits if_splits)

lemma open_share_Inr:
  assumes "open_share C now token presented db = (Inr n, db')"
  obtains s where "s \<in> set (shares db)" "in_force C now token db s" "live_node (s_node s) db = Some n"
    "\<forall>hash. s_password_hash s = Some hash \<longrightarrow> (\<exists>secret. presented = Some secret \<and> password_verify C secret hash)"
proof -
  from assms obtain s where f: "find (in_force C now token db) (shares db) = Some s"
    by (auto simp: open_share_def split: option.splits)
  with assms obtain db1 m where c: "check_share_password C now token (s_password_hash s) presented db = (Inr (), db1)"
    and l: "live_node (s_node s) db1 = Some n"
    by (auto simp: open_share_def and_then_Inr split: option.splits)
  have "nodes db1 = nodes db"
    by (rule check_share_password_frame [of C now token "s_password_hash s" presented db]) (use c in auto)
  with l have "live_node (s_node s) db = Some n" by (simp add: live_node_def)
  with find_Some_set [OF f] check_share_password_Inr [OF c] that show thesis by blast
qed

text \<open>
  C37. A link opens the node it was minted for and what is below it, and nothing else, and only while
  it is not revoked and not expired, while the account that minted it is not disabled, and, where
  it has a password, to who gives that password.
\<close>

theorem link_confined:
  assumes "resolve_link C now token names header db = (Inr n, db')"
  shows "\<exists>s\<in>set (shares db). s_token_hash s = fingerprint C token \<and> s_revoked s = None
    \<and> (case s_expires s of None \<Rightarrow> True | Some t \<Rightarrow> now < t)
    \<and> (\<exists>u\<in>set (users db). u_id u = s_created_by s \<and> is_active u)
    \<and> (case s_password_hash s of None \<Rightarrow> True
        | Some hash \<Rightarrow> \<exists>secret. header = Some secret \<and> password_verify C secret hash)
    \<and> n \<in> set (nodes db) \<and> live n \<and> (n_id n, s_node s) \<in> (below live (nodes db))\<^sup>*"
proof -
  obtain top_node db1 where o: "open_share C now token (Option.bind header from_utf8) db = (Inr top_node, db1)"
    and r: "resolve top_node names db1 = Inr n"
    using assms by (auto simp: resolve_link_def and_then_Inr split: if_splits)
  have ns: "nodes db1 = nodes db"
    by (rule open_share_frame [of C now token "Option.bind header from_utf8" db]) (use o in auto)
  obtain s where s: "s \<in> set (shares db)" "in_force C now token db s" "live_node (s_node s) db = Some top_node"
    "\<forall>hash. s_password_hash s = Some hash \<longrightarrow>
       (\<exists>secret. Option.bind header from_utf8 = Some secret \<and> password_verify C secret hash)"
    by (rule open_share_Inr [OF o])
  have "\<exists>u\<in>set (users db). u_id u = s_created_by s \<and> is_active u"
    using s(2) by (auto simp: in_force_def is_active_def dest: by_id_Some split: option.splits)
  moreover have "n \<in> set (nodes db) \<and> live n \<and> (n_id n, s_node s) \<in> (below live (nodes db))\<^sup>*"
    using resolve_below [OF r] live_node_Some [OF s(3)] ns by auto
  moreover have "case s_password_hash s of None \<Rightarrow> True
      | Some hash \<Rightarrow> \<exists>secret. header = Some secret \<and> password_verify C secret hash"
    using s(4) by (auto simp: from_utf8_def bind_eq_Some_conv split: option.splits if_splits)
  ultimately show ?thesis using s(1,2) by (auto simp: in_force_def)
qed

theorem link_confined_witness:
  "\<exists>view token db n db'. sample_minted = Inr ((view, token), db)
     \<and> resolve_link sample_crates 6 token [NodeName ''f''] (Some ''correct horse'') db = (Inr n, db')
     \<and> (\<exists>s\<in>set (shares db). (n_id n, s_node s) \<in> (below live (nodes db))\<^sup>*)"
proof -
  obtain view token db where m: "sample_minted = Inr ((view, token), db)"
    and r: "\<not> isl (fst (resolve_link sample_crates 6 token [NodeName ''f''] (Some ''correct horse'') db))"
    using sample_minted_ok by blast
  from r obtain n db' where
    n: "resolve_link sample_crates 6 token [NodeName ''f''] (Some ''correct horse'') db = (Inr n, db')"
    by (metis ok_result prod.collapse)
  from link_confined [OF n] m n show ?thesis by blast
qed

text \<open>
  C38. A link that was minted opens: the token that was shown, with the password that was chosen,
  answers the node until the link expires; once it is revoked, the token answers what a token that
  was never minted answers, whatever password comes with it.
\<close>

theorem link_opens_until_revoked:
  assumes "sound db" and "n \<in> set (nodes db)" and "live n"
    and "by_id owner db = Some u" and "is_active u"
    and "mint C random salt now owner n expires password db = Inr ((view, token), db1)"
    and "now \<le> later" and "case expires of None \<Rightarrow> True | Some t \<Rightarrow> later < t"
    and "\<And>p h. argon2_hash C salt p = Some h \<Longrightarrow> argon2_verify C p h"
    and "standing later Share (fingerprint C token) db = None"
    and "revoke_share later owner (sh_id view) db1 = Inr db2"
  shows "(\<exists>db'. open_share C later token password db1 = (Inr n, db'))
    \<and> open_share C any_time token presented db2 = (Inl NotFound, db2)"
proof -
  obtain hash where h: "share_password C salt password = Inr hash" and e: "sh_id view = uuids db 0"
    and db1: "db1 = (snd (now_v7 db))\<lparr>shares := shares db @ [\<lparr>s_id = uuids db 0, s_node = n_id n, s_created_by = owner,
       s_token_hash = fingerprint C token, s_password_hash = hash, s_expires = expires, s_created = now,
       s_last_used = None, s_revoked = None\<rparr>]\<rparr>" (is "_ = _\<lparr>shares := _ @ [?s]\<rparr>")
    and ok: "shares_violation db (shares db1) = None"
    by (rule mint_Inr [OF assms(6)])
  have d: "distinct (map s_token_hash (shares db1))" and s: "?s \<in> set (shares db1)"
    using ok by (simp_all add: shares_violation_None db1)
  have ln: "live_node (n_id n) db1 = Some n"
    using live_node_eq [OF assms(1-3)] by (simp add: live_node_def db1)
  have force: "in_force C later token db1 ?s"
    using assms(4,5,8) ln by (simp add: in_force_def by_id_def db1 is_active_def)
  then have "find (in_force C later token db1) (shares db1) \<noteq> None" using s find_None_set by metis
  then obtain r where r: "find (in_force C later token db1) (shares db1) = Some r" by blast
  have "s_token_hash r = s_token_hash ?s" using find_Some_set [OF r] by (simp add: in_force_def)
  then have rs: "r = ?s" by (rule find_share_unique [OF d s r])
  have "\<exists>db3. check_share_password C later token hash password db1 = (Inr (), db3) \<and> nodes db3 = nodes db1"
  proof (cases password)
    case None
    with h show ?thesis by (simp add: share_password_def check_share_password_def)
  next
    case (Some secret)
    with h obtain x where x: "hash = Some x" "argon2_hash C salt secret = Some x"
      by (auto simp: share_password_def password_hash_def rbind_eq_Inr)
    have "standing later Share (fingerprint C token) db1 = None" using assms(10) by (simp add: standing_def db1)
    then obtain db4 where sp: "spend later Share (fingerprint C token) db1 = Inr db4" "nodes db4 = nodes db1"
      by (auto simp: spend_def upsert_def Let_def)
    with x assms(9) [OF x(2)] Some show ?thesis
      by (simp add: check_share_password_def and_then_def execute_def transact_def password_verify_def forget_attempts_def)
  qed
  then obtain db3 where "check_share_password C later token hash password db1 = (Inr (), db3)" "nodes db3 = nodes db1"
    by blast
  then have "\<exists>db'. open_share C later token password db1 = (Inr n, db')"
    using r rs ln by (simp add: open_share_def and_then_def live_node_def)
  moreover have "open_share C any_time token presented db2 = (Inl NotFound, db2)"
  proof -
    let ?mine = "\<lambda>s. s_id s = sh_id view \<and> s_created_by s = owner \<and> s_revoked s = None"
    have db2: "db2 = db1\<lparr>shares := map (\<lambda>s. if ?mine s then s\<lparr>s_revoked := Some later\<rparr> else s) (shares db1)\<rparr>"
      using assms(11) by (simp add: revoke_share_def Let_def split: if_splits)
    have "\<not> in_force C any_time token db2 t" if t: "t \<in> set (shares db2)" for t
    proof -
      from t obtain t0 where t0: "t0 \<in> set (shares db1)" "t = (if ?mine t0 then t0\<lparr>s_revoked := Some later\<rparr> else t0)"
        by (auto simp: db2)
      show ?thesis
      proof (cases "s_token_hash t0 = fingerprint C token")
        case True
        with distinct_key_eq [OF d t0(1) s] have "t0 = ?s" by simp
        with t0(2) e show ?thesis by (simp add: in_force_def)
      next
        case False
        with t0(2) show ?thesis by (auto simp: in_force_def)
      qed
    qed
    then have "find (in_force C any_time token db2) (shares db2) = None" by (simp add: find_None_set)
    then show ?thesis by (simp add: open_share_def)
  qed
  ultimately show ?thesis by blast
qed

theorem link_opens_until_revoked_witness:
  "\<exists>view token db1 db2. sample_minted = Inr ((view, token), db1)
     \<and> (\<exists>db'. open_share sample_crates 6 token (Some ''correct horse'') db1 = (Inr sample_dir, db'))
     \<and> open_share sample_crates 9 token (Some ''correct horse'') db2 = (Inl NotFound, db2)"
proof -
  obtain view token db1 where m: "sample_minted = Inr ((view, token), db1)"
    and st: "case standing 6 Share (fingerprint sample_crates token) sample of None \<Rightarrow> True | _ \<Rightarrow> False"
    and r: "\<not> isl (revoke_share 6 1 (sh_id view) db1)" using sample_minted_ok by blast
  from r obtain db2 where db2: "revoke_share 6 1 (sh_id view) db1 = Inr db2" using ok_result by blast
  have u: "by_id 1 sample = Some sample_user" "is_active sample_user" and n: "live sample_dir" by code_simp+
  have mem: "sample_dir \<in> set (nodes sample)" by (simp add: sample_nodes)
  have a: "argon2_hash sample_crates ''salt'' p = Some h \<Longrightarrow> argon2_verify sample_crates p h" for p h
    by (simp add: sample_crates_def)
  from st have "standing 6 Share (fingerprint sample_crates token) sample = None" by (simp split: option.splits)
  from link_opens_until_revoked [OF sample_sound mem n u m [unfolded sample_minted_def] _ _ a this db2,
      of 9 "Some ''correct horse''"] m
  show ?thesis by fastforce
qed

end
