(* ===== verification/Multistatus.thy ===== *)
theory Multistatus
  imports Locks Frames Signin
begin

text \<open>
  The documents of WebDAV: \<open>dav/mod.rs\<close>, \<open>dav/xml.rs\<close>, \<open>dav/propfind.rs\<close> and what \<open>dav/locking.rs\<close>
  prints and reads. The events an XML reader finds in a body are a parameter.
\<close>

section \<open>Paths\<close>

definition PREFIX :: string where "PREFIX = ''/dav''"

definition decoded :: "crates \<Rightarrow> string \<Rightarrow> string \<Rightarrow> api_error + node_name list" where
  "decoded C expected raw =
     rbind (ok_or (WrongKind expected) (from_utf8 (percent_decode C raw))) (\<lambda>text.
       map_err InvalidPath (parse_path text))"

definition path_of :: "crates \<Rightarrow> string \<Rightarrow> api_error + node_name list" where
  "path_of C uri = decoded C ''path in valid UTF-8''
     (case strip_prefix uri PREFIX of Some raw \<Rightarrow> raw | None \<Rightarrow> [])"

text \<open>The set of bytes that are encoded: the controls of ASCII and what would end a path.\<close>

definition PATH_SEGMENT :: "char \<Rightarrow> bool" where
  "PATH_SEGMENT c \<longleftrightarrow> ascii_control c \<or> c \<in> set ('' #%<>?`{}'' @ [CHR 0x22])"

definition href :: "crates \<Rightarrow> node_name list \<Rightarrow> bool \<Rightarrow> string" where
  "href C path collection =
     (let out = PREFIX @ concat (map (\<lambda>s. CHR ''/'' # percent_encode C PATH_SEGMENT (as_str s)) path)
      in if collection \<and> \<not> ends_with out ''/'' then out @ ''/'' else out)"

section \<open>Text\<close>

definition apostrophe :: char where "apostrophe = CHR 0x27"
definition quotation :: char where "quotation = CHR 0x22"

definition escape_char :: "char \<Rightarrow> string" where
  "escape_char c =
     (if c = CHR ''&'' then ''&amp;'' else if c = CHR ''<'' then ''&lt;'' else if c = CHR ''>'' then ''&gt;''
      else if c = quotation then ''&quot;'' else if c = apostrophe then ''&apos;'' else [c])"

definition escape :: "string \<Rightarrow> string" where
  "escape raw = concat (map escape_char raw)"

text \<open>The characters of a string, each its bytes.\<close>

function chars :: "string \<Rightarrow> string list" where
  "chars [] = []"
| "chars (c # cs) = (c # takeWhile continues cs) # chars (dropWhile continues cs)"
  by pat_completeness auto
termination
  by (relation "measure length") (auto simp: le_imp_less_Suc length_dropWhile_le)

definition decimal_int :: "int \<Rightarrow> string" where
  "decimal_int i = (if i < 0 then ''-'' @ decimal (nat (- i)) else decimal (nat i))"

definition ascii_white :: "string \<Rightarrow> bool" where
  "ascii_white s \<longleftrightarrow> list_all (\<lambda>c. of_char c \<in> {9, 10, 12, 13, 32 :: nat}) s"

section \<open>Properties\<close>

datatype dav_property =
    ContentLength | LastModified | Etag | ResourceType | DisplayName | ContentType
  | QuotaAvailable | QuotaUsed | LockDiscovery | SupportedLock | CurrentUserPrivilegeSet

fun property_name :: "dav_property \<Rightarrow> string" where
  "property_name ContentLength = ''getcontentlength''"
| "property_name LastModified = ''getlastmodified''"
| "property_name Etag = ''getetag''"
| "property_name ResourceType = ''resourcetype''"
| "property_name DisplayName = ''displayname''"
| "property_name ContentType = ''getcontenttype''"
| "property_name QuotaAvailable = ''quota-available-bytes''"
| "property_name QuotaUsed = ''quota-used-bytes''"
| "property_name LockDiscovery = ''lockdiscovery''"
| "property_name SupportedLock = ''supportedlock''"
| "property_name CurrentUserPrivilegeSet = ''current-user-privilege-set''"

definition property_parse :: "string \<Rightarrow> dav_property option" where
  "property_parse name =
     (if name = ''getcontentlength'' then Some ContentLength
      else if name = ''getlastmodified'' then Some LastModified
      else if name = ''getetag'' then Some Etag
      else if name = ''resourcetype'' then Some ResourceType
      else if name = ''displayname'' then Some DisplayName
      else if name = ''getcontenttype'' then Some ContentType
      else if name = ''quota-available-bytes'' then Some QuotaAvailable
      else if name = ''quota-used-bytes'' then Some QuotaUsed
      else if name = ''lockdiscovery'' then Some LockDiscovery
      else if name = ''supportedlock'' then Some SupportedLock
      else if name = ''current-user-privilege-set'' then Some CurrentUserPrivilegeSet
      else None)"

definition ALL_PROPERTIES :: "dav_property list" where
  "ALL_PROPERTIES = [ResourceType, DisplayName, ContentLength, ContentType, LastModified, Etag, QuotaAvailable,
     QuotaUsed, LockDiscovery, SupportedLock]"

record unknown_property =
  uk_namespace :: string
  uk_name :: string

record requested =
  rq_properties :: "dav_property list"
  rq_unknown :: "unknown_property list"
  rq_names_only :: bool

definition everything :: requested where
  "everything = \<lparr>rq_properties = ALL_PROPERTIES, rq_unknown = [], rq_names_only = False\<rparr>"

definition is_name :: "crates \<Rightarrow> string \<Rightarrow> bool" where
  "is_name C candidate =
     (case chars candidate of
        [] \<Rightarrow> False
      | first # rest \<Rightarrow> (alphabetic C first \<or> first = ''_'')
          \<and> list_all (\<lambda>c. alphanumeric C c \<or> c \<in> {''.'', ''-'', ''_''}) rest)"

fun parse_events :: "crates \<Rightarrow> xml_event list \<Rightarrow> bool \<Rightarrow> requested \<Rightarrow> requested"
  and parse_element :: "crates \<Rightarrow> string option \<Rightarrow> string \<Rightarrow> xml_event list \<Rightarrow> bool \<Rightarrow> requested \<Rightarrow> requested" where
  "parse_events C [] inside_prop r =
     (if rq_properties r = [] \<and> rq_unknown r = [] then everything else r)"
| "parse_events C (XmlStart ns name # es) inside_prop r = parse_element C ns name es inside_prop r"
| "parse_events C (XmlEmpty ns name # es) inside_prop r = parse_element C ns name es inside_prop r"
| "parse_events C (XmlEnd name # es) inside_prop r =
     parse_events C es (if name = ''prop'' then False else inside_prop) r"
| "parse_events C (XmlText t # es) inside_prop r = parse_events C es inside_prop r"
| "parse_events C (XmlOther # es) inside_prop r = parse_events C es inside_prop r"
| "parse_events C (XmlError # es) inside_prop r = everything"
| "parse_element C ns name es inside_prop r =
     (let namespace = (case ns of Some n \<Rightarrow> n | None \<Rightarrow> []) in
      if name = ''allprop'' then everything
      else if name = ''propname'' then everything\<lparr>rq_names_only := True\<rparr>
      else if name = ''prop'' then parse_events C es True r
      else if inside_prop then
        (case property_parse name of
           Some p \<Rightarrow>
             if namespace = ''DAV:'' then parse_events C es inside_prop (r\<lparr>rq_properties := rq_properties r @ [p]\<rparr>)
             else if is_name C name
               then parse_events C es inside_prop
                 (r\<lparr>rq_unknown := rq_unknown r @ [\<lparr>uk_namespace = namespace, uk_name = name\<rparr>]\<rparr>)
             else parse_events C es inside_prop r
         | None \<Rightarrow>
             if is_name C name
               then parse_events C es inside_prop
                 (r\<lparr>rq_unknown := rq_unknown r @ [\<lparr>uk_namespace = namespace, uk_name = name\<rparr>]\<rparr>)
             else parse_events C es inside_prop r)
      else parse_events C es inside_prop r)"

definition parse_propfind :: "crates \<Rightarrow> string \<Rightarrow> requested" where
  "parse_propfind C body =
     (if ascii_white body then everything
      else parse_events C (xml_events C body) False \<lparr>rq_properties = [], rq_unknown = [], rq_names_only = False\<rparr>)"

section \<open>Answers\<close>

definition MULTISTATUS_OPEN :: string where
  \<open>MULTISTATUS_OPEN = ''<?xml version="1.0" encoding="utf-8"?>'' @ ''<D:multistatus xmlns:D="DAV:">''\<close>

definition MULTISTATUS_CLOSE :: string where "MULTISTATUS_CLOSE = ''</D:multistatus>''"

definition SUPPORTED_LOCK :: string where
  "SUPPORTED_LOCK = ''<D:supportedlock><D:lockentry>''
     @ ''<D:lockscope><D:exclusive/></D:lockscope><D:locktype><D:write/></D:locktype>''
     @ ''</D:lockentry></D:supportedlock>''"

record viewer =
  vw_used :: int
  vw_available :: int
  vw_writable :: bool

definition privileges :: "bool \<Rightarrow> string" where
  "privileges can_write = ''<D:current-user-privilege-set><D:privilege><D:read/></D:privilege>''
     @ (if can_write then ''<D:privilege><D:write/></D:privilege>'' else [])
     @ ''</D:current-user-privilege-set>''"

fun property_value :: "crates \<Rightarrow> dav_property \<Rightarrow> node \<Rightarrow> viewer \<Rightarrow> string option \<Rightarrow> string option" where
  "property_value C ResourceType n v l = Some (case n_kind n of
     Directory \<Rightarrow> ''<D:resourcetype><D:collection/></D:resourcetype>'' | File \<Rightarrow> ''<D:resourcetype/>'')"
| "property_value C DisplayName n v l = Some (''<D:displayname>'' @ escape (n_name n) @ ''</D:displayname>'')"
| "property_value C Etag n v l = Some (''<D:getetag>'' @ escape (n_etag n) @ ''</D:getetag>'')"
| "property_value C LastModified n v l =
     Some (''<D:getlastmodified>'' @ http_date C (n_updated n) @ ''</D:getlastmodified>'')"
| "property_value C ContentLength n v l = (case n_kind n of
     File \<Rightarrow> Some (''<D:getcontentlength>'' @ decimal_int (n_size n) @ ''</D:getcontentlength>'')
   | Directory \<Rightarrow> None)"
| "property_value C ContentType n v l = Some (case n_kind n of
     File \<Rightarrow> ''<D:getcontenttype>application/octet-stream</D:getcontenttype>''
   | Directory \<Rightarrow> ''<D:getcontenttype>httpd/unix-directory</D:getcontenttype>'')"
| "property_value C QuotaUsed n v l =
     Some (''<D:quota-used-bytes>'' @ decimal_int (vw_used v) @ ''</D:quota-used-bytes>'')"
| "property_value C LockDiscovery n v l =
     Some (''<D:lockdiscovery>'' @ (case l of Some x \<Rightarrow> x | None \<Rightarrow> []) @ ''</D:lockdiscovery>'')"
| "property_value C SupportedLock n v l = Some SUPPORTED_LOCK"
| "property_value C QuotaAvailable n v l =
     Some (''<D:quota-available-bytes>'' @ decimal_int (vw_available v) @ ''</D:quota-available-bytes>'')"
| "property_value C CurrentUserPrivilegeSet n v l = Some (privileges (vw_writable v))"

definition empty_element :: "dav_property \<Rightarrow> string" where
  "empty_element p = ''<D:'' @ property_name p @ ''/>''"

definition foreign :: "unknown_property \<Rightarrow> string" where
  \<open>foreign p =
     (if uk_namespace p = [] then ''<'' @ uk_name p @ ''/>''
      else ''<ns:'' @ uk_name p @ '' xmlns:ns="'' @ escape (uk_namespace p) @ ''"/>'')\<close>

definition found_properties :: "crates \<Rightarrow> node \<Rightarrow> viewer \<Rightarrow> requested \<Rightarrow> string option \<Rightarrow> string" where
  "found_properties C n v r l = concat (map (\<lambda>p.
     if rq_names_only r then empty_element p
     else case property_value C p n v l of Some x \<Rightarrow> x | None \<Rightarrow> []) (rq_properties r))"

definition missing_properties :: "crates \<Rightarrow> node \<Rightarrow> viewer \<Rightarrow> requested \<Rightarrow> string option \<Rightarrow> string" where
  "missing_properties C n v r l = concat (map (\<lambda>p.
     if \<not> rq_names_only r \<and> property_value C p n v l = None then empty_element p else []) (rq_properties r))
     @ concat (map foreign (rq_unknown r))"

definition response_xml :: "crates \<Rightarrow> string \<Rightarrow> node \<Rightarrow> viewer \<Rightarrow> requested \<Rightarrow> string option \<Rightarrow> string" where
  "response_xml C at n v r l =
     (let missing = missing_properties C n v r l in
      ''<D:response><D:href>'' @ escape at @ ''</D:href>''
      @ ''<D:propstat><D:prop>'' @ found_properties C n v r l
      @ ''</D:prop><D:status>HTTP/1.1 200 OK</D:status></D:propstat>''
      @ (if missing = [] then []
         else ''<D:propstat><D:prop>'' @ missing
           @ ''</D:prop>             <D:status>HTTP/1.1 404 Not Found</D:status></D:propstat>'')
      @ ''</D:response>'')"

section \<open>Locks in a document\<close>

definition active_lock :: "crates \<Rightarrow> timestamp \<Rightarrow> lock \<Rightarrow> node_name list \<Rightarrow> node_kind \<Rightarrow> string" where
  "active_lock C now l path kind =
     ''<D:activelock><D:locktype><D:write/></D:locktype>''
     @ ''<D:lockscope><D:exclusive/></D:lockscope>''
     @ ''<D:depth>'' @ (if l_deep l then ''infinity'' else ''0'') @ ''</D:depth>''
     @ (case l_holder l of Some h \<Rightarrow> ''<D:owner>'' @ escape h @ ''</D:owner>'' | None \<Rightarrow> [])
     @ ''<D:timeout>'' @ timeout_header now l @ ''</D:timeout>''
     @ ''<D:locktoken><D:href>'' @ escape (l_token l) @ ''</D:href></D:locktoken>''
     @ ''<D:lockroot><D:href>'' @ escape (href C path (kind = Directory)) @ ''</D:href></D:lockroot></D:activelock>''"

fun owner_text :: "xml_event list \<Rightarrow> bool \<Rightarrow> string \<Rightarrow> string option" where
  "owner_text [] inside text = Some text"
| "owner_text (XmlStart ns name # es) inside text = owner_text es (inside \<or> name = ''owner'') text"
| "owner_text (XmlEnd name # es) inside text = (if name = ''owner'' then Some text else owner_text es inside text)"
| "owner_text (XmlText t # es) inside text = owner_text es inside (if inside then text @ t else text)"
| "owner_text (XmlEmpty ns name # es) inside text = owner_text es inside text"
| "owner_text (XmlOther # es) inside text = owner_text es inside text"
| "owner_text (XmlError # es) inside text = None"

definition holder_of :: "crates \<Rightarrow> string \<Rightarrow> string option" where
  "holder_of C body =
     Option.bind (owner_text (xml_events C body) False []) (\<lambda>text.
       let trimmed = trim text in if trimmed = [] then None else Some (concat (take 1000 (chars trimmed))))"


section \<open>Links come back\<close>

text \<open>
  What the percent-encoding crate is documented to do, for any set: a byte of the set, or one that is
  not ASCII, becomes a percent sign and its two hexadecimal digits, and every other byte is itself; the
  decoder turns those three back into the byte and leaves what is not a percent sign alone.
\<close>

definition hex_upper :: "nat \<Rightarrow> char" where "hex_upper n = ''0123456789ABCDEF'' ! n"

definition percent_byte :: "char \<Rightarrow> string" where
  "percent_byte c = [CHR 0x25, hex_upper (of_char c div 16), hex_upper (of_char c mod 16)]"

definition percent_coding :: "crates \<Rightarrow> bool" where
  "percent_coding C \<longleftrightarrow>
     (\<forall>Q. percent_encode C Q [] = [])
   \<and> (\<forall>Q c s. percent_encode C Q (c # s)
        = (if Q c \<or> 128 \<le> (of_char c :: nat) then percent_byte c else [c]) @ percent_encode C Q s)
   \<and> percent_decode C [] = [] \<and> (\<forall>c t. percent_decode C (percent_byte c @ t) = c # percent_decode C t)
   \<and> (\<forall>c t. c \<noteq> CHR 0x25 \<longrightarrow> percent_decode C (c # t) = c # percent_decode C t)"

lemma percent_decode_encode:
  assumes "percent_coding C" and "Q (CHR 0x25)"
  shows "percent_decode C (percent_encode C Q s @ t) = s @ percent_decode C t"
proof (induction s)
  case Nil
  then show ?case using assms(1) by (simp add: percent_coding_def)
next
  case (Cons c s)
  have "percent_encode C Q (c # s) @ t
      = (if Q c \<or> 128 \<le> (of_char c :: nat) then percent_byte c else [c]) @ percent_encode C Q s @ t"
    using assms(1) by (simp add: percent_coding_def)
  moreover have "percent_decode C (percent_byte c @ u) = c # percent_decode C u" for u
    using assms(1) by (simp add: percent_coding_def)
  moreover have "percent_decode C ([c] @ u) = c # percent_decode C u" if "\<not> Q c" for u
  proof -
    have "c \<noteq> CHR 0x25" using that assms(2) by auto
    with assms(1) show ?thesis by (simp add: percent_coding_def)
  qed
  ultimately show ?case using Cons by (cases "Q c \<or> 128 \<le> (of_char c :: nat)") simp_all
qed

text \<open>A byte that a URI can carry in a path: one that is printed, and does not end the path.\<close>

definition path_byte :: "char \<Rightarrow> bool" where
  "path_byte c \<longleftrightarrow> 32 < (of_char c :: nat) \<and> (of_char c :: nat) < 127 \<and> c \<notin> set (''#<>?`{}'' @ [CHR 0x22])"

lemma hex_upper_path_byte: "n < 16 \<Longrightarrow> path_byte (hex_upper n)"
proof -
  have "list_all (\<lambda>n. path_byte (hex_upper n)) [0..<16]" by code_simp
  then show "n < 16 \<Longrightarrow> path_byte (hex_upper n)" by (simp add: list_all_iff del: upt_Suc)
qed

lemma percent_encode_path_bytes:
  assumes "percent_coding C" and "\<And>c. \<not> path_byte c \<Longrightarrow> Q c \<or> 128 \<le> (of_char c :: nat)"
  shows "list_all path_byte (percent_encode C Q s)"
proof (induction s)
  case Nil
  then show ?case using assms(1) by (simp add: percent_coding_def)
next
  case (Cons c s)
  have "(of_char c :: nat) < 256" by (rule nat_of_char_less_256)
  then have "(of_char c :: nat) div 16 < 16" using less_mult_imp_div_less [of "of_char c" 16 16] by simp
  moreover have "(of_char c :: nat) mod 16 < 16" by simp
  moreover have "path_byte (CHR 0x25)" by code_simp
  ultimately have "list_all path_byte (percent_byte c)" by (simp add: percent_byte_def hex_upper_path_byte)
  with Cons assms show ?case by (auto simp: percent_coding_def)
qed

lemma utf8_append: "utf8 xs \<Longrightarrow> utf8 ys \<Longrightarrow> utf8 (xs @ ys)"
proof (induction xs rule: length_induct)
  case (1 xs)
  show ?case
  proof (cases xs)
    case (Cons a bs)
    have ih: "utf8 (zs @ ys)" if "utf8 zs" "length zs < length xs" for zs using 1 that by blast
    consider "a < 128" "utf8 bs"
      | b cs where "bs = b # cs" "\<not> a < 128" "194 \<le> a \<and> a < 224" "b div 64 = 2" "utf8 cs"
      | b c ds where "bs = b # c # ds" "\<not> a < 128" "\<not> (194 \<le> a \<and> a < 224)" "224 \<le> a \<and> a < 240"
          "if a = 224 then 160 \<le> b \<and> b < 192 else if a = 237 then 128 \<le> b \<and> b < 160 else b div 64 = 2"
          "c div 64 = 2" "utf8 ds"
      | b c d es where "bs = b # c # d # es" "\<not> a < 128" "\<not> (194 \<le> a \<and> a < 224)" "\<not> (224 \<le> a \<and> a < 240)"
          "240 \<le> a \<and> a < 245"
          "if a = 240 then 144 \<le> b \<and> b < 192 else if a = 244 then 128 \<le> b \<and> b < 144 else b div 64 = 2"
          "c div 64 = 2" "d div 64 = 2" "utf8 es"
      using 1(2) unfolding Cons utf8.simps(2) by (auto split: list.split_asm if_split_asm)
    then show ?thesis by cases (simp_all add: Cons ih)
  qed (use 1 in simp)
qed

definition below_prefix :: "node_name list \<Rightarrow> string" where
  "below_prefix path = concat (map (\<lambda>s. CHR ''/'' # as_str s) path)"

lemma decode_path:
  assumes "percent_coding C"
  shows "percent_decode C (concat (map (\<lambda>s. CHR ''/'' # percent_encode C PATH_SEGMENT (as_str s)) path) @ t)
    = below_prefix path @ percent_decode C t"
proof (induction path)
  case Nil
  then show ?case by (simp add: below_prefix_def)
next
  case (Cons n path)
  have "PATH_SEGMENT (CHR 0x25)" by code_simp
  note d = percent_decode_encode [OF assms, of PATH_SEGMENT, OF this]
  have "percent_decode C (CHR ''/'' # u) = CHR ''/'' # percent_decode C u" for u
    using assms by (simp add: percent_coding_def)
  with Cons d show ?case by (simp add: below_prefix_def)
qed

lemma of_char_space: "(of_char c :: nat) = 32 \<Longrightarrow> c = CHR 0x20"
proof -
  assume "(of_char c :: nat) = 32"
  then have "(of_char c :: nat) = of_char (CHR 0x20)" by simp
  then show "c = CHR 0x20" by (rule of_char_eq_iff [THEN iffD1])
qed

lemma href_path_bytes:
  assumes "percent_coding C"
  shows "list_all path_byte (href C path collection)"
proof -
  have cover: "PATH_SEGMENT c \<or> 128 \<le> (of_char c :: nat)" if c: "\<not> path_byte c" for c
  proof -
    have "c = CHR 0x20" if "(of_char c :: nat) = 32" using that by (rule of_char_space)
    with c show ?thesis by (auto simp: path_byte_def PATH_SEGMENT_def ascii_control_def)
  qed
  note e = percent_encode_path_bytes [OF assms cover]
  have "list_all path_byte PREFIX" "path_byte (CHR ''/'')" by code_simp+
  then have "list_all path_byte (concat (map (\<lambda>s. CHR ''/'' # percent_encode C PATH_SEGMENT (as_str s)) path))"
    using e by (induction path) simp_all
  then show ?thesis using \<open>list_all path_byte PREFIX\<close> \<open>path_byte (CHR ''/'')\<close> by (simp add: href_def Let_def)
qed

lemma below_prefix_utf8: "\<forall>n\<in>set path. utf8 (map of_char (as_str n)) \<Longrightarrow> utf8 (map of_char (below_prefix path))"
  by (induction path) (auto simp: below_prefix_def intro!: utf8_append)

lemma split_below_prefix:
  "\<forall>n\<in>set path. slash \<notin> set (as_str n) \<Longrightarrow> slash \<notin> set s \<Longrightarrow>
   split_on slash (s @ below_prefix path) = s # map as_str path"
proof (induction path arbitrary: s)
  case Nil
  then show ?case by (simp add: below_prefix_def split_on_no_sep)
next
  case (Cons n path)
  have "split_on slash (s @ below_prefix (n # path)) = s # split_on slash (as_str n @ below_prefix path)"
    using Cons.prems(2) by (simp add: below_prefix_def split_on_append)
  with Cons show ?case by simp
qed

lemma valid_names_parse:
  assumes "\<forall>n\<in>set path. valid_name (as_str n)" and "t = [] \<or> t = [slash]"
  shows "parse_path (below_prefix path @ t) = Inr path"
proof -
  have "split_on slash (below_prefix path) = [] # map as_str path"
    using split_below_prefix [of path "[]"] assms(1) by (simp add: valid_name_iff)
  then have "filter (\<lambda>x. x \<noteq> []) (split_on slash (below_prefix path @ t)) = map as_str path"
    using assms by (auto simp: split_on_append_list valid_name_iff intro!: filter_True)
  moreover have "\<forall>x\<in>set (split_on slash (below_prefix path @ t)). x \<noteq> [] \<longrightarrow> valid_name x"
  proof (intro ballI impI)
    fix x assume "x \<in> set (split_on slash (below_prefix path @ t))" "x \<noteq> []"
    then have "x \<in> set (filter (\<lambda>x. x \<noteq> []) (split_on slash (below_prefix path @ t)))" by simp
    with calculation assms(1) show "valid_name x" by auto
  qed
  ultimately show ?thesis by (simp add: parse_path_eq_Inr comp_def)
qed

text \<open>
  C40. The address a listing gives for a node is one this server reads back as the path of that node,
  with or without the slash that ends a collection, and every byte of it is one that the path of a
  URI can carry: no name of a node ends the path early or starts a query or a fragment.
\<close>

theorem href_round_trip:
  assumes "percent_coding C" and "\<forall>n\<in>set path. valid_name (as_str n) \<and> utf8 (map of_char (as_str n))"
  shows "path_of C (href C path collection) = Inr path \<and> list_all path_byte (href C path collection)"
proof -
  let ?out = "concat (map (\<lambda>s. CHR ''/'' # percent_encode C PATH_SEGMENT (as_str s)) path)"
  obtain t where h: "href C path collection = PREFIX @ ?out @ t" and t: "t = [] \<or> t = [slash]"
    using that [of "[]"] that [of "[slash]"]
    by (cases "collection \<and> \<not> ends_with (PREFIX @ ?out) [slash]") (auto simp: href_def Let_def)
  have d: "percent_decode C (?out @ t) = below_prefix path @ t"
    using decode_path [OF assms(1), of path t] t assms(1) by (auto simp: percent_coding_def)
  have "utf8 (map of_char (below_prefix path @ t))"
    using below_prefix_utf8 [of path] assms(2) t by (auto simp: intro!: utf8_append)
  moreover have "strip_prefix (href C path collection) PREFIX = Some (?out @ t)" by (simp add: h strip_prefix_eq_Some)
  ultimately show ?thesis
    using valid_names_parse [of path t] assms(2) t href_path_bytes [OF assms(1)]
    by (simp add: path_of_def decoded_def d from_utf8_def)
qed

text \<open>The coding itself, on which the crate's laws hold.\<close>

fun pct_encode :: "(char \<Rightarrow> bool) \<Rightarrow> string \<Rightarrow> string" where
  "pct_encode Q [] = []"
| "pct_encode Q (c # s) = (if Q c \<or> 128 \<le> (of_char c :: nat) then percent_byte c else [c]) @ pct_encode Q s"

definition hex_value :: "char \<Rightarrow> nat option" where
  "hex_value c = find (\<lambda>n. hex_upper n = c) [0..<16]"

fun pct_decode :: "string \<Rightarrow> string" where
  "pct_decode (c # h # l # t) =
     (case (if c = CHR 0x25 then hex_value h else None, hex_value l) of
        (Some a, Some b) \<Rightarrow> char_of (16 * a + b) # pct_decode t
      | _ \<Rightarrow> c # pct_decode (h # l # t))"
| "pct_decode s = s"

definition coding_crates :: crates where
  "coding_crates = sample_crates\<lparr>percent_encode := pct_encode, percent_decode := pct_decode\<rparr>"

lemma hex_value_digit: "n < 16 \<Longrightarrow> hex_value (hex_upper n) = Some n"
proof -
  have "list_all (\<lambda>n. hex_value (hex_upper n) = Some n) [0..<16]" by code_simp
  then show "n < 16 \<Longrightarrow> hex_value (hex_upper n) = Some n" by (simp add: list_all_iff del: upt_Suc)
qed

lemma coding_crates_laws: "percent_coding coding_crates"
proof -
  have "pct_decode (percent_byte c @ t) = c # pct_decode t" for c t
  proof -
    have l: "(of_char c :: nat) < 256" by (rule nat_of_char_less_256)
    then have "(of_char c :: nat) div 16 < 16" using less_mult_imp_div_less [of "of_char c" 16 16] by simp
    moreover have "(of_char c :: nat) mod 16 < 16" by simp
    ultimately have "hex_value (hex_upper (of_char c div 16)) = Some (of_char c div 16)"
      "hex_value (hex_upper (of_char c mod 16)) = Some (of_char c mod 16)"
      by (simp_all add: hex_value_digit)
    then show ?thesis by (simp add: percent_byte_def)
  qed
  moreover have "pct_decode (c # t) = c # pct_decode t" if "c \<noteq> CHR 0x25" for c t
  proof (cases t)
    case (Cons h u)
    with that show ?thesis by (cases u) simp_all
  qed simp
  ultimately show ?thesis by (simp add: percent_coding_def coding_crates_def)
qed

theorem href_round_trip_witness:
  "path_of coding_crates (href coding_crates [NodeName ''my docs'', NodeName ''a#b?41%41'', NodeName [CHR 0xC3, CHR 0xA9]] True)
     = Inr [NodeName ''my docs'', NodeName ''a#b?41%41'', NodeName [CHR 0xC3, CHR 0xA9]]
   \<and> href coding_crates [NodeName ''my docs'', NodeName ''a#b?41%41'', NodeName [CHR 0xC3, CHR 0xA9]] True
     = ''/dav/my%20docs/a%23b%3F41%2541/%C3%A9/''"
proof
  have "list_all (\<lambda>n. valid_name (as_str n) \<and> utf8 (map of_char (as_str n)))
      [NodeName ''my docs'', NodeName ''a#b?41%41'', NodeName [CHR 0xC3, CHR 0xA9]]" by code_simp
  then have v: "\<forall>n\<in>set [NodeName ''my docs'', NodeName ''a#b?41%41'', NodeName [CHR 0xC3, CHR 0xA9]].
      valid_name (as_str n) \<and> utf8 (map of_char (as_str n))"
    unfolding list_all_iff .
  show "path_of coding_crates (href coding_crates [NodeName ''my docs'', NodeName ''a#b?41%41'', NodeName [CHR 0xC3, CHR 0xA9]] True)
     = Inr [NodeName ''my docs'', NodeName ''a#b?41%41'', NodeName [CHR 0xC3, CHR 0xA9]]"
    by (rule href_round_trip [OF coding_crates_laws v, THEN conjunct1])
  show "href coding_crates [NodeName ''my docs'', NodeName ''a#b?41%41'', NodeName [CHR 0xC3, CHR 0xA9]] True
     = ''/dav/my%20docs/a%23b%3F41%2541/%C3%A9/''" by code_simp
qed

section \<open>No markup\<close>

text \<open>Text that is escaped opens no tag, closes no attribute and starts no reference but its own.\<close>

lemma escape_plain: "set (escape s) \<inter> {CHR ''<'', CHR ''>'', quotation, apostrophe} = {}"
  by (auto simp: escape_def escape_char_def quotation_def apostrophe_def split: if_splits)

lemma escape_char_clear: "escape_char c @ s = escape_char d @ t \<Longrightarrow> c = d \<and> s = t"
  by (auto simp: escape_char_def quotation_def apostrophe_def split: if_splits)

text \<open>Two texts that read the same escaped are the same text.\<close>

lemma escape_inject: "escape s = escape t \<Longrightarrow> s = t"
proof (induction s arbitrary: t)
  case Nil
  then show ?case by (cases t) (auto simp: escape_def escape_char_def split: if_splits)
next
  case (Cons c s)
  then obtain d u where "t = d # u" by (cases t) (auto simp: escape_def escape_char_def split: if_splits)
  with Cons escape_char_clear [of c "escape s" d "escape u"] show ?case by (auto simp: escape_def)
qed

end
