(* ===== verification/Guard.thy ===== *)
theory Guard
  imports Locks Files
begin

text \<open>
  What a write lock protects. A row under a lock in force whose token a request does not submit is
  guarded against that request: the lemmas show, for each operation on the tree and under the
  checks of \<open>dav/locks.rs\<close>, that the row and the way down to it stay. The methods of \<open>Dav\<close> are
  compositions of these operations.
\<close>

section \<open>Guarded rows\<close>

text \<open>
  A lock is bypassed by a request that submits its token, or that of another lock over a row that it
  covers too, at or above the row it is to protect: of two locks over a row the server asks for one.
\<close>

definition bypassed :: "timestamp \<Rightarrow> string list \<Rightarrow> node \<Rightarrow> lock \<Rightarrow> db \<Rightarrow> bool" where
  "bypassed now submitted m l db \<longleftrightarrow> (\<exists>a\<in>set (nodes db). \<exists>k\<in>set (locks db).
     (n_id m, n_id a) \<in> (below live (nodes db))\<^sup>* \<and> covers now a db l \<and> covers now a db k \<and> l_token k \<in> set submitted)"

definition guarded :: "timestamp \<Rightarrow> string list \<Rightarrow> node \<Rightarrow> lock \<Rightarrow> db \<Rightarrow> bool" where
  "guarded now submitted m l db \<longleftrightarrow> sound db \<and> locks_ok db \<and> m \<in> set (nodes db) \<and> live m
     \<and> l \<in> set (locks db) \<and> covers now m db l \<and> \<not> bypassed now submitted m l db"

lemma guarded_token: "guarded now submitted m l db \<Longrightarrow> l_token l \<notin> set submitted"
  by (auto simp: guarded_def bypassed_def)

text \<open>The row, every row above it and the tables around the tree are as they were.\<close>

definition stays :: "node \<Rightarrow> db \<Rightarrow> db \<Rightarrow> bool" where
  "stays m db db' \<longleftrightarrow> apart db db' \<and> n_id ` set (nodes db) \<subseteq> n_id ` set (nodes db')
     \<and> (\<forall>a\<in>set (nodes db). (n_id m, n_id a) \<in> (below live (nodes db))\<^sup>* \<longrightarrow> a \<in> set (nodes db'))"

text \<open>What is above a live row is a live row.\<close>

lemma above_row:
  assumes s: "sound db" and m: "m \<in> set (nodes db)" "live m" and up: "(n_id m, x) \<in> (below live (nodes db))\<^sup>*"
  obtains a where "a \<in> set (nodes db)" "n_id a = x" "live a"
proof -
  from up have "\<exists>a\<in>set (nodes db). n_id a = x \<and> live a"
  proof (induction rule: rtrancl_induct)
    case base
    with m show ?case by blast
  next
    case (step y z)
    from step(2) obtain r where r: "r \<in> set (nodes db)" "n_parent r = Some z" "live r" by (auto simp: below_def)
    from nodes_ok_parent [OF soundD(5) [OF s] r(1,2)] obtain p where p: "p \<in> set (nodes db)" "n_id p = z" by auto
    with tree_rows_hangs [OF soundD(7) [OF s] r(1) p(1)] r(2,3) show ?case by (auto simp: hangs_def)
  qed
  with that show thesis by blast
qed

text \<open>Where one lock at most covers a row, its token is the only way.\<close>

lemma exclusive_not_bypassed:
  assumes "sound db" "exclusive now db" "m \<in> set (nodes db)" "live m" "l \<in> set (locks db)" "l_token l \<notin> set submitted"
  shows "\<not> bypassed now submitted m l db"
proof
  assume "bypassed now submitted m l db"
  then obtain a k where a: "a \<in> set (nodes db)" "(n_id m, n_id a) \<in> (below live (nodes db))\<^sup>*"
    and k: "k \<in> set (locks db)" "covers now a db l" "covers now a db k" "l_token k \<in> set submitted"
    by (auto simp: bypassed_def)
  obtain b where "b \<in> set (nodes db)" "n_id b = n_id a" "live b" by (rule above_row [OF assms(1,3,4) a(2)])
  with distinct_key_eq [OF soundD(6) [OF assms(1)] this(1) a(1)] have "live a" by simp
  with assms(2) a(1) have one: "length (filter (covers now a db) (locks db)) \<le> 1" by (simp add: exclusive_def list_all_iff)
  obtain x where x: "find (covers now a db) (locks db) = Some x"
    using k(1,3) find_None_set [of "covers now a db" "locks db"] by (cases "find (covers now a db) (locks db)") auto
  from filter_one [OF one x assms(5) k(2)] filter_one [OF one x k(1,3)] k(4) assms(6) show False by simp
qed

text \<open>Where the row stays, what is above it is what was above it.\<close>

lemma stays_above:
  assumes s: "sound db" and s': "sound db'" and m: "m \<in> set (nodes db)" "live m" and st: "stays m db db'"
  shows "(n_id m, x) \<in> (below live (nodes db'))\<^sup>* \<longleftrightarrow> (n_id m, x) \<in> (below live (nodes db))\<^sup>*"
proof
  assume "(n_id m, x) \<in> (below live (nodes db'))\<^sup>*"
  then show "(n_id m, x) \<in> (below live (nodes db))\<^sup>*"
  proof (induction rule: rtrancl_induct)
    case (step y z)
    from step(2) obtain r where r: "r \<in> set (nodes db')" "n_id r = y" "n_parent r = Some z" "live r"
      by (auto simp: below_def)
    obtain a where a: "a \<in> set (nodes db)" "n_id a = y" "live a" by (rule above_row [OF s m step(3)])
    with st step(3) have "a \<in> set (nodes db')" by (auto simp: stays_def)
    from distinct_key_eq [OF soundD(6) [OF s'] this r(1)] a(2) r(2) have "a = r" by simp
    with a r have "(y, z) \<in> below live (nodes db)" by (auto simp: below_def)
    with step(3) show ?case by (rule rtrancl_into_rtrancl)
  qed simp
next
  assume "(n_id m, x) \<in> (below live (nodes db))\<^sup>*"
  then show "(n_id m, x) \<in> (below live (nodes db'))\<^sup>*"
  proof (induction rule: rtrancl_induct)
    case (step y z)
    from step(2) obtain r where r: "r \<in> set (nodes db)" "n_id r = y" "n_parent r = Some z" "live r"
      by (auto simp: below_def)
    with st step(1) have "r \<in> set (nodes db')" by (auto simp: stays_def)
    with r have "(y, z) \<in> below live (nodes db')" by (auto simp: below_def)
    with step(3) show ?case by (rule rtrancl_into_rtrancl)
  qed simp
qed

lemma stays_trans:
  assumes "sound db" "sound db1" "m \<in> set (nodes db)" "live m" "stays m db db1" "stays m db1 db2"
  shows "stays m db db2"
proof -
  have "n_id ` set (nodes db) \<subseteq> n_id ` set (nodes db2)"
    by (rule subset_trans [of _ "n_id ` set (nodes db1)"]) (use assms(5,6) in \<open>simp_all add: stays_def\<close>)
  then show ?thesis
    using assms(5,6) stays_above [OF assms(1-5)] apart_trans [of db db1 db2] by (simp add: stays_def)
qed

lemma stays_refl: "stays m db db"
  by (simp add: stays_def)

lemma stays_append: "apart db db' \<Longrightarrow> nodes db' = nodes db @ ns \<Longrightarrow> stays m db db'"
  by (auto simp: stays_def)

lemma guarded_kept:
  assumes g: "guarded now submitted m l db" and s': "sound db'" and st: "stays m db db'"
  shows "guarded now submitted m l db'"
proof -
  from g have s: "sound db" and lk: "locks_ok db" and m: "m \<in> set (nodes db)" "live m"
    and l: "l \<in> set (locks db)" "covers now m db l" and nb: "\<not> bypassed now submitted m l db"
    by (auto simp: guarded_def)
  note up = stays_above [OF s s' m st]
  have ls: "locks db' = locks db" "users db' = users db" and ids: "n_id ` set (nodes db) \<subseteq> n_id ` set (nodes db')"
    using st by (auto simp: stays_def apart_def)
  have lk': "locks_ok db'" using lk ls ids by (auto simp: locks_ok_def locks_violation_def list_all_iff split: if_splits)
  have at: "l_node k \<in> n_id ` set (nodes db)" if "k \<in> set (locks db)" for k
    using lk that by (auto simp: locks_ok_def locks_violation_def list_all_iff split: if_splits)
  have cv: "a \<in> set (nodes db') \<and> covers now a db' k = covers now a db k"
    if a: "a \<in> set (nodes db)" "(n_id m, n_id a) \<in> (below live (nodes db))\<^sup>*" and k: "k \<in> set (locks db)" for a k
  proof -
    have a': "a \<in> set (nodes db')" using st a by (auto simp: stays_def)
    obtain b where "b \<in> set (nodes db)" "n_id b = n_id a" "live b" by (rule above_row [OF s m a(2)])
    with distinct_key_eq [OF soundD(6) [OF s] this(1) a(1)] have la: "live a" by simp
    have "stays a db db'" using st a(2) by (auto simp: stays_def intro: rtrancl_trans)
    note up' = stays_above [OF s s' a(1) la this]
    have "l_node k \<in> n_id ` set (nodes db')" using at [OF k] ids by blast
    with covers_iff [OF s a(1) la at [OF k]] covers_iff [OF s' a' la, of k now] up' a' show ?thesis by blast
  qed
  have "\<not> bypassed now submitted m l db'"
  proof
    assume "bypassed now submitted m l db'"
    then obtain a k where a: "a \<in> set (nodes db')" "(n_id m, n_id a) \<in> (below live (nodes db'))\<^sup>*"
      and k: "k \<in> set (locks db)" "covers now a db' l" "covers now a db' k" "l_token k \<in> set submitted"
      using ls by (auto simp: bypassed_def)
    from a(2) up have u: "(n_id m, n_id a) \<in> (below live (nodes db))\<^sup>*" by simp
    obtain b where b: "b \<in> set (nodes db)" "n_id b = n_id a" by (rule above_row [OF s m u])
    with st u have "b \<in> set (nodes db')" by (auto simp: stays_def)
    from distinct_key_eq [OF soundD(6) [OF s'] this a(1)] b(2) have "b = a" by simp
    with b u have ab: "a \<in> set (nodes db)" by simp
    from cv [OF ab u l(1)] cv [OF ab u k(1)] k have "bypassed now submitted m l db"
      unfolding bypassed_def using ab u by blast
    with nb show False by simp
  qed
  moreover have "m \<in> set (nodes db')" "covers now m db' l" using cv [OF m(1) rtrancl.rtrancl_refl l(1)] l(2) by auto
  ultimately show ?thesis using s' lk' m(2) l ls by (auto simp: guarded_def)
qed

section \<open>Checks\<close>

lemma guarded_allows:
  assumes g: "guarded now submitted m l db" and a: "a \<in> set (nodes db)"
    and up: "(n_id m, n_id a) \<in> (below live (nodes db))\<^sup>*" and al: "allows now a submitted db = Inr ()"
  shows "\<not> covers now a db l"
proof
  assume c: "covers now a db l"
  from g have l: "l \<in> set (locks db)" and nb: "\<not> bypassed now submitted m l db" by (auto simp: guarded_def)
  obtain k where k: "find (covers now a db) (locks db) = Some k"
    using l c find_None_set [of "covers now a db" "locks db"] by (cases "find (covers now a db) (locks db)") auto
  have "l_token k \<notin> set submitted"
    using nb a up c find_Some_set [OF k] unfolding bypassed_def by blast
  with k al show False by (simp add: allows_def covering_def split: if_splits)
qed

text \<open>What a request may take away holds no guarded row.\<close>

lemma cleared_not_above:
  assumes g: "guarded now submitted m l db" and n: "n \<in> set (nodes db)" "live n"
    and al: "allows now n submitted db = Inr ()" and nb: "none_below now n submitted db = Inr ()"
  shows "(n_id m, n_id n) \<notin> (below live (nodes db))\<^sup>*"
proof
  assume up: "(n_id m, n_id n) \<in> (below live (nodes db))\<^sup>*"
  from g have s: "sound db" and lk: "locks_ok db" and m: "m \<in> set (nodes db)" "live m"
    and l: "l \<in> set (locks db)" "covers now m db l" by (auto simp: guarded_def)
  have lt: "l_token l \<notin> set submitted" by (rule guarded_token [OF g])
  have at: "l_node l \<in> n_id ` set (nodes db)"
    using lk l(1) by (auto simp: locks_ok_def locks_violation_def list_all_iff split: if_splits)
  from l(2) covers_iff [OF s m at] have c: "(n_id m, l_node l) \<in> (below live (nodes db))\<^sup>*" "now < l_expires l"
    "l_node l = n_id m \<or> l_deep l" by blast+
  have out: "(l_node l, n_id n) \<notin> (below live (nodes db))\<^sup>*"
  proof
    assume "(l_node l, n_id n) \<in> (below live (nodes db))\<^sup>*"
    then have "l \<in> set (locks_below now n db)"
      using send_ids [OF s n(1)] l(1) c(2) by (simp add: locks_below_def)
    with nb lt show False by (auto simp: none_below_def find_None_set split: option.splits)
  qed
  with below_up_comparable [OF soundD(6) [OF s] up c(1)]
  have nl: "(n_id n, l_node l) \<in> (below live (nodes db))\<^sup>*" by blast
  have "l_node l \<noteq> n_id m" using out up by auto
  with c(2,3) nl covers_iff [OF s n at] have "covers now n db l" by blast
  with guarded_allows [OF g n(1) up al] show False by simp
qed

section \<open>Operations\<close>

lemma send_stays:
  assumes s: "sound db" and n: "n \<in> set (nodes db)" "live n" and se: "send now n db = Inr db'"
    and out: "(n_id m, n_id n) \<notin> (below live (nodes db))\<^sup>*"
  shows "stays m db db'"
proof -
  note ns = send_sound(2) [OF s n se] and ids = send_ids [OF s n(1), of live]
  have "a \<in> set (nodes db')" if "a \<in> set (nodes db)" "(n_id m, n_id a) \<in> (below live (nodes db))\<^sup>*" for a
  proof -
    have "n_id a \<notin> set (descend live (nodes db) [] (n_id n))" using ids out that(2) by (auto dest: rtrancl_trans)
    with that(1) show ?thesis unfolding ns trash_rows_def by force
  qed
  moreover have "map n_id (nodes db') = map n_id (nodes db)" unfolding ns trash_rows_def by simp
  then have "n_id ` set (nodes db') = n_id ` set (nodes db)" by (metis list.set_map)
  ultimately show ?thesis using send_apart [OF se] by (simp add: stays_def)
qed

lemma rename_stays:
  assumes s: "sound db" and n: "n \<in> set (nodes db)" and r: "rename C now n dir name db = Inr (n', db')"
    and out: "(n_id m, n_id n) \<notin> (below live (nodes db))\<^sup>*"
  shows "stays m db db'"
proof -
  from r obtain etag db1 where d1: "db1 = db \<or> db1 = snd (now_v7 db)"
    and u: "update_node (n_id n) (\<lambda>r. r\<lparr>n_parent := Some (n_id dir), n_name := as_str name,
       n_etag := etag, n_updated := now\<rparr>) db1 = Inr db'"
    by (auto simp: rename_def rbind_eq_Inr case_prod_unfold Let_def split: if_splits node_kind.splits)
  let ?g = "\<lambda>r. if n_id r = n_id n then r\<lparr>n_parent := Some (n_id dir), n_name := as_str name,
       n_etag := etag, n_updated := now\<rparr> else r"
  have ns: "nodes db' = map ?g (nodes db)" using u d1 by (auto simp: update_node_def store_nodes_eq_Inr)
  have "a \<in> set (nodes db')" if "a \<in> set (nodes db)" "(n_id m, n_id a) \<in> (below live (nodes db))\<^sup>*" for a
    unfolding ns using that out by force
  moreover have "map n_id (nodes db') = map n_id (nodes db)" unfolding ns by simp
  then have "n_id ` set (nodes db') = n_id ` set (nodes db)" by (metis list.set_map)
  ultimately show ?thesis using rename_apart [OF r] by (simp add: stays_def)
qed

lemma put_file_stays:
  assumes s: "sound db" and dir: "home owner (n_id dir) db"
    and p: "put_file C now owner dir name h bytes kept db = Inr (n, db')"
    and out: "\<And>e. child (n_id dir) name db = Some e \<Longrightarrow> e \<noteq> m"
    and m: "m \<in> set (nodes db)"
  shows "stays m db db'"
proof -
  note rows = put_file_rows [OF s dir p]
  have "a \<in> set (nodes db')" if a: "a \<in> set (nodes db)" "(n_id m, n_id a) \<in> (below live (nodes db))\<^sup>*" for a
  proof (rule rows(3) [OF a(1)], rule notI)
    assume e: "child (n_id dir) name db = Some a"
    with rows(2) have "n_kind a = File" by simp
    with file_is_leaf [OF s a(1) _ below_star_mono [OF a(2)]] have "n_id m = n_id a" by simp
    with distinct_key_eq [OF soundD(6) [OF s] m a(1)] out [OF e] show False by simp
  qed
  moreover have "n_id ` set (nodes db) \<subseteq> n_id ` set (nodes db')"
  proof
    fix i assume "i \<in> n_id ` set (nodes db)"
    then obtain a where a: "a \<in> set (nodes db)" "n_id a = i" by auto
    show "i \<in> n_id ` set (nodes db')"
    proof (cases "child (n_id dir) name db = Some a")
      case True
      with rows(2) have "n_id n = n_id a" by simp
      moreover have "n \<in> set (nodes db')" using child_Some(1) [OF put_file_sound(2) [OF s dir p]] .
      ultimately show ?thesis using a by (metis image_eqI)
    next
      case False
      with rows(3) [OF a(1)] a show ?thesis by force
    qed
  qed
  ultimately show ?thesis using put_file_apart [OF p] by (simp add: stays_def)
qed

lemma locate_stays:
  assumes "sound db" and "locate C now u path quota db = Inr (place, db')"
  shows "stays m db db'"
  using locate_named(2) [OF assms] stays_append [OF locate_apart [OF assms(2)]] by blast

lemma directory_stays:
  assumes "sound db" and "directory_for_write C now u path create quota db = Inr (dir, db')"
  shows "stays m db db'"
  using directory_for_write_sound(2) [OF assms] stays_append [OF directory_for_write_apart [OF assms(2)]] by blast

lemma file_target_stays:
  assumes "sound db" and "file_target C now u path create quota db = Inr (dir, name, db')"
  shows "stays m db db'"
  using file_target_appends [OF assms] stays_append [OF file_target_apart [OF assms(2)]] by blast

lemma copy_stays:
  assumes "sound db" "source \<in> set (nodes db)" "home owner (n_id dir) db"
    and "copy_tree C now owner source dir name db = Some (Inr (root, db'))"
  shows "stays m db db'"
  using copy_tree_sound(4) [OF assms] stays_append [OF copy_tree_apart [OF assms(4)]] by blast

lemma create_directories_stays:
  assumes c: "create_directories C now owner dir ns db = Inr (n, db')" and s: "sound db"
    and h: "home owner (n_id dir) db" and d: "dir \<in> set (nodes db)"
  shows "stays m db db'"
  using create_directories_sound [OF c s h d] stays_append [OF create_directories_apart [OF c]] by blast

end
