(* ===== verification/Dav.thy ===== *)
theory Dav
  imports Multistatus Guard
begin

text \<open>
  The methods of WebDAV: \<open>dav/methods.rs\<close>, \<open>dav/transfer.rs\<close> and \<open>dav/locking.rs\<close>. A method answers a
  status with headers and a document, and what it changes is one transaction, except that a put
  has one more before its body. A method that answers before its transaction commits leaves
  nothing behind, even where what it answers is no error.
\<close>

section \<open>Requests and responses\<close>

record request =
  rq_method :: string
  rq_uri :: string
  rq_headers :: headers
  rq_body :: chunks

record response =
  rs_status :: nat
  rs_headers :: "(string \<times> string) list"
  rs_body :: string

abbreviation status :: "nat \<Rightarrow> response" where
  "status code \<equiv> \<lparr>rs_status = code, rs_headers = [], rs_body = []\<rparr>"

definition header_text :: "headers \<Rightarrow> string \<Rightarrow> string option" where
  "header_text headers name = map_option trim (headers name)"

definition tokens_of :: "headers \<Rightarrow> string list" where
  "tokens_of headers = submitted_tokens (header_text headers ''if'')"

definition ALLOWED :: string where
  "ALLOWED = ''OPTIONS, PROPFIND, PROPPATCH, MKCOL, GET, HEAD, PUT, DELETE, COPY, MOVE, LOCK, UNLOCK''"

definition MAX_XML_BODY :: nat where "MAX_XML_BODY = 2 ^ 20"

definition refused :: response where
  "refused = \<lparr>rs_status = 405, rs_headers = [(''allow'', ALLOWED)], rs_body = []\<rparr>"

definition options_response :: response where
  "options_response = \<lparr>rs_status = 204,
     rs_headers = [(''dav'', ''1, 2''), (''allow'', ALLOWED), (''ms-author-via'', ''DAV'')], rs_body = []\<rparr>"

definition body_of :: "chunks \<Rightarrow> api_error + string" where
  "body_of cs = (case drain cs of
     Inr b \<Rightarrow> if length b \<le> MAX_XML_BODY then Inr b else Inl (WrongKind ''body under a megabyte'')
   | Inl e \<Rightarrow> Inl (WrongKind ''body under a megabyte''))"

definition xml_type :: "string \<times> string" where
  "xml_type = (''content-type'', ''application/xml; charset=utf-8'')"

definition multistatus :: "string \<Rightarrow> response" where
  "multistatus document = \<lparr>rs_status = 207, rs_headers = [xml_type], rs_body = document\<rparr>"

text \<open>
  A transaction that may also answer early: its \<open>Inl\<close> is what is answered, an error or not, and
  the database is left as it was.
\<close>

type_synonym 'a attempted = "(api_error + response) + 'a"

definition tried :: "(db \<Rightarrow> (response \<times> db) attempted) \<Rightarrow> db \<Rightarrow> response answer" where
  "tried f db = (case f db of Inl r \<Rightarrow> (r, db) | Inr (x, db') \<Rightarrow> (Inr x, db'))"

definition checked :: "api_error + 'a \<Rightarrow> 'a attempted" where
  "checked m = map_err Inl m"

definition answer_now :: "response \<Rightarrow> 'a attempted" where
  "answer_now r = Inl (Inr r)"

definition or_conflict :: "api_error + 'a \<Rightarrow> 'a attempted" where
  "or_conflict m = (case m of Inl NotFound \<Rightarrow> answer_now (status 409) | _ \<Rightarrow> checked m)"

section \<open>Listing\<close>

definition quota_of :: "uuid \<Rightarrow> db \<Rightarrow> api_error + int \<times> int" where
  "quota_of owner db = rbind (ok_or (Database RowNotFound) (find_quota owner db)) (\<lambda>q.
     Inr (q_used q, max (q_max q - q_used q) 0))"

text \<open>The quotas already read are kept for the rest of the document.\<close>

definition viewer_of ::
    "uuid \<Rightarrow> db \<Rightarrow> (uuid \<times> int \<times> int) list \<Rightarrow> node \<Rightarrow> bool \<Rightarrow> api_error + viewer \<times> (uuid \<times> int \<times> int) list" where
  "viewer_of caller db known n can_write =
     (if n_owner n \<noteq> caller \<and> \<not> can_write
      then Inr (\<lparr>vw_used = 0, vw_available = 0, vw_writable = can_write\<rparr>, known)
      else rbind (case map_of known (n_owner n) of
            Some q \<Rightarrow> Inr (q, known)
          | None \<Rightarrow> rbind (quota_of (n_owner n) db) (\<lambda>q. Inr (q, known @ [(n_owner n, q)])))
        (\<lambda>((used_bytes, available), known').
          Inr (\<lparr>vw_used = used_bytes, vw_available = available, vw_writable = can_write\<rparr>, known')))"

definition lock_in :: "crates \<Rightarrow> timestamp \<Rightarrow> lock list \<Rightarrow> uuid \<Rightarrow> node_name list \<Rightarrow> node_kind \<Rightarrow> string option" where
  "lock_in C now held i path kind =
     map_option (\<lambda>l. active_lock C now l path kind) (find (\<lambda>l. l_node l = i) held)"

fun listed_responses ::
    "crates \<Rightarrow> timestamp \<Rightarrow> uuid \<Rightarrow> db \<Rightarrow> requested \<Rightarrow> lock list \<Rightarrow> node_name list \<Rightarrow> (uuid \<times> int \<times> int) list
      \<Rightarrow> (node \<times> bool) list \<Rightarrow> api_error + string" where
  "listed_responses C now caller db r held path known [] = Inr []"
| "listed_responses C now caller db r held path known ((n, can_write) # rest_of) =
     rbind (map_err InvalidPath (node_name_from_str (n_name n))) (\<lambda>name.
     rbind (viewer_of caller db known n can_write) (\<lambda>(v, known').
     rbind (listed_responses C now caller db r held path known' rest_of) (\<lambda>rest.
       Inr (response_xml C (href C (path @ [name]) (n_kind n = Directory)) n v r
              (lock_in C now held (n_id n) (path @ [name]) (n_kind n)) @ rest))))"

text \<open>What a \<open>PROPFIND\<close> lists: the node itself, and what is in it when asked for.\<close>

definition propfind_listing ::
    "crates \<Rightarrow> app_state \<Rightarrow> timestamp \<Rightarrow> user \<Rightarrow> node_name list \<Rightarrow> bool \<Rightarrow> db
      \<Rightarrow> api_error + ((node \<times> bool) \<times> (node \<times> bool) list) \<times> db" where
  "propfind_listing C st now u path deep db =
     rbind (locate C now u path (default_quota_bytes st) db) (\<lambda>(place, db1).
     case place of
       SharedWithMe \<Rightarrow>
         rbind (ensure_root C now (u_id u) (default_quota_bytes st) db1) (\<lambda>(root, db2).
         rbind (ok_or NotFound (shelf C u root db2)) (\<lambda>(directory, mounted).
           Inr (((directory, False), if deep
              then map (\<lambda>(n, acc). (n, may_write u \<and> may_write_access acc)) mounted else []), db2)))
     | _ \<Rightarrow>
         (let can_write = may_write u \<and> writable place;
              at_root = (case place of Own n \<Rightarrow> n_parent n = None | _ \<Rightarrow> False)
          in rbind (into_node place) (\<lambda>n.
            Inr (((n, can_write),
              (if deep \<and> at_root
               then (case shelf C u n db1 of Some (directory, _) \<Rightarrow> [(directory, False)] | None \<Rightarrow> []) else [])
              @ (if deep \<and> n_kind n = Directory
                 then map (\<lambda>c. (c, can_write)) (list_children (n_id n) db1) else [])), db1))))"

definition finite_depth :: response where
  \<open>finite_depth = \<lparr>rs_status = 403, rs_headers = [xml_type],
     rs_body = ''<?xml version="1.0" encoding="utf-8"?>''
       @ ''<D:error xmlns:D="DAV:"><D:propfind-finite-depth/></D:error>''\<rparr>\<close>

definition propfind :: "crates \<Rightarrow> app_state \<Rightarrow> timestamp \<Rightarrow> user \<Rightarrow> request \<Rightarrow> db \<Rightarrow> response answer" where
  "propfind C st now u rq db =
     (let wanted_depth = (case rq_headers rq ''depth'' of Some v \<Rightarrow> trim v | None \<Rightarrow> ''infinity'') in
      case rbind (path_of C (rq_uri rq)) (\<lambda>path. rbind (body_of (rq_body rq)) (\<lambda>body. Inr (path, body))) of
        Inl e \<Rightarrow> (Inl e, db)
      | Inr (path, body) \<Rightarrow>
          if eq_ignore_ascii_case wanted_depth ''infinity'' then (Inr finite_depth, db)
          else and_then (transact (\<lambda>db.
              rbind (propfind_listing C st now u path (wanted_depth = ''1'') db) (\<lambda>(((n, can_write), listed_nodes), db1).
                Inr ((n, can_write, listed_nodes, locks_for_nodes now (n_id n # map (\<lambda>(m, _). n_id m) listed_nodes) db1), db1))) db)
            (\<lambda>(n, can_write, listed_nodes, held) db1.
              (let r = parse_propfind C body in
               rbind (viewer_of (u_id u) db1 [] n can_write) (\<lambda>(v, known).
               rbind (listed_responses C now (u_id u) db1 r held path known listed_nodes) (\<lambda>rest.
                 Inr (multistatus (MULTISTATUS_OPEN
                   @ response_xml C (href C path (n_kind n = Directory)) n v r
                       (lock_in C now held (n_id n) path (n_kind n))
                   @ rest @ MULTISTATUS_CLOSE)))), db1)))"

text \<open>No property is kept, so each one named is refused.\<close>

definition proppatch :: "crates \<Rightarrow> app_state \<Rightarrow> timestamp \<Rightarrow> user \<Rightarrow> request \<Rightarrow> db \<Rightarrow> response answer" where
  "proppatch C st now u rq db =
     (if \<not> may_write u then (Inl Forbidden, db)
      else case rbind (path_of C (rq_uri rq)) (\<lambda>path. rbind (body_of (rq_body rq)) (\<lambda>body. Inr (path, body))) of
        Inl e \<Rightarrow> (Inl e, db)
      | Inr (path, body) \<Rightarrow> transact (\<lambda>db.
          rbind (locate C now u path (default_quota_bytes st) db) (\<lambda>(place, db1).
          rbind (if place = SharedWithMe then Inl Forbidden else into_node place) (\<lambda>n.
          rbind (allows now n (tokens_of (rq_headers rq)) db1) (\<lambda>_.
            let r = parse_propfind C body;
                names = concat (map empty_element (rq_properties r)) @ concat (map foreign (rq_unknown r))
            in Inr (multistatus (MULTISTATUS_OPEN
                 @ ''<D:response><D:href>'' @ escape (href C path (n_kind n = Directory))
                 @ ''</D:href><D:propstat><D:prop>'' @ names
                 @ ''</D:prop><D:status>HTTP/1.1 403 Forbidden</D:status></D:propstat></D:response>''
                 @ MULTISTATUS_CLOSE), db1))))) db)"

section \<open>Reading and writing\<close>

definition mkcol :: "crates \<Rightarrow> app_state \<Rightarrow> timestamp \<Rightarrow> user \<Rightarrow> request \<Rightarrow> db \<Rightarrow> response answer" where
  "mkcol C st now u rq db =
     (if \<not> may_write u then (Inl Forbidden, db)
      else case rbind (path_of C (rq_uri rq)) (\<lambda>path. rbind (body_of (rq_body rq)) (\<lambda>body. Inr (path, body))) of
        Inl e \<Rightarrow> (Inl e, db)
      | Inr (path, body) \<Rightarrow>
          if body \<noteq> [] then (Inr (status 415), db)
          else if path = [] then (Inr refused, db)
          else tried (\<lambda>db.
            rbind (or_conflict (directory_for_write C now u (butlast path) False (default_quota_bytes st) db)) (\<lambda>(dir, db1).
            rbind (checked (refuse_reserved dir (last path))) (\<lambda>_.
              if child (n_id dir) (last path) db1 \<noteq> None then answer_now refused
              else rbind (checked (allows now dir (tokens_of (rq_headers rq)) db1)) (\<lambda>_.
                rbind (checked (create_directories C now (n_owner dir) dir [last path] db1)) (\<lambda>(n, db2).
                  Inr (status 201, db2)))))) db)"

definition read_node :: "crates \<Rightarrow> app_state \<Rightarrow> timestamp \<Rightarrow> user \<Rightarrow> request \<Rightarrow> bool \<Rightarrow> world \<Rightarrow> response reply" where
  "read_node C st now u rq head_only w =
     (case path_of C (rq_uri rq) of
        Inl e \<Rightarrow> (Inl e, w)
      | Inr path \<Rightarrow>
          (case with_db (transact (locate C now u path (default_quota_bytes st))) w of
             (Inl e, w1) \<Rightarrow> (Inl e, w1)
           | (Inr place, w1) \<Rightarrow>
               (if place = SharedWithMe then Inr refused
                else rbind (into_node place) (\<lambda>n.
                  case (n_kind n, n_blob n) of
                    (File, Some h) \<Rightarrow>
                      rbind (etag_header C n) (\<lambda>etag.
                        let hs = [(''etag'', etag), (''content-length'',
                               decimal (if 0 \<le> n_size n \<and> n_size n < 2 ^ 64 then nat (n_size n) else 0))] @ never_rendered
                        in if head_only then Inr \<lparr>rs_status = 200, rs_headers = hs, rs_body = []\<rparr>
                           else rbind (map_err Storage (local_read C h (w_files w1))) (\<lambda>bytes.
                             Inr \<lparr>rs_status = 200, rs_headers = hs, rs_body = bytes\<rparr>))
                  | _ \<Rightarrow> Inr refused), w1)))"

text \<open>Where a put goes, when the locks allow it; \<open>None\<close> where there is no directory.\<close>

definition destination ::
    "crates \<Rightarrow> app_state \<Rightarrow> timestamp \<Rightarrow> user \<Rightarrow> node_name list \<Rightarrow> string list \<Rightarrow> db
      \<Rightarrow> api_error + (node \<times> node_name \<times> bool) option \<times> db" where
  "destination C st now u path submitted db =
     (case file_target C now u path False (default_quota_bytes st) db of
        Inl NotFound \<Rightarrow> Inr (None, db)
      | Inl other \<Rightarrow> Inl other
      | Inr (dir, name, db1) \<Rightarrow>
          (let existing = child (n_id dir) name db1 in
           rbind (allows now (case existing of Some n \<Rightarrow> n | None \<Rightarrow> dir) submitted db1) (\<lambda>_.
             Inr (Some (dir, name, existing \<noteq> None), db1))))"

definition dav_room ::
    "crates \<Rightarrow> app_state \<Rightarrow> timestamp \<Rightarrow> user \<Rightarrow> node_name list \<Rightarrow> string list \<Rightarrow> db \<Rightarrow> nat attempted" where
  "dav_room C st now u path submitted db =
     rbind (checked (destination C st now u path submitted db)) (\<lambda>(found, db1).
       case found of None \<Rightarrow> answer_now (status 409) | Some (dir, name, existed) \<Rightarrow> Inr (room st dir name db1))"

definition dav_commit ::
    "crates \<Rightarrow> app_state \<Rightarrow> timestamp \<Rightarrow> user \<Rightarrow> node_name list \<Rightarrow> string list \<Rightarrow> written \<Rightarrow> int \<Rightarrow> db
      \<Rightarrow> ((node \<times> bool) \<times> db) attempted" where
  "dav_commit C st now u path submitted wr bytes db =
     rbind (checked (destination C st now u path submitted db)) (\<lambda>(found, db1).
       case found of
         None \<Rightarrow> answer_now (status 409)
       | Some (dir, name, existed) \<Rightarrow>
           rbind (checked (put_file C now (n_owner dir) dir name (wr_hash wr) bytes (versions_kept st) db1))
             (\<lambda>(n, db2). Inr ((n, existed), db2)))"

definition dav_put :: "crates \<Rightarrow> app_state \<Rightarrow> timestamp \<Rightarrow> string \<Rightarrow> user \<Rightarrow> request \<Rightarrow> world \<Rightarrow> response reply" where
  "dav_put C st now tmp_name u rq w =
     (if \<not> may_write u then (Inl Forbidden, w)
      else case path_of C (rq_uri rq) of
        Inl e \<Rightarrow> (Inl e, w)
      | Inr path \<Rightarrow>
          if path = [] then (Inr refused, w)
          else (case dav_room C st now u path (tokens_of (rq_headers rq)) (w_db w) of
              Inl r \<Rightarrow> (r, w)
            | Inr limit \<Rightarrow>
                (case receive C now tmp_name (rq_headers rq) (rq_body rq) limit w of
                   (Inl e, w1) \<Rightarrow> (Inl e, w1)
                 | (Inr (wr, bytes), w1) \<Rightarrow>
                     (case dav_commit C st now u path (tokens_of (rq_headers rq)) wr bytes (w_db w1) of
                        Inl r \<Rightarrow> (r, w1)
                      | Inr ((n, existed), db2) \<Rightarrow>
                          (rbind (etag_header C n) (\<lambda>etag. Inr \<lparr>rs_status = (if existed then 204 else 201),
                             rs_headers = [(''etag'', etag)], rs_body = []\<rparr>),
                           \<lparr>w_db = db2, w_files = local_settle C wr (w_files w1)\<rparr>)))))"

text \<open>Taking a member out of a collection is a change to the collection, which its own lock governs.\<close>

definition leaving_allowed ::
    "crates \<Rightarrow> app_state \<Rightarrow> timestamp \<Rightarrow> user \<Rightarrow> node_name list \<Rightarrow> string list \<Rightarrow> db \<Rightarrow> api_error + db" where
  "leaving_allowed C st now u path submitted db =
     rbind (locate C now u (butlast path) (default_quota_bytes st) db) (\<lambda>(place, db1).
     rbind (into_node place) (\<lambda>dir. rbind (allows now dir submitted db1) (\<lambda>_. Inr db1)))"

definition dav_delete :: "crates \<Rightarrow> app_state \<Rightarrow> timestamp \<Rightarrow> user \<Rightarrow> request \<Rightarrow> db \<Rightarrow> response answer" where
  "dav_delete C st now u rq db =
     (if \<not> may_write u then (Inl Forbidden, db)
      else case path_of C (rq_uri rq) of
        Inl e \<Rightarrow> (Inl e, db)
      | Inr path \<Rightarrow>
          if path = [] then (Inr refused, db)
          else (let submitted = tokens_of (rq_headers rq) in
            transact (\<lambda>db.
              rbind (locate_writable C now u path (default_quota_bytes st) db) (\<lambda>(place, db1).
              rbind (into_movable place) (\<lambda>n.
              rbind (allows now n submitted db1) (\<lambda>_.
              rbind (none_below now n submitted db1) (\<lambda>_.
              rbind (leaving_allowed C st now u path submitted db1) (\<lambda>db2.
              rbind (send now n db2) (\<lambda>db3. Inr (status 204, db3)))))))) db))"

section \<open>Copying and moving\<close>

definition destination_path :: "crates \<Rightarrow> headers \<Rightarrow> api_error + node_name list" where
  "destination_path C headers =
     rbind (ok_or (WrongKind ''Destination header'') (headers ''destination'')) (\<lambda>raw.
     rbind (ok_or (WrongKind ''Destination under /dav'')
         (strip_prefix (case uri_path C raw of Some p \<Rightarrow> p | None \<Rightarrow> raw) PREFIX)) (\<lambda>below_prefix.
       decoded C ''Destination in valid UTF-8'' below_prefix))"

definition overwrite :: "headers \<Rightarrow> bool" where
  "overwrite headers = (case headers ''overwrite'' of
     None \<Rightarrow> True | Some v \<Rightarrow> \<not> eq_ignore_ascii_case (trim v) ''F'')"

text \<open>What stands at the destination goes to the trash, unless it holds the source.\<close>

definition clear_occupant :: "timestamp \<Rightarrow> node \<Rightarrow> node option \<Rightarrow> bool \<Rightarrow> string list \<Rightarrow> db \<Rightarrow> db attempted" where
  "clear_occupant now source occupant over submitted db =
     (case occupant of
        None \<Rightarrow> Inr db
      | Some n \<Rightarrow>
          if \<not> over then answer_now (status 412)
          else if contains n source db then answer_now (status 403)
          else rbind (checked (allows now n submitted db)) (\<lambda>_.
            rbind (checked (none_below now n submitted db)) (\<lambda>_. checked (send now n db))))"

definition transfer ::
    "crates \<Rightarrow> app_state \<Rightarrow> timestamp \<Rightarrow> user \<Rightarrow> bool \<Rightarrow> node_name list \<Rightarrow> node_name list \<Rightarrow> bool \<Rightarrow> string list \<Rightarrow> db
      \<Rightarrow> (response \<times> db) attempted" where
  "transfer C st now u moving source_path target_path over submitted db =
     rbind (checked (locate C now u source_path (default_quota_bytes st) db)) (\<lambda>(found, db1).
     rbind (checked (if moving then (if writable found then into_movable found else Inl Forbidden)
         else if found = SharedWithMe then Inl Forbidden else into_node found)) (\<lambda>source.
     rbind (or_conflict (directory_for_write C now u (butlast target_path) False (default_quota_bytes st) db1)) (\<lambda>(dir, db2).
     rbind (checked (refuse_reserved dir (last target_path))) (\<lambda>_.
     rbind (checked (ensure (\<not> (moving \<and> n_owner dir \<noteq> n_owner source)) AcrossAccounts)) (\<lambda>_.
     rbind (if moving
        then rbind (checked (allows now source submitted db2)) (\<lambda>_.
          rbind (checked (none_below now source submitted db2)) (\<lambda>_.
            checked (leaving_allowed C st now u source_path submitted db2)))
        else Inr db2) (\<lambda>db3.
     rbind (checked (allows now dir submitted db3)) (\<lambda>_.
     (let occupant = child (n_id dir) (last target_path) db3 in
      rbind (clear_occupant now source occupant over submitted db3) (\<lambda>db4.
      rbind (if moving
         then checked (rename C now source dir (last target_path) db4)
         else (case copy_tree C now (n_owner dir) source dir (last target_path) db4 of
             Some r \<Rightarrow> checked r | None \<Rightarrow> Inl (Inl (Database RowNotFound)))) (\<lambda>(n, db5).
        Inr (status (if occupant \<noteq> None then 204 else 201), db5)))))))))))"

definition run_transfer :: "crates \<Rightarrow> app_state \<Rightarrow> timestamp \<Rightarrow> user \<Rightarrow> request \<Rightarrow> db \<Rightarrow> response answer" where
  "run_transfer C st now u rq db =
     (if \<not> may_write u then (Inl Forbidden, db)
      else case path_of C (rq_uri rq) of
        Inl e \<Rightarrow> (Inl e, db)
      | Inr source_path \<Rightarrow>
          if source_path = [] then (Inr (status 405), db)
          else (case destination_path C (rq_headers rq) of
              Inl e \<Rightarrow> (Inl e, db)
            | Inr target_path \<Rightarrow>
                if target_path = [] then (Inr (status 400), db)
                else tried (transfer C st now u (rq_method rq = ''MOVE'') source_path target_path
                    (overwrite (rq_headers rq)) (tokens_of (rq_headers rq))) db))"

section \<open>Locking\<close>

definition granted :: "crates \<Rightarrow> timestamp \<Rightarrow> lock \<Rightarrow> node_name list \<Rightarrow> node_kind \<Rightarrow> nat \<Rightarrow> response" where
  \<open>granted C now l path kind code = \<lparr>rs_status = code,
     rs_headers = [xml_type, (''lock-token'', ''<'' @ l_token l @ ''>'')],
     rs_body = ''<?xml version="1.0" encoding="utf-8"?>'' @ ''<D:prop xmlns:D="DAV:"><D:lockdiscovery>''
       @ active_lock C now l path kind @ ''</D:lockdiscovery></D:prop>''\<rparr>\<close>

fun refresh_first :: "timestamp \<Rightarrow> string list \<Rightarrow> node \<Rightarrow> int \<Rightarrow> db \<Rightarrow> (lock \<times> db) option" where
  "refresh_first now [] n seconds db = None"
| "refresh_first now (token # tokens) n seconds db =
     (case refresh_lock now token n seconds db of
        (Some l, db') \<Rightarrow> Some (l, db')
      | (None, db') \<Rightarrow> refresh_first now tokens n seconds db')"

text \<open>
  A lock on nothing makes an empty file. Its bytes are registered outside the transaction, which
  then sees the row: the first database is what stays when the transaction is rolled back.
\<close>

definition empty_file ::
    "crates \<Rightarrow> app_state \<Rightarrow> timestamp \<Rightarrow> string \<Rightarrow> user \<Rightarrow> node_name list \<Rightarrow> world \<Rightarrow> (api_error + node \<times> db) \<times> world" where
  "empty_file C st now tmp_name u path w =
     (if path = [] then (Inl (WrongKind ''path below the root''), w)
      else case file_target C now u path False (default_quota_bytes st) (w_db w) of
        Inl e \<Rightarrow> (Inl (if e = NotFound then Conflict (as_str (last path)) else e), w)
      | Inr (dir, name, db1) \<Rightarrow>
          (case local_write C now tmp_name [Inr []] (w_files w) of
             (Inl e, fs) \<Rightarrow> (Inl (Storage e), w\<lparr>w_files := fs\<rparr>)
           | (Inr wr, fs) \<Rightarrow>
               (case register_blob now (wr_hash wr) 0 (w_db w) of
                  Inl e \<Rightarrow> (Inl e, w\<lparr>w_files := fs\<rparr>)
                | Inr pool \<Rightarrow>
                    (case rbind (register_blob now (wr_hash wr) 0 db1)
                       (put_file C now (n_owner dir) dir name (wr_hash wr) 0 (versions_kept st)) of
                       Inl e \<Rightarrow> (Inl e, \<lparr>w_db = pool, w_files = fs\<rparr>)
                     | Inr (n, db2) \<Rightarrow> (Inr (n, db2), \<lparr>w_db = pool, w_files = local_settle C wr fs\<rparr>)))))"

text \<open>The rest of the transaction, on the node that is there or was just made.\<close>

definition lock_node ::
    "crates \<Rightarrow> timestamp \<Rightarrow> user \<Rightarrow> node \<Rightarrow> string list \<Rightarrow> string option \<Rightarrow> bool \<Rightarrow> int \<Rightarrow> db \<Rightarrow> api_error + lock \<times> db" where
  "lock_node C now u n submitted holder deep seconds db =
     rbind (allows now n submitted db) (\<lambda>_. take_lock C now n (u_id u) holder deep seconds db)"

definition lock_method :: "crates \<Rightarrow> app_state \<Rightarrow> timestamp \<Rightarrow> string \<Rightarrow> user \<Rightarrow> request \<Rightarrow> string \<Rightarrow> world \<Rightarrow> response reply" where
  "lock_method C st now tmp_name u rq body w =
     (if \<not> may_write u then (Inl Forbidden, w)
      else case path_of C (rq_uri rq) of
        Inl e \<Rightarrow> (Inl e, w)
      | Inr path \<Rightarrow>
          (let headers = rq_headers rq;
               seconds = requested_seconds (header_text headers ''timeout'');
               deep = (header_text headers ''depth'' \<noteq> Some ''0'');
               submitted = tokens_of headers;
               quota = default_quota_bytes st
           in if ascii_white body
              then with_db (transact (\<lambda>db.
                  rbind (locate_writable C now u path quota db) (\<lambda>(place, db1).
                  rbind (into_node place) (\<lambda>n.
                    case refresh_first now submitted n seconds db1 of
                      Some (l, db2) \<Rightarrow> Inr (granted C now l path (n_kind n) 200, db2)
                    | None \<Rightarrow> Inl (WrongKind ''lockinfo body, or the If header naming a lock to refresh''))))) w
              else case locate_writable C now u path quota (w_db w) of
                Inr (place, db1) \<Rightarrow>
                  with_db (transact (\<lambda>_. rbind (into_node place) (\<lambda>n.
                    rbind (lock_node C now u n submitted (holder_of C body) deep seconds db1) (\<lambda>(l, db2).
                      Inr (granted C now l path (n_kind n) 200, db2))))) w
              | Inl NotFound \<Rightarrow>
                  (case empty_file C st now tmp_name u path w of
                     (Inl e, w1) \<Rightarrow> (Inl e, w1)
                   | (Inr (n, db1), w1) \<Rightarrow>
                       with_db (transact (\<lambda>_.
                         rbind (lock_node C now u n submitted (holder_of C body) deep seconds db1) (\<lambda>(l, db2).
                           Inr (granted C now l path (n_kind n) 201, db2)))) w1)
              | Inl other \<Rightarrow> (Inl other, w)))"

definition unlock_method :: "crates \<Rightarrow> app_state \<Rightarrow> timestamp \<Rightarrow> user \<Rightarrow> request \<Rightarrow> db \<Rightarrow> response answer" where
  "unlock_method C st now u rq db =
     (if \<not> may_write u then (Inl Forbidden, db)
      else case path_of C (rq_uri rq) of
        Inl e \<Rightarrow> (Inl e, db)
      | Inr path \<Rightarrow>
          (case lock_token (header_text (rq_headers rq) ''lock-token'') of
             None \<Rightarrow> (Inl (WrongKind ''Lock-Token header''), db)
           | Some token \<Rightarrow>
               and_then (transact (\<lambda>db.
                   rbind (locate_writable C now u path (default_quota_bytes st) db) (\<lambda>(place, db1).
                   rbind (into_node place) (\<lambda>n. Inr (n, db1)))) db)
                 (\<lambda>n db1. let (released, db2) = release_lock n token db1
                   in (Inr (status (if released then 204 else 409)), db2))))"

section \<open>Dispatch\<close>

definition dispatch :: "crates \<Rightarrow> app_state \<Rightarrow> timestamp \<Rightarrow> string \<Rightarrow> user \<Rightarrow> request \<Rightarrow> world \<Rightarrow> response reply" where
  "dispatch C st now tmp_name u rq w =
     (let m = rq_method rq in
      if m = ''OPTIONS'' then (Inr options_response, w)
      else if m = ''PROPFIND'' then with_db (propfind C st now u rq) w
      else if m = ''PROPPATCH'' then with_db (proppatch C st now u rq) w
      else if m = ''MKCOL'' then with_db (mkcol C st now u rq) w
      else if m = ''GET'' \<or> m = ''HEAD'' then read_node C st now u rq (m = ''HEAD'') w
      else if m = ''PUT'' then dav_put C st now tmp_name u rq w
      else if m = ''DELETE'' then with_db (dav_delete C st now u rq) w
      else if m = ''COPY'' \<or> m = ''MOVE'' then with_db (run_transfer C st now u rq) w
      else if m = ''LOCK'' then (case body_of (rq_body rq) of
          Inl e \<Rightarrow> (Inl e, w) | Inr body \<Rightarrow> lock_method C st now tmp_name u rq body w)
      else if m = ''UNLOCK'' then with_db (unlock_method C st now u rq) w
      else (Inr refused, w))"

section \<open>What a method leaves\<close>

text \<open>
  A change of the tree that keeps the database sound and a guarded row where it is; and what is
  left of that when the locks themselves change.
\<close>

definition leaves :: "timestamp \<Rightarrow> string list \<Rightarrow> node \<Rightarrow> lock \<Rightarrow> db \<Rightarrow> db \<Rightarrow> bool" where
  "leaves now submitted m l db db' \<longleftrightarrow> sound db' \<and> (guarded now submitted m l db \<longrightarrow> stays m db db')"

definition spares :: "timestamp \<Rightarrow> string list \<Rightarrow> node \<Rightarrow> lock \<Rightarrow> db \<Rightarrow> db \<Rightarrow> bool" where
  "spares now submitted m l db db' \<longleftrightarrow> sound db' \<and> (guarded now submitted m l db \<longrightarrow>
     l \<in> set (locks db') \<and> (\<forall>a\<in>set (nodes db). (n_id m, n_id a) \<in> (below live (nodes db))\<^sup>* \<longrightarrow> a \<in> set (nodes db')))"

lemma leaves_refl: "sound db \<Longrightarrow> leaves now submitted m l db db"
  by (simp add: leaves_def stays_refl)

lemma leaves_trans:
  assumes "sound db" "leaves now submitted m l db db1" "leaves now submitted m l db1 db2"
  shows "leaves now submitted m l db db2"
proof -
  have "stays m db db2" if g: "guarded now submitted m l db"
  proof -
    have s1: "sound db1" and st: "stays m db db1" using assms(2) g by (auto simp: leaves_def)
    have "stays m db1 db2" using assms(3) guarded_kept [OF g s1 st] by (simp add: leaves_def)
    with stays_trans [OF assms(1) s1 _ _ st] g show ?thesis by (simp add: guarded_def)
  qed
  with assms(3) show ?thesis by (simp add: leaves_def)
qed

lemma leavesI: "sound db' \<Longrightarrow> (\<And>m. stays m db db') \<Longrightarrow> leaves now submitted m l db db'"
  by (simp add: leaves_def)

lemma leaves_spares: "leaves now submitted m l db db' \<Longrightarrow> spares now submitted m l db db'"
  by (auto simp: leaves_def spares_def stays_def apart_def guarded_def)

lemma spares_refl: "sound db \<Longrightarrow> spares now submitted m l db db"
  by (rule leaves_spares [OF leaves_refl])

text \<open>A change of the tree, and then of the locks other than the one that guards the row.\<close>

lemma spares_relock:
  assumes "leaves now submitted m l db db1" and "nodes db2 = nodes db1" and "sound db2 = sound db1"
    and "now < l_expires l \<Longrightarrow> l_token l \<notin> set submitted \<Longrightarrow> l \<in> set (locks db1) \<Longrightarrow> l \<in> set (locks db2)"
  shows "spares now submitted m l db db2"
  using assms guarded_token [of now submitted m l db] by (auto simp: leaves_def spares_def stays_def apart_def guarded_def covers_def)

lemma locate_leaves: "sound db \<Longrightarrow> locate C now u path quota db = Inr (place, db') \<Longrightarrow> leaves now' submitted m l db db'"
  by (blast intro: leavesI locate_named(1) locate_stays)

lemma locate_writable_leaves:
  "sound db \<Longrightarrow> locate_writable C now u path quota db = Inr (place, db') \<Longrightarrow> leaves now' submitted m l db db'"
  using locate_leaves locate_writable_locate by blast

lemma ensure_root_leaves:
  assumes "sound db" and "ensure_root C now owner quota db = Inr (n, db')"
  shows "leaves now' submitted m l db db'"
  using ensure_root_sound(1,5) [OF assms]
    stays_append [OF ensure_root_apart [OF assms(2)]] by (blast intro: leavesI)

lemma directory_leaves:
  "sound db \<Longrightarrow> directory_for_write C now u path create quota db = Inr (dir, db') \<Longrightarrow> leaves now' submitted m l db db'"
  by (blast intro: leavesI directory_for_write_sound(1) directory_stays)

lemma file_target_leaves:
  "sound db \<Longrightarrow> file_target C now u path create quota db = Inr (dir, name, db') \<Longrightarrow> leaves now' submitted m l db db'"
  by (blast intro: leavesI file_target_sound(1) file_target_stays)

lemma register_leaves:
  assumes "sound db" and "register_blob now h bytes db = Inr db'"
  shows "leaves now' submitted m l db db'"
proof -
  have "apart db db'" using assms(2) by (auto simp: register_blob_def dest: insert_blob_apart)
  then have "stays m db db'" for m using stays_append [of db db' "[]"] register_blob_sound [OF assms] by simp
  with register_blob_sound [OF assms] show ?thesis by (simp add: leavesI)
qed

lemma receive_leaves:
  assumes "sound (w_db w)"
  shows "leaves now' submitted m l (w_db w) (w_db (snd (receive C now name headers body limit w)))"
  unfolding receive_def using assms
  by (auto simp: leaves_refl split: option.splits prod.splits sum.splits intro: register_leaves)

lemma tried_keeps: "P db \<Longrightarrow> (\<And>x db'. f db = Inr (x, db') \<Longrightarrow> P db') \<Longrightarrow> P (snd (tried f db))"
  by (auto simp: tried_def split: sum.splits)

lemma checked_Inr [simp]: "checked x = Inr y \<longleftrightarrow> x = Inr y"
  by (simp add: checked_def map_err_eq_Inr)

lemma answer_now_Inr [simp]: "answer_now r \<noteq> Inr y"
  by (simp add: answer_now_def)

lemma or_conflict_Inr [simp]: "or_conflict x = Inr y \<longleftrightarrow> x = Inr y"
  by (auto simp: or_conflict_def split: sum.splits api_error.splits)

section \<open>Each method\<close>

lemma propfind_listing_leaves:
  assumes s: "sound db" and p: "propfind_listing C st now u path deep db = Inr (x, db')"
  shows "leaves now' submitted m l db db'"
proof -
  obtain place db1 where lo: "locate C now u path (default_quota_bytes st) db = Inr (place, db1)"
    using p by (auto simp: propfind_listing_def rbind_eq_Inr)
  note l1 = locate_leaves [OF s lo] and s1 = locate_named(1) [OF s lo]
  show ?thesis
  proof (cases place)
    case SharedWithMe
    with p lo obtain root where "ensure_root C now (u_id u) (default_quota_bytes st) db1 = Inr (root, db')"
      by (auto simp: propfind_listing_def rbind_eq_Inr)
    from leaves_trans [OF s l1 ensure_root_leaves [OF s1 this]] show ?thesis .
  qed (use p lo l1 in \<open>auto simp: propfind_listing_def rbind_eq_Inr Let_def split: if_splits option.splits\<close>)
qed

lemma propfind_leaves:
  assumes s: "sound db"
  shows "leaves now' submitted m l db (snd (propfind C st now u rq db))"
proof -
  have "leaves now' submitted m l db db'"
    if "rbind (propfind_listing C st now u path d db) (\<lambda>(((n, can_write), ls), db1).
        Inr ((n, can_write, ls, f n ls db1), db1)) = Inr (x, db')" for path d f x db'
    using that propfind_listing_leaves [OF s] by (auto simp: rbind_eq_Inr)
  then show ?thesis unfolding propfind_def Let_def
    using leaves_refl [OF s]
    by (auto split: sum.splits intro!: and_then_keeps [where P = "leaves now' submitted m l db"]
      transact_keeps [where P = "leaves now' submitted m l db"] simp: case_prod_unfold)
qed

lemma proppatch_leaves:
  assumes s: "sound db"
  shows "leaves now' submitted m l db (snd (proppatch C st now u rq db))"
  unfolding proppatch_def Let_def using leaves_refl [OF s] locate_leaves [OF s]
  by (auto split: sum.splits simp: rbind_eq_Inr intro!: transact_keeps [where P = "leaves now' submitted m l db"])

lemma mkcol_leaves:
  assumes s: "sound db"
  shows "leaves now' submitted m l db (snd (mkcol C st now u rq db))"
proof -
  have "leaves now' submitted m l db db2"
    if d: "directory_for_write C now u p False q db = Inr (dir, db1)"
      and c: "create_directories C now (n_owner dir) dir ns db1 = Inr (n, db2)" for p q dir db1 ns n db2
  proof -
    note dw = directory_for_write_sound [OF s d]
    note h = homeI [OF dw(1,4,5,6)]
    have "leaves now' submitted m l db1 db2"
      using create_directories_sound [OF c dw(1) h dw(4)] create_directories_stays [OF c dw(1) h dw(4)]
      by (blast intro: leavesI)
    with leaves_trans [OF s directory_leaves [OF s d]] show ?thesis .
  qed
  then show ?thesis unfolding mkcol_def
    using leaves_refl [OF s]
    by (auto split: sum.splits if_splits simp: rbind_eq_Inr intro!: tried_keeps [where P = "leaves now' submitted m l db"])
qed

lemma read_node_leaves:
  assumes s: "sound (w_db w)"
  shows "leaves now' submitted m l (w_db w) (w_db (snd (read_node C st now u rq h w)))"
proof (cases "path_of C (rq_uri rq)")
  case (Inr path)
  let ?r = "with_db (transact (locate C now u path (default_quota_bytes st))) w"
  have "leaves now' submitted m l (w_db w) (w_db (snd ?r))"
    by (rule with_db_keeps [where P = "leaves now' submitted m l (w_db w)"])
      (use leaves_refl [OF s] locate_leaves [OF s] in \<open>auto intro!: transact_keeps [where P = "leaves now' submitted m l (w_db w)"]\<close>)
  moreover have "snd (read_node C st now u rq h w) = snd ?r"
    using Inr by (cases ?r; cases "fst ?r") (simp_all add: read_node_def)
  ultimately show ?thesis by simp
qed (use leaves_refl [OF s] in \<open>simp add: read_node_def\<close>)

text \<open>The check of a put: what has the name, or the directory it would appear in.\<close>

lemma destination_Inr:
  assumes "destination C st now u path submitted db = Inr (Some (dir, name, existed), db1)"
  shows "file_target C now u path False (default_quota_bytes st) db = Inr (dir, name, db1)"
    and "allows now (case child (n_id dir) name db1 of Some n \<Rightarrow> n | None \<Rightarrow> dir) submitted db1 = Inr ()"
  using assms by (auto simp: destination_def rbind_eq_Inr Let_def split: sum.splits api_error.splits)

lemma dav_commit_leaves:
  assumes s: "sound db" and c: "dav_commit C st now u path submitted wr bytes db = Inr (x, db')"
  shows "leaves now submitted m l db db'"
proof -
  obtain dir name existed db1 n where d: "destination C st now u path submitted db = Inr (Some (dir, name, existed), db1)"
    and p: "put_file C now (n_owner dir) dir name (wr_hash wr) bytes (versions_kept st) db1 = Inr (n, db')"
    using c by (auto simp: dav_commit_def rbind_eq_Inr split: option.splits)
  note t = destination_Inr(1) [OF d] and al = destination_Inr(2) [OF d]
  note ft = file_target_sound [OF s t]
  have "stays m db1 db'" if g: "guarded now submitted m l db1"
  proof (rule put_file_stays [OF ft(1,3) p])
    show "m \<in> set (nodes db1)" using g by (simp add: guarded_def)
    show "e \<noteq> m" if "child (n_id dir) name db1 = Some e" for e
      using guarded_allows [OF g, of m] g al that by (auto simp: guarded_def)
  qed
  with put_file_sound(1) [OF ft(1,3) p] have "leaves now submitted m l db1 db'" by (simp add: leaves_def)
  with leaves_trans [OF s file_target_leaves [OF s t]] show ?thesis .
qed

lemma dav_put_leaves:
  assumes s: "sound (w_db w)"
  shows "leaves now (tokens_of (rq_headers rq)) m l (w_db w) (w_db (snd (dav_put C st now tmp_name u rq w)))"
proof (cases "dav_put C st now tmp_name u rq w = (fst (dav_put C st now tmp_name u rq w), w)")
  case True
  then have "snd (dav_put C st now tmp_name u rq w) = w" by (metis snd_conv)
  with leaves_refl [OF s] show ?thesis by simp
next
  case False
  let ?t = "tokens_of (rq_headers rq)"
  obtain path limit where ns: "may_write u" "path_of C (rq_uri rq) = Inr path" "path \<noteq> []"
    and r: "dav_room C st now u path ?t (w_db w) = Inr limit"
    using False by (auto simp: dav_put_def split: sum.splits if_splits)
  obtain x w1 where rc: "receive C now tmp_name (rq_headers rq) (rq_body rq) limit w = (x, w1)" by fastforce
  have l1: "leaves now ?t m l (w_db w) (w_db w1)"
    using receive_leaves [OF s, of now ?t m l C now tmp_name "rq_headers rq" "rq_body rq" limit] rc by simp
  then have s1: "sound (w_db w1)" by (simp add: leaves_def)
  show ?thesis using ns r rc l1 leaves_trans [OF s l1 dav_commit_leaves [OF s1]]
    by (auto simp: dav_put_def split: sum.splits)
qed

text \<open>What is taken out of the tree after the checks holds no guarded row.\<close>

lemma cleared_kept:
  assumes s: "sound db" and n: "n \<in> set (nodes db)" "live n"
    and al: "allows now n submitted db = Inr ()" and nb: "none_below now n submitted db = Inr ()"
    and l1: "leaves now submitted m l db db1" and g: "guarded now submitted m l db"
  shows "(n_id m, n_id n) \<notin> (below live (nodes db1))\<^sup>*"
proof -
  have s1: "sound db1" and st: "stays m db db1" using l1 g by (auto simp: leaves_def)
  have "(n_id m, n_id n) \<notin> (below live (nodes db))\<^sup>*" by (rule cleared_not_above [OF g n al nb])
  with stays_above [OF s s1 _ _ st] g show ?thesis by (simp add: guarded_def)
qed

lemma leaving_leaves:
  "sound db \<Longrightarrow> leaving_allowed C st now u path submitted db = Inr db' \<Longrightarrow> leaves now' submitted' m l db db'"
  by (auto simp: leaving_allowed_def rbind_eq_Inr intro: locate_leaves)

lemma dav_delete_leaves:
  assumes s: "sound db"
  shows "leaves now (tokens_of (rq_headers rq)) m l db (snd (dav_delete C st now u rq db))"
proof -
  let ?t = "tokens_of (rq_headers rq)"
  have "leaves now ?t m l db db3"
    if a: "locate_writable C now u path (default_quota_bytes st) db = Inr (place, db1)" "into_movable place = Inr n"
      "allows now n ?t db1 = Inr ()" "none_below now n ?t db1 = Inr ()"
      "leaving_allowed C st now u path ?t db1 = Inr db2" "send now n db2 = Inr db3" for path place db1 n db2 db3
  proof -
    note lo = locate_writable_locate [OF a(1), THEN conjunct1]
    note s1 = locate_named(1) [OF s lo] and n1 = locate_named(3) [OF s lo a(2), THEN conjunct1] locate_named(3) [OF s lo a(2), THEN conjunct2]
    have l2: "leaves now ?t m l db1 db2" by (rule leaving_leaves [OF s1 a(5)])
    then have s2: "sound db2" by (simp add: leaves_def)
    obtain ns where "nodes db2 = nodes db1 @ ns"
      using a(5) s1 by (auto simp: leaving_allowed_def rbind_eq_Inr dest: locate_named(2))
    with n1 have n2: "n \<in> set (nodes db2)" "live n" by auto
    have "leaves now ?t m l db1 db3"
    proof -
      have "stays m db1 db3" if g: "guarded now ?t m l db1"
      proof -
        have "stays m db2 db3"
          by (rule send_stays [OF s2 n2 a(6) cleared_kept [OF s1 n1 a(3,4) l2 g]])
        with stays_trans [OF s1 s2, of m db3] l2 g show ?thesis by (simp add: leaves_def guarded_def)
      qed
      with send_sound(1) [OF s2 n2 a(6)] show ?thesis by (simp add: leaves_def)
    qed
    with leaves_trans [OF s locate_writable_leaves [OF s a(1)]] show ?thesis .
  qed
  then show ?thesis unfolding dav_delete_def Let_def
    using leaves_refl [OF s]
    by (auto split: sum.splits if_splits simp: rbind_eq_Inr intro!: transact_keeps [where P = "leaves now ?t m l db"])
qed

subsection \<open>Copies and moves\<close>

lemma copy_tree_name [simp]: "copy_tree C now owner (source\<lparr>n_name := x\<rparr>) dir name db = copy_tree C now owner source dir name db"
proof -
  have "copy_one C now owner i nm (source\<lparr>n_name := x\<rparr>) db = copy_one C now owner i nm source db" for i nm
    by (simp add: copy_one_def cong: node_kind.case_cong)
  then show ?thesis by (simp add: copy_tree_def contains_def split: sum.split)
qed

lemma contains_name [simp]: "contains n (source\<lparr>n_name := x\<rparr>) db = contains n source db"
  by (simp add: contains_def)

lemma child_row:
  "child i name db = Some n \<Longrightarrow> n \<in> set (nodes db) \<and> live n \<and> (n_id n, i) \<in> below live (nodes db)"
  using child_Some [of i name db n] by (auto simp: below_def)

text \<open>Clearing the destination keeps the source and the directory.\<close>

lemma clear_occupant_leaves:
  assumes s: "sound db" and oc: "child (n_id dir) name db = occupant" and src: "source \<in> set (nodes db)" "live source"
    and dir: "dir \<in> set (nodes db)" and c: "clear_occupant now source occupant over submitted db = Inr db'"
  shows "leaves now submitted m l db db'" and "source \<in> set (nodes db')" and "dir \<in> set (nodes db')"
proof -
  have "leaves now submitted m l db db' \<and> source \<in> set (nodes db') \<and> dir \<in> set (nodes db')"
  proof (cases occupant)
    case None
    with c leaves_refl [OF s] src dir show ?thesis by (simp add: clear_occupant_def)
  next
    case (Some n)
    with c have nc: "\<not> contains n source db" and al: "allows now n submitted db = Inr ()"
      and nb: "none_below now n submitted db = Inr ()" and se: "send now n db = Inr db'"
      by (auto simp: clear_occupant_def rbind_eq_Inr split: if_splits)
    from Some oc have n: "n \<in> set (nodes db)" "live n" "(n_id n, n_id dir) \<in> below live (nodes db)"
      using child_row by blast+
    have s': "sound db'" by (rule send_sound(1) [OF s n(1,2) se])
    have out: "(n_id source, n_id n) \<notin> (below live (nodes db))\<^sup>*"
      using nc contains_iff [OF s n(1)] below_star_mono by blast
    have up: "(n_id dir, n_id n) \<notin> (below live (nodes db))\<^sup>*"
      using forest_no_cycle [OF soundD(8) [OF s] n(3)] by blast
    have "source \<in> set (nodes db')" using send_stays [OF s n(1,2) se out] src by (auto simp: stays_def)
    moreover have "dir \<in> set (nodes db')" using send_stays [OF s n(1,2) se up] dir by (auto simp: stays_def)
    moreover have "stays m db db'" if g: "guarded now submitted m l db"
      by (rule send_stays [OF s n(1,2) se cleared_not_above [OF g n(1,2) al nb]])
    ultimately show ?thesis using s' by (simp add: leaves_def)
  qed
  then show "leaves now submitted m l db db'" "source \<in> set (nodes db')" "dir \<in> set (nodes db')" by blast+
qed

text \<open>The last step, when the checks of a move were made on an earlier state.\<close>

lemma rename_leaves:
  assumes s: "sound db" and n: "n \<in> set (nodes db)" "live n" "n \<in> set (nodes db1)"
    and al: "allows now n submitted db = Inr ()" and nb: "none_below now n submitted db = Inr ()"
    and l1: "leaves now submitted m l db db1" and dir: "dir \<in> set (nodes db1)" "live dir" "n_owner dir = n_owner n"
    and r: "rename C now n dir name db1 = Inr (n', db2)"
  shows "leaves now submitted m l db db2"
proof -
  have s1: "sound db1" using l1 by (simp add: leaves_def)
  have "stays m db db2" if g: "guarded now submitted m l db"
  proof -
    have "stays m db1 db2" by (rule rename_stays [OF s1 n(3) r cleared_kept [OF s n(1,2) al nb l1 g]])
    with stays_trans [OF s s1, of m db2] l1 g show ?thesis by (simp add: leaves_def guarded_def)
  qed
  with rename_sound(1) [OF s1 n(3,2) dir r] show ?thesis by (simp add: leaves_def)
qed

lemma ensure_Inr [simp]: "ensure p e = Inr u \<longleftrightarrow> p"
  by (simp add: ensure_def)

lemma transfer_Inr:
  assumes "transfer C st now u moving source_path target_path over submitted db = Inr (x, db5)"
  obtains found db1 source dir db2 db3 db4 n where
    "locate C now u source_path (default_quota_bytes st) db = Inr (found, db1)"
    "(if moving then (if writable found then into_movable found else Inl Forbidden)
         else if found = SharedWithMe then Inl Forbidden else into_node found) = Inr source"
    "directory_for_write C now u (butlast target_path) False (default_quota_bytes st) db1 = Inr (dir, db2)"
    "moving \<Longrightarrow> n_owner dir = n_owner source"
    "if moving then allows now source submitted db2 = Inr () \<and> none_below now source submitted db2 = Inr ()
        \<and> leaving_allowed C st now u source_path submitted db2 = Inr db3 else db3 = db2"
    "clear_occupant now source (child (n_id dir) (last target_path) db3) over submitted db3 = Inr db4"
    "if moving then rename C now source dir (last target_path) db4 = Inr (n, db5)
        else copy_tree C now (n_owner dir) source dir (last target_path) db4 = Some (Inr (n, db5))"
proof (cases moving)
  case True
  with assms show thesis
    by (simp add: transfer_def rbind_eq_Inr Let_def) (elim exE conjE, rule that, simp_all)
next
  case False
  with assms show thesis
    by (clarsimp simp: transfer_def rbind_eq_Inr Let_def split: option.split_asm) (rule that, simp_all)
qed

lemma transfer_leaves:
  assumes s: "sound db" and t: "transfer C st now u moving source_path target_path over submitted db = Inr (x, db5)"
  shows "leaves now submitted m l db db5"
proof -
  obtain found db1 source dir db2 db3 db4 n where
    lo: "locate C now u source_path (default_quota_bytes st) db = Inr (found, db1)"
    and so: "(if moving then (if writable found then into_movable found else Inl Forbidden)
         else if found = SharedWithMe then Inl Forbidden else into_node found) = Inr source"
    and dw: "directory_for_write C now u (butlast target_path) False (default_quota_bytes st) db1 = Inr (dir, db2)"
    and own: "moving \<Longrightarrow> n_owner dir = n_owner source"
    and ck: "if moving then allows now source submitted db2 = Inr () \<and> none_below now source submitted db2 = Inr ()
        \<and> leaving_allowed C st now u source_path submitted db2 = Inr db3 else db3 = db2"
    and cl: "clear_occupant now source (child (n_id dir) (last target_path) db3) over submitted db3 = Inr db4"
    and fin: "if moving then rename C now source dir (last target_path) db4 = Inr (n, db5)
        else copy_tree C now (n_owner dir) source dir (last target_path) db4 = Some (Inr (n, db5))"
    by (rule transfer_Inr [OF t]) blast
  note s1 = locate_named(1) [OF s lo] and ln = locate_named(3,4) [OF s lo]
  note d = directory_for_write_sound [OF s1 dw]
  have l2: "leaves now submitted m l db db2" by (rule leaves_trans [OF s locate_leaves [OF s lo] directory_leaves [OF s1 dw]])
  obtain row where row: "row \<in> set (nodes db1)" "live row" "source = row\<lparr>n_name := n_name source\<rparr>" "moving \<Longrightarrow> source = row"
  proof (cases moving)
    case True
    with so ln(1) [of source] that [of source] show thesis by (auto split: if_splits)
  next
    case False
    with so ln(2) [of source] that show thesis by (auto split: if_splits)
  qed
  obtain ns where ns: "nodes db3 = nodes db2 @ ns" and l23: "leaves now submitted m l db2 db3"
  proof (cases moving)
    case True
    with ck have le: "leaving_allowed C st now u source_path submitted db2 = Inr db3" by simp
    then have "\<exists>ns. nodes db3 = nodes db2 @ ns"
      using d(1) by (auto simp: leaving_allowed_def rbind_eq_Inr dest: locate_named(2))
    with leaving_leaves [OF d(1) le] that show thesis by blast
  next
    case False
    with ck leaves_refl [OF d(1)] that [of "[]"] show thesis by simp
  qed
  have s3: "sound db3" using l23 by (simp add: leaves_def)
  have r2: "row \<in> set (nodes db2)" using row(1) d(2) by auto
  have r3: "row \<in> set (nodes db3)" and d3: "dir \<in> set (nodes db3)" using r2 d(4) ns by auto
  have cl': "clear_occupant now row (child (n_id dir) (last target_path) db3) over submitted db3 = Inr db4"
    using cl contains_name [where source = row and x = "n_name source"] row(3) by (auto simp: clear_occupant_def contains_def split: option.splits)
  note oc = clear_occupant_leaves [OF s3 refl r3 row(2) d3 cl']
  have s4: "sound db4" using oc(1) by (simp add: leaves_def)
  have l24: "leaves now submitted m l db2 db4" by (rule leaves_trans [OF d(1) l23 oc(1)])
  have "leaves now submitted m l db2 db5"
  proof (cases moving)
    case True
    then have sr: "source = row" using row(4) by simp
    with True ck fin own have m: "allows now row submitted db2 = Inr ()" "none_below now row submitted db2 = Inr ()"
      "rename C now row dir (last target_path) db4 = Inr (n, db5)" "n_owner dir = n_owner row" by auto
    show ?thesis by (rule rename_leaves [OF d(1) r2 row(2) oc(2) m(1,2) l24 oc(3) d(5) m(4,3)])
  next
    case False
    with fin row(3) copy_tree_name [where C = C and now = now and owner = "n_owner dir" and source = row and x = "n_name source"]
    have c: "copy_tree C now (n_owner dir) row dir (last target_path) db4 = Some (Inr (n, db5))" by simp
    note h = homeI [OF s4 oc(3) d(5,6)]
    have "leaves now submitted m l db4 db5"
      using copy_tree_sound(1) [OF s4 oc(2) h c] copy_stays [OF s4 oc(2) h c] by (blast intro: leavesI)
    with leaves_trans [OF d(1) l24] show ?thesis .
  qed
  with leaves_trans [OF s l2] show ?thesis .
qed

lemma run_transfer_leaves:
  assumes s: "sound db"
  shows "leaves now (tokens_of (rq_headers rq)) m l db (snd (run_transfer C st now u rq db))"
  unfolding run_transfer_def using leaves_refl [OF s] transfer_leaves [OF s]
  by (auto split: sum.splits intro!: tried_keeps [where P = "leaves now (tokens_of (rq_headers rq)) m l db"])

subsection \<open>Locks\<close>

lemma refresh_lock_frame:
  assumes "refresh_lock now token n seconds db = (r, db')"
  shows "nodes db' = nodes db" and "sound db' = sound db"
    and "l \<in> set (locks db) \<Longrightarrow> l_token l \<noteq> token \<Longrightarrow> l \<in> set (locks db')"
  using assms by (force simp: refresh_lock_def Let_def)+

lemma refresh_first_frame:
  "refresh_first now tokens n seconds db = Some (k, db') \<Longrightarrow> nodes db' = nodes db \<and> sound db' = sound db
     \<and> (l \<in> set (locks db) \<longrightarrow> l_token l \<notin> set tokens \<longrightarrow> l \<in> set (locks db'))"
proof (induction now tokens n seconds db rule: refresh_first.induct)
  case (2 now token tokens n seconds db)
  obtain r db1 where r: "refresh_lock now token n seconds db = (r, db1)" by fastforce
  note f = refresh_lock_frame [OF r]
  show ?case
  proof (cases r)
    case None
    with r 2(2) have "refresh_first now tokens n seconds db1 = Some (k, db')" by simp
    from 2(1) [OF r [symmetric] None this] f show ?thesis by auto
  next
    case (Some x)
    with r 2(2) have "db' = db1" by simp
    with f show ?thesis by auto
  qed
qed simp

lemma lock_node_spares:
  assumes l1: "leaves now submitted m l db db1" and k: "lock_node C now u n given_tokens holder deep seconds db1 = Inr (k, db2)"
  shows "spares now submitted m l db db2"
proof -
  have t: "take_lock C now n (u_id u) holder deep seconds db1 = Inr (k, db2)" using k by (auto simp: lock_node_def rbind_eq_Inr)
  note r = take_lock_Inr [OF t]
  show ?thesis by (rule spares_relock [OF l1 r(7,10)]) (auto simp: r(1))
qed

text \<open>The directory a write goes to, when no directory is made on the way.\<close>

lemma directory_found:
  assumes "directory_for_write C now u p False quota db = Inr (dir, db1)"
  obtains (shelf) x rest m start where "p \<noteq> []" "is_shelf (hd p)" "tl p = x # rest"
      "mount_named (u_email u) x db = Inr (m, start)" "may_write_access (m_access m)"
      "resolve start rest db = Inr dir" "db1 = db"
    | (own) root where "\<not> (p \<noteq> [] \<and> is_shelf (hd p))" "ensure_root C now (u_id u) quota db = Inr (root, db1)"
      "resolve root p db1 = Inr dir"
proof (cases "p \<noteq> [] \<and> is_shelf (hd p)")
  case True
  show thesis
  proof (cases "tl p")
    case Nil
    with assms True show thesis by (simp add: directory_for_write_def)
  next
    case (Cons x rest)
    let ?next = "\<lambda>(start, rest, db1). rbind (rbind (resolve start rest db1) (\<lambda>n. Inr (n, db1)))
      (\<lambda>(dir, db2). if n_kind dir = Directory then Inr (dir, db2) else Inl (WrongKind ''directory''))"
    from assms True Cons have "rbind (rbind (mount_named (u_email u) x db) (\<lambda>(m, start).
          if may_write_access (m_access m) then Inr (start, rest, db) else Inl Forbidden)) ?next = Inr (dir, db1)"
      by (simp add: directory_for_write_def)
    then obtain y where y: "rbind (mount_named (u_email u) x db) (\<lambda>(m, start).
        if may_write_access (m_access m) then Inr (start, rest, db) else Inl Forbidden) = Inr y" "?next y = Inr (dir, db1)"
      by (rule rbindE)
    from y(1) obtain m start where ms: "mount_named (u_email u) x db = Inr (m, start)" "may_write_access (m_access m)"
      "y = (start, rest, db)" by (rule rbindE) (simp split: prod.splits if_splits)
    from y(2) [unfolded ms(3)] have "resolve start rest db = Inr dir" "db1 = db"
      by (auto simp: rbind_eq_Inr split: if_splits)
    note ms(1,2) this
    with True Cons show thesis by (intro shelf) simp_all
  qed
next
  case False
  with assms obtain root where "ensure_root C now (u_id u) quota db = Inr (root, db1)" "resolve root p db1 = Inr dir"
    by (auto simp: directory_for_write_def rbind_eq_Inr split: if_splits)
  with False show thesis by (rule own)
qed

text \<open>A lock on nothing makes a file where there was none.\<close>

lemma locate_missing:
  assumes s: "sound db" and t: "file_target C now u path False quota db = Inr (dir, name, db1)" and path: "path \<noteq> []"
    and nf: "locate_writable C now u path quota db = Inl NotFound"
  shows "child (n_id dir) name db1 = None"
proof (rule ccontr)
  assume "child (n_id dir) name db1 \<noteq> None"
  then obtain e where e: "child (n_id dir) name db1 = Some e" by blast
  show False
  proof (cases "length path = 2 \<and> is_shelf (hd path)")
    case True
    then obtain a x where px: "path = [a, x]" by (cases path; cases "tl path") auto
    from t True obtain m f where "mount_named (u_email u) x db = Inr (m, f)" "may_write_access (m_access m)"
      by (auto simp: file_target_def px rbind_eq_Inr split: if_splits)
    with nf True show False by (auto simp: locate_writable_def locate_def px)
  next
    case False
    with t path have d: "directory_for_write C now u (butlast path) False quota db = Inr (dir, db1)"
      and rr: "refuse_reserved dir (last path) = Inr ()" and nm: "name = last path"
      by (auto simp: file_target_def rbind_eq_Inr split: if_splits)
    have split: "path = butlast path @ [last path]" using path by simp
    have to: "resolve start (rest @ [last path]) db1 = Inr e" if "resolve start rest db1 = Inr dir" for start rest
      using that e nm by (simp add: resolve_append)
    from d show False
    proof (cases rule: directory_found)
      case (shelf x rest m start)
      have "tl path = x # (rest @ [last path])" "hd path = hd (butlast path)" using shelf(1,3) by (subst split, simp)+
      with shelf to [of start rest] path nf show False by (auto simp: locate_writable_def locate_def)
    next
      case (own root)
      have "\<not> is_shelf (hd path)"
      proof (cases "butlast path")
        case Nil
        then have "dir = root" "hd path = last path" using own(3) split by (auto, metis append_Nil list.sel(1))
        with rr ensure_root_sound(4) [OF s own(2)] show ?thesis by (auto simp: refuse_reserved_def split: if_splits)
      next
        case (Cons y ys)
        then have "hd path = y" by (subst split) simp
        with own Cons show ?thesis by simp
      qed
      with own(2) to [OF own(3)] path nf show False by (auto simp: locate_writable_def locate_def)
    qed
  qed
qed

lemma empty_file_leaves:
  assumes s: "sound (w_db w)" and nf: "locate_writable C now u path (default_quota_bytes st) (w_db w) = Inl NotFound"
    and e: "empty_file C st now tmp_name u path w = (r, w')"
  shows "leaves now submitted m l (w_db w) (w_db w')"
    and "r = Inr (n, db1) \<Longrightarrow> leaves now submitted m l (w_db w) db1"
proof -
  show "leaves now submitted m l (w_db w) (w_db w')"
    using e leaves_refl [OF s] register_leaves [OF s]
    by (auto simp: empty_file_def split: if_splits sum.splits prod.splits)
  assume r: "r = Inr (n, db1)"
  obtain dir name db2 h db3 where path: "path \<noteq> []"
    and t: "file_target C now u path False (default_quota_bytes st) (w_db w) = Inr (dir, name, db2)"
    and rb: "register_blob now h 0 db2 = Inr db3"
    and p: "put_file C now (n_owner dir) dir name h 0 (versions_kept st) db3 = Inr (n, db1)"
    using e r by (auto simp: empty_file_def rbind_eq_Inr split: if_splits sum.splits prod.splits)
  note ft = file_target_sound [OF s t] and rs = register_blob_sound [OF file_target_sound(1) [OF s t] rb]
  have h3: "home (n_owner dir) (n_id dir) db3" using ft(3) rs by (simp add: home_def)
  have s3: "sound db3" using rs by simp
  have l3: "leaves now submitted m l (w_db w) db3"
    by (rule leaves_trans [OF s file_target_leaves [OF s t] register_leaves [OF ft(1) rb]])
  have no: "child (n_id dir) name db3 = None" using locate_missing [OF s t path nf] rs by (simp add: child_def)
  have "leaves now submitted m l db3 db1"
  proof -
    have "stays m db3 db1" if "guarded now submitted m l db3"
      by (rule put_file_stays [OF s3 h3 p]) (use no that in \<open>auto simp: guarded_def\<close>)
    with put_file_sound(1) [OF s3 h3 p] show ?thesis by (simp add: leaves_def)
  qed
  with leaves_trans [OF s l3] show "leaves now submitted m l (w_db w) db1" .
qed

lemma lock_method_spares:
  assumes s: "sound (w_db w)"
  shows "spares now (tokens_of (rq_headers rq)) m l (w_db w) (w_db (snd (lock_method C st now tmp_name u rq body w)))"
proof (cases "may_write u \<and> \<not> isl (path_of C (rq_uri rq))")
  case False
  then show ?thesis using spares_refl [OF s] by (auto simp: lock_method_def split: sum.splits)
next
  case True
  then obtain path where w: "may_write u" and p: "path_of C (rq_uri rq) = Inr path" by (cases "path_of C (rq_uri rq)") auto
  let ?t = "tokens_of (rq_headers rq)" and ?q = "default_quota_bytes st"
  let ?P = "spares now ?t m l (w_db w)"
  have refl: "?P (w_db w)" by (rule spares_refl [OF s])
  have refresh: "?P db2" if "locate_writable C now u path ?q (w_db w) = Inr (place, db1)"
      "refresh_first now ?t n seconds db1 = Some (k, db2)" for place db1 n seconds k db2
    using spares_relock [OF locate_writable_leaves [OF s that(1)]] refresh_first_frame [OF that(2)] by blast
  have take: "?P db2" if "leaves now ?t m l (w_db w) db1" "lock_node C now u n ts holder deep seconds db1 = Inr (k, db2)"
    for db1 n ts holder deep seconds k db2
    by (rule lock_node_spares [OF that])
  show ?thesis
  proof (cases "ascii_white body")
    case True
    show ?thesis unfolding lock_method_def Let_def using w p True
      by (simp, intro with_db_keeps [where P = ?P] transact_keeps [where P = ?P] refl)
        (auto simp: rbind_eq_Inr split: option.splits intro: refresh)
  next
    case body: False
    show ?thesis
    proof (cases "locate_writable C now u path ?q (w_db w)")
      case (Inr pd)
      then obtain place db1 where lo: "locate_writable C now u path ?q (w_db w) = Inr (place, db1)" by (cases pd) auto
      note l1 = locate_writable_leaves [OF s lo]
      show ?thesis unfolding lock_method_def Let_def using w p body lo
        by (simp, intro with_db_keeps [where P = ?P] transact_keeps [where P = ?P] refl)
          (auto simp: rbind_eq_Inr intro: take [OF l1])
    next
      case (Inl e)
      show ?thesis
      proof (cases "e = NotFound")
        case True
        obtain r w1 where ef: "empty_file C st now tmp_name u path w = (r, w1)" by fastforce
        note el = empty_file_leaves [OF s Inl [unfolded True] ef]
        have p1: "?P (w_db w1)" by (rule leaves_spares [OF el(1)])
        show ?thesis
        proof (cases r)
          case (Inr nd)
          then obtain n db1 where nd: "r = Inr (n, db1)" by (cases nd) auto
          have l1: "leaves now ?t m l (w_db w) db1" by (rule el(2) [OF nd])
          show ?thesis unfolding lock_method_def Let_def using w p body Inl True ef nd
            by (simp, intro with_db_keeps [where P = ?P] transact_keeps [where P = ?P] p1)
              (auto simp: rbind_eq_Inr intro: take [OF l1])
        next
          case (Inl x)
          show ?thesis unfolding lock_method_def Let_def
            using w p body \<open>locate_writable C now u path ?q (w_db w) = Inl e\<close> True ef Inl p1 by simp
        qed
      next
        case False
        then show ?thesis unfolding lock_method_def Let_def using w p body Inl refl by (simp split: api_error.split)
      qed
    qed
  qed
qed

lemma release_lock_frame:
  assumes "release_lock n token db = (b, db')"
  shows "nodes db' = nodes db" and "sound db' = sound db"
    and "l \<in> set (locks db) \<Longrightarrow> l_token l \<noteq> token \<Longrightarrow> l \<in> set (locks db')"
  using assms by (auto simp: release_lock_def Let_def)

lemma unlock_method_spares:
  assumes s: "sound db" and other: "lock_token (header_text (rq_headers rq) ''lock-token'') \<noteq> Some (l_token l)"
  shows "spares now' submitted m l db (snd (unlock_method C st now u rq db))"
proof -
  have located: "leaves now' submitted m l db db1"
    if "transact (\<lambda>db. rbind (locate_writable C now u path q db) (\<lambda>(place, db1).
      rbind (into_node place) (\<lambda>n. Inr (n, db1)))) db = (r, db1)" for path q r db1
    using that leaves_refl [OF s] locate_writable_leaves [OF s]
    by (cases r) (auto simp: transact_Inr transact_Inl rbind_eq_Inr)
  have "spares now' submitted m l db db2"
    if "leaves now' submitted m l db db1" "release_lock n token db1 = (b, db2)" "token \<noteq> l_token l" for n token db1 b db2
    using spares_relock [OF that(1)] release_lock_frame [OF that(2)] that(3) by metis
  then show ?thesis unfolding unlock_method_def
    using spares_refl [OF s] located other
    by (auto split: sum.splits option.splits simp: and_then_def Let_def intro: leaves_spares split: prod.splits) metis
qed

section \<open>A lock that is held\<close>

lemma dispatch_spares:
  assumes s: "sound (w_db w)" and other: "lock_token (header_text (rq_headers rq) ''lock-token'') \<noteq> Some (l_token l)"
  shows "spares now (tokens_of (rq_headers rq)) m l (w_db w) (w_db (snd (dispatch C st now tmp_name u rq w)))"
proof -
  let ?P = "spares now (tokens_of (rq_headers rq)) m l (w_db w)"
  have refl: "?P (w_db w)" by (rule spares_refl [OF s])
  have db: "?P (w_db (snd (with_db f w)))" if "?P (snd (f (w_db w)))" for f :: "db \<Rightarrow> response answer"
    by (rule with_db_keeps [where P = ?P and f = f and w = w, OF refl that])
  have "?P (w_db (snd (read_node C st now u rq h w)))" for h
    by (rule leaves_spares [OF read_node_leaves [OF s]])
  moreover have "?P (w_db (snd (dav_put C st now tmp_name u rq w)))" by (rule leaves_spares [OF dav_put_leaves [OF s]])
  moreover have "?P (w_db (snd (lock_method C st now tmp_name u rq body w)))" for body by (rule lock_method_spares [OF s])
  moreover have "?P (w_db (snd (with_db (propfind C st now u rq) w)))"
    by (rule db, rule leaves_spares [OF propfind_leaves [OF s]])
  moreover have "?P (w_db (snd (with_db (proppatch C st now u rq) w)))"
    by (rule db, rule leaves_spares [OF proppatch_leaves [OF s]])
  moreover have "?P (w_db (snd (with_db (mkcol C st now u rq) w)))"
    by (rule db, rule leaves_spares [OF mkcol_leaves [OF s]])
  moreover have "?P (w_db (snd (with_db (dav_delete C st now u rq) w)))"
    by (rule db, rule leaves_spares [OF dav_delete_leaves [OF s]])
  moreover have "?P (w_db (snd (with_db (run_transfer C st now u rq) w)))"
    by (rule db, rule leaves_spares [OF run_transfer_leaves [OF s]])
  moreover have "?P (w_db (snd (with_db (unlock_method C st now u rq) w)))"
    by (rule db, rule unlock_method_spares [OF s other])
  ultimately show ?thesis unfolding dispatch_def Let_def using refl by (simp split: sum.split)
qed

lemma dispatch_sound:
  assumes "sound (w_db w)"
  shows "sound (w_db (snd (dispatch C st now tmp_name u rq w)))"
proof -
  obtain l :: lock where "lock_token (header_text (rq_headers rq) ''lock-token'') \<noteq> Some (l_token l)"
  proof (cases "lock_token (header_text (rq_headers rq) ''lock-token'')")
    case (Some t)
    show thesis by (rule that [of "\<lparr>l_token = CHR ''x'' # t, l_node = 0, l_owner = 0, l_holder = None, l_deep = False, l_expires = 0\<rparr>"])
      (simp add: Some)
  qed (use that in simp)
  from dispatch_spares [OF assms this] show ?thesis by (simp add: spares_def)
qed

text \<open>
  C39. A row under a lock in force, its own or a deep one above it, is left alone by every request that
  submits neither the lock's token nor the token of another lock over a row the lock covers, whatever the
  method: the row and every row above it stay as they are, so the way down to it does too, and so does
  the lock. Of two locks over one row the server asks for the token of one, which is why the other's
  must not be submitted; where locks are exclusive there is no other (\<open>exclusive_not_bypassed\<close>).
\<close>

theorem locked_left_alone:
  assumes "sound (w_db w)" and "locks_ok (w_db w)"
    and "m \<in> set (nodes (w_db w))" and "live m" and "l \<in> set (locks (w_db w))" and "covers now m (w_db w) l"
    and "\<not> bypassed now (tokens_of (rq_headers rq)) m l (w_db w)"
    and "lock_token (header_text (rq_headers rq) ''lock-token'') \<noteq> Some (l_token l)"
    and "dispatch C st now tmp_name u rq w = (r, w')"
  shows "l \<in> set (locks (w_db w'))
    \<and> (\<forall>a\<in>set (nodes (w_db w)). (n_id m, n_id a) \<in> (below live (nodes (w_db w)))\<^sup>* \<longrightarrow> a \<in> set (nodes (w_db w')))"
proof -
  have "guarded now (tokens_of (rq_headers rq)) m l (w_db w)" using assms(1-7) by (simp add: guarded_def)
  with dispatch_spares [OF assms(1,8), of now m C st tmp_name u] assms(9) show ?thesis by (simp add: spares_def)
qed

section \<open>Locks of the sample account\<close>

definition sample_request :: "string \<Rightarrow> string \<Rightarrow> (string \<times> string) list \<Rightarrow> string \<Rightarrow> request" where
  "sample_request m uri hs body = \<lparr>rq_method = m, rq_uri = uri, rq_headers = map_of hs, rq_body = [Inr body]\<rparr>"

definition sample_lock :: "node \<Rightarrow> lock" where
  "sample_lock n = \<lparr>l_token = TOKEN_PREFIX @ ''x'', l_node = n_id n, l_owner = 1, l_holder = None,
     l_deep = False, l_expires = 600 * second\<rparr>"

definition locked_world :: "node \<Rightarrow> world" where
  "locked_world n = \<lparr>w_db = sample\<lparr>locks := [sample_lock n]\<rparr>, w_files = []\<rparr>"

lemma locked_world_sound: "sound (w_db (locked_world n))"
  using sample_sound by (simp add: locked_world_def)

lemma locked_world_ok: "exclusive 5 (w_db (locked_world sample_file)) \<and> locks_ok (w_db (locked_world sample_file))
  \<and> covers 5 sample_file (w_db (locked_world sample_file)) (sample_lock sample_file)"
  by code_simp

lemma sample_uris: "path_of sample_crates ''/dav/a'' = Inr [NodeName ''a'']"
  "path_of sample_crates ''/dav/a/g'' = Inr [NodeName ''a'', NodeName ''g'']"
  by code_simp+

theorem locked_left_alone_witness:
  "\<exists>r w'. dispatch sample_crates sample_state 5 ''t'' sample_user (sample_request ''DELETE'' ''/dav/a'' [] [])
      (locked_world sample_file) = (r, w')
    \<and> sample_lock sample_file \<in> set (locks (w_db w')) \<and> sample_file \<in> set (nodes (w_db w'))"
proof -
  let ?w = "locked_world sample_file" and ?rq = "sample_request ''DELETE'' ''/dav/a'' [] []"
  obtain r w' where d: "dispatch sample_crates sample_state 5 ''t'' sample_user ?rq ?w = (r, w')" by fastforce
  have t: "l_token (sample_lock sample_file) \<notin> set (tokens_of (rq_headers ?rq))"
    "lock_token (header_text (rq_headers ?rq) ''lock-token'') \<noteq> Some (l_token (sample_lock sample_file))"
    by (simp_all add: sample_request_def tokens_of_def header_text_def submitted_tokens_def lock_token_def)
  have ns: "nodes (w_db ?w) = nodes sample" "locks (w_db ?w) = [sample_lock sample_file]" by (simp_all add: locked_world_def)
  have m: "sample_file \<in> set (nodes (w_db ?w))" "live sample_file"
    by (simp add: ns sample_nodes, code_simp)
  have l: "sample_lock sample_file \<in> set (locks (w_db ?w))" by (simp add: ns)
  from exclusive_not_bypassed [OF locked_world_sound _ m l t(1)] locked_world_ok
  have nb: "\<not> bypassed 5 (tokens_of (rq_headers ?rq)) sample_file (sample_lock sample_file) (w_db ?w)" by blast
  from locked_left_alone [OF locked_world_sound _ m l _ nb t(2) d] locked_world_ok d m(1) show ?thesis by blast
qed

subsection \<open>What a lock does not check\<close>

lemma case_result_iff: "(case r of Inl _ \<Rightarrow> False | Inr x \<Rightarrow> P x) \<longleftrightarrow> (\<exists>x. r = Inr x \<and> P x)"
  by (cases r) auto

lemma lock_located:
  assumes "may_write u" "path_of C (rq_uri rq) = Inr path" "\<not> ascii_white body"
    "locate_writable C now u path (default_quota_bytes st) (w_db w) = Inr (place, db1)" "into_node place = Inr n"
    "lock_node C now u n (tokens_of (rq_headers rq)) (holder_of C body) (header_text (rq_headers rq) ''depth'' \<noteq> Some ''0'')
       (requested_seconds (header_text (rq_headers rq) ''timeout'')) db1 = Inr (k, db2)"
  shows "lock_method C st now tmp_name u rq body w = (Inr (granted C now k path (n_kind n) 200), w\<lparr>w_db := db2\<rparr>)"
  using assms by (simp add: lock_method_def Let_def with_db_def transact_def)

lemma lock_created:
  assumes "may_write u" "path_of C (rq_uri rq) = Inr path" "\<not> ascii_white body"
    "locate_writable C now u path (default_quota_bytes st) (w_db w) = Inl NotFound"
    "empty_file C st now tmp_name u path w = (Inr (n, db1), w1)"
    "lock_node C now u n (tokens_of (rq_headers rq)) (holder_of C body) (header_text (rq_headers rq) ''depth'' \<noteq> Some ''0'')
       (requested_seconds (header_text (rq_headers rq) ''timeout'')) db1 = Inr (k, db2)"
  shows "lock_method C st now tmp_name u rq body w = (Inr (granted C now k path (n_kind n) 201), w1\<lparr>w_db := db2\<rparr>)"
  using assms by (simp add: lock_method_def Let_def with_db_def transact_def)

lemma sample_request_plain:
  "rq_uri (sample_request m uri [] body) = uri" "tokens_of (rq_headers (sample_request m uri [] body)) = []"
  "header_text (rq_headers (sample_request m uri [] body)) name = None"
  "requested_seconds None = 600" "may_write sample_user"
  "default_quota_bytes sample_state = 1000" "\<not> ascii_white ''x''"
  by (simp_all add: sample_request_def tokens_of_def header_text_def submitted_tokens_def
      requested_seconds_def DEFAULT_SECONDS_def may_write_def is_active_def sample_user_def sample_state_def ascii_white_def)

lemma sample_holder: "holder_of sample_crates ''x'' = None"
  by code_simp

text \<open>
  A deep lock is granted over a directory that holds a file another client has locked: the check
  looks at the directory and above it, not below, and two locks in force then cover the file.
\<close>

lemma deep_lock_over_held:
  "\<exists>r w'. lock_method sample_crates sample_state 5 ''t'' sample_user (sample_request ''LOCK'' ''/dav/a'' [] ''x'') ''x''
      (locked_world sample_file) = (Inr r, w') \<and> rs_status r = 200
    \<and> exclusive 5 (w_db (locked_world sample_file)) \<and> \<not> exclusive 5 (w_db w')"
proof -
  have "case locate_writable sample_crates 5 sample_user [NodeName ''a''] 1000 (w_db (locked_world sample_file)) of
      Inl _ \<Rightarrow> False | Inr (place, db1) \<Rightarrow> (case into_node place of Inl _ \<Rightarrow> False
        | Inr n \<Rightarrow> (case lock_node sample_crates 5 sample_user n [] None True 600 db1 of
            Inl _ \<Rightarrow> False | Inr (k, db2) \<Rightarrow> \<not> exclusive 5 db2))"
    by code_simp
  then obtain place db1 n k db2 where
    lo: "locate_writable sample_crates 5 sample_user [NodeName ''a''] 1000 (w_db (locked_world sample_file)) = Inr (place, db1)"
    and n: "into_node place = Inr n" and k: "lock_node sample_crates 5 sample_user n [] None True 600 db1 = Inr (k, db2)"
    and ex: "\<not> exclusive 5 db2" by (auto simp: case_result_iff case_prod_beta)
  have "lock_method sample_crates sample_state 5 ''t'' sample_user (sample_request ''LOCK'' ''/dav/a'' [] ''x'') ''x''
      (locked_world sample_file)
    = (Inr (granted sample_crates 5 k [NodeName ''a''] (n_kind n) 200), (locked_world sample_file)\<lparr>w_db := db2\<rparr>)"
    by (rule lock_located [OF _ _ _ _ n]) (use lo k in \<open>simp_all add: sample_request_plain sample_uris sample_holder\<close>)
  with ex locked_world_ok show ?thesis by (auto simp: granted_def)
qed

text \<open>
  A lock on a name that is not there makes the file without a look at the lock of its directory,
  which stops a \<open>PUT\<close> of the same name.
\<close>

lemma lock_adds_member:
  "(\<exists>r w'. lock_method sample_crates sample_state 5 ''t'' sample_user (sample_request ''LOCK'' ''/dav/a/g'' [] ''x'') ''x''
      (locked_world sample_dir) = (Inr r, w') \<and> rs_status r = 201
      \<and> child (n_id sample_dir) (NodeName ''g'') (w_db w') \<noteq> None)
    \<and> dav_put sample_crates sample_state 5 ''t'' sample_user (sample_request ''PUT'' ''/dav/a/g'' [] ''x'') (locked_world sample_dir)
      = (Inl (Locked ''a''), locked_world sample_dir)"
proof
  let ?w = "locked_world sample_dir" and ?p = "[NodeName ''a'', NodeName ''g'']"
  have "case locate_writable sample_crates 5 sample_user ?p 1000 (w_db ?w) of Inl e \<Rightarrow> e = NotFound | Inr _ \<Rightarrow> False" by code_simp
  then have "locate_writable sample_crates 5 sample_user ?p 1000 (w_db ?w) = Inl NotFound" by (simp split: sum.splits)
  moreover have "case empty_file sample_crates sample_state 5 ''t'' sample_user ?p ?w of
      (Inl _, _) \<Rightarrow> False | (Inr (n, db1), w1) \<Rightarrow> (case lock_node sample_crates 5 sample_user n [] None True 600 db1 of
            Inl _ \<Rightarrow> False | Inr (k, db2) \<Rightarrow> child (n_id sample_dir) (NodeName ''g'') db2 \<noteq> None)"
    by code_simp
  then obtain n db1 w1 k db2 where
    e: "empty_file sample_crates sample_state 5 ''t'' sample_user ?p ?w = (Inr (n, db1), w1)"
    and k: "lock_node sample_crates 5 sample_user n [] None True 600 db1 = Inr (k, db2)"
    and c: "child (n_id sample_dir) (NodeName ''g'') db2 \<noteq> None"
    by (cases "empty_file sample_crates sample_state 5 ''t'' sample_user ?p ?w") (auto simp: case_result_iff case_prod_beta)
  ultimately have "lock_method sample_crates sample_state 5 ''t'' sample_user (sample_request ''LOCK'' ''/dav/a/g'' [] ''x'') ''x'' ?w
    = (Inr (granted sample_crates 5 k ?p (n_kind n) 201), w1\<lparr>w_db := db2\<rparr>)"
    by (intro lock_created) (simp_all add: sample_request_plain sample_uris sample_holder)
  with c show "\<exists>r w'. lock_method sample_crates sample_state 5 ''t'' sample_user
      (sample_request ''LOCK'' ''/dav/a/g'' [] ''x'') ''x'' ?w = (Inr r, w') \<and> rs_status r = 201
      \<and> child (n_id sample_dir) (NodeName ''g'') (w_db w') \<noteq> None" by (auto simp: granted_def)
  have "case destination sample_crates sample_state 5 sample_user ?p [] (w_db ?w) of
      Inl e \<Rightarrow> e = Locked ''a'' | Inr _ \<Rightarrow> False" by code_simp
  then have "destination sample_crates sample_state 5 sample_user ?p [] (w_db ?w) = Inl (Locked ''a'')"
    by (simp split: sum.splits)
  then show "dav_put sample_crates sample_state 5 ''t'' sample_user (sample_request ''PUT'' ''/dav/a/g'' [] ''x'') ?w
      = (Inl (Locked ''a''), ?w)"
    by (simp add: dav_put_def dav_room_def checked_def sample_request_plain sample_uris)
qed

end
