(* ===== verification/Uploads.thy ===== *)
theory Uploads
  imports Files
begin

text \<open>
  Uploads that survive a lost connection: \<open>api/src/uploads.rs\<close>, \<open>routes/uploads.rs\<close> and the table of
  \<open>migrations/20260907000001_uploads.sql\<close>. A session has a row, which says how many bytes arrived,
  and a file of the staging directory, which has them. The lemmas state what each request leaves
  of the two, and that a file which was sent in pieces is read back whole.
\<close>

section \<open>The staging directory\<close>

text \<open>The directory is an association list from file names; the root of it is fixed.\<close>

type_synonym staging = "(string \<times> stored_file) list"

record server =
  sv_world :: world
  sv_staging :: staging

definition LIFETIME_HOURS :: int where "LIFETIME_HOURS = 24"
definition MOST_SESSIONS :: nat where "MOST_SESSIONS = 8"
definition CLAIM_MINUTES :: int where "CLAIM_MINUTES = 5"

datatype wrote = Reached nat | PastTheLimit

definition create_staged :: "timestamp \<Rightarrow> string \<Rightarrow> staging \<Rightarrow> staging" where
  "create_staged now staged = AList.update staged \<lparr>f_bytes = [], f_modified = now\<rparr>"

text \<open>\<open>set_len\<close> cuts a file or fills it up with zeros; a write at a cursor past the end does the same.\<close>

definition set_len :: "nat \<Rightarrow> string \<Rightarrow> string" where
  "set_len n bytes = take n bytes @ replicate (n - length bytes) (char_of (0 :: nat))"

definition write_all :: "nat \<Rightarrow> string \<Rightarrow> string \<Rightarrow> string" where
  "write_all cursor chunk bytes = set_len cursor bytes @ chunk @ drop (cursor + length chunk) bytes"

text \<open>The loop of \<open>write_at\<close>: what was answered, and the bytes of the file.\<close>

fun write_chunks :: "nat \<Rightarrow> nat \<Rightarrow> nat \<Rightarrow> chunks \<Rightarrow> string \<Rightarrow> (api_error + wrote) \<times> string" where
  "write_chunks offset limit arrived [] bytes = (Inr (Reached (offset + arrived)), bytes)"
| "write_chunks offset limit arrived (Inl e # cs) bytes = (Inl (Storage Upstream), bytes)"
| "write_chunks offset limit arrived (Inr chunk # cs) bytes =
     (if limit < arrived + length chunk then (Inr PastTheLimit, bytes)
      else write_chunks offset limit (arrived + length chunk) cs (write_all (offset + arrived) chunk bytes))"

definition write_at ::
    "timestamp \<Rightarrow> string \<Rightarrow> nat \<Rightarrow> nat \<Rightarrow> chunks \<Rightarrow> staging \<Rightarrow> (api_error + wrote) \<times> staging" where
  "write_at now staged offset limit cs sg =
     (case map_of sg staged of
        None \<Rightarrow> (Inl (Storage Io), sg)
      | Some f \<Rightarrow> (case write_chunks offset limit 0 cs (set_len offset (f_bytes f)) of
          (r, bytes) \<Rightarrow> (r, AList.update staged \<lparr>f_bytes = bytes, f_modified = now\<rparr> sg)))"

definition discard :: "string \<Rightarrow> staging \<Rightarrow> staging" where
  "discard = AList.delete"

definition sweep_staging :: "timestamp \<Rightarrow> string list \<Rightarrow> timestamp \<Rightarrow> staging \<Rightarrow> nat \<times> staging" where
  "sweep_staging now alive grace sg =
     (let goes = (\<lambda>(p, f). p \<notin> set alive \<and> \<not> is_recent now (f_modified f) grace) in
      (length (filter goes sg), filter (\<lambda>x. \<not> goes x) sg))"

section \<open>Sessions\<close>

text \<open>The constraints of \<open>uploads\<close>, for a row that a statement leaves.\<close>

definition uploads_violation :: "upload \<Rightarrow> db_error option" where
  "uploads_violation s =
     (if up_path s = [] then Some (CheckViolation ''uploads_path_check'')
      else if up_size s < 0 then Some (CheckViolation ''uploads_size_check'')
      else if up_received s < 0 then Some (CheckViolation ''uploads_received_check'')
      else if up_size s < up_received s then Some (CheckViolation ''never_more_than_promised'')
      else None)"

definition insert_upload :: "upload \<Rightarrow> db \<Rightarrow> api_error + db" where
  "insert_upload s db =
     (case uploads_violation s of
        Some e \<Rightarrow> Inl (Database e)
      | None \<Rightarrow>
          if up_id s \<in> set (map up_id (uploads db)) then Inl (Database (UniqueViolation ''uploads_pkey''))
          else if up_owner s \<notin> set (map u_id (users db))
          then Inl (Database (ForeignKeyViolation ''uploads_owner_id_fkey''))
          else Inr (db\<lparr>uploads := uploads db @ [s]\<rparr>))"

text \<open>An \<open>UPDATE\<close> of the row a condition selects: whether there was one, and the table it leaves.\<close>

definition update_upload ::
    "(upload \<Rightarrow> bool) \<Rightarrow> (upload \<Rightarrow> upload) \<Rightarrow> db \<Rightarrow> api_error + upload option \<times> db" where
  "update_upload P f db =
     (case find P (uploads db) of
        None \<Rightarrow> Inr (None, db)
      | Some s \<Rightarrow>
          (case uploads_violation (f s) of
             Some e \<Rightarrow> Inl (Database e)
           | None \<Rightarrow> Inr (Some (f s), db\<lparr>uploads := map (\<lambda>x. if P x then f x else x) (uploads db)\<rparr>)))"

definition begin_upload ::
    "crates \<Rightarrow> timestamp \<Rightarrow> uuid \<Rightarrow> string \<Rightarrow> int \<Rightarrow> db \<times> staging \<Rightarrow> (api_error + upload) \<times> db \<times> staging" where
  "begin_upload C now owner path bytes state =
     (case state of (db, sg) \<Rightarrow>
        if bytes < 0 then (Inl (WrongKind ''size in bytes''), db, sg)
        else if MOST_SESSIONS \<le> length (filter (\<lambda>s. up_owner s = owner \<and> now < up_expires s) (uploads db))
        then (Inl (TooManySessions (int MOST_SESSIONS)), db, sg)
        else (case now_v7 db of (i, db1) \<Rightarrow> case now_v7 db1 of (j, db2) \<Rightarrow>
          let staged = uuid_display C i; sg1 = create_staged now staged sg;
              s = \<lparr>up_id = j, up_owner = owner, up_path = path, up_size = bytes, up_received = 0, up_staged = staged,
                   up_writing = None, up_writer = None, up_created = now,
                   up_expires = now + LIFETIME_HOURS * 60 * 60 * second\<rparr>
          in case insert_upload s db2 of Inl e \<Rightarrow> (Inl e, db, sg1) | Inr db3 \<Rightarrow> (Inr s, db3, sg1)))"

definition uploads_of :: "timestamp \<Rightarrow> uuid \<Rightarrow> db \<Rightarrow> upload list" where
  "uploads_of now owner db = sort_key up_expires (filter (\<lambda>s. up_owner s = owner \<and> now < up_expires s) (uploads db))"

definition upload_of :: "timestamp \<Rightarrow> uuid \<Rightarrow> uuid \<Rightarrow> db \<Rightarrow> api_error + upload" where
  "upload_of now owner i db =
     ok_or NotFound (find (\<lambda>s. up_id s = i \<and> up_owner s = owner \<and> now < up_expires s) (uploads db))"

definition claim :: "timestamp \<Rightarrow> uuid \<Rightarrow> db \<Rightarrow> api_error + uuid \<times> db" where
  "claim now i db =
     (case now_v7 db of (taker, db1) \<Rightarrow>
        rbind (update_upload
            (\<lambda>s. up_id s = i \<and> (case up_writing s of None \<Rightarrow> True | Some t \<Rightarrow> t < now))
            (\<lambda>s. s\<lparr>up_writing := Some (now + CLAIM_MINUTES * 60 * second), up_writer := Some taker\<rparr>) db1)
          (\<lambda>(taken, db2). if taken = None then Inl AlreadyWriting else Inr (taker, db2)))"

definition held_by_writer :: "uuid \<Rightarrow> uuid \<Rightarrow> upload \<Rightarrow> bool" where
  "held_by_writer i taker s \<longleftrightarrow> up_id s = i \<and> up_writer s = Some taker"

text \<open>One renewal; false is a claim that is no longer ours.\<close>

definition renew_once :: "uuid \<Rightarrow> uuid \<Rightarrow> timestamp \<Rightarrow> db \<Rightarrow> bool \<times> db" where
  "renew_once i taker now db =
     (case update_upload (held_by_writer i taker)
          (\<lambda>s. s\<lparr>up_writing := Some (now + CLAIM_MINUTES * 60 * second)\<rparr>) db of
        Inr (Some s, db1) \<Rightarrow> (True, db1)
      | _ \<Rightarrow> (False, db))"

text \<open>The renewals while a body drains, until one is refused.\<close>

fun renew :: "uuid \<Rightarrow> uuid \<Rightarrow> timestamp list \<Rightarrow> db \<Rightarrow> bool \<times> db" where
  "renew i taker [] db = (True, db)"
| "renew i taker (t # ts) db =
     (case renew_once i taker t db of (True, db1) \<Rightarrow> renew i taker ts db1 | (False, db1) \<Rightarrow> (False, db1))"

definition release_claim :: "uuid \<Rightarrow> uuid \<Rightarrow> db \<Rightarrow> db" where
  "release_claim i taker db =
     (case update_upload (held_by_writer i taker) (\<lambda>s. s\<lparr>up_writing := None, up_writer := None\<rparr>) db of
        Inr (_, db1) \<Rightarrow> db1 | Inl e \<Rightarrow> db)"

definition refuse_overflow :: "upload \<Rightarrow> uuid \<Rightarrow> db \<times> staging \<Rightarrow> (api_error + upload) \<times> db \<times> staging" where
  "refuse_overflow s taker state =
     (case state of (db, sg) \<Rightarrow>
        if \<not> list_ex (held_by_writer (up_id s) taker) (uploads db) then (Inl AlreadyWriting, db, sg)
        else (Inl (WrongKind ''no more than the size the session was opened with''),
              db\<lparr>uploads := filter (\<lambda>x. \<not> held_by_writer (up_id s) taker x) (uploads db)\<rparr>,
              discard (up_staged s) sg))"

text \<open>What follows the write, on the database as it is by then.\<close>

definition record_written ::
    "upload \<Rightarrow> uuid \<Rightarrow> api_error + wrote \<Rightarrow> db \<times> staging \<Rightarrow> (api_error + upload) \<times> db \<times> staging" where
  "record_written s taker outcome state =
     (case state of (db, sg) \<Rightarrow>
        case outcome of
          Inl e \<Rightarrow> (Inl e, release_claim (up_id s) taker db, sg)
        | Inr PastTheLimit \<Rightarrow> refuse_overflow s taker (db, sg)
        | Inr (Reached n) \<Rightarrow>
            if 2 ^ 63 \<le> int n then (Inl QuotaExceeded, db, sg)
            else (case update_upload (held_by_writer (up_id s) taker)
                   (\<lambda>x. x\<lparr>up_received := int n, up_writing := None, up_writer := None\<rparr>) db of
                 Inl e \<Rightarrow> (Inl e, db, sg)
               | Inr (None, db1) \<Rightarrow> (Inl AlreadyWriting, db1, sg)
               | Inr (Some x, db1) \<Rightarrow> (Inr x, db1, sg)))"

text \<open>
  \<open>s\<close> is the session as the request read it, \<open>renewals\<close> when the claim was renewed; where one was
  refused, \<open>cs\<close> is what had drained by then.
\<close>

definition append_upload ::
    "timestamp \<Rightarrow> timestamp list \<Rightarrow> upload \<Rightarrow> int \<Rightarrow> chunks \<Rightarrow> db \<times> staging \<Rightarrow> (api_error + upload) \<times> db \<times> staging" where
  "append_upload now renewals s offset cs state =
     (case state of (db, sg) \<Rightarrow>
        if offset \<noteq> up_received s then (Inl (OffsetMismatch (up_received s)), db, sg)
        else if offset < 0 then (Inl (WrongKind ''offset that is not negative''), db, sg)
        else (case claim now (up_id s) db of
            Inl e \<Rightarrow> (Inl e, db, sg)
          | Inr (taker, db1) \<Rightarrow>
              (case write_at now (up_staged s) (nat offset) (nat (up_size s - offset)) cs sg of
                 (outcome, sg1) \<Rightarrow>
                   (case renew (up_id s) taker renewals db1 of
                      (False, db2) \<Rightarrow> (Inl AlreadyWriting, db2, sg1)
                    | (True, db2) \<Rightarrow> record_written s taker outcome (db2, sg1)))))"

definition drop_session :: "uuid \<Rightarrow> db \<Rightarrow> db" where
  "drop_session i db = db\<lparr>uploads := filter (\<lambda>s. up_id s \<noteq> i) (uploads db)\<rparr>"

definition abandon_upload :: "upload \<Rightarrow> db \<times> staging \<Rightarrow> db \<times> staging" where
  "abandon_upload s state = (case state of (db, sg) \<Rightarrow> (drop_session (up_id s) db, discard (up_staged s) sg))"

definition purge_expired_uploads :: "timestamp \<Rightarrow> db \<Rightarrow> string list \<times> db" where
  "purge_expired_uploads now db =
     (map up_staged (filter (\<lambda>s. up_expires s \<le> now) (uploads db)),
      db\<lparr>uploads := filter (\<lambda>s. \<not> up_expires s \<le> now) (uploads db)\<rparr>)"

definition live_staged :: "db \<Rightarrow> string list" where
  "live_staged db = map up_staged (uploads db)"

section \<open>The handlers\<close>

definition with_uploads :: "(db \<times> staging \<Rightarrow> 'a \<times> db \<times> staging) \<Rightarrow> server \<Rightarrow> 'a \<times> server" where
  "with_uploads f sv =
     (case f (w_db (sv_world sv), sv_staging sv) of
        (r, db, sg) \<Rightarrow> (r, \<lparr>sv_world = (sv_world sv)\<lparr>w_db := db\<rparr>, sv_staging = sg\<rparr>))"

text \<open>What is checked before a session opens; the root it may create stays.\<close>

definition upload_admitted ::
    "crates \<Rightarrow> app_state \<Rightarrow> timestamp \<Rightarrow> user \<Rightarrow> node_name list \<Rightarrow> precondition \<Rightarrow> int \<Rightarrow> db \<Rightarrow> api_error + unit \<times> db" where
  "upload_admitted C st now u names pre bytes db =
     rbind (quota_holder C now u names (default_quota_bytes st) db) (\<lambda>(holder, db1).
     rbind (room_for holder bytes db1) (\<lambda>_.
     rbind (case file_target C now u names False (default_quota_bytes st) db1 of
         Inr (dir, name, db2) \<Rightarrow> Inr (child (n_id dir) name db2, db2)
       | Inl NotFound \<Rightarrow> Inr (None, db1)
       | Inl e \<Rightarrow> Inl e) (\<lambda>(existing, db2).
     rbind (check_precondition pre existing) (\<lambda>_. Inr ((), db2)))))"

definition begin_handler ::
    "crates \<Rightarrow> app_state \<Rightarrow> timestamp \<Rightarrow> user \<Rightarrow> headers \<Rightarrow> string \<Rightarrow> int \<Rightarrow> server \<Rightarrow> (api_error + upload) \<times> server" where
  "begin_handler C st now u headers path bytes sv =
     (case path_segments path of
        Inl e \<Rightarrow> (Inl e, sv)
      | Inr names \<Rightarrow>
          if names = [] then (Inl (WrongKind ''path below the root''), sv)
          else (case transact (upload_admitted C st now u names (precondition_of headers) bytes) (w_db (sv_world sv)) of
              (Inl e, db1) \<Rightarrow> (Inl e, sv)
            | (Inr _, db1) \<Rightarrow> with_uploads (begin_upload C now (u_id u) path bytes)
                (sv\<lparr>sv_world := (sv_world sv)\<lparr>w_db := db1\<rparr>\<rparr>)))"

definition uploads_mine :: "timestamp \<Rightarrow> user \<Rightarrow> server \<Rightarrow> upload list" where
  "uploads_mine now u sv = uploads_of now (u_id u) (w_db (sv_world sv))"

definition upload_status :: "timestamp \<Rightarrow> user \<Rightarrow> uuid \<Rightarrow> server \<Rightarrow> api_error + int \<times> upload" where
  "upload_status now u i sv = rbind (upload_of now (u_id u) i (w_db (sv_world sv))) (\<lambda>s. Inr (up_received s, s))"

text \<open>\<open>parse::<i64>()\<close>: an optional sign and digits, within 64 bits.\<close>

definition parse_i64 :: "string \<Rightarrow> int option" where
  "parse_i64 text =
     (let (negative, digits) = (case text of
          c # cs \<Rightarrow> if c = CHR ''-'' then (True, cs) else if c = CHR ''+'' then (False, cs) else (False, text)
        | [] \<Rightarrow> (False, []))
      in Option.bind (parse_digits digits) (\<lambda>n.
           if negative then (if int n \<le> 2 ^ 63 then Some (- int n) else None)
           else (if int n < 2 ^ 63 then Some (int n) else None)))"

definition append_handler ::
    "timestamp \<Rightarrow> timestamp list \<Rightarrow> user \<Rightarrow> uuid \<Rightarrow> headers \<Rightarrow> chunks \<Rightarrow> server \<Rightarrow> (api_error + int \<times> upload) \<times> server" where
  "append_handler now renewals u i headers body sv =
     (case upload_of now (u_id u) i (w_db (sv_world sv)) of
        Inl e \<Rightarrow> (Inl e, sv)
      | Inr s \<Rightarrow>
          (case Option.bind (headers ''upload-offset'') parse_i64 of
             None \<Rightarrow> (Inl (WrongKind ''Upload-Offset header''), sv)
           | Some offset \<Rightarrow>
               (case with_uploads (append_upload now renewals s offset body) sv of
                  (Inl e, sv1) \<Rightarrow> (Inl e, sv1)
                | (Inr advanced, sv1) \<Rightarrow> (Inr (up_received advanced, advanced), sv1))))"

text \<open>The staged file comes back as a stream, and is hashed like any other body.\<close>

definition finish ::
    "crates \<Rightarrow> app_state \<Rightarrow> timestamp \<Rightarrow> string \<Rightarrow> user \<Rightarrow> headers \<Rightarrow> uuid \<Rightarrow> server \<Rightarrow> (api_error + node) \<times> server" where
  "finish C st now tmp_name u headers i sv =
     (case upload_of now (u_id u) i (w_db (sv_world sv)) of
        Inl e \<Rightarrow> (Inl e, sv)
      | Inr s \<Rightarrow>
          if up_received s \<noteq> up_size s then (Inl (Incomplete (up_received s) (up_size s)), sv)
          else (case path_segments (up_path s) of
              Inl e \<Rightarrow> (Inl e, sv)
            | Inr names \<Rightarrow>
                (case map_of (sv_staging sv) (up_staged s) of
                   None \<Rightarrow> (Inl (Storage Io), sv)
                 | Some staged \<Rightarrow>
                     (case local_write C now tmp_name [Inr (f_bytes staged)] (w_files (sv_world sv)) of
                        (Inl e, fs) \<Rightarrow> (Inl (Storage e), sv\<lparr>sv_world := (sv_world sv)\<lparr>w_files := fs\<rparr>\<rparr>)
                      | (Inr wr, fs) \<Rightarrow>
                          if 2 ^ 63 \<le> int (wr_size wr)
                          then (Inl QuotaExceeded, sv\<lparr>sv_world := (sv_world sv)\<lparr>w_files := fs\<rparr>\<rparr>)
                          else (case register_blob now (wr_hash wr) (int (wr_size wr)) (w_db (sv_world sv)) of
                              Inl e \<Rightarrow> (Inl e, sv\<lparr>sv_world := (sv_world sv)\<lparr>w_files := fs\<rparr>\<rparr>)
                            | Inr db1 \<Rightarrow>
                                (case put_commit C st now u names (precondition_of headers) wr (int (wr_size wr)) db1 of
                                   Inl e \<Rightarrow> (Inl e, sv\<lparr>sv_world := \<lparr>w_db = db1, w_files = fs\<rparr>\<rparr>)
                                 | Inr (n, db2) \<Rightarrow>
                                     (case abandon_upload s (db2, sv_staging sv) of
                                        (db3, sg) \<Rightarrow> (Inr n, \<lparr>sv_world = \<lparr>w_db = db3, w_files = local_settle C wr fs\<rparr>,
                                          sv_staging = sg\<rparr>))))))))"

definition abandon_handler :: "timestamp \<Rightarrow> user \<Rightarrow> uuid \<Rightarrow> server \<Rightarrow> (api_error + unit) \<times> server" where
  "abandon_handler now u i sv =
     (case upload_of now (u_id u) i (w_db (sv_world sv)) of
        Inl e \<Rightarrow> (Inl e, sv)
      | Inr s \<Rightarrow> with_uploads (\<lambda>state. (Inr (), abandon_upload s state)) sv)"

text \<open>The part of a sweep that is about uploads: sessions first, then the files none of them names.\<close>

definition STAGING_GRACE :: timestamp where "STAGING_GRACE = 120 * second"

definition sweep_uploads :: "timestamp \<Rightarrow> server \<Rightarrow> nat \<times> server" where
  "sweep_uploads now = with_uploads (\<lambda>(db, sg).
     case purge_expired_uploads now db of (expired, db1) \<Rightarrow>
       (length expired, db1, snd (sweep_staging now (live_staged db1) STAGING_GRACE sg)))"

section \<open>What a write leaves\<close>

lemma set_len_length [simp]: "length (set_len n bytes) = n"
  by (simp add: set_len_def)

lemma set_len_id [simp]: "set_len (length bytes) bytes = bytes"
  by (simp add: set_len_def)

lemma take_set_len: "m \<le> length bytes \<Longrightarrow> m \<le> n \<Longrightarrow> take m (set_len n bytes) = take m bytes"
  by (simp add: set_len_def min_def)

lemma set_len_cut: "n \<le> length bytes \<Longrightarrow> set_len n bytes = take n bytes"
  by (simp add: set_len_def)

text \<open>A single writer appends: its cursor is the end of the file.\<close>

lemma write_all_end: "write_all (length bytes) chunk bytes = bytes @ chunk"
  by (simp add: write_all_def)

lemma write_chunks_appends:
  assumes "length bytes = offset + arrived" and "arrived \<le> limit"
    and "write_chunks offset limit arrived cs bytes = (r, bytes')"
  shows "\<exists>more. bytes' = bytes @ more \<and> length bytes' \<le> offset + limit
    \<and> (\<forall>n. r = Inr (Reached n) \<longrightarrow> drain cs = Inr more \<and> n = length bytes')"
  using assms
proof (induction offset limit arrived cs bytes rule: write_chunks.induct)
  case (3 offset limit arrived chunk cs bytes)
  show ?case
  proof (cases "limit < arrived + length chunk")
    case False
    have e: "write_all (offset + arrived) chunk bytes = bytes @ chunk"
      using write_all_end [of bytes chunk] 3(2) by simp
    have w: "write_chunks offset limit (arrived + length chunk) cs (bytes @ chunk) = (r, bytes')"
      using 3(4) False by (simp add: e)
    have l: "length (bytes @ chunk) = offset + (arrived + length chunk)" "arrived + length chunk \<le> limit"
      using 3(2) False by simp_all
    from 3(1) [OF False, unfolded e, OF l w] obtain more where m: "bytes' = (bytes @ chunk) @ more"
      "length bytes' \<le> offset + limit" "\<forall>n. r = Inr (Reached n) \<longrightarrow> drain cs = Inr more \<and> n = length bytes'" by blast
    then show ?thesis by (intro exI [of _ "chunk @ more"]) auto
  qed (use 3 in auto)
qed auto

lemma write_at_appends:
  assumes "map_of sg staged = Some f" and "offset \<le> length (f_bytes f)"
    and "write_at now staged offset limit cs sg = (r, sg')"
  shows "\<exists>more. map_of sg' = (map_of sg)(staged \<mapsto> \<lparr>f_bytes = take offset (f_bytes f) @ more, f_modified = now\<rparr>)
    \<and> length more \<le> limit
    \<and> (\<forall>n. r = Inr (Reached n) \<longrightarrow> drain cs = Inr more \<and> n = offset + length more)"
proof -
  obtain bytes' where w: "write_chunks offset limit 0 cs (take offset (f_bytes f)) = (r, bytes')"
    and sg': "sg' = AList.update staged \<lparr>f_bytes = bytes', f_modified = now\<rparr> sg"
    using assms by (auto simp: write_at_def set_len_cut split: prod.splits)
  have "length (take offset (f_bytes f)) = offset + 0" using assms(2) by simp
  from write_chunks_appends [OF this _ w] obtain more where "bytes' = take offset (f_bytes f) @ more"
    "length bytes' \<le> offset + limit" "\<forall>n. r = Inr (Reached n) \<longrightarrow> drain cs = Inr more \<and> n = length bytes'" by auto
  then show ?thesis using assms(2) by (intro exI [of _ more]) (auto simp: sg' AList.update_conv')
qed

section \<open>What has arrived\<close>

definition row :: "uuid \<Rightarrow> db \<Rightarrow> upload option" where
  "row i db = find (\<lambda>s. up_id s = i) (uploads db)"

text \<open>
  The account has the session open, its row says as many bytes as \<open>got\<close>, and its file begins with
  them and holds no more than was promised.
\<close>

definition arrived :: "uuid \<Rightarrow> uuid \<Rightarrow> string \<Rightarrow> int \<Rightarrow> string \<Rightarrow> db \<times> staging \<Rightarrow> bool" where
  "arrived owner i path bytes got state \<longleftrightarrow>
     (\<exists>s f. row i (fst state) = Some s
       \<and> up_owner s = owner \<and> up_path s = path \<and> up_size s = bytes \<and> up_received s = int (length got)
       \<and> map_of (snd state) (up_staged s) = Some f \<and> take (length got) (f_bytes f) = got
       \<and> length got \<le> length (f_bytes f) \<and> int (length (f_bytes f)) \<le> bytes)"

definition closed :: "uuid \<Rightarrow> db \<times> staging \<Rightarrow> bool" where
  "closed i state \<longleftrightarrow> row i (fst state) = None"

definition one_each :: "db \<Rightarrow> bool" where
  "one_each db \<longleftrightarrow> distinct (map up_id (uploads db))"

lemma find_upload: "one_each db \<Longrightarrow> s \<in> set (uploads db) \<Longrightarrow> find (\<lambda>x. up_id x = up_id s) (uploads db) = Some s"
  by (simp add: one_each_def find_distinct_key)

lemma update_upload_Inr:
  assumes "one_each db" and "update_upload P f db = Inr (r, db')" and "\<And>x. P x \<Longrightarrow> up_id x = i" and "\<And>x. up_id (f x) = up_id x"
  shows "one_each db' \<and> (\<forall>us. db'\<lparr>uploads := us\<rparr> = db\<lparr>uploads := us\<rparr>)
    \<and> (\<forall>j. j \<noteq> i \<longrightarrow> find (\<lambda>x. up_id x = j) (uploads db') = find (\<lambda>x. up_id x = j) (uploads db))
    \<and> (case r of
         None \<Rightarrow> db' = db
       | Some x \<Rightarrow> \<exists>s\<in>set (uploads db). P s \<and> x = f s \<and> find (\<lambda>x. up_id x = i) (uploads db') = Some (f s))"
proof (cases "find P (uploads db)")
  case None
  with assms(1,2) show ?thesis by (simp add: update_upload_def)
next
  case (Some s)
  with assms(2) have r: "r = Some (f s)" and db': "db' = db\<lparr>uploads := map (\<lambda>x. if P x then f x else x) (uploads db)\<rparr>"
    by (auto simp: update_upload_def split: option.splits)
  from find_Some_set [OF Some] have s: "s \<in> set (uploads db)" "P s" by simp_all
  have k: "up_id (if P x then f x else x) = up_id x" for x by (simp add: assms(4))
  have fm: "find (\<lambda>x. up_id x = j) (uploads db') = map_option (\<lambda>x. if P x then f x else x) (find (\<lambda>x. up_id x = j) (uploads db))" for j
    by (simp add: db' find_map_same_key k)
  have "find (\<lambda>x. up_id x = up_id s) (uploads db) = Some s" by (rule find_upload [OF assms(1) s(1)])
  then have "find (\<lambda>x. up_id x = i) (uploads db') = Some (f s)" using fm [of "up_id s"] s(2) assms(3) [OF s(2)] by simp
  moreover have "find (\<lambda>x. up_id x = j) (uploads db') = find (\<lambda>x. up_id x = j) (uploads db)" if "j \<noteq> i" for j
  proof (cases "find (\<lambda>x. up_id x = j) (uploads db)")
    case (Some y)
    then have "\<not> P y" using find_Some_set [OF Some] assms(3) that by blast
    with fm [of j] Some show ?thesis by simp
  qed (simp add: fm)
  moreover have "map up_id (uploads db') = map up_id (uploads db)" by (simp add: db' k comp_def)
  then have "one_each db'" using assms(1) by (simp add: one_each_def)
  ultimately show ?thesis using s by (auto simp: r db')
qed

text \<open>A claim, a renewal and a release change only who writes and until when.\<close>

definition same_session :: "upload \<Rightarrow> upload \<Rightarrow> bool" where
  "same_session s s' \<longleftrightarrow> up_owner s' = up_owner s \<and> up_path s' = up_path s \<and> up_size s' = up_size s
     \<and> up_received s' = up_received s \<and> up_staged s' = up_staged s \<and> up_expires s' = up_expires s"

definition only_uploads :: "db \<Rightarrow> db \<Rightarrow> bool" where
  "only_uploads db db' \<longleftrightarrow> (\<exists>us ids. db' = db\<lparr>uploads := us, uuids := ids\<rparr>)"

definition refreshed :: "uuid \<Rightarrow> db \<Rightarrow> db \<Rightarrow> bool" where
  "refreshed i db db' \<longleftrightarrow> one_each db' \<and> only_uploads db db' \<and> (\<forall>j. j \<noteq> i \<longrightarrow> row j db' = row j db)
     \<and> rel_option same_session (row i db) (row i db')"

lemma only_uploads_refl [simp]: "only_uploads db db"
  unfolding only_uploads_def by (intro exI [of _ "uploads db"] exI [of _ "uuids db"]) simp

lemma only_uploads_trans: "only_uploads db db1 \<Longrightarrow> only_uploads db1 db2 \<Longrightarrow> only_uploads db db2"
  unfolding only_uploads_def by (elim exE) (simp, metis)

lemma only_uploads_set [simp]: "only_uploads db (db\<lparr>uploads := us\<rparr>)" "only_uploads db (snd (now_v7 db))"
  unfolding only_uploads_def
  by (intro exI [of _ us] exI [of _ "uuids db"], simp)
    (intro exI [of _ "uploads db"] exI [of _ "\<lambda>k. uuids db (Suc k)"], simp add: now_v7_def)

lemma same_session_refl [simp]: "same_session s s"
  by (simp add: same_session_def)

lemma refreshed_refl: "one_each db \<Longrightarrow> refreshed i db db"
  by (simp add: refreshed_def option.rel_refl)

lemma refreshed_trans:
  assumes "refreshed i db db1" and "refreshed i db1 db2"
  shows "refreshed i db db2"
proof -
  have "rel_option same_session (row i db) (row i db2)"
    using assms by (auto simp: refreshed_def same_session_def option_rel_Some1 option_rel_Some2 rel_option_iff
        split: option.splits)
  then show ?thesis using assms by (auto simp: refreshed_def intro: only_uploads_trans)
qed

lemma update_refreshed:
  assumes "one_each db" and u: "update_upload P f db = Inr (r, db')"
    and P: "\<And>x. P x \<Longrightarrow> up_id x = i" and f: "\<And>x. same_session x (f x) \<and> up_id (f x) = up_id x"
  shows "refreshed i db db' \<and> (case r of None \<Rightarrow> db' = db
    | Some x \<Rightarrow> \<exists>s. P s \<and> x = f s \<and> row i db = Some s \<and> row i db' = Some (f s))"
proof -
  have g: "\<And>x. up_id (f x) = up_id x" using f by blast
  note n = update_upload_Inr [OF assms(1) u P g]
  have o: "only_uploads db db'" using u by (auto simp: update_upload_def split: option.splits)
  show ?thesis
  proof (cases r)
    case None
    then show ?thesis using n assms(1) by (simp add: refreshed_refl)
  next
    case (Some x)
    with n obtain s where s: "s \<in> set (uploads db)" "P s" "x = f s" "row i db' = Some (f s)" by (auto simp: row_def)
    have "row i db = Some s" using find_upload [OF assms(1) s(1)] P [OF s(2)] by (simp add: row_def)
    with n s f o Some show ?thesis by (auto simp: refreshed_def row_def)
  qed
qed

lemma one_each_now [simp]: "one_each (snd (now_v7 db)) = one_each db"
  by (simp add: one_each_def)

lemma claim_refreshed:
  assumes "one_each db" and "claim now i db = Inr (taker, db')"
  shows "refreshed i db db'" and "\<exists>s'. row i db' = Some s' \<and> up_writer s' = Some taker"
proof -
  let ?db1 = "snd (now_v7 db)"
  obtain x where u: "update_upload (\<lambda>s. up_id s = i \<and> (case up_writing s of None \<Rightarrow> True | Some t \<Rightarrow> t < now))
            (\<lambda>s. s\<lparr>up_writing := Some (now + CLAIM_MINUTES * 60 * second), up_writer := Some taker\<rparr>) ?db1 = Inr (Some x, db')"
    using assms(2) by (auto simp: claim_def rbind_eq_Inr split: prod.splits if_splits)
  have r: "refreshed i ?db1 db' \<and> (\<exists>s'. row i db' = Some s' \<and> up_writer s' = Some taker)"
    using update_refreshed [OF _ u, of i] assms(1) by (auto simp: same_session_def)
  then show "\<exists>s'. row i db' = Some s' \<and> up_writer s' = Some taker" by blast
  from r show "refreshed i db db'"
    by (auto simp: refreshed_def row_def intro: only_uploads_trans [of db ?db1])
qed

lemma renew_once_refreshed:
  assumes "one_each db" and "renew_once i taker t db = (ok, db')" and "row i db = Some s" and "up_writer s = Some taker"
  shows "refreshed i db db' \<and> (\<exists>s'. row i db' = Some s' \<and> up_writer s' = Some taker)"
proof (cases "\<exists>x db1. update_upload (held_by_writer i taker)
          (\<lambda>s. s\<lparr>up_writing := Some (t + CLAIM_MINUTES * 60 * second)\<rparr>) db = Inr (Some x, db1)")
  case True
  then obtain x db1 where u: "update_upload (held_by_writer i taker)
          (\<lambda>s. s\<lparr>up_writing := Some (t + CLAIM_MINUTES * 60 * second)\<rparr>) db = Inr (Some x, db1)" by blast
  then have "db' = db1" using assms(2) by (simp add: renew_once_def)
  with update_refreshed [OF assms(1) u, of i] show ?thesis
    by (auto simp: same_session_def held_by_writer_def)
next
  case False
  then have "db' = db" using assms(2) by (auto simp: renew_once_def split: sum.splits prod.splits option.splits)
  with assms show ?thesis by (simp add: refreshed_refl)
qed

lemma renew_refreshed:
  "renew i taker ts db = (ok, db') \<Longrightarrow> one_each db \<Longrightarrow> \<exists>s. row i db = Some s \<and> up_writer s = Some taker \<Longrightarrow>
   refreshed i db db' \<and> (\<exists>s'. row i db' = Some s' \<and> up_writer s' = Some taker)"
proof (induction i taker ts db rule: renew.induct)
  case (2 i taker t ts db)
  obtain ok1 db1 where r: "renew_once i taker t db = (ok1, db1)" by fastforce
  from 2(4) renew_once_refreshed [OF 2(3) r]
  have f: "refreshed i db db1" "\<exists>s'. row i db1 = Some s' \<and> up_writer s' = Some taker" by blast+
  show ?case
  proof (cases ok1)
    case True
    with 2(2) r have "renew i taker ts db1 = (ok, db')" by simp
    from 2(1) [of True db1, OF _ _ this _ f(2)] f(1) r True show ?thesis
      by (auto simp: refreshed_def [of i db db1] intro: refreshed_trans [OF f(1)])
  next
    case False
    with 2(2) r f show ?thesis by simp
  qed
qed (simp add: refreshed_refl)

lemma release_refreshed: "one_each db \<Longrightarrow> refreshed i db (release_claim i taker db)"
  unfolding release_claim_def
  by (auto split: sum.splits simp: refreshed_refl same_session_def held_by_writer_def
      dest: update_refreshed [where i = i, THEN conjunct1, rotated])

section \<open>Appending\<close>

lemma refreshed_arrived:
  assumes "refreshed i db db'" and "arrived owner i path bytes got (db, sg)"
  shows "arrived owner i path bytes got (db', sg)"
  using assms by (auto simp: refreshed_def arrived_def same_session_def option_rel_Some1)

lemma refreshed_one_each: "refreshed i db db' \<Longrightarrow> one_each db' \<and> only_uploads db db' \<and> (\<forall>j. j \<noteq> i \<longrightarrow> row j db' = row j db)"
  by (simp add: refreshed_def)

text \<open>The row and the file of one session change, and nothing else.\<close>

definition of_session :: "uuid \<Rightarrow> string \<Rightarrow> db \<times> staging \<Rightarrow> db \<times> staging \<Rightarrow> bool" where
  "of_session i staged state state' \<longleftrightarrow> one_each (fst state') \<and> only_uploads (fst state) (fst state')
     \<and> (\<forall>j. j \<noteq> i \<longrightarrow> row j (fst state') = row j (fst state))
     \<and> (\<forall>p. p \<noteq> staged \<longrightarrow> map_of (snd state') p = map_of (snd state) p)"

lemma record_written_keeps:
  assumes d: "one_each db" and s: "row i db = Some x" "up_writer x = Some taker" "same_session s x" "up_id s = i"
    and a: "arrived owner i path bytes got (db, sg)"
    and f: "map_of sg (up_staged s) = Some f" "f_bytes f = got @ rest" "int (length (got @ rest)) \<le> bytes"
    and o: "\<And>n. outcome = Inr (Reached n) \<Longrightarrow> drain cs = Inr rest \<and> n = length (got @ rest)"
    and w: "record_written s taker outcome (db, sg) = (r, db', sg')"
  shows "of_session i (up_staged s) (db, sg) (db', sg')
    \<and> (case r of
         Inr y \<Rightarrow> drain cs = Inr rest \<and> arrived owner i path bytes (got @ rest) (db', sg')
           \<and> up_received y = int (length (got @ rest))
       | Inl e \<Rightarrow> arrived owner i path bytes got (db', sg') \<or> closed i (db', sg'))"
proof -
  from s(4) have i: "up_id s = i" .
  show ?thesis
  proof (cases outcome)
    case (Inl e)
    with w have "r = Inl e" "db' = release_claim i taker db" "sg' = sg" by (simp_all add: record_written_def i)
    with refreshed_arrived [OF release_refreshed [OF d] a] refreshed_one_each [OF release_refreshed [OF d]] show ?thesis
      by (auto simp: of_session_def)
  next
    case (Inr out)
    show ?thesis
    proof (cases out)
      case PastTheLimit
      have "row j (db\<lparr>uploads := filter (\<lambda>x. \<not> held_by_writer i taker x) (uploads db)\<rparr>)
          = (if j = i then None else row j db)" for j
      proof -
        have "find (\<lambda>s. up_id s = j) (filter (\<lambda>x. \<not> held_by_writer i taker x) xs)
            = (if j = i then None else find (\<lambda>s. up_id s = j) xs)"
          if "distinct (map up_id xs)" "\<And>y. y \<in> set xs \<Longrightarrow> up_id y = i \<Longrightarrow> y = x" for xs
          using that s(2)
          by (induction xs) (auto simp: held_by_writer_def find_None_set)
        moreover have "y = x" if "y \<in> set (uploads db)" "up_id y = i" for y
          using find_upload [OF d that(1)] that(2) s(1) by (simp add: row_def)
        ultimately show ?thesis using d by (simp add: row_def one_each_def)
      qed
      then show ?thesis using Inr PastTheLimit w d a
        by (auto simp: record_written_def refuse_overflow_def i of_session_def closed_def one_each_def
            discard_def AList.delete_conv' split: if_splits)
    next
      case (Reached n)
      from o [of n] Inr Reached have n: "drain cs = Inr rest" "n = length (got @ rest)" by simp_all
      let ?f = "\<lambda>x. x\<lparr>up_received := int n, up_writing := None, up_writer := None\<rparr>"
      show ?thesis
      proof (cases "2 ^ 63 \<le> int n")
        case True
        with Inr Reached w have "r = Inl QuotaExceeded" "db' = db" "sg' = sg" by (simp_all add: record_written_def)
        with a d show ?thesis by (simp add: of_session_def)
      next
        case False
        have P: "held_by_writer i taker x" using s find_Some_set [of _ "uploads db" x] by (auto simp: held_by_writer_def row_def)
        have fs: "find (held_by_writer i taker) (uploads db) = Some x"
        proof -
          have "find (held_by_writer i taker) (uploads db) \<noteq> None"
            using P find_Some_set [OF s(1) [unfolded row_def]] by (auto simp: find_None_set)
          then obtain y where y: "find (held_by_writer i taker) (uploads db) = Some y" by auto
          with find_Some_set [OF y] find_upload [OF d, of y] s(1) show ?thesis
            by (auto simp: held_by_writer_def row_def)
        qed
        from a s(1) have sz: "up_size x = bytes" "up_received x = int (length got)" "up_path x = path" "up_owner x = owner"
          by (auto simp: arrived_def)
        show ?thesis
        proof (cases "uploads_violation (?f x)")
          case None
          with fs have u: "update_upload (held_by_writer i taker) ?f db
              = Inr (Some (?f x), db\<lparr>uploads := map (\<lambda>x. if held_by_writer i taker x then ?f x else x) (uploads db)\<rparr>)"
            by (simp add: update_upload_def)
          note k = update_upload_Inr [OF d u, of i]
          from Inr Reached w u False have r: "r = Inr (?f x)" "sg' = sg"
              "db' = db\<lparr>uploads := map (\<lambda>x. if held_by_writer i taker x then ?f x else x) (uploads db)\<rparr>"
            by (simp_all add: record_written_def i)
          from k have "one_each db'" "\<forall>j. j \<noteq> i \<longrightarrow> row j db' = row j db" "row i db' = Some (?f x)"
            using s(1) by (auto simp: held_by_writer_def r(3) row_def dest: find_Some_set)
          moreover have "up_staged x = up_staged s" using s(3) by (simp add: same_session_def)
          ultimately show ?thesis using n f sz r by (simp add: of_session_def arrived_def)
        next
          case (Some e)
          with fs have u: "update_upload (held_by_writer i taker) ?f db = Inl (Database e)"
            by (simp add: update_upload_def)
          with Inr Reached w False have "r = Inl (Database e)" "db' = db" "sg' = sg"
            by (simp_all add: record_written_def i)
          with a d show ?thesis by (simp add: of_session_def)
        qed
      qed
    qed
  qed
qed

lemma of_session_refl: "one_each (fst state) \<Longrightarrow> of_session i p state state"
  by (simp add: of_session_def)

text \<open>One request: what it answers is what the session has of it.\<close>

lemma append_keeps:
  assumes d: "one_each db" and s: "row i db = Some s" and a: "arrived owner i path bytes got (db, sg)"
    and w: "append_upload now renewals s offset cs (db, sg) = (r, db', sg')"
  shows "of_session i (up_staged s) (db, sg) (db', sg')
    \<and> (case r of
         Inr y \<Rightarrow> (\<exists>b. drain cs = Inr b \<and> arrived owner i path bytes (got @ b) (db', sg')
           \<and> up_received y = int (length (got @ b)))
       | Inl e \<Rightarrow> arrived owner i path bytes got (db', sg') \<or> closed i (db', sg'))"
proof (cases "offset = up_received s \<and> \<not> offset < 0 \<and> (\<exists>taker db1. claim now (up_id s) db = Inr (taker, db1))")
  case False
  then have "\<exists>e. r = Inl e \<and> db' = db \<and> sg' = sg"
    using w by (auto simp: append_upload_def split: sum.splits if_splits)
  then show ?thesis using a d by (auto simp: of_session_refl)
next
  case True
  then obtain taker db1 where c: "offset = up_received s" "\<not> offset < 0" "claim now (up_id s) db = Inr (taker, db1)" by blast
  have i: "up_id s = i" using find_Some_set [OF s [unfolded row_def]] by simp
  from a s obtain f where f: "up_received s = int (length got)" "up_size s = bytes"
    "map_of sg (up_staged s) = Some f" "take (length got) (f_bytes f) = got" "length got \<le> length (f_bytes f)"
    "int (length (f_bytes f)) \<le> bytes" by (auto simp: arrived_def)
  obtain outcome sg1 where wa: "write_at now (up_staged s) (length got) (nat (bytes - int (length got))) cs sg = (outcome, sg1)"
    by fastforce
  from write_at_appends [OF f(3,5) wa] f(4) obtain tail where
    t: "map_of sg1 = (map_of sg)(up_staged s \<mapsto> \<lparr>f_bytes = got @ tail, f_modified = now\<rparr>)"
      "length tail \<le> nat (bytes - int (length got))"
      "\<And>n. outcome = Inr (Reached n) \<Longrightarrow> drain cs = Inr tail \<and> n = length (got @ tail)" by auto
  have l: "int (length (got @ tail)) \<le> bytes" using t(2) f(5,6) by simp
  note cr = claim_refreshed [OF d c(3) [unfolded i]]
  have d1: "one_each db1" using refreshed_one_each [OF cr(1)] by blast
  obtain ok db2 where rn: "renew i taker renewals db1 = (ok, db2)" by fastforce
  note rr = renew_refreshed [OF rn d1 cr(2)]
  have R: "refreshed i db db2" by (rule refreshed_trans [OF cr(1)]) (use rr in blast)
  have d2: "one_each db2" using refreshed_one_each [OF R] by blast
  from rr obtain x where x: "row i db2 = Some x" "up_writer x = Some taker" by blast
  have ss: "same_session s x" using R s x by (simp add: refreshed_def)
  have a2: "arrived owner i path bytes got (db2, sg1)"
    using refreshed_arrived [OF R a] ss s x l by (auto simp: arrived_def same_session_def t(1))
  have base: "of_session i (up_staged s) (db, sg) (db2, sg1)"
    using refreshed_one_each [OF R] by (simp add: of_session_def t(1))
  have ap: "(r, db', sg') = (if ok then record_written s taker outcome (db2, sg1) else (Inl AlreadyWriting, db2, sg1))"
    using w c wa rn f(1,2) by (auto simp: append_upload_def i split: bool.splits)
  show ?thesis
  proof (cases ok)
    case False
    with ap base a2 show ?thesis by simp
  next
    case True
    with ap have rw: "record_written s taker outcome (db2, sg1) = (r, db', sg')" by simp
    have ff: "map_of sg1 (up_staged s) = Some \<lparr>f_bytes = got @ tail, f_modified = now\<rparr>" by (simp add: t(1))
    note k = record_written_keeps [OF d2 x ss i a2 ff _ l t(3) rw]
    with base have "of_session i (up_staged s) (db, sg) (db', sg')"
      by (auto simp: of_session_def intro: only_uploads_trans)
    with k show ?thesis by (auto split: sum.splits)
  qed
qed

section \<open>A session from its opening to its end\<close>

definition state_of :: "server \<Rightarrow> db \<times> staging" where
  "state_of sv = (w_db (sv_world sv), sv_staging sv)"

text \<open>The requests of one client, in order, and the bytes of those that were answered.\<close>

fun feed :: "user \<Rightarrow> uuid \<Rightarrow> (timestamp \<times> timestamp list \<times> headers \<times> chunks) list \<Rightarrow> server \<Rightarrow> string \<times> server" where
  "feed u i [] sv = ([], sv)"
| "feed u i ((now, renewals, headers, body) # requests) sv =
     (case append_handler now renewals u i headers body sv of
        (Inl e, sv1) \<Rightarrow> feed u i requests sv1
      | (Inr x, sv1) \<Rightarrow> (case feed u i requests sv1 of
          (tail, sv2) \<Rightarrow> ((case drain body of Inr b \<Rightarrow> b | Inl e \<Rightarrow> []) @ tail, sv2)))"

text \<open>What is open has arrived this far, or it was closed.\<close>

definition open_at :: "uuid \<Rightarrow> uuid \<Rightarrow> string \<Rightarrow> int \<Rightarrow> string \<Rightarrow> server \<Rightarrow> bool" where
  "open_at owner i path bytes got sv \<longleftrightarrow> one_each (w_db (sv_world sv))
     \<and> (arrived owner i path bytes got (state_of sv) \<or> closed i (state_of sv))"

lemma upload_of_Inr:
  assumes "one_each db" and "upload_of now owner i db = Inr s"
  shows "row i db = Some s" and "up_owner s = owner" and "up_id s = i"
proof -
  from assms(2) have f: "find (\<lambda>s. up_id s = i \<and> up_owner s = owner \<and> now < up_expires s) (uploads db) = Some s"
    by (simp add: upload_of_def)
  from find_Some_set [OF f] show "up_owner s = owner" "up_id s = i" by simp_all
  with find_upload [OF assms(1), of s] find_Some_set [OF f] show "row i db = Some s" by (simp add: row_def)
qed

lemma append_handler_keeps:
  assumes o: "open_at (u_id u) i path bytes got sv"
    and w: "append_handler now renewals u i headers body sv = (r, sv')"
  shows "only_uploads (w_db (sv_world sv)) (w_db (sv_world sv')) \<and> w_files (sv_world sv') = w_files (sv_world sv)
    \<and> (case r of
         Inr y \<Rightarrow> \<exists>b. drain body = Inr b \<and> open_at (u_id u) i path bytes (got @ b) sv'
       | Inl e \<Rightarrow> open_at (u_id u) i path bytes got sv')"
proof (cases "sv' = sv \<and> (\<exists>e. r = Inl e)")
  case True
  then show ?thesis using o by auto
next
  case False
  then obtain s offset where s: "upload_of now (u_id u) i (w_db (sv_world sv)) = Inr s"
      "Option.bind (headers ''upload-offset'') parse_i64 = Some offset"
    using w by (auto simp: append_handler_def split: sum.splits option.splits)
  obtain r1 db' sg' where ap: "append_upload now renewals s offset body (w_db (sv_world sv), sv_staging sv) = (r1, db', sg')"
    by (cases "append_upload now renewals s offset body (w_db (sv_world sv), sv_staging sv)") auto
  have sv': "sv' = \<lparr>sv_world = (sv_world sv)\<lparr>w_db := db'\<rparr>, sv_staging = sg'\<rparr>"
    and r: "(case r of Inl e \<Rightarrow> r1 = Inl e | Inr y \<Rightarrow> \<exists>x. r1 = Inr x)"
    using w s ap by (auto simp: append_handler_def with_uploads_def split: sum.splits)
  have d: "one_each (w_db (sv_world sv))" using o by (simp add: open_at_def)
  note uo = upload_of_Inr [OF d s(1)]
  have "arrived (u_id u) i path bytes got (w_db (sv_world sv), sv_staging sv)"
    using o uo(1) by (auto simp: open_at_def state_of_def closed_def)
  from append_keeps [OF d uo(1) this ap] r show ?thesis
    by (cases r) (auto simp: sv' of_session_def open_at_def state_of_def)
qed

lemma feed_keeps:
  "feed u i requests sv = (b, sv') \<Longrightarrow> open_at (u_id u) i path bytes got sv \<Longrightarrow>
   only_uploads (w_db (sv_world sv)) (w_db (sv_world sv')) \<and> w_files (sv_world sv') = w_files (sv_world sv)
   \<and> open_at (u_id u) i path bytes (got @ b) sv'"
proof (induction u i requests sv arbitrary: got b rule: feed.induct)
  case (2 u i now renewals headers body requests sv)
  obtain r sv1 where ap: "append_handler now renewals u i headers body sv = (r, sv1)" by fastforce
  note k = append_handler_keeps [OF 2(4) ap]
  show ?case
  proof (cases r)
    case (Inl e)
    with 2(3) ap have "feed u i requests sv1 = (b, sv')" by simp
    with 2(1) [OF ap [symmetric] Inl this] k Inl show ?thesis by (auto intro: only_uploads_trans)
  next
    case (Inr y)
    with k obtain c where c: "drain body = Inr c" "open_at (u_id u) i path bytes (got @ c) sv1" by auto
    from 2(3) ap Inr c obtain tail where t: "feed u i requests sv1 = (tail, sv')" "b = c @ tail"
      by (auto split: prod.splits)
    from 2(2) [OF ap [symmetric] Inr t(1) c(2)] k show ?thesis by (auto simp: t(2) intro: only_uploads_trans)
  qed
qed simp

lemma quota_holder_sound: "sound db \<Longrightarrow> quota_holder C now u path quota db = Inr (holder, db') \<Longrightarrow> sound db'"
  by (auto simp: quota_holder_def rbind_eq_Inr dest: ensure_root_sound(1) split: if_splits list.splits)

lemma quota_holder_apart: "quota_holder C now u path quota db = Inr (holder, db') \<Longrightarrow> apart db db'"
  by (auto simp: quota_holder_def rbind_eq_Inr dest: ensure_root_apart split: if_splits list.splits)

lemma upload_admitted_sound:
  assumes "sound db" and "upload_admitted C st now u names pre bytes db = Inr (x, db')"
  shows "sound db'" and "apart db db'"
proof -
  obtain holder db1 existing where q: "quota_holder C now u names (default_quota_bytes st) db = Inr (holder, db1)"
    and f: "(case file_target C now u names False (default_quota_bytes st) db1 of
         Inr (dir, name, db2) \<Rightarrow> Inr (child (n_id dir) name db2, db2)
       | Inl NotFound \<Rightarrow> Inr (None, db1) | Inl e \<Rightarrow> Inl e) = Inr (existing, db')"
    using assms(2) by (auto simp: upload_admitted_def rbind_eq_Inr)
  note s1 = quota_holder_sound [OF assms(1) q] and a1 = quota_holder_apart [OF q]
  have "sound db' \<and> apart db1 db'"
  proof (cases "file_target C now u names False (default_quota_bytes st) db1")
    case (Inl e)
    with f have "db' = db1" by (cases e) auto
    with s1 show ?thesis by simp
  next
    case (Inr y)
    with f obtain dir name where "file_target C now u names False (default_quota_bytes st) db1 = Inr (dir, name, db')"
      by (cases y) auto
    with file_target_sound [OF s1 this] file_target_apart [OF this] show ?thesis by blast
  qed
  with a1 show "sound db'" "apart db db'" by (blast intro: apart_trans)+
qed

lemma begin_opens:
  assumes s: "sound (w_db (sv_world sv))" and d: "one_each (w_db (sv_world sv))"
    and b: "begin_handler C st now u headers path bytes sv = (Inr x, sv')"
  shows "sound (w_db (sv_world sv'))" and "w_files (sv_world sv') = w_files (sv_world sv)"
    and "open_at (u_id u) (up_id x) path bytes [] sv'" and "parse_path path \<noteq> Inr []"
proof -
  obtain ns db1 where ns: "path_segments path = Inr ns" "ns \<noteq> []"
    and ad: "upload_admitted C st now u ns (precondition_of headers) bytes (w_db (sv_world sv)) = Inr ((), db1)"
    and bu: "with_uploads (begin_upload C now (u_id u) path bytes) (sv\<lparr>sv_world := (sv_world sv)\<lparr>w_db := db1\<rparr>\<rparr>) = (Inr x, sv')"
    using b by (auto simp: begin_handler_def transact_def split: sum.splits if_splits prod.splits)
  note ua = upload_admitted_sound [OF s ad]
  have d1: "one_each db1" using d ua(2) by (simp add: one_each_def apart_def)
  obtain db3 sg where bg: "begin_upload C now (u_id u) path bytes (db1, sv_staging sv) = (Inr x, db3, sg)"
    and sv': "sv' = \<lparr>sv_world = (sv_world sv)\<lparr>w_db := db3\<rparr>, sv_staging = sg\<rparr>"
    using bu by (auto simp: with_uploads_def split: prod.splits)
  let ?db2 = "snd (now_v7 (snd (now_v7 db1)))"
  from bg have i: "insert_upload x ?db2 = Inr db3"
    and x: "up_owner x = u_id u" "up_path x = path" "up_size x = bytes" "up_received x = 0"
    and sg: "sg = create_staged now (up_staged x) (sv_staging sv)" and "0 \<le> bytes"
    by (auto simp: begin_upload_def Let_def split: prod.splits sum.splits if_splits)
  from i have db3: "db3 = ?db2\<lparr>uploads := uploads ?db2 @ [x]\<rparr>" and new: "up_id x \<notin> up_id ` set (uploads db1)"
    by (auto simp: insert_upload_def split: option.splits if_splits)
  show "sound (w_db (sv_world sv'))" using ua(1) by (simp add: sv' db3)
  show "w_files (sv_world sv') = w_files (sv_world sv)" by (simp add: sv')
  have "row (up_id x) db3 = Some x"
  proof -
    have "find (\<lambda>y. up_id y = up_id x) (xs @ [x]) = Some x" if "up_id x \<notin> up_id ` set xs" for xs
      using that by (induction xs) auto
    with new show ?thesis by (simp add: row_def db3)
  qed
  then have "arrived (u_id u) (up_id x) path bytes [] (state_of sv')"
    using x \<open>0 \<le> bytes\<close> by (simp add: arrived_def state_of_def sv' sg create_staged_def AList.update_conv')
  moreover have "one_each db3" using d1 new by (simp add: one_each_def db3)
  ultimately show "open_at (u_id u) (up_id x) path bytes [] sv'" by (simp add: open_at_def sv')
  show "parse_path path \<noteq> Inr []" using ns by (simp add: path_segments_Inr)
qed

section \<open>The end\<close>

text \<open>Where a path leads does not depend on the sessions.\<close>

lemma insert_quota_uploads:
  "insert_quota owner q (db\<lparr>uploads := us\<rparr>) = map_sum id (\<lambda>d. d\<lparr>uploads := us\<rparr>) (insert_quota owner q db)"
  by (simp add: insert_quota_def)

lemma insert_node_uploads:
  "insert_node n (db\<lparr>uploads := us\<rparr>) = map_sum id (\<lambda>d. d\<lparr>uploads := us\<rparr>) (insert_node n db)"
  by (simp add: insert_node_def store_nodes_def split: option.split)

lemma now_v7_uploads: "now_v7 (db\<lparr>uploads := us\<rparr>) = map_prod id (\<lambda>d. d\<lparr>uploads := us\<rparr>) (now_v7 db)"
  by (simp add: now_v7_def)

lemma ensure_root_uploads:
  assumes "ensure_root C now owner q db = Inr (root, db')"
  shows "ensure_root C now owner q (db\<lparr>uploads := us\<rparr>) = Inr (root, db'\<lparr>uploads := us\<rparr>)"
proof -
  obtain db1 where q: "insert_quota owner q db = Inr db1" using assms by (auto simp: ensure_root_def rbind_eq_Inr)
  then have q': "insert_quota owner q (db\<lparr>uploads := us\<rparr>) = Inr (db1\<lparr>uploads := us\<rparr>)"
    by (simp add: insert_quota_uploads)
  obtain i db2 where n1: "now_v7 db1 = (i, db2)" by fastforce
  obtain e db3 where n2: "etag_for_directory C db2 = (e, db3)" by fastforce
  have n1': "now_v7 (db1\<lparr>uploads := us\<rparr>) = (i, db2\<lparr>uploads := us\<rparr>)" by (simp add: now_v7_uploads n1)
  have n2': "etag_for_directory C (db2\<lparr>uploads := us\<rparr>) = (e, db3\<lparr>uploads := us\<rparr>)"
    using n2 by (auto simp: etag_for_directory_def now_v7_uploads Let_def split: prod.splits)
  show ?thesis using assms
    by (auto simp: ensure_root_def q q' n1 n1' n2 n2' Let_def insert_node_uploads rbind_eq_Inr
        split: sum.splits db_error.splits)
qed

lemma child_uploads: "child i x (db\<lparr>uploads := us\<rparr>) = child i x db"
  by (simp add: child_def)

lemma resolve_uploads: "resolve start path (db\<lparr>uploads := us\<rparr>) = resolve start path db"
  by (induction path arbitrary: start) (simp_all add: child_uploads)

lemma mount_named_uploads: "mount_named email x (db\<lparr>uploads := us\<rparr>) = mount_named email x db"
  by (simp add: mount_named_def live_node_def)

lemma locate_uploads:
  assumes "locate C now u path q db = Inr (place, db')"
  shows "locate C now u path q (db\<lparr>uploads := us\<rparr>) = Inr (place, db'\<lparr>uploads := us\<rparr>)"
  using assms
  by (auto simp: locate_def rbind_eq_Inr mount_named_uploads resolve_uploads dest: ensure_root_uploads [where us = us]
      split: if_splits list.splits)

text \<open>What is finished is the whole of what arrived.\<close>

lemma open_at_complete:
  assumes "open_at owner i path bytes got sv" and "upload_of now owner i (w_db (sv_world sv)) = Inr s"
    and "up_received s = up_size s"
  shows "int (length got) = bytes" and "up_path s = path"
    and "\<exists>f. map_of (sv_staging sv) (up_staged s) = Some f \<and> f_bytes f = got"
proof -
  have d: "one_each (w_db (sv_world sv))" using assms(1) by (simp add: open_at_def)
  note uo = upload_of_Inr [OF d assms(2)]
  with assms(1) have "arrived owner i path bytes got (state_of sv)"
    by (auto simp: open_at_def closed_def state_of_def)
  with uo(1) assms(3) obtain f where f: "up_path s = path" "int (length got) = bytes" "map_of (sv_staging sv) (up_staged s) = Some f"
      "take (length got) (f_bytes f) = got" "int (length (f_bytes f)) \<le> bytes"
    by (auto simp: arrived_def state_of_def)
  then have "f_bytes f = got" by simp
  with f show "int (length got) = bytes" "up_path s = path"
    "\<exists>f. map_of (sv_staging sv) (up_staged s) = Some f \<and> f_bytes f = got" by blast+
qed

lemma finish_Inr:
  assumes "finish C st now tmp_name u headers i sv = (Inr n, sv')"
  obtains s ns f wr fs db1 db2 where "upload_of now (u_id u) i (w_db (sv_world sv)) = Inr s" "up_received s = up_size s"
    "parse_path (up_path s) = Inr ns" "map_of (sv_staging sv) (up_staged s) = Some f"
    "local_write C now tmp_name [Inr (f_bytes f)] (w_files (sv_world sv)) = (Inr wr, fs)" "int (wr_size wr) < 2 ^ 63"
    "register_blob now (wr_hash wr) (int (wr_size wr)) (w_db (sv_world sv)) = Inr db1"
    "put_commit C st now u ns (precondition_of headers) wr (int (wr_size wr)) db1 = Inr (n, db2)"
    "sv_world sv' = \<lparr>w_db = drop_session (up_id s) db2, w_files = local_settle C wr fs\<rparr>"
    "sv_staging sv' = discard (up_staged s) (sv_staging sv)"
proof -
  obtain s where s: "upload_of now (u_id u) i (w_db (sv_world sv)) = Inr s" "up_received s = up_size s"
    using assms by (auto simp: finish_def split: sum.splits if_splits)
  obtain ns where ns: "path_segments (up_path s) = Inr ns"
    using assms s by (auto simp: finish_def split: sum.splits)
  obtain f where f: "map_of (sv_staging sv) (up_staged s) = Some f"
    using assms s ns by (auto simp: finish_def split: option.splits)
  obtain wr fs where w: "local_write C now tmp_name [Inr (f_bytes f)] (w_files (sv_world sv)) = (Inr wr, fs)" "int (wr_size wr) < 2 ^ 63"
    using assms s ns f by (auto simp: finish_def split: prod.splits sum.splits if_splits)
  obtain db1 where r: "register_blob now (wr_hash wr) (int (wr_size wr)) (w_db (sv_world sv)) = Inr db1"
    using assms s ns f w by (auto simp: finish_def split: sum.splits)
  obtain m db2 where p: "put_commit C st now u ns (precondition_of headers) wr (int (wr_size wr)) db1 = Inr (m, db2)"
    using assms s ns f w r by (auto simp: finish_def split: sum.splits)
  have "m = n" "sv_world sv' = \<lparr>w_db = drop_session (up_id s) db2, w_files = local_settle C wr fs\<rparr>"
    "sv_staging sv' = discard (up_staged s) (sv_staging sv)"
    using assms s ns f w r p by (auto simp: finish_def abandon_upload_def)
  with that [OF s _ f w r] ns p show thesis by (auto simp: path_segments_Inr)
qed

section \<open>A file that came in two pieces\<close>

definition at_offset :: "string \<Rightarrow> headers" where
  "at_offset text name = (if name = ''upload-offset'' then Some text else None)"

definition no_headers :: headers where
  "no_headers name = None"

definition sample_server :: server where
  "sample_server = \<lparr>sv_world = sample_world, sv_staging = []\<rparr>"

definition two_pieces :: "(timestamp \<times> timestamp list \<times> headers \<times> chunks) list" where
  "two_pieces = [(6, [], at_offset ''0'', [Inr ''xy'', Inl Upstream]), (7, [8], at_offset ''0'', [Inr ''x'']),
     (9, [], at_offset ''2'', [Inr ''z'']), (9, [], at_offset ''1'', [Inr ''y'', Inr ''z''])]"

definition piecewise :: "(api_error + node) \<times> server" where
  "piecewise = (case begin_handler sample_crates sample_state 5 sample_user no_headers ''a/g'' 3 sample_server of
     (Inl e, sv) \<Rightarrow> (Inl e, sv)
   | (Inr s, sv1) \<Rightarrow> (case feed sample_user (up_id s) two_pieces sv1 of
       (got, sv2) \<Rightarrow> finish sample_crates sample_state 10 ''t'' sample_user no_headers (up_id s) sv2))"

lemma piecewise_ok: "\<not> isl (fst piecewise)"
  by code_simp

section \<open>Properties\<close>

lemma only_uploads_sound: "only_uploads db db' \<Longrightarrow> sound db \<Longrightarrow> sound db'"
  by (auto simp: only_uploads_def)

lemma put_commit_located:
  assumes "sound db" and "ns \<noteq> []" and "put_commit C st now u ns pre wr bytes db = Inr (n, db')"
  shows "\<exists>place db3 nm. locate C now' u ns (default_quota_bytes st) db' = Inr (place, db3)
      \<and> into_node place = Inr (n\<lparr>n_name := nm\<rparr>)"
    and "n_blob n = Some (wr_hash wr)" and "n_kind n = File"
proof -
  obtain dir name db1 where t: "file_target C now u ns True (default_quota_bytes st) db = Inr (dir, name, db1)"
    and pf: "put_file C now (n_owner dir) dir name (wr_hash wr) bytes (versions_kept st) db1 = Inr (n, db')"
    using assms(3) by (auto simp: put_commit_def rbind_eq_Inr)
  show "\<exists>place db3 nm. locate C now' u ns (default_quota_bytes st) db' = Inr (place, db3)
      \<and> into_node place = Inr (n\<lparr>n_name := nm\<rparr>)"
    by (rule locate_after_put [OF assms(1,2) t pf])
  show "n_blob n = Some (wr_hash wr)" "n_kind n = File"
    using put_file_sound(3,4) [OF file_target_sound(1,3) [OF assms(1) t] pf] by simp_all
qed

text \<open>
  C12. A file that is sent in pieces is read back whole: whatever requests a client makes of a session
  it opened, broken off, out of place or refused ones among them, once finishing it succeeds, the
  account reads at the path the bytes of the requests that were answered, one after the other, and they
  are as many as it promised.
\<close>

theorem upload_then_get:
  assumes "sound (w_db (sv_world sv))" and "one_each (w_db (sv_world sv))"
    and "collision_free C" and "content_addressed C (w_files (sv_world sv))"
    and "begin_handler C st now u headers path bytes sv = (Inr s, sv1)"
    and "feed u (up_id s) requests sv1 = (got, sv2)"
    and "finish C st now2 tmp_name u headers2 (up_id s) sv2 = (Inr n, sv3)"
    and "header_value C (n_etag n) = Some etag"
  shows "int (length got) = bytes
    \<and> (\<exists>c w. get C st now3 u path (sv_world sv3) = (Inr c, w) \<and> c_body c = got)"
proof -
  note b = begin_opens [OF assms(1,2,5)]
  from feed_keeps [OF assms(6) b(3)] have
    o: "open_at (u_id u) (up_id s) path bytes got sv2" and fs: "w_files (sv_world sv2) = w_files (sv_world sv)"
    and s2: "sound (w_db (sv_world sv2))" using b(1,2) only_uploads_sound by auto
  obtain s' ns f wr fs db1 db2 where
    so: "upload_of now2 (u_id u) (up_id s) (w_db (sv_world sv2)) = Inr s'" "up_received s' = up_size s'"
    and ns: "parse_path (up_path s') = Inr ns" and f: "map_of (sv_staging sv2) (up_staged s') = Some f"
    and w: "local_write C now2 tmp_name [Inr (f_bytes f)] (w_files (sv_world sv2)) = (Inr wr, fs)"
    and rb: "register_blob now2 (wr_hash wr) (int (wr_size wr)) (w_db (sv_world sv2)) = Inr db1"
    and pc: "put_commit C st now2 u ns (precondition_of headers2) wr (int (wr_size wr)) db1 = Inr (n, db2)"
    and sv3: "sv_world sv3 = \<lparr>w_db = drop_session (up_id s') db2, w_files = local_settle C wr fs\<rparr>"
    by (rule finish_Inr [OF assms(7)])
  note oc = open_at_complete [OF o so]
  from oc(3) f have got: "f_bytes f = got" by simp
  have "content_addressed C (w_files (sv_world sv2))" using fs assms(4) by simp
  from local_store.written_reads [OF assms(3) this w] got
  have rd: "local_read C (wr_hash wr) (local_settle C wr fs) = Inr got" by auto
  have s1: "sound db1" using register_blob_sound [OF s2 rb] by simp
  have nn: "ns \<noteq> []" using b(4) ns oc(2) by auto
  note pl = put_commit_located [OF s1 nn pc]
  obtain place db3 nm where l: "locate C now3 u ns (default_quota_bytes st) db2 = Inr (place, db3)"
    "into_node place = Inr (n\<lparr>n_name := nm\<rparr>)" using pl(1) by blast
  let ?us = "filter (\<lambda>x. up_id x \<noteq> up_id s') (uploads db2)"
  have "with_db (located C st now3 u path) (sv_world sv3)
      = (Inr place, \<lparr>w_db = db3\<lparr>uploads := ?us\<rparr>, w_files = local_settle C wr fs\<rparr>)"
    using locate_uploads [OF l(1), of ?us] ns oc(2)
    by (simp add: with_db_def located_def path_segments_def transact_def sv3 drop_session_def)
  then show ?thesis using l(2) pl(2,3) rd oc(1) assms(8)
    by (auto simp: get_def bytes_of_def etag_header_def blob_bytes_def)
qed

lemma piecewise_got:
  "(case begin_handler sample_crates sample_state 5 sample_user no_headers ''a/g'' 3 sample_server of
     (Inl e, sv) \<Rightarrow> False | (Inr s, sv1) \<Rightarrow> fst (feed sample_user (up_id s) two_pieces sv1) = ''xyz'')"
  by code_simp

theorem upload_then_get_witness:
  "\<exists>s sv1 sv2 n sv3 c w.
      begin_handler sample_crates sample_state 5 sample_user no_headers ''a/g'' 3 sample_server = (Inr s, sv1)
    \<and> feed sample_user (up_id s) two_pieces sv1 = (''xyz'', sv2)
    \<and> finish sample_crates sample_state 10 ''t'' sample_user no_headers (up_id s) sv2 = (Inr n, sv3)
    \<and> get sample_crates sample_state 11 sample_user ''a/g'' (sv_world sv3) = (Inr c, w) \<and> c_body c = ''xyz''"
proof -
  obtain s sv1 where b: "begin_handler sample_crates sample_state 5 sample_user no_headers ''a/g'' 3 sample_server = (Inr s, sv1)"
    and g: "fst (feed sample_user (up_id s) two_pieces sv1) = ''xyz''"
    using piecewise_got by (auto split: prod.splits sum.splits)
  obtain sv2 where f: "feed sample_user (up_id s) two_pieces sv1 = (''xyz'', sv2)" using g by (metis prod.collapse)
  from piecewise_ok have "\<not> isl (fst (finish sample_crates sample_state 10 ''t'' sample_user no_headers (up_id s) sv2))"
    by (simp add: piecewise_def b f)
  then obtain n sv3 where e: "finish sample_crates sample_state 10 ''t'' sample_user no_headers (up_id s) sv2 = (Inr n, sv3)"
    by (metis isl_def old.sum.exhaust prod.collapse)
  have "sound (w_db (sv_world sample_server))" "one_each (w_db (sv_world sample_server))"
    "content_addressed sample_crates (w_files (sv_world sample_server))"
    using sample_sound by (simp_all add: sample_server_def sample_world_def content_addressed_def one_each_def sample_def empty_db_def)
  moreover have "header_value sample_crates t = Some t" for t by (simp add: sample_crates_def)
  ultimately obtain c w where "get sample_crates sample_state 11 sample_user ''a/g'' (sv_world sv3) = (Inr c, w)" "c_body c = ''xyz''"
    using upload_then_get [OF _ _ sample_collision_free _ b f e, of "n_etag n" 11] by blast
  with b f e show ?thesis by blast
qed

lemma violation_claim: "uploads_violation (s\<lparr>up_writing := t, up_writer := k\<rparr>) = uploads_violation s"
  by (simp add: uploads_violation_def)

text \<open>
  The session a request works with is the one it read before it claimed it. When another request has
  moved the session on in between, the write cuts the file back to the old offset all the same, and if
  its body then breaks off, the row goes on saying that the bytes are there.
\<close>

lemma stale_append_truncates:
  assumes d: "one_each db" and s: "up_id s = i" "0 \<le> up_received s" "map_of sg (up_staged s) = Some f"
    and now: "row i db = Some s'" "up_writing s' = None" "uploads_violation s' = None"
  shows "\<exists>db' sg' f' x. append_upload now [] s (up_received s) [Inl Io] (db, sg) = (Inl (Storage Upstream), db', sg')
    \<and> map_of sg' (up_staged s) = Some f' \<and> length (f_bytes f') = nat (up_received s)
    \<and> row i db' = Some x \<and> up_received x = up_received s'"
proof -
  have i: "up_id s' = i" using find_Some_set [OF now(1) [unfolded row_def]] by simp
  let ?db1 = "snd (now_v7 db)" and ?P = "\<lambda>s. up_id s = i \<and> (case up_writing s of None \<Rightarrow> True | Some t \<Rightarrow> t < now)"
  have "find ?P (uploads db) \<noteq> None"
    using find_Some_set [OF now(1) [unfolded row_def]] now(2) by (auto simp: find_None_set)
  then obtain y where y: "find ?P (uploads db) = Some y" by auto
  have "y = s'" using find_upload [OF d, of y] find_Some_set [OF y] now(1) by (simp add: row_def)
  then have "\<exists>db1. claim now i db = Inr (uuids db 0, db1)"
    using y now(3) by (simp add: claim_def case_prod_unfold update_upload_def violation_claim now_v7_def)
  then obtain db1 where c: "claim now i db = Inr (uuids db 0, db1)" by blast
  note cr = claim_refreshed(1) [OF d c]
  have d1: "one_each db1" using refreshed_one_each [OF cr] by blast
  have "refreshed i db (release_claim i (uuids db 0) db1)" by (rule refreshed_trans [OF cr release_refreshed [OF d1]])
  then obtain x where "row i (release_claim i (uuids db 0) db1) = Some x" "same_session s' x"
    using now(1) by (auto simp: refreshed_def option_rel_Some1)
  moreover have "append_upload now [] s (up_received s) [Inl Io] (db, sg)
      = (Inl (Storage Upstream), release_claim i (uuids db 0) db1,
         AList.update (up_staged s) \<lparr>f_bytes = set_len (nat (up_received s)) (f_bytes f), f_modified = now\<rparr> sg)"
    using s c by (simp add: append_upload_def write_at_def record_written_def)
  ultimately show ?thesis by (auto simp: AList.update_conv' same_session_def)
qed

end
