(* ===== verification/Collector.thy ===== *)
theory Collector
  imports Uploads Locks
begin

text \<open>
  Thumbnails and the collection of blobs: \<open>api/src/thumbnails.rs\<close>, \<open>routes/thumbnails.rs\<close> and the
  parts of \<open>sweeper.rs\<close> that take unreferenced blobs away. The image library is a parameter. The
  lemmas show that the collector keeps the books and takes no bytes that anything refers to.
\<close>

section \<open>Shrinking an image\<close>

datatype image_format = Png | Jpeg | Gif | WebP | OtherFormat

text \<open>
  What the image library does: the format it guesses from the first bytes, the size in the header,
  decoding within an allocation limit, scaling into a square, and encoding to \<open>WebP\<close>.
\<close>

record 'i images =
  guess_format :: "string \<Rightarrow> image_format option"
  into_dimensions :: "string \<Rightarrow> (nat \<times> nat) option"
  decode_image :: "nat \<Rightarrow> string \<Rightarrow> 'i option"
  image_width :: "'i \<Rightarrow> nat"
  image_height :: "'i \<Rightarrow> nat"
  image_thumbnail :: "nat \<Rightarrow> 'i \<Rightarrow> 'i"
  write_webp :: "'i \<Rightarrow> string option"

definition EDGES :: "int list" where "EDGES = [128, 256, 512]"
definition LARGEST_SOURCE_BYTES :: nat where "LARGEST_SOURCE_BYTES = 32 * 1024 * 1024"
definition LARGEST_PIXELS :: nat where "LARGEST_PIXELS = 50000000"
definition LARGEST_ALLOCATION :: nat where "LARGEST_ALLOCATION = 256 * 1024 * 1024"

definition is_an_edge :: "int \<Rightarrow> bool" where "is_an_edge edge \<longleftrightarrow> edge \<in> set EDGES"

definition looks_like_an_image :: "string \<Rightarrow> bool" where
  "looks_like_an_image name =
     (case rsplit_once CHR ''.'' name of
        None \<Rightarrow> False
      | Some (_, extension) \<Rightarrow>
          list_ex (\<lambda>e. map ascii_lower extension = e) [''png'', ''jpg'', ''jpeg'', ''gif'', ''webp''])"

definition shrink :: "'i images \<Rightarrow> string \<Rightarrow> nat \<Rightarrow> not_an_image + string" where
  "shrink I source edge =
     (if LARGEST_SOURCE_BYTES < length source then Inl TooBig
      else if guess_format I source \<notin> Some ` set [Png, Jpeg, Gif, WebP] then Inl Format
      else case into_dimensions I source of
          None \<Rightarrow> Inl Unreadable
        | Some (width, height) \<Rightarrow>
            if LARGEST_PIXELS < width * height then Inl TooBig
            else (case decode_image I LARGEST_ALLOCATION source of
                None \<Rightarrow> Inl Unreadable
              | Some decoded \<Rightarrow>
                  let thumbnail = (if image_width I decoded \<le> edge \<and> image_height I decoded \<le> edge
                    then decoded else image_thumbnail I edge decoded)
                  in (case write_webp I thumbnail of None \<Rightarrow> Inl Unreadable | Some bytes \<Rightarrow> Inr bytes)))"

section \<open>The cache\<close>

definition cached :: "blob_hash \<Rightarrow> int \<Rightarrow> db \<Rightarrow> blob_hash option" where
  "cached source edge db =
     map_option t_blob (find (\<lambda>t. t_source t = source \<and> t_edge t = edge) (thumbnails db))"

definition thumbnails_violation :: "db \<Rightarrow> thumbnail \<Rightarrow> db_error option" where
  "thumbnails_violation db t =
     (if t_source t \<notin> set (map b_hash (blobs db)) then Some (ForeignKeyViolation ''thumbnails_source_hash_fkey'')
      else if t_blob t \<notin> set (map b_hash (blobs db)) then Some (ForeignKeyViolation ''thumbnails_blob_hash_fkey'')
      else None)"

text \<open>\<open>ON CONFLICT DO NOTHING\<close>: the reference is taken only where a row was inserted.\<close>

definition remember :: "blob_hash \<Rightarrow> int \<Rightarrow> blob_hash \<Rightarrow> db \<Rightarrow> api_error + db" where
  "remember source edge thumbnail db =
     (let t = \<lparr>t_source = source, t_edge = edge, t_blob = thumbnail\<rparr> in
      if edge \<le> 0 then Inl (Database (CheckViolation ''thumbnails_edge_check''))
      else if cached source edge db \<noteq> None then Inr db
      else case thumbnails_violation db t of
          Some e \<Rightarrow> Inl (Database e)
        | None \<Rightarrow> Inr (acquire_blob thumbnail (db\<lparr>thumbnails := thumbnails db @ [t]\<rparr>)))"

definition orphan_thumbnail :: "db \<Rightarrow> thumbnail \<Rightarrow> bool" where
  "orphan_thumbnail db t \<longleftrightarrow> \<not> list_ex (\<lambda>n. n_blob n = Some (t_source t) \<and> live n) (nodes db)"

definition forget_orphans :: "timestamp \<Rightarrow> db \<Rightarrow> nat \<times> db" where
  "forget_orphans now db =
     (let orphaned = filter (orphan_thumbnail db) (thumbnails db)
      in (length orphaned, fold (release_blob now) (map t_blob orphaned)
           (db\<lparr>thumbnails := filter (\<lambda>t. \<not> orphan_thumbnail db t) (thumbnails db)\<rparr>)))"

section \<open>Answering a thumbnail\<close>

definition thumbnail_headers :: "(string \<times> string) list" where
  "thumbnail_headers = [(''cache-control'', ''private, max-age=86400''), (''content-type'', ''image/webp''),
     (''content-disposition'', ''attachment''), (''x-content-type-options'', ''nosniff'')]"

definition serve :: "crates \<Rightarrow> blob_hash \<Rightarrow> files \<Rightarrow> api_error + contents" where
  "serve C h fs = rbind (map_err Storage (local_read C h fs)) (\<lambda>bytes.
     Inr \<lparr>c_headers = thumbnail_headers, c_body = bytes\<rparr>)"

text \<open>What was shrunk is stored, remembered and answered.\<close>

definition store_thumbnail ::
    "crates \<Rightarrow> timestamp \<Rightarrow> string \<Rightarrow> blob_hash \<Rightarrow> int \<Rightarrow> string \<Rightarrow> world \<Rightarrow> contents reply" where
  "store_thumbnail C now tmp_name source edge shrunk w =
     (if 2 ^ 63 \<le> int (length shrunk) then (Inl QuotaExceeded, w)
      else case local_write C now tmp_name [Inr shrunk] (w_files w) of
          (Inl e, fs) \<Rightarrow> (Inl (Storage e), w\<lparr>w_files := fs\<rparr>)
        | (Inr wr, fs) \<Rightarrow>
            (case register_blob now (wr_hash wr) (int (length shrunk)) (w_db w) of
               Inl e \<Rightarrow> (Inl e, w\<lparr>w_files := fs\<rparr>)
             | Inr db1 \<Rightarrow>
                 (case remember source edge (wr_hash wr) db1 of
                    Inl e \<Rightarrow> (Inl e, \<lparr>w_db = db1, w_files = fs\<rparr>)
                  | Inr db2 \<Rightarrow>
                      let fs2 = local_settle C wr fs
                      in (serve C (wr_hash wr) fs2, \<lparr>w_db = db2, w_files = fs2\<rparr>))))"

definition get_thumbnail ::
    "'i images \<Rightarrow> crates \<Rightarrow> app_state \<Rightarrow> timestamp \<Rightarrow> string \<Rightarrow> user \<Rightarrow> string \<Rightarrow> int option \<Rightarrow> world \<Rightarrow> contents reply" where
  "get_thumbnail I C st now tmp_name u path wanted_edge w =
     (let edge = (case wanted_edge of Some e \<Rightarrow> e | None \<Rightarrow> 256) in
      if \<not> is_an_edge edge then (Inl (WrongKind ''edge of 128, 256 or 512''), w)
      else case path_segments path of
          Inl e \<Rightarrow> (Inl e, w)
        | Inr names \<Rightarrow>
            (case with_db (transact (\<lambda>db. rbind (locate C now u names (default_quota_bytes st) db) (\<lambda>(place, db1).
                rbind (into_node place) (\<lambda>n. Inr (n, db1))))) w of
               (Inl e, w1) \<Rightarrow> (Inl e, w1)
             | (Inr n, w1) \<Rightarrow>
                 (case (n_kind n, n_blob n) of
                    (File, Some source) \<Rightarrow>
                      if \<not> looks_like_an_image (n_name n) then (Inl (NotAnImage Format), w1)
                      else (case cached source edge (w_db w1) of
                          Some h \<Rightarrow> (serve C h (w_files w1), w1)
                        | None \<Rightarrow>
                            (case local_read C source (w_files w1) of
                               Inl e \<Rightarrow> (Inl (Storage e), w1)
                             | Inr bytes \<Rightarrow>
                                 (case shrink I (take (LARGEST_SOURCE_BYTES + 1) bytes) (nat edge) of
                                    Inl e \<Rightarrow> (Inl (NotAnImage e), w1)
                                  | Inr shrunk \<Rightarrow> store_thumbnail C now tmp_name source edge shrunk w1)))
                  | _ \<Rightarrow> (Inl (WrongKind ''file''), w1))))"

section \<open>The sweep\<close>

record collected =
  co_blobs :: nat
  co_bytes :: int

text \<open>\<open>i64::try_from(micros).unwrap_or(i64::MAX)\<close>; the grace is in microseconds.\<close>

definition interval_of :: "nat \<Rightarrow> int" where
  "interval_of grace = (if grace < 2 ^ 63 then int grace else 2 ^ 63 - 1)"

definition overdue :: "timestamp \<Rightarrow> nat \<Rightarrow> blob \<Rightarrow> bool" where
  "overdue now grace b \<longleftrightarrow> b_refs b = 0
     \<and> (case b_unreferenced b of Some t \<Rightarrow> t < now - interval_of grace | None \<Rightarrow> False)"

definition orphaned :: "timestamp \<Rightarrow> nat \<Rightarrow> db \<Rightarrow> blob_hash list" where
  "orphaned now grace db = take 10000 (map b_hash (filter (overdue now grace) (blobs db)))"

text \<open>A row that something still names is not deleted.\<close>

definition blob_named :: "blob_hash \<Rightarrow> db \<Rightarrow> db_error option" where
  "blob_named h db =
     (if list_ex (\<lambda>n. n_blob n = Some h) (nodes db) then Some (ForeignKeyViolation ''nodes_blob_hash_fkey'')
      else if list_ex (\<lambda>v. v_blob v = h) (versions db) then Some (ForeignKeyViolation ''versions_blob_hash_fkey'')
      else if list_ex (\<lambda>t. t_source t = h) (thumbnails db) then Some (ForeignKeyViolation ''thumbnails_source_hash_fkey'')
      else if list_ex (\<lambda>t. t_blob t = h) (thumbnails db) then Some (ForeignKeyViolation ''thumbnails_blob_hash_fkey'')
      else None)"

definition delete_blob :: "blob_hash \<Rightarrow> db \<Rightarrow> db" where
  "delete_blob h db = db\<lparr>blobs := filter (\<lambda>b. b_hash b \<noteq> h) (blobs db)\<rparr>"

text \<open>
  One blob: its row is claimed by deleting it. When the bytes were just written by someone the row
  goes and the bytes stay, and that writer's registration, which waits for the claim, brings the
  row back; otherwise the bytes go with it.
\<close>

definition sweep_one :: "crates \<Rightarrow> timestamp \<Rightarrow> nat \<Rightarrow> blob_hash \<Rightarrow> world \<Rightarrow> int option reply" where
  "sweep_one C now grace h w =
     (case find (\<lambda>b. b_hash b = h \<and> overdue now grace b) (blobs (w_db w)) of
        None \<Rightarrow> (Inr None, w)
      | Some b \<Rightarrow>
          (case blob_named h (w_db w) of
             Some e \<Rightarrow> (Inl (Database e), w)
           | None \<Rightarrow>
               let db1 = delete_blob h (w_db w) in
               if local_written_within C now h (int grace) (w_files w) then (Inr None, w\<lparr>w_db := db1\<rparr>)
               else (Inr (Some (b_size b)), \<lparr>w_db = db1, w_files = local_remove C h (w_files w)\<rparr>)))"

fun sweep_each :: "crates \<Rightarrow> timestamp \<Rightarrow> nat \<Rightarrow> blob_hash list \<Rightarrow> collected \<Rightarrow> world \<Rightarrow> collected reply" where
  "sweep_each C now grace [] c w = (Inr c, w)"
| "sweep_each C now grace (h # hs) c w =
     (case sweep_one C now grace h w of
        (Inl e, w1) \<Rightarrow> (Inl e, w1)
      | (Inr None, w1) \<Rightarrow> sweep_each C now grace hs c w1
      | (Inr (Some bytes), w1) \<Rightarrow>
          sweep_each C now grace hs \<lparr>co_blobs = co_blobs c + 1, co_bytes = co_bytes c + bytes\<rparr> w1)"

definition sweep :: "crates \<Rightarrow> timestamp \<Rightarrow> nat \<Rightarrow> world \<Rightarrow> collected reply" where
  "sweep C now grace w =
     sweep_each C now grace (orphaned now grace (w_db w)) \<lparr>co_blobs = 0, co_bytes = 0\<rparr> w"

section \<open>One turn of the sweeper\<close>

text \<open>
  What a turn does in order; a step that fails is logged and the next one goes on. The flows of
  \<open>oidc.rs\<close> that ran out go too (\<open>purge_expired_flows\<close> of \<open>Oidc\<close>): a table that nothing here reads.
\<close>

definition tick_tables :: "app_state \<Rightarrow> timestamp \<Rightarrow> db \<Rightarrow> db" where
  "tick_tables st now db =
     (let db1 = snd (purge_expired_locks now db);
          db2 = snd (purge_expired_attempts now db1);
          db3 = snd (purge_expired_sessions now db2);
          db4 = snd (forget_orphans now db3)
      in case trash_retention st of Some retention \<Rightarrow> snd (expire now retention db4) | None \<Rightarrow> db4)"

definition tick :: "crates \<Rightarrow> app_state \<Rightarrow> timestamp \<Rightarrow> nat \<Rightarrow> server \<Rightarrow> server" where
  "tick C st now grace sv =
     (let w = sv_world sv;
          sv1 = snd (sweep_uploads now (sv\<lparr>sv_world := w\<lparr>w_db := tick_tables st now (w_db w)\<rparr>\<rparr>));
          w1 = sv_world sv1;
          w2 = w1\<lparr>w_files := snd (local_sweep_staged now (int grace) (w_files w1))\<rparr>
      in sv1\<lparr>sv_world := snd (sweep C now grace w2)\<rparr>)"

section \<open>What nothing refers to\<close>

lemma unreferenced:
  assumes "sound db" and "stored_refs db h = 0"
  shows "n \<in> set (nodes db) \<Longrightarrow> n_blob n \<noteq> Some h" and "v \<in> set (versions db) \<Longrightarrow> v_blob v \<noteq> h"
    and "t \<in> set (thumbnails db) \<Longrightarrow> t_blob t \<noteq> h"
proof -
  have e: "expected_references db h = 0" using soundD(4) [OF assms(1)] assms(2) by (simp add: balanced_def)
  have z: "count_rows (\<lambda>n. n_blob n = Some h) (nodes db) = 0" "count_rows (\<lambda>v. v_blob v = h) (versions db) = 0"
    "count_rows (\<lambda>t. t_blob t = h) (thumbnails db) = 0"
    using e count_rows_nonneg [of "\<lambda>n. n_blob n = Some h" "nodes db"] count_rows_nonneg [of "\<lambda>v. v_blob v = h" "versions db"]
      count_rows_nonneg [of "\<lambda>t. t_blob t = h" "thumbnails db"]
    unfolding expected_references_def by linarith+
  show "n \<in> set (nodes db) \<Longrightarrow> n_blob n \<noteq> Some h" "v \<in> set (versions db) \<Longrightarrow> v_blob v \<noteq> h"
    "t \<in> set (thumbnails db) \<Longrightarrow> t_blob t \<noteq> h"
    using z by (auto simp: count_rows_def filter_empty_conv)
qed

lemma stored_refs_row: "blobs_ok db \<Longrightarrow> b \<in> set (blobs db) \<Longrightarrow> stored_refs db (b_hash b) = b_refs b"
  by (simp add: stored_refs_def find_blob_def blobs_ok_def find_distinct_key)

lemma delete_blob_frame [simp]:
  "nodes (delete_blob h db) = nodes db" "versions (delete_blob h db) = versions db"
  "thumbnails (delete_blob h db) = thumbnails db" "quotas (delete_blob h db) = quotas db" "users (delete_blob h db) = users db"
  "b_hash ` set (blobs (delete_blob h db)) = b_hash ` set (blobs db) - {h}"
  by (auto simp: delete_blob_def)

lemma delete_blob_refs: "stored_refs (delete_blob h db) x = (if x = h then 0 else stored_refs db x)"
proof -
  have "find (\<lambda>b. b_hash b = x) (filter (\<lambda>b. b_hash b \<noteq> h) bs) = (if x = h then None else find (\<lambda>b. b_hash b = x) bs)" for bs
    by (induction bs) auto
  note f = this
  show ?thesis by (simp add: stored_refs_def find_blob_def delete_blob_def f)
qed

text \<open>Deleting the row of a blob that nothing refers to breaks nothing.\<close>

lemma delete_blob_sound:
  assumes s: "sound db" and z: "stored_refs db h = 0" and t: "\<And>t. t \<in> set (thumbnails db) \<Longrightarrow> t_source t \<noteq> h"
  shows "sound (delete_blob h db)" and "blob_named h db = None"
proof -
  note u = unreferenced [OF s z]
  show "blob_named h db = None" using u t by (auto simp: blob_named_def list_ex_iff)
  have nv: "nodes_ok (delete_blob h db)"
    using soundD(5) [OF s] u(1) by (auto simp: nodes_ok_def nodes_violation_None)
  have "blobs_ok (delete_blob h db)"
    using schema_okD(2) [OF soundD(1) [OF s]] by (auto simp: blobs_ok_def delete_blob_def list_all_iff)
  moreover have "quotas_ok (delete_blob h db)"
    using schema_okD(3) [OF soundD(1) [OF s]] by (simp add: quotas_ok_def)
  moreover have "versions_ok (delete_blob h db)"
    using schema_okD(4) [OF soundD(1) [OF s]] u(2) by (auto simp: versions_ok_def list_all_iff)
  ultimately have "schema_ok (delete_blob h db)" using nv by (simp add: schema_ok_def)
  moreover have "thumbnails_ok (delete_blob h db)"
    using soundD(2) [OF s] u(3) t by (auto simp: thumbnails_ok_def has_blob_def list_all_iff)
  moreover have "tree_ok (delete_blob h db)" using soundD(3) [OF s] by (simp add: tree_ok_def)
  moreover have "balanced (delete_blob h db)"
  proof -
    have "expected_references (delete_blob h db) = expected_references db" "expected_usage (delete_blob h db) = expected_usage db"
      by (simp_all add: fun_eq_iff expected_references_def expected_usage_def)
    moreover have "used (delete_blob h db) = used db" by (rule used_quotas) simp
    moreover have "expected_references db h = 0" using soundD(4) [OF s] z by (simp add: balanced_def)
    ultimately show ?thesis using soundD(4) [OF s] by (simp add: balanced_def delete_blob_refs)
  qed
  ultimately show "sound (delete_blob h db)" by (simp add: sound_def)
qed

section \<open>The cache keeps the books\<close>

lemma remember_sound:
  assumes s: "sound db" and r: "remember source edge thumbnail db = Inr db'"
  shows "sound db'" and "nodes db' = nodes db" and "versions db' = versions db"
    and "thumbnails db' = thumbnails db \<or> thumbnails db' = thumbnails db @ [\<lparr>t_source = source, t_edge = edge, t_blob = thumbnail\<rparr>]"
proof -
  let ?t = "\<lparr>t_source = source, t_edge = edge, t_blob = thumbnail\<rparr>"
  let ?db1 = "db\<lparr>thumbnails := thumbnails db @ [?t]\<rparr>"
  consider "db' = db" | "db' = acquire_blob thumbnail ?db1" "has_blob db thumbnail" "has_blob db source"
    using r by (auto simp: remember_def thumbnails_violation_def has_blob_def Let_def split: if_splits option.splits)
  then have "sound db' \<and> nodes db' = nodes db \<and> versions db' = versions db
      \<and> (thumbnails db' = thumbnails db \<or> thumbnails db' = thumbnails db @ [?t])"
  proof cases
    case 1
    with s show ?thesis by simp
  next
    case 2
    have "schema_ok ?db1" using soundD(1) [OF s]
      by (simp add: schema_ok_def nodes_ok_def blobs_ok_def quotas_ok_def versions_ok_def)
    then have "schema_ok db'" unfolding 2(1) by (rule schema_ok_acquire)
    moreover have "thumbnails_ok db'" using soundD(2) [OF s] 2
      by (auto simp: thumbnails_ok_def list_all_iff has_blob_def acquire_blob_hashes [unfolded list.set_map, simplified] acquire_blob_def)
    moreover have "tree_ok db'" using soundD(3) [OF s] by (simp add: 2(1) tree_ok_def)
    moreover have "balanced db'"
    proof -
      have b1: "stored_refs ?db1 = stored_refs db" by (rule stored_refs_blobs) simp
      have "has_blob ?db1 thumbnail" using 2(2) by (simp add: has_blob_def)
      then have "stored_refs db' x = stored_refs db x + (if x = thumbnail then 1 else 0)" for x
        by (simp add: 2(1) acquire_blob_count b1)
      moreover have "expected_references db' x = expected_references db x + (if x = thumbnail then 1 else 0)" for x
        by (simp add: 2(1) expected_references_def)
      moreover have "used db' = used db" by (rule used_quotas) (simp add: 2(1))
      moreover have "expected_usage db' = expected_usage db" by (simp add: 2(1) fun_eq_iff expected_usage_def)
      ultimately show ?thesis using soundD(4) [OF s] by (simp add: balanced_def)
    qed
    ultimately show ?thesis by (simp add: sound_def 2(1))
  qed
  then show "sound db'" "nodes db' = nodes db" "versions db' = versions db"
    "thumbnails db' = thumbnails db \<or> thumbnails db' = thumbnails db @ [?t]" by blast+
qed

lemma count_list_count: "int (count_list (map t_blob ts) h) = count_rows (\<lambda>t. t_blob t = h) ts"
  by (induction ts) auto

lemma forget_orphans_sound:
  assumes s: "sound db"
  shows "sound (snd (forget_orphans now db))" and "nodes (snd (forget_orphans now db)) = nodes db"
    and "versions (snd (forget_orphans now db)) = versions db"
    and "thumbnails (snd (forget_orphans now db)) = filter (\<lambda>t. \<not> orphan_thumbnail db t) (thumbnails db)"
proof -
  let ?gone = "filter (orphan_thumbnail db) (thumbnails db)" and ?left = "filter (\<lambda>t. \<not> orphan_thumbnail db t) (thumbnails db)"
  let ?db1 = "db\<lparr>thumbnails := ?left\<rparr>"
  have r: "snd (forget_orphans now db) = fold (release_blob now) (map t_blob ?gone) ?db1"
    by (simp add: forget_orphans_def Let_def)
  show "nodes (snd (forget_orphans now db)) = nodes db" "versions (snd (forget_orphans now db)) = versions db"
    "thumbnails (snd (forget_orphans now db)) = ?left" by (simp_all add: r)
  have sc: "schema_ok ?db1" using soundD(1) [OF s]
    by (simp add: schema_ok_def nodes_ok_def blobs_ok_def quotas_ok_def versions_ok_def)
  have b1: "stored_refs ?db1 = stored_refs db" by (rule stored_refs_blobs) simp
  have part: "count_rows P (thumbnails db) = count_rows P ?gone + count_rows P ?left" for P
    unfolding count_rows_sum by (rule sum_rows_partition)
  have "int (count_list (map t_blob ?gone) h) \<le> stored_refs ?db1 h" for h
  proof -
    have "count_rows (\<lambda>t. t_blob t = h) ?gone \<le> expected_references db h"
      using part [of "\<lambda>t. t_blob t = h"] count_rows_nonneg [of _ "nodes db"] count_rows_nonneg [of _ "versions db"]
        count_rows_nonneg [of "\<lambda>t. t_blob t = h" ?left]
      by (simp add: expected_references_def)
    then show ?thesis using soundD(4) [OF s] by (simp add: count_list_count b1 balanced_def)
  qed
  from blob_ledger.releases_count [OF schema_okD(2) [OF sc] this, of now]
  have st: "stored_refs (snd (forget_orphans now db)) h = stored_refs db h - count_rows (\<lambda>t. t_blob t = h) ?gone" for h
    by (simp add: r b1 count_list_count)
  have "schema_ok (snd (forget_orphans now db))" unfolding r by (rule schema_ok_releases [OF sc])
  moreover have "thumbnails_ok (snd (forget_orphans now db))"
  proof -
    have "map b_hash (blobs (fold (release_blob now) hs d)) = map b_hash (blobs d)" for hs d
      by (induction hs arbitrary: d) (simp_all add: release_blob_hashes)
    then have "has_blob (snd (forget_orphans now db)) = has_blob db" by (simp add: has_blob_def r fun_eq_iff del: set_map)
    then show ?thesis using soundD(2) [OF s] by (simp add: thumbnails_ok_def r list_all_iff)
  qed
  moreover have "tree_ok (snd (forget_orphans now db))" using soundD(3) [OF s] by (simp add: r tree_ok_def)
  moreover have "balanced (snd (forget_orphans now db))"
  proof -
    have "expected_references (snd (forget_orphans now db)) h = expected_references db h - count_rows (\<lambda>t. t_blob t = h) ?gone" for h
      using part [of "\<lambda>t. t_blob t = h"] by (simp add: expected_references_def r)
    moreover have "used (snd (forget_orphans now db)) = used db" by (rule used_quotas) (simp add: r)
    moreover have "expected_usage (snd (forget_orphans now db)) = expected_usage db" by (simp add: r fun_eq_iff expected_usage_def)
    ultimately show ?thesis using soundD(4) [OF s] st by (simp add: balanced_def)
  qed
  ultimately show "sound (snd (forget_orphans now db))" by (simp add: sound_def)
qed

section \<open>The sweep takes garbage, all of it and nothing else\<close>

text \<open>Every source of a thumbnail is still referenced: what forgetting the orphans establishes.\<close>

definition sources_held :: "db \<Rightarrow> bool" where
  "sources_held db \<longleftrightarrow> (\<forall>t\<in>set (thumbnails db). stored_refs db (t_source t) \<noteq> 0)"

lemma forget_orphans_held: "sound db \<Longrightarrow> sources_held (snd (forget_orphans now db))"
  unfolding sources_held_def
proof
  fix t assume s: "sound db" and t: "t \<in> set (thumbnails (snd (forget_orphans now db)))"
  note f = forget_orphans_sound [OF s, of now]
  from t f(2,4) obtain n where n: "n \<in> set (nodes (snd (forget_orphans now db)))" "n_blob n = Some (t_source t)"
    by (auto simp: orphan_thumbnail_def list_ex_iff)
  with unreferenced(1) [OF f(1)] show "stored_refs (snd (forget_orphans now db)) (t_source t) \<noteq> 0" by blast
qed

text \<open>What a sweep leaves of a world, where it may take what \<open>now\<close> and \<open>grace\<close> say.\<close>

definition swept :: "crates \<Rightarrow> timestamp \<Rightarrow> nat \<Rightarrow> world \<Rightarrow> world \<Rightarrow> bool" where
  "swept C now grace w w' \<longleftrightarrow> nodes (w_db w') = nodes (w_db w) \<and> versions (w_db w') = versions (w_db w)
     \<and> thumbnails (w_db w') = thumbnails (w_db w) \<and> set (blobs (w_db w')) \<subseteq> set (blobs (w_db w))
     \<and> (\<forall>b\<in>set (blobs (w_db w)). \<not> overdue now grace b \<longrightarrow> b \<in> set (blobs (w_db w')))
     \<and> stored_refs (w_db w') = stored_refs (w_db w)
     \<and> (\<forall>h. stored_refs (w_db w) h \<noteq> 0 \<longrightarrow> local_read C h (w_files w') = local_read C h (w_files w))
     \<and> (\<forall>h. map_of (w_files w') (path_for C h) \<in> {map_of (w_files w) (path_for C h), None})"

lemma swept_refl [simp]: "swept C now grace w w"
  by (simp add: swept_def)

lemma swept_trans: "swept C now grace w w1 \<Longrightarrow> swept C now grace w1 w2 \<Longrightarrow> swept C now grace w w2"
  unfolding swept_def by (intro conjI) (auto, metis option.simps(3))

lemma swept_gone: "swept C now grace w w' \<Longrightarrow>
    map_of (w_files w') (path_for C h) = map_of (w_files w) (path_for C h) \<or> map_of (w_files w') (path_for C h) = None"
  by (simp add: swept_def)

definition tidy :: "crates \<Rightarrow> world \<Rightarrow> bool" where
  "tidy C w \<longleftrightarrow> sound (w_db w) \<and> content_addressed C (w_files w)"

lemma overdue_unreferenced:
  assumes "sound db" and "find (\<lambda>b. b_hash b = h \<and> overdue now grace b) (blobs db) = Some b"
  shows "stored_refs db h = 0" and "b \<in> set (blobs db)" and "b_hash b = h" and "b_refs b = 0"
proof -
  from find_Some_set [OF assms(2)] show b: "b \<in> set (blobs db)" "b_hash b = h" "b_refs b = 0"
    by (auto simp: overdue_def)
  with stored_refs_row [OF schema_okD(2) [OF soundD(1) [OF assms(1)]] b(1)] show "stored_refs db h = 0" by simp
qed

text \<open>The bytes of a blob go with its row, unless somebody has just written them.\<close>

definition taken :: "crates \<Rightarrow> timestamp \<Rightarrow> nat \<Rightarrow> blob_hash \<Rightarrow> world \<Rightarrow> world \<Rightarrow> bool" where
  "taken C now grace h w w' \<longleftrightarrow>
     local_written_within C now h (int grace) (w_files w) \<or> map_of (w_files w') (path_for C h) = None"

lemma sweep_one_swept:
  assumes C: "collision_free C" and t: "tidy C w" and r: "sweep_one C now grace h w = (x, w')"
  shows "tidy C w' \<and> swept C now grace w w' \<and> (sources_held (w_db w) \<longrightarrow>
      (\<exists>y. x = Inr y) \<and> (\<forall>b\<in>set (blobs (w_db w')). b_hash b = h \<longrightarrow> \<not> overdue now grace b)
      \<and> (\<forall>b\<in>set (blobs (w_db w)). overdue now grace b \<longrightarrow> (if b_hash b = h then taken C now grace h w w'
           else b \<in> set (blobs (w_db w')))))"
proof (cases "find (\<lambda>b. b_hash b = h \<and> overdue now grace b) (blobs (w_db w))")
  case None
  with r have "x = Inr None" "w' = w" by (simp_all add: sweep_one_def)
  with t None show ?thesis by (auto simp: find_None_set)
next
  case (Some b)
  have s: "sound (w_db w)" "content_addressed C (w_files w)" using t by (simp_all add: tidy_def)
  note o = overdue_unreferenced [OF s(1) Some]
  show ?thesis
  proof (cases "blob_named h (w_db w)")
    case None
    then have tn: "t_source t \<noteq> h" if "t \<in> set (thumbnails (w_db w))" for t
      using that by (auto simp: blob_named_def list_ex_iff split: if_splits)
    note d = delete_blob_sound [OF s(1) o(1) tn]
    have rest: "set (blobs (delete_blob h (w_db w))) \<subseteq> set (blobs (w_db w))" by (auto simp: delete_blob_def)
    have keep: "c \<in> set (blobs (delete_blob h (w_db w)))" if "c \<in> set (blobs (w_db w))" "\<not> overdue now grace c" for c
    proof -
      have "c = b" if "b_hash c = h"
        using distinct_key_eq [of b_hash "blobs (w_db w)" c b] that o(2,3) \<open>c \<in> _\<close> schema_okD(2) [OF soundD(1) [OF s(1)]]
        by (simp add: blobs_ok_def)
      with that find_Some_set [OF Some] show ?thesis by (auto simp: delete_blob_def)
    qed
    have refs: "stored_refs (delete_blob h (w_db w)) = stored_refs (w_db w)" using o(1) by (auto simp: delete_blob_refs fun_eq_iff)
    have w': "w_db w' = delete_blob h (w_db w)" "w_files w' = w_files w \<or> w_files w' = local_remove C h (w_files w)"
      and x: "\<exists>y. x = Inr y"
      using r Some None by (auto simp: sweep_one_def Let_def split: if_splits)
    have "content_addressed C (w_files w')"
      using w'(2) s(2) local_store.remove_inv [OF C s(2)] by auto
    moreover have "local_read C k (w_files w') = local_read C k (w_files w)" if "stored_refs (w_db w) k \<noteq> 0" for k
    proof -
      have "k \<noteq> h" using that o(1) by auto
      then show ?thesis using w'(2) local_store.remove_one [OF C s(2), of k h] by auto
    qed
    moreover have gone: "map_of (w_files w') (path_for C k) \<in> {map_of (w_files w) (path_for C k), None}" for k
      using w'(2) by (auto simp: local_remove_def AList.delete_conv' split: if_splits)
    moreover have tk: "taken C now grace h w w'"
      using r Some None by (auto simp: taken_def sweep_one_def Let_def local_remove_def AList.delete_conv' split: if_splits)
    ultimately show ?thesis using d(1) rest keep refs x
      by (auto simp: tidy_def swept_def w'(1) delete_blob_def gone tk)
  next
    case (Some e)
    with r \<open>find _ _ = Some b\<close> have w': "x = Inl (Database e)" "w' = w" by (simp_all add: sweep_one_def)
    have "\<not> sources_held (w_db w)"
    proof
      assume "sources_held (w_db w)"
      then have "t_source t \<noteq> h" if "t \<in> set (thumbnails (w_db w))" for t using that o(1) by (auto simp: sources_held_def)
      with delete_blob_sound(2) [OF s(1) o(1)] Some show False by auto
    qed
    with t show ?thesis by (simp add: w')
  qed
qed

lemma swept_held: "swept C now grace w w' \<Longrightarrow> sources_held (w_db w) \<Longrightarrow> sources_held (w_db w')"
  by (simp add: swept_def sources_held_def)

lemma sweep_each_swept:
  "collision_free C \<Longrightarrow> tidy C w \<Longrightarrow> sweep_each C now grace hs c w = (x, w') \<Longrightarrow>
   tidy C w' \<and> swept C now grace w w' \<and> (sources_held (w_db w) \<longrightarrow>
      (\<exists>y. x = Inr y) \<and> (\<forall>b\<in>set (blobs (w_db w')). b_hash b \<in> set hs \<longrightarrow> \<not> overdue now grace b)
      \<and> (\<forall>b\<in>set (blobs (w_db w)). b_hash b \<in> set hs \<longrightarrow> overdue now grace b \<longrightarrow> taken C now grace (b_hash b) w w'))"
proof (induction hs arbitrary: c w)
  case Nil
  then show ?case by auto
next
  case (Cons h hs)
  obtain y w1 where o: "sweep_one C now grace h w = (y, w1)" by fastforce
  note k = sweep_one_swept [OF Cons.prems(1,2) o]
  show ?case
  proof (cases y)
    case (Inl e)
    with Cons.prems(3) o k show ?thesis by auto
  next
    case (Inr z)
    obtain d where r: "sweep_each C now grace hs d w1 = (x, w')"
      using Cons.prems(3) o Inr by (cases z) auto
    have i: "tidy C w' \<and> swept C now grace w1 w' \<and> (sources_held (w_db w1) \<longrightarrow>
      (\<exists>y. x = Inr y) \<and> (\<forall>b\<in>set (blobs (w_db w')). b_hash b \<in> set hs \<longrightarrow> \<not> overdue now grace b)
      \<and> (\<forall>b\<in>set (blobs (w_db w1)). b_hash b \<in> set hs \<longrightarrow> overdue now grace b \<longrightarrow> taken C now grace (b_hash b) w1 w'))"
      by (rule Cons.IH [OF Cons.prems(1) _ r]) (use k in blast)
    have sub: "set (blobs (w_db w')) \<subseteq> set (blobs (w_db w1))" using i by (simp add: swept_def)
    have on: "taken C now grace j w w'" if "taken C now grace j w w1" for j
      using that swept_gone [OF i [THEN conjunct2, THEN conjunct1], of j] by (auto simp: taken_def)
    have earlier: "taken C now grace j w w'" if "taken C now grace j w1 w'" for j
    proof -
      from swept_gone [OF k [THEN conjunct2, THEN conjunct1], of j] that show ?thesis by (auto simp: taken_def local_written_within_def split: option.splits)
    qed
    have sh: "sources_held (w_db w) \<Longrightarrow> sources_held (w_db w1)" using swept_held k by blast
    have "tidy C w'" "swept C now grace w w'" using i k swept_trans by blast+
    moreover have "(\<exists>y. x = Inr y) \<and> (\<forall>b\<in>set (blobs (w_db w')). b_hash b \<in> set (h # hs) \<longrightarrow> \<not> overdue now grace b)"
      if "sources_held (w_db w)" using i k sub sh that by auto
    moreover have "taken C now grace (b_hash b) w w'"
      if "sources_held (w_db w)" "b \<in> set (blobs (w_db w))" "b_hash b \<in> set (h # hs)" "overdue now grace b" for b
    proof -
      from k that(1,2,4) have one: "if b_hash b = h then taken C now grace h w w1 else b \<in> set (blobs (w_db w1))" by blast
      show ?thesis
      proof (cases "b_hash b = h")
        case True
        with one on [of h] show ?thesis by simp
      next
        case False
        with one that(3) have "b \<in> set (blobs (w_db w1))" "b_hash b \<in> set hs" by auto
        with i sh [OF that(1)] that(4) have "taken C now grace (b_hash b) w1 w'" by blast
        then show ?thesis by (rule earlier)
      qed
    qed
    ultimately show ?thesis by blast
  qed
qed

lemma sweep_swept:
  assumes "collision_free C" and "tidy C w" and "sweep C now grace w = (x, w')"
  shows "tidy C w'" and "swept C now grace w w'" and "sources_held (w_db w) \<Longrightarrow> \<exists>c. x = Inr c"
    and "sources_held (w_db w) \<Longrightarrow> length (filter (overdue now grace) (blobs (w_db w))) \<le> 10000 \<Longrightarrow>
      (\<forall>b\<in>set (blobs (w_db w')). \<not> overdue now grace b)
      \<and> (\<forall>b\<in>set (blobs (w_db w)). overdue now grace b \<longrightarrow> taken C now grace (b_hash b) w w')"
proof -
  note k = sweep_each_swept [OF assms(1,2) assms(3) [unfolded sweep_def]]
  then show "tidy C w'" "swept C now grace w w'" "sources_held (w_db w) \<Longrightarrow> \<exists>c. x = Inr c" by blast+
  assume a: "sources_held (w_db w)" "length (filter (overdue now grace) (blobs (w_db w))) \<le> 10000"
  have h: "b_hash b \<in> set (orphaned now grace (w_db w))" if "b \<in> set (blobs (w_db w))" "overdue now grace b" for b
    using that a(2) by (simp add: orphaned_def)
  have "set (blobs (w_db w')) \<subseteq> set (blobs (w_db w))" using k by (simp add: swept_def)
  with k a h show "(\<forall>b\<in>set (blobs (w_db w')). \<not> overdue now grace b)
      \<and> (\<forall>b\<in>set (blobs (w_db w)). overdue now grace b \<longrightarrow> taken C now grace (b_hash b) w w')" by blast
qed

section \<open>Every handler and every turn keeps the files sound\<close>

lemma store_thumbnail_sound:
  assumes "sound (w_db w)"
  shows "sound (w_db (snd (store_thumbnail C now tmp_name source edge shrunk w)))"
  using assms unfolding store_thumbnail_def
  by (auto simp: Let_def split: prod.splits sum.splits dest: register_blob_sound remember_sound(1))

lemma get_thumbnail_sound:
  assumes s: "sound (w_db w)"
  shows "sound (w_db (snd (get_thumbnail I C st now tmp_name u path edge w)))"
proof (cases "snd (get_thumbnail I C st now tmp_name u path edge w) = w")
  case True
  then show ?thesis using s by simp
next
  case False
  then obtain ns where ns: "path_segments path = Inr ns"
    by (auto simp: get_thumbnail_def Let_def split: if_splits sum.splits)
  let ?r = "with_db (transact (\<lambda>db. rbind (locate C now u ns (default_quota_bytes st) db) (\<lambda>(place, db1).
      rbind (into_node place) (\<lambda>n. Inr (n, db1))))) w"
  have s1: "sound (w_db (snd ?r))"
    by (intro with_db_keeps [where P = sound] s transact_sound) (use s in \<open>auto simp: rbind_eq_Inr dest: locate_named(1)\<close>)
  obtain x w1 where r: "?r = (x, w1)" by fastforce
  then have "sound (w_db w1)" using s1 by simp
  then show ?thesis using r ns s store_thumbnail_sound [of w1]
    by (auto simp: get_thumbnail_def Let_def split: if_splits sum.splits node_kind.splits option.splits)
qed

lemma tick_tables_sound:
  assumes "sound db"
  shows "sound (tick_tables st now db)"
proof -
  have "sound (snd (purge_expired_sessions now (snd (purge_expired_attempts now (snd (purge_expired_locks now db))))))"
    using assms by (simp add: purge_expired_sessions_def purge_expired_attempts_def purge_expired_locks_def Let_def)
  from forget_orphans_sound(1) [OF this] have "sound (snd (forget_orphans now (snd (purge_expired_sessions now
      (snd (purge_expired_attempts now (snd (purge_expired_locks now db)))))))) " .
  then show ?thesis using expire_sound
    by (auto simp: tick_tables_def Let_def split: option.splits) (metis prod.collapse)
qed

lemma map_of_filter_other: "(\<And>f. P (p, f)) \<Longrightarrow> map_of (filter P fs) p = map_of fs p"
  by (induction fs) auto

text \<open>The collection of staged bodies takes files out of \<open>tmp\<close> only.\<close>

lemma sweep_staged_files:
  "map_of (snd (local_sweep_staged now grace fs)) p = map_of fs p \<or> length p = 2"
proof (cases "length p = 2")
  case False
  then show ?thesis by (simp add: local_sweep_staged_def Let_def map_of_filter_other)
qed simp

lemma content_addressed_off_tmp:
  "(\<And>p. map_of fs' p = map_of fs p \<or> length p = 2) \<Longrightarrow> content_addressed C fs \<Longrightarrow> content_addressed C fs'"
  unfolding content_addressed_iff by metis

lemma read_off_tmp:
  assumes "\<And>p. map_of fs' p = map_of fs p \<or> length p = 2"
  shows "local_read C h fs' = local_read C h fs"
proof -
  have "map_of fs' (path_for C h) = map_of fs (path_for C h)"
    using assms [of "path_for C h"] by (simp add: path_for_length)
  then show ?thesis by (simp add: local_read_def)
qed

lemma tick_tidy:
  assumes "collision_free C" and t: "tidy C (sv_world sv)"
  shows "tidy C (sv_world (tick C st now grace sv))"
proof -
  let ?sv1 = "snd (sweep_uploads now (sv\<lparr>sv_world := (sv_world sv)\<lparr>w_db := tick_tables st now (w_db (sv_world sv))\<rparr>\<rparr>))"
  let ?w2 = "(sv_world ?sv1)\<lparr>w_files := snd (local_sweep_staged now (int grace) (w_files (sv_world ?sv1)))\<rparr>"
  have "sound (w_db (sv_world ?sv1))" "w_files (sv_world ?sv1) = w_files (sv_world sv)"
    using t tick_tables_sound [of "w_db (sv_world sv)" st now]
    by (simp_all add: tidy_def sweep_uploads_def with_uploads_def purge_expired_uploads_def)
  then have "tidy C ?w2"
    using t content_addressed_off_tmp [OF sweep_staged_files] by (simp add: tidy_def)
  moreover obtain x w3 where "sweep C now grace ?w2 = (x, w3)" by fastforce
  ultimately show ?thesis
    using sweep_swept(1) [OF assms(1)] by (simp add: tick_def Let_def)
qed

section \<open>Properties\<close>

text \<open>
  C27. The sweep takes all the garbage and nothing else: once the orphaned thumbnails are forgotten, a
  sweep that has no more than its limit to look at ends without an error, no overdue blob is left,
  its bytes are gone unless somebody has just written them, every other row stays, and what is
  referenced reads as before.
\<close>

theorem sweep_collects:
  assumes "collision_free C" and "sound (w_db w)" and "content_addressed C (w_files w)"
    and "w0 = w\<lparr>w_db := snd (forget_orphans now (w_db w))\<rparr>"
    and "length (filter (overdue now grace) (blobs (w_db w0))) \<le> 10000"
  shows "\<exists>c w'. sweep C now grace w0 = (Inr c, w') \<and> sound (w_db w')
    \<and> (\<forall>b\<in>set (blobs (w_db w0)). if overdue now grace b
         then b \<notin> set (blobs (w_db w'))
           \<and> (local_written_within C now (b_hash b) (int grace) (w_files w)
              \<or> local_read C (b_hash b) (w_files w') = Inl (BlobNotFound (b_hash b)))
         else b \<in> set (blobs (w_db w')))
    \<and> (\<forall>h. stored_refs (w_db w0) h \<noteq> 0 \<longrightarrow> local_read C h (w_files w') = local_read C h (w_files w))"
proof -
  have t: "tidy C w0" and h: "sources_held (w_db w0)"
    using assms(2,3) forget_orphans_sound(1) forget_orphans_held by (simp_all add: assms(4) tidy_def)
  obtain x w' where s: "sweep C now grace w0 = (x, w')" by fastforce
  note k = sweep_swept [OF assms(1) t s]
  from k(4) [OF h assms(5)] k(2) assms(4) have "if overdue now grace b
         then b \<notin> set (blobs (w_db w'))
           \<and> (local_written_within C now (b_hash b) (int grace) (w_files w)
              \<or> local_read C (b_hash b) (w_files w') = Inl (BlobNotFound (b_hash b)))
         else b \<in> set (blobs (w_db w'))" if "b \<in> set (blobs (w_db w0))" for b
    using that by (auto simp: taken_def local_read_def swept_def)
  moreover have "w_files w0 = w_files w" by (simp add: assms(4))
  then have "\<forall>h. stored_refs (w_db w0) h \<noteq> 0 \<longrightarrow> local_read C h (w_files w') = local_read C h (w_files w)"
    using k(2) by (simp add: swept_def)
  ultimately show ?thesis using s k(1,3) h by (auto simp: tidy_def)
qed

text \<open>The sample account left three bytes behind that no node refers to.\<close>

definition littered :: world where
  "littered = \<lparr>w_db = sample_received, w_files = sample_stored\<rparr>"

theorem sweep_collects_witness:
  "\<exists>c w'. sweep sample_crates 100 10 (littered\<lparr>w_db := snd (forget_orphans 100 (w_db littered))\<rparr>) = (Inr c, w')
     \<and> local_read sample_crates [120, 121, 122] (w_files w') = Inl (BlobNotFound [120, 121, 122])"
proof -
  have "register_blob 5 [120, 121, 122] 3 sample = Inr sample_received"
    by (simp add: register_blob_def insert_blob_def sample_received_def sample_def sample_blob_def)
  with register_blob_sound [OF sample_sound] have s: "sound (w_db littered)" by (simp add: littered_def)
  have a: "content_addressed sample_crates (w_files littered)" by code_simp
  have f: "forget_orphans 100 sample_received = (0, sample_received)"
    by (simp add: forget_orphans_def sample_received_def sample_def empty_db_def)
  have o: "length (filter (overdue 100 10) (blobs (w_db (littered\<lparr>w_db := snd (forget_orphans 100 (w_db littered))\<rparr>)))) \<le> 10000"
    by (simp add: littered_def f) (simp add: sample_received_def)
  let ?b = "\<lparr>b_hash = [120, 121, 122], b_size = 3, b_refs = 0, b_created = 5, b_unreferenced = Some 5\<rparr>"
  have "overdue 100 10 ?b" "?b \<in> set (blobs sample_received)"
    "\<not> local_written_within sample_crates 100 [120, 121, 122] 10 (w_files littered)"
    by (simp add: overdue_def interval_of_def, simp add: sample_received_def, code_simp)
  with sweep_collects [OF sample_collision_free s a refl o] show ?thesis
    by (fastforce simp: littered_def f)
qed

end
