(* ===== verification/Backed.thy ===== *)
theory Backed
  imports Dav Shares Collector
begin

text \<open>
  Which rows \<open>blobs\<close> has. The operations on the tree add none and take none away; what comes in with a
  body adds the one whose bytes it stored, and the sweep takes rows and bytes together. So every row
  has its bytes.
\<close>

definition keeps :: "db \<Rightarrow> db \<Rightarrow> bool" where
  "keeps db db' \<longleftrightarrow> b_hash ` set (blobs db') = b_hash ` set (blobs db)"

named_theorems holdings "operations that keep the rows of blobs"

lemma keeps_refl [simp]: "keeps db db"
  by (simp add: keeps_def)

lemma keeps_trans [trans]: "keeps db db1 \<Longrightarrow> keeps db1 db2 \<Longrightarrow> keeps db db2"
  by (simp add: keeps_def)

lemma fold_release_hashes: "map b_hash (blobs (fold (release_blob now) hs db)) = map b_hash (blobs db)"
  by (induction hs arbitrary: db) (simp_all add: release_blob_hashes)

lemma hashes_image:
  "b_hash ` set (blobs (acquire_blob h db)) = b_hash ` set (blobs db)"
  "b_hash ` set (blobs (release_blob now h db)) = b_hash ` set (blobs db)"
  "b_hash ` set (blobs (fold (release_blob now) hs db)) = b_hash ` set (blobs db)"
  using acquire_blob_hashes [of h db] release_blob_hashes [of now h db] fold_release_hashes [of now hs db]
  by (metis list.set_map)+

lemma keeps_update [simp]:
  "keeps db (db'\<lparr>nodes := ns\<rparr>) = keeps db db'" "keeps db (db'\<lparr>quotas := qs\<rparr>) = keeps db db'"
  "keeps db (db'\<lparr>versions := vs\<rparr>) = keeps db db'" "keeps db (db'\<lparr>thumbnails := ts\<rparr>) = keeps db db'"
  "keeps db (db'\<lparr>grants := gs\<rparr>) = keeps db db'" "keeps db (db'\<lparr>locks := ls\<rparr>) = keeps db db'"
  "keeps db (db'\<lparr>shares := ss\<rparr>) = keeps db db'" "keeps db (db'\<lparr>sessions := xs\<rparr>) = keeps db db'"
  "keeps db (db'\<lparr>attempts := ats\<rparr>) = keeps db db'" "keeps db (db'\<lparr>app_passwords := aps\<rparr>) = keeps db db'"
  "keeps db (db'\<lparr>uploads := us\<rparr>) = keeps db db'" "keeps db (db'\<lparr>settings := st\<rparr>) = keeps db db'"
  "keeps db (db'\<lparr>users := uu\<rparr>) = keeps db db'"
  "keeps db (snd (now_v7 db')) = keeps db db'"
  "keeps db (acquire_blob h db') = keeps db db'" "keeps db (release_blob now h db') = keeps db db'"
  "keeps db (fold (release_blob now) hs db') = keeps db db'"
  by (simp_all add: keeps_def hashes_image)

lemma keeps_now [simp]: "keeps (snd (now_v7 db)) db' = keeps db db'" "keeps (acquire_blob h db) db' = keeps db db'"
  "keeps (release_blob now h db) db' = keeps db db'" "keeps (fold (release_blob now) hs db) db' = keeps db db'"
  "keeps (db\<lparr>versions := vs\<rparr>) db' = keeps db db'" "keeps (db\<lparr>nodes := ns\<rparr>) db' = keeps db db'"
  by (simp_all add: keeps_def hashes_image)

section \<open>The tree\<close>

lemma charge_keeps [holdings]: "charge_quota owner d db = Inr db' \<Longrightarrow> keeps db db'"
  using charge_quota_frame(2) [of owner d db db'] by (simp add: keeps_def)

lemma store_nodes_keeps [holdings]: "store_nodes ns db = Inr db' \<Longrightarrow> keeps db db'"
  by (auto simp: store_nodes_eq_Inr)

lemma node_rows_keeps [holdings]:
  "insert_node n db = Inr db' \<Longrightarrow> keeps db db'" "update_node i f db = Inr db' \<Longrightarrow> keeps db db'"
  by (auto simp: insert_node_def update_node_def dest: store_nodes_keeps)

lemma insert_quota_keeps [holdings]: "insert_quota owner b db = Inr db' \<Longrightarrow> keeps db db'"
  by (auto simp: insert_quota_def split: if_splits)

lemma keep_keeps [holdings]: "keep now i h bytes db = Inr db' \<Longrightarrow> keeps db db'"
  by (auto simp: keep_def case_prod_unfold store_version_def Let_def split: if_splits)

lemma prune_beyond_keeps [holdings]: "prune_beyond now owner i kept db = Inr db' \<Longrightarrow> keeps db db'"
  by (auto simp: prune_beyond_def delete_versions_def release_versions_def Let_def dest: charge_keeps)

lemma drop_oldest_keeps [holdings]: "drop_oldest now owner i db = Inr (b, db') \<Longrightarrow> keeps db db'"
  by (auto simp: drop_oldest_def delete_versions_def release_versions_def Let_def rbind_eq_Inr
      dest: charge_keeps split: if_splits)

lemma take_version_keeps [holdings]: "take_version now owner i j db = Inr (v, db') \<Longrightarrow> keeps db db'"
  by (auto simp: take_version_def delete_versions_def rbind_eq_Inr dest: charge_keeps split: list.splits)

lemma make_room_keeps [holdings]: "make_room now owner i bytes previous db = Inr (b, db') \<Longrightarrow> keeps db db'"
proof (induction now owner i bytes previous db rule: make_room.induct)
  case (1 now owner i bytes previous db)
  from 1(2) show ?case
    by (subst (asm) make_room.simps)
      (auto simp: rbind_eq_Inr split: sum.splits api_error.splits if_splits prod.splits
        dest: charge_keeps drop_oldest_keeps 1(1) intro: keeps_trans)
qed

lemma insert_directory_keeps [holdings]: "insert_directory C now owner i name db = Inr (n, db') \<Longrightarrow> keeps db db'"
  by (auto simp: insert_directory_def case_prod_unfold Let_def dest: node_rows_keeps
      split: sum.splits if_splits option.splits)

lemma create_segments_keeps [holdings]: "create_segments C now owner cur path db = Inr (n, db') \<Longrightarrow> keeps db db'"
proof (induction C now owner cur path db rule: create_segments.induct)
  case (2 C now owner cur segment rest db)
  then show ?case
    by (auto simp: rbind_eq_Inr split: option.splits if_splits dest: insert_directory_keeps intro: keeps_trans)
qed simp

lemma create_directories_keeps [holdings]: "create_directories C now owner cur path db = Inr (n, db') \<Longrightarrow> keeps db db'"
  by (auto simp: create_directories_def dest: create_segments_keeps split: if_splits)

lemma ensure_root_keeps [holdings]:
  assumes "ensure_root C now owner b db = Inr (n, db')"
  shows "keeps db db'"
proof -
  obtain db1 where q: "insert_quota owner b db = Inr db1"
    using assms by (auto simp: ensure_root_def rbind_eq_Inr)
  let ?db3 = "snd (now_v7 (snd (now_v7 db1)))"
  have "db' = ?db3 \<or> (\<exists>m. insert_node m ?db3 = Inr db')"
    using assms q by (auto simp: ensure_root_def rbind_eq_Inr case_prod_unfold Let_def
        split: sum.splits db_error.splits)
  then have "keeps db1 db'" using node_rows_keeps(1) [where db = ?db3] by auto
  with insert_quota_keeps [OF q] show ?thesis by (rule keeps_trans)
qed

lemma rename_keeps [holdings]: "rename C now n dir name db = Inr (m, db') \<Longrightarrow> keeps db db'"
  by (auto simp: rename_def Let_def case_prod_unfold rbind_eq_Inr dest!: node_rows_keeps split: if_splits node_kind.splits)

lemma copy_one_keeps [holdings]: "copy_one C now owner i name original db = Inr (n, db') \<Longrightarrow> keeps db db'"
  by (auto simp: copy_one_def Let_def case_prod_unfold rbind_eq_Inr dest!: node_rows_keeps
      split: node_kind.splits option.splits)

lemma copy_children_keeps [holdings]:
  "copy_children C now owner into os (spent, pending, db) = Inr (spent', pending', db') \<Longrightarrow> keeps db db'"
  by (induction C now owner into os "(spent, pending, db)" arbitrary: spent pending db rule: copy_children.induct)
    (auto simp: rbind_eq_Inr dest!: copy_one_keeps intro: keeps_trans)

lemma copy_pending_keeps [holdings]:
  "copy_pending fuel C now owner (spent, pending, db) = Some (Inr (spent', db')) \<Longrightarrow> keeps db db'"
proof (induction fuel C now owner "(spent, pending, db)" arbitrary: spent pending db rule: copy_pending.induct)
  case (3 fuel C now owner spent origin into pending db)
  then show ?case by (auto split: sum.splits dest!: copy_children_keeps intro: keeps_trans)
qed simp_all

lemma copy_tree_keeps [holdings]:
  "copy_tree C now owner source dir name db = Some (Inr (n, db')) \<Longrightarrow> keeps db db'"
  by (auto simp: copy_tree_def rbind_eq_Inr split: if_splits sum.splits
      dest!: copy_one_keeps copy_pending_keeps charge_keeps) (blast intro: keeps_trans)+

lemma send_keeps [holdings]: "send now n db = Inr db' \<Longrightarrow> keeps db db'"
  by (auto simp: send_def Let_def rbind_eq_Inr dest!: store_nodes_keeps charge_keeps intro: keeps_trans)

lemma locate_keeps [holdings]: "locate C now u path quota db = Inr (place, db') \<Longrightarrow> keeps db db'"
  by (auto simp: locate_def rbind_eq_Inr dest: ensure_root_keeps split: if_splits list.splits)

lemma locate_writable_keeps [holdings]: "locate_writable C now u path quota db = Inr (place, db') \<Longrightarrow> keeps db db'"
  by (auto simp: locate_writable_def rbind_eq_Inr dest: locate_keeps split: if_splits)

lemma directory_for_write_keeps [holdings]:
  "directory_for_write C now u path create quota db = Inr (dir, db') \<Longrightarrow> keeps db db'"
  by (auto simp: directory_for_write_def rbind_eq_Inr dest!: ensure_root_keeps create_directories_keeps
      split: if_splits list.splits intro: keeps_trans)

lemma file_target_keeps [holdings]:
  "file_target C now u path create quota db = Inr (dir, name, db') \<Longrightarrow> keeps db db'"
  by (auto simp: file_target_def rbind_eq_Inr dest!: directory_for_write_keeps split: if_splits)

lemma put_file_keeps:
  assumes "put_file C now owner dir name h bytes kept db = Inr (n, db')" and h: "has_blob db h"
  shows "keeps db db'"
proof -
  have ib: "d = db" if "insert_blob \<lparr>b_hash = h, b_size = bytes, b_refs = 0, b_created = now, b_unreferenced = None\<rparr> db = Inr d" for d
    using that h by (auto simp: insert_blob_def has_blob_def split: if_splits)
  from assms(1) show ?thesis
  proof (cases rule: put_file_cases)
    case (existing db1 e b versioned db2 db3)
    have "keeps db1 db2" using existing(5)
      by (auto simp: rbind_eq_Inr split: if_splits dest: make_room_keeps charge_keeps)
    moreover have "keeps db2 db3" using existing(6)
      by (auto simp: rbind_eq_Inr split: if_splits dest!: keep_keeps prune_beyond_keeps intro: keeps_trans)
    ultimately show ?thesis
      using ib [OF existing(1)] node_rows_keeps(2) [OF existing(7)] by (blast intro: keeps_trans)
  next
    case (fresh db1 db2)
    then show ?thesis
      using ib [OF fresh(1)] charge_keeps [OF fresh(3)] node_rows_keeps(1) [OF fresh(4)]
      by (auto intro: keeps_trans)
  next
    case (broken db1 e)
    with assms(1) show ?thesis by (auto simp: put_file_def rbind_eq_Inr case_prod_unfold dest!: ib
        charge_keeps node_rows_keeps intro: keeps_trans)
  qed
qed

lemma keeps_has_blob: "keeps db db' \<Longrightarrow> has_blob db' = has_blob db"
  by (simp add: keeps_def has_blob_def fun_eq_iff)

lemma drop_nodes_keeps [simp]: "keeps db (drop_nodes ids db') = keeps db db'"
  by (simp add: keeps_def drop_nodes_def)

section \<open>The trash\<close>

lemma restore_ancestors_keeps [holdings]:
  "restore_ancestors next spent opened db = Inr (s, opened', db') \<Longrightarrow> keeps db db'"
proof (induction "next" spent opened db rule: restore_ancestors.induct)
  case (1 up spent opened db)
  from 1(2) show ?case
    by (subst (asm) restore_ancestors.simps)
      (auto split: option.splits sum.splits dest: node_rows_keeps(2) 1(1) intro: keeps_trans)
qed

lemma reroot_keeps [holdings]: "reroot_survivors batch db = Inr db' \<Longrightarrow> keeps db db'"
  by (auto simp: reroot_survivors_def dest: store_nodes_keeps)

lemma reroots_keeps: "rfold (\<lambda>batch d. map_err Database (reroot_survivors batch d)) bs db = Inr db' \<Longrightarrow> keeps db db'"
  by (erule rfold_invariant [where P = "keeps db"]) (auto, metis reroot_keeps keeps_trans)

lemma restore_keeps [holdings]: "restore owner i db = Inr (n, db') \<Longrightarrow> keeps db db'"
  by (auto simp: restore_def rbind_eq_Inr Let_def dest!: restore_ancestors_keeps store_nodes_keeps reroots_keeps charge_keeps)
    (blast intro: keeps_trans)

lemma purge_keeps [holdings]: "purge now owner i db = Inr db' \<Longrightarrow> keeps db db'"
  by (auto simp: purge_def rbind_eq_Inr Let_def delete_node_def)

lemma empty_roots_keeps: "empty_roots now owner is k db = Inr (k', db') \<Longrightarrow> keeps db db'"
  by (induction now owner "is" k db rule: empty_roots.induct)
    (auto split: sum.splits api_error.splits dest: purge_keeps intro: keeps_trans)

lemma empty_trash_keeps [holdings]: "empty_trash now owner db = Inr (k, db') \<Longrightarrow> keeps db db'"
  by (auto simp: empty_trash_def dest: empty_roots_keeps)

lemma expire_due_keeps: "keeps db (snd (expire_due now due k db))"
  by (induction now due k db rule: expire_due.induct)
    (auto split: sum.splits dest: purge_keeps intro: keeps_trans)

lemma expire_keeps: "keeps db (snd (expire now retention db))"
  by (simp add: expire_def expire_due_keeps)

section \<open>Grants, locks, shares and accounts\<close>

lemma give_keeps [holdings]: "give now owner n grantee acc db = Inr (view, db') \<Longrightarrow> keeps db db'"
  by (erule give_Inr) simp

lemma reassign_keeps [holdings]: "reassign previous new db = Inr db' \<Longrightarrow> keeps db db'"
  unfolding reassign_def
  by (rule rfold_invariant [where P = "keeps db"])
    (auto simp: reassign_one_def Let_def store_grants_eq_Inr map_err_eq_Inr split: option.splits)

lemma withdraw_keeps [holdings]: "withdraw caller i db = Inr db' \<Longrightarrow> keeps db db'"
  by (auto simp: withdraw_def Let_def split: if_splits)

lemma take_lock_keeps [holdings]: "take_lock C now n owner holder deep seconds db = Inr (l, db') \<Longrightarrow> keeps db db'"
  by (auto simp: take_lock_def Let_def case_prod_unfold split: option.splits)

lemma lock_rows_keeps [simp]:
  "keeps d (snd (refresh_lock now token n seconds db)) = keeps d db" "keeps d (snd (release_lock n token db)) = keeps d db"
  "keeps d (snd (purge_expired_locks now db)) = keeps d db" "keeps d (snd (purge_expired_attempts now db)) = keeps d db"
  "keeps d (snd (purge_expired_sessions now db)) = keeps d db" "keeps d (forget_attempts scope subject db) = keeps d db"
  "keeps d (snd (revoke_all i keeping db)) = keeps d db" "keeps d (touch_share now i db) = keeps d db"
  "keeps d (revoke_session i db) = keeps d db" "keeps d (drop_session i db) = keeps d db"
  "keeps d (snd (purge_expired_uploads now db)) = keeps d db"
  by (simp_all add: refresh_lock_def release_lock_def purge_expired_locks_def purge_expired_attempts_def
      purge_expired_sessions_def forget_attempts_def revoke_all_def touch_share_def revoke_session_def drop_session_def
      purge_expired_uploads_def Let_def)

lemma spend_keeps [holdings]: "spend now scope subject db = Inr db' \<Longrightarrow> keeps db db'"
  by (auto simp: spend_def upsert_def Let_def split: if_splits)

lemma create_session_keeps [holdings]: "create_session now user_id expires db = Inr (i, db') \<Longrightarrow> keeps db db'"
  by (drule create_session_Inr) simp

lemma mint_keeps [holdings]: "mint C random salt now created_by n expires password db = Inr (x, db') \<Longrightarrow> keeps db db'"
  by (cases x) (auto elim!: mint_Inr)

lemma mint_app_password_keeps [holdings]: "mint_app_password C random now i text db = Inr (x, db') \<Longrightarrow> keeps db db'"
  by (auto simp: mint_app_password_def Let_def case_prod_unfold split: if_splits)

lemma store_users_keeps [holdings]: "store_users us db = Inr db' \<Longrightarrow> keeps db db'"
  by (auto simp: store_users_def split: option.splits)

lemma update_user_keeps [holdings]: "update_user i f db = Inr (r, db') \<Longrightarrow> keeps db db'"
  by (auto simp: update_user_def rbind_eq_Inr dest: store_users_keeps)

lemma update_user_or_keeps [holdings]: "update_user_or i f db = Inr (u, db') \<Longrightarrow> keeps db db'"
  by (auto simp: update_user_or_def rbind_eq_Inr dest: update_user_keeps)

lemma set_user_keeps [holdings]:
  "set_disabled now i d db = Inr (u, db') \<Longrightarrow> keeps db db'" "set_role i r db = Inr (u, db') \<Longrightarrow> keeps db db'"
  "set_display_name i name db = Inr (u, db') \<Longrightarrow> keeps db db'"
  by (auto simp: set_disabled_def set_role_def set_display_name_def Let_def dest: update_user_or_keeps split: if_splits)

lemma set_password_keeps [holdings]: "set_password C salt i plaintext db = Inr db' \<Longrightarrow> keeps db db'"
  by (auto simp: set_password_def rbind_eq_Inr dest: update_user_keeps split: if_splits)

lemma set_email_keeps [holdings]: "set_email i email db = Inr (u, db') \<Longrightarrow> keeps db db'"
  by (auto simp: set_email_def rbind_eq_Inr dest!: update_user_keeps reassign_keeps intro: keeps_trans)

lemma set_quota_keeps [holdings]: "set_quota i b db = Inr db' \<Longrightarrow> keeps db db'"
  by (auto simp: set_quota_def split: if_splits)

lemma create_user_keeps [holdings]: "create_user C now salt email name plaintext r db = Inr (u, db') \<Longrightarrow> keeps db db'"
  by (auto simp: create_user_def rbind_eq_Inr Let_def case_prod_unfold map_err_eq_Inr dest!: store_users_keeps)

section \<open>The handlers over the database\<close>

lemmas keeps_transact = transact_keeps [where P = "keeps db" for db]
lemmas keeps_execute = execute_keeps [where P = "keeps db" for db]
lemmas keeps_and_then = and_then_keeps [where P = "keeps db" for db]

lemma located_keeps: "keeps db (snd (located C st now u path db))"
  unfolding located_def by (auto split: sum.split intro!: keeps_transact dest: locate_keeps)

lemma rename_handler_keeps: "keeps db (snd (rename_handler C st now u source target db))"
  unfolding rename_handler_def
  by (auto split: sum.splits if_splits simp: rbind_eq_Inr intro!: keeps_and_then keeps_transact
      dest!: locate_writable_keeps directory_for_write_keeps rename_keeps) (blast intro: keeps_trans)

lemma delete_handler_keeps: "keeps db (snd (delete_handler C st now u path db))"
  unfolding delete_handler_def
  by (auto split: sum.splits simp: rbind_eq_Inr intro!: keeps_execute dest!: locate_writable_keeps send_keeps)
    (blast intro: keeps_trans)

lemma create_folder_keeps: "keeps db (snd (create_folder C st now u path db))"
  unfolding create_folder_def
  by (auto split: sum.splits if_splits simp: rbind_eq_Inr intro!: keeps_and_then keeps_transact
      dest!: directory_for_write_keeps create_directories_keeps) (blast intro: keeps_trans)

lemma list_handler_keeps: "keeps db (snd (list_handler C st now u path db))"
proof -
  have "keeps db db'" if "locate C now u p q db = Inr (place, db1)"
      "(case place of SharedWithMe \<Rightarrow> rbind (ensure_root C now i q' db1) (\<lambda>(root, db2). Inr (f root db2, db2))
        | _ \<Rightarrow> Inr (Inr place, db1)) = Inr (x, db')" for p q place db1 i q' f x db'
    using locate_keeps [OF that(1)] that(2)
    by (cases place) (auto simp: rbind_eq_Inr dest: ensure_root_keeps intro: keeps_trans)
  then show ?thesis unfolding list_handler_def
    by (auto split: sum.splits simp: rbind_eq_Inr intro!: keeps_and_then keeps_transact)
qed

lemma list_root_keeps: "keeps db (snd (list_root C st now u db))"
  unfolding list_root_def
  by (intro keeps_and_then keeps_transact) (auto simp: rbind_eq_Inr dest: ensure_root_keeps split: prod.splits)

lemma readable_file_keeps: "readable_file C st now u ns db = Inr (n, db') \<Longrightarrow> keeps db db'"
  by (auto simp: readable_file_def rbind_eq_Inr dest: locate_keeps)

lemma versions_handler_keeps: "keeps db (snd (versions_handler C st now u path db))"
  unfolding versions_handler_def
  by (auto split: sum.splits simp: rbind_eq_Inr intro!: keeps_transact dest: readable_file_keeps)

lemma find_row: "find P xs = Some x \<Longrightarrow> x \<in> set xs"
  using find_Some_set by metis

lemma restore_version_keeps:
  assumes s: "sound db"
  shows "keeps db (snd (restore_version C st now u i path db))"
proof -
  have "keeps db db4" if a: "locate_writable C now u p q db = Inr (place, db1)" "into_node place = Inr m" "as_file m = Inr n"
      "take_version now (n_owner n) (n_id n) i db1 = Inr (v, db2)"
      "file_target C now u p False q db2 = Inr (dir, name, db3)"
      "put_file C now (n_owner dir) dir name (v_blob v) (v_size v) kept db3 = Inr (x, db4)"
    for p q place db1 m n v db2 dir name db3 kept x db4
  proof -
    have s1: "sound db1" by (rule locate_named(1) [OF s locate_writable_locate [OF a(1), THEN conjunct1]])
    have "v \<in> set (versions db1)" using a(4)
      by (auto simp: take_version_def delete_versions_def rbind_eq_Inr split: list.splits)
        (metis filter_is_subset list.set_intros(1) subsetD)
    then have "has_blob db1 (v_blob v)"
      using schema_okD(4) [OF soundD(1) [OF s1]] by (auto simp: versions_ok_def list_all_iff has_blob_def)
    moreover have k: "keeps db1 db3" by (rule keeps_trans [OF take_version_keeps [OF a(4)] file_target_keeps [OF a(5)]])
    ultimately have "has_blob db3 (v_blob v)" by (simp add: keeps_has_blob)
    from put_file_keeps [OF a(6) this] k locate_writable_keeps [OF a(1)] show ?thesis by (blast intro: keeps_trans)
  qed
  then show ?thesis unfolding restore_version_def
    by (auto split: sum.splits simp: rbind_eq_Inr intro!: keeps_transact)
qed

lemma trash_handlers_keep:
  "keeps db (snd (empty_handler now u db))" "keeps db (snd (restore_handler u i db))"
  "keeps db (snd (purge_handler now u i db))" "keeps db (snd (withdraw_handler u i db))"
  unfolding empty_handler_def restore_handler_def purge_handler_def withdraw_handler_def
  by (auto simp: rbind_eq_Inr dest: empty_trash_keeps restore_keeps purge_keeps withdraw_keeps
      intro!: keeps_transact keeps_execute)

lemma give_handler_keeps: "keeps db (snd (give_handler C st now u path email acc db))"
proof -
  have "keeps db db'" if "locate C now u p q db = Inr (place, db1)"
      "(case place of Own n \<Rightarrow> give now u n grantee acc db1 | _ \<Rightarrow> Inl Forbidden) = Inr (x, db')"
    for p q place db1 grantee x db'
    using locate_keeps [OF that(1)] that(2) by (cases place) (auto dest: give_keeps intro: keeps_trans)
  then show ?thesis unfolding give_handler_def
    by (auto split: sum.splits simp: rbind_eq_Inr intro!: keeps_transact)
qed

lemma share_handlers_keep:
  "keeps db (snd (create_share C st random salt now u path expires password db))"
  "keeps db (snd (revoke_handler now u i db))" "keeps db (snd (resolve_link C now token names header db))"
  "keeps db (snd (open_link C now token path header db))"
proof -
  show "keeps db (snd (create_share C st random salt now u path expires password db))"
  proof -
    have "keeps db db'" if "locate C now u p q db = Inr (place, db1)"
        "(case place of Own n \<Rightarrow> mint C random salt now (u_id u) n expires password db1 | _ \<Rightarrow> Inl Forbidden) = Inr (x, db')"
      for p q place db1 x db'
      using locate_keeps [OF that(1)] that(2) by (cases place) (auto dest: mint_keeps intro: keeps_trans)
    then show ?thesis unfolding create_share_def
      by (auto split: sum.splits simp: rbind_eq_Inr intro!: keeps_transact)
  qed
  show "keeps db (snd (revoke_handler now u i db))" unfolding revoke_handler_def
    by (rule keeps_execute) (auto simp: revoke_share_def Let_def split: if_splits)
  show r: "keeps db (snd (resolve_link C now token names header db))" for names
    unfolding resolve_link_def
    by (rule keeps_and_then, rule open_share_frame [of C now token "Option.bind header from_utf8" db]) simp_all
  show "keeps db (snd (open_link C now token path header db))"
    unfolding open_link_def using r by (auto split: sum.splits intro!: keeps_and_then)
qed

section \<open>The handlers of accounts\<close>

lemma open_session_keeps: "keeps d db \<Longrightarrow> keeps d (snd (open_session C ttl now user_id db))"
  unfolding open_session_def
  by (intro keeps_and_then keeps_transact) (auto dest: create_session_keeps intro: keeps_trans)

lemma login_keeps: "keeps db (snd (login C st now text password db))"
  unfolding login_def
  by (auto split: sum.split option.split intro!: keeps_and_then keeps_execute open_session_keeps dest: spend_keeps)

lemma replace_password_keeps: "keeps d db \<Longrightarrow> keeps d (snd (replace_password C salt i password keeping db))"
  unfolding replace_password_def
  by (intro keeps_execute) (auto simp: rbind_eq_Inr, metis set_password_keeps keeps_trans)

lemma account_handlers_keep:
  "keeps db (snd (change_password C now salt u sid current password db))" "keeps db (snd (reset_password C salt i password db))"
  "keeps db (snd (recover_password C salt email password db))"
  "keeps db (snd (disable_account now adm i db))" "keeps db (snd (enable_account now i db))"
  "keeps db (snd (create_account C now salt text name password r db))" "keeps db (snd (change_email C i text db))"
  "keeps db (snd (change_role adm i r db))" "keeps db (snd (change_quota i b db))"
  "keeps db (snd (update_profile u name db))" "keeps db (snd (sign_out_everywhere i db))"
  "keeps db (snd (unlock_account i db))" "keeps db (snd (logout sid db))"
  "keeps db (snd (mint_handler C random now u name db))" "keeps db (snd (revoke_presented now u via db))"
proof -
  show "keeps db (snd (change_password C now salt u sid current password db))"
    unfolding change_password_def
    by (intro keeps_and_then keeps_execute) (auto dest: spend_keeps intro: replace_password_keeps)
  show "keeps db (snd (reset_password C salt i password db))" by (simp add: reset_password_def replace_password_keeps)
  show "keeps db (snd (recover_password C salt email password db))"
    by (auto simp: recover_password_def split: option.split intro!: keeps_and_then replace_password_keeps)
  show "keeps db (snd (disable_account now adm i db))"
    by (auto simp: disable_account_def rbind_eq_Inr intro!: keeps_transact) (metis set_user_keeps(1))
  show "keeps db (snd (enable_account now i db))"
    by (auto simp: enable_account_def intro!: keeps_transact dest: set_user_keeps)
  show "keeps db (snd (create_account C now salt text name password r db))"
    by (auto simp: create_account_def split: sum.split intro!: keeps_transact dest: create_user_keeps)
  show "keeps db (snd (change_email C i text db))"
    by (auto simp: change_email_def split: sum.split intro!: keeps_transact dest: set_email_keeps)
  show "keeps db (snd (change_role adm i r db))"
    by (auto simp: change_role_def intro!: keeps_transact dest: set_user_keeps)
  show "keeps db (snd (change_quota i b db))"
    by (auto simp: change_quota_def intro!: keeps_execute dest: set_quota_keeps)
  show "keeps db (snd (update_profile u name db))"
    by (auto simp: update_profile_def intro!: keeps_transact dest: set_user_keeps)
  show "keeps db (snd (sign_out_everywhere i db))" "keeps db (snd (unlock_account i db))" "keeps db (snd (logout sid db))"
    by (simp_all add: sign_out_everywhere_def unlock_account_def logout_def split: option.split)
  show "keeps db (snd (mint_handler C random now u name db))"
    by (auto simp: mint_handler_def split: option.split intro!: keeps_transact dest: mint_app_password_keeps)
  show "keeps db (snd (revoke_presented now u via db))"
    by (auto simp: revoke_presented_def revoke_app_password_def Let_def split: credential.split if_splits intro!: keeps_execute)
qed

lemma caller_keeps: "keeps db (snd (caller_of C now authorization db))"
  using caller_frame [of C now authorization db] by auto

section \<open>Every row has its bytes\<close>

definition stocked :: "crates \<Rightarrow> world \<Rightarrow> bool" where
  "stocked C w \<longleftrightarrow> content_addressed C (w_files w)
     \<and> (\<forall>b\<in>set (blobs (w_db w)). \<exists>x. local_read C (b_hash b) (w_files w) = Inr x)"

lemma stocked_iff: "stocked C w \<longleftrightarrow> content_addressed C (w_files w)
     \<and> (\<forall>h. has_blob (w_db w) h \<longrightarrow> (\<exists>x. local_read C h (w_files w) = Inr x))"
  by (auto simp: stocked_def has_blob_def)

lemma stocked_db: "stocked C w \<Longrightarrow> keeps (w_db w) db' \<Longrightarrow> stocked C \<lparr>w_db = db', w_files = w_files w\<rparr>"
  by (simp add: stocked_iff keeps_has_blob)

lemma with_db_stocked: "stocked C w \<Longrightarrow> keeps (w_db w) (snd (f (w_db w))) \<Longrightarrow> stocked C (snd (with_db f w))"
  using stocked_db [of C w] by (cases w) (simp add: with_db_def case_prod_unfold)

text \<open>A write that answered has its bytes in place, before it is settled and after.\<close>

lemma write_stocked:
  assumes "collision_free C" and "stocked C w" and "local_write C now name cs (w_files w) = (r, fs)"
  shows "stocked C \<lparr>w_db = w_db w, w_files = fs\<rparr>"
    and "r = Inr wr \<Longrightarrow> \<exists>b. kept_bytes C wr b fs \<and> local_read C (wr_hash wr) fs = Inr b"
proof -
  have ca: "content_addressed C (w_files w)" using assms(2) by (simp add: stocked_def)
  have inv: "content_addressed C fs" using local_store.write_inv [OF assms(1) ca, of now name cs] assms(3) by simp
  have "local_read C h fs = Inr b" if "local_read C h (w_files w) = Inr b" for h b
    using local_store.write_keeps [OF assms(1) ca that, of now name cs] assms(3) by simp
  with assms(2) inv show "stocked C \<lparr>w_db = w_db w, w_files = fs\<rparr>" by (fastforce simp: stocked_def)
  show "\<exists>b. kept_bytes C wr b fs \<and> local_read C (wr_hash wr) fs = Inr b" if "r = Inr wr"
    using local_store.write_answers [OF assms(1) ca assms(3) [unfolded that]] by blast
qed

lemma settle_stocked:
  assumes "collision_free C" and "stocked C w" and "kept_bytes C wr b (w_files w)"
  shows "stocked C \<lparr>w_db = w_db w, w_files = local_settle C wr (w_files w)\<rparr>"
proof -
  have ca: "content_addressed C (w_files w)" using assms(2) by (simp add: stocked_def)
  show ?thesis
    using local_store.settle_inv [OF assms(1) ca assms(3)] local_store.settle_keeps [OF assms(1) ca assms(3)] assms(2)
    by (fastforce simp: stocked_def)
qed

lemma register_stocked:
  assumes "stocked C w" and "local_read C h (w_files w) = Inr b" and "register_blob now h n (w_db w) = Inr db'"
  shows "stocked C \<lparr>w_db = db', w_files = w_files w\<rparr>" and "has_blob db' h"
proof -
  have "has_blob db' = (\<lambda>x. has_blob (w_db w) x \<or> x = h)"
    using assms(3) by (auto simp: register_blob_def insert_blob_def has_blob_def fun_eq_iff split: if_splits)
  then show "stocked C \<lparr>w_db = db', w_files = w_files w\<rparr>" "has_blob db' h" using assms(1,2) by (auto simp: stocked_iff)
qed

lemma receive_stocked:
  assumes "collision_free C" and "stocked C w" and "receive C now name headers body limit w = (r, w')"
  shows "stocked C w'" and "r = Inr (wr, bytes) \<Longrightarrow> has_blob (w_db w') (wr_hash wr) \<and> (\<exists>b. kept_bytes C wr b (w_files w'))"
proof -
  have all: "stocked C w' \<and> (\<forall>wr bytes. r = Inr (wr, bytes) \<longrightarrow>
      has_blob (w_db w') (wr_hash wr) \<and> (\<exists>b. kept_bytes C wr b (w_files w')))"
  proof (cases "w' = w \<and> (\<exists>e. r = Inl e)")
    case True
    with assms(2) show ?thesis by auto
  next
    case False
    obtain x fs where lw: "local_write C now name (upload_within limit body) (w_files w) = (x, fs)" by fastforce
    note ws = write_stocked [OF assms(1,2) lw]
    show ?thesis
    proof (cases "\<exists>wr db. x = Inr wr \<and> register_blob now (wr_hash wr) (int (wr_size wr)) (w_db w) = Inr db \<and> wr_size wr < 2 ^ 63")
      case True
      then obtain wr db where x: "x = Inr wr" "register_blob now (wr_hash wr) (int (wr_size wr)) (w_db w) = Inr db"
          "wr_size wr < 2 ^ 63" by blast
      have r: "r = Inr (wr, int (wr_size wr))" "w' = \<lparr>w_db = db, w_files = fs\<rparr>"
        using assms(3) lw x False by (auto simp: receive_def split: option.splits if_splits)
      obtain b where b: "kept_bytes C wr b fs" "local_read C (wr_hash wr) fs = Inr b" using ws(2) [OF x(1)] by blast
      have "register_blob now (wr_hash wr) (int (wr_size wr)) (w_db \<lparr>w_db = w_db w, w_files = fs\<rparr>) = Inr db" using x(2) by simp
      from register_stocked [OF ws(1) _ this] b r show ?thesis by auto
    next
      case no: False
      have "(\<exists>e. r = Inl e) \<and> w' = w\<lparr>w_files := fs\<rparr>"
        using assms(3) lw no False by (auto simp: receive_def split: option.splits if_splits sum.splits)
      with ws(1) show ?thesis by (cases w) auto
    qed
  qed
  then show "stocked C w'" "r = Inr (wr, bytes) \<Longrightarrow> has_blob (w_db w') (wr_hash wr) \<and> (\<exists>b. kept_bytes C wr b (w_files w'))"
    by blast+
qed

text \<open>The end of every write: the row is made in the tree, and the bytes are settled.\<close>

lemma commit_stocked:
  assumes "collision_free C" and "stocked C w" and "has_blob (w_db w) h" and "kept_bytes C wr b (w_files w)"
    and "keeps (w_db w) db'"
  shows "stocked C \<lparr>w_db = db', w_files = local_settle C wr (w_files w)\<rparr>"
  using settle_stocked [OF assms(1) stocked_db [OF assms(2,5)], of wr b] assms(4) by simp

lemma put_commit_keeps:
  assumes "put_commit C st now u path pre wr bytes db = Inr (n, db')" and "has_blob db (wr_hash wr)"
  shows "keeps db db'"
proof -
  obtain dir name db1 where t: "file_target C now u path True (default_quota_bytes st) db = Inr (dir, name, db1)"
    and pf: "put_file C now (n_owner dir) dir name (wr_hash wr) bytes (versions_kept st) db1 = Inr (n, db')"
    using assms(1) by (auto simp: put_commit_def rbind_eq_Inr)
  note k = file_target_keeps [OF t]
  with assms(2) put_file_keeps [OF pf] show ?thesis by (auto simp: keeps_has_blob intro: keeps_trans)
qed

lemma put_stocked:
  assumes "collision_free C" and "stocked C w"
  shows "stocked C (snd (put C st now tmp_name u path headers body w))"
proof (cases "snd (put C st now tmp_name u path headers body w) = w")
  case True
  then show ?thesis using assms by simp
next
  case False
  then obtain ns limit where ns: "path_segments path = Inr ns" "ns \<noteq> []"
    and r: "put_room C st now u ns (precondition_of headers) (w_db w) = Inr limit"
    by (auto simp: put_def split: sum.splits if_splits)
  obtain x w1 where rc: "receive C now tmp_name headers body limit w = (x, w1)" by fastforce
  note k = receive_stocked [OF assms rc]
  show ?thesis
  proof (cases x)
    case (Inl e)
    with ns r rc k show ?thesis by (simp add: put_def)
  next
    case (Inr y)
    obtain wr bytes where y: "x = Inr (wr, bytes)" using Inr by (cases y) auto
    then obtain b where b: "has_blob (w_db w1) (wr_hash wr)" "kept_bytes C wr b (w_files w1)" using k(2) by blast
    show ?thesis
    proof (cases "put_commit C st now u ns (precondition_of headers) wr bytes (w_db w1)")
      case (Inl e)
      with ns r rc y k(1) show ?thesis by (simp add: put_def)
    next
      case (Inr z)
      obtain n db2 where z: "put_commit C st now u ns (precondition_of headers) wr bytes (w_db w1) = Inr (n, db2)"
        using Inr by (cases z) auto
      with ns r rc y commit_stocked [OF assms(1) k(1) b put_commit_keeps [OF z b(1)]] show ?thesis by (simp add: put_def)
    qed
  qed
qed

lemma get_stocked: "stocked C w \<Longrightarrow> stocked C (snd (get C st now u path w))"
  using with_db_stocked [of C w "located C st now u path"] located_keeps
  by (auto simp: get_def split: prod.splits sum.splits)

lemma version_content_stocked:
  assumes s: "stocked C w"
  shows "stocked C (snd (version_content C st now u i path w))"
proof (cases "path_segments path")
  case (Inr ns)
  let ?r = "with_db (transact (\<lambda>db. rbind (readable_file C st now u ns db) (\<lambda>(n, db1).
      rbind (find_version (n_id n) i db1) (\<lambda>v. Inr (v, db1))))) w"
  have "stocked C (snd ?r)"
    by (intro with_db_stocked s keeps_transact) (auto simp: rbind_eq_Inr dest: readable_file_keeps)
  moreover have "snd (version_content C st now u i path w) = snd ?r"
    using Inr by (cases ?r; cases "fst ?r") (simp_all add: version_content_def)
  ultimately show ?thesis by simp
qed (use s in \<open>simp add: version_content_def\<close>)

lemma download_link_stocked: "stocked C w \<Longrightarrow> stocked C (snd (download_link C now token path header w))"
  using with_db_stocked [of C w "resolve_link C now token names header" for names] share_handlers_keep(3)
  by (auto simp: download_link_def split: prod.splits sum.splits) (metis snd_conv)+

section \<open>Thumbnails and the sweeper\<close>

lemma remember_keeps [holdings]: "remember source edge thumbnail db = Inr db' \<Longrightarrow> keeps db db'"
  by (auto simp: remember_def Let_def split: if_splits option.splits)

lemma forget_orphans_keeps [simp]: "keeps d (snd (forget_orphans now db)) = keeps d db"
  by (simp add: forget_orphans_def Let_def)

lemma store_thumbnail_stocked:
  assumes "collision_free C" and "stocked C w"
  shows "stocked C (snd (store_thumbnail C now tmp_name source edge shrunk w))"
proof (cases "2 ^ 63 \<le> int (length shrunk)")
  case False
  obtain x fs where lw: "local_write C now tmp_name [Inr shrunk] (w_files w) = (x, fs)" by fastforce
  note ws = write_stocked [OF assms lw]
  show ?thesis
  proof (cases x)
    case (Inl e)
    with False lw ws(1) show ?thesis by (cases w) (simp add: store_thumbnail_def)
  next
    case (Inr wr)
    obtain b where b: "kept_bytes C wr b fs" "local_read C (wr_hash wr) fs = Inr b" using ws(2) [OF Inr] by blast
    show ?thesis
    proof (cases "register_blob now (wr_hash wr) (int (length shrunk)) (w_db w)")
      case (Inl e)
      with False lw ws(1) Inr show ?thesis by (cases w) (simp add: store_thumbnail_def \<open>x = Inr wr\<close>)
    next
      case r: (Inr db1)
      then have "register_blob now (wr_hash wr) (int (length shrunk)) (w_db \<lparr>w_db = w_db w, w_files = fs\<rparr>) = Inr db1" by simp
      from register_stocked [OF ws(1) _ this] b(2) have s1: "stocked C \<lparr>w_db = db1, w_files = fs\<rparr>" "has_blob db1 (wr_hash wr)"
        by simp_all
      show ?thesis
      proof (cases "remember source edge (wr_hash wr) db1")
        case (Inl e)
        with False lw Inr r s1 show ?thesis by (simp add: store_thumbnail_def \<open>x = Inr wr\<close>)
      next
        case m: (Inr db2)
        have "stocked C \<lparr>w_db = db2, w_files = local_settle C wr fs\<rparr>"
          using commit_stocked [OF assms(1) s1(1), of "wr_hash wr" wr b db2] s1(2) b(1) remember_keeps [OF m] by simp
        with False lw Inr r m show ?thesis by (simp add: store_thumbnail_def Let_def \<open>x = Inr wr\<close>)
      qed
    qed
  qed
qed (use assms in \<open>simp add: store_thumbnail_def\<close>)

lemma get_thumbnail_stocked:
  assumes "collision_free C" and s: "stocked C w"
  shows "stocked C (snd (get_thumbnail I C st now tmp_name u path edge w))"
proof (cases "snd (get_thumbnail I C st now tmp_name u path edge w) = w")
  case True
  then show ?thesis using s by simp
next
  case False
  then obtain ns where ns: "path_segments path = Inr ns"
    by (auto simp: get_thumbnail_def Let_def split: if_splits sum.splits)
  let ?r = "with_db (transact (\<lambda>db. rbind (locate C now u ns (default_quota_bytes st) db) (\<lambda>(place, db1).
      rbind (into_node place) (\<lambda>n. Inr (n, db1))))) w"
  have s1: "stocked C (snd ?r)"
    by (intro with_db_stocked s keeps_transact) (auto simp: rbind_eq_Inr dest: locate_keeps)
  obtain x w1 where r: "?r = (x, w1)" by fastforce
  then have "stocked C w1" using s1 by simp
  then show ?thesis using r ns s store_thumbnail_stocked [OF assms(1), of w1]
    by (auto simp: get_thumbnail_def Let_def split: if_splits sum.splits node_kind.splits option.splits)
qed

lemma sweep_one_stocked:
  assumes "collision_free C" and "stocked C w"
  shows "stocked C (snd (sweep_one C now grace h w))"
proof -
  have ca: "content_addressed C (w_files w)" using assms(2) by (simp add: stocked_def)
  have rows: "b \<in> set (blobs (w_db w)) \<and> b_hash b \<noteq> h" if "b \<in> set (blobs (delete_blob h (w_db w)))" for b
    using that by (auto simp: delete_blob_def)
  have "stocked C \<lparr>w_db = delete_blob h (w_db w), w_files = w_files w\<rparr>"
    using assms(2) rows by (auto simp: stocked_def)
  moreover have "stocked C \<lparr>w_db = delete_blob h (w_db w), w_files = local_remove C h (w_files w)\<rparr>"
    using assms(2) rows local_store.remove_inv [OF assms(1) ca, of h] local_store.remove_one [OF assms(1) ca]
    by (auto simp: stocked_def)
  ultimately show ?thesis using assms(2)
    by (cases w) (auto simp: sweep_one_def Let_def split: option.splits)
qed

lemma sweep_each_stocked:
  "collision_free C \<Longrightarrow> stocked C w \<Longrightarrow> stocked C (snd (sweep_each C now grace hs c w))"
proof (induction hs arbitrary: c w)
  case (Cons h hs)
  have "stocked C (snd (sweep_one C now grace h w))" by (rule sweep_one_stocked [OF Cons.prems])
  with Cons show ?case
    by (cases "sweep_one C now grace h w") (auto split: sum.splits option.splits)
qed simp

lemma tick_tables_keeps: "keeps db (tick_tables st now db)"
proof -
  have "keeps db (snd (expire now r (snd (forget_orphans now (snd (purge_expired_sessions now
      (snd (purge_expired_attempts now (snd (purge_expired_locks now db)))))))))) " for r
    by (rule keeps_trans [OF _ expire_keeps]) simp
  then show ?thesis by (simp add: tick_tables_def Let_def split: option.split)
qed

lemma tick_stocked:
  assumes "collision_free C" and t: "stocked C (sv_world sv)"
  shows "stocked C (sv_world (tick C st now grace sv))"
proof -
  let ?sv1 = "snd (sweep_uploads now (sv\<lparr>sv_world := (sv_world sv)\<lparr>w_db := tick_tables st now (w_db (sv_world sv))\<rparr>\<rparr>))"
  let ?w2 = "(sv_world ?sv1)\<lparr>w_files := snd (local_sweep_staged now (int grace) (w_files (sv_world ?sv1)))\<rparr>"
  have k: "keeps (w_db (sv_world sv)) (w_db (sv_world ?sv1))" and f: "w_files (sv_world ?sv1) = w_files (sv_world sv)"
    using tick_tables_keeps [of "w_db (sv_world sv)" st now]
    by (simp_all add: sweep_uploads_def with_uploads_def purge_expired_uploads_def)
  have "stocked C \<lparr>w_db = w_db (sv_world ?sv1), w_files = w_files (sv_world sv)\<rparr>" by (rule stocked_db [OF t k])
  then have "stocked C ?w2"
    using content_addressed_off_tmp [OF sweep_staged_files] read_off_tmp [OF sweep_staged_files] f
    by (auto simp: stocked_def)
  then show ?thesis by (simp add: tick_def Let_def sweep_def sweep_each_stocked [OF assms(1)])
qed

section \<open>Uploads\<close>

lemma only_uploads_keeps: "only_uploads db db' \<Longrightarrow> keeps db db'"
  by (auto simp: only_uploads_def keeps_def)

lemma upload_admitted_keeps: "upload_admitted C st now u names pre bytes db = Inr (x, db') \<Longrightarrow> keeps db db'"
proof -
  have q: "keeps db db1" if "quota_holder C now u names q db = Inr (holder, db1)" for q holder db1
    using that by (auto simp: quota_holder_def rbind_eq_Inr dest: ensure_root_keeps split: if_splits list.splits)
  have f: "keeps db1 db'" if "(case file_target C now u names False q db1 of
         Inr (dir, name, db2) \<Rightarrow> Inr (child (n_id dir) name db2, db2)
       | Inl NotFound \<Rightarrow> Inr (None, db1) | Inl e \<Rightarrow> Inl e) = Inr (existing, db')" for q db1 existing
    using that file_target_keeps [of C now u names False q db1]
    by (cases "file_target C now u names False q db1") (auto split: api_error.splits prod.splits)
  assume "upload_admitted C st now u names pre bytes db = Inr (x, db')"
  then show ?thesis by (auto simp: upload_admitted_def rbind_eq_Inr dest!: q f intro: keeps_trans)
qed

lemma finish_stocked:
  assumes "collision_free C" and s: "stocked C (sv_world sv)"
  shows "stocked C (sv_world (snd (finish C st now tmp_name u headers i sv)))"
proof (cases "snd (finish C st now tmp_name u headers i sv) = sv")
  case True
  then show ?thesis using s by simp
next
  case False
  then obtain x ns f where o: "upload_of now (u_id u) i (w_db (sv_world sv)) = Inr x" "up_received x = up_size x"
      "path_segments (up_path x) = Inr ns" "map_of (sv_staging sv) (up_staged x) = Some f"
    by (auto simp: finish_def split: sum.splits if_splits option.splits)
  let ?w = "sv_world sv"
  obtain r fs where lw: "local_write C now tmp_name [Inr (f_bytes f)] (w_files ?w) = (r, fs)" by fastforce
  note ws = write_stocked [OF assms lw]
  have w: "?w\<lparr>w_files := fs\<rparr> = \<lparr>w_db = w_db ?w, w_files = fs\<rparr>" by (cases ?w) simp
  show ?thesis
  proof (cases "\<exists>wr db1. r = Inr wr \<and> int (wr_size wr) < 2 ^ 63 \<and> register_blob now (wr_hash wr) (int (wr_size wr)) (w_db ?w) = Inr db1")
    case True
    then obtain wr db1 where wr: "r = Inr wr" "int (wr_size wr) < 2 ^ 63"
      "register_blob now (wr_hash wr) (int (wr_size wr)) (w_db \<lparr>w_db = w_db ?w, w_files = fs\<rparr>) = Inr db1" by auto
    obtain b where b: "kept_bytes C wr b fs" "local_read C (wr_hash wr) fs = Inr b" using ws(2) [OF wr(1)] by blast
    from register_stocked [OF ws(1) _ wr(3)] b(2) have s1: "stocked C \<lparr>w_db = db1, w_files = fs\<rparr>" "has_blob db1 (wr_hash wr)"
      by simp_all
    show ?thesis
    proof (cases "put_commit C st now u ns (precondition_of headers) wr (int (wr_size wr)) db1")
      case (Inl e)
      with o lw wr s1(1) show ?thesis by (simp add: finish_def)
    next
      case (Inr y)
      obtain n db2 where pc: "put_commit C st now u ns (precondition_of headers) wr (int (wr_size wr)) db1 = Inr (n, db2)"
        using Inr by (cases y) auto
      have "keeps db1 (drop_session (up_id x) db2)" using put_commit_keeps [OF pc s1(2)] by simp
      then have "stocked C \<lparr>w_db = drop_session (up_id x) db2, w_files = local_settle C wr fs\<rparr>"
        using commit_stocked [OF assms(1) s1(1), of "wr_hash wr" wr b] s1(2) b(1) by simp
      with o lw wr pc show ?thesis by (simp add: finish_def abandon_upload_def)
    qed
  next
    case no: False
    then have "snd (finish C st now tmp_name u headers i sv) = sv\<lparr>sv_world := ?w\<lparr>w_files := fs\<rparr>\<rparr>"
      using o lw by (auto simp: finish_def split: sum.splits if_splits)
    with ws(1) show ?thesis by (cases "sv_world sv") simp
  qed
qed

lemma update_upload_only: "update_upload P f db = Inr (r, db') \<Longrightarrow> only_uploads db db'"
  by (auto simp: update_upload_def split: option.splits)

lemma claim_only: "claim now i db = Inr (taker, db') \<Longrightarrow> only_uploads db db'"
  by (auto simp: claim_def rbind_eq_Inr case_prod_unfold split: if_splits dest!: update_upload_only
      intro: only_uploads_trans [OF only_uploads_set(2)])

lemma renew_only: "renew i taker ts db = (ok, db') \<Longrightarrow> only_uploads db db'"
proof (induction i taker ts db rule: renew.induct)
  case (2 i taker t ts db)
  obtain k db1 where r: "renew_once i taker t db = (k, db1)" by fastforce
  have o: "only_uploads db db1" using r
    by (auto simp: renew_once_def split: sum.splits prod.splits option.splits dest: update_upload_only)
  show ?case
  proof (cases k)
    case True
    with 2(2) r have "renew i taker ts db1 = (ok, db')" by simp
    from 2(1) [of True db1, OF _ _ this] r True o show ?thesis by (auto intro: only_uploads_trans)
  qed (use 2(2) r o in simp)
qed simp

lemma record_only: "record_written s taker outcome (db, sg) = (r, db', sg') \<Longrightarrow> only_uploads db db'"
  by (auto simp: record_written_def refuse_overflow_def release_claim_def split: sum.splits wrote.splits if_splits
      option.splits prod.splits dest: update_upload_only)

lemma append_only:
  assumes "append_upload now renewals s offset cs (db, sg) = (r, db', sg')"
  shows "only_uploads db db'"
proof (cases "offset = up_received s \<and> \<not> offset < 0 \<and> (\<exists>taker db1. claim now (up_id s) db = Inr (taker, db1))")
  case False
  with assms show ?thesis by (auto simp: append_upload_def split: sum.splits if_splits)
next
  case True
  then obtain taker db1 where c: "offset = up_received s" "\<not> offset < 0" "claim now (up_id s) db = Inr (taker, db1)" by blast
  obtain outcome sg1 where wa: "write_at now (up_staged s) (nat offset) (nat (up_size s - offset)) cs sg = (outcome, sg1)"
    by fastforce
  obtain ok db2 where rn: "renew (up_id s) taker renewals db1 = (ok, db2)" by fastforce
  have "only_uploads db db2" by (rule only_uploads_trans [OF claim_only [OF c(3)] renew_only [OF rn]])
  moreover have "(r, db', sg') = (if ok then record_written s taker outcome (db2, sg1) else (Inl AlreadyWriting, db2, sg1))"
    using assms c wa rn by (auto simp: append_upload_def split: bool.splits)
  ultimately show ?thesis by (cases ok) (auto dest: record_only [OF sym] intro: only_uploads_trans)
qed

text \<open>What a request on a session does to the world: the table of sessions only.\<close>

definition sessions_only :: "server \<Rightarrow> server \<Rightarrow> bool" where
  "sessions_only sv sv' \<longleftrightarrow> only_uploads (w_db (sv_world sv)) (w_db (sv_world sv')) \<and> w_files (sv_world sv') = w_files (sv_world sv)"

lemma sessions_only_refl [simp]: "sessions_only sv sv"
  by (simp add: sessions_only_def)

lemma append_handler_only: "sessions_only sv (snd (append_handler now renewals u i headers body sv))"
proof (cases "snd (append_handler now renewals u i headers body sv) = sv")
  case False
  then obtain s offset where s: "upload_of now (u_id u) i (w_db (sv_world sv)) = Inr s"
      "Option.bind (headers ''upload-offset'') parse_i64 = Some offset"
    by (auto simp: append_handler_def split: sum.splits option.splits)
  obtain r db' sg' where ap: "append_upload now renewals s offset body (w_db (sv_world sv), sv_staging sv) = (r, db', sg')"
    by (cases "append_upload now renewals s offset body (w_db (sv_world sv), sv_staging sv)") auto
  with s append_only [OF ap] show ?thesis
    by (cases r) (auto simp: append_handler_def with_uploads_def sessions_only_def)
qed simp

lemma abandon_handler_only: "sessions_only sv (snd (abandon_handler now u i sv))"
  by (auto simp: abandon_handler_def with_uploads_def abandon_upload_def drop_session_def sessions_only_def split: sum.split)

lemma begin_upload_only: "begin_upload C now owner path bytes (db, sg) = (r, db', sg') \<Longrightarrow> only_uploads db db'"
proof -
  assume b: "begin_upload C now owner path bytes (db, sg) = (r, db', sg')"
  have i: "only_uploads (snd (now_v7 (snd (now_v7 db)))) d" if "insert_upload s (snd (now_v7 (snd (now_v7 db)))) = Inr d" for s d
    using that by (auto simp: insert_upload_def split: option.splits if_splits)
  have "only_uploads db (snd (now_v7 (snd (now_v7 db))))" by (rule only_uploads_trans [of _ "snd (now_v7 db)"]) simp_all
  with b i show ?thesis
    by (auto simp: begin_upload_def Let_def case_prod_unfold split: if_splits sum.splits intro: only_uploads_trans)
qed

lemma begin_handler_cases:
  obtains (same) "snd (begin_handler C st now u headers path bytes sv) = sv"
    | (opened) ns db1 db2 where
      "upload_admitted C st now u ns (precondition_of headers) bytes (w_db (sv_world sv)) = Inr ((), db1)"
      "only_uploads db1 db2"
      "sv_world (snd (begin_handler C st now u headers path bytes sv)) = \<lparr>w_db = db2, w_files = w_files (sv_world sv)\<rparr>"
proof (cases "snd (begin_handler C st now u headers path bytes sv) = sv")
  case False
  then obtain ns db1 where ns: "path_segments path = Inr ns" "ns \<noteq> []"
    and ad: "upload_admitted C st now u ns (precondition_of headers) bytes (w_db (sv_world sv)) = Inr ((), db1)"
    by (auto simp: begin_handler_def transact_def split: sum.splits if_splits prod.splits)
  obtain r db2 sg where bg: "begin_upload C now (u_id u) path bytes (db1, sv_staging sv) = (r, db2, sg)"
    by (cases "begin_upload C now (u_id u) path bytes (db1, sv_staging sv)") auto
  have "sv_world (snd (begin_handler C st now u headers path bytes sv)) = \<lparr>w_db = db2, w_files = w_files (sv_world sv)\<rparr>"
    using ns ad bg by (cases "sv_world sv") (simp add: begin_handler_def transact_def with_uploads_def)
  with ad begin_upload_only [OF bg] show thesis by (rule opened)
qed (rule same)

lemma begin_handler_stocked:
  assumes "stocked C (sv_world sv)"
  shows "stocked C (sv_world (snd (begin_handler C st now u headers path bytes sv)))"
proof (cases rule: begin_handler_cases [of C st now u headers path bytes sv])
  case (opened ns db1 db2)
  have "keeps (w_db (sv_world sv)) db2"
    using upload_admitted_keeps [OF opened(1)] only_uploads_keeps [OF opened(2)] by (rule keeps_trans)
  from stocked_db [OF assms this] show ?thesis by (simp add: opened(3))
qed (use assms in simp)

lemma begin_handler_sound:
  assumes "sound (w_db (sv_world sv))"
  shows "sound (w_db (sv_world (snd (begin_handler C st now u headers path bytes sv))))"
proof (cases rule: begin_handler_cases [of C st now u headers path bytes sv])
  case (opened ns db1 db2)
  from only_uploads_sound [OF opened(2) upload_admitted_sound(1) [OF assms opened(1)]] show ?thesis by (simp add: opened(3))
qed (use assms in simp)

lemma sessions_only_stocked: "sessions_only sv sv' \<Longrightarrow> stocked C (sv_world sv) \<Longrightarrow> stocked C (sv_world sv')"
  using stocked_db [of C "sv_world sv" "w_db (sv_world sv')"] only_uploads_keeps
  by (cases "sv_world sv'") (auto simp: sessions_only_def)

lemma sessions_only_sound: "sessions_only sv sv' \<Longrightarrow> sound (w_db (sv_world sv)) \<Longrightarrow> sound (w_db (sv_world sv'))"
  by (auto simp: sessions_only_def dest: only_uploads_sound)

lemma finish_sound:
  assumes s: "sound (w_db (sv_world sv))"
  shows "sound (w_db (sv_world (snd (finish C st now tmp_name u headers i sv))))"
proof (cases "w_db (sv_world (snd (finish C st now tmp_name u headers i sv))) = w_db (sv_world sv)")
  case False
  then obtain x ns f wr fs db1 where o: "upload_of now (u_id u) i (w_db (sv_world sv)) = Inr x" "up_received x = up_size x"
      "path_segments (up_path x) = Inr ns" "map_of (sv_staging sv) (up_staged x) = Some f"
      "local_write C now tmp_name [Inr (f_bytes f)] (w_files (sv_world sv)) = (Inr wr, fs)" "int (wr_size wr) < 2 ^ 63"
      "register_blob now (wr_hash wr) (int (wr_size wr)) (w_db (sv_world sv)) = Inr db1"
    by (auto simp: finish_def split: sum.splits if_splits option.splits prod.splits)
  have s1: "sound db1" using register_blob_sound [OF s o(7)] by simp
  show ?thesis
  proof (cases "put_commit C st now u ns (precondition_of headers) wr (int (wr_size wr)) db1")
    case (Inl e)
    with o s1 show ?thesis by (simp add: finish_def)
  next
    case (Inr y)
    then obtain n db2 where pc: "put_commit C st now u ns (precondition_of headers) wr (int (wr_size wr)) db1 = Inr (n, db2)"
      by (cases y) auto
    from put_commit_sound [OF s1 pc] o pc show ?thesis by (simp add: finish_def abandon_upload_def drop_session_def)
  qed
qed (use s in simp)

section \<open>WebDAV\<close>

lemma propfind_listing_keeps:
  assumes "propfind_listing C st now u path deep db = Inr (x, db')"
  shows "keeps db db'"
proof -
  obtain place db1 where l: "locate C now u path (default_quota_bytes st) db = Inr (place, db1)"
    using assms by (auto simp: propfind_listing_def rbind_eq_Inr)
  have "keeps db1 db'"
  proof (cases "place = SharedWithMe")
    case True
    with assms l show ?thesis by (auto simp: propfind_listing_def rbind_eq_Inr dest: ensure_root_keeps)
  next
    case False
    then have "db' = db1"
      using assms l by (cases place) (auto simp: propfind_listing_def Let_def rbind_eq_Inr)
    then show ?thesis by simp
  qed
  with locate_keeps [OF l] show ?thesis by (rule keeps_trans)
qed

lemma propfind_keeps: "keeps db (snd (propfind C st now u rq db))"
  unfolding propfind_def Let_def
  by (auto split: sum.splits simp: rbind_eq_Inr intro!: keeps_and_then keeps_transact dest: propfind_listing_keeps)

lemma proppatch_keeps: "keeps db (snd (proppatch C st now u rq db))"
  unfolding proppatch_def Let_def
  by (auto split: sum.splits simp: rbind_eq_Inr intro!: keeps_transact dest: locate_keeps)

lemmas keeps_tried = tried_keeps [where P = "keeps db" for db]

lemma mkcol_keeps: "keeps db (snd (mkcol C st now u rq db))"
  unfolding mkcol_def
  by (auto split: sum.splits if_splits simp: rbind_eq_Inr intro!: keeps_tried
      dest!: directory_for_write_keeps create_directories_keeps intro: keeps_trans)

lemma leaving_allowed_keeps: "leaving_allowed C st now u path submitted db = Inr db' \<Longrightarrow> keeps db db'"
  by (auto simp: leaving_allowed_def rbind_eq_Inr dest: locate_keeps)

lemma dav_delete_keeps: "keeps db (snd (dav_delete C st now u rq db))"
  unfolding dav_delete_def Let_def
  by (auto split: sum.splits simp: rbind_eq_Inr intro!: keeps_transact
      dest!: locate_writable_keeps leaving_allowed_keeps send_keeps) (blast intro: keeps_trans)

lemma clear_occupant_keeps: "clear_occupant now source occupant over submitted db = Inr db' \<Longrightarrow> keeps db db'"
  by (auto simp: clear_occupant_def rbind_eq_Inr dest: send_keeps split: option.splits if_splits)

lemma transfer_keeps:
  assumes "transfer C st now u moving p q over submitted db = Inr (x, db')"
  shows "keeps db db'"
proof -
  obtain found db1 source dir db2 db3 db4 n where
    a: "locate C now u p (default_quota_bytes st) db = Inr (found, db1)"
    and b: "directory_for_write C now u (butlast q) False (default_quota_bytes st) db1 = Inr (dir, db2)"
    and c: "(if moving
        then rbind (checked (allows now source submitted db2)) (\<lambda>_.
          rbind (checked (none_below now source submitted db2)) (\<lambda>_.
            checked (leaving_allowed C st now u p submitted db2)))
        else Inr db2) = Inr db3"
    and d: "clear_occupant now source (child (n_id dir) (last q) db3) over submitted db3 = Inr db4"
    and e: "(if moving then checked (rename C now source dir (last q) db4)
         else (case copy_tree C now (n_owner dir) source dir (last q) db4 of
             Some r \<Rightarrow> checked r | None \<Rightarrow> Inl (Inl (Database RowNotFound)))) = Inr (n, db')"
    using assms unfolding transfer_def by (auto simp: rbind_eq_Inr Let_def)
  have "keeps db2 db3" using c by (auto simp: rbind_eq_Inr dest: leaving_allowed_keeps split: if_splits)
  moreover have "keeps db4 db'" using e
    by (auto dest: rename_keeps copy_tree_keeps split: if_splits option.splits)
  ultimately show ?thesis
    using locate_keeps [OF a] directory_for_write_keeps [OF b] clear_occupant_keeps [OF d] by (blast intro: keeps_trans)
qed

lemma run_transfer_keeps: "keeps db (snd (run_transfer C st now u rq db))"
  unfolding run_transfer_def
  by (auto split: sum.splits intro!: keeps_tried dest: transfer_keeps)

lemma unlock_keeps: "keeps db (snd (unlock_method C st now u rq db))"
  unfolding unlock_method_def
  by (auto split: sum.splits option.splits simp: rbind_eq_Inr case_prod_unfold Let_def intro!: keeps_and_then keeps_transact
      dest: locate_writable_keeps)

lemma destination_keeps: "destination C st now u path submitted db = Inr (found, db') \<Longrightarrow> keeps db db'"
  using file_target_keeps [of C now u path False "default_quota_bytes st" db]
  by (cases "file_target C now u path False (default_quota_bytes st) db")
    (auto simp: destination_def rbind_eq_Inr Let_def split: api_error.splits)

lemma dav_commit_keeps:
  assumes "dav_commit C st now u path submitted wr bytes db = Inr (x, db')" and "has_blob db (wr_hash wr)"
  shows "keeps db db'"
proof -
  obtain dir name existed db1 n where d: "destination C st now u path submitted db = Inr (Some (dir, name, existed), db1)"
    and pf: "put_file C now (n_owner dir) dir name (wr_hash wr) bytes (versions_kept st) db1 = Inr (n, db')"
    using assms(1) by (auto simp: dav_commit_def rbind_eq_Inr split: option.splits)
  note k = destination_keeps [OF d]
  with assms(2) put_file_keeps [OF pf] show ?thesis by (auto simp: keeps_has_blob intro: keeps_trans)
qed

lemma dav_put_stocked:
  assumes "collision_free C" and "stocked C w"
  shows "stocked C (snd (dav_put C st now tmp_name u rq w))"
proof (cases "snd (dav_put C st now tmp_name u rq w) = w")
  case True
  then show ?thesis using assms by simp
next
  case False
  then obtain path limit where ns: "may_write u" "path_of C (rq_uri rq) = Inr path" "path \<noteq> []"
    and r: "dav_room C st now u path (tokens_of (rq_headers rq)) (w_db w) = Inr limit"
    by (auto simp: dav_put_def split: sum.splits if_splits)
  obtain x w1 where rc: "receive C now tmp_name (rq_headers rq) (rq_body rq) limit w = (x, w1)" by fastforce
  note k = receive_stocked [OF assms rc]
  show ?thesis
  proof (cases x)
    case (Inl e)
    with ns r rc k show ?thesis by (simp add: dav_put_def)
  next
    case (Inr y)
    obtain wr bytes where y: "x = Inr (wr, bytes)" using Inr by (cases y) auto
    then obtain b where b: "has_blob (w_db w1) (wr_hash wr)" "kept_bytes C wr b (w_files w1)" using k(2) by blast
    show ?thesis
    proof (cases "dav_commit C st now u path (tokens_of (rq_headers rq)) wr bytes (w_db w1)")
      case (Inl e)
      with ns r rc y k(1) show ?thesis by (simp add: dav_put_def)
    next
      case (Inr z)
      obtain n existed db2 where z: "dav_commit C st now u path (tokens_of (rq_headers rq)) wr bytes (w_db w1) = Inr ((n, existed), db2)"
        using Inr by (cases z) auto
      with ns r rc y commit_stocked [OF assms(1) k(1) b dav_commit_keeps [OF z b(1)]] show ?thesis by (simp add: dav_put_def)
    qed
  qed
qed

lemma read_node_stocked: "stocked C w \<Longrightarrow> stocked C (snd (read_node C st now u rq head_only w))"
proof (cases "path_of C (rq_uri rq)")
  case (Inr path)
  assume s: "stocked C w"
  let ?r = "with_db (transact (locate C now u path (default_quota_bytes st))) w"
  have "stocked C (snd ?r)" by (intro with_db_stocked s keeps_transact) (auto dest: locate_keeps)
  moreover have "snd (read_node C st now u rq head_only w) = snd ?r"
    using Inr by (cases ?r; cases "fst ?r") (simp_all add: read_node_def)
  ultimately show ?thesis by simp
qed (simp add: read_node_def)

lemma refresh_first_keeps: "refresh_first now tokens n seconds db = Some (l, db') \<Longrightarrow> keeps d db \<Longrightarrow> keeps d db'"
proof (induction now tokens n seconds db rule: refresh_first.induct)
  case (2 now token tokens n seconds db)
  have k: "keeps d (snd (refresh_lock now token n seconds db))" using 2(3) by simp
  show ?case
  proof (cases "refresh_lock now token n seconds db")
    case (Pair a b)
    with 2 k show ?thesis by (cases a) auto
  qed
qed simp

lemma lock_node_keeps: "lock_node C now u n submitted holder deep seconds db = Inr (l, db') \<Longrightarrow> keeps db db'"
  by (auto simp: lock_node_def rbind_eq_Inr dest: take_lock_keeps)

lemma empty_file_stocked:
  assumes "collision_free C" and "stocked C w" and e: "empty_file C st now tmp_name u path w = (r, w')"
  shows "stocked C w'" and "r = Inr (n, db1) \<Longrightarrow> keeps (w_db w') db1"
proof -
  have all: "stocked C w' \<and> (\<forall>n db1. r = Inr (n, db1) \<longrightarrow> keeps (w_db w') db1)"
  proof (cases "w' = w \<and> (\<exists>e. r = Inl e)")
    case True
    with assms(2) show ?thesis by auto
  next
    case False
    then obtain dir name db1 where t: "file_target C now u path False (default_quota_bytes st) (w_db w) = Inr (dir, name, db1)"
      and p: "path \<noteq> []"
      using e by (auto simp: empty_file_def split: if_splits sum.splits)
    obtain x fs where lw: "local_write C now tmp_name [Inr []] (w_files w) = (x, fs)" by fastforce
    note ws = write_stocked [OF assms(1,2) lw]
    show ?thesis
    proof (cases "\<exists>wr pool. x = Inr wr \<and> register_blob now (wr_hash wr) 0 (w_db w) = Inr pool")
      case no: False
      with e t p lw have "w' = w\<lparr>w_files := fs\<rparr> \<and> (\<exists>e. r = Inl e)"
        by (auto simp: empty_file_def split: sum.splits)
      with ws(1) show ?thesis by (cases w) auto
    next
      case True
      then obtain wr pool where wr: "x = Inr wr" "register_blob now (wr_hash wr) 0 (w_db w) = Inr pool" by blast
      obtain b where b: "kept_bytes C wr b fs" "local_read C (wr_hash wr) fs = Inr b" using ws(2) [OF wr(1)] by blast
      have "register_blob now (wr_hash wr) 0 (w_db \<lparr>w_db = w_db w, w_files = fs\<rparr>) = Inr pool" using wr(2) by simp
      from register_stocked [OF ws(1) _ this] b(2) have s1: "stocked C \<lparr>w_db = pool, w_files = fs\<rparr>" "has_blob pool (wr_hash wr)"
        by simp_all
      have s2: "stocked C \<lparr>w_db = pool, w_files = local_settle C wr fs\<rparr>"
        using settle_stocked [OF assms(1) s1(1)] b(1) by simp
      have reg: "has_blob d' = (\<lambda>x. has_blob d x \<or> x = wr_hash wr)" if "register_blob now (wr_hash wr) 0 d = Inr d'" for d d'
        using that by (auto simp: register_blob_def insert_blob_def has_blob_def fun_eq_iff split: if_splits)
      have k: "keeps pool d2" if "register_blob now (wr_hash wr) 0 db1 = Inr d1"
          "put_file C now (n_owner dir) dir name (wr_hash wr) 0 (versions_kept st) d1 = Inr (n, d2)" for n d1 d2
      proof -
        have "has_blob d1 = has_blob pool"
          using reg [OF that(1)] reg [OF wr(2)] keeps_has_blob [OF file_target_keeps [OF t]] by simp
        then have "keeps pool d1" by (auto simp: keeps_def has_blob_def fun_eq_iff)
        moreover have "has_blob d1 (wr_hash wr)" using reg [OF that(1)] by simp
        ultimately show ?thesis using put_file_keeps [OF that(2)] by (blast intro: keeps_trans)
      qed
      then show ?thesis using e t p lw wr s1(1) s2
        by (auto simp: empty_file_def rbind_eq_Inr split: sum.splits)
    qed
  qed
  then show "stocked C w'" "r = Inr (n, db1) \<Longrightarrow> keeps (w_db w') db1" by blast+
qed

lemma with_db_const_stocked:
  assumes "stocked C w" and "keeps (w_db w) db1" and "\<And>x db2. f db1 = Inr (x, db2) \<Longrightarrow> keeps db1 db2"
  shows "stocked C (snd (with_db (transact (\<lambda>_. f db1)) w))"
  by (rule with_db_stocked [OF assms(1)], rule keeps_transact) (auto dest: assms(3) intro: keeps_trans [OF assms(2)])

lemma lock_method_stocked:
  assumes "collision_free C" and s: "stocked C w"
  shows "stocked C (snd (lock_method C st now tmp_name u rq body w))"
proof (cases "may_write u \<and> (\<exists>path. path_of C (rq_uri rq) = Inr path)")
  case False
  with s show ?thesis by (auto simp: lock_method_def split: sum.splits)
next
  case True
  then obtain path where p: "may_write u" "path_of C (rq_uri rq) = Inr path" by blast
  let ?q = "default_quota_bytes st" and ?seconds = "requested_seconds (header_text (rq_headers rq) ''timeout'')"
  let ?sub = "tokens_of (rq_headers rq)"
  show ?thesis
  proof (cases "ascii_white body")
    case True
    have "keeps d db2" if "(case refresh_first now ?sub n ?seconds db1 of
        Some (l, db2) \<Rightarrow> Inr (granted C now l path (n_kind n) 200, db2)
      | None \<Rightarrow> Inl (WrongKind ''lockinfo body, or the If header naming a lock to refresh'')) = Inr (x, db2)"
      "keeps d db1" for d n db1 x db2
      using that by (auto split: option.splits dest: refresh_first_keeps)
    note rf = this
    have "stocked C (snd (with_db (transact (\<lambda>db.
        rbind (locate_writable C now u path ?q db) (\<lambda>(place, db1).
        rbind (into_node place) (\<lambda>n.
          case refresh_first now ?sub n ?seconds db1 of
            Some (l, db2) \<Rightarrow> Inr (granted C now l path (n_kind n) 200, db2)
          | None \<Rightarrow> Inl (WrongKind ''lockinfo body, or the If header naming a lock to refresh''))))) w))"
      by (intro with_db_stocked s keeps_transact)
        (auto simp: rbind_eq_Inr dest!: rf dest: locate_writable_keeps)
    then show ?thesis using p True by (simp add: lock_method_def Let_def)
  next
    case False
    let ?deep = "header_text (rq_headers rq) ''depth'' \<noteq> Some ''0''"
    let ?lock = "\<lambda>n code db1. rbind (lock_node C now u n ?sub (holder_of C body) ?deep ?seconds db1) (\<lambda>(l, db2).
          Inr (granted C now l path (n_kind n) code, db2))"
    have l: "keeps db1 db2" if "?lock n code db1 = Inr (x, db2)" for n code db1 x db2
      using that by (auto simp: rbind_eq_Inr dest: lock_node_keeps)
    show ?thesis
    proof (cases "locate_writable C now u path ?q (w_db w)")
      case (Inr y)
      then obtain place db1 where y: "locate_writable C now u path ?q (w_db w) = Inr (place, db1)" by (cases y) auto
      have "stocked C (snd (with_db (transact (\<lambda>_. (\<lambda>db1. rbind (into_node place) (\<lambda>n. ?lock n 200 db1)) db1)) w))"
        by (rule with_db_const_stocked [OF s locate_writable_keeps [OF y]]) (auto simp: rbind_eq_Inr dest: lock_node_keeps)
      then show ?thesis using p False y by (simp add: lock_method_def Let_def)
    next
      case (Inl e)
      show ?thesis
      proof (cases "e = NotFound")
        case False
        then show ?thesis using p \<open>\<not> ascii_white body\<close> Inl s by (cases e) (simp_all add: lock_method_def Let_def)
      next
        case nf: True
        obtain r w1 where e: "empty_file C st now tmp_name u path w = (r, w1)" by fastforce
        note es = empty_file_stocked [OF assms e]
        show ?thesis
        proof (cases r)
          case (Inl e')
          with p False \<open>locate_writable _ _ _ _ _ _ = Inl e\<close> nf e es(1) show ?thesis by (simp add: lock_method_def Let_def)
        next
          case (Inr z)
          then obtain n db1 where z: "r = Inr (n, db1)" by (cases z) auto
          have "stocked C (snd (with_db (transact (\<lambda>_. (\<lambda>db1. ?lock n 201 db1) db1)) w1))"
            by (rule with_db_const_stocked [OF es(1) es(2) [OF z]]) (auto simp: rbind_eq_Inr dest: lock_node_keeps)
          then show ?thesis using p False \<open>locate_writable _ _ _ _ _ _ = Inl e\<close> nf e z by (simp add: lock_method_def Let_def)
        qed
      qed
    qed
  qed
qed

lemma dispatch_stocked:
  assumes "collision_free C" and s: "stocked C w"
  shows "stocked C (snd (dispatch C st now tmp_name u rq w))"
  unfolding dispatch_def Let_def
  by (auto split: sum.split intro!: with_db_stocked [OF s] propfind_keeps proppatch_keeps mkcol_keeps dav_delete_keeps
      run_transfer_keeps unlock_keeps read_node_stocked [OF s] dav_put_stocked [OF assms] lock_method_stocked [OF assms] s)

end
