(* ===== verification/Departure.thy ===== *)
theory Departure
  imports Backed Plan
begin

text \<open>
  Removing an account: \<open>api/src/departure.rs\<close> and the handler \<open>delete\<close> of \<open>routes/users.rs\<close>. What the
  account holds goes with it, or moves into a folder of another account that is charged for it.
  The lemmas show that the books balance afterwards, that nothing of another account is touched
  and that what is handed over arrives whole.
\<close>

section \<open>Operations\<close>

definition NUMBERED_SUFFIX :: string where "NUMBERED_SUFFIX = '' 1000''"
definition MAX_FOLDER_NAME_BYTES :: nat where
  "MAX_FOLDER_NAME_BYTES = MAX_NAME_LEN - length NUMBERED_SUFFIX"
definition MAX_ATTEMPTS :: nat where "MAX_ATTEMPTS = 1000"

text \<open>A control character from 128 to 159 is two bytes, the first of which begins no other one.\<close>

fun cleaned :: "string \<Rightarrow> string" where
  "cleaned [] = []"
| "cleaned [c] = [if c = slash \<or> c = backslash \<or> ascii_control c then CHR ''-'' else c]"
| "cleaned (c # d # cs) =
     (if (of_char c :: nat) = 194 \<and> 128 \<le> (of_char d :: nat) \<and> (of_char d :: nat) \<le> 159
      then CHR ''-'' # cleaned cs
      else (if c = slash \<or> c = backslash \<or> ascii_control c then CHR ''-'' else c) # cleaned (d # cs))"

definition fitted :: "string \<Rightarrow> string" where
  "fitted who =
     (let text = cleaned who; last = floor_boundary text (min (length text) MAX_FOLDER_NAME_BYTES)
      in take last text)"

definition folder_name :: "user \<Rightarrow> string" where
  "folder_name leaving = fitted (trim (u_display_name leaving) @ '' ('' @ u_email leaving @ '')'')"

fun free_name_from :: "nat \<Rightarrow> nat \<Rightarrow> uuid \<Rightarrow> string \<Rightarrow> db \<Rightarrow> api_error + node_name" where
  "free_name_from 0 k up want db = Inl (Conflict want)"
| "free_name_from (Suc left) k up want db =
     rbind (map_err InvalidPath (node_name_from_str (if k = 1 then want else want @ '' '' @ decimal k))) (\<lambda>name.
     if child up name db \<noteq> None then free_name_from left (k + 1) up want db else Inr name)"

definition free_folder_name :: "uuid \<Rightarrow> string \<Rightarrow> db \<Rightarrow> api_error + node_name" where
  "free_folder_name up want db = free_name_from MAX_ATTEMPTS 1 up want db"

definition hand_over :: "crates \<Rightarrow> timestamp \<Rightarrow> int \<Rightarrow> user \<Rightarrow> user \<Rightarrow> db \<Rightarrow> api_error + db" where
  "hand_over C now quota_bytes leaving recipient db =
     (case find (\<lambda>n. n_owner n = u_id leaving \<and> n_parent n = None) (nodes db) of
        None \<Rightarrow> Inr db
      | Some old \<Rightarrow>
          rbind (ensure_root C now (u_id recipient) quota_bytes db) (\<lambda>(root, db1).
          rbind (free_folder_name (n_id root) (folder_name leaving) db1) (\<lambda>name.
          rbind (create_directories C now (u_id recipient) root [name] db1) (\<lambda>(folder, db2).
          rbind (map_err Database (store_nodes (map (\<lambda>n. if n_parent n = Some (n_id old)
              then n\<lparr>n_parent := Some (n_id folder)\<rparr> else n) (nodes db2)) db2)) (\<lambda>db3.
          rbind (map_err Database (store_nodes (map (\<lambda>n. if n_owner n = u_id leaving \<and> n_id n \<noteq> n_id old
              then n\<lparr>n_owner := u_id recipient\<rparr> else n) (nodes db3)) db3)) (\<lambda>db4.
          charge_quota (u_id recipient) (used db4 (u_id leaving)) db4))))))"

definition held_blobs :: "uuid \<Rightarrow> db \<Rightarrow> blob_hash list" where
  "held_blobs owner db =
     (let rows = filter (\<lambda>n. n_owner n = owner) (nodes db)
      in List.map_filter n_blob rows @ blobs_under (map n_id rows) db)"

text \<open>\<open>DELETE FROM users\<close>, with what references the account and the nodes it owns.\<close>

definition delete_user :: "uuid \<Rightarrow> db \<Rightarrow> db" where
  "delete_user i db =
     (let owned = map n_id (filter (\<lambda>n. n_owner n = i) (nodes db));
          db1 = drop_nodes ((cascade_once (nodes db) ^^ length (nodes db)) owned) db
      in db1\<lparr>users := filter (\<lambda>u. u_id u \<noteq> i) (users db1),
             quotas := filter (\<lambda>q. q_owner q \<noteq> i) (quotas db1),
             grants := filter (\<lambda>g. g_created_by g \<noteq> i) (grants db1),
             locks := filter (\<lambda>l. l_owner l \<noteq> i) (locks db1),
             shares := filter (\<lambda>s. s_created_by s \<noteq> i) (shares db1),
             sessions := filter (\<lambda>x. x_user x \<noteq> i) (sessions db1),
             app_passwords := filter (\<lambda>p. ap_user p \<noteq> i) (app_passwords db1),
             uploads := filter (\<lambda>u. up_owner u \<noteq> i) (uploads db1)\<rparr>)"

definition remove_account :: "crates \<Rightarrow> timestamp \<Rightarrow> uuid \<Rightarrow> uuid option \<Rightarrow> int \<Rightarrow> db \<Rightarrow> api_error + db" where
  "remove_account C now i hand_over_to quota_bytes db =
     rbind (by_id_in i db) (\<lambda>leaving.
     rbind (empty_trash now i db) (\<lambda>(purged, db1).
     rbind (case hand_over_to of
         None \<Rightarrow> Inr db1
       | Some r \<Rightarrow> rbind (by_id_in r db1) (\<lambda>recipient.
           if \<not> is_active recipient \<or> \<not> may_write recipient
           then Inl (WrongKind ''active account that can write to hand the files to'')
           else hand_over C now quota_bytes leaving recipient db1)) (\<lambda>db2.
     let held = held_blobs i db2;
         db3 = db2\<lparr>grants := filter (\<lambda>g. g_email g \<noteq> u_email leaving) (grants db2)\<rparr>
     in Inr (fold (release_blob now) held (delete_user i db3)))))"

definition delete_account :: "crates \<Rightarrow> app_state \<Rightarrow> timestamp \<Rightarrow> user \<Rightarrow> uuid \<Rightarrow> uuid option \<Rightarrow> db \<Rightarrow> unit answer" where
  "delete_account C st now caller i hand_over_to db =
     (if u_id caller = i then (Inl (WrongKind ''account other than your own''), db)
      else if hand_over_to = Some i
      then (Inl (WrongKind ''account other than the one being deleted to hand the files to''), db)
      else execute (remove_account C now i hand_over_to (default_quota_bytes st)) db)"

section \<open>The name of the folder\<close>

lemma cleaned_head: "cleaned (c # s) \<noteq> [] \<and> (hd (cleaned (c # s)) = c \<or> hd (cleaned (c # s)) = CHR ''-'')"
  by (cases s) auto

lemma cleaned_harmless:
  "\<not> has_control (cleaned s) \<and> slash \<notin> set (cleaned s) \<and> backslash \<notin> set (cleaned s)"
proof (induction s rule: cleaned.induct)
  case (3 c d cs)
  let ?pair = "(of_char c :: nat) = 194 \<and> 128 \<le> (of_char d :: nat) \<and> (of_char d :: nat) \<le> 159"
  have dash: "\<not> ascii_control CHR ''-''" "(of_char CHR ''-'' :: nat) = 45" "CHR ''-'' \<noteq> slash" "CHR ''-'' \<noteq> backslash"
    by (simp_all add: ascii_control_def)
  have front: "\<not> has_control (x # t)" if "\<not> has_control t" "\<not> ascii_control x"
    "(of_char x :: nat) = 194 \<Longrightarrow> t = [] \<or> \<not> (128 \<le> (of_char (hd t) :: nat) \<and> (of_char (hd t) :: nat) \<le> 159)" for x t
    using that by (cases t) auto
  show ?case
  proof (cases ?pair)
    case True
    have "\<not> has_control (CHR ''-'' # cleaned cs)"
      by (rule front) (use 3(1) [OF True] dash in simp_all)
    with 3(1) [OF True] True dash show ?thesis by simp
  next
    case False
    let ?x = "if c = slash \<or> c = backslash \<or> ascii_control c then CHR ''-'' else c"
    have "\<not> has_control (?x # cleaned (d # cs))"
      by (rule front) (use 3(2) [OF False] False cleaned_head [of d cs] dash in \<open>auto split: if_splits\<close>)
    moreover have "cleaned (c # d # cs) = ?x # cleaned (d # cs)"
      by (subst cleaned.simps) (simp only: False if_False)
    moreover have "?x \<noteq> slash" "?x \<noteq> backslash" using dash by auto
    ultimately show ?thesis using 3(2) [OF False] by simp
  qed
qed (auto simp: ascii_control_def)


text \<open>The folder's name with any of the numbers is a name.\<close>

lemma fitted_length: "length (fitted who) \<le> MAX_FOLDER_NAME_BYTES"
  using floor_boundary_le [of "cleaned who" "min (length (cleaned who)) MAX_FOLDER_NAME_BYTES"]
  by (simp add: fitted_def Let_def)

lemma fitted_harmless: "\<not> has_control (fitted who) \<and> slash \<notin> set (fitted who) \<and> backslash \<notin> set (fitted who)"
proof -
  obtain k where k: "fitted who = take k (cleaned who)" by (auto simp: fitted_def Let_def)
  from has_control_take [of k "cleaned who"] in_set_takeD [of slash k "cleaned who"]
    in_set_takeD [of backslash k "cleaned who"] cleaned_harmless [of who]
  show ?thesis unfolding k by blast
qed

lemma decimal_small: "k \<le> MAX_ATTEMPTS \<Longrightarrow> length (decimal k) \<le> 4"
  using decimal_length [of k 3] by (simp add: MAX_ATTEMPTS_def)

lemma numbered_folder_valid:
  assumes "k \<le> MAX_ATTEMPTS"
  shows "valid_name (fitted who @ '' '' @ decimal k)"
proof -
  have d: "list_all (\<lambda>c. 32 \<le> (of_char c :: nat) \<and> (of_char c :: nat) < 127) ('' '' @ decimal k)"
    using decimal_digits [of _ k] by (auto simp: list_all_iff dest: decimal_digits)
  then have "\<not> has_control (CHR '' '' # decimal k)" using has_control_ascii [of "'' '' @ decimal k"] by simp
  then have "\<not> has_control (fitted who @ CHR '' '' # decimal k)"
    using has_control_append [of "fitted who" "CHR '' ''" "decimal k"] fitted_harmless [of who] by auto
  moreover have "slash \<notin> set (decimal k)" "backslash \<notin> set (decimal k)"
    using decimal_digits [of slash k] decimal_digits [of backslash k] by auto
  moreover have "length (fitted who @ '' '' @ decimal k) \<le> MAX_NAME_LEN"
    using fitted_length [of who] decimal_small [OF assms]
    by (simp add: MAX_FOLDER_NAME_BYTES_def NUMBERED_SUFFIX_def MAX_NAME_LEN_def)
  moreover have "fitted who @ '' '' @ decimal k \<notin> {''.'', ''..''}"
  proof -
    have "CHR '' '' \<in> set (fitted who @ '' '' @ decimal k)" "CHR '' '' \<notin> set ''.''" "CHR '' '' \<notin> set ''..''" by simp_all
    then show ?thesis by (metis insert_iff empty_iff)
  qed
  ultimately show ?thesis using fitted_harmless [of who] by (simp add: valid_name_iff)
qed


section \<open>What the account holds is gone\<close>

text \<open>Everything balances but the usage of one account.\<close>

definition sound_but :: "uuid \<Rightarrow> db \<Rightarrow> bool" where
  "sound_but i db \<longleftrightarrow> schema_ok db \<and> thumbnails_ok db \<and> tree_ok db
     \<and> (\<forall>h. ref_drift db h = 0) \<and> (\<forall>x. x \<noteq> i \<longrightarrow> use_drift db x = 0)"

lemma sound_sound_but: "sound db \<Longrightarrow> sound_but i db"
  by (simp add: sound_def sound_but_def balanced_drift)

lemma owner_above:
  assumes t: "tree_rows ns" and "(i, j) \<in> (below all_rows ns)\<^sup>*"
    and "n \<in> set ns" "n_id n = i" "m \<in> set ns" "n_id m = j"
  shows "n_owner m = n_owner n"
  using assms(2-)
proof (induction arbitrary: n rule: converse_rtrancl_induct)
  case base
  then have "m = n" using distinct_key_eq [of n_id ns m n] tree_rows_forest [OF t] by (simp add: forest_def)
  then show ?case by simp
next
  case (step i p)
  from step(1) obtain c where c: "c \<in> set ns" "n_id c = i" "n_parent c = Some p" by (auto simp: below_def)
  with step(4,5) distinct_key_eq [of n_id ns c n] tree_rows_forest [OF t] have e: "c = n" by (simp add: forest_def)
  from c(1,3) tree_rows_forest [OF t] obtain q where q: "q \<in> set ns" "n_id q = p" by (fastforce simp: forest_def)
  from step(3) [OF q step(6,7)] tree_rows_hangs [OF t c(1) q(1)] c(3) q(2) e show ?case by (simp add: hangs_def)
qed

lemma owned_closed:
  fixes i :: uuid
  assumes t: "tree_rows ns"
  defines "ids \<equiv> map n_id (filter (\<lambda>n. n_owner n = i) ns)"
  shows "(cascade_once ns ^^ k) ids = ids"
proof -
  have d: "distinct (map n_id ns)" using tree_rows_forest [OF t] by (simp add: forest_def)
  have mem: "n_id n \<in> set ids \<longleftrightarrow> n_owner n = i" if "n \<in> set ns" for n
    using that distinct_key_eq [OF d] by (auto simp: ids_def)
  have up: "n_owner n = i" if n: "n \<in> set ns" and j: "j \<in> set ids" "(n_id n, j) \<in> (below all_rows ns)\<^sup>*" for n j
  proof -
    from j(1) obtain m where m: "m \<in> set ns" "n_id m = j" "n_owner m = i" by (auto simp: ids_def)
    from owner_above [OF t j(2) n refl m(1,2)] m(3) show ?thesis by simp
  qed
  have "cascade_once ns ids = ids"
    unfolding cascade_once_def
  proof (subst (3) ids_def, intro arg_cong [of _ _ "map n_id"] filter_cong refl)
    fix n assume n: "n \<in> set ns"
    have "n_owner n = i" if "n_parent n = Some p" "p \<in> set ids" for p
      by (rule up [OF n that(2)]) (use n that(1) in \<open>auto simp: below_def\<close>)
    moreover have "n_owner n = i" if "n_trash_root n = Some r" "r \<in> set ids" for r
      by (rule up [OF n that(2)]) (use batches_above_tree [OF t] n that(1) in \<open>auto simp: batches_above_def\<close>)
    ultimately show "(n_id n \<in> set ids \<or> (case n_parent n of Some p \<Rightarrow> p \<in> set ids | None \<Rightarrow> False)
        \<or> (case n_trash_root n of Some r \<Rightarrow> r \<in> set ids | None \<Rightarrow> False)) \<longleftrightarrow> n_owner n = i"
      using mem [OF n] by (auto split: option.splits)
  qed
  then show ?thesis by (induction k) simp_all
qed


lemma count_map_filter: "int (count_list (List.map_filter f xs) h) = count_rows (\<lambda>x. f x = Some h) xs"
  by (induction xs) (auto simp: List.map_filter_simps split: option.splits)

lemma count_rows_filter: "count_rows P (filter Q xs) = count_rows (\<lambda>x. Q x \<and> P x) xs"
  by (induction xs) auto

lemma count_rows_apart: "count_rows P (filter (\<lambda>x. \<not> Q x) xs) = count_rows P xs - count_rows (\<lambda>x. Q x \<and> P x) xs"
  by (induction xs) auto

lemma delete_user_rows:
  fixes i :: uuid
  assumes "tree_rows (nodes db)"
  defines "ids \<equiv> map n_id (filter (\<lambda>n. n_owner n = i) (nodes db))"
  shows "nodes (delete_user i db) = filter (\<lambda>n. n_owner n \<noteq> i) (nodes db)"
    and "versions (delete_user i db) = filter (\<lambda>v. v_node v \<notin> set ids) (versions db)"
    and "quotas (delete_user i db) = filter (\<lambda>q. q_owner q \<noteq> i) (quotas db)"
    and "users (delete_user i db) = filter (\<lambda>u. u_id u \<noteq> i) (users db)"
    and "blobs (delete_user i db) = blobs db" and "thumbnails (delete_user i db) = thumbnails db"
proof -
  have d: "distinct (map n_id (nodes db))" using tree_rows_forest [OF assms(1)] by (simp add: forest_def)
  have "n_id n \<in> set ids \<longleftrightarrow> n_owner n = i" if "n \<in> set (nodes db)" for n
    using that distinct_key_eq [OF d] by (auto simp: ids_def)
  then have "filter (\<lambda>n. n_id n \<notin> set ids) (nodes db) = filter (\<lambda>n. n_owner n \<noteq> i) (nodes db)"
    by (intro filter_cong) auto
  with owned_closed [OF assms(1), of "length (nodes db)" i, folded ids_def]
  show "nodes (delete_user i db) = filter (\<lambda>n. n_owner n \<noteq> i) (nodes db)"
    and "versions (delete_user i db) = filter (\<lambda>v. v_node v \<notin> set ids) (versions db)"
    by (simp_all add: delete_user_def Let_def drop_nodes_def ids_def [symmetric])
qed (simp_all add: delete_user_def Let_def drop_nodes_def)

lemma used_without:
  "used (delete_user i db) x = (if x = i then 0 else used db x)" if "tree_rows (nodes db)"
proof -
  have "find (\<lambda>q. q_owner q = y) (filter (\<lambda>q. q_owner q \<noteq> i) qs) = (if y = i then None else find (\<lambda>q. q_owner q = y) qs)" for y and qs :: "quota list"
    by (induction qs) auto
  then show ?thesis by (simp add: used_def find_quota_def delete_user_rows [OF that])
qed

lemma delete_account_sound:
  assumes s: "sound_but i db"
  shows "sound (fold (release_blob now) (held_blobs i db) (delete_user i db))"
proof -
  let ?ids = "map n_id (filter (\<lambda>n. n_owner n = i) (nodes db))"
  let ?db1 = "delete_user i db" and ?held = "held_blobs i db"
  let ?db2 = "fold (release_blob now) ?held ?db1"
  have ok: "schema_ok db" "thumbnails_ok db" "tree_ok db" and r0: "\<And>h. ref_drift db h = 0"
    and u0: "\<And>x. x \<noteq> i \<Longrightarrow> use_drift db x = 0"
    using s by (simp_all add: sound_but_def)
  have t: "tree_rows (nodes db)" using ok(3) by (simp add: tree_ok_def)
  have d: "distinct (map n_id (nodes db))" using tree_rows_forest [OF t] by (simp add: forest_def)
  have nok: "nodes_ok db" by (rule schema_okD(1) [OF ok(1)])
  have mem: "n_id n \<in> set ?ids \<longleftrightarrow> n_owner n = i" if "n \<in> set (nodes db)" for n
    using that distinct_key_eq [OF d] by auto
  note rows = delete_user_rows [OF t, of i]
  let ?P = "\<lambda>n. n_owner n \<noteq> i"
  have kept: "j \<in> n_id ` set (filter ?P (nodes db))"
    if n: "n \<in> set (nodes db)" "?P n" and j: "j \<in> n_id ` set (nodes db)" "(n_id n, j) \<in> (below all_rows (nodes db))\<^sup>*" for n j
  proof -
    from j(1) obtain m where m: "m \<in> set (nodes db)" "n_id m = j" by auto
    with owner_above [OF t j(2) n(1) refl m] n(2) show ?thesis by auto
  qed
  have kept_parent: "p \<in> n_id ` set (filter ?P (nodes db))"
    if n: "n \<in> set (nodes db)" "?P n" "n_parent n = Some p" for n p
    by (rule kept [OF n(1,2) nodes_ok_parent [OF nok n(1,3)]]) (use n in \<open>auto simp: below_def\<close>)
  have kept_root: "r \<in> n_id ` set (filter ?P (nodes db))"
    if n: "n \<in> set (nodes db)" "?P n" "n_trash_root n = Some r" for n r
    by (rule kept [OF n(1,2)])
       (use nok n batches_above_tree [OF t] in \<open>auto simp: batches_above_def nodes_ok_def nodes_violation_None\<close>)
  have v0: "nodes_violation (map u_id (users db)) (map b_hash (blobs db)) (filter ?P (nodes db)) = None"
    by (rule nodes_violation_filter [OF _ kept_parent kept_root]) (use nok in \<open>simp add: nodes_ok_def\<close>)
  have nok1: "nodes_ok ?db1"
    using v0 by (auto simp: nodes_ok_def rows nodes_violation_None)
  have vok: "versions_ok ?db1"
    using schema_okD(4) [OF ok(1)] mem by (fastforce simp: versions_ok_def rows list_all_iff distinct_map intro: inj_on_subset)
  have ok1: "schema_ok ?db1"
    using nok1 vok ok(1) by (auto simp: schema_ok_def blobs_ok_def quotas_ok_def rows list_all_iff distinct_map intro: inj_on_subset)
  have st1: "stored_refs ?db1 = stored_refs db" by (rule stored_refs_blobs [OF rows(5)])
  have held: "int (count_list ?held h) = count_rows (\<lambda>n. n_owner n = i \<and> n_blob n = Some h) (nodes db)
      + count_rows (\<lambda>v. v_node v \<in> set ?ids \<and> v_blob v = h) (versions db)" for h
    by (simp add: held_blobs_def Let_def count_list_append count_blobs_under count_map_filter count_rows_filter)
  have er1: "expected_references ?db1 h = expected_references db h - int (count_list ?held h)" for h
    unfolding held by (simp add: expected_references_def rows count_rows_apart)
  have le: "int (count_list ?held h) \<le> stored_refs ?db1 h" for h
  proof -
    have "0 \<le> expected_references ?db1 h" by (simp add: expected_references_def)
    then show ?thesis using er1 [of h] r0 [of h] st1 by (simp add: ref_drift_def)
  qed
  have sr2: "stored_refs ?db2 h = expected_references ?db2 h" for h
  proof -
    have "stored_refs ?db2 h = stored_refs db h - int (count_list ?held h)"
      using blob_ledger.releases_count [OF schema_okD(2) [OF ok1] le] st1 by simp
    moreover have "expected_references ?db2 h = expected_references ?db1 h" by (simp add: expected_references_def)
    ultimately show ?thesis using er1 r0 [of h] by (simp add: ref_drift_def)
  qed
  have heldb: "held_bytes (versions ?db1) (n_id m) = held_bytes (versions db) (n_id m)"
    if "m \<in> set (nodes db)" "?P m" for m
    unfolding rows held_bytes_def sum_rows_filter by (intro sum_rows_cong) (use that mem in auto)
  have "expected_usage ?db1 x = (if x = i then 0 else expected_usage db x)" for x
  proof -
    have "sum_rows (row_share (versions ?db1) x) (filter ?P (nodes db))
        = (if x = i then 0 else sum_rows (row_share (versions db) x) (nodes db))"
      unfolding sum_rows_filter
      by (cases "x = i") (auto simp: row_share_def cost_def heldb intro!: sum_rows_cong sum_rows_zero)
    then show ?thesis using expected_usage_shares [OF nok1] expected_usage_shares [OF nok] by (simp add: rows)
  qed
  moreover have "expected_usage ?db2 = expected_usage ?db1" by (simp add: fun_eq_iff expected_usage_def)
  ultimately have bal: "balanced ?db2"
    using sr2 u0 by (auto simp: balanced_def used_without [OF t] use_drift_def)
  have "tree_rows (filter ?P (nodes db))"
  proof (rule tree_rowsI)
    show "forest (filter ?P (nodes db))" by (rule forest_subset [OF tree_rows_forest [OF t] kept_parent])
  qed (use tree_rows_hangs [OF t] tree_rows_root [OF t] in auto)
  moreover have "files_versioned db" using ok(3) by (simp add: tree_ok_split)
  ultimately have tree: "tree_ok ?db2" by (auto simp: tree_ok_split files_versioned_def rows)
  have "map b_hash (blobs ?db2) = map b_hash (blobs db)" by (simp add: rows del: map_map)
  then have "thumbnails_ok ?db2" using ok(2) by (simp add: thumbnails_ok_def has_blob_def rows del: map_map)
  with bal schema_ok_releases [OF ok1] tree show ?thesis by (simp add: sound_def)
qed

section \<open>Handing over\<close>

text \<open>Making the folder adds live directories of the recipient.\<close>

definition furnished :: "uuid \<Rightarrow> db \<Rightarrow> db \<Rightarrow> bool" where
  "furnished b db db' \<longleftrightarrow> (\<exists>ns. nodes db' = nodes db @ ns \<and> (\<forall>n\<in>set ns. n_owner n = b \<and> live n \<and> n_trash_root n = None))
     \<and> versions db' = versions db"

lemma furnished_refl [simp]: "furnished b db db"
  by (simp add: furnished_def)

lemma furnished_trans: "furnished b db db1 \<Longrightarrow> furnished b db1 db2 \<Longrightarrow> furnished b db db2"
  by (auto simp: furnished_def)

lemma furnished_insert:
  "insert_node n db = Inr db' \<Longrightarrow> n_owner n = b \<Longrightarrow> n_deleted n = None \<Longrightarrow> n_trash_root n = None \<Longrightarrow> furnished b db db'"
  by (auto simp: furnished_def insert_node_def store_nodes_eq_Inr live_def)

lemma furnished_now [simp]: "furnished b (snd (now_v7 db)) db' = furnished b db db'"
  by (simp add: furnished_def)

lemma insert_quota_furnished: "insert_quota owner bytes db = Inr db' \<Longrightarrow> furnished b db db'"
  by (auto simp: insert_quota_def furnished_def split: if_splits)

lemma ensure_root_furnished:
  assumes "ensure_root C now b quota_bytes db = Inr (root, db')"
  shows "furnished b db db'"
proof -
  obtain db1 where q: "insert_quota b quota_bytes db = Inr db1"
    using assms by (auto simp: ensure_root_def rbind_eq_Inr)
  let ?db3 = "snd (now_v7 (snd (now_v7 db1)))"
  have "db' = ?db3 \<or> (\<exists>m. insert_node m ?db3 = Inr db' \<and> n_owner m = b \<and> n_deleted m = None \<and> n_trash_root m = None)"
    using assms q by (fastforce simp: ensure_root_def etag_for_directory_def case_prod_unfold Let_def rbind_eq_Inr
        split: sum.splits db_error.splits)
  then have "furnished b db1 db'"
  proof
    assume "db' = ?db3"
    then show ?thesis by (simp add: furnished_def)
  next
    assume "\<exists>m. insert_node m ?db3 = Inr db' \<and> n_owner m = b \<and> n_deleted m = None \<and> n_trash_root m = None"
    then obtain m where "insert_node m ?db3 = Inr db'" "n_owner m = b" "n_deleted m = None" "n_trash_root m = None" by blast
    from furnished_insert [OF this] show ?thesis by simp
  qed
  with insert_quota_furnished [OF q] show ?thesis by (rule furnished_trans)
qed

lemma insert_directory_furnished:
  "insert_directory C now b i name db = Inr (n, db') \<Longrightarrow> furnished b db db'"
  by (auto simp: insert_directory_def etag_for_directory_def case_prod_unfold Let_def furnished_insert
      split: sum.splits if_splits option.splits dest!: furnished_insert)
     (simp_all add: furnished_def)

lemma create_segments_furnished:
  "create_segments C now b cur path db = Inr (n, db') \<Longrightarrow> furnished b db db'"
proof (induction C now b cur path db rule: create_segments.induct)
  case (2 C now owner cur segment rest db)
  from 2(2) obtain m db1 where m: "(case child (n_id cur) segment db of
         Some existing \<Rightarrow> (if n_kind existing = Directory then Inr (existing, db)
           else Inl (Conflict (as_str segment)))
       | None \<Rightarrow> insert_directory C now owner (n_id cur) segment db) = Inr (m, db1)"
    and rest: "create_segments C now owner m rest db1 = Inr (n, db')"
    by (auto simp: rbind_eq_Inr)
  have "furnished owner db db1"
    using m insert_directory_furnished by (auto split: option.splits if_splits)
  from furnished_trans [OF this 2(1) [OF rest]] show ?case .
qed simp

text \<open>The rows of one account go below a folder of another.\<close>

lemma acyclic_handed:
  assumes r: "acyclic r" "finite r" and f: "(f :: 'a) \<notin> A"
    and A: "\<And>x y. (x, y) \<in> r \<Longrightarrow> x \<in> A \<longleftrightarrow> y \<in> A"
    and s: "s \<subseteq> r \<union> A \<times> {f}" "finite s"
  shows "acyclic s"
proof -
  let ?b = "{(x, y) \<in> r. x \<in> A}" and ?c = "s \<inter> A \<times> {f}" and ?a = "{(x, y) \<in> r. x \<notin> A}"
  have "wf ?a" "wf ?b" using r by (auto intro!: finite_acyclic_wf intro: acyclic_subset finite_subset)
  moreover have "wf ?c"
  proof (rule finite_acyclic_wf)
    have "(x, y) \<in> ?c\<^sup>+ \<Longrightarrow> x \<in> A \<and> y = f" for x y by (induction rule: trancl_induct) auto
    then show "acyclic ?c" using f by (auto simp: acyclic_def)
  qed (use s(2) in simp)
  ultimately have a: "wf ?a" and bc: "wf (?b \<union> ?c)" using f A wf_Un [of ?b ?c] by auto
  have "Domain (?b \<union> ?c) \<inter> Range ?a = {}" using A by auto
  from wf_Un [OF bc a this] have "wf ((?b \<union> ?c) \<union> ?a)" .
  moreover have "s \<subseteq> (?b \<union> ?c) \<union> ?a" using s(1) by auto
  ultimately show ?thesis by (meson wf_acyclic acyclic_subset)
qed

definition handed :: "uuid \<Rightarrow> uuid \<Rightarrow> uuid \<Rightarrow> uuid \<Rightarrow> node \<Rightarrow> node" where
  "handed a b old folder n =
     (let m = (if n_parent n = Some old then n\<lparr>n_parent := Some folder\<rparr> else n)
      in if n_owner m = a \<and> n_id m \<noteq> old then m\<lparr>n_owner := b\<rparr> else m)"

lemma handed_simps [simp]:
  "n_id (handed a b old folder n) = n_id n" "n_name (handed a b old folder n) = n_name n"
  "n_kind (handed a b old folder n) = n_kind n" "n_blob (handed a b old folder n) = n_blob n"
  "n_size (handed a b old folder n) = n_size n" "n_deleted (handed a b old folder n) = n_deleted n"
  "n_trash_root (handed a b old folder n) = n_trash_root n" "live (handed a b old folder n) = live n"
  "n_etag (handed a b old folder n) = n_etag n" "n_created (handed a b old folder n) = n_created n"
  "n_parent (handed a b old folder n) = (if n_parent n = Some old then Some folder else n_parent n)"
  "n_owner (handed a b old folder n) = (if n_owner n = a \<and> n_id n \<noteq> old then b else n_owner n)"
  by (auto simp: handed_def Let_def live_def)

lemma tree_rows_handed:
  assumes t: "tree_rows ns" and old: "old \<in> set ns" "n_parent old = None" "n_owner old = a"
    and folder: "folder \<in> set ns" "n_kind folder = Directory" "live folder" "n_owner folder = b" and ab: "a \<noteq> b"
    and whole: "\<And>n. n \<in> set ns \<Longrightarrow> n_owner n = a \<Longrightarrow> n_trash_root n = None"
  shows "tree_rows (map (handed a b (n_id old) (n_id folder)) ns)"
proof (rule tree_rowsI)
  let ?g = "handed a b (n_id old) (n_id folder)"
  have f: "forest ns" by (rule tree_rows_forest [OF t])
  then have d: "distinct (map n_id ns)" and ac: "acyclic (below all_rows ns)"
    and par: "\<And>n p. n \<in> set ns \<Longrightarrow> n_parent n = Some p \<Longrightarrow> p \<in> n_id ` set ns" by (auto simp: forest_def)
  let ?A = "n_id ` {n \<in> set ns. n_owner n = a}"
  have mem: "n_id n \<in> ?A \<longleftrightarrow> n_owner n = a" if "n \<in> set ns" for n
    using that distinct_key_eq [OF d] by auto
  have sub: "below all_rows (map ?g ns) \<subseteq> below all_rows ns \<union> ?A \<times> {n_id folder}"
  proof (rule subrelI)
    fix x y assume "(x, y) \<in> below all_rows (map ?g ns)"
    then obtain n where n: "n \<in> set ns" "x = n_id n" "n_parent (?g n) = Some y" by (auto simp: below_def)
    show "(x, y) \<in> below all_rows ns \<union> ?A \<times> {n_id folder}"
    proof (cases "n_parent n = Some (n_id old)")
      case True
      with tree_rows_hangs [OF t n(1) old(1)] old(3) n show ?thesis by (auto simp: hangs_def)
    qed (use n in \<open>auto simp: below_def\<close>)
  qed
  have "acyclic (below all_rows (map ?g ns))"
  proof (rule acyclic_handed [OF ac finite_below _ _ sub finite_below])
    show "n_id folder \<notin> ?A" using mem [OF folder(1)] folder(4) ab by simp
    fix x y assume "(x, y) \<in> below all_rows ns"
    then obtain n where n: "n \<in> set ns" "x = n_id n" "n_parent n = Some y" by (auto simp: below_def)
    from par [OF n(1,3)] obtain m where m: "m \<in> set ns" "y = n_id m" by auto
    with tree_rows_hangs [OF t n(1) m(1)] n mem [OF n(1)] mem [OF m(1)] show "x \<in> ?A \<longleftrightarrow> y \<in> ?A"
      by (simp add: hangs_def)
  qed
  moreover have ids: "map n_id (map ?g ns) = map n_id ns" by simp
  then have "n_id ` set (map ?g ns) = n_id ` set ns" by (metis list.set_map)
  moreover have "p \<in> n_id ` set ns" if "n \<in> set (map ?g ns)" "n_parent n = Some p" for n p
    using that par folder(1) by (auto split: if_splits)
  ultimately show "forest (map ?g ns)" using d unfolding forest_def ids by auto
  show "hangs x y" if xy: "x \<in> set (map ?g ns)" "y \<in> set (map ?g ns)" "n_parent x = Some (n_id y)" for x y
  proof -
    from xy obtain n m where n: "n \<in> set ns" "x = ?g n" and m: "m \<in> set ns" "y = ?g m" by auto
    show ?thesis
    proof (cases "n_parent n = Some (n_id old)")
      case True
      with xy(3) n m have "n_id m = n_id folder" by simp
      then have e: "m = folder" using distinct_key_eq [OF d m(1) folder(1)] by simp
      have o: "n_owner n = a" using tree_rows_hangs [OF t n(1) old(1) True] old(3) by (simp add: hangs_def)
      have "n_id n \<noteq> n_id old" using distinct_key_eq [OF d n(1) old(1)] True old(2) by auto
      with e o whole [OF n(1) o] folder ab show ?thesis by (simp add: n m hangs_def)
    next
      case False
      with xy(3) n m have p: "n_parent n = Some (n_id m)" by simp
      have h: "hangs n m" by (rule tree_rows_hangs [OF t n(1) m(1) p])
      have "n_id n \<noteq> n_id old" using distinct_key_eq [OF d n(1) old(1)] p old(2) by auto
      moreover have "n_id m \<noteq> n_id old" using p False by simp
      ultimately show ?thesis using h by (simp add: n m hangs_def)
    qed
  qed
  show "heads x" if x: "x \<in> set (map ?g ns)" "n_parent x = None" for x
  proof -
    from x obtain n where n: "n \<in> set ns" "x = ?g n" by auto
    with x have "n_parent n = None" by (simp split: if_splits)
    from tree_rows_root [OF t n(1) this] show ?thesis by (simp add: n heads_def)
  qed
qed

section \<open>The emptied trash\<close>

text \<open>Emptying the trash of an account leaves what is live and what is another's.\<close>

definition history :: "uuid \<Rightarrow> db \<Rightarrow> version list" where
  "history i db = filter (\<lambda>v. v_node v = i) (versions db)"

definition spared :: "uuid \<Rightarrow> db \<Rightarrow> db \<Rightarrow> bool" where
  "spared owner db db' \<longleftrightarrow> (\<forall>m\<in>set (nodes db). live m \<or> n_owner m \<noteq> owner \<longrightarrow>
       m \<in> set (nodes db') \<and> history (n_id m) db' = history (n_id m) db)
     \<and> set (nodes db') \<subseteq> set (nodes db) \<and> users db' = users db"

lemma spared_refl [simp]: "spared owner db db"
  by (simp add: spared_def)

lemma spared_trans: "spared owner db db1 \<Longrightarrow> spared owner db1 db2 \<Longrightarrow> spared owner db db2"
  unfolding spared_def by (metis subset_trans)

lemma purge_spares:
  assumes s: "sound db" and p: "purge now owner i db = Inr db'"
  shows "spared owner db db'" and "i \<notin> n_id ` set (nodes db')"
proof -
  note ps = purge_sound [OF s p]
  from ps(2) obtain root where root: "root \<in> set (nodes db)" "n_id root = i" "n_owner root = owner" "n_trash_root root = Some i"
    by blast
  have dead: "\<not> live root"
    using node_checks_trash [OF nodes_ok_checks [OF soundD(5) [OF s] root(1)]] root(4) by (auto simp: live_def)
  have keep: "(n_id m, i) \<notin> (below all_rows (nodes db))\<^sup>*" if m: "m \<in> set (nodes db)" "live m \<or> n_owner m \<noteq> owner" for m
  proof
    assume b: "(n_id m, i) \<in> (below all_rows (nodes db))\<^sup>*"
    with below_trashed [OF s m(1) _ _ root(1)] root(2) dead have "\<not> live m" by auto
    moreover have "n_owner root = n_owner m" by (rule owner_above [OF soundD(7) [OF s] b m(1) refl root(1,2)])
    ultimately show False using m(2) root(3) by simp
  qed
  obtain ids where ids: "set ids = {j. (j, i) \<in> (below all_rows (nodes db))\<^sup>*}"
    "versions db' = filter (\<lambda>v. v_node v \<notin> set ids) (versions db)" "users db' = users db"
  proof -
    from p obtain held where h: "db' = fold (release_blob now) held (delete_node i db)"
      using root(2) that [of "_ @ _"] by (auto simp: purge_def rbind_eq_Inr Let_def simp del: fold_append dest!: trash_root_Inr(2))
    have "set (cascade (nodes db) i) = {j. (j, i) \<in> (below all_rows (nodes db))\<^sup>*}"
      using cascade_iff [OF soundD(7) [OF s]] root by blast
    then show thesis using that [of "cascade (nodes db) i"] h by (simp add: delete_node_def drop_nodes_def)
  qed
  have v: "history (n_id m) db' = history (n_id m) db"
    if "m \<in> set (nodes db)" "live m \<or> n_owner m \<noteq> owner" for m
  proof -
    have "n_id m \<notin> set ids" unfolding ids(1) using keep [OF that] by simp
    then show ?thesis unfolding history_def ids(2) filter_filter by (intro filter_cong refl) auto
  qed
  have ns: "set (nodes db') = {m \<in> set (nodes db). (n_id m, i) \<notin> (below all_rows (nodes db))\<^sup>*}"
    unfolding ps(3) by simp
  show "spared owner db db'" unfolding spared_def ns using keep v ids(3) by blast
  show "i \<notin> n_id ` set (nodes db')" unfolding ps(3) by auto
qed

lemma empty_roots_spares:
  "empty_roots now owner is k db = Inr (k', db') \<Longrightarrow> sound db \<Longrightarrow>
   spared owner db db' \<and> (\<forall>m\<in>set (nodes db'). n_owner m = owner \<and> n_trash_root m = Some (n_id m) \<longrightarrow> n_id m \<notin> set is)"
proof (induction now owner "is" k db rule: empty_roots.induct)
  case (2 now owner i "is" k db)
  show ?case
  proof (cases "purge now owner i db")
    case (Inl e)
    then have "find (\<lambda>n. n_id n = i \<and> n_owner n = owner \<and> n_trash_root n = Some i) (nodes db) = None"
      by (auto simp: purge_def trash_root_def Let_def rbind_eq_Inl ok_or_def split: option.splits)
    moreover have "e = NotFound" using 2(3) Inl by (cases e) auto
    with 2 Inl have r: "spared owner db db' \<and> (\<forall>m\<in>set (nodes db').
        n_owner m = owner \<and> n_trash_root m = Some (n_id m) \<longrightarrow> n_id m \<notin> set is)" by simp
    ultimately show ?thesis by (auto simp: find_None_set spared_def)
  next
    case (Inr db1)
    note p = purge_spares [OF 2(4) Inr]
    from 2 Inr purge_sound(1) [OF 2(4) Inr] have r: "spared owner db1 db' \<and> (\<forall>m\<in>set (nodes db').
        n_owner m = owner \<and> n_trash_root m = Some (n_id m) \<longrightarrow> n_id m \<notin> set is)" by simp
    with p(2) have "\<forall>m\<in>set (nodes db'). n_id m \<noteq> i" by (auto simp: spared_def)
    with r spared_trans [OF p(1)] show ?thesis by auto
  qed
qed simp

lemma empty_trash_spares:
  assumes s: "sound db" and e: "empty_trash now owner db = Inr (k, db')"
  shows "sound db'" and "spared owner db db'" and "\<And>n. n \<in> set (nodes db') \<Longrightarrow> n_owner n = owner \<Longrightarrow> live n"
proof -
  show s': "sound db'" by (rule empty_trash_sound [OF e s])
  note r = empty_roots_spares [OF e [unfolded empty_trash_def] s]
  then show "spared owner db db'" by simp
  fix n assume n: "n \<in> set (nodes db')" "n_owner n = owner"
  show "live n"
  proof (rule ccontr)
    assume "\<not> live n"
    then obtain j where j: "n_trash_root n = Some j"
      using node_checks_trash [OF nodes_ok_checks [OF soundD(5) [OF s'] n(1)]] by (auto simp: live_def)
    from batch_root_trashed [OF soundD(7) [OF s'] n(1) j] obtain x where
      x: "x \<in> set (nodes db')" "n_id x = j" "n_trash_root x = Some j" by blast
    have "(n_id n, j) \<in> (below all_rows (nodes db'))\<^sup>*"
      using batches_above_tree [OF soundD(7) [OF s']] n(1) j by (simp add: batches_above_def)
    from owner_above [OF soundD(7) [OF s'] this n(1) refl x(1,2)] n(2) have o: "n_owner x = owner" by simp
    have "x \<in> set (nodes db)" using r x(1) by (auto simp: spared_def)
    then have "j \<in> set (trash_roots owner db)" using o x(2,3) by (force simp: trash_roots_def)
    with r x o show False by auto
  qed
qed

section \<open>What is handed over\<close>

lemma root_above:
  assumes t: "tree_rows ns" and n: "n \<in> set ns"
  shows "\<exists>m\<in>set ns. n_parent m = None \<and> n_owner m = n_owner n"
proof -
  have f: "forest ns" by (rule tree_rows_forest [OF t])
  then have "wf ((below all_rows ns)\<inverse>)"
    by (intro finite_acyclic_wf_converse finite_below) (simp add: forest_def)
  then have "n_id n = i \<Longrightarrow> n \<in> set ns \<Longrightarrow> \<exists>m\<in>set ns. n_parent m = None \<and> n_owner m = n_owner n" for i n
  proof (induction i arbitrary: n rule: wf_induct_rule)
    case (less i)
    show ?case
    proof (cases "n_parent n")
      case (Some j)
      with less(3) f obtain p where p: "p \<in> set ns" "n_id p = j" by (fastforce simp: forest_def)
      have "(i, j) \<in> below all_rows ns" using less(2,3) Some by (auto simp: below_def)
      with less(1) [of j p] p obtain m where "m \<in> set ns" "n_parent m = None" "n_owner m = n_owner p" by auto
      moreover have "n_owner p = n_owner n"
        using tree_rows_hangs [OF t less(3) p(1)] Some p(2) by (simp add: hangs_def)
      ultimately show ?thesis by auto
    qed (use less(3) in blast)
  qed
  with n show ?thesis by blast
qed

text \<open>The two updates together, on whatever making the folder left.\<close>

lemma hand_over_Inr:
  assumes "hand_over C now quota_bytes leaving recipient db = Inr db'"
  obtains (rootless) "db' = db" "\<forall>n\<in>set (nodes db). n_owner n = u_id leaving \<longrightarrow> n_parent n \<noteq> None"
  | (folder) old root db1 name folder db2 db3 db4 where
    "old \<in> set (nodes db)" "n_owner old = u_id leaving" "n_parent old = None"
    "ensure_root C now (u_id recipient) quota_bytes db = Inr (root, db1)"
    "free_folder_name (n_id root) (folder_name leaving) db1 = Inr name"
    "create_directories C now (u_id recipient) root [name] db1 = Inr (folder, db2)"
    "store_nodes (map (\<lambda>n. if n_parent n = Some (n_id old) then n\<lparr>n_parent := Some (n_id folder)\<rparr> else n) (nodes db2)) db2 = Inr db3"
    "store_nodes (map (handed (u_id leaving) (u_id recipient) (n_id old) (n_id folder)) (nodes db2)) db3 = Inr db4"
    "charge_quota (u_id recipient) (used db4 (u_id leaving)) db4 = Inr db'"
proof (cases "find (\<lambda>n. n_owner n = u_id leaving \<and> n_parent n = None) (nodes db)")
  case None
  then have "db' = db" using assms by (simp add: hand_over_def)
  moreover have "\<forall>n\<in>set (nodes db). n_owner n = u_id leaving \<longrightarrow> n_parent n \<noteq> None"
    using None by (auto simp: find_None_set)
  ultimately show thesis by (rule rootless)
next
  case (Some old)
  note o = find_Some_set [OF Some]
  let ?g = "\<lambda>folder n. if n_parent n = Some (n_id old) then n\<lparr>n_parent := Some (n_id folder)\<rparr> else n"
  let ?h = "\<lambda>n. if n_owner n = u_id leaving \<and> n_id n \<noteq> n_id old then n\<lparr>n_owner := u_id recipient\<rparr> else n"
  from assms Some obtain root db1 name folder db2 db3 db4 where s:
    "ensure_root C now (u_id recipient) quota_bytes db = Inr (root, db1)"
    "free_folder_name (n_id root) (folder_name leaving) db1 = Inr name"
    "create_directories C now (u_id recipient) root [name] db1 = Inr (folder, db2)"
    "store_nodes (map (?g folder) (nodes db2)) db2 = Inr db3"
    "store_nodes (map ?h (nodes db3)) db3 = Inr db4"
    "charge_quota (u_id recipient) (used db4 (u_id leaving)) db4 = Inr db'"
    by (auto simp: hand_over_def rbind_eq_Inr)
  have "nodes db3 = map (?g folder) (nodes db2)" using s(4) by (auto simp: store_nodes_eq_Inr)
  then have "map ?h (nodes db3) = map (handed (u_id leaving) (u_id recipient) (n_id old) (n_id folder)) (nodes db2)"
    by (simp add: handed_def Let_def)
  with s(5) show thesis by (intro folder [OF _ _ _ s(1-4) _ s(6)]) (use o in auto)
qed

lemma handed_books:
  assumes s: "sound db" and old: "old \<in> set (nodes db)" "n_owner old = a" "n_parent old = None"
    and folder: "folder \<in> set (nodes db)" "n_kind folder = Directory" "live folder" "n_owner folder = b" and ab: "a \<noteq> b"
    and whole: "\<And>n. n \<in> set (nodes db) \<Longrightarrow> n_owner n = a \<Longrightarrow> live n"
    and db3: "db3 = db\<lparr>nodes := ns\<rparr>"
    and st: "store_nodes (map (handed a b (n_id old) (n_id folder)) (nodes db)) db3 = Inr db4"
    and ch: "charge_quota b (used db4 a) db4 = Inr db'"
  shows "sound_but a db'" and "nodes db' = map (handed a b (n_id old) (n_id folder)) (nodes db)"
    and "versions db' = versions db" and "users db' = users db"
proof -
  let ?g = "handed a b (n_id old) (n_id folder)"
  let ?db4 = "db\<lparr>nodes := map ?g (nodes db)\<rparr>"
  have st': "store_nodes (map ?g (nodes db)) db = Inr ?db4" and db4: "db4 = ?db4"
    using st by (simp_all add: store_nodes_eq_Inr db3)
  have ids: "map n_id (map ?g (nodes db)) = map n_id (nodes db)" by simp
  have sub: "n_id ` set (map ?g (nodes db)) = n_id ` set (nodes db)" by (metis ids list.set_map)
  note so = store_nodes_ok [OF soundD(1) [OF s] st', unfolded sub, OF order_refl]
  have tr: "n_trash_root n = None" if "n \<in> set (nodes db)" "n_owner n = a" for n
    using node_checks_trash [OF nodes_ok_checks [OF soundD(5) [OF s] that(1)]] whole [OF that] by (simp add: live_def)
  have rows: "tree_rows (nodes ?db4)"
    using tree_rows_handed [OF soundD(7) [OF s] old(1,3,2) folder ab tr] by simp
  have "n_kind x = File" if "v \<in> set (versions db)" "x \<in> set (map ?g (nodes db))" "n_id x = v_node v" for v x
    using that soundD(3) [OF s] by (auto simp: tree_ok_split files_versioned_def)
  then have tree: "tree_ok ?db4" using rows by (auto simp: tree_ok_split files_versioned_def)
  have kinds: "count_rows (\<lambda>n. n_blob n = Some h) (map ?g (nodes db)) = count_rows (\<lambda>n. n_blob n = Some h) (nodes db)" for h
    by (auto simp: count_rows_sum sum_rows_map intro!: sum_rows_cong)
  note dr = nodes_drift [OF soundD(5) [OF s] so(3)]
  have zero: "ref_drift db h = 0" "use_drift db x = 0" for h x
    using soundD(4) [OF s] by (simp_all add: balanced_drift)
  have cost0: "cost (versions db) old = 0"
  proof -
    have k: "n_kind old = Directory" using tree_rows_root [OF soundD(7) [OF s] old(1,3)] by (simp add: heads_def)
    have "v_node v \<noteq> n_id old" if "v \<in> set (versions db)" for v
      using soundD(3) [OF s] that old(1) k by (auto simp: tree_ok_split files_versioned_def)
    then show ?thesis
      using node_checks_directory [OF nodes_ok_checks [OF soundD(5) [OF s] old(1)] k] by (simp add: cost_def held_bytes_none)
  qed
  have share: "row_share vs x (?g n) = row_share vs x n" if "x \<noteq> a" "x \<noteq> b" for vs x n
    using that by (auto simp: row_share_def cost_def)
  have shareb: "row_share (versions db) b (?g n) = row_share (versions db) b n + row_share (versions db) a n"
    if n: "n \<in> set (nodes db)" for n
  proof (cases "n_id n = n_id old")
    case True
    then have "n = old" using distinct_key_eq [OF soundD(6) [OF s] n old(1)] by simp
    with old(2) ab cost0 show ?thesis by (simp add: row_share_def cost_def)
  qed (use ab in \<open>auto simp: row_share_def cost_def\<close>)
  have u4: "use_drift ?db4 x = 0" if "x \<noteq> a" "x \<noteq> b" for x
    unfolding dr(1) zero(2) using share [OF that] by (simp add: sum_rows_map comp_def)
  have "sum_rows (row_share (versions db) b) (map ?g (nodes db))
      = sum_rows (row_share (versions db) b) (nodes db) + sum_rows (row_share (versions db) a) (nodes db)"
    unfolding sum_rows_map sum_rows_add [symmetric] by (intro sum_rows_cong) (use shareb in simp)
  then have ub: "use_drift ?db4 b = - sum_rows (row_share (versions db) a) (nodes db)"
    unfolding dr(1) zero(2) by simp
  have "used ?db4 a = sum_rows (row_share (versions db) a) (nodes db)"
    using zero(2) [of a] expected_usage_shares [OF soundD(5) [OF s]] used_quotas [of ?db4 db] by (simp add: use_drift_def)
  with ub have ub: "use_drift ?db4 b = - used ?db4 a" by simp
  from charge_moved [OF schema_okD(3) [OF so(1)] ch [unfolded db4]]
  have c: "\<And>h. ref_drift db' h = ref_drift ?db4 h" "\<And>x. use_drift db' x = use_drift ?db4 x + at_key b (used ?db4 a) x"
    and same: "nodes db' = nodes ?db4" "thumbnails db' = thumbnails db" "map b_hash (blobs db') = map b_hash (blobs db)"
    by (simp_all add: moved_def)
  have "ref_drift db' h = 0" for h unfolding c(1) dr(2) zero(1) kinds by simp
  moreover have "use_drift db' x = 0" if "x \<noteq> a" for x
    using u4 [of x] that ub by (cases "x = b") (simp_all add: c(2) at_key_def)
  moreover have "schema_ok db'" by (rule schema_ok_charge [OF so(1) ch [unfolded db4]])
  moreover have "thumbnails_ok db'" using soundD(2) [OF s] same(2,3) by (simp add: thumbnails_ok_def has_blob_def del: map_map)
  moreover have "tree_ok db'"
    using tree charge_quota_frame(3) [OF ch] same(1) by (simp add: tree_ok_split files_versioned_def db4)
  ultimately show "sound_but a db'" by (simp add: sound_but_def)
  show "nodes db' = map ?g (nodes db)" "versions db' = versions db" "users db' = users db"
    using charge_quota_frame [OF ch] by (simp_all add: db4)
qed

lemma spared_kept:
  assumes "spared owner db db'" and "m \<in> set (nodes db)" and "live m \<or> n_owner m \<noteq> owner"
  shows "m \<in> set (nodes db')" and "history (n_id m) db' = history (n_id m) db"
  using assms by (auto simp: spared_def)

lemma free_name_from_Inr:
  "free_name_from left k up want db = Inr name \<Longrightarrow>
   (as_str name = want \<or> (\<exists>k. as_str name = want @ '' '' @ decimal k)) \<and> child up name db = None"
  by (induction left arbitrary: k) (auto simp: rbind_eq_Inr map_err_eq_Inr node_name_from_str_eq_Inr split: if_splits)

lemma insert_directory_name: "insert_directory C now b i name db = Inr (n, db') \<Longrightarrow> n_name n = as_str name"
  by (auto simp: insert_directory_def case_prod_unfold Let_def dest: child_Some(3)
      split: sum.splits if_splits option.splits)

lemma create_one_name:
  "create_directories C now b root [name] db = Inr (n, db') \<Longrightarrow> n_name n = as_str name"
  by (auto simp: create_directories_def rbind_eq_Inr dest: child_Some(3) insert_directory_name
      split: if_splits option.splits)

text \<open>A directory whose name was free is a row that was not there.\<close>

lemma create_one_new:
  assumes "sound db" and "home b (n_id root) db" and free: "child (n_id root) name db = None"
    and c: "create_directories C now b root [name] db = Inr (n, db')"
  shows "n_parent n = Some (n_id root)" and "list_all (\<lambda>m. n_id m \<noteq> n_id n) (nodes db)"
proof -
  from c free have i: "insert_directory C now b (n_id root) name db = Inr (n, db')"
    by (auto simp: create_directories_def rbind_eq_Inr split: if_splits)
  note d = insert_directory_sound [OF assms(1,2) i]
  show "n_parent n = Some (n_id root)" by (rule d(3))
  have "n \<notin> set (nodes db)"
    using free d(3-5) by (auto simp: child_def find_None_set)
  moreover have "m = n" if "m \<in> set (nodes db)" "n_id m = n_id n" for m
    using distinct_key_eq [OF soundD(6) [OF d(1)], of m n] d(2,7) that by auto
  ultimately show "list_all (\<lambda>m. n_id m \<noteq> n_id n) (nodes db)" by (auto simp: list_all_iff)
qed

text \<open>
  A new folder of the recipient for what an account leaves: no live row was there under its id, it is in
  the recipient's root, and it bears the name of who left.
\<close>

definition fresh_folder :: "user \<Rightarrow> uuid \<Rightarrow> db \<Rightarrow> db \<Rightarrow> node \<Rightarrow> bool" where
  "fresh_folder leaving r db db' f \<longleftrightarrow> n_owner f = r \<and> n_kind f = Directory \<and> live f
     \<and> starts_with (n_name f) (folder_name leaving)
     \<and> (\<forall>m\<in>set (nodes db). live m \<longrightarrow> n_id m \<noteq> n_id f)
     \<and> list_ex (\<lambda>top. n_parent f = Some (n_id top) \<and> n_parent top = None \<and> n_owner top = r) (nodes db')"

text \<open>What removing an account does to the rows: its own go, or go over.\<close>

definition arrives :: "user \<Rightarrow> uuid \<Rightarrow> db \<Rightarrow> db \<Rightarrow> node \<Rightarrow> bool" where
  "arrives leaving r db db' n \<longleftrightarrow> list_ex (\<lambda>m. n_id m = n_id n \<and> n_owner m = r \<and> live m \<and> n_name m = n_name n
     \<and> n_kind m = n_kind n \<and> n_blob m = n_blob n \<and> n_size m = n_size n
     \<and> history (n_id m) db' = history (n_id n) db
     \<and> (n_parent m = n_parent n \<or>
        list_ex (\<lambda>top. n_parent n = Some (n_id top) \<and> n_parent top = None) (nodes db)
        \<and> list_ex (\<lambda>f. n_parent m = Some (n_id f) \<and> fresh_folder leaving r db db' f) (nodes db'))) (nodes db')"

lemma arrives_from:
  assumes "arrives leaving b db1 db2 n" and sub: "set (nodes db1) \<subseteq> set (nodes db)"
    and there: "\<And>m. m \<in> set (nodes db) \<Longrightarrow> live m \<Longrightarrow> m \<in> set (nodes db1)"
    and "history (n_id n) db1 = history (n_id n) db"
  shows "arrives leaving b db db2 n"
proof -
  have f: "fresh_folder leaving b db db2 f" if "fresh_folder leaving b db1 db2 f" for f
    using that there unfolding fresh_folder_def by blast
  from assms(1) obtain m where m: "m \<in> set (nodes db2)" "n_id m = n_id n \<and> n_owner m = b \<and> live m \<and> n_name m = n_name n
     \<and> n_kind m = n_kind n \<and> n_blob m = n_blob n \<and> n_size m = n_size n \<and> history (n_id m) db2 = history (n_id n) db1"
    "n_parent m = n_parent n \<or>
        (\<exists>top\<in>set (nodes db1). n_parent n = Some (n_id top) \<and> n_parent top = None)
        \<and> (\<exists>f\<in>set (nodes db2). n_parent m = Some (n_id f) \<and> fresh_folder leaving b db1 db2 f)"
    unfolding arrives_def list_ex_iff by metis
  from m(3) sub f have "n_parent m = n_parent n \<or>
        (\<exists>top\<in>set (nodes db). n_parent n = Some (n_id top) \<and> n_parent top = None)
        \<and> (\<exists>f\<in>set (nodes db2). n_parent m = Some (n_id f) \<and> fresh_folder leaving b db db2 f)" by blast
  with m(1,2) assms(4) show ?thesis unfolding arrives_def list_ex_iff by metis
qed

lemma history_furnished: "furnished b db db' \<Longrightarrow> history i db' = history i db"
  by (simp add: furnished_def history_def)

lemma hand_over_spares:
  assumes s: "sound db" and h: "hand_over C now quota_bytes leaving recipient db = Inr db'"
    and ab: "u_id leaving \<noteq> u_id recipient" and whole: "\<And>n. n \<in> set (nodes db) \<Longrightarrow> n_owner n = u_id leaving \<Longrightarrow> live n"
  shows "sound_but (u_id leaving) db'"
    and "\<And>m. m \<in> set (nodes db) \<Longrightarrow> n_owner m \<noteq> u_id leaving \<Longrightarrow>
      m \<in> set (nodes db') \<and> history (n_id m) db' = history (n_id m) db"
    and "\<And>n. n \<in> set (nodes db) \<Longrightarrow> n_owner n = u_id leaving \<Longrightarrow> n_parent n \<noteq> None \<Longrightarrow>
      arrives leaving (u_id recipient) db db' n"
proof -
  let ?goal = "sound_but (u_id leaving) db' \<and>
      (\<forall>m. m \<in> set (nodes db) \<longrightarrow> n_owner m \<noteq> u_id leaving \<longrightarrow>
        m \<in> set (nodes db') \<and> history (n_id m) db' = history (n_id m) db) \<and>
      (\<forall>n. n \<in> set (nodes db) \<longrightarrow> n_owner n = u_id leaving \<longrightarrow> n_parent n \<noteq> None \<longrightarrow>
        arrives leaving (u_id recipient) db db' n)"
  have ?goal using h
  proof (cases (no_simp) rule: hand_over_Inr)
  case rootless
  have none: "n_owner n \<noteq> u_id leaving" if "n \<in> set (nodes db)" for n
    using root_above [OF soundD(7) [OF s] that] rootless(2) by auto
  with s rootless(1) sound_sound_but show ?thesis by auto
next
  case (folder old root db1 name folder db2 db3 db4)
  let ?a = "u_id leaving" and ?b = "u_id recipient"
  let ?g = "handed ?a ?b (n_id old) (n_id folder)"
  note er = ensure_root_sound [OF s folder(4)]
  from create_directories_sound [OF folder(6) er(1-3)]
  have s2: "sound db2" and hf: "home ?b (n_id folder) db2" and f2: "folder \<in> set (nodes db2)" by auto
  have fu: "furnished ?b db db2"
  proof (rule furnished_trans [OF ensure_root_furnished [OF folder(4)]])
    show "furnished ?b db1 db2"
      by (rule create_segments_furnished)
         (use folder(6) in \<open>simp add: create_directories_def del: create_segments.simps split: if_splits\<close>)
  qed
  then obtain ns where ns: "nodes db2 = nodes db @ ns" "\<forall>n\<in>set ns. n_owner n = ?b \<and> live n \<and> n_trash_root n = None"
    by (auto simp: furnished_def)
  have fo: "n_kind folder = Directory" "live folder" "n_owner folder = ?b"
    using hf sound_find [OF s2 f2] by (simp_all add: home_def)
  have wh: "live n" if "n \<in> set (nodes db2)" "n_owner n = ?a" for n
    using that ns ab whole by auto
  obtain ns3 where db3: "db3 = db2\<lparr>nodes := ns3\<rparr>" using folder(7) by (auto simp: store_nodes_eq_Inr)
  have old2: "old \<in> set (nodes db2)" using folder(1) ns(1) by simp
  have hb: "sound_but ?a db'" "nodes db' = map ?g (nodes db2)" "versions db' = versions db2"
    by (rule handed_books [OF s2 old2 folder(2,3) f2 fo ab _ db3 folder(8,9)], erule (1) wh)+
  have vs: "history i db' = history i db" for i
    using history_furnished [OF fu] hb(3) by (simp add: history_def)
  have other: "m \<in> set (nodes db')" if m: "m \<in> set (nodes db)" "n_owner m \<noteq> ?a" for m
  proof -
    have "n_parent m \<noteq> Some (n_id old)"
      using tree_rows_hangs [OF soundD(7) [OF s] m(1) folder(1)] m(2) folder(2) by (auto simp: hangs_def)
    then have "?g m = m" using m(2) by (simp add: handed_def Let_def)
    moreover have "?g m \<in> set (map ?g (nodes db @ ns))" using m(1) by simp
    ultimately show ?thesis unfolding hb(2) ns(1) by (simp only:)
  qed
  have fin: "?g folder \<in> set (nodes db')" unfolding hb(2) using f2 by simp
  have fresh: "fresh_folder leaving ?b db db' (?g folder)"
  proof -
    note fn = free_name_from_Inr [OF folder(5) [unfolded free_folder_name_def]]
    note new = create_one_new [OF er(1,2) fn [THEN conjunct2] folder(6)]
    obtain ms where ms: "nodes db1 = nodes db @ ms"
      using ensure_root_furnished [OF folder(4)] by (auto simp: furnished_def)
    have "starts_with (n_name folder) (folder_name leaving)"
      using fn create_one_name [OF folder(6)] by (auto simp: starts_with_def)
    moreover have "n_id m \<noteq> n_id folder" if "m \<in> set (nodes db)" for m
      using new(2) ms that by (simp add: list_all_iff)
    moreover have ro: "n_owner root = ?b" by (rule ensure_root_grants(2) [OF folder(4)])
    moreover have r2: "root \<in> set (nodes db2)"
      using create_segments_furnished [of C now ?b root "[name]" db1 folder db2] folder(6) er(3)
      by (auto simp: create_directories_def furnished_def simp del: create_segments.simps split: if_splits)
    moreover have "n_id root \<noteq> n_id old"
      using distinct_key_eq [OF soundD(6) [OF s2] r2 old2] ro folder(2) ab by auto
    ultimately have g: "n_parent (?g folder) = Some (n_id (?g root))" "n_parent (?g root) = None" "n_owner (?g root) = ?b"
      "?g root \<in> set (nodes db')"
      using new(1) er(4) ab unfolding hb(2) by simp_all
    moreover have "n_owner (?g folder) = ?b" "n_kind (?g folder) = Directory" "live (?g folder)" "n_id (?g folder) = n_id folder"
      "starts_with (n_name (?g folder)) (folder_name leaving)"
      using fo ab \<open>starts_with (n_name folder) (folder_name leaving)\<close> by simp_all
    ultimately show ?thesis using \<open>\<And>m. m \<in> set (nodes db) \<Longrightarrow> n_id m \<noteq> n_id folder\<close>
      unfolding fresh_folder_def list_ex_iff by metis
  qed
  have "arrives leaving ?b db db' n" if n: "n \<in> set (nodes db)" "n_owner n = ?a" "n_parent n \<noteq> None" for n
  proof -
    have "n_id n \<noteq> n_id old" using distinct_key_eq [OF soundD(6) [OF s] n(1) folder(1)] n(3) folder(3) by auto
    then have g: "n_id (?g n) = n_id n \<and> n_owner (?g n) = ?b \<and> live (?g n) \<and> n_name (?g n) = n_name n
        \<and> n_kind (?g n) = n_kind n \<and> n_blob (?g n) = n_blob n \<and> n_size (?g n) = n_size n \<and> history (n_id (?g n)) db' = history (n_id n) db"
      using n(2) whole [OF n(1,2)] vs by simp
    have gn: "?g n \<in> set (nodes db')" unfolding hb(2) ns(1) using n(1) by simp
    have "n_parent n = Some (n_id old) \<Longrightarrow> n_parent (?g n) = Some (n_id (?g folder))" by simp
    then have "n_parent (?g n) = n_parent n \<or>
        (\<exists>top\<in>set (nodes db). n_parent n = Some (n_id top) \<and> n_parent top = None)
        \<and> (\<exists>f\<in>set (nodes db'). n_parent (?g n) = Some (n_id f) \<and> fresh_folder leaving ?b db db' f)"
      using fin fresh folder(1,3) by (cases "n_parent n = Some (n_id old)") (blast, simp)
    with g gn show ?thesis unfolding arrives_def list_ex_iff by blast
  qed
  with hb(1) other vs show ?thesis by auto
  qed
  then show "sound_but (u_id leaving) db'"
    and "\<And>m. m \<in> set (nodes db) \<Longrightarrow> n_owner m \<noteq> u_id leaving \<Longrightarrow>
      m \<in> set (nodes db') \<and> history (n_id m) db' = history (n_id m) db"
    and "\<And>n. n \<in> set (nodes db) \<Longrightarrow> n_owner n = u_id leaving \<Longrightarrow> n_parent n \<noteq> None \<Longrightarrow>
      arrives leaving (u_id recipient) db db' n" by auto
qed

section \<open>Removing an account\<close>

lemma remove_account_Inr:
  assumes "remove_account C now i heir quota_bytes db = Inr db'"
  obtains leaving k db1 db2 gs where
    "by_id i db = Some leaving" "\<forall>g\<in>set gs. g_email g \<noteq> u_email leaving" "empty_trash now i db = Inr (k, db1)"
    "db2 = db1 \<and> heir = None \<or> (\<exists>r recipient. heir = Some r \<and> by_id r db1 = Some recipient
        \<and> may_write recipient \<and> hand_over C now quota_bytes leaving recipient db1 = Inr db2)"
    "db' = fold (release_blob now) (held_blobs i (db2\<lparr>grants := gs\<rparr>)) (delete_user i (db2\<lparr>grants := gs\<rparr>))"
proof -
  from assms obtain leaving k db1 db2 where
    "by_id i db = Some leaving" "empty_trash now i db = Inr (k, db1)"
    "(case heir of None \<Rightarrow> Inr db1 | Some r \<Rightarrow> rbind (by_id_in r db1) (\<lambda>recipient.
           if \<not> is_active recipient \<or> \<not> may_write recipient
           then Inl (WrongKind ''active account that can write to hand the files to'')
           else hand_over C now quota_bytes leaving recipient db1)) = Inr db2"
    "db' = fold (release_blob now) (held_blobs i db2)
       (delete_user i (db2\<lparr>grants := filter (\<lambda>g. g_email g \<noteq> u_email leaving) (grants db2)\<rparr>))"
    by (auto simp: remove_account_def by_id_in_def rbind_eq_Inr Let_def)
  moreover have "held_blobs i (db2\<lparr>grants := gs\<rparr>) = held_blobs i db2" for gs
    by (simp add: held_blobs_def blobs_under_def Let_def)
  ultimately show thesis
    by (intro that [of leaving "filter (\<lambda>g. g_email g \<noteq> u_email leaving) (grants db2)" k db1 db2])
       (auto simp: by_id_in_def rbind_eq_Inr split: option.splits if_splits)
qed

lemma sound_but_grants [simp]: "sound_but i (db\<lparr>grants := gs\<rparr>) = sound_but i db"
  by (simp add: sound_but_def schema_ok_def nodes_ok_def blobs_ok_def quotas_ok_def versions_ok_def
      thumbnails_ok_def has_blob_def tree_ok_def ref_drift_def use_drift_def stored_refs_def find_blob_def
      expected_references_def used_def find_quota_def expected_usage_def)

text \<open>Every way of removing an account, up to the last statements.\<close>

lemma remove_account_steps:
  assumes s: "sound db" and r: "remove_account C now i heir quota_bytes db = Inr db'" and h: "heir \<noteq> Some i"
  obtains leaving db2 gs where "by_id i db = Some leaving" "\<forall>g\<in>set gs. g_email g \<noteq> u_email leaving"
    "db' = fold (release_blob now) (held_blobs i (db2\<lparr>grants := gs\<rparr>)) (delete_user i (db2\<lparr>grants := gs\<rparr>))"
    "sound_but i db2"
    "\<And>m. m \<in> set (nodes db) \<Longrightarrow> n_owner m \<noteq> i \<Longrightarrow> m \<in> set (nodes db2) \<and> history (n_id m) db2 = history (n_id m) db"
    "\<And>b n. heir = Some b \<Longrightarrow> n \<in> set (nodes db) \<Longrightarrow> n_owner n = i \<Longrightarrow> live n \<Longrightarrow> n_parent n \<noteq> None \<Longrightarrow>
      arrives leaving b db db2 n"
  using r
proof (rule remove_account_Inr)
  fix leaving k db1 db2 gs
  assume gs: "\<forall>g\<in>set gs. g_email g \<noteq> u_email leaving"
    and a: "by_id i db = Some leaving" "empty_trash now i db = Inr (k, db1)"
    "db2 = db1 \<and> heir = None \<or> (\<exists>r recipient. heir = Some r \<and> by_id r db1 = Some recipient
        \<and> may_write recipient \<and> hand_over C now quota_bytes leaving recipient db1 = Inr db2)"
    "db' = fold (release_blob now) (held_blobs i (db2\<lparr>grants := gs\<rparr>)) (delete_user i (db2\<lparr>grants := gs\<rparr>))"
  have i: "u_id leaving = i" using by_id_Some [OF a(1)] by simp
  note e = empty_trash_spares [OF s a(2)]
  note kept = spared_kept [OF e(2)]
  from a(3) show thesis
  proof
    assume d: "db2 = db1 \<and> heir = None"
    show thesis
      by (rule that [OF a(1) gs a(4)]) (use d kept e(1) sound_sound_but in auto)
  next
    assume "\<exists>r recipient. heir = Some r \<and> by_id r db1 = Some recipient
        \<and> may_write recipient \<and> hand_over C now quota_bytes leaving recipient db1 = Inr db2"
    then obtain b recipient where d: "heir = Some b" "by_id b db1 = Some recipient"
      "hand_over C now quota_bytes leaving recipient db1 = Inr db2" by blast
    have b: "u_id recipient = b" using by_id_Some [OF d(2)] by simp
    have ne: "u_id leaving \<noteq> u_id recipient" using i b d(1) h by auto
    have wh: "live n" if "n \<in> set (nodes db1)" "n_owner n = u_id leaving" for n
      using e(3) that i by simp
    note hs = hand_over_spares [OF e(1) d(3) ne wh, unfolded i b]
    have "arrives leaving b db db2 n" if n: "n \<in> set (nodes db)" "n_owner n = i" "live n" "n_parent n \<noteq> None" for n
    proof -
      have m: "n \<in> set (nodes db1)" "history (n_id n) db1 = history (n_id n) db"
        using kept n(1,3) by auto
      have "set (nodes db1) \<subseteq> set (nodes db)" using e(2) by (simp add: spared_def)
      moreover have "arrives leaving b db1 db2 n" using hs(3) m(1) n(2,4) by blast
      ultimately show ?thesis using m(2) arrives_from [of leaving b db1 db2 n db] kept(1) by blast
    qed
    then show thesis
      by (intro that [OF a(1) gs a(4) hs(1)]) (use kept hs(2) d(1) in auto)
  qed
qed

lemma remove_account_sound:
  assumes "sound db" and "remove_account C now i heir quota_bytes db = Inr db'" and "heir \<noteq> Some i"
  shows "sound db'"
proof -
  from remove_account_steps [OF assms] obtain db2 gs where
    d: "db' = fold (release_blob now) (held_blobs i (db2\<lparr>grants := gs\<rparr>)) (delete_user i (db2\<lparr>grants := gs\<rparr>))"
    and s: "sound_but i db2" by metis
  show ?thesis unfolding d by (rule delete_account_sound) (use s in simp)
qed

lemma delete_user_keeps [simp]: "keeps d (delete_user i db) = keeps d db"
  by (simp add: delete_user_def Let_def)

lemma hand_over_keeps: "hand_over C now quota_bytes leaving recipient db = Inr db' \<Longrightarrow> keeps db db'"
  by (erule hand_over_Inr)
     (simp, drule ensure_root_keeps, drule create_directories_keeps, (drule store_nodes_keeps)+, drule charge_keeps, simp add: keeps_def)

lemma remove_account_keeps: "remove_account C now i heir quota_bytes db = Inr db' \<Longrightarrow> keeps db db'"
  by (erule remove_account_Inr) (auto dest!: empty_trash_keeps hand_over_keeps intro: keeps_trans)

lemma delete_account_kept:
  "sound db \<Longrightarrow> sound (snd (delete_account C st now caller i heir db))"
  "keeps db (snd (delete_account C st now caller i heir db))"
  by (auto simp: delete_account_def intro!: execute_sound keeps_execute dest: remove_account_sound remove_account_keeps)

lemma history_deleted:
  assumes "tree_rows (nodes db)" and "m \<in> set (nodes db)" and "n_owner m \<noteq> i"
  shows "history (n_id m) (fold (release_blob now) hs (delete_user i db)) = history (n_id m) db"
proof -
  let ?ids = "map n_id (filter (\<lambda>n. n_owner n = i) (nodes db))"
  have "distinct (map n_id (nodes db))" using tree_rows_forest [OF assms(1)] by (simp add: forest_def)
  from distinct_key_eq [OF this _ assms(2)] assms(3) have "n_id m \<notin> set ?ids" by auto
  then have "(v_node v \<notin> set ?ids \<and> v_node v = n_id m) = (v_node v = n_id m)" for v :: version by metis
  then show ?thesis
    by (simp only: history_def fold_release_frame delete_user_rows [OF assms(1)] filter_filter)
qed

lemma delete_user_apart:
  "sessions (delete_user i db) = filter (\<lambda>x. x_user x \<noteq> i) (sessions db)"
  "app_passwords (delete_user i db) = filter (\<lambda>p. ap_user p \<noteq> i) (app_passwords db)"
  "uploads (delete_user i db) = filter (\<lambda>u. up_owner u \<noteq> i) (uploads db)"
  by (simp_all add: delete_user_def Let_def drop_nodes_def)

lemma delete_user_made:
  "g \<in> set (grants (delete_user i db)) \<Longrightarrow> g \<in> set (grants db) \<and> g_created_by g \<noteq> i"
  "l \<in> set (locks (delete_user i db)) \<Longrightarrow> l_owner l \<noteq> i"
  "x \<in> set (shares (delete_user i db)) \<Longrightarrow> s_created_by x \<noteq> i"
  by (auto simp: delete_user_def Let_def drop_nodes_def)

text \<open>
  C10. Removing an account, with or without handing its files over, leaves every constraint, the tree,
  the reference counts and the quotas right, and nothing of the account: no user, row, quota, session,
  app password or upload, no grant to its address, and no grant, lock or share that it made. Every
  row of the others is as it was with all its versions.
\<close>

theorem removal_keeps_books:
  assumes "sound db" and "remove_account C now i heir quota_bytes db = Inr db'" and "heir \<noteq> Some i"
  shows "sound db' \<and> (\<forall>u\<in>set (users db'). u_id u \<noteq> i) \<and> (\<forall>n\<in>set (nodes db'). n_owner n \<noteq> i)
    \<and> (\<forall>q\<in>set (quotas db'). q_owner q \<noteq> i) \<and> (\<forall>x\<in>set (sessions db'). x_user x \<noteq> i)
    \<and> (\<forall>p\<in>set (app_passwords db'). ap_user p \<noteq> i) \<and> (\<forall>u\<in>set (uploads db'). up_owner u \<noteq> i)
    \<and> (\<exists>leaving. by_id i db = Some leaving \<and> (\<forall>g\<in>set (grants db'). g_email g \<noteq> u_email leaving \<and> g_created_by g \<noteq> i))
    \<and> (\<forall>l\<in>set (locks db'). l_owner l \<noteq> i) \<and> (\<forall>x\<in>set (shares db'). s_created_by x \<noteq> i)
    \<and> (\<forall>m\<in>set (nodes db). n_owner m \<noteq> i \<longrightarrow>
         m \<in> set (nodes db') \<and> history (n_id m) db' = history (n_id m) db)"
proof -
  from remove_account_steps [OF assms] obtain leaving db2 gs where
    l: "by_id i db = Some leaving" "\<forall>g\<in>set gs. g_email g \<noteq> u_email leaving" and
    d: "db' = fold (release_blob now) (held_blobs i (db2\<lparr>grants := gs\<rparr>)) (delete_user i (db2\<lparr>grants := gs\<rparr>))"
    and s: "sound_but i db2" and kept: "\<And>m. m \<in> set (nodes db) \<Longrightarrow> n_owner m \<noteq> i \<Longrightarrow>
      m \<in> set (nodes db2) \<and> history (n_id m) db2 = history (n_id m) db" by metis
  have t: "tree_rows (nodes (db2\<lparr>grants := gs\<rparr>))" using s by (simp add: sound_but_def tree_ok_def)
  have "sound db'" by (rule remove_account_sound [OF assms])
  moreover have "history (n_id m) db' = history (n_id m) db" if "m \<in> set (nodes db)" "n_owner m \<noteq> i" for m
    using history_deleted [OF t, of m i] kept [OF that] that(2) by (simp add: d history_def)
  moreover have "\<forall>g\<in>set (grants db'). g_email g \<noteq> u_email leaving \<and> g_created_by g \<noteq> i"
    "\<forall>l\<in>set (locks db'). l_owner l \<noteq> i" "\<forall>x\<in>set (shares db'). s_created_by x \<noteq> i"
    using l(2) delete_user_made [where i = i and db = "db2\<lparr>grants := gs\<rparr>"] by (auto simp: d)
  moreover have "\<forall>u\<in>set (users db'). u_id u \<noteq> i" "\<forall>n\<in>set (nodes db'). n_owner n \<noteq> i" "\<forall>q\<in>set (quotas db'). q_owner q \<noteq> i"
    "\<forall>x\<in>set (sessions db'). x_user x \<noteq> i" "\<forall>p\<in>set (app_passwords db'). ap_user p \<noteq> i" "\<forall>u\<in>set (uploads db'). up_owner u \<noteq> i"
    by (auto simp: d delete_user_rows [OF t] delete_user_apart)
  moreover have "m \<in> set (nodes db')" if "m \<in> set (nodes db)" "n_owner m \<noteq> i" for m
    using kept [OF that] that(2) by (simp add: d delete_user_rows [OF t])
  ultimately show ?thesis using l(1) by blast
qed

text \<open>
  C11. When the files of a removed account are handed over, everything live below its root arrives: the
  same node, name, bytes, size and versions, now of the recipient, where it was in its folder or, from
  the root, in a folder of the recipient's root that bears the name of who left and was not there before.
\<close>

theorem files_handed_over:
  assumes "sound db" and "remove_account C now i (Some r) quota_bytes db = Inr db'" and "r \<noteq> i"
    and "n \<in> set (nodes db)" and "n_owner n = i" and "live n" and "n_parent n \<noteq> None"
  shows "\<exists>leaving. by_id i db = Some leaving \<and> arrives leaving r db db' n"
proof -
  from assms(3) have "Some r \<noteq> Some i" by simp
  from remove_account_steps [OF assms(1,2) this] obtain leaving db2 gs where l: "by_id i db = Some leaving"
    and d: "db' = fold (release_blob now) (held_blobs i (db2\<lparr>grants := gs\<rparr>)) (delete_user i (db2\<lparr>grants := gs\<rparr>))"
    and s: "sound_but i db2" and a: "arrives leaving r db db2 n"
    using assms(4-7) by metis
  have t: "tree_rows (nodes (db2\<lparr>grants := gs\<rparr>))" using s by (simp add: sound_but_def tree_ok_def)
  have ns: "nodes db' = filter (\<lambda>n. n_owner n \<noteq> i) (nodes db2)" by (simp add: d delete_user_rows [OF t])
  have v: "history (n_id m) db' = history (n_id m) db2" if "m \<in> set (nodes db2)" "n_owner m = r" for m
    using history_deleted [OF t, of m i] that assms(3) by (simp add: d history_def)
  have stays: "m \<in> set (nodes db')" if "m \<in> set (nodes db2)" "n_owner m = r" for m
    using that assms(3) by (simp add: ns)
  have f: "fresh_folder leaving r db db' f" if "fresh_folder leaving r db db2 f" for f
    using that stays unfolding fresh_folder_def list_ex_iff by blast
  from a obtain m where m: "m \<in> set (nodes db2)" "n_id m = n_id n \<and> n_owner m = r \<and> live m \<and> n_name m = n_name n
     \<and> n_kind m = n_kind n \<and> n_blob m = n_blob n \<and> n_size m = n_size n \<and> history (n_id m) db2 = history (n_id n) db"
    "n_parent m = n_parent n \<or>
        (\<exists>top\<in>set (nodes db). n_parent n = Some (n_id top) \<and> n_parent top = None)
        \<and> (\<exists>f\<in>set (nodes db2). n_parent m = Some (n_id f) \<and> fresh_folder leaving r db db2 f)"
    unfolding arrives_def list_ex_iff by metis
  have "n_owner f = r" if "fresh_folder leaving r db db2 f" for f using that by (simp add: fresh_folder_def)
  with m(3) f stays have "n_parent m = n_parent n \<or>
        (\<exists>top\<in>set (nodes db). n_parent n = Some (n_id top) \<and> n_parent top = None)
        \<and> (\<exists>f\<in>set (nodes db'). n_parent m = Some (n_id f) \<and> fresh_folder leaving r db db' f)" by blast
  moreover have "m \<in> set (nodes db')" "history (n_id m) db' = history (n_id n) db"
    using stays [OF m(1)] v [OF m(1)] m(2) by metis+
  ultimately have "arrives leaving r db db' n" using m(2) unfolding arrives_def list_ex_iff by blast
  with l show ?thesis by blast
qed

section \<open>An account leaves\<close>

text \<open>Ada leaves, and Bob, who may write, takes her files.\<close>

definition departing :: db where
  "departing = shared\<lparr>uuids := \<lambda>k. 13 + k\<rparr>"

lemma departing_sound: "sound departing"
  by (simp add: departing_def shared_sound)

lemma sample_departs: "\<exists>db'. remove_account sample_crates 9 1 (Some 2) 1000 departing = Inr db'"
proof -
  have "\<not> isl (hand_over sample_crates 9 1000 sample_user sample_guest departing)" by code_simp
  then obtain db2 where "hand_over sample_crates 9 1000 sample_user sample_guest departing = Inr db2"
    using ok_result by blast
  moreover have "trash_roots 1 departing = []" by code_simp
  then have "empty_trash 9 1 departing = Inr (0, departing)" by (simp add: empty_trash_def)
  moreover have "by_id_in 1 departing = Inr sample_user" "by_id_in 2 departing = Inr sample_guest" by code_simp+
  moreover have "is_active sample_guest" "may_write sample_guest" by code_simp+
  ultimately show ?thesis by (simp add: remove_account_def Let_def)
qed

theorem removal_keeps_books_witness:
  "\<exists>db'. remove_account sample_crates 9 1 (Some 2) 1000 departing = Inr db' \<and> sound db'
     \<and> list_all (\<lambda>n. n_owner n \<noteq> 1) (nodes db') \<and> list_all (\<lambda>g. g_created_by g \<noteq> 1) (grants db')"
proof -
  from sample_departs obtain db' where d: "remove_account sample_crates 9 1 (Some 2) 1000 departing = Inr db'" by blast
  from removal_keeps_books [OF departing_sound d] d show ?thesis by (auto simp: list_all_iff)
qed

theorem files_handed_over_witness:
  "\<exists>db'. remove_account sample_crates 9 1 (Some 2) 1000 departing = Inr db' \<and> arrives sample_user 2 departing db' sample_file"
proof -
  from sample_departs obtain db' where d: "remove_account sample_crates 9 1 (Some 2) 1000 departing = Inr db'" by blast
  have "sample_file \<in> set (nodes departing)" by (simp add: departing_def shared_def sample_nodes)
  from files_handed_over [OF departing_sound d _ this] have "\<exists>leaving. by_id 1 departing = Some leaving \<and> arrives leaving 2 departing db' sample_file"
    by (simp add: sample_file_def sample_row_def live_def)
  moreover have "by_id 1 departing = Some sample_user" by code_simp
  ultimately show ?thesis using d by auto
qed

end
