(* ===== verification/Oidc.thy ===== *)
theory Oidc
  imports Signin Files
begin

text \<open>
  Signing in through a provider: \<open>api/src/oidc.rs\<close> and \<open>routes/oidc.rs\<close>. The flows are a table of
  their own next to the database. What the provider answers over HTTP and what the token library
  makes of a token are parameters; the lemmas show what must have held for a sign-in to succeed,
  whatever they answer.
\<close>

section \<open>Outside\<close>

record discovery =
  ds_issuer :: string
  authorization_endpoint :: string
  token_endpoint :: string
  jwks_uri :: string

record claims =
  cm_sub :: string
  cm_iss :: string
  cm_email :: "string option"
  cm_email_verified :: bool
  cm_name :: "string option"

record jwk =
  jw_kid :: "string option"
  jw_n :: "string option"
  jw_e :: "string option"

text \<open>What a request of the server to the provider answers, read as JSON; no answer is \<open>None\<close>.\<close>

record web =
  discovery_at :: "string \<Rightarrow> discovery option"
  token_at :: "string \<Rightarrow> (string \<times> string) list \<Rightarrow> string option"
  keys_at :: "string \<Rightarrow> jwk list option"

record validation =
  va_algorithms :: "string list"
  va_audience :: "string list"
  va_issuers :: "string list"
  va_required :: "string list"

text \<open>The libraries: the key a token's header names, RSA keys, decoding, and the hash of a verifier.\<close>

record 'k token_library =
  token_kid :: "string \<Rightarrow> string option option"
  rsa_key :: "string \<Rightarrow> string \<Rightarrow> 'k option"
  decode_token :: "string \<Rightarrow> 'k \<Rightarrow> validation \<Rightarrow> claims option"
  s256 :: "string \<Rightarrow> string"

text \<open>The provider of the configuration.\<close>

record provider =
  pr_issuer :: string
  pr_client_id :: string
  pr_client_secret :: string
  pr_redirect_url :: string
  pr_create_accounts :: bool

section \<open>Flows\<close>

definition FLOW_MINUTES :: int where "FLOW_MINUTES = 15"

record flow =
  fw_state :: string
  fw_verifier :: string
  fw_created :: timestamp
  fw_expires :: timestamp

record started =
  sd_state :: string
  sd_verifier :: string
  sd_challenge :: string

text \<open>The two strings are what \<open>random()\<close> drew.\<close>

definition start_flow :: "'k token_library \<Rightarrow> string \<Rightarrow> string \<Rightarrow> started" where
  "start_flow J state verifier = \<lparr>sd_state = state, sd_verifier = verifier, sd_challenge = s256 J verifier\<rparr>"

definition remember_flow :: "timestamp \<Rightarrow> started \<Rightarrow> flow list \<Rightarrow> api_error + flow list" where
  "remember_flow now sd flows =
     (if sd_state sd \<in> set (map fw_state flows) then Inl (Database (UniqueViolation ''oidc_flows_pkey''))
      else Inr (flows @ [\<lparr>fw_state = sd_state sd, fw_verifier = sd_verifier sd, fw_created = now,
        fw_expires = now + FLOW_MINUTES * 60 * second\<rparr>]))"

definition claim_flow :: "timestamp \<Rightarrow> string \<Rightarrow> flow list \<Rightarrow> (api_error + string) \<times> flow list" where
  "claim_flow now state flows =
     (let hit = (\<lambda>f. fw_state f = state \<and> now < fw_expires f)
      in (ok_or Unauthenticated (map_option fw_verifier (find hit flows)), filter (\<lambda>f. \<not> hit f) flows))"

definition purge_expired_flows :: "timestamp \<Rightarrow> flow list \<Rightarrow> nat \<times> flow list" where
  "purge_expired_flows now flows =
     (length (filter (\<lambda>f. fw_expires f \<le> now) flows), filter (\<lambda>f. now < fw_expires f) flows)"

section \<open>What the provider says\<close>

definition trim_slashes :: "string \<Rightarrow> string" where
  "trim_slashes s = rev (dropWhile (\<lambda>c. c = slash) (rev s))"

definition discover :: "web \<Rightarrow> string \<Rightarrow> api_error + discovery" where
  "discover W issuer =
     rbind (ok_or Unauthenticated (discovery_at W (trim_slashes issuer @ ''/.well-known/openid-configuration''))) (\<lambda>found.
     if trim_slashes (ds_issuer found) \<noteq> trim_slashes issuer then Inl Unauthenticated else Inr found)"

definition verify_token :: "web \<Rightarrow> 'k token_library \<Rightarrow> discovery \<Rightarrow> string \<Rightarrow> string \<Rightarrow> api_error + claims" where
  "verify_token W J provider client_id token =
     rbind (ok_or Unauthenticated (token_kid J token)) (\<lambda>kid.
     rbind (ok_or Unauthenticated (keys_at W (jwks_uri provider))) (\<lambda>keys.
     rbind (ok_or Unauthenticated (find (\<lambda>key. case kid of Some k \<Rightarrow> jw_kid key = Some k | None \<Rightarrow> length keys = 1) keys)) (\<lambda>key.
     rbind (ok_or Unauthenticated (case (jw_n key, jw_e key) of (Some n, Some e) \<Rightarrow> Some (n, e) | _ \<Rightarrow> None)) (\<lambda>(modulus, exponent).
     rbind (ok_or Unauthenticated (rsa_key J modulus exponent)) (\<lambda>decoding.
       ok_or Unauthenticated (decode_token J token decoding
         \<lparr>va_algorithms = [''RS256'', ''RS384'', ''RS512''], va_audience = [client_id],
          va_issuers = [ds_issuer provider], va_required = [''exp'', ''iss'', ''aud'']\<rparr>))))))"

definition claims_for ::
    "web \<Rightarrow> 'k token_library \<Rightarrow> discovery \<Rightarrow> string \<Rightarrow> string \<Rightarrow> string \<Rightarrow> string \<Rightarrow> string \<Rightarrow> api_error + claims" where
  "claims_for W J provider client_id client_secret redirect_url code verifier =
     rbind (ok_or Unauthenticated (token_at W (token_endpoint provider)
       [(''grant_type'', ''authorization_code''), (''code'', code), (''redirect_uri'', redirect_url),
        (''client_id'', client_id), (''client_secret'', client_secret), (''code_verifier'', verifier)]))
       (verify_token W J provider client_id)"

section \<open>Whom it lets in\<close>

datatype refusal = NoEmail | Unverified | NoAccount

type_synonym refused_or_failed = "refusal + api_error"

definition admit ::
    "crates \<Rightarrow> timestamp \<Rightarrow> string \<Rightarrow> string \<Rightarrow> claims \<Rightarrow> bool \<Rightarrow> db \<Rightarrow> (refused_or_failed + user) \<times> db" where
  "admit C now salt secret cm may_create db =
     (case cm_email cm of
        None \<Rightarrow> (Inl (Inl NoEmail), db)
      | Some raw \<Rightarrow>
          if \<not> cm_email_verified cm then (Inl (Inl Unverified), db)
          else case email_from_str C raw of
              Inl _ \<Rightarrow> (Inl (Inl NoEmail), db)
            | Inr email \<Rightarrow>
                (case by_email email db of
                   Some existing \<Rightarrow> (Inr existing, db)
                 | None \<Rightarrow>
                     if \<not> may_create then (Inl (Inl NoAccount), db)
                     else let display = (case cm_name cm of Some name \<Rightarrow> name | None \<Rightarrow> raw)
                       in case create_user C now salt email display secret Member db of
                            Inl e \<Rightarrow> (Inl (Inr e), db)
                          | Inr (created, db1) \<Rightarrow> (Inr created, db1)))"

section \<open>The handlers\<close>

definition FLOW_COOKIE :: string where "FLOW_COOKIE = ''stashden_oidc''"

definition cookie :: "string option \<Rightarrow> string \<Rightarrow> string option" where
  "cookie header name =
     Option.bind header (\<lambda>value. map_option snd (find (\<lambda>(key, _). key = name)
       (List.map_filter (\<lambda>pair. split_once CHR ''='' (trim pair)) (split_on CHR '';'' value))))"

definition urlencoding :: "crates \<Rightarrow> string \<Rightarrow> string" where
  "urlencoding C = percent_encode C (\<lambda>c. let k = (of_char c :: nat) in
     \<not> (48 \<le> k \<and> k \<le> 57 \<or> 65 \<le> k \<and> k \<le> 90 \<or> 97 \<le> k \<and> k \<le> 122))"

text \<open>What \<open>GET /v1/auth/methods\<close> answers: passwords, and a provider.\<close>

definition methods_of :: "provider option \<Rightarrow> db \<Rightarrow> bool \<times> bool" where
  "methods_of p db = (password_login_allowed db, p \<noteq> None)"

definition flow_cookie :: "provider \<Rightarrow> started \<Rightarrow> string" where
  "flow_cookie p sd = FLOW_COOKIE @ ''='' @ sd_state sd @ ''; HttpOnly; SameSite=Lax; Path=/; Max-Age=900''
     @ (if starts_with (pr_redirect_url p) ''https://'' then ''; Secure'' else [])"

text \<open>Answers the cookie, the address to go to and the state.\<close>

definition begin_sign_in ::
    "web \<Rightarrow> 'k token_library \<Rightarrow> crates \<Rightarrow> provider option \<Rightarrow> timestamp \<Rightarrow> string \<Rightarrow> string \<Rightarrow> flow list
      \<Rightarrow> (api_error + string \<times> string \<times> string) \<times> flow list" where
  "begin_sign_in W J C configured now state verifier flows =
     (case configured of
        None \<Rightarrow> (Inl NotFound, flows)
      | Some p \<Rightarrow>
          (case discover W (pr_issuer p) of
             Inl e \<Rightarrow> (Inl e, flows)
           | Inr found \<Rightarrow>
               let sd = start_flow J state verifier
               in case remember_flow now sd flows of
                   Inl e \<Rightarrow> (Inl e, flows)
                 | Inr flows1 \<Rightarrow>
                     (case header_value C (flow_cookie p sd) of
                        None \<Rightarrow> (Inl Credential, flows1)
                      | Some set_cookie \<Rightarrow> (Inr (set_cookie, authorization_endpoint found
                          @ ''?response_type=code&scope=openid%20email%20profile&client_id='' @ urlencoding C (pr_client_id p)
                          @ ''&redirect_uri='' @ urlencoding C (pr_redirect_url p) @ ''&state='' @ urlencoding C (sd_state sd)
                          @ ''&code_challenge='' @ urlencoding C (sd_challenge sd) @ ''&code_challenge_method=S256'',
                          sd_state sd), flows1))))"

text \<open>The salt and the secret are what an account that is created draws.\<close>

definition callback ::
    "web \<Rightarrow> 'k token_library \<Rightarrow> crates \<Rightarrow> app_state \<Rightarrow> provider option \<Rightarrow> timestamp \<Rightarrow> string \<Rightarrow> string \<Rightarrow> string option
      \<Rightarrow> string \<Rightarrow> string \<Rightarrow> flow list \<times> db \<Rightarrow> (api_error + string \<times> int \<times> user) \<times> flow list \<times> db" where
  "callback W J C st configured now salt secret cookies code state = (\<lambda>(flows, db).
     case configured of
       None \<Rightarrow> (Inl NotFound, flows, db)
     | Some p \<Rightarrow>
         if cookie cookies FLOW_COOKIE \<noteq> Some state then (Inl Unauthenticated, flows, db)
         else case claim_flow now state flows of
             (Inl e, flows1) \<Rightarrow> (Inl e, flows1, db)
           | (Inr verifier, flows1) \<Rightarrow>
               (case rbind (discover W (pr_issuer p)) (\<lambda>found. claims_for W J found (pr_client_id p)
                   (pr_client_secret p) (pr_redirect_url p) code verifier) of
                  Inl e \<Rightarrow> (Inl e, flows1, db)
                | Inr cm \<Rightarrow>
                    (case admit C now salt secret cm (pr_create_accounts p) db of
                       (Inl (Inl _), db1) \<Rightarrow> (Inl InvalidCredentials, flows1, db1)
                     | (Inl (Inr failure), db1) \<Rightarrow> (Inl failure, flows1, db1)
                     | (Inr u, db1) \<Rightarrow>
                         if \<not> is_active u then (Inl Unauthenticated, flows1, db1)
                         else case open_session C (session_ttl st) now (u_id u) db1 of
                             (Inl e, db2) \<Rightarrow> (Inl e, flows1, db2)
                           | (Inr token, db2) \<Rightarrow> (Inr (token, session_ttl st, u), flows1, db2))))"

definition set_methods :: "provider option \<Rightarrow> bool \<Rightarrow> db \<Rightarrow> (bool \<times> bool) answer" where
  "set_methods p password db =
     (if \<not> password \<and> p = None
      then (Inl (WrongKind ''provider to sign in with before passwords are turned off''), db)
      else (Inr (password, p \<noteq> None), allow_password_login password db))"

section \<open>What must have held\<close>

lemma claim_flow_Inr:
  assumes "claim_flow now state flows = (Inr v, flows')"
  shows "\<exists>f\<in>set flows. fw_state f = state \<and> now < fw_expires f \<and> fw_verifier f = v"
  using assms find_Some_set [of _ flows]
  by (auto simp: claim_flow_def Let_def ok_or_eq_Inr)

lemma claim_flow_spent: "snd (claim_flow now state flows) = filter (\<lambda>f. \<not> (fw_state f = state \<and> now < fw_expires f)) flows"
  by (simp add: claim_flow_def Let_def)

lemma claim_again: "now \<le> later \<Longrightarrow> fst (claim_flow later state (snd (claim_flow now state flows))) = Inl Unauthenticated"
proof -
  assume "now \<le> later"
  then have "find (\<lambda>f. fw_state f = state \<and> later < fw_expires f) (filter (\<lambda>f. \<not> (fw_state f = state \<and> now < fw_expires f)) flows) = None"
    by (auto simp: find_None_set)
  then show ?thesis by (simp add: claim_flow_def Let_def ok_or_def)
qed

text \<open>A token is believed only under a key of the provider, for this client and this issuer.\<close>

definition vouched :: "web \<Rightarrow> 'k token_library \<Rightarrow> provider \<Rightarrow> string \<Rightarrow> string \<Rightarrow> claims \<Rightarrow> bool" where
  "vouched W J p code verifier cm \<longleftrightarrow> (\<exists>found token keys key n e k.
     discovery_at W (trim_slashes (pr_issuer p) @ ''/.well-known/openid-configuration'') = Some found
     \<and> trim_slashes (ds_issuer found) = trim_slashes (pr_issuer p)
     \<and> token_at W (token_endpoint found)
         [(''grant_type'', ''authorization_code''), (''code'', code), (''redirect_uri'', pr_redirect_url p),
          (''client_id'', pr_client_id p), (''client_secret'', pr_client_secret p), (''code_verifier'', verifier)] = Some token
     \<and> keys_at W (jwks_uri found) = Some keys \<and> key \<in> set keys \<and> jw_n key = Some n \<and> jw_e key = Some e
     \<and> rsa_key J n e = Some k
     \<and> decode_token J token k \<lparr>va_algorithms = [''RS256'', ''RS384'', ''RS512''], va_audience = [pr_client_id p],
          va_issuers = [ds_issuer found], va_required = [''exp'', ''iss'', ''aud'']\<rparr> = Some cm)"

lemma claims_vouched:
  assumes "rbind (discover W (pr_issuer p)) (\<lambda>found. claims_for W J found (pr_client_id p)
                   (pr_client_secret p) (pr_redirect_url p) code verifier) = Inr cm"
  shows "vouched W J p code verifier cm"
proof -
  from assms obtain found where d: "discovery_at W (trim_slashes (pr_issuer p) @ ''/.well-known/openid-configuration'') = Some found"
      "trim_slashes (ds_issuer found) = trim_slashes (pr_issuer p)"
    and c: "claims_for W J found (pr_client_id p) (pr_client_secret p) (pr_redirect_url p) code verifier = Inr cm"
    by (auto simp: discover_def rbind_eq_Inr ok_or_eq_Inr split: if_splits)
  from c obtain token where t: "token_at W (token_endpoint found)
         [(''grant_type'', ''authorization_code''), (''code'', code), (''redirect_uri'', pr_redirect_url p),
          (''client_id'', pr_client_id p), (''client_secret'', pr_client_secret p), (''code_verifier'', verifier)] = Some token"
    and v: "verify_token W J found (pr_client_id p) token = Inr cm"
    by (auto simp: claims_for_def rbind_eq_Inr ok_or_eq_Inr)
  from v obtain kid keys key me k where k: "keys_at W (jwks_uri found) = Some keys"
      "find (\<lambda>key. case kid of Some k \<Rightarrow> jw_kid key = Some k | None \<Rightarrow> length keys = 1) keys = Some key"
      "(case (jw_n key, jw_e key) of (Some n, Some e) \<Rightarrow> Some (n, e) | _ \<Rightarrow> None) = Some me" "rsa_key J (fst me) (snd me) = Some k"
      "decode_token J token k \<lparr>va_algorithms = [''RS256'', ''RS384'', ''RS512''], va_audience = [pr_client_id p],
          va_issuers = [ds_issuer found], va_required = [''exp'', ''iss'', ''aud'']\<rparr> = Some cm"
    by (simp only: verify_token_def rbind_eq_Inr ok_or_eq_Inr prod.case_eq_if) blast
  from k(3) have ne: "jw_n key = Some (fst me)" "jw_e key = Some (snd me)" by (auto split: option.splits)
  have "key \<in> set keys" using find_Some_set [OF k(2)] by simp
  with d t k(1,4,5) ne show ?thesis unfolding vouched_def by blast
qed

lemma admit_Inr:
  assumes "admit C now salt secret cm may_create db = (Inr u, db')"
  shows "\<exists>raw email. cm_email cm = Some raw \<and> email_from_str C raw = Inr email \<and> u_email u = email
    \<and> cm_email_verified cm \<and> sessions db' = sessions db
    \<and> (by_email email db = Some u \<and> db' = db
       \<or> by_email email db = None \<and> may_create \<and> u_role u = Member \<and> users db' = users db @ [u])"
proof -
  from assms obtain raw email where e: "cm_email cm = Some raw" "cm_email_verified cm" "email_from_str C raw = Inr email"
    by (auto simp: admit_def split: option.splits if_splits sum.splits)
  show ?thesis
  proof (cases "by_email email db")
    case None
    with assms e obtain display where "may_create" "create_user C now salt email display secret Member db = Inr (u, db')"
      by (auto simp: admit_def Let_def split: if_splits sum.splits)
    with create_user_Inr(1,3,4) [OF this(2)] e None show ?thesis by auto
  next
    case (Some existing)
    with assms e have "u = existing" "db' = db" by (auto simp: admit_def)
    moreover have "u_email existing = email" using Some find_Some_set [of _ "users db"] by (fastforce simp: by_email_def)
    ultimately show ?thesis using e Some by auto
  qed
qed

lemma open_session_Inr:
  assumes "open_session C ttl now i db = (Inr token, db')"
  shows "\<exists>x. sessions db' = sessions db @ [x] \<and> x_user x = i \<and> x_expires x = now + ttl * second"
proof -
  from assms obtain j where "create_session now i (now + ttl * second) db = Inr (j, db')"
    by (auto simp: open_session_def and_then_def transact_def split: sum.splits prod.splits)
  from create_session_Inr [OF this] show ?thesis by simp
qed

text \<open>
  C32. Whoever a provider signs in was vouched for: the browser carries the state of a flow that was
  started here and had not run out, a token that verifies under a key the provider publishes, for this
  client and issuer, says the address and that it was checked, the account has that address (or is made
  with it, as a member, where that is allowed) and is active, the session that is opened is its own, and
  the flow is spent: no later request finishes it again.
\<close>

theorem sign_in_is_vouched_for:
  assumes "callback W J C st configured now salt secret cookies code state (flows, db) = (Inr (token, ttl, u), flows', db')"
  shows "\<exists>p f cm raw. configured = Some p \<and> cookie cookies FLOW_COOKIE = Some state
    \<and> f \<in> set flows \<and> fw_state f = state \<and> now < fw_expires f \<and> vouched W J p code (fw_verifier f) cm
    \<and> cm_email cm = Some raw \<and> cm_email_verified cm \<and> email_from_str C raw = Inr (u_email u)
    \<and> (by_email (u_email u) db = Some u \<or> by_email (u_email u) db = None \<and> pr_create_accounts p \<and> u_role u = Member)
    \<and> is_active u \<and> (\<exists>x. sessions db' = sessions db @ [x] \<and> x_user x = u_id u)
    \<and> (\<forall>later W' salt' secret' cookies' code' db''. now \<le> later \<longrightarrow>
         isl (fst (callback W' J C st configured later salt' secret' cookies' code' state (flows', db''))))"
proof -
  from assms obtain p where p: "configured = Some p" by (auto simp: callback_def split: option.splits)
  from assms p have co: "cookie cookies FLOW_COOKIE = Some state" by (auto simp: callback_def split: if_splits)
  obtain verifier where v: "claim_flow now state flows = (Inr verifier, flows')"
  proof (cases "claim_flow now state flows")
    case (Pair r flows1)
    with assms p co that show thesis
      by (cases r) (auto simp: callback_def split: sum.splits prod.splits if_splits)
  qed
  from assms p co v obtain cm where cm: "rbind (discover W (pr_issuer p)) (\<lambda>found. claims_for W J found (pr_client_id p)
                   (pr_client_secret p) (pr_redirect_url p) code verifier) = Inr cm"
    by (auto simp: callback_def split: sum.splits prod.splits if_splits)
  from assms p co v cm obtain db1 where a: "admit C now salt secret cm (pr_create_accounts p) db = (Inr u, db1)"
    and act: "is_active u" and s: "open_session C (session_ttl st) now (u_id u) db1 = (Inr token, db')"
    by (auto simp: callback_def split: sum.splits prod.splits if_splits)
  from claim_flow_Inr [OF v] obtain f where f: "f \<in> set flows" "fw_state f = state" "now < fw_expires f" "fw_verifier f = verifier"
    by blast
  note ad = admit_Inr [OF a]
  have again: "isl (fst (callback W' J C st configured later salt' secret' cookies' code' state (flows', db'')))"
    if "now \<le> later" for later W' salt' secret' cookies' code' db''
    using claim_again [OF that, of state flows] v p
    by (cases "claim_flow later state flows'") (auto simp: callback_def)
  from open_session_Inr [OF s] ad obtain x where "sessions db' = sessions db @ [x]" "x_user x = u_id u" by auto
  with p co f claims_vouched [OF cm] ad act again show ?thesis by blast
qed

text \<open>A provider that knows one address and signs with one key, and a flow that was started with it.\<close>

definition sample_web :: web where
  "sample_web = \<lparr>discovery_at = (\<lambda>_. Some \<lparr>ds_issuer = ''idp'', authorization_endpoint = ''a'', token_endpoint = ''t'', jwks_uri = ''k''\<rparr>),
     token_at = (\<lambda>_ form. map_of form ''code''),
     keys_at = (\<lambda>_. Some [\<lparr>jw_kid = Some ''1'', jw_n = Some ''n'', jw_e = Some ''e''\<rparr>])\<rparr>"

definition sample_tokens :: "string token_library" where
  "sample_tokens = \<lparr>token_kid = (\<lambda>_. Some (Some ''1'')), rsa_key = (\<lambda>n e. Some (n @ e)),
     decode_token = (\<lambda>t k va. if k = ''ne'' \<and> va_issuers va = [''idp'']
       then Some \<lparr>cm_sub = ''s'', cm_iss = ''idp'', cm_email = Some t, cm_email_verified = True, cm_name = None\<rparr> else None),
     s256 = id\<rparr>"

definition sample_provider :: provider where
  "sample_provider = \<lparr>pr_issuer = ''idp'', pr_client_id = ''c'', pr_client_secret = ''s'', pr_redirect_url = ''r'',
     pr_create_accounts = False\<rparr>"

definition sample_flows :: "flow list" where
  "sample_flows = [\<lparr>fw_state = ''x'', fw_verifier = ''v'', fw_created = 1, fw_expires = 90\<rparr>]"

definition sample_callback :: "(api_error + string \<times> int \<times> user) \<times> flow list \<times> db" where
  "sample_callback = callback sample_web sample_tokens sample_crates sample_state (Some sample_provider) 5 [] []
     (Some ''a=b; stashden_oidc=x'') ''ada@example.com'' ''x'' (sample_flows, sample)"

lemma sample_callback_Inr: "case fst sample_callback of Inr (_, ttl, u) \<Rightarrow> ttl = 60 \<and> u = sample_user | _ \<Rightarrow> False"
proof -
  let ?cm = "\<lparr>cm_sub = ''s'', cm_iss = ''idp'', cm_email = Some ''ada@example.com'', cm_email_verified = True, cm_name = None\<rparr>"
  have a: "cookie (Some ''a=b; stashden_oidc=x'') FLOW_COOKIE = Some ''x''" by code_simp
  have b: "claim_flow 5 ''x'' sample_flows = (Inr ''v'', [])" by code_simp
  have c: "rbind (discover sample_web (pr_issuer sample_provider)) (\<lambda>found. claims_for sample_web sample_tokens found
      (pr_client_id sample_provider) (pr_client_secret sample_provider) (pr_redirect_url sample_provider)
      ''ada@example.com'' ''v'') = Inr ?cm" by code_simp
  have "email_from_str sample_crates ''ada@example.com'' = Inr ''ada@example.com''"
    "by_email ''ada@example.com'' sample = Some sample_user" by code_simp+
  then have d: "admit sample_crates 5 [] [] ?cm False sample = (Inr sample_user, sample)" by (simp add: admit_def)
  have "\<not> isl (fst (open_session sample_crates 60 5 1 sample))" by code_simp
  from answered [OF this] obtain token where
    "open_session sample_crates 60 5 1 sample = (Inr token, snd (open_session sample_crates 60 5 1 sample))" by blast
  moreover have "session_ttl sample_state = 60" "is_active sample_user" "u_id sample_user = 1"
    "pr_create_accounts sample_provider = False" by code_simp+
  ultimately show ?thesis by (cases "open_session sample_crates 60 5 1 sample")
    (simp add: sample_callback_def callback_def a b c d)
qed

theorem sign_in_is_vouched_for_witness:
  "\<exists>token flows' db'. sample_callback = (Inr (token, 60, sample_user), flows', db')
     \<and> (\<exists>x. sessions db' = [x] \<and> x_user x = 1)
     \<and> isl (fst (callback sample_web sample_tokens sample_crates sample_state (Some sample_provider) 6 [] []
         (Some ''a=b; stashden_oidc=x'') ''ada@example.com'' ''x'' (flows', db')))"
proof -
  from sample_callback_Inr obtain token where "fst sample_callback = Inr (token, 60, sample_user)" by (auto split: sum.splits)
  then obtain flows' db' where r: "sample_callback = (Inr (token, 60, sample_user), flows', db')"
    by (metis prod.collapse)
  have "sessions sample = []" "u_id sample_user = 1" by code_simp+
  with sign_in_is_vouched_for [OF r [unfolded sample_callback_def]] obtain x where "sessions db' = [x]" "x_user x = 1"
    by auto
  moreover have "isl (fst (callback sample_web sample_tokens sample_crates sample_state (Some sample_provider) 6 [] []
         (Some ''a=b; stashden_oidc=x'') ''ada@example.com'' ''x'' (flows', db')))"
    using sign_in_is_vouched_for [OF r [unfolded sample_callback_def]] by auto
  ultimately show ?thesis using r by blast
qed

section \<open>What it keeps\<close>

lemma admit_kept:
  assumes "P db" and "\<And>email display u db'. create_user C now salt email display secret Member db = Inr (u, db') \<Longrightarrow> P db'"
  shows "P (snd (admit C now salt secret cm may_create db))"
  using assms by (auto simp: admit_def Let_def split: option.split sum.split)

lemma prop_if: "P (snd (snd y)) \<Longrightarrow> P (snd (snd z)) \<Longrightarrow> P (snd (snd (if b then y else z)))"
  by simp

text \<open>Whatever the two operations on the database keep, the whole of a callback keeps.\<close>

lemma callback_kept:
  assumes "P db" and "\<And>email display u db'. create_user C now salt email display secret Member db = Inr (u, db') \<Longrightarrow> P db'"
    and "\<And>i d. P d \<Longrightarrow> P (snd (open_session C (session_ttl st) now i d))"
  shows "P (snd (snd (callback W J C st configured now salt secret cookies code state (flows, db))))"
proof -
  have a: "P (snd (admit C now salt secret cm may_create db))" for cm may_create
    by (rule admit_kept) (use assms(1,2) in blast)+
  have b: "P d" if "admit C now salt secret cm may_create db = (r, d)" for cm may_create r d
    using a [of cm may_create] that by simp
  have c: "P d'" if "admit C now salt secret cm may_create db = (r, d)" "open_session C (session_ttl st) now i d = (r', d')"
    for cm may_create r d i r' d'
    using assms(3) [OF b [OF that(1)], of i] that(2) by simp
  have whole: "P (snd (snd (case admit C now salt secret cm may_create db of
       (Inl (Inl _), db1) \<Rightarrow> (Inl InvalidCredentials, flows1, db1)
     | (Inl (Inr failure), db1) \<Rightarrow> (Inl failure, flows1, db1)
     | (Inr u, db1) \<Rightarrow>
         if \<not> is_active u then (Inl Unauthenticated, flows1, db1)
         else case open_session C (session_ttl st) now (u_id u) db1 of
             (Inl e, db2) \<Rightarrow> (Inl e, flows1, db2)
           | (Inr token, db2) \<Rightarrow> (Inr (token, session_ttl st, u), flows1, db2))))" for cm may_create flows1
  proof (cases "admit C now salt secret cm may_create db")
    case (Pair r d)
    then show ?thesis
    proof (cases r)
      case (Inl e)
      with Pair b show ?thesis by (cases e) simp_all
    next
      case (Inr u)
      with Pair b c show ?thesis
        by (cases "open_session C (session_ttl st) now (u_id u) d"; cases "fst (open_session C (session_ttl st) now (u_id u) d)") auto
    qed
  qed
  show ?thesis
  proof (cases configured)
    case None
    with assms(1) show ?thesis by (simp add: callback_def)
  next
    case (Some p)
    show ?thesis
    proof (cases "claim_flow now state flows")
      case claimed: (Pair r flows1)
      show ?thesis
      proof (cases r)
        case Inl
        with Some claimed assms(1) show ?thesis by (simp add: callback_def)
      next
        case (Inr verifier)
        show ?thesis
        proof (cases "rbind (discover W (pr_issuer p)) (\<lambda>found. claims_for W J found (pr_client_id p)
                   (pr_client_secret p) (pr_redirect_url p) code verifier)")
          case Inl
          with Some claimed Inr assms(1) show ?thesis by (simp add: callback_def)
        next
          case claims: (Inr cm)
          show ?thesis
            unfolding callback_def prod.case Some option.case claimed Inr sum.case claims
            by (rule prop_if, simp only: snd_conv assms(1), rule whole)
        qed
      qed
    qed
  qed
qed

lemma callback_sound:
  "sound db \<Longrightarrow> sound (snd (snd (callback W J C st configured now salt secret cookies code state (flows, db))))"
  by (rule callback_kept) (auto dest: create_user_Inr(7) intro: open_session_sound)

lemma set_methods_sound: "sound db \<Longrightarrow> sound (snd (set_methods p password db))"
  by (simp add: set_methods_def allow_password_login_def)

end
