(* ===== verification/Server.thy ===== *)
theory Server
  imports Backed Departure Oidc
begin

text \<open>
  The server as a whole: who may call what (the extractors of \<open>api/src/auth.rs\<close> and
  \<open>dav/auth.rs\<close> before the handlers of \<open>routes/mod.rs\<close>), the first account (\<open>main.rs\<close>), and the
  states that requests, the sweeper and the operator can bring it to. What every operation keeps
  holds in each of them: the database is sound and the bytes of everything it names can be read.
\<close>

section \<open>A request\<close>

text \<open>A handler runs once its caller is known; who is asking may itself be written down.\<close>

definition on_db :: "(db \<Rightarrow> 'a answer) \<Rightarrow> server \<Rightarrow> server" where
  "on_db f sv = sv\<lparr>sv_world := snd (with_db f (sv_world sv))\<rparr>"

definition admitted :: "(db \<Rightarrow> 'u answer) \<Rightarrow> ('u \<Rightarrow> db \<Rightarrow> 'a answer) \<Rightarrow> db \<Rightarrow> 'a answer" where
  "admitted who f db = and_then (who db) f"

definition behind :: "(db \<Rightarrow> 'u answer) \<Rightarrow> ('u \<Rightarrow> server \<Rightarrow> (api_error + 'a) \<times> server) \<Rightarrow> server
    \<Rightarrow> (api_error + 'a) \<times> server" where
  "behind who f sv =
     (case with_db who (sv_world sv) of
        (Inl e, w) \<Rightarrow> (Inl e, sv\<lparr>sv_world := w\<rparr>)
      | (Inr u, w) \<Rightarrow> f u (sv\<lparr>sv_world := w\<rparr>))"

definition on_world :: "(world \<Rightarrow> 'a reply) \<Rightarrow> server \<Rightarrow> (api_error + 'a) \<times> server" where
  "on_world f sv = (case f (sv_world sv) of (r, w) \<Rightarrow> (r, sv\<lparr>sv_world := w\<rparr>))"

text \<open>What WebDAV answers to who is not let in.\<close>

definition dav_unauthenticated :: response where
  "dav_unauthenticated = \<lparr>rs_status = 401,
     rs_headers = [(''www-authenticate'', ''Basic realm=\"Stashden\", charset=\"UTF-8\"'')], rs_body = []\<rparr>"

definition dav_serve :: "crates \<Rightarrow> app_state \<Rightarrow> timestamp \<Rightarrow> string \<Rightarrow> string option \<Rightarrow> request \<Rightarrow> world \<Rightarrow> response reply" where
  "dav_serve C st now tmp_name auth rq w =
     (case dav_caller C now auth (w_db w) of
        (None, db) \<Rightarrow> (Inr dav_unauthenticated, w\<lparr>w_db := db\<rparr>)
      | (Some u, db) \<Rightarrow> dispatch C st now tmp_name u rq (w\<lparr>w_db := db\<rparr>))"

section \<open>The first account\<close>

text \<open>The administrator of the configuration, when it names one and nobody is there yet.\<close>

definition bootstrap_admin ::
    "crates \<Rightarrow> timestamp \<Rightarrow> string \<Rightarrow> (string \<times> string) option \<Rightarrow> db \<Rightarrow> user option answer" where
  "bootstrap_admin C now salt configured db =
     (case configured of
        None \<Rightarrow> (Inr None, db)
      | Some (text, password) \<Rightarrow>
          if 0 < count_users db then (Inr None, db)
          else case email_from_str C text of
              Inl e \<Rightarrow> (Inl (InvalidEmail e), db)
            | Inr email \<Rightarrow> transact (\<lambda>db. rbind (create_user C now salt email ''Administrator'' password Admin db)
                (\<lambda>(u, db1). Inr (Some u, db1))) db)"

section \<open>What a server does\<close>

text \<open>The part of a callback's answer that is over the database; its flows are a table of their own.\<close>

definition sso_answer :: "(api_error + 'a) \<times> flow list \<times> db \<Rightarrow> 'a answer" where
  "sso_answer r = (fst r, snd (snd r))"

text \<open>
  One request, one turn of the sweeper, one start, or one command of the operator. What a handler
  only reads is in \<open>ask\<close>, which leaves what its caller leaves. The clock is read anew each time.
\<close>

inductive serves :: "'i images \<Rightarrow> crates \<Rightarrow> app_state \<Rightarrow> server \<Rightarrow> server \<Rightarrow> bool" for I C st where
  start: "serves I C st sv (on_db (bootstrap_admin C now salt configured) sv)"
| recover: "serves I C st sv (on_db (recover_password C salt email plaintext) sv)"
| check: "run_check C (\<lambda>h. local_read C h (w_files (sv_world sv))) now opts (w_db (sv_world sv)) = Inr (f, db) \<Longrightarrow>
    serves I C st sv (sv\<lparr>sv_world := (sv_world sv)\<lparr>w_db := db\<rparr>\<rparr>)"
| turn: "serves I C st sv (tick C st now grace sv)"
| ask: "serves I C st sv (on_db (caller_of C now auth) sv)"
| sign_in: "serves I C st sv (on_db (login C st now text password) sv)"
| sign_out: "serves I C st sv (on_db (admitted (session_caller C now auth) (\<lambda>(u, i). logout i)) sv)"
| profile: "serves I C st sv (on_db (admitted (session_caller C now auth) (\<lambda>(u, i). update_profile u name)) sv)"
| own_password: "serves I C st sv (on_db (admitted (session_caller C now auth)
    (\<lambda>(u, i). change_password C now salt u i current password)) sv)"
| app_password: "serves I C st sv (on_db (admitted (session_caller C now auth) (\<lambda>(u, i). mint_handler C random now u name)) sv)"
| drop_app_password: "serves I C st sv (on_db (admitted (session_caller C now auth)
    (\<lambda>(u, i). execute (revoke_app_password now (u_id u) k))) sv)"
| drop_presented: "serves I C st sv (on_db (admitted (caller_of C now auth) (\<lambda>(u, via). revoke_presented now u via)) sv)"
| new_account: "serves I C st sv (on_db (admitted (admin C now auth) (\<lambda>u. create_account C now salt email name password r)) sv)"
| disable: "serves I C st sv (on_db (admitted (admin C now auth) (\<lambda>u. disable_account now u i)) sv)"
| remove: "serves I C st sv (on_db (admitted (admin C now auth) (\<lambda>u. delete_account C st now u i heir)) sv)"
| enable: "serves I C st sv (on_db (admitted (admin C now auth) (\<lambda>u. enable_account now i)) sv)"
| unlock: "serves I C st sv (on_db (admitted (admin C now auth) (\<lambda>u. unlock_account i)) sv)"
| set_role: "serves I C st sv (on_db (admitted (admin C now auth) (\<lambda>u. change_role u i r)) sv)"
| set_quota: "serves I C st sv (on_db (admitted (admin C now auth) (\<lambda>u. change_quota i bytes)) sv)"
| set_password: "serves I C st sv (on_db (admitted (admin C now auth) (\<lambda>u. reset_password C salt i password)) sv)"
| set_email: "serves I C st sv (on_db (admitted (admin C now auth) (\<lambda>u. change_email C i text)) sv)"
| expel: "serves I C st sv (on_db (admitted (admin C now auth) (\<lambda>u. sign_out_everywhere i)) sv)"
| methods: "serves I C st sv (on_db (admitted (admin C now auth) (\<lambda>u. set_methods configured allowed)) sv)"
| single_sign_on: "serves I C st sv (on_db (\<lambda>db. sso_answer (callback W (J :: (string \<times> string) token_library) C st configured
    now salt secret cookies code state (flows, db))) sv)"
| put_file: "serves I C st sv (snd (behind (writer C now auth) (\<lambda>u. on_world (put C st now tmp_name u path headers body)) sv))"
| get_file: "serves I C st sv (snd (behind (caller_of C now auth) (\<lambda>(u, via). on_world (get C st now u path)) sv))"
| move: "serves I C st sv (on_db (admitted (writer C now auth) (\<lambda>u. rename_handler C st now u source target)) sv)"
| delete_file: "serves I C st sv (on_db (admitted (writer C now auth) (\<lambda>u. delete_handler C st now u path)) sv)"
| new_folder: "serves I C st sv (on_db (admitted (writer C now auth) (\<lambda>u. create_folder C st now u path)) sv)"
| list_folder: "serves I C st sv (on_db (admitted (caller_of C now auth) (\<lambda>(u, via). list_handler C st now u path)) sv)"
| list_top: "serves I C st sv (on_db (admitted (caller_of C now auth) (\<lambda>(u, via). list_root C st now u)) sv)"
| list_versions: "serves I C st sv (on_db (admitted (caller_of C now auth) (\<lambda>(u, via). versions_handler C st now u path)) sv)"
| get_version: "serves I C st sv (snd (behind (caller_of C now auth) (\<lambda>(u, via). on_world (version_content C st now u i path)) sv))"
| take_back: "serves I C st sv (on_db (admitted (writer C now auth) (\<lambda>u. restore_version C st now u i path)) sv)"
| empty_the_trash: "serves I C st sv (on_db (admitted (writer C now auth) (\<lambda>u. empty_handler now u)) sv)"
| restore_trashed: "serves I C st sv (on_db (admitted (writer C now auth) (\<lambda>u. restore_handler u i)) sv)"
| purge_trashed: "serves I C st sv (on_db (admitted (writer C now auth) (\<lambda>u. purge_handler now u i)) sv)"
| grant: "serves I C st sv (on_db (admitted (writer C now auth) (\<lambda>u. give_handler C st now u path email acc)) sv)"
| ungrant: "serves I C st sv (on_db (admitted (caller_of C now auth) (\<lambda>(u, via). withdraw_handler u i)) sv)"
| share: "serves I C st sv (on_db (admitted (writer C now auth) (\<lambda>u. create_share C st random salt now u path expires password)) sv)"
| unshare: "serves I C st sv (on_db (admitted (caller_of C now auth) (\<lambda>(u, via). revoke_handler now u i)) sv)"
| open_shared: "serves I C st sv (on_db (open_link C now token path header) sv)"
| download_shared: "serves I C st sv (snd (on_world (download_link C now token path header) sv))"
| begin_sending: "serves I C st sv (snd (behind (writer C now auth) (\<lambda>u. begin_handler C st now u headers path bytes) sv))"
| send_more: "serves I C st sv (snd (behind (writer C now auth) (\<lambda>u. append_handler now renewals u i headers body) sv))"
| finish_sending: "serves I C st sv (snd (behind (writer C now auth) (\<lambda>u. finish C st now tmp_name u headers i) sv))"
| abandon_sending: "serves I C st sv (snd (behind (caller_of C now auth) (\<lambda>(u, via). abandon_handler now u i) sv))"
| thumbnail: "serves I C st sv (snd (behind (caller_of C now auth) (\<lambda>(u, via). on_world (get_thumbnail I C st now tmp_name u path edge)) sv))"
| dav: "serves I C st sv (snd (on_world (dav_serve C st now tmp_name auth rq) sv))"

definition installed :: "(nat \<Rightarrow> uuid) \<Rightarrow> server" where
  "installed ids = \<lparr>sv_world = \<lparr>w_db = empty_db ids, w_files = []\<rparr>, sv_staging = []\<rparr>"

text \<open>The states a server can come to from an empty installation.\<close>

inductive reachable :: "'i images \<Rightarrow> crates \<Rightarrow> app_state \<Rightarrow> server \<Rightarrow> bool" for I C st where
  fresh: "reachable I C st (installed ids)"
| next_state: "reachable I C st sv \<Longrightarrow> serves I C st sv sv' \<Longrightarrow> reachable I C st sv'"

inductive_cases servesE: "serves I C st sv sv'"
inductive_simps reachable_step: "reachable I C st sv"

section \<open>What every state keeps\<close>

definition intact :: "crates \<Rightarrow> server \<Rightarrow> bool" where
  "intact C sv \<longleftrightarrow> sound (w_db (sv_world sv)) \<and> stocked C (sv_world sv)"


lemma on_db_intact:
  assumes "intact C sv" and "\<And>db. sound db \<Longrightarrow> sound (snd (f db))" and "\<And>db. sound db \<Longrightarrow> keeps db (snd (f db))"
  shows "intact C (on_db f sv)"
  using assms with_db_stocked [of C "sv_world sv" f] with_db_keeps [where P = sound and w = "sv_world sv" and f = f]
  by (simp add: intact_def on_db_def)

lemma admitted_sound:
  "(\<And>db. sound db \<Longrightarrow> sound (snd (who db))) \<Longrightarrow> (\<And>u db. sound db \<Longrightarrow> sound (snd (f u db))) \<Longrightarrow>
   sound db \<Longrightarrow> sound (snd (admitted who f db))"
  unfolding admitted_def by (rule and_then_sound) blast+

lemma admitted_keeps:
  assumes "\<And>db. sound db \<Longrightarrow> sound (snd (who db))" and "\<And>db. keeps db (snd (who db))"
    and "\<And>u db. sound db \<Longrightarrow> keeps db (snd (f u db))" and "sound db"
  shows "keeps db (snd (admitted who f db))"
proof (cases "who db")
  case (Pair r db1)
  have "sound db1" "keeps db db1" using assms(1,2) [of db] assms(4) Pair by simp_all
  with Pair assms(3) show ?thesis by (cases r) (auto simp: admitted_def and_then_def intro: keeps_trans)
qed

lemma behind_intact:
  assumes "intact C sv" and "\<And>db. sound db \<Longrightarrow> sound (snd (who db))" and "\<And>db. keeps db (snd (who db))"
    and "\<And>u sv. intact C sv \<Longrightarrow> intact C (snd (f u sv))"
  shows "intact C (snd (behind who f sv))"
proof -
  have "intact C (sv\<lparr>sv_world := snd (with_db who (sv_world sv))\<rparr>)"
    using on_db_intact [OF assms(1-3)] by (simp add: on_db_def)
  then show ?thesis using assms(4)
    by (cases "with_db who (sv_world sv)"; cases "fst (with_db who (sv_world sv))") (auto simp: behind_def)
qed

lemma on_world_intact:
  "intact C sv \<Longrightarrow> (\<And>w. sound (w_db w) \<Longrightarrow> sound (w_db (snd (f w)))) \<Longrightarrow> (\<And>w. stocked C w \<Longrightarrow> stocked C (snd (f w))) \<Longrightarrow>
   intact C (snd (on_world f sv))"
  by (simp add: intact_def on_world_def case_prod_unfold)

lemma callers_sound:
  "sound db \<Longrightarrow> sound (snd (caller_of C now auth db))" "sound db \<Longrightarrow> sound (snd (writer C now auth db))"
  "sound db \<Longrightarrow> sound (snd (session_caller C now auth db))" "sound db \<Longrightarrow> sound (snd (admin C now auth db))"
proof -
  assume s: "sound db"
  show c: "sound (snd (caller_of C now auth db))" using s by (simp add: caller_sound)
  show "sound (snd (writer C now auth db))"
    unfolding writer_def by (rule and_then_sound) (auto simp: c)
  show ses: "sound (snd (session_caller C now auth db))"
    unfolding session_caller_def by (rule and_then_sound) (auto simp: c split: credential.split)
  show "sound (snd (admin C now auth db))"
    unfolding admin_def by (rule and_then_sound) (auto simp: ses)
qed

lemma callers_keep:
  "keeps db (snd (caller_of C now auth db))" "keeps db (snd (writer C now auth db))"
  "keeps db (snd (session_caller C now auth db))" "keeps db (snd (admin C now auth db))"
proof -
  show c: "keeps db (snd (caller_of C now auth db))" by (rule caller_keeps)
  show "keeps db (snd (writer C now auth db))"
    unfolding writer_def by (rule keeps_and_then) (auto simp: c)
  show ses: "keeps db (snd (session_caller C now auth db))"
    unfolding session_caller_def by (rule keeps_and_then) (auto simp: c split: credential.split)
  show "keeps db (snd (admin C now auth db))"
    unfolding admin_def by (rule keeps_and_then) (auto simp: ses)
qed

lemma dav_serve_intact:
  assumes "collision_free C" and "intact C sv"
  shows "intact C (snd (on_world (dav_serve C st now tmp_name auth rq) sv))"
proof -
  let ?w = "(sv_world sv)\<lparr>w_db := snd (dav_caller C now auth (w_db (sv_world sv)))\<rparr>"
  have "\<exists>ps. snd (dav_caller C now auth (w_db (sv_world sv))) = (w_db (sv_world sv))\<lparr>app_passwords := ps\<rparr>"
  proof (cases "basic_credentials C auth")
    case None
    then show ?thesis by (intro exI [of _ "app_passwords (w_db (sv_world sv))"]) (simp add: dav_caller_def)
  next
    case (Some c)
    obtain ps where "snd (authenticate C now (fst c) (snd c) (w_db (sv_world sv))) = (w_db (sv_world sv))\<lparr>app_passwords := ps\<rparr>"
      by (rule authenticate_frame)
    then show ?thesis using Some by (cases c) (auto simp: dav_caller_def case_prod_unfold)
  qed
  then obtain ps where ps: "snd (dav_caller C now auth (w_db (sv_world sv))) = (w_db (sv_world sv))\<lparr>app_passwords := ps\<rparr>"
    by blast
  have "sound (w_db ?w)" "stocked C ?w"
    using assms(2) ps stocked_db [of C "sv_world sv" "w_db ?w"] by (simp_all add: intact_def)
      (cases "sv_world sv", simp)
  then show ?thesis using dispatch_sound dispatch_stocked [OF assms(1)]
    by (cases "dav_caller C now auth (w_db (sv_world sv))"; cases "fst (dav_caller C now auth (w_db (sv_world sv)))")
      (auto simp: on_world_def dav_serve_def intact_def case_prod_unfold)
qed

lemma sessions_intact: "intact C sv \<Longrightarrow> sessions_only sv sv' \<Longrightarrow> intact C sv'"
  by (simp add: intact_def sessions_only_sound sessions_only_stocked)

lemma uploads_intact:
  assumes "collision_free C" and "intact C sv"
  shows "intact C (snd (begin_handler C st now u headers path bytes sv))"
    and "intact C (snd (append_handler now renewals u i headers body sv))"
    and "intact C (snd (finish C st now tmp_name u headers i sv))"
    and "intact C (snd (abandon_handler now u i sv))"
  using assms begin_handler_sound begin_handler_stocked finish_sound finish_stocked
  by (auto simp: intact_def intro: sessions_only_sound sessions_only_stocked append_handler_only abandon_handler_only)

lemma tick_intact: "collision_free C \<Longrightarrow> intact C sv \<Longrightarrow> intact C (tick C st now grace sv)"
  using tick_stocked [of C sv st now grace] tick_tidy [of C sv st now grace]
  by (simp add: intact_def tidy_def stocked_def)

lemma bootstrap_kept:
  "sound db \<Longrightarrow> sound (snd (bootstrap_admin C now salt configured db))"
  "keeps db (snd (bootstrap_admin C now salt configured db))"
  by (auto simp: bootstrap_admin_def rbind_eq_Inr split: option.split sum.split
      intro!: transact_sound keeps_transact dest: create_user_Inr(7) create_user_keeps)

lemma recover_sound: "sound db \<Longrightarrow> sound (snd (recover_password C salt email plaintext db))"
  by (auto simp: recover_password_def split: option.split intro!: and_then_sound replace_password_sound)

lemma mint_handler_sound: "sound db \<Longrightarrow> sound (snd (mint_handler C random now u name db))"
  by (auto simp: mint_handler_def mint_app_password_def Let_def case_prod_unfold split: option.split if_splits intro!: transact_sound)

lemma revoke_app_password_kept:
  "sound db \<Longrightarrow> sound (snd (execute (revoke_app_password now i k) db))"
  "keeps db (snd (execute (revoke_app_password now i k) db))"
  by (auto simp: revoke_app_password_def Let_def split: if_splits intro!: execute_sound keeps_execute)

lemma revoke_presented_sound: "sound db \<Longrightarrow> sound (snd (revoke_presented now u via db))"
  by (simp add: revoke_presented_def revoke_app_password_kept split: credential.split)

lemma check_settled:
  assumes "sound db" and "run_check C reads now opts db = Inr (f, db')"
  shows "db' = db"
proof -
  have "wrong_counts db = []" "wrong_usages db = []"
    using balanced_check assms(1) by (simp_all add: sound_def)
  with assms(2) show ?thesis
    by (auto simp: run_check_def rbind_eq_Inr repair_def dest: inspect_all_rows split: if_splits)
qed

lemmas handlers_sound =
  login_sound update_profile_sound change_password_sound mint_handler_sound revoke_app_password_kept(1) revoke_presented_sound
  create_account_sound disable_sound delete_account_kept(1) enable_sound unlock_sound change_role_sound change_quota_sound change_email_sound sign_out_sound
  rename_handler_sound delete_handler_sound create_folder_sound list_handler_sound list_root_sound versions_handler_sound
  restore_version_sound trash_handlers_sound give_handler_sound share_handlers_sound

lemmas handlers_keep =
  login_keeps account_handlers_keep delete_account_kept(2) revoke_app_password_kept(2) rename_handler_keeps delete_handler_keeps create_folder_keeps
  list_handler_keeps list_root_keeps versions_handler_keeps restore_version_keeps trash_handlers_keep give_handler_keeps
  share_handlers_keep

lemma settings_kept:
  "sound db \<Longrightarrow> sound (snd (logout i db))" "sound (allow_password_login allowed db) = sound db"
  "keeps db (allow_password_login allowed db)" "sound db \<Longrightarrow> sound (snd (reset_password C salt i password db))"
  by (simp_all add: logout_def revoke_session_def allow_password_login_def reset_password_def replace_password_sound)

lemma single_sign_on_kept:
  "sound db \<Longrightarrow> sound (snd (sso_answer (callback W J C st configured now salt secret cookies code state (flows, db))))"
  "keeps db (snd (sso_answer (callback W J C st configured now salt secret cookies code state (flows, db))))"
  "sound db \<Longrightarrow> sound (snd (set_methods configured allowed db))" "keeps db (snd (set_methods configured allowed db))"
  by (simp_all add: sso_answer_def callback_sound set_methods_sound)
    (rule callback_kept, auto simp: set_methods_def allow_password_login_def intro: create_user_keeps open_session_keeps)

lemma serves_intact:
  assumes "collision_free C" and "serves I C st sv sv'" and "intact C sv"
  shows "intact C sv'"
  using assms(2)
proof cases
  case (check now opts f db)
  have "db = w_db (sv_world sv)" using check_settled [OF _ check(2)] assms(3) by (simp add: intact_def)
  with check(1) assms(3) show ?thesis by simp
next
  case turn
  with tick_intact assms show ?thesis by simp
next
  case dav
  with dav_serve_intact assms show ?thesis by simp
qed (unfold case_prod_unfold, (hypsubst, (intro on_db_intact admitted_sound admitted_keeps behind_intact
    on_world_intact uploads_intact callers_sound callers_keep handlers_sound handlers_keep bootstrap_kept recover_sound
    put_sound put_stocked get_sound get_stocked version_content_sound version_content_stocked download_link_sound
    download_link_stocked get_thumbnail_sound get_thumbnail_stocked settings_kept single_sign_on_kept assms; (simp add: settings_kept)?; fail))+)

lemma installed_intact: "intact C (installed ids)"
proof -
  have "sound (empty_db ids)"
    by (simp add: sound_def schema_ok_def nodes_ok_def blobs_ok_def quotas_ok_def versions_ok_def thumbnails_ok_def
        tree_ok_def tree_rows_def forest_def balanced_def empty_db_def stored_refs_def find_blob_def
        expected_references_def used_def find_quota_def expected_usage_def nodes_violation_def below_def acyclic_def)
  then show ?thesis by (simp add: intact_def installed_def stocked_def content_addressed_def empty_db_def)
qed

lemma reachable_intact:
  assumes "collision_free C" and "reachable I C st sv"
  shows "intact C sv"
  using assms(2) by induction (use installed_intact serves_intact [OF assms(1)] in blast)+

lemma read_hash:
  assumes "collision_free C" and "content_addressed C fs" and "local_read C h fs = Inr b"
  shows "blake3 C b = h"
proof -
  obtain f where f: "map_of fs (path_for C h) = Some f" "f_bytes f = b"
    using assms(3) by (auto simp: local_read_def split: option.splits)
  with assms(2) path_for_length [of C h] have "path_for C h = path_for C (blake3 C b)"
    unfolding content_addressed_iff by fastforce
  with assms(1) show ?thesis by (auto simp: path_for_inj collision_free_def)
qed

lemma intact_reads:
  assumes "collision_free C" and "intact C sv" and "has_blob (w_db (sv_world sv)) h"
  shows "\<exists>b. local_read C h (w_files (sv_world sv)) = Inr b \<and> blake3 C b = h"
  using assms read_hash [OF assms(1)] unfolding intact_def stocked_iff by blast

lemma wanted_has_blob:
  assumes "sound db" and "h \<in> set (wanted db)"
  shows "has_blob db h"
proof -
  have n: "nodes_ok db" "versions_ok db" "thumbnails_ok db" using assms(1) by (simp_all add: sound_def schema_okD)
  consider n where "n \<in> set (nodes db)" "n_blob n = Some h" | v where "v \<in> set (versions db)" "v_blob v = h"
    | t where "t \<in> set (thumbnails db)" "t_blob t = h"
    using assms(2) by (auto simp: wanted_def List.map_filter_def)
  then show ?thesis
  proof cases
    case 1
    with nodes_ok_blob [OF n(1)] show ?thesis by (auto simp: has_blob_def)
  next
    case 2
    with n(2) show ?thesis by (auto simp: versions_ok_def list_all_iff has_blob_def)
  next
    case 3
    with n(3) show ?thesis by (auto simp: thumbnails_ok_def list_all_iff)
  qed
qed

lemma inspect_all_sound:
  "(\<And>h. h \<in> set hs \<Longrightarrow> \<exists>bytes. reads h = Inr bytes \<and> (v \<longrightarrow> blake3 C bytes = h)) \<Longrightarrow>
   inspect_all C reads v hs f = Inr f"
proof (induction hs)
  case (Cons h hs)
  from Cons.prems [of h] obtain bytes where "reads h = Inr bytes" "v \<longrightarrow> blake3 C bytes = h" by auto
  then have "inspect C reads h v = Inr Sound" by (auto simp: inspect_def)
  with Cons show ?case by simp
qed simp

text \<open>
  On a sound database whose blobs can all be read and hash to their names, the consistency check
  finds nothing and changes nothing, whether or not it was asked to repair.
\<close>

lemma sound_is_clean:
  assumes "sound db"
    and "\<And>h. h \<in> set (wanted db) \<Longrightarrow> \<exists>bytes. reads h = Inr bytes \<and> blake3 C bytes = h"
  shows "\<exists>f. run_check C reads now opts db = Inr (f, db) \<and> is_clean f"
proof -
  have "wrong_counts db = []" "wrong_usages db = []"
    using balanced_check assms(1) by (simp_all add: sound_def)
  moreover have "inspect_all C reads (verify_content opts) (wanted db) f = Inr f" for f
    by (rule inspect_all_sound) (use assms(2) in blast)
  ultimately show ?thesis
    by (simp add: run_check_def is_clean_def needs_a_person_def repair_def)
qed

section \<open>Properties\<close>

text \<open>
  C1. Whatever a server has served since it was installed, the consistency check finds nothing: no
  blob is missing, no bytes differ from their digest, no reference count and no usage is off, and a
  check that repairs changes nothing.
\<close>

theorem reachable_is_clean:
  assumes "collision_free C" and "reachable I C st sv"
  shows "\<exists>f. run_check C (\<lambda>h. local_read C h (w_files (sv_world sv))) now opts (w_db (sv_world sv))
      = Inr (f, w_db (sv_world sv)) \<and> is_clean f"
proof (rule sound_is_clean)
  have i: "intact C sv" by (rule reachable_intact [OF assms])
  then show "sound (w_db (sv_world sv))" by (simp add: intact_def)
  from wanted_has_blob [OF this] intact_reads [OF assms(1) i]
  show "\<exists>bytes. local_read C h (w_files (sv_world sv)) = Inr bytes \<and> blake3 C bytes = h"
    if "h \<in> set (wanted (w_db (sv_world sv)))" for h
    using that by blast
qed

text \<open>An installation, its first account signing in, and a file put by it.\<close>

definition no_images :: "unit images" where
  "no_images = \<lparr>guess_format = (\<lambda>_. None), into_dimensions = (\<lambda>_. None), decode_image = (\<lambda>_ _. None),
     image_width = (\<lambda>_. 0), image_height = (\<lambda>_. 0), image_thumbnail = (\<lambda>_. id), write_webp = (\<lambda>_. None)\<rparr>"

definition sample_started :: server where
  "sample_started = on_db (login sample_crates sample_state 5 ''ada@example.com'' ''correct horse'')
     (on_db (bootstrap_admin sample_crates 4 ''salt'' (Some (''ada@example.com'', ''correct horse''))) (installed Suc))"

definition sample_served :: server where
  "sample_served = snd (behind (writer sample_crates 6 (Some ''Bearer u.ss''))
     (\<lambda>u. on_world (put sample_crates sample_state 6 ''t'' u ''f'' (\<lambda>_. None) [Inr ''hi''])) sample_started)"

lemma sample_reachable: "reachable no_images sample_crates sample_state sample_served"
proof -
  have "reachable no_images sample_crates sample_state sample_started" unfolding sample_started_def
    by (intro reachable.next_state [OF _ serves.sign_in] reachable.next_state [OF _ serves.start] reachable.fresh)
  then show ?thesis unfolding sample_served_def by (rule reachable.next_state [OF _ serves.put_file])
qed

theorem reachable_is_clean_witness:
  "\<exists>f. run_check sample_crates (\<lambda>h. local_read sample_crates h (w_files (sv_world sample_served))) 7
      \<lparr>verify_content = True, do_repair = True\<rparr> (w_db (sv_world sample_served)) = Inr (f, w_db (sv_world sample_served)) \<and> is_clean f"
  by (rule reachable_is_clean [OF sample_collision_free sample_reachable])

lemma distinct_key: "distinct (map f xs) \<Longrightarrow> x \<in> set xs \<Longrightarrow> y \<in> set xs \<Longrightarrow> f x = f y \<Longrightarrow> x = y"
  by (auto simp: distinct_map dest: inj_onD)

text \<open>
  C2. In every state a server can come to, the rows mean what their types say: a node belongs to an
  account; a file has a blob, whose bytes can be read and have its digest, and a directory has none;
  a root is a directory without a name, and any other node hangs in a directory of the same account
  that is live if it is; no two live nodes of a directory share a name; no node is above itself; and
  every account is charged for what it holds.
\<close>

theorem reachable_typed:
  assumes "collision_free C" and "reachable I C st sv"
  defines "db \<equiv> w_db (sv_world sv)"
  shows "(\<forall>n\<in>set (nodes db). n_owner n \<in> u_id ` set (users db) \<and> 0 \<le> n_size n
      \<and> (case n_kind n of
           File \<Rightarrow> \<exists>h b. n_blob n = Some h \<and> local_read C h (w_files (sv_world sv)) = Inr b \<and> blake3 C b = h
         | Directory \<Rightarrow> n_blob n = None \<and> n_size n = 0)
      \<and> (case n_parent n of
           None \<Rightarrow> n_kind n = Directory \<and> n_name n = []
         | Some p \<Rightarrow> \<exists>m\<in>set (nodes db). n_id m = p \<and> n_kind m = Directory \<and> n_owner m = n_owner n \<and> (live n \<longrightarrow> live m)))
    \<and> (\<forall>n\<in>set (nodes db). \<forall>m\<in>set (nodes db). live n \<and> live m \<and> n_parent n \<noteq> None
         \<and> n_parent m = n_parent n \<and> n_name m = n_name n \<longrightarrow> m = n)
    \<and> acyclic (below all_rows (nodes db))
    \<and> (\<forall>owner. used db owner = expected_usage db owner)"
proof -
  have i: "intact C sv" by (rule reachable_intact [OF assms(1,2)])
  then have s: "sound db" by (simp add: intact_def db_def)
  then have ok: "nodes_ok db" "tree_ok db" "balanced db" by (simp_all add: sound_def schema_okD)
  have tr: "forest (nodes db)" "\<And>n p. n \<in> set (nodes db) \<Longrightarrow> p \<in> set (nodes db) \<Longrightarrow> n_parent n = Some (n_id p) \<Longrightarrow> hangs n p"
    "\<And>n. n \<in> set (nodes db) \<Longrightarrow> n_parent n = None \<Longrightarrow> heads n"
    using ok(2) by (auto simp: tree_ok_def tree_rows_def list_all_iff)
  have owner: "n_owner n \<in> u_id ` set (users db)" if "n \<in> set (nodes db)" for n
    using ok(1) that by (auto simp: nodes_ok_def nodes_violation_None list_all_iff)
  have row: "0 \<le> n_size n \<and> (case n_kind n of
           File \<Rightarrow> \<exists>h b. n_blob n = Some h \<and> local_read C h (w_files (sv_world sv)) = Inr b \<and> blake3 C b = h
         | Directory \<Rightarrow> n_blob n = None \<and> n_size n = 0)" if n: "n \<in> set (nodes db)" for n
  proof -
    note c = nodes_ok_checks [OF ok(1) n]
    show ?thesis
    proof (cases "n_kind n")
      case File
      with node_checks_file [OF c] obtain h where h: "n_blob n = Some h" by auto
      with nodes_ok_blob [OF ok(1) n] have "has_blob (w_db (sv_world sv)) h" by (auto simp: has_blob_def db_def)
      from intact_reads [OF assms(1) i this] h File node_checks_size [OF c] show ?thesis by simp
    qed (use node_checks_directory [OF c] node_checks_size [OF c] in simp)
  qed
  have up: "case n_parent n of
           None \<Rightarrow> n_kind n = Directory \<and> n_name n = []
         | Some p \<Rightarrow> \<exists>m\<in>set (nodes db). n_id m = p \<and> n_kind m = Directory \<and> n_owner m = n_owner n \<and> (live n \<longrightarrow> live m)"
    if n: "n \<in> set (nodes db)" for n
  proof (cases "n_parent n")
    case None
    with nodes_ok_checks [OF ok(1) n] tr(3) [OF n] show ?thesis by (simp add: node_checks_def heads_def)
  next
    case (Some p)
    with nodes_ok_parent [OF ok(1) n] obtain m where m: "m \<in> set (nodes db)" "n_id m = p" by auto
    with tr(2) [OF n m(1)] Some show ?thesis by (auto simp: hangs_def intro!: bexI [of _ m])
  qed
  have same: "m = n" if "n \<in> set (nodes db)" "m \<in> set (nodes db)" "live n \<and> live m \<and> n_parent n \<noteq> None
         \<and> n_parent m = n_parent n \<and> n_name m = n_name n" for n m
  proof -
    have "distinct (map (\<lambda>n. (n_parent n, n_name n)) (filter (\<lambda>n. live n \<and> n_parent n \<noteq> None) (nodes db)))"
      using ok(1) by (simp add: nodes_ok_def nodes_violation_None)
    from distinct_key [OF this, of m n] that show ?thesis by auto
  qed
  have "acyclic (below all_rows (nodes db))" "\<forall>owner. used db owner = expected_usage db owner"
    using tr(1) ok(3) by (simp_all add: forest_def balanced_def)
  with owner row up same show ?thesis by blast
qed

theorem reachable_typed_witness:
  "list_all (\<lambda>n. n_owner n \<in> set (map u_id (users (w_db (sv_world sample_served))))) (nodes (w_db (sv_world sample_served)))
   \<and> acyclic (below all_rows (nodes (w_db (sv_world sample_served))))"
proof (intro conjI)
  note typed = reachable_typed [OF sample_collision_free sample_reachable]
  show "list_all (\<lambda>n. n_owner n \<in> set (map u_id (users (w_db (sv_world sample_served))))) (nodes (w_db (sv_world sample_served)))"
    unfolding list_all_iff set_map using typed by blast
  show "acyclic (below all_rows (nodes (w_db (sv_world sample_served))))" using typed by blast
qed

end
