(* ===== verification/Answers.thy ===== *)
theory Answers
  imports Dav
begin

text \<open>
  What an error answers: \<open>api/src/error.rs\<close>, with the texts of \<open>password.rs\<close>, \<open>thumbnails.rs\<close> and
  \<open>crates/core/src\<close> that it prints. The lemmas state which errors are failures of the server and
  that such a failure tells a client nothing.
\<close>

section \<open>Texts\<close>

definition decimal_int :: "int \<Rightarrow> string" where
  "decimal_int k = (if k < 0 then CHR ''-'' # decimal (nat (- k)) else decimal (nat k))"

fun weak_password_text :: "weak_password \<Rightarrow> string" where
  "weak_password_text (TooShort minimum) = ''password must be at least '' @ decimal minimum @ '' characters''"

fun name_text :: "invalid_node_name \<Rightarrow> string" where
  "name_text Empty = ''name is empty''"
| "name_text Separator = ''name contains a path separator''"
| "name_text Relative = ''`.` and `..` are not names''"
| "name_text TooLong = ''name is longer than '' @ decimal MAX_NAME_LEN @ '' bytes''"
| "name_text Control = ''name contains a control character''"

fun email_text :: "invalid_email \<Rightarrow> string" where
  "email_text EmailEmpty = ''email is empty''"
| "email_text EmailTooLong = ''email is longer than '' @ decimal MAX_EMAIL_LEN @ '' bytes''"
| "email_text EmailShape = ''email needs a local part and a domain separated by @''"

fun image_text :: "not_an_image \<Rightarrow> string" where
  "image_text Format = ''no thumbnail is made of this kind of file''"
| "image_text TooBig = ''this image is too large to make a thumbnail of''"
| "image_text Unreadable = ''this image could not be read''"

fun error_text :: "api_error \<Rightarrow> string" where
  "error_text Unauthenticated = ''unauthenticated''"
| "error_text InvalidCredentials = ''wrong email or password''"
| "error_text (WeakPassword w) = weak_password_text w"
| "error_text Credential = ''internal credential failure''"
| "error_text NotFound = ''not found''"
| "error_text SharePassword = ''this link needs its password''"
| "error_text (TooManyAttempts seconds) = ''too many attempts, try again in '' @ decimal_int seconds @ '' seconds''"
| "error_text Forbidden = ''this account may not write''"
| "error_text SessionRequired = ''an app password cannot manage the account, sign in with the account's password''"
| "error_text AppPasswordRequired = ''only an app password can revoke itself, a session revokes one by its id''"
| "error_text (Conflict what) = what @ '' already exists''"
| "error_text MoveIntoSelf = ''a directory cannot be moved inside itself''"
| "error_text AlreadyGranted = ''this address already reaches this through another share''"
| "error_text AcrossAccounts = ''a move cannot cross from one account's files into another's, copy it instead''"
| "error_text (Locked what) = what @ '' is locked''"
| "error_text (InvalidPath e) = ''invalid path: '' @ name_text e"
| "error_text (InvalidEmail e) = email_text e"
| "error_text QuotaExceeded = ''quota exceeded''"
| "error_text PreconditionFailed = ''the file changed since this client last saw it''"
| "error_text (OffsetMismatch expected) = ''this upload is at '' @ decimal_int expected @ '' bytes''"
| "error_text (Incomplete arrived expected) =
     ''this upload has '' @ decimal_int arrived @ '' of '' @ decimal_int expected @ '' bytes''"
| "error_text (TooManySessions most) = ''this account already has '' @ decimal_int most @ '' uploads open''"
| "error_text AlreadyWriting = ''another request is writing to this upload''"
| "error_text (WrongKind expected) = ''expected a '' @ expected"
| "error_text (NotAnImage e) = image_text e"
| "error_text (Storage _) = ''storage failure''"
| "error_text (Database _) = ''database failure''"

section \<open>Answers\<close>

fun error_status :: "api_error \<Rightarrow> nat" where
  "error_status Unauthenticated = 401"
| "error_status InvalidCredentials = 401"
| "error_status SharePassword = 401"
| "error_status (WeakPassword _) = 422"
| "error_status NotFound = 404"
| "error_status (Storage (BlobNotFound _)) = 404"
| "error_status Forbidden = 403"
| "error_status SessionRequired = 403"
| "error_status AcrossAccounts = 403"
| "error_status (Conflict _) = 409"
| "error_status MoveIntoSelf = 409"
| "error_status AlreadyGranted = 409"
| "error_status AlreadyWriting = 409"
| "error_status (OffsetMismatch _) = 409"
| "error_status (Locked _) = 423"
| "error_status (Incomplete _ _) = 400"
| "error_status AppPasswordRequired = 400"
| "error_status (InvalidPath _) = 400"
| "error_status (InvalidEmail _) = 400"
| "error_status (WrongKind _) = 400"
| "error_status (NotAnImage _) = 400"
| "error_status QuotaExceeded = 507"
| "error_status PreconditionFailed = 412"
| "error_status (TooManySessions _) = 429"
| "error_status (TooManyAttempts _) = 429"
| "error_status Credential = 500"
| "error_status (Storage _) = 500"
| "error_status (Database _) = 500"

definition is_server_error :: "nat \<Rightarrow> bool" where
  "is_server_error code \<longleftrightarrow> 500 \<le> code \<and> code < 600"

text \<open>A string as \<open>serde_json\<close> writes it: the quote, the backslash and the control bytes are escaped.\<close>

definition json_char :: "char \<Rightarrow> string" where
  "json_char c = (let k = of_char c :: nat in
     if c = CHR 0x22 then [CHR 0x5C, CHR 0x22]
     else if c = CHR 0x5C then [CHR 0x5C, CHR 0x5C]
     else if k = 8 then CHR 0x5C # ''b'' else if k = 9 then CHR 0x5C # ''t'' else if k = 10 then CHR 0x5C # ''n''
     else if k = 12 then CHR 0x5C # ''f'' else if k = 13 then CHR 0x5C # ''r''
     else if k < 32 then CHR 0x5C # ''u00'' @ [hex_digit (k div 16), hex_digit (k mod 16)]
     else [c])"

definition json_string :: "string \<Rightarrow> string" where
  "json_string s = CHR 0x22 # concat (map json_char s) @ [CHR 0x22]"

definition error_body :: "api_error \<Rightarrow> string" where
  "error_body e = (if is_server_error (error_status e) then ''internal error'' else error_text e)"

definition error_response :: "api_error \<Rightarrow> response" where
  "error_response e = \<lparr>rs_status = error_status e,
     rs_headers = (''content-type'', ''application/json'')
       # (case e of
            OffsetMismatch expected \<Rightarrow> [(''upload-offset'', decimal_int expected)]
          | TooManyAttempts seconds \<Rightarrow> [(''retry-after'', decimal_int seconds)]
          | _ \<Rightarrow> []),
     rs_body = ''{'' @ json_string ''error'' @ '':'' @ json_string (error_body e) @ ''}''\<rparr>"

section \<open>What an answer shows\<close>

text \<open>The failures whose cause lies inside the server.\<close>

fun internal :: "api_error \<Rightarrow> bool" where
  "internal Credential = True"
| "internal (Storage (BlobNotFound _)) = False"
| "internal (Storage _) = True"
| "internal (Database _) = True"
| "internal _ = False"

lemma error_status_cases:
  "is_server_error (error_status e) \<longleftrightarrow> internal e \<or> e = QuotaExceeded"
proof (cases e)
  case (Storage s)
  then show ?thesis by (cases s) (simp_all add: is_server_error_def)
qed (simp_all add: is_server_error_def)

lemma internal_status: "internal e \<Longrightarrow> error_status e = 500"
  by (cases e rule: internal.cases) simp_all

lemma internal_headers: "internal e \<Longrightarrow> rs_headers (error_response e) = [(''content-type'', ''application/json'')]"
  by (cases e) (simp_all add: error_response_def)

section \<open>Properties\<close>

text \<open>
  A failure inside the server shows nothing of itself: whatever broke, the answer is the same
  one, with status 500. Every other error is answered in the four hundreds with its own text, but
  for a full quota.
\<close>

theorem failures_look_alike:
  "(internal e \<longrightarrow> error_response e = error_response Credential \<and> rs_status (error_response e) = 500)
   \<and> (\<not> internal e \<and> e \<noteq> QuotaExceeded \<longrightarrow>
        400 \<le> rs_status (error_response e) \<and> rs_status (error_response e) < 500 \<and> error_body e = error_text e)"
proof (intro conjI impI)
  assume i: "internal e"
  then have "error_body e = error_body Credential"
    using error_status_cases [of e] error_status_cases [of Credential] by (simp add: error_body_def)
  then show "error_response e = error_response Credential"
    using internal_status [OF i] internal_headers [OF i] by (simp add: error_response_def)
  show "rs_status (error_response e) = 500" using internal_status [OF i] by (simp add: error_response_def)
next
  assume n: "\<not> internal e \<and> e \<noteq> QuotaExceeded"
  then show "400 \<le> rs_status (error_response e)" "rs_status (error_response e) < 500"
    using error_status_cases [of e]
    by (cases e rule: error_status.cases; simp add: error_response_def)+
  show "error_body e = error_text e" using n error_status_cases [of e] by (simp add: error_body_def)
qed

theorem failures_look_alike_witness:
  "error_response (Database RowNotFound) = error_response (Storage Upstream)
   \<and> error_body (Conflict ''a'') = ''a already exists''"
proof -
  have "error_response (Database RowNotFound) = error_response Credential"
    "error_response (Storage Upstream) = error_response Credential"
    using failures_look_alike [of "Database RowNotFound"] failures_look_alike [of "Storage Upstream"] by simp_all
  moreover have "error_body (Conflict ''a'') = error_text (Conflict ''a'')"
    using failures_look_alike [of "Conflict ''a''"] by simp
  ultimately show ?thesis by simp
qed

text \<open>A quota that is full is answered as if the server had failed, and its text is not shown.\<close>

lemma full_quota_looks_internal: "error_status QuotaExceeded = 507 \<and> error_body QuotaExceeded = ''internal error''"
  by (simp add: error_body_def is_server_error_def)

end
