(* ===== verification/Disk.thy ===== *)
theory Disk
  imports Held Fit Signin
begin

text \<open>
  The synced folder as the engine uses it: the calls of \<open>std::fs\<close> that \<open>sync/engine.rs\<close> makes, and
  the scan of \<open>sync/local.rs\<close>. A disk is what its paths hold; a name is its bytes. A link or a
  device is \<open>Special\<close>, with whether it is a link to a file: it is in the way of whatever wants its path,
  and only the question whether a path is a file looks through it.
\<close>

section \<open>The file system\<close>

datatype item = Folder | Stored string "int option" | Special bool

type_synonym disk = "(local_path \<times> item) list"

text \<open>What can go wrong with a path; the code prints it with the path.\<close>

datatype fault =
    Creating local_path
  | Removing local_path
  | Renaming local_path
  | Moving local_path
  | Deleting local_path
  | Vanished
  | Refused string

type_synonym 'a effect = "(fault + 'a) \<times> disk"

definition read_dir :: "local_path \<Rightarrow> disk \<Rightarrow> (string \<times> item) list option" where
  "read_dir p d =
     (if map_of d p \<noteq> Some Folder then None
      else Some (map (\<lambda>(q, x). (last q, x)) (filter (\<lambda>(q, _). q \<noteq> [] \<and> butlast q = p) d)))"

fun make_dirs :: "local_path list \<Rightarrow> disk \<Rightarrow> bool \<times> disk" where
  "make_dirs [] d = (True, d)"
| "make_dirs (p # ps) d =
     (case map_of d p of
        Some Folder \<Rightarrow> make_dirs ps d
      | None \<Rightarrow> make_dirs ps (AList.update p Folder d)
      | Some _ \<Rightarrow> (False, d))"

definition prefixes_of :: "local_path \<Rightarrow> local_path list" where
  "prefixes_of p = map (\<lambda>k. take k p) [0..<Suc (length p)]"

definition create_dir_all :: "local_path \<Rightarrow> disk \<Rightarrow> bool \<times> disk" where
  "create_dir_all p d = make_dirs (prefixes_of p) d"

definition under_folder :: "local_path \<Rightarrow> disk \<Rightarrow> bool" where
  "under_folder p d \<longleftrightarrow> p \<noteq> [] \<and> map_of d (butlast p) = Some Folder"

definition put_item :: "local_path \<Rightarrow> string \<Rightarrow> int option \<Rightarrow> disk \<Rightarrow> bool \<times> disk" where
  "put_item p bytes mtime d =
     (if \<not> under_folder p d \<or> map_of d p \<in> {Some Folder, Some (Special False), Some (Special True)} then (False, d)
      else (True, AList.update p (Stored bytes mtime) d))"

text \<open>\<open>fs::rename\<close>: a file replaces a file, a directory goes with what is in it.\<close>

definition rename_item :: "local_path \<Rightarrow> local_path \<Rightarrow> disk \<Rightarrow> bool \<times> disk" where
  "rename_item source target d =
     (case map_of d source of
        None \<Rightarrow> (False, d)
      | Some Folder \<Rightarrow>
          if \<not> under_folder target d \<or> take (length source) target = source
            \<or> (map_of d target \<noteq> None \<and> read_dir target d \<noteq> Some []) then (False, d)
          else (True, map (\<lambda>(q, x). (if take (length source) q = source then target @ drop (length source) q else q, x))
            (AList.delete target d))
      | Some x \<Rightarrow>
          if \<not> under_folder target d \<or> map_of d target = Some Folder then (False, d)
          else (True, AList.update target x (AList.delete source d)))"

section \<open>What the engine does to the disk\<close>

definition create_directory :: "local_path \<Rightarrow> disk \<Rightarrow> unit effect" where
  "create_directory p d = (case create_dir_all p d of (ok, d1) \<Rightarrow> (if ok then Inr () else Inl (Creating p), d1))"

text \<open>Names that are not text are never ignored.\<close>

definition is_text :: "string \<Rightarrow> bool" where
  "is_text name \<longleftrightarrow> from_utf8 name \<noteq> None"

text \<open>What \<open>is_file\<close> answers: a file, or a link to one.\<close>

fun leads_to_file :: "item \<Rightarrow> bool" where
  "leads_to_file Folder = False"
| "leads_to_file (Stored _ _) = True"
| "leads_to_file (Special linked) = linked"

definition clears :: "unicode \<Rightarrow> string \<times> item \<Rightarrow> bool" where
  "clears U e = (case e of (name, x) \<Rightarrow> is_text name \<and> is_ignored U name \<and> leads_to_file x)"

definition remove_directory :: "unicode \<Rightarrow> local_path \<Rightarrow> disk \<Rightarrow> unit effect" where
  "remove_directory U p d =
     (case read_dir p d of
        None \<Rightarrow> (Inl (Removing p), d)
      | Some es \<Rightarrow>
          let d1 = fold (\<lambda>(name, _). AList.delete (p @ [name])) (filter (clears U) es) d
          in if read_dir p d1 = Some [] then (Inr (), AList.delete p d1) else (Inl (Removing p), d1))"

text \<open>A file that is gone already is no error; one below something that is no directory is.\<close>

definition remove_file :: "local_path \<Rightarrow> disk \<Rightarrow> unit effect" where
  "remove_file p d =
     (case map_of d p of
        Some Folder \<Rightarrow> (Inl (Deleting p), d)
      | Some _ \<Rightarrow> (Inr (), AList.delete p d)
      | None \<Rightarrow>
          if list_ex (\<lambda>q. map_of d q \<noteq> None \<and> map_of d q \<noteq> Some Folder) (prefixes_of p)
          then (Inl (Deleting p), d) else (Inr (), d))"

definition mtime_of :: "local_path \<Rightarrow> disk \<Rightarrow> int option" where
  "mtime_of p d = (case map_of d p of Some (Stored _ m) \<Rightarrow> m | _ \<Rightarrow> None)"

section \<open>The scan\<close>

definition entry_file :: "crates \<Rightarrow> blob_hash \<Rightarrow> nat \<Rightarrow> entry" where
  "entry_file C h bytes = EFile (etag_for_file C h) (of_nat bytes)"

record scanned =
  sc_entry :: entry
  sc_mtime :: "int option"

record local_scan =
  ls_entries :: "(relpath, scanned) rbt"
  ls_skipped :: "local_path list"

definition scan_snapshot :: "local_scan \<Rightarrow> snapshot" where
  "scan_snapshot sc = RBT.map (\<lambda>_. sc_entry) (ls_entries sc)"

text \<open>A file that is as long and as old as when it was last agreed on is not read again.\<close>

definition fingerprint_file :: "crates \<Rightarrow> sync_state \<Rightarrow> relpath \<Rightarrow> string \<Rightarrow> int option \<Rightarrow> scanned" where
  "fingerprint_file C cache p bytes mtime =
     (case (RBT.lookup cache p, mtime) of
        (Some t, Some m) \<Rightarrow>
          (case k_entry t of
             EFile etag known \<Rightarrow>
               if k_mtime t = Some m \<and> known = of_nat (length bytes) then \<lparr>sc_entry = k_entry t, sc_mtime = Some m\<rparr>
               else \<lparr>sc_entry = entry_file C (blake3 C bytes) (length bytes), sc_mtime = mtime\<rparr>
           | EDirectory \<Rightarrow> \<lparr>sc_entry = entry_file C (blake3 C bytes) (length bytes), sc_mtime = mtime\<rparr>)
      | _ \<Rightarrow> \<lparr>sc_entry = entry_file C (blake3 C bytes) (length bytes), sc_mtime = mtime\<rparr>)"

definition below_dir :: "relpath option \<Rightarrow> string \<Rightarrow> relpath option" where
  "below_dir dir name =
     (case (case dir of Some up \<Rightarrow> child_path up name | None \<Rightarrow> relpath_parse name) of
        Inl _ \<Rightarrow> None | Inr p \<Rightarrow> Some p)"

definition dir_path :: "local_path \<Rightarrow> relpath option \<Rightarrow> local_path" where
  "dir_path root dir = (case dir of None \<Rightarrow> root | Some p \<Rightarrow> to_path p root)"

text \<open>The fuel is the depth that is left; a directory that cannot be read ends the scan.\<close>

fun walk :: "unicode \<Rightarrow> crates \<Rightarrow> nat \<Rightarrow> local_path \<Rightarrow> relpath option \<Rightarrow> sync_state \<Rightarrow> disk \<Rightarrow> local_scan
    \<Rightarrow> local_path + local_scan" where
  "walk U C 0 root dir cache d sc = Inr sc"
| "walk U C (Suc k) root dir cache d sc =
     (let absolute = dir_path root dir in
      case read_dir absolute d of
        None \<Rightarrow> Inl absolute
      | Some es \<Rightarrow> rfold (\<lambda>(name, x) sc.
          let skipped = Inr (sc\<lparr>ls_skipped := ls_skipped sc @ [absolute @ [name]]\<rparr>) in
          if \<not> is_text name then skipped
          else if is_state_file name \<or> is_ignored U name then Inr sc
          else case below_dir dir name of
              None \<Rightarrow> skipped
            | Some p \<Rightarrow>
                (case x of
                   Special _ \<Rightarrow> skipped
                 | Folder \<Rightarrow> walk U C k root (Some p) cache d
                     (sc\<lparr>ls_entries := RBT.insert p \<lparr>sc_entry = EDirectory, sc_mtime = None\<rparr> (ls_entries sc)\<rparr>)
                 | Stored bytes mtime \<Rightarrow>
                     Inr (sc\<lparr>ls_entries := RBT.insert p (fingerprint_file C cache p bytes mtime) (ls_entries sc)\<rparr>))) es sc)"

definition deepest :: "disk \<Rightarrow> nat" where
  "deepest d = fold (\<lambda>(p, _) k. max (length p) k) d 0"

definition scan :: "unicode \<Rightarrow> crates \<Rightarrow> local_path \<Rightarrow> sync_state \<Rightarrow> disk \<Rightarrow> local_path + local_scan" where
  "scan U C root cache d = walk U C (Suc (deepest d)) root None cache d \<lparr>ls_entries = RBT.empty, ls_skipped = []\<rparr>"

section \<open>What the calls leave alone\<close>

text \<open>The bytes of a file at a path are still there.\<close>

definition retains :: "local_path \<Rightarrow> disk \<Rightarrow> disk \<Rightarrow> bool" where
  "retains k d d' \<longleftrightarrow> (\<forall>bytes m. map_of d k = Some (Stored bytes m) \<longrightarrow> map_of d' k = Some (Stored bytes m))"

lemma retains_refl [simp]: "retains k d d"
  by (simp add: retains_def)

lemma retains_trans [trans]: "retains k d d1 \<Longrightarrow> retains k d1 d2 \<Longrightarrow> retains k d d2"
  by (simp add: retains_def)

lemma make_dirs_retains: "retains k d (snd (make_dirs ps d))"
proof (induction ps d rule: make_dirs.induct)
  case (2 p ps d)
  show ?case
  proof (cases "map_of d p")
    case None
    have "retains k d (AList.update p Folder d)" using None by (auto simp: retains_def update_conv)
    with 2(1) [OF None] None show ?thesis by (auto intro: retains_trans)
  next
    case (Some x)
    with 2 show ?thesis by (cases x) auto
  qed
qed simp

lemma create_directory_retains: "retains k d (snd (create_directory p d))"
  using make_dirs_retains [of k d "prefixes_of p"] by (simp add: create_directory_def create_dir_all_def case_prod_unfold)

lemma put_item_retains: "k \<noteq> p \<Longrightarrow> retains k d (snd (put_item p bytes m d))"
  by (auto simp: put_item_def retains_def update_conv)

lemma put_item_stored: "put_item p bytes m d = (True, d') \<Longrightarrow> map_of d' p = Some (Stored bytes m)"
  by (auto simp: put_item_def update_conv split: if_splits)

lemma rename_item_retains:
  "map_of d source = Some (Stored bytes m) \<Longrightarrow> k \<noteq> source \<Longrightarrow> k \<noteq> target \<Longrightarrow> retains k d (snd (rename_item source target d))"
  by (auto simp: rename_item_def retains_def update_conv delete_conv)

lemma rename_item_result:
  "map_of d source = Some (Stored bytes m) \<Longrightarrow> rename_item source target d = (ok, d') \<Longrightarrow>
     if ok then map_of d' target = Some (Stored bytes m) else d' = d"
  by (auto simp: rename_item_def update_conv split: if_splits)

lemma remove_file_retains: "k \<noteq> p \<Longrightarrow> retains k d (snd (remove_file p d))"
  by (auto simp: remove_file_def retains_def delete_conv split: option.splits item.splits)

lemma fold_delete_retains: "k \<notin> f ` set es \<Longrightarrow> retains k d (fold (\<lambda>e. AList.delete (f e)) es d)"
proof (induction es arbitrary: d)
  case (Cons e es)
  have "retains k d (AList.delete (f e) d)" using Cons.prems by (auto simp: retains_def delete_conv)
  moreover have "retains k (AList.delete (f e) d) (fold (\<lambda>e. AList.delete (f e)) es (AList.delete (f e) d))"
    using Cons.IH Cons.prems by simp
  ultimately show ?case by (auto intro: retains_trans)
qed simp

lemma clears_ignored: "clears U (name, x) \<Longrightarrow> is_ignored U name"
  by (cases x) (simp_all add: clears_def)

lemma remove_directory_retains:
  assumes "k \<noteq> p" and "\<And>name. k = p @ [name] \<Longrightarrow> \<not> is_ignored U name"
  shows "retains k d (snd (remove_directory U p d))"
proof (cases "read_dir p d")
  case (Some es)
  let ?d1 = "fold (\<lambda>(name, _). AList.delete (p @ [name])) (filter (clears U) es) d"
  have "k \<notin> (\<lambda>(name, _). p @ [name]) ` set (filter (clears U) es)"
    using assms(2) clears_ignored by auto
  from fold_delete_retains [OF this] have r: "retains k d ?d1" by (simp add: case_prod_unfold)
  moreover have "retains k ?d1 (AList.delete p ?d1)" using assms(1) by (auto simp: retains_def delete_conv)
  ultimately show ?thesis using Some by (auto simp: remove_directory_def Let_def intro: retains_trans)
qed (simp add: remove_directory_def)

section \<open>What a scan finds\<close>

text \<open>A name is not empty and has no slash, and no path is there twice.\<close>

definition disk_ok :: "disk \<Rightarrow> bool" where
  "disk_ok d \<longleftrightarrow> distinct (map fst d) \<and> list_all (\<lambda>(p, _). list_all (\<lambda>n. n \<noteq> [] \<and> slash \<notin> set n) p) d"

text \<open>What the entry of a path says of the disk.\<close>

definition shows_disk :: "unicode \<Rightarrow> crates \<Rightarrow> local_path \<Rightarrow> sync_state \<Rightarrow> disk \<Rightarrow> relpath \<Rightarrow> scanned \<Rightarrow> bool" where
  "shows_disk U C root cache d p s \<longleftrightarrow>
     valid_relpath p \<and> list_all (\<lambda>n. \<not> is_ignored U n \<and> \<not> is_state_file n) (segments p)
     \<and> (case map_of d (root @ segments p) of
          Some Folder \<Rightarrow> s = \<lparr>sc_entry = EDirectory, sc_mtime = None\<rparr>
        | Some (Stored bytes m) \<Rightarrow> s = fingerprint_file C cache p bytes m
        | _ \<Rightarrow> False)"

lemma read_dir_entry:
  assumes "disk_ok d" and "read_dir p d = Some es" and "(name, x) \<in> set es"
  shows "map_of d (p @ [name]) = Some x" and "name \<noteq> []" and "slash \<notin> set name"
proof -
  obtain q where q: "(q, x) \<in> set d" "q \<noteq> []" "butlast q = p" "last q = name"
    using assms(2,3) by (auto simp: read_dir_def split: if_splits)
  then have "q = p @ [name]" by (metis append_butlast_last_id)
  with q(1) assms(1) show "map_of d (p @ [name]) = Some x" "name \<noteq> []" "slash \<notin> set name"
    by (auto simp: disk_ok_def list_all_iff)
qed

lemma no_empty_segment: "valid_relpath p \<Longrightarrow> [] \<notin> set (segments p)"
  by (auto simp: valid_relpath_def valid_name_def node_name_from_str_def)

lemma below_dir_segments:
  assumes "below_dir dir name = Some p" and "name \<noteq> []" and "slash \<notin> set name"
    and "\<And>up. dir = Some up \<Longrightarrow> valid_relpath up"
  shows "segments p = (case dir of None \<Rightarrow> [] | Some up \<Rightarrow> segments up) @ [name] \<and> valid_relpath p"
proof (cases dir)
  case None
  then have r: "relpath_parse name = Inr p" using assms(1) by (auto simp: below_dir_def split: sum.splits)
  from relpath_parse_segments [OF r] have "segments p = [name]"
    using assms(2,3) by (simp add: split_on_no_sep)
  with r None show ?thesis by (auto simp: relpath_parse_valid)
next
  case (Some up)
  then have r: "relpath_parse (path_str up @ slash # name) = Inr p"
    using assms(1) by (auto simp: below_dir_def child_path_def split: sum.splits)
  have "segments p = filter (\<lambda>x. x \<noteq> []) (split_on slash (path_str up @ slash # name))"
    by (rule relpath_parse_segments [OF r])
  also have "split_on slash (path_str up @ slash # name) = segments up @ [name]"
    using assms(3) by (simp add: segments_def split_on_append_list split_on_no_sep)
  finally have "segments p = segments up @ [name]"
    using assms(2) no_empty_segment [OF assms(4) [OF Some]] by (auto simp: filter_id_conv)
  with r Some show ?thesis by (auto simp: relpath_parse_valid)
qed

definition clean_dir :: "unicode \<Rightarrow> relpath option \<Rightarrow> bool" where
  "clean_dir U dir \<longleftrightarrow> (case dir of None \<Rightarrow> True | Some up \<Rightarrow>
     valid_relpath up \<and> list_all (\<lambda>n. \<not> is_ignored U n \<and> \<not> is_state_file n) (segments up))"

lemma walk_shows:
  assumes "disk_ok d"
  shows "walk U C k root dir cache d sc = Inr sc' \<Longrightarrow> clean_dir U dir \<Longrightarrow>
     (\<And>p s. RBT.lookup (ls_entries sc) p = Some s \<Longrightarrow> shows_disk U C root cache d p s) \<Longrightarrow>
     RBT.lookup (ls_entries sc') p = Some s \<Longrightarrow> shows_disk U C root cache d p s"
proof (induction k arbitrary: dir sc sc' p s)
  case (Suc k)
  obtain es where es: "read_dir (dir_path root dir) d = Some es"
    using Suc.prems(1) by (auto simp: Let_def split: option.splits)
  let ?ok = "\<lambda>sc. \<forall>p s. RBT.lookup (ls_entries sc) p = Some s \<longrightarrow> shows_disk U C root cache d p s"
  let ?f = "\<lambda>(name, x) sc.
          let skipped = Inr (sc\<lparr>ls_skipped := ls_skipped sc @ [dir_path root dir @ [name]]\<rparr>) in
          if \<not> is_text name then skipped
          else if is_state_file name \<or> is_ignored U name then Inr sc
          else case below_dir dir name of
              None \<Rightarrow> skipped
            | Some p \<Rightarrow>
                (case x of
                   Special _ \<Rightarrow> skipped
                 | Folder \<Rightarrow> walk U C k root (Some p) cache d
                     (sc\<lparr>ls_entries := RBT.insert p \<lparr>sc_entry = EDirectory, sc_mtime = None\<rparr> (ls_entries sc)\<rparr>)
                 | Stored bytes mtime \<Rightarrow>
                     Inr (sc\<lparr>ls_entries := RBT.insert p (fingerprint_file C cache p bytes mtime) (ls_entries sc)\<rparr>))"
  have r: "rfold ?f es sc = Inr sc'" using Suc.prems(1) es by (simp add: Let_def)
  have step: "?ok t" if e: "(name, x) \<in> set es" and f: "?f (name, x) u = Inr t" and u: "?ok u" for name x u t
  proof (cases "is_text name \<and> \<not> is_state_file name \<and> \<not> is_ignored U name")
    case clean: True
    show ?thesis
    proof (cases "below_dir dir name")
      case (Some q)
      note m = read_dir_entry [OF assms es e]
      have q: "segments q = (case dir of None \<Rightarrow> [] | Some up \<Rightarrow> segments up) @ [name]" "valid_relpath q"
        using below_dir_segments [OF Some m(2,3)] Suc.prems(2) by (cases dir; simp add: clean_dir_def)+
      have at: "root @ segments q = dir_path root dir @ [name]"
        by (cases dir) (simp_all add: q(1) dir_path_def to_path_segments)
      have cl: "list_all (\<lambda>n. \<not> is_ignored U n \<and> \<not> is_state_file n) (segments q)"
        using clean Suc.prems(2) by (cases dir) (simp_all add: q(1) clean_dir_def)
      show ?thesis
      proof (cases x)
        case Folder
        let ?u = "u\<lparr>ls_entries := RBT.insert q \<lparr>sc_entry = EDirectory, sc_mtime = None\<rparr> (ls_entries u)\<rparr>"
        have w: "walk U C k root (Some q) cache d ?u = Inr t" using f clean Some Folder by (simp add: Let_def)
        have "shows_disk U C root cache d p s" if "RBT.lookup (ls_entries ?u) p = Some s" for p s
          using that u q(2) cl m(1) at Folder by (auto simp: shows_disk_def split: if_splits)
        moreover have "clean_dir U (Some q)" using q(2) cl by (simp add: clean_dir_def)
        ultimately show ?thesis using Suc.IH [OF w] by blast
      next
        case (Stored bytes mt)
        then have "t = u\<lparr>ls_entries := RBT.insert q (fingerprint_file C cache q bytes mt) (ls_entries u)\<rparr>"
          using f clean Some by (simp add: Let_def)
        then show ?thesis using u q(2) cl m(1) at Stored by (auto simp: shows_disk_def split: if_splits)
      next
        case (Special linked)
        then show ?thesis using f clean Some u by (auto simp: Let_def)
      qed
    qed (use f clean u in \<open>auto simp: Let_def\<close>)
  qed (use f u in \<open>auto simp: Let_def split: if_splits\<close>)
  have "?ok sc'"
  proof (rule rfold_invariant [OF r])
    show "?ok sc" using Suc.prems(3) by blast
    show "?ok t" if "e \<in> set es" "?ok u" "?f e u = Inr t" for e u t
      using step [of "fst e" "snd e" u t] that by simp
  qed
  then show ?case using Suc.prems(4) by blast
qed simp

lemma scan_shows:
  assumes "disk_ok d" and "scan U C root cache d = Inr sc" and "RBT.lookup (ls_entries sc) p = Some s"
  shows "shows_disk U C root cache d p s"
  by (rule walk_shows [OF assms(1) assms(2) [unfolded scan_def] _ _ assms(3)]) (simp_all add: clean_dir_def)

end
