(* ===== verification/Engine.thy ===== *)
theory Engine
  imports Disk "HOL-Library.Multiset"
begin

text \<open>
  A run of the sync client: \<open>sync/engine.rs\<close> over the disk and a transport (\<open>sync/transport.rs\<close>).
  The transport is a record of operations on a state of its own; what it answers is not assumed to
  be right. The lemmas show what each action can change on the disk, and that an edit made since
  the last agreement is still on the disk after any run.
\<close>

section \<open>The other side\<close>

datatype expect = Absent | Etag string

text \<open>A download that breaks off may leave a part of the file behind.\<close>

datatype fetched = Fetched string | Broken "string option" string

record 'r transport =
  t_snapshot :: "'r \<Rightarrow> string + snapshot"
  t_download :: "relpath \<Rightarrow> 'r \<Rightarrow> fetched \<times> 'r"
  t_upload :: "relpath \<Rightarrow> string \<Rightarrow> expect \<Rightarrow> 'r \<Rightarrow> (string + unit) \<times> 'r"
  t_remove :: "relpath \<Rightarrow> 'r \<Rightarrow> (string + unit) \<times> 'r"
  t_create_directory :: "relpath \<Rightarrow> 'r \<Rightarrow> (string + unit) \<times> 'r"
  t_held :: "'r \<Rightarrow> string + held_rules"

section \<open>The engine\<close>

text \<open>The form the state has in its file, and the clock of the disk, are parameters.\<close>

record json =
  to_json :: "sync_state \<Rightarrow> string"
  of_json :: "string \<Rightarrow> sync_state option"

record 'r client =
  cl_root :: local_path
  cl_rules :: rules
  cl_unicode :: unicode
  cl_crates :: crates
  cl_json :: json
  cl_transport :: "'r transport"

record 'r engine =
  en_disk :: disk
  en_state :: sync_state
  en_remote :: 'r

record failure =
  fl_path :: relpath
  fl_reason :: fault

record report =
  uploaded :: nat
  downloaded :: nat
  deleted_locally :: nat
  deleted_remotely :: nat
  directories_created :: nat
  directories_created_remotely :: nat
  directories_removed_locally :: nat
  directories_removed_remotely :: nat
  conflicts :: "relpath list"
  r_blocked :: "relpath list"
  r_held :: "relpath list"
  unsupported :: "(relpath \<times> string) list"
  r_skipped :: "local_path list"
  failures :: "failure list"

definition transferred :: "report \<Rightarrow> nat" where
  "transferred rp = uploaded rp + downloaded rp"

definition is_quiet :: "report \<Rightarrow> bool" where
  "is_quiet rp \<longleftrightarrow> transferred rp = 0 \<and> deleted_locally rp = 0 \<and> deleted_remotely rp = 0
     \<and> directories_created rp = 0 \<and> directories_created_remotely rp = 0
     \<and> directories_removed_locally rp = 0 \<and> directories_removed_remotely rp = 0
     \<and> conflicts rp = [] \<and> failures rp = []"

datatype sync_error =
    ScanFailed local_path
  | TransportFailed string
  | StateRead
  | StateWrite
  | StateCorrupt

section \<open>The state file\<close>

definition state_path :: "local_path \<Rightarrow> local_path" where
  "state_path root = root @ [STATE_FILE_NAME]"

text \<open>\<open>with_extension\<close> replaces what follows the last dot of the name.\<close>

definition staged_state :: "local_path \<Rightarrow> local_path" where
  "staged_state root = root @ [''.stashden-sync.tmp'']"

definition adopt_legacy :: "local_path \<Rightarrow> disk \<Rightarrow> (sync_error + unit) \<times> disk" where
  "adopt_legacy root d =
     (let current = state_path root; legacy = root @ [LEGACY_STATE_FILE_NAME] in
      if map_of d current \<noteq> None \<or> map_of d legacy = None then (Inr (), d)
      else case rename_item legacy current d of (ok, d1) \<Rightarrow> (if ok then Inr () else Inl StateWrite, d1))"

definition load_state :: "json \<Rightarrow> local_path \<Rightarrow> disk \<Rightarrow> sync_error + sync_state" where
  "load_state J root d =
     (case map_of d (state_path root) of
        None \<Rightarrow> Inr RBT.empty
      | Some (Stored bytes _) \<Rightarrow> (case of_json J bytes of None \<Rightarrow> Inl StateCorrupt | Some st \<Rightarrow> Inr st)
      | Some _ \<Rightarrow> Inl StateRead)"

definition save_state :: "json \<Rightarrow> local_path \<Rightarrow> int option \<Rightarrow> sync_state \<Rightarrow> disk \<Rightarrow> (sync_error + unit) \<times> disk" where
  "save_state J root mtime st d =
     (case put_item (staged_state root) (to_json J st) mtime d of
        (False, d1) \<Rightarrow> (Inl StateWrite, d1)
      | (True, d1) \<Rightarrow> (case rename_item (staged_state root) (state_path root) d1 of
          (ok, d2) \<Rightarrow> (if ok then Inr () else Inl StateWrite, d2)))"

definition open_engine :: "'r client \<Rightarrow> disk \<Rightarrow> 'r \<Rightarrow> (sync_error + 'r engine) \<times> disk" where
  "open_engine cl d r =
     (case adopt_legacy (cl_root cl) d of
        (Inl e, d1) \<Rightarrow> (Inl e, d1)
      | (Inr _, d1) \<Rightarrow> (case load_state (cl_json cl) (cl_root cl) d1 of
          Inl e \<Rightarrow> (Inl e, d1)
        | Inr st \<Rightarrow> (Inr \<lparr>en_disk = d1, en_state = st, en_remote = r\<rparr>, d1)))"

section \<open>One action\<close>

text \<open>
  Each returns what it failed with, if it did, and the engine as it then is: what was done before
  a step failed stays. The number is the time the disk puts on a file it writes.
\<close>

type_synonym 'r outcome = "(fault + unit) \<times> 'r engine"

definition track :: "relpath \<Rightarrow> entry \<Rightarrow> int option \<Rightarrow> 'r engine \<Rightarrow> 'r engine" where
  "track p e m en = en\<lparr>en_state := record_entry p e m (en_state en)\<rparr>"

definition untrack :: "relpath \<Rightarrow> 'r engine \<Rightarrow> 'r engine" where
  "untrack p en = en\<lparr>en_state := forget p (en_state en)\<rparr>"

definition on_disk :: "(disk \<Rightarrow> 'a effect) \<Rightarrow> 'r engine \<Rightarrow> (fault + 'a) \<times> 'r engine" where
  "on_disk f en = (case f (en_disk en) of (r, d) \<Rightarrow> (r, en\<lparr>en_disk := d\<rparr>))"

definition on_remote :: "('r \<Rightarrow> (string + 'a) \<times> 'r) \<Rightarrow> 'r engine \<Rightarrow> (fault + 'a) \<times> 'r engine" where
  "on_remote f en = (case f (en_remote en) of (r, x) \<Rightarrow> (map_err Refused r, en\<lparr>en_remote := x\<rparr>))"

definition thereafter :: "(fault + 'a) \<times> 'r engine \<Rightarrow> ('a \<Rightarrow> 'r engine \<Rightarrow> (fault + 'b) \<times> 'r engine) \<Rightarrow> (fault + 'b) \<times> 'r engine" where
  "thereafter m f = (case m of (Inl e, en) \<Rightarrow> (Inl e, en) | (Inr x, en) \<Rightarrow> f x en)"

definition with_suffix :: "local_path \<Rightarrow> string \<Rightarrow> local_path" where
  "with_suffix p suffix = butlast p @ [last p @ suffix]"

definition rename_to :: "local_path \<Rightarrow> local_path \<Rightarrow> (local_path \<Rightarrow> fault) \<Rightarrow> disk \<Rightarrow> unit effect" where
  "rename_to source target fault_of d =
     (case rename_item source target d of (ok, d1) \<Rightarrow> (if ok then Inr () else Inl (fault_of source), d1))"

text \<open>\<open>download_to\<close> writes what it gets into a file it creates.\<close>

definition fetch :: "'r client \<Rightarrow> int option \<Rightarrow> relpath \<Rightarrow> local_path \<Rightarrow> 'r engine \<Rightarrow> 'r outcome" where
  "fetch cl mtime p target en =
     (case t_download (cl_transport cl) p (en_remote en) of
        (Fetched bytes, r) \<Rightarrow>
          (case put_item target bytes mtime (en_disk en) of
             (ok, d) \<Rightarrow> (if ok then Inr () else Inl (Creating target), en\<lparr>en_disk := d, en_remote := r\<rparr>))
      | (Broken None reason, r) \<Rightarrow> (Inl (Refused reason), en\<lparr>en_remote := r\<rparr>)
      | (Broken (Some part) reason, r) \<Rightarrow>
          (Inl (Refused reason), en\<lparr>en_disk := snd (put_item target part mtime (en_disk en)), en_remote := r\<rparr>))"

definition download :: "'r client \<Rightarrow> int option \<Rightarrow> snapshot \<Rightarrow> relpath \<Rightarrow> 'r engine \<Rightarrow> 'r outcome" where
  "download cl mtime remote p en =
     (case RBT.lookup remote p of
        None \<Rightarrow> (Inl Vanished, en)
      | Some e \<Rightarrow>
          (let destination = to_path p (cl_root cl); partial = with_suffix destination PARTIAL_SUFFIX in
           thereafter (on_disk (create_directory (butlast destination)) en) (\<lambda>_ en1.
           thereafter (fetch cl mtime p partial en1) (\<lambda>_ en2.
           thereafter (on_disk (rename_to partial destination Moving) en2) (\<lambda>_ en3.
             (Inr (), track p e (mtime_of destination (en_disk en3)) en3))))))"

text \<open>The file is opened for reading before anything is sent.\<close>

definition send_file :: "'r client \<Rightarrow> relpath \<Rightarrow> local_path \<Rightarrow> expect \<Rightarrow> 'r engine \<Rightarrow> 'r outcome" where
  "send_file cl p source x en =
     (case map_of (en_disk en) source of
        Some (Stored bytes _) \<Rightarrow> on_remote (t_upload (cl_transport cl) p bytes x) en
      | _ \<Rightarrow> (Inl Vanished, en))"

fun ups :: "nat \<Rightarrow> relpath option \<Rightarrow> relpath list" where
  "ups 0 _ = []"
| "ups (Suc k) None = []"
| "ups (Suc k) (Some p) = p # ups k (Names.parent p)"

definition record_directories_above :: "relpath \<Rightarrow> 'r engine \<Rightarrow> 'r engine" where
  "record_directories_above p en = fold (\<lambda>d. track d EDirectory None) (ups (depth p) (Names.parent p)) en"

definition upload_file :: "'r client \<Rightarrow> local_scan \<Rightarrow> snapshot \<Rightarrow> relpath \<Rightarrow> 'r engine \<Rightarrow> 'r outcome" where
  "upload_file cl sc remote p en =
     (case RBT.lookup (ls_entries sc) p of
        None \<Rightarrow> (Inl Vanished, en)
      | Some s \<Rightarrow>
          (let x = (case RBT.lookup remote p of Some (EFile etag _) \<Rightarrow> Etag etag | _ \<Rightarrow> Absent) in
           thereafter (send_file cl p (to_path p (cl_root cl)) x en) (\<lambda>_ en1.
             (Inr (), record_directories_above p (track p (sc_entry s) (sc_mtime s) en1)))))"

fun apply_action ::
    "'r client \<Rightarrow> int option \<Rightarrow> local_scan \<Rightarrow> snapshot \<Rightarrow> action \<Rightarrow> 'r engine \<times> report
      \<Rightarrow> (fault + unit) \<times> 'r engine \<times> report" where
  "apply_action cl mtime sc remote (CreateLocalDirectory p) (en, rp) =
     (case on_disk (create_directory (to_path p (cl_root cl))) en of
        (Inl e, en1) \<Rightarrow> (Inl e, en1, rp)
      | (Inr _, en1) \<Rightarrow> (Inr (), track p EDirectory None en1, rp\<lparr>directories_created := directories_created rp + 1\<rparr>))"
| "apply_action cl mtime sc remote (CreateRemoteDirectory p) (en, rp) =
     (case on_remote (t_create_directory (cl_transport cl) p) en of
        (Inl e, en1) \<Rightarrow> (Inl e, en1, rp)
      | (Inr _, en1) \<Rightarrow> (Inr (), track p EDirectory None en1,
          rp\<lparr>directories_created_remotely := directories_created_remotely rp + 1\<rparr>))"
| "apply_action cl mtime sc remote (RemoveLocalDirectory p) (en, rp) =
     (case on_disk (remove_directory (cl_unicode cl) (to_path p (cl_root cl))) en of
        (Inl e, en1) \<Rightarrow> (Inl e, en1, rp)
      | (Inr _, en1) \<Rightarrow> (Inr (), untrack p en1,
          rp\<lparr>directories_removed_locally := directories_removed_locally rp + 1\<rparr>))"
| "apply_action cl mtime sc remote (Download p) (en, rp) =
     (case download cl mtime remote p en of
        (Inl e, en1) \<Rightarrow> (Inl e, en1, rp)
      | (Inr _, en1) \<Rightarrow> (Inr (), en1, rp\<lparr>downloaded := downloaded rp + 1\<rparr>))"
| "apply_action cl mtime sc remote (Upload p) (en, rp) =
     (case upload_file cl sc remote p en of
        (Inl e, en1) \<Rightarrow> (Inl e, en1, rp)
      | (Inr _, en1) \<Rightarrow> (Inr (), en1, rp\<lparr>uploaded := uploaded rp + 1\<rparr>))"
| "apply_action cl mtime sc remote (DeleteLocal p) (en, rp) =
     (case on_disk (remove_file (to_path p (cl_root cl))) en of
        (Inl e, en1) \<Rightarrow> (Inl e, en1, rp)
      | (Inr _, en1) \<Rightarrow> (Inr (), untrack p en1, rp\<lparr>deleted_locally := deleted_locally rp + 1\<rparr>))"
| "apply_action cl mtime sc remote (DeleteRemote p) (en, rp) =
     (case on_remote (t_remove (cl_transport cl) p) en of
        (Inl e, en1) \<Rightarrow> (Inl e, en1, rp)
      | (Inr _, en1) \<Rightarrow> (Inr (), untrack p en1, rp\<lparr>deleted_remotely := deleted_remotely rp + 1\<rparr>))"
| "apply_action cl mtime sc remote (RemoveRemoteDirectory p) (en, rp) =
     (case on_remote (t_remove (cl_transport cl) p) en of
        (Inl e, en1) \<Rightarrow> (Inl e, en1, rp)
      | (Inr _, en1) \<Rightarrow> (Inr (), untrack p en1,
          rp\<lparr>directories_removed_remotely := directories_removed_remotely rp + 1\<rparr>))"
| "apply_action cl mtime sc remote (Forget p) (en, rp) = (Inr (), untrack p en, rp)"
| "apply_action cl mtime sc remote (KeepBoth p copy) (en, rp) =
     (let source = to_path p (cl_root cl); target = to_path copy (cl_root cl) in
      case thereafter (on_disk (rename_to source target Renaming) en) (\<lambda>_ en1.
          case RBT.lookup (ls_entries sc) p of
            None \<Rightarrow> (Inl Vanished, en1)
          | Some s \<Rightarrow>
              thereafter (send_file cl copy target Absent en1) (\<lambda>_ en2.
                download cl mtime remote p
                  (untrack p (track copy (sc_entry s) (mtime_of target (en_disk en2)) en2)))) of
        (Inl e, en1) \<Rightarrow> (Inl e, en1, rp)
      | (Inr _, en1) \<Rightarrow> (Inr (), en1, rp\<lparr>conflicts := conflicts rp @ [p], downloaded := downloaded rp + 1,
          uploaded := uploaded rp + 1\<rparr>))"
| "apply_action cl mtime sc remote (SetAside p copy) (en, rp) =
     (case thereafter (on_disk (rename_to (to_path p (cl_root cl)) (to_path copy (cl_root cl)) Renaming) en) (\<lambda>_ en1.
          download cl mtime remote p (untrack p en1)) of
        (Inl e, en1) \<Rightarrow> (Inl e, en1, rp)
      | (Inr _, en1) \<Rightarrow> (Inr (), en1, rp\<lparr>conflicts := conflicts rp @ [p], downloaded := downloaded rp + 1\<rparr>))"

section \<open>A run\<close>

text \<open>An action that fails is reported, and the next one goes on.\<close>

fun apply_all ::
    "'r client \<Rightarrow> int option \<Rightarrow> local_scan \<Rightarrow> snapshot \<Rightarrow> action list \<Rightarrow> 'r engine \<times> report \<Rightarrow> 'r engine \<times> report" where
  "apply_all cl mtime sc remote [] s = s"
| "apply_all cl mtime sc remote (a # as) s =
     (case apply_action cl mtime sc remote a s of
        (Inr _, s1) \<Rightarrow> apply_all cl mtime sc remote as s1
      | (Inl e, en, rp) \<Rightarrow> apply_all cl mtime sc remote as
          (en, rp\<lparr>failures := failures rp @ [\<lparr>fl_path = subject a, fl_reason = e\<rparr>]\<rparr>))"

definition record_agreed_directories :: "local_scan \<Rightarrow> snapshot \<Rightarrow> 'r engine \<Rightarrow> 'r engine" where
  "record_agreed_directories sc remote en =
     fold (\<lambda>p. track p EDirectory None)
       (map fst (filter (\<lambda>(p, s). entry_is_directory (sc_entry s) \<and> RBT.lookup remote p = Some EDirectory)
         (RBT.entries (ls_entries sc)))) en"

definition first_report :: "plan \<Rightarrow> (relpath, string) rbt \<Rightarrow> local_scan \<Rightarrow> report" where
  "first_report p un sc = \<lparr>uploaded = 0, downloaded = 0, deleted_locally = 0, deleted_remotely = 0,
     directories_created = 0, directories_created_remotely = 0, directories_removed_locally = 0,
     directories_removed_remotely = 0, conflicts = [], r_blocked = blocked p, r_held = held p,
     unsupported = RBT.entries un, r_skipped = ls_skipped sc, failures = []\<rparr>"

text \<open>What a run will do, from what it finds.\<close>

definition plan_of :: "'r client \<Rightarrow> string \<Rightarrow> local_scan \<Rightarrow> snapshot \<Rightarrow> held_rules \<Rightarrow> sync_state
    \<Rightarrow> plan \<times> (relpath, string) rbt \<times> snapshot" where
  "plan_of cl stamp sc listed_remote hs st =
     (let remote = retain (\<lambda>p. \<not> hides (cl_unicode cl) p) listed_remote;
          local = scan_snapshot sc;
          un = unfit (cl_unicode cl) local remote (cl_rules cl);
          fits = (\<lambda>p. RBT.lookup un p = None);
          remote1 = retain fits remote
      in (apply_held hs (reconcile (retain fits local) remote1 (retain fits (base_of st)) stamp), un, remote1))"

definition sync_once :: "'r client \<Rightarrow> string \<Rightarrow> int option \<Rightarrow> 'r engine \<Rightarrow> (sync_error + report) \<times> 'r engine" where
  "sync_once cl stamp mtime en =
     (case scan (cl_unicode cl) (cl_crates cl) (cl_root cl) (en_state en) (en_disk en) of
        Inl p \<Rightarrow> (Inl (ScanFailed p), en)
      | Inr sc \<Rightarrow>
          (case t_snapshot (cl_transport cl) (en_remote en) of
             Inl e \<Rightarrow> (Inl (TransportFailed e), en)
           | Inr listed_remote \<Rightarrow>
               (case t_held (cl_transport cl) (en_remote en) of
                  Inl e \<Rightarrow> (Inl (TransportFailed e), en)
                | Inr hs \<Rightarrow>
                    (let (p, un, remote) = plan_of cl stamp sc listed_remote hs (en_state en);
                         (en1, rp) = apply_all cl mtime sc remote (actions p) (en, first_report p un sc);
                         en2 = record_agreed_directories sc remote en1
                     in case save_state (cl_json cl) (cl_root cl) mtime (en_state en2) (en_disk en2) of
                          (Inl e, d) \<Rightarrow> (Inl e, en2\<lparr>en_disk := d\<rparr>)
                        | (Inr _, d) \<Rightarrow> (Inr rp, en2\<lparr>en_disk := d\<rparr>)))))"

section \<open>What an action leaves alone\<close>

text \<open>What an action may write over or take away, and what a conflict moves where.\<close>

fun touches :: "'r client \<Rightarrow> action \<Rightarrow> local_path \<Rightarrow> bool" where
  "touches cl (Download p) k \<longleftrightarrow> k = to_path p (cl_root cl) \<or> k = with_suffix (to_path p (cl_root cl)) PARTIAL_SUFFIX"
| "touches cl (DeleteLocal p) k \<longleftrightarrow> k = to_path p (cl_root cl)"
| "touches cl (RemoveLocalDirectory p) k \<longleftrightarrow> k = to_path p (cl_root cl)
     \<or> (k \<noteq> [] \<and> butlast k = to_path p (cl_root cl) \<and> is_ignored (cl_unicode cl) (last k))"
| "touches cl (KeepBoth p q) k \<longleftrightarrow> k = to_path p (cl_root cl) \<or> k = with_suffix (to_path p (cl_root cl)) PARTIAL_SUFFIX
     \<or> k = to_path q (cl_root cl)"
| "touches cl (SetAside p q) k \<longleftrightarrow> k = to_path p (cl_root cl) \<or> k = with_suffix (to_path p (cl_root cl)) PARTIAL_SUFFIX
     \<or> k = to_path q (cl_root cl)"
| "touches cl _ k \<longleftrightarrow> False"

fun moves :: "action \<Rightarrow> (relpath \<times> relpath) option" where
  "moves (KeepBoth p q) = Some (p, q)"
| "moves (SetAside p q) = Some (p, q)"
| "moves _ = None"

lemma on_disk_disk: "en_disk (snd (on_disk f en)) = snd (f (en_disk en))"
  by (simp add: on_disk_def case_prod_unfold)

lemma on_remote_disk [simp]: "en_disk (snd (on_remote f en)) = en_disk en"
  by (simp add: on_remote_def case_prod_unfold)

lemma track_disk [simp]: "en_disk (track p e m en) = en_disk en" "en_disk (untrack p en) = en_disk en"
  by (simp_all add: track_def untrack_def)

lemma send_file_disk [simp]: "en_disk (snd (send_file cl p source x en)) = en_disk en"
  by (simp add: send_file_def split: option.split item.split)

lemma record_above_disk [simp]: "en_disk (record_directories_above p en) = en_disk en"
proof -
  have "en_disk (fold (\<lambda>d. track d EDirectory None) ds en) = en_disk en" for ds
    by (induction ds arbitrary: en) simp_all
  then show ?thesis by (simp add: record_directories_above_def)
qed

lemma upload_file_disk [simp]: "en_disk (snd (upload_file cl sc remote p en)) = en_disk en"
proof (cases "RBT.lookup (ls_entries sc) p")
  case (Some s)
  let ?x = "case RBT.lookup remote p of Some (EFile etag _) \<Rightarrow> Etag etag | _ \<Rightarrow> Absent"
  obtain r en1 where r: "send_file cl p (to_path p (cl_root cl)) ?x en = (r, en1)" by fastforce
  then have "en_disk en1 = en_disk en"
    using send_file_disk [of cl p "to_path p (cl_root cl)" ?x en] by simp
  with r Some show ?thesis by (cases r) (simp_all add: upload_file_def thereafter_def Let_def)
qed (simp add: upload_file_def)

lemma thereafter_retains:
  assumes "retains k d (en_disk (snd m))"
    and "\<And>x en. m = (Inr x, en) \<Longrightarrow> retains k (en_disk en) (en_disk (snd (f x en)))"
  shows "retains k d (en_disk (snd (thereafter m f)))"
proof (cases m)
  case (Pair r en)
  with assms show ?thesis by (cases r) (auto simp: thereafter_def intro: retains_trans)
qed

lemma fetch_retains: "k \<noteq> target \<Longrightarrow> retains k (en_disk en) (en_disk (snd (fetch cl mtime p target en)))"
  using put_item_retains [of k target "en_disk en"]
  by (auto simp: fetch_def case_prod_unfold split: fetched.split option.split prod.split)

lemma fetch_stored:
  assumes "fetch cl mtime p target en = (Inr x, en')"
  shows "\<exists>bytes. map_of (en_disk en') target = Some (Stored bytes mtime)"
proof -
  obtain bytes r where f: "t_download (cl_transport cl) p (en_remote en) = (Fetched bytes, r)"
    using assms by (auto simp: fetch_def split: prod.splits fetched.splits option.splits)
  obtain ok d where i: "put_item target bytes mtime (en_disk en) = (ok, d)" by fastforce
  with assms f have "ok" "en_disk en' = d" by (auto simp: fetch_def split: if_splits)
  with i put_item_stored show ?thesis by auto
qed

lemma download_retains:
  assumes "k \<noteq> to_path p (cl_root cl)" and "k \<noteq> with_suffix (to_path p (cl_root cl)) PARTIAL_SUFFIX"
  shows "retains k (en_disk en) (en_disk (snd (download cl mtime remote p en)))"
proof (cases "RBT.lookup remote p")
  case (Some e)
  let ?t = "to_path p (cl_root cl)" and ?part = "with_suffix (to_path p (cl_root cl)) PARTIAL_SUFFIX"
  have rename: "retains k (en_disk en2) (en_disk (snd (on_disk (rename_to ?part ?t Moving) en2)))"
    if f: "fetch cl mtime p ?part en1 = (Inr x, en2)" for en1 x en2
  proof -
    obtain bytes where "map_of (en_disk en2) ?part = Some (Stored bytes mtime)" using fetch_stored [OF f] by blast
    from rename_item_retains [OF this assms(2,1)] show ?thesis
      by (simp add: on_disk_disk rename_to_def case_prod_unfold)
  qed
  have "retains k (en_disk en1) (en_disk (snd (thereafter (fetch cl mtime p ?part en1) (\<lambda>_ en2.
      thereafter (on_disk (rename_to ?part ?t Moving) en2) (\<lambda>_ en3.
        (Inr (), track p e (mtime_of ?t (en_disk en3)) en3))))))" for en1
    by (intro thereafter_retains fetch_retains assms rename) (auto simp: track_disk)
  note inner = this
  have "retains k (en_disk en) (en_disk (snd (thereafter (on_disk (create_directory (butlast ?t)) en) (\<lambda>_ en1.
      thereafter (fetch cl mtime p ?part en1) (\<lambda>_ en2.
      thereafter (on_disk (rename_to ?part ?t Moving) en2) (\<lambda>_ en3.
        (Inr (), track p e (mtime_of ?t (en_disk en3)) en3)))))))"
    by (rule thereafter_retains) (simp_all add: on_disk_disk create_directory_retains inner)
  then show ?thesis using Some by (simp add: download_def Let_def)
qed (simp add: download_def)

lemma apply_action_disk:
  "en_disk (fst (snd (apply_action cl mtime sc remote a s))) = en_disk (snd (case a of
      CreateLocalDirectory p \<Rightarrow> on_disk (create_directory (to_path p (cl_root cl))) (fst s)
    | RemoveLocalDirectory p \<Rightarrow> on_disk (remove_directory (cl_unicode cl) (to_path p (cl_root cl))) (fst s)
    | Download p \<Rightarrow> download cl mtime remote p (fst s)
    | DeleteLocal p \<Rightarrow> on_disk (remove_file (to_path p (cl_root cl))) (fst s)
    | KeepBoth p copy \<Rightarrow> thereafter (on_disk (rename_to (to_path p (cl_root cl)) (to_path copy (cl_root cl)) Renaming) (fst s)) (\<lambda>_ en1.
          case RBT.lookup (ls_entries sc) p of
            None \<Rightarrow> (Inl Vanished, en1)
          | Some x \<Rightarrow>
              thereafter (send_file cl copy (to_path copy (cl_root cl)) Absent en1) (\<lambda>_ en2.
                download cl mtime remote p
                  (untrack p (track copy (sc_entry x) (mtime_of (to_path copy (cl_root cl)) (en_disk en2)) en2))))
    | SetAside p copy \<Rightarrow> thereafter (on_disk (rename_to (to_path p (cl_root cl)) (to_path copy (cl_root cl)) Renaming) (fst s))
          (\<lambda>_ en1. download cl mtime remote p (untrack p en1))
    | _ \<Rightarrow> (Inr (), fst s)))"
proof -
  obtain en rp where s: "s = (en, rp)" by (cases s)
  have up: "en_disk en1 = en_disk en" if "upload_file cl sc remote p en = (r, en1)" for p r en1
    using upload_file_disk [of cl sc remote p en] that by simp
  have rem: "en_disk en1 = en_disk en" if "on_remote f en = (r, en1)" for f and r :: "fault + unit" and en1
    using on_remote_disk [of f en] that by simp
  show ?thesis unfolding s
    by (cases a) (auto split: prod.split sum.split simp: Let_def dest: up rem)
qed

text \<open>Where a conflict starts from a file, nothing else is touched than what \<open>touches\<close> says.\<close>

definition starts_from_file :: "'r client \<Rightarrow> action \<Rightarrow> disk \<Rightarrow> bool" where
  "starts_from_file cl a d \<longleftrightarrow> (case moves a of None \<Rightarrow> True
     | Some (p, q) \<Rightarrow> (\<exists>bytes m. map_of d (to_path p (cl_root cl)) = Some (Stored bytes m)))"

lemma moved_retains:
  assumes "starts_from_file cl (KeepBoth p q) (en_disk en)"
    and "k \<noteq> to_path p (cl_root cl)" "k \<noteq> with_suffix (to_path p (cl_root cl)) PARTIAL_SUFFIX" "k \<noteq> to_path q (cl_root cl)"
    and "\<And>en1. retains k (en_disk en1) (en_disk (snd (f () en1)))"
  shows "retains k (en_disk en) (en_disk (snd (thereafter
    (on_disk (rename_to (to_path p (cl_root cl)) (to_path q (cl_root cl)) Renaming) en) f)))"
proof (rule thereafter_retains)
  obtain bytes m where "map_of (en_disk en) (to_path p (cl_root cl)) = Some (Stored bytes m)"
    using assms(1) by (auto simp: starts_from_file_def)
  from rename_item_retains [OF this assms(2,4)]
  show "retains k (en_disk en) (en_disk (snd (on_disk (rename_to (to_path p (cl_root cl)) (to_path q (cl_root cl)) Renaming) en)))"
    by (simp add: on_disk_disk rename_to_def case_prod_unfold)
qed (use assms(5) in auto)

lemma apply_action_retains:
  assumes "\<not> touches cl a k" and "starts_from_file cl a (en_disk (fst s))"
  shows "retains k (en_disk (fst s)) (en_disk (fst (snd (apply_action cl mtime sc remote a s))))"
proof (cases a)
  case (CreateLocalDirectory p)
  then show ?thesis by (simp add: apply_action_disk on_disk_disk create_directory_retains)
next
  case (RemoveLocalDirectory p)
  then show ?thesis using assms(1)
    by (simp add: apply_action_disk on_disk_disk) (rule remove_directory_retains, auto)
next
  case (Download p)
  then show ?thesis using assms(1) by (simp add: apply_action_disk download_retains)
next
  case (DeleteLocal p)
  then show ?thesis using assms(1) by (simp add: apply_action_disk on_disk_disk remove_file_retains)
next
  case (KeepBoth p q)
  have after: "retains k (en_disk en1) (en_disk (snd (case RBT.lookup (ls_entries sc) p of
      None \<Rightarrow> (Inl Vanished, en1)
    | Some x \<Rightarrow> thereafter (send_file cl q (to_path q (cl_root cl)) Absent en1) (\<lambda>_ en2.
        download cl mtime remote p (untrack p (track q (sc_entry x) (mtime_of (to_path q (cl_root cl)) (en_disk en2)) en2))))))" for en1
    using assms(1) KeepBoth
      download_retains [of k p cl "untrack p (track q e m en2)" for e m en2]
    by (auto split: option.split intro!: thereafter_retains)
  from KeepBoth assms(1) show ?thesis unfolding apply_action_disk
    by (simp, intro moved_retains after) (use KeepBoth assms(2) in auto)
next
  case (SetAside p q)
  have after: "retains k (en_disk en1) (en_disk (snd (download cl mtime remote p (untrack p en1))))" for en1
    using assms(1) SetAside download_retains [of k p cl "untrack p en1"] by auto
  from SetAside assms(1) show ?thesis unfolding apply_action_disk
    by (simp, intro moved_retains after) (use SetAside assms(2) in \<open>auto simp: starts_from_file_def\<close>)
qed (simp_all add: apply_action_disk)

text \<open>A conflict leaves the bytes where they were or where it set them aside to.\<close>

lemma apply_moves:
  fixes mtime sc remote
  assumes m: "moves a = Some (p, q)" and f: "map_of (en_disk (fst s)) (to_path p (cl_root cl)) = Some (Stored bytes t)"
    and q: "to_path q (cl_root cl) \<noteq> to_path p (cl_root cl)"
      "to_path q (cl_root cl) \<noteq> with_suffix (to_path p (cl_root cl)) PARTIAL_SUFFIX"
  defines "d' \<equiv> en_disk (fst (snd (apply_action cl mtime sc remote a s)))"
  shows "map_of d' (to_path p (cl_root cl)) = Some (Stored bytes t) \<or> map_of d' (to_path q (cl_root cl)) = Some (Stored bytes t)"
proof -
  let ?p = "to_path p (cl_root cl)" and ?q = "to_path q (cl_root cl)"
  have all: "map_of (en_disk (snd (thereafter (on_disk (rename_to ?p ?q Renaming) (fst s)) g))) ?p = Some (Stored bytes t)
      \<or> map_of (en_disk (snd (thereafter (on_disk (rename_to ?p ?q Renaming) (fst s)) g))) ?q = Some (Stored bytes t)"
    if g: "\<And>en1. retains ?q (en_disk en1) (en_disk (snd (g () en1)))" for g :: "unit \<Rightarrow> 'a engine \<Rightarrow> 'a outcome"
  proof (cases "rename_item ?p ?q (en_disk (fst s))")
    case (Pair ok d1)
    note r = rename_item_result [OF f Pair]
    show ?thesis
    proof (cases ok)
      case True
      let ?en1 = "(fst s)\<lparr>en_disk := d1\<rparr>"
      have "map_of (en_disk ?en1) ?q = Some (Stored bytes t)" using r True by simp
      with g [of ?en1] have "map_of (en_disk (snd (g () ?en1))) ?q = Some (Stored bytes t)" by (simp add: retains_def)
      with Pair True show ?thesis by (simp add: on_disk_def rename_to_def thereafter_def)
    next
      case False
      with r Pair f show ?thesis by (simp add: on_disk_def rename_to_def thereafter_def)
    qed
  qed
  have d: "retains ?q (en_disk en1) (en_disk (snd (download cl mtime remote p en1)))" for en1
    by (rule download_retains [OF q])
  from m consider "a = KeepBoth p q" | "a = SetAside p q" by (cases a) auto
  then show ?thesis
  proof cases
    case 1
    have "retains ?q (en_disk en1) (en_disk (snd (case RBT.lookup (ls_entries sc) p of
        None \<Rightarrow> (Inl Vanished, en1)
      | Some x \<Rightarrow> thereafter (send_file cl q ?q Absent en1) (\<lambda>_ en2.
          download cl mtime remote p (untrack p (track q (sc_entry x) (mtime_of ?q (en_disk en2)) en2))))))" for en1
      using d [of "untrack p (track q e m en2)" for e m en2]
      by (auto split: option.split intro!: thereafter_retains)
    from all [OF this] show ?thesis by (simp add: d'_def apply_action_disk 1)
  next
    case 2
    have "retains ?q (en_disk en1) (en_disk (snd (download cl mtime remote p (untrack p en1))))" for en1
      using d [of "untrack p en1"] by simp
    from all [OF this] show ?thesis by (simp add: d'_def apply_action_disk 2)
  qed
qed

text \<open>A list of actions in which none gets in the way of a conflict of another.\<close>

definition apart_in :: "'r client \<Rightarrow> action list \<Rightarrow> bool" where
  "apart_in cl as \<longleftrightarrow> distinct as \<and> (\<forall>a\<in>set as. \<forall>p q. moves a = Some (p, q) \<longrightarrow>
     to_path q (cl_root cl) \<noteq> to_path p (cl_root cl)
     \<and> to_path q (cl_root cl) \<noteq> with_suffix (to_path p (cl_root cl)) PARTIAL_SUFFIX
     \<and> (\<forall>c\<in>set as. c \<noteq> a \<longrightarrow> \<not> touches cl c (to_path p (cl_root cl)) \<and> \<not> touches cl c (to_path q (cl_root cl))))"

lemma apart_in_tail: "apart_in cl (a # as) \<Longrightarrow> apart_in cl as"
  by (simp add: apart_in_def)

lemma apart_inD:
  assumes "apart_in cl (a # as)" and "moves c = Some (p, q)"
  shows "c \<in> set as \<Longrightarrow> \<not> touches cl a (to_path p (cl_root cl))"
    and "c = a \<Longrightarrow> b \<in> set as \<Longrightarrow> \<not> touches cl b (to_path p (cl_root cl)) \<and> \<not> touches cl b (to_path q (cl_root cl))"
    and "c = a \<Longrightarrow> to_path q (cl_root cl) \<noteq> to_path p (cl_root cl)
       \<and> to_path q (cl_root cl) \<noteq> with_suffix (to_path p (cl_root cl)) PARTIAL_SUFFIX"
  using assms by (auto simp: apart_in_def)

lemma apply_all_Cons: "\<exists>r. apply_all cl mtime sc remote (a # as) s
    = apply_all cl mtime sc remote as (fst (snd (apply_action cl mtime sc remote a s)), r)"
  by (cases "apply_action cl mtime sc remote a s"; cases "fst (apply_action cl mtime sc remote a s)") (auto split: prod.split)

lemma starts_kept:
  assumes "starts_from_file cl c d" and "\<And>p q. moves c = Some (p, q) \<Longrightarrow> retains (to_path p (cl_root cl)) d d'"
  shows "starts_from_file cl c d'"
proof (cases "moves c")
  case (Some pq)
  obtain p q where pq: "moves c = Some (p, q)" using Some by (cases pq) auto
  with assms(1) obtain bytes m where "map_of d (to_path p (cl_root cl)) = Some (Stored bytes m)"
    by (auto simp: starts_from_file_def)
  with assms(2) [OF pq] pq show ?thesis by (auto simp: starts_from_file_def retains_def)
qed (simp add: starts_from_file_def)

lemma apply_all_retains:
  assumes "apart_in cl as" and "\<forall>a\<in>set as. starts_from_file cl a (en_disk (fst s))"
  shows "(\<forall>a\<in>set as. \<not> touches cl a k) \<Longrightarrow>
      retains k (en_disk (fst s)) (en_disk (fst (apply_all cl mtime sc remote as s)))"
  using assms
proof (induction as arbitrary: s)
  case (Cons a as)
  let ?s1 = "apply_action cl mtime sc remote a s"
  obtain r where r: "apply_all cl mtime sc remote (a # as) s = apply_all cl mtime sc remote as (fst (snd ?s1), r)"
    using apply_all_Cons by blast
  have f: "starts_from_file cl a (en_disk (fst s))" using Cons.prems(3) by simp
  have "starts_from_file cl c (en_disk (fst (snd ?s1)))" if c: "c \<in> set as" for c
    by (rule starts_kept [of cl c "en_disk (fst s)"], use Cons.prems(3) c in simp,
      rule apply_action_retains [OF apart_inD(1) [OF Cons.prems(2) _ c] f])
  then have "retains k (en_disk (fst (snd ?s1))) (en_disk (fst (apply_all cl mtime sc remote as (fst (snd ?s1), r))))"
    using Cons.IH [of "(fst (snd ?s1), r)"] Cons.prems(1) apart_in_tail [OF Cons.prems(2)] by simp
  moreover have "retains k (en_disk (fst s)) (en_disk (fst (snd ?s1)))"
    by (rule apply_action_retains [OF _ f]) (use Cons.prems(1) in simp)
  ultimately show ?case unfolding r by (rule retains_trans [rotated])
qed simp

lemma apply_all_moves:
  fixes mtime sc remote
  assumes "apart_in cl as" and "\<forall>a\<in>set as. starts_from_file cl a (en_disk (fst s))"
    and "a \<in> set as" and "moves a = Some (p, q)"
    and "map_of (en_disk (fst s)) (to_path p (cl_root cl)) = Some (Stored bytes t)"
  defines "d' \<equiv> en_disk (fst (apply_all cl mtime sc remote as s))"
  shows "map_of d' (to_path p (cl_root cl)) = Some (Stored bytes t) \<or> map_of d' (to_path q (cl_root cl)) = Some (Stored bytes t)"
  using assms(1-5) unfolding d'_def
proof (induction as arbitrary: s)
  case (Cons c as)
  let ?s1 = "apply_action cl mtime sc remote c s"
  obtain r where r: "apply_all cl mtime sc remote (c # as) s = apply_all cl mtime sc remote as (fst (snd ?s1), r)"
    using apply_all_Cons by blast
  have f: "starts_from_file cl c (en_disk (fst s))" using Cons.prems(2) by simp
  have keep: "retains (to_path p' (cl_root cl)) (en_disk (fst s)) (en_disk (fst (snd ?s1)))"
    if "b \<in> set as" "moves b = Some (p', q')" for b p' q'
    by (rule apply_action_retains [OF apart_inD(1) [OF Cons.prems(1) that(2,1)] f])
  have "starts_from_file cl b (en_disk (fst (snd ?s1)))" if b: "b \<in> set as" for b
    by (rule starts_kept [of cl b "en_disk (fst s)"]) (use Cons.prems(2) b keep in auto)
  then have rest: "\<forall>b\<in>set as. starts_from_file cl b (en_disk (fst (fst (snd ?s1), r)))" by simp
  note tail = apart_in_tail [OF Cons.prems(1)]
  show ?case
  proof (cases "a = c")
    case False
    then have a: "a \<in> set as" using Cons.prems(3) by simp
    have "map_of (en_disk (fst (fst (snd ?s1), r))) (to_path p (cl_root cl)) = Some (Stored bytes t)"
      using keep [OF a Cons.prems(4)] Cons.prems(5) by (simp add: retains_def)
    from Cons.IH [OF tail rest a Cons.prems(4) this] show ?thesis unfolding r .
  next
    case True
    note own = apart_inD [OF Cons.prems(1) Cons.prems(4)]
    let ?d1 = "en_disk (fst (snd ?s1))"
    have "map_of ?d1 (to_path p (cl_root cl)) = Some (Stored bytes t) \<or> map_of ?d1 (to_path q (cl_root cl)) = Some (Stored bytes t)"
      using apply_moves [of c p q s cl bytes t] own(3) True Cons.prems(4,5) by simp
    moreover have "retains (to_path p (cl_root cl)) ?d1 (en_disk (fst (apply_all cl mtime sc remote as (fst (snd ?s1), r))))"
      "retains (to_path q (cl_root cl)) ?d1 (en_disk (fst (apply_all cl mtime sc remote as (fst (snd ?s1), r))))"
      using apply_all_retains [OF tail rest] own(2) True by auto
    ultimately show ?thesis unfolding r by (auto simp: retains_def)
  qed
qed simp

section \<open>One action for each path\<close>

definition actions_by :: "verdict \<Rightarrow> action list" where
  "actions_by v = created_by v @ transfers_by v @ deletions_by v @ removed_remotely_by v @ removed_by v @ forgotten_by v"

lemma distinct_by_path:
  "distinct ps \<Longrightarrow> (\<And>p. p \<in> set ps \<Longrightarrow> map subject (F p) = [] \<or> map subject (F p) = [p]) \<Longrightarrow>
   distinct (map subject (concat (map F ps))) \<and> set (map subject (concat (map F ps))) \<subseteq> set ps"
proof (induction ps)
  case (Cons p ps)
  have "distinct (map subject (concat (map F ps))) \<and> set (map subject (concat (map F ps))) \<subseteq> set ps"
    using Cons.IH Cons.prems by simp
  moreover have "map subject (F p) = [] \<or> map subject (F p) = [p]" using Cons.prems(2) by simp
  ultimately show ?case using Cons.prems(1) by (auto simp del: set_map)
qed simp

lemma mset_concat_map: "mset (concat (map (\<lambda>p. F p @ G p) ps)) = mset (concat (map F ps)) + mset (concat (map G ps))"
  by (induction ps) simp_all

lemma reconcile_distinct: "distinct (map subject (actions (reconcile l r b stamp)))"
proof -
  let ?v = "for_path l r b stamp" and ?ps = "all_paths l r b"
  have "mset (actions (reconcile l r b stamp)) = mset (concat (map (\<lambda>p. actions_by (?v p)) ?ps))"
    by (simp add: reconcile_def Let_def push_all no_buckets_def actions_by_def mset_concat_map comp_def)
  then have "mset (map subject (actions (reconcile l r b stamp))) = mset (map subject (concat (map (\<lambda>p. actions_by (?v p)) ?ps)))"
    by (simp only: mset_map)
  moreover have "map subject (actions_by (?v p)) = [] \<or> map subject (actions_by (?v p)) = [p]" for p
    using for_path_belongs [of p l r b stamp] by (cases "?v p") (auto simp: actions_by_def)
  then have "distinct (map subject (concat (map (\<lambda>p. actions_by (?v p)) ?ps)))"
    using distinct_by_path [of ?ps "\<lambda>p. actions_by (?v p)"] by (simp add: all_paths_def)
  ultimately show ?thesis by (metis mset_eq_imp_distinct_iff)
qed

lemma map_filter_subjects:
  "(\<And>a c. f a = Some c \<Longrightarrow> subject c = subject a) \<Longrightarrow>
   distinct (map subject as) \<Longrightarrow> distinct (map subject (List.map_filter f as))
     \<and> set (map subject (List.map_filter f as)) \<subseteq> set (map subject as)"
proof (induction as)
  case (Cons a as)
  have ih: "distinct (map subject (List.map_filter f as))" "set (map subject (List.map_filter f as)) \<subseteq> set (map subject as)"
    using Cons by auto
  show ?case
  proof (cases "f a")
    case (Some c)
    with Cons.prems have "subject c = subject a" by blast
    then show ?thesis using Some ih Cons.prems(2) by (auto simp: map_filter_def)
  qed (use ih in \<open>auto simp: map_filter_def\<close>)
qed (simp add: map_filter_def)

lemma held_distinct: "distinct (map subject (actions (apply_held hs (reconcile l r b stamp))))"
proof -
  have "subject c = subject a" if "after_holding hs up a = Some c" for a c up
    using after_holding_Some [OF that] by auto
  with map_filter_subjects reconcile_distinct show ?thesis unfolding apply_held_actions by blast
qed

lemma held_wants:
  assumes "a \<in> set (actions (apply_held hs (reconcile l r b stamp)))"
  shows "(moves a = None \<and> wants l r b stamp a) \<or> (\<exists>p q. moves a = Some (p, q) \<and> subject a = p \<and> wants l r b stamp (KeepBoth p q))"
proof -
  obtain a0 where a0: "a0 \<in> set (actions (reconcile l r b stamp))"
      "after_holding hs (uprooted hs (actions (reconcile l r b stamp))) a0 = Some a"
    using assms by (auto simp: apply_held_actions in_map_filter)
  then have w: "wants l r b stamp a0" by (simp add: reconcile_actions)
  from after_holding_Some [OF a0(2)] show ?thesis
  proof
    assume "a = a0"
    with w show ?thesis by (cases a0) (auto simp: wants_def)
  qed (use w in auto)
qed

section \<open>No edit is lost\<close>

text \<open>
  The name that a file in conflict would be set aside to is free: not in the folder, not on the
  server, not ignored, no file of the client itself, and no other file's.
\<close>

definition names_free :: "'r client \<Rightarrow> string \<Rightarrow> local_scan \<Rightarrow> snapshot \<Rightarrow> bool" where
  "names_free cl stamp sc listed_remote \<longleftrightarrow>
     list_all (\<lambda>p. case conflict_copy p stamp of
         None \<Rightarrow> True
       | Some q \<Rightarrow> RBT.lookup (ls_entries sc) q = None \<and> RBT.lookup listed_remote q = None
           \<and> \<not> hides (cl_unicode cl) q
           \<and> segments q \<noteq> [STATE_FILE_NAME] \<and> segments q \<noteq> [''.stashden-sync.tmp'']
           \<and> list_all (\<lambda>p'. conflict_copy p' stamp = Some q \<longrightarrow> p' = p) (RBT.keys (ls_entries sc)))
       (RBT.keys (ls_entries sc))"

lemma names_freeD:
  assumes "names_free cl stamp sc listed_remote" and "RBT.lookup (ls_entries sc) p \<noteq> None" and "conflict_copy p stamp = Some q"
  shows "RBT.lookup (ls_entries sc) q = None" "RBT.lookup listed_remote q = None" "\<not> hides (cl_unicode cl) q"
    "segments q \<noteq> [STATE_FILE_NAME]" "segments q \<noteq> [''.stashden-sync.tmp'']"
    "RBT.lookup (ls_entries sc) p' \<noteq> None \<Longrightarrow> conflict_copy p' stamp = Some q \<Longrightarrow> p' = p"
proof -
  have "p \<in> set (RBT.keys (ls_entries sc))" using assms(2) by (simp add: set_keys)
  with assms(1) have all: "case conflict_copy p stamp of None \<Rightarrow> True
       | Some q \<Rightarrow> RBT.lookup (ls_entries sc) q = None \<and> RBT.lookup listed_remote q = None
           \<and> \<not> hides (cl_unicode cl) q
           \<and> segments q \<noteq> [STATE_FILE_NAME] \<and> segments q \<noteq> [''.stashden-sync.tmp'']
           \<and> (\<forall>p'\<in>set (RBT.keys (ls_entries sc)). conflict_copy p' stamp = Some q \<longrightarrow> p' = p)"
    unfolding names_free_def list_all_iff by blast
  then show "RBT.lookup (ls_entries sc) q = None" "RBT.lookup listed_remote q = None" "\<not> hides (cl_unicode cl) q"
    "segments q \<noteq> [STATE_FILE_NAME]" "segments q \<noteq> [''.stashden-sync.tmp'']"
    using assms(3) by simp_all
  show "RBT.lookup (ls_entries sc) p' \<noteq> None \<Longrightarrow> conflict_copy p' stamp = Some q \<Longrightarrow> p' = p"
    using all assms(3) set_keys [of p' "ls_entries sc"] by simp
qed

lemma hides_segments: "hides U p \<longleftrightarrow> list_ex (is_ignored U) (segments p)"
  by (simp add: hides_def segments_def)

lemma to_path_inject: "to_path p root = to_path q root \<longleftrightarrow> p = q"
  by (simp add: to_path_segments segments_inject)

lemma to_path_last: "last (to_path p root) = last (segments p)" "to_path p root \<noteq> []"
  by (simp_all add: to_path_segments)

lemma partial_ignored: "last (segments p) = name @ PARTIAL_SUFFIX \<Longrightarrow> hides U p"
proof -
  assume l: "last (segments p) = name @ PARTIAL_SUFFIX"
  have "ends_with (name @ PARTIAL_SUFFIX) PARTIAL_SUFFIX" by (simp add: ends_with_def starts_with_def)
  then have "is_ignored U (last (segments p))" by (simp add: l is_ignored_def)
  then show ?thesis by (auto simp: hides_segments list_ex_iff intro!: bexI [of _ "last (segments p)"])
qed

lemma partial_hidden: "to_path q root = with_suffix (to_path p root) PARTIAL_SUFFIX \<Longrightarrow> hides U q"
  using partial_ignored [of q "last (segments p)" U] to_path_last(1) [of q root] to_path_last(1) [of p root]
  by (simp add: with_suffix_def)

lemma ignored_last: "is_ignored U (last (to_path p root)) \<Longrightarrow> hides U p"
  by (auto simp: hides_segments list_ex_iff to_path_last intro!: bexI [of _ "last (segments p)"])

text \<open>An action on one path gets in the way of no other path that the scan found or that is free.\<close>

lemma touches_other:
  assumes "touches cl c (to_path k (cl_root cl))" and "\<not> hides (cl_unicode cl) k" and "subject c \<noteq> k"
  shows "\<exists>p. moves c = Some (p, k)"
proof -
  note facts = partial_hidden [of k "cl_root cl"] ignored_last [of "cl_unicode cl" k "cl_root cl"]
  show ?thesis using assms facts by (cases c) (auto simp: to_path_inject)
qed

lemma save_state_retains:
  assumes "k \<noteq> staged_state root" and "k \<noteq> state_path root"
  shows "retains k d (snd (save_state J root mtime st d))"
proof (cases "put_item (staged_state root) (to_json J st) mtime d")
  case (Pair ok d1)
  have r: "retains k d d1" using put_item_retains [OF assms(1), of d "to_json J st" mtime] Pair by simp
  show ?thesis
  proof (cases ok)
    case True
    with Pair put_item_stored have "map_of d1 (staged_state root) = Some (Stored (to_json J st) mtime)" by simp
    from rename_item_retains [OF this assms] r have "retains k d (snd (rename_item (staged_state root) (state_path root) d1))"
      by (rule retains_trans [rotated])
    with Pair True show ?thesis by (simp add: save_state_def case_prod_unfold)
  qed (use Pair r in \<open>simp add: save_state_def\<close>)
qed

lemma lookup_scan: "RBT.lookup (scan_snapshot sc) p = map_option sc_entry (RBT.lookup (ls_entries sc) p)"
  by (simp add: scan_snapshot_def)

lemma scanned_clean:
  assumes "shows_disk U C root cache d p s"
  shows "\<not> hides U p" "segments p \<noteq> [STATE_FILE_NAME]"
    and "\<not> entry_is_directory (sc_entry s) \<Longrightarrow> \<exists>bytes m. map_of d (to_path p root) = Some (Stored bytes m)"
  using assms by (auto simp: shows_disk_def hides_segments list_all_iff list_ex_iff is_state_file_def to_path_segments
      split: option.splits item.splits)

text \<open>What a plan does to a path the scan found.\<close>

lemma planned:
  assumes ok: "disk_ok (en_disk en)" and sc: "scan (cl_unicode cl) (cl_crates cl) (cl_root cl) (en_state en) (en_disk en) = Inr sc"
    and free: "names_free cl stamp sc listed_remote"
    and pl: "plan_of cl stamp sc listed_remote hs (en_state en) = (pl, un, remote)"
  shows "apart_in cl (actions pl)"
    and "\<forall>a\<in>set (actions pl). starts_from_file cl a (en_disk en)"
    and "a \<in> set (actions pl) \<Longrightarrow> moves a = Some (p, q) \<Longrightarrow> conflict_copy p stamp = Some q"
    and "RBT.lookup (ls_entries sc) p = Some s \<Longrightarrow> \<not> entry_is_directory (sc_entry s) \<Longrightarrow>
       RBT.lookup (base_of (en_state en)) p \<noteq> Some (sc_entry s) \<Longrightarrow>
       a \<in> set (actions pl) \<Longrightarrow> touches cl a (to_path p (cl_root cl)) \<Longrightarrow> \<exists>q. moves a = Some (p, q)"
proof -
  let ?U = "cl_unicode cl" and ?root = "cl_root cl"
  define fits where "fits = (\<lambda>p. RBT.lookup un p = None)"
  define l where "l = retain fits (scan_snapshot sc)"
  define b where "b = retain fits (base_of (en_state en))"
  have pl': "pl = apply_held hs (reconcile l remote b stamp)"
    "remote = retain fits (retain (\<lambda>p. \<not> hides ?U p) listed_remote)"
    using pl by (auto simp: plan_of_def Let_def fits_def l_def b_def)
  note shows_it = scan_shows [OF ok sc]
  note clean = scanned_clean [OF shows_it]
  have look: "RBT.lookup l p = (if fits p then map_option sc_entry (RBT.lookup (ls_entries sc) p) else None)" for p
    by (simp add: l_def lookup_scan)
  have rem: "RBT.lookup remote p = None" if "RBT.lookup listed_remote p = None" for p
    using that by (simp add: pl'(2))
  have dist: "distinct (map subject (actions pl))" unfolding pl'(1) by (rule held_distinct)
  have acts: "(moves a = None \<and> wants l remote b stamp a) \<or> (\<exists>p q. moves a = Some (p, q) \<and> subject a = p \<and> wants l remote b stamp (KeepBoth p q))"
    if "a \<in> set (actions pl)" for a
    using held_wants that unfolding pl'(1) by blast
  have conflict: "\<exists>s. RBT.lookup (ls_entries sc) p = Some s \<and> \<not> entry_is_directory (sc_entry s) \<and> conflict_copy p stamp = Some q"
    "subject a = p" if "a \<in> set (actions pl)" "moves a = Some (p, q)" for a p q
    using acts [OF that(1)] that(2) look [of p]
    by (auto simp: wants_def is_file_def split: if_splits)
      (metis entry.exhaust entry_is_directory.simps(2))+
  show c3: "a \<in> set (actions pl) \<Longrightarrow> moves a = Some (p, q) \<Longrightarrow> conflict_copy p stamp = Some q" for a p q
    using conflict(1) by blast
  show "\<forall>a\<in>set (actions pl). starts_from_file cl a (en_disk en)"
    using conflict(1) clean(3) by (fastforce simp: starts_from_file_def split: option.split)
  have other: "c = a" if "a \<in> set (actions pl)" "c \<in> set (actions pl)" "subject c = subject a" for a c
    using dist that by (auto simp: distinct_map inj_on_def)
  show "apart_in cl (actions pl)" unfolding apart_in_def
  proof (intro conjI ballI allI impI)
    show "distinct (actions pl)" using dist by (simp add: distinct_map)
    fix a p q assume a: "a \<in> set (actions pl)" and m: "moves a = Some (p, q)"
    obtain s where s: "RBT.lookup (ls_entries sc) p = Some s" "conflict_copy p stamp = Some q" "subject a = p"
      using conflict [OF a m] by blast
    note free_q = names_freeD [OF free _ s(2)] 
    have q: "RBT.lookup (ls_entries sc) q = None" "RBT.lookup listed_remote q = None" "\<not> hides ?U q"
      using free_q(1-3) s(1) by simp_all
    have p: "\<not> hides ?U p" by (rule clean(1) [OF s(1)])
    show "to_path q ?root \<noteq> to_path p ?root" using q(1) s(1) by (auto simp: to_path_inject)
    show "to_path q ?root \<noteq> with_suffix (to_path p ?root) PARTIAL_SUFFIX" using partial_hidden q(3) by blast
    fix c assume c: "c \<in> set (actions pl)" "c \<noteq> a"
    then have ne: "subject c \<noteq> p" using other [OF a c(1)] s(3) by auto
    show "\<not> touches cl c (to_path p ?root)"
    proof
      assume "touches cl c (to_path p ?root)"
      from touches_other [OF this p ne] obtain p' where m': "moves c = Some (p', p)" by blast
      obtain s' where "RBT.lookup (ls_entries sc) p' = Some s'" "conflict_copy p' stamp = Some p"
        using conflict [OF c(1) m'] by blast
      with names_freeD(1) [OF free, of p' p] s(1) show False by simp
    qed
    show "\<not> touches cl c (to_path q ?root)"
    proof
      assume t: "touches cl c (to_path q ?root)"
      show False
      proof (cases "subject c = q")
        case False
        from touches_other [OF t q(3) False] obtain p' where m': "moves c = Some (p', q)" by blast
        obtain s' where "RBT.lookup (ls_entries sc) p' = Some s'" "conflict_copy p' stamp = Some q" "subject c = p'"
          using conflict [OF c(1) m'] by blast
        with free_q(6) [of p'] s(1) ne show False by simp
      next
        case True
        have "RBT.lookup l q = None" "RBT.lookup remote q = None" using q look rem by auto
        then show False using acts [OF c(1)] t True conflict [OF c(1)] q(1)
          by (cases c) (auto simp: wants_def is_file_def to_path_inject)
      qed
    qed
  qed
  show "\<exists>q. moves a = Some (p, q)" if s: "RBT.lookup (ls_entries sc) p = Some s" "\<not> entry_is_directory (sc_entry s)"
      "RBT.lookup (base_of (en_state en)) p \<noteq> Some (sc_entry s)" and a: "a \<in> set (actions pl)"
      "touches cl a (to_path p ?root)" for a p s
  proof (cases "subject a = p")
    case True
    show ?thesis
    proof (cases "moves a")
      case None
      then have w: "wants l remote b stamp a" using acts [OF a(1)] by auto
      have lp: "fits p \<Longrightarrow> RBT.lookup l p = Some (sc_entry s) \<and> RBT.lookup b p \<noteq> Some (sc_entry s)"
        "\<not> fits p \<Longrightarrow> RBT.lookup l p = None \<and> RBT.lookup remote p = None"
        using s look by (auto simp: b_def pl'(2))
      show ?thesis using w True a(2) None lp s(2)
        by (cases a; cases "fits p") (auto simp: wants_def is_file_def)
    next
      case (Some pq)
      with conflict(2) [OF a(1)] True show ?thesis by (cases pq) auto
    qed
  next
    case False
    from touches_other [OF a(2) clean(1) [OF s(1)] False] obtain p' where m: "moves a = Some (p', p)" by blast
    obtain s' where "RBT.lookup (ls_entries sc) p' = Some s'" "conflict_copy p' stamp = Some p"
      using conflict [OF a(1) m] by blast
    with names_freeD(1) [OF free, of p' p] s(1) show ?thesis by simp
  qed
qed

lemma agreed_disk [simp]: "en_disk (record_agreed_directories sc remote en) = en_disk en"
proof -
  have "en_disk (fold (\<lambda>p. track p EDirectory None) ps en) = en_disk en" for ps
    by (induction ps arbitrary: en) simp_all
  then show ?thesis by (simp add: record_agreed_directories_def)
qed

section \<open>Properties\<close>

text \<open>
  C18. Where the names of its conflict copies are free and distinct (\<open>names_free\<close>, which two long names that
  differ only near their ends break, \<open>conflict_copies_collide\<close>), a run loses no edit, whatever the server
  answers and whatever fails: a file that is not what was last agreed on, and is not the
  \<open>.stashden-sync.tmp\<close> the state is staged in, is on the disk after the run with the same bytes, where it
  was or under the name a conflict sets it aside to.
\<close>

theorem edits_survive:
  assumes "disk_ok (en_disk en)"
    and "scan (cl_unicode cl) (cl_crates cl) (cl_root cl) (en_state en) (en_disk en) = Inr sc"
    and "\<And>listed_remote. t_snapshot (cl_transport cl) (en_remote en) = Inr listed_remote \<Longrightarrow> names_free cl stamp sc listed_remote"
    and "RBT.lookup (ls_entries sc) p = Some s" and "\<not> entry_is_directory (sc_entry s)"
    and "RBT.lookup (base_of (en_state en)) p \<noteq> Some (sc_entry s)"
    and "map_of (en_disk en) (to_path p (cl_root cl)) = Some (Stored bytes m)"
    and "segments p \<noteq> [''.stashden-sync.tmp'']"
  shows "\<exists>at. map_of (en_disk (snd (sync_once cl stamp mtime en))) at = Some (Stored bytes m)
     \<and> (at = to_path p (cl_root cl) \<or> (\<exists>q. conflict_copy p stamp = Some q \<and> at = to_path q (cl_root cl)))"
proof (cases "en_disk (snd (sync_once cl stamp mtime en)) = en_disk en")
  case True
  with assms(7) show ?thesis by auto
next
  case False
  obtain listed_remote where lr: "t_snapshot (cl_transport cl) (en_remote en) = Inr listed_remote"
    using False assms(2) by (auto simp: sync_once_def split: sum.splits)
  obtain hs where hs: "t_held (cl_transport cl) (en_remote en) = Inr hs"
    using False assms(2) lr by (auto simp: sync_once_def split: sum.splits)
  obtain pl un remote where pl: "plan_of cl stamp sc listed_remote hs (en_state en) = (pl, un, remote)"
    by (cases "plan_of cl stamp sc listed_remote hs (en_state en)") auto
  obtain en1 rp where ap: "apply_all cl mtime sc remote (actions pl) (en, first_report pl un sc) = (en1, rp)" by fastforce
  let ?en2 = "record_agreed_directories sc remote en1"
  have d: "en_disk (snd (sync_once cl stamp mtime en)) = snd (save_state (cl_json cl) (cl_root cl) mtime (en_state ?en2) (en_disk en1))"
    using assms(2) lr hs pl ap by (simp add: sync_once_def Let_def split: prod.split sum.split)
  note plan = planned [OF assms(1,2) assms(3) [OF lr] pl]
  let ?at = "\<lambda>k. map_of (en_disk en1) (to_path k (cl_root cl)) = Some (Stored bytes m)"
  have "\<exists>k. ?at k \<and> (k = p \<or> conflict_copy p stamp = Some k)"
  proof (cases "\<exists>a q. a \<in> set (actions pl) \<and> moves a = Some (p, q)")
    case True
    then obtain a q where a: "a \<in> set (actions pl)" "moves a = Some (p, q)" by blast
    have "?at p \<or> ?at q"
      using apply_all_moves [OF plan(1) _ a, of "(en, first_report pl un sc)" bytes m mtime sc remote] plan(2) assms(7) ap by simp
    with plan(3) [OF a] show ?thesis by blast
  next
    case False
    then have "\<forall>a\<in>set (actions pl). \<not> touches cl a (to_path p (cl_root cl))" using plan(4) [OF assms(4-6)] by blast
    from apply_all_retains [OF plan(1) _ this, of "(en, first_report pl un sc)" mtime sc remote] plan(2) assms(7) ap
    have "?at p" by (simp add: retains_def)
    then show ?thesis by blast
  qed
  then obtain k where k: "?at k" "k = p \<or> conflict_copy p stamp = Some k" by blast
  have "RBT.lookup (ls_entries sc) p \<noteq> None" using assms(4) by simp
  note free = names_freeD(4,5) [OF assms(3) [OF lr] this, of k]
  have "segments k \<noteq> [STATE_FILE_NAME]" "segments k \<noteq> [''.stashden-sync.tmp'']"
    using k(2) assms(8) scanned_clean(2) [OF scan_shows [OF assms(1,2,4)]] free by auto
  then have "retains (to_path k (cl_root cl)) (en_disk en1) (en_disk (snd (sync_once cl stamp mtime en)))"
    unfolding d by (intro save_state_retains) (auto simp: to_path_segments staged_state_def state_path_def)
  with k show ?thesis by (auto simp: retains_def)
qed

text \<open>A server that keeps files only, as an association list, and a folder with an edit and a conflict.\<close>

definition listed_files :: "(relpath \<times> string) list \<Rightarrow> snapshot" where
  "listed_files fs = RBT.bulkload (map (\<lambda>(p, b). (p, entry_file sample_crates (blake3 sample_crates b) (length b))) fs)"

definition sample_transport :: "(relpath \<times> string) list transport" where
  "sample_transport = \<lparr>t_snapshot = (\<lambda>fs. Inr (listed_files fs)),
     t_download = (\<lambda>p fs. (case map_of fs p of Some b \<Rightarrow> Fetched b | None \<Rightarrow> Broken None ''gone'', fs)),
     t_upload = (\<lambda>p b x fs. if x = Absent \<and> map_of fs p \<noteq> None then (Inl ''changed'', fs) else (Inr (), AList.update p b fs)),
     t_remove = (\<lambda>p fs. (Inr (), AList.delete p fs)),
     t_create_directory = (\<lambda>p fs. (Inr (), fs)),
     t_held = (\<lambda>fs. Inr held_default)\<rparr>"

definition sample_client :: "(relpath \<times> string) list client" where
  "sample_client = \<lparr>cl_root = [''s''], cl_rules = \<lparr>windows_names = False, folds_case = False\<rparr>,
     cl_unicode = plain_letters, cl_crates = sample_crates,
     cl_json = \<lparr>to_json = (\<lambda>_. ''{}''), of_json = (\<lambda>_. Some RBT.empty)\<rparr>, cl_transport = sample_transport\<rparr>"

definition edited_engine :: "(relpath \<times> string) list engine" where
  "edited_engine = \<lparr>en_disk = [([], Folder), ([''s''], Folder), ([''s'', ''a''], Stored ''new'' (Some 5))],
     en_state = record_entry (RelPath ''a'') (entry_file sample_crates (blake3 sample_crates ''old'') 3) (Some 1) RBT.empty,
     en_remote = [(RelPath ''a'', ''their'')]\<rparr>"

theorem edits_survive_witness:
  "\<exists>at. map_of (en_disk (snd (sync_once sample_client ''T'' (Some 9) edited_engine))) at = Some (Stored ''new'' (Some 5))"
proof -
  have d: "disk_ok (en_disk edited_engine)" by code_simp
  obtain sc where sc: "scan (cl_unicode sample_client) (cl_crates sample_client) (cl_root sample_client)
      (en_state edited_engine) (en_disk edited_engine) = Inr sc"
    "names_free sample_client ''T'' sc (listed_files (en_remote edited_engine))"
    "map_option sc_entry (RBT.lookup (ls_entries sc) (RelPath ''a'')) = Some (entry_file sample_crates (blake3 sample_crates ''new'') 3)"
  proof -
    have "case scan (cl_unicode sample_client) (cl_crates sample_client) (cl_root sample_client)
        (en_state edited_engine) (en_disk edited_engine) of Inl _ \<Rightarrow> False
      | Inr sc \<Rightarrow> names_free sample_client ''T'' sc (listed_files (en_remote edited_engine))
          \<and> map_option sc_entry (RBT.lookup (ls_entries sc) (RelPath ''a'')) = Some (entry_file sample_crates (blake3 sample_crates ''new'') 3)"
      by code_simp
    then show thesis using that by (auto split: sum.splits)
  qed
  then obtain s where s: "RBT.lookup (ls_entries sc) (RelPath ''a'') = Some s"
    "sc_entry s = entry_file sample_crates (blake3 sample_crates ''new'') 3" by auto
  have n: "names_free sample_client ''T'' sc lr" if "t_snapshot (cl_transport sample_client) (en_remote edited_engine) = Inr lr" for lr
    using that sc(2) by (simp add: sample_client_def sample_transport_def)
  have e: "\<not> entry_is_directory (sc_entry s)" by (simp add: s(2) entry_file_def)
  have b: "RBT.lookup (base_of (en_state edited_engine)) (RelPath ''a'') \<noteq> Some (sc_entry s)"
    unfolding s(2) by code_simp
  have m: "map_of (en_disk edited_engine) (to_path (RelPath ''a'') (cl_root sample_client)) = Some (Stored ''new'' (Some 5))"
    "segments (RelPath ''a'') \<noteq> [''.stashden-sync.tmp'']" by code_simp+
  show ?thesis using edits_survive [OF d sc(1) n s(1) e b m, of "Some 9"] by blast
qed

section \<open>Files of the client's own name\<close>

text \<open>
  The scan passes over the client's own state file; the listing of the server does not. A file of
  that name on the server is fetched by one run, in place of the state, and then, as it is agreed
  on and not in the folder, deleted from the server by the next. The name the state is staged under
  is not even passed over.
\<close>

definition two_runs :: "(relpath \<times> string) list engine" where
  "two_runs = snd (sync_once sample_client ''U'' (Some 9) (snd (sync_once sample_client ''T'' (Some 8)
     \<lparr>en_disk = [([], Folder), ([''s''], Folder)], en_state = RBT.empty,
      en_remote = [(RelPath ''.stashden-sync.json'', ''theirs'')]\<rparr>)))"

lemma state_file_deleted_remotely: "en_remote two_runs = []"
  by code_simp

lemma staged_state_is_scanned: "\<not> is_state_file ''.stashden-sync.tmp'' \<and> \<not> is_ignored plain_letters ''.stashden-sync.tmp''"
  by code_simp

end
