(* ===== verification/Spec2Isabelle.thy ===== *)
theory Spec2Isabelle
  imports Copy Trash Access Held Fit Sample Locks Accounts Attempts Signin Storage Files Shares Dav Uploads Collector Server Answers Engine
begin

text \<open>
  A model of RoxyCloud (the crates \<open>stashden-*\<close>), a file server with a sync client. A request of
  the server runs SQL statements in one transaction over Postgres, and puts and gets bytes by
  their digest in a blob store; the client compares a local folder, the server's listing and what
  was last agreed, and plans a run. The model is the database as a record of tables and every
  operation as a function that answers an error or the next database.

  \<^item> \<open>Prelude\<close>: results (\<open>rbind\<close> is the question mark of Rust, \<open>Inl\<close> an error), folds that stop
    at the first error, sums over rows. \<open>Names\<close>: \<open>crates/core/src/name.rs\<close> and
    \<open>crates/client/src/sync/path.rs\<close>; a \<open>str\<close> is its UTF-8 bytes.
  \<^item> \<open>Schema\<close>: the rows, the errors of \<open>api/src/error.rs\<close>, the constraints of \<open>api/migrations\<close>; a
    statement that changes a table answers the constraint it would break. \<open>Ledger\<close>: quotas and
    reference counts of \<open>db.rs\<close>, with the locales \<open>charge_book\<close> and \<open>reference_book\<close>. \<open>Books\<close>:
    \<open>check.rs\<close>, and what it is for counters to be right. The invariant that everything keeps is
    \<open>sound\<close> of \<open>Tree\<close>: constraints, the shape of the tree, reference counts and usage.
  \<^item> \<open>Versions\<close> (\<open>versions.rs\<close>), \<open>Walk\<close> (the recursive queries over \<open>nodes\<close>), \<open>Tree\<close> and \<open>Copy\<close>
    (\<open>db.rs\<close>), \<open>Trash\<close> (\<open>trash.rs\<close>), \<open>Grants\<close> (\<open>grants.rs\<close>), \<open>Access\<close> (\<open>access.rs\<close>), \<open>Locks\<close>
    (\<open>dav/locks.rs\<close>): the tree of nodes and what may be done to it.
  \<^item> \<open>Accounts\<close> (\<open>users.rs\<close>, \<open>password.rs\<close>), \<open>Attempts\<close> (\<open>attempts.rs\<close>), \<open>Signin\<close> (\<open>sessions.rs\<close>,
    \<open>app_passwords.rs\<close>, \<open>auth.rs\<close> and the handlers of \<open>routes/auth.rs\<close>, \<open>routes/users.rs\<close>): who is
    let in. A handler is a function of the database too (\<open>transact\<close>: an error rolls back).
    \<open>Departure\<close> (\<open>departure.rs\<close>): an account is removed, and its files go to another. \<open>Oidc\<close>
    (\<open>oidc.rs\<close>, \<open>routes/oidc.rs\<close>): signing in through a provider, whose answers are a parameter.
  \<^item> \<open>Storage\<close> (\<open>storage/mod.rs\<close>, \<open>storage/local.rs\<close>): the bytes, with the locale \<open>blob_store\<close>.
  \<^item> \<open>Snapshots\<close>, \<open>Plan\<close>, \<open>Held\<close>, \<open>Fit\<close> (\<open>crates/client/src/sync\<close>): the sync client up to its plan.
  \<^item> \<open>Bodies\<close> (\<open>incoming.rs\<close>, \<open>precondition.rs\<close>), \<open>Frames\<close> (what the operations on the tree leave alone),
    \<open>Files\<close> (\<open>routes/files.rs\<close>, \<open>versions.rs\<close>, \<open>trash.rs\<close>, \<open>grants.rs\<close>), \<open>Shares\<close> (\<open>shares.rs\<close>,
    \<open>routes/shares.rs\<close>): the handlers of the REST interface over the database and the bytes (\<open>world\<close>).
  \<^item> \<open>Guard\<close> (which nodes a lock covers and what leaves them alone), \<open>Multistatus\<close> (\<open>dav/xml.rs\<close>,
    \<open>dav/propfind.rs\<close>) and \<open>Dav\<close> (\<open>dav/methods.rs\<close>, \<open>transfer.rs\<close>, \<open>locking.rs\<close>): WebDAV.
  \<^item> \<open>Uploads\<close> (\<open>uploads.rs\<close>, \<open>routes/uploads.rs\<close>): uploads in pieces, over the world and the staging
    directory (\<open>server\<close>). \<open>Collector\<close> (\<open>sweeper.rs\<close>, \<open>thumbnails.rs\<close>, \<open>routes/thumbnails.rs\<close>): one turn of the
    sweeper, and the thumbnails it forgets. \<open>Backed\<close>: no operation takes the bytes of a blob
    that a row of \<open>blobs\<close> still stands for. \<open>Server\<close> (\<open>routes/mod.rs\<close>, the extractors of \<open>auth.rs\<close>,
    \<open>main.rs\<close>): the step relation \<open>serves\<close> of everything a request, the sweeper or the operator can do,
    and what holds in every state it reaches. \<open>Answers\<close> (\<open>error.rs\<close>): what an error is answered as.
  \<^item> \<open>Disk\<close> (the calls of \<open>std::fs\<close>, \<open>sync/local.rs\<close>) and \<open>Engine\<close> (\<open>sync/engine.rs\<close>, \<open>transport.rs\<close>,
    \<open>state.rs\<close>): a run of the client over a folder and any server at all.
  \<^item> \<open>Sample\<close>: a small sound database on which the witnesses evaluate.

  Each component has the lemmas that its operations keep \<open>sound\<close> (\<open>\<dots>_sound\<close>), what they answer
  (\<open>\<dots>_Inr\<close>), what they leave alone (\<open>\<dots>_frame\<close>), and then the properties. Loops of the code that
  stop at something in the data are structural or have a fuel that a lemma shows to be enough:
  the walk over \<open>nodes\<close> and \<open>copy_tree\<close> take one turn per row (\<open>copy_tree_ends\<close>).

  Not modelled. Advisory locks and the isolation of Postgres: a transaction runs alone here. A step
  of \<open>serves\<close> is a whole request, its transactions one after the other: that of another request
  or of the sweeper between two of them is not in the relation. Where the code is written for such a
  race, a lemma of the component shows its part (\<open>survives_collection\<close> of \<open>Storage\<close>, the claims of
  \<open>Uploads\<close>). Third-party crates are the parameter \<open>crates\<close> (digests, password hashes, tokens,
  case mapping), the image library the parameter \<open>images\<close>, the server as the client sees it a
  record \<open>transport\<close>. Failures of the disk and of the database connection, the client of the object
  store (\<open>s3.rs\<close>), search, the HTTP client, the command line, the desktop application and the web interface.
\<close>

section \<open>Properties\<close>

text \<open>
  C3. Writing a file, new or over an old one, with or without keeping the old bytes as a version,
  leaves every constraint, the shape of the tree, the reference counts and the quota right, and
  a lookup then answers the bytes that were written.
\<close>

theorem put_file_keeps_books:
  assumes "sound db" and "home owner (n_id dir) db"
    and "put_file C now owner dir name h bytes kept db = Inr (n, db')"
  shows "sound db' \<and> child (n_id dir) name db' = Some n \<and> n_kind n = File \<and> n_blob n = Some h
    \<and> n_size n = bytes \<and> n_owner n = owner"
  using put_file_sound [OF assms] by simp

theorem put_file_keeps_books_witness:
  "\<exists>n db'. put_file sample_crates 5 1 sample_dir (NodeName ''f'') [2] 7 2 sample = Inr (n, db')
     \<and> sound db' \<and> n_blob n = Some [2]"
proof -
  have "\<not> isl (put_file sample_crates 5 1 sample_dir (NodeName ''f'') [2] 7 2 sample)" by code_simp
  then obtain n db' where "put_file sample_crates 5 1 sample_dir (NodeName ''f'') [2] 7 2 sample = Inr (n, db')"
    using ok_pair by blast
  with put_file_keeps_books [OF sample_sound sample_home this] show ?thesis by blast
qed

text \<open>
  C4. Moving or renaming a live node into a live directory of its account keeps the database
  sound, answers the node under its new name, and changes neither its bytes nor its kind.
\<close>

theorem rename_keeps_node:
  assumes "sound db" and "n \<in> set (nodes db)" "live n" and "dir \<in> set (nodes db)" "live dir"
    and "n_owner dir = n_owner n" and "rename C now n dir name db = Inr (m, db')"
  shows "sound db' \<and> child (n_id dir) name db' = Some m \<and> n_id m = n_id n \<and> n_blob m = n_blob n
    \<and> n_size m = n_size n \<and> n_kind m = n_kind n"
  using rename_sound [OF assms] by blast

theorem rename_keeps_node_witness:
  "\<exists>m db'. rename sample_crates 5 sample_file sample_root (NodeName ''g'') sample = Inr (m, db')
     \<and> sound db' \<and> child 10 (NodeName ''g'') db' = Some m \<and> n_blob m = Some [1]"
proof -
  have "\<not> isl (rename sample_crates 5 sample_file sample_root (NodeName ''g'') sample)" by code_simp
  then obtain m db' where r: "rename sample_crates 5 sample_file sample_root (NodeName ''g'') sample = Inr (m, db')"
    using ok_pair by blast
  show ?thesis
    using rename_keeps_node [OF sample_sound _ _ _ _ _ r] r
    by (simp add: sample_nodes sample_rows live_def)
qed

text \<open>
  C5. Copying a tree always comes to an end: the turns allowed for are enough on every sound
  database, whatever the tree looks like.
\<close>

theorem copy_tree_ends:
  assumes "sound db" and "source \<in> set (nodes db)" and "home owner (n_id dir) db" and "dir \<in> set (nodes db)"
  shows "\<exists>r. copy_tree C now owner source dir name db = Some r"
proof -
  have "live dir" "n_owner dir = owner"
    using assms(3) by (simp_all add: home_def sound_find [OF assms(1,4)])
  with copy_tree_returns [OF assms(1,2,4)] show ?thesis by auto
qed

theorem copy_tree_ends_witness:
  "\<exists>r. copy_tree sample_crates 5 1 sample_dir sample_root (NodeName ''b'') sample = Some r"
  by (rule copy_tree_ends [OF sample_sound]) (code_simp, code_simp, code_simp)

text \<open>
  C6. A copy mirrors its source: every path, followed from the copy in the new database, answers
  what it answers from the source in the old one, a copy of the same node or the same error. The
  database stays sound and the rows that were there are untouched.
\<close>

theorem copy_tree_faithful:
  assumes "sound db" and "source \<in> set (nodes db)" and "home owner (n_id dir) db"
    and "copy_tree C now owner source dir name db = Some (Inr (root, db'))"
  shows "sound db' \<and> child (n_id dir) name db' = Some root
    \<and> answers_alike C (resolve source path db) (resolve root path db')
    \<and> take (length (nodes db)) (nodes db') = nodes db"
  using copy_tree_sound [OF assms] copy_tree_mirrors [OF assms] by auto

theorem copy_tree_faithful_witness:
  "\<exists>root db'. copy_tree sample_crates 5 1 sample_dir sample_root (NodeName ''b'') sample = Some (Inr (root, db'))
     \<and> sound db' \<and> answers_alike sample_crates (resolve sample_dir [NodeName ''f''] sample)
         (resolve root [NodeName ''f''] db')"
proof -
  have "(case copy_tree sample_crates 5 1 sample_dir sample_root (NodeName ''b'') sample of
      Some r \<Rightarrow> \<not> isl r | None \<Rightarrow> False)" by code_simp
  then obtain root db' where c: "copy_tree sample_crates 5 1 sample_dir sample_root (NodeName ''b'') sample
      = Some (Inr (root, db'))" using ok_pair by (fastforce split: option.splits)
  have "sample_dir \<in> set (nodes sample)" "home 1 (n_id sample_root) sample" by code_simp+
  from copy_tree_faithful [OF sample_sound this c] c show ?thesis by blast
qed

text \<open>
  C7. Sending a node to the trash and restoring it gives back the very database it started from,
  when the account is within its quota.
\<close>

theorem restore_undoes_send:
  assumes "sound db" and "n \<in> set (nodes db)" "live n"
    and "\<And>q. q \<in> set (quotas db) \<Longrightarrow> q_owner q = n_owner n \<Longrightarrow> q_used q \<le> q_max q"
    and "send now n db = Inr db1"
  shows "restore (n_owner n) (n_id n) db1 = Inr (n, db)"
  by (rule send_restore [OF assms])

theorem restore_undoes_send_witness:
  "\<exists>db1. send 5 sample_dir sample = Inr db1 \<and> restore 1 11 db1 = Inr (sample_dir, sample)"
proof -
  have "\<not> isl (send 5 sample_dir sample)" by code_simp
  then obtain db1 where s: "send 5 sample_dir sample = Inr db1" using ok_result by blast
  have "n_owner sample_dir = 1" "n_id sample_dir = 11" "sample_dir \<in> set (nodes sample)" "live sample_dir"
    by (simp_all add: sample_nodes sample_rows live_def)
  moreover have "q_used q \<le> q_max q" if "q \<in> set (quotas sample)" for q
    using that by (simp add: sample_def empty_db_def)
  ultimately show ?thesis using restore_undoes_send [OF sample_sound _ _ _ s] s by auto
qed

text \<open>
  C8. Restoring from the trash, with the ancestors that were trashed after it, keeps the database
  sound and answers the node, live again and with its owner unchanged.
\<close>

theorem restore_revives:
  assumes "sound db" and "restore owner i db = Inr (n, db')"
  shows "sound db' \<and> n \<in> set (nodes db') \<and> n_id n = i \<and> live n \<and> n_owner n = owner"
  using restore_sound [OF assms] by blast

text \<open>The account with its file in the trash, and then its directory on top of it.\<close>

definition trashed_file :: db where
  "trashed_file = projr (send 5 sample_file sample)"

definition trashed_both :: db where
  "trashed_both = projr (send 6 sample_dir trashed_file)"

lemma trashed_file_sound: "sound trashed_file"
proof -
  have "\<not> isl (send 5 sample_file sample)" by code_simp
  then have "send 5 sample_file sample = Inr trashed_file" by (simp add: trashed_file_def)
  moreover have "sample_file \<in> set (nodes sample)" "live sample_file" by code_simp+
  ultimately show ?thesis using send_sound [OF sample_sound] by blast
qed

lemma trashed_both_sound: "sound trashed_both"
proof -
  have "\<not> isl (send 6 sample_dir trashed_file)" by code_simp
  then have "send 6 sample_dir trashed_file = Inr trashed_both" by (simp add: trashed_both_def)
  moreover have "sample_dir \<in> set (nodes trashed_file)" "live sample_dir" by code_simp+
  ultimately show ?thesis using send_sound [OF trashed_file_sound] by blast
qed

theorem restore_revives_witness:
  "\<exists>n db'. restore 1 12 trashed_both = Inr (n, db') \<and> sound db' \<and> live n \<and> n_id n = 12"
proof -
  have "\<not> isl (restore 1 12 trashed_both)" by code_simp
  then obtain n db' where r: "restore 1 12 trashed_both = Inr (n, db')" using ok_pair by blast
  from restore_revives [OF trashed_both_sound r] r show ?thesis by blast
qed

text \<open>
  C9. Purging takes the batch named and everything below it, and nothing else; what it held is
  released, so the database stays sound.
\<close>

theorem purge_exact:
  assumes "sound db" and "purge now owner i db = Inr db'"
  shows "sound db' \<and> nodes db' = filter (\<lambda>m. (n_id m, i) \<notin> (below all_rows (nodes db))\<^sup>*) (nodes db)"
  using purge_sound [OF assms] by blast

theorem purge_exact_witness: "\<exists>db'. purge 9 1 11 trashed_both = Inr db' \<and> sound db'"
proof -
  have "\<not> isl (purge 9 1 11 trashed_both)" by code_simp
  then obtain db' where p: "purge 9 1 11 trashed_both = Inr db'" using ok_result by blast
  from purge_exact [OF trashed_both_sound p] p show ?thesis by blast
qed

text \<open>
  C13. A check that repairs leaves nothing to repair: every count and every usage then agrees with
  the rows, and no node or version was touched.
\<close>

theorem repair_settles:
  assumes "run_check C reads now opts db = Inr (f, db')" and "do_repair opts"
  shows "wrong_counts db' = [] \<and> wrong_usages db' = [] \<and> nodes db' = nodes db \<and> versions db' = versions db
    \<and> f_wrong_counts f = [] \<and> f_wrong_usage f = [] \<and> repaired f"
proof -
  from assms obtain g where g: "inspect_all C reads (verify_content opts) (wanted db)
      \<lparr>missing = [], corrupt = [], f_wrong_counts = wrong_counts db,
        f_wrong_usage = wrong_usages db, checked_blobs = length (wanted db), repaired = False\<rparr> = Inr g"
    and f: "f = g\<lparr>f_wrong_counts := [], f_wrong_usage := [], repaired := True\<rparr>" "db' = repair now g db"
    by (auto simp: run_check_def rbind_eq_Inr)
  have "f_wrong_counts g = wrong_counts db" "f_wrong_usage g = wrong_usages db"
    using inspect_all_rows [OF g] by simp_all
  from repair_balances [OF this f(2)] f(1) show ?thesis by simp
qed

theorem repair_settles_witness:
  "\<exists>f db'. run_check sample_crates (\<lambda>h. Inr []) 5 \<lparr>verify_content = False, do_repair = True\<rparr>
      (sample\<lparr>quotas := [\<lparr>q_owner = 1, q_used = 9, q_max = 1000\<rparr>]\<rparr>) = Inr (f, db') \<and> wrong_usages db' = []"
proof -
  let ?db = "sample\<lparr>quotas := [\<lparr>q_owner = 1, q_used = 9, q_max = 1000\<rparr>]\<rparr>"
  let ?o = "\<lparr>verify_content = False, do_repair = True\<rparr>"
  have "\<not> isl (run_check sample_crates (\<lambda>h. Inr []) 5 ?o ?db)" by code_simp
  then obtain f db' where r: "run_check sample_crates (\<lambda>h. Inr []) 5 ?o ?db = Inr (f, db')"
    using ok_pair by blast
  from repair_settles [OF r] r show ?thesis by auto
qed

text \<open>
  C14. A lookup never leaves what the caller may see: it answers a live node of the caller's own
  account, or one at or below a node granted to the caller's address, and it says writable only of
  what the caller may change. All it may add is the caller's own root.
\<close>

theorem locate_confined:
  assumes "sound db" and "locate C now caller path quota db = Inr (place, db')"
  shows "sound db' \<and> (\<exists>ns. nodes db' = nodes db @ ns)
    \<and> (\<forall>n. place = Own n \<or> (\<exists>m b. place = Shared n m b) \<longrightarrow>
         n \<in> set (nodes db') \<and> live n \<and> may_see caller n db'
         \<and> (writable place \<longrightarrow> may_change caller n db'))"
  using locate_sound [OF assms]
  by (cases place) (auto simp: may_see_def may_change_def may_write_access_iff)

theorem locate_confined_witness:
  "\<exists>n m b db'. locate sample_crates 5 sample_guest [NodeName ''Shared with me'', NodeName ''a'', NodeName ''f'']
      1000 shared = Inr (Shared n m b, db') \<and> may_change sample_guest n db'"
proof -
  let ?r = "locate sample_crates 5 sample_guest [NodeName ''Shared with me'', NodeName ''a'', NodeName ''f''] 1000 shared"
  have "(case ?r of Inr (Shared n m b, db') \<Rightarrow> m_access m = Write | _ \<Rightarrow> False)" by code_simp
  then obtain n m b db' where r: "?r = Inr (Shared n m b, db')" "m_access m = Write"
    by (auto split: sum.splits prod.splits place.splits)
  from locate_confined [OF shared_sound r(1)] r show ?thesis by (auto simp: may_write_access_iff)
qed

text \<open>
  C15. The directory a write goes to is a live directory the caller may change, whether it was
  there or was created on the way; no grant is changed, and rows are only added.
\<close>

theorem write_confined:
  assumes "sound db" and "directory_for_write C now caller path create quota db = Inr (dir, db')"
  shows "sound db' \<and> (\<exists>ns. nodes db' = nodes db @ ns) \<and> grants db' = grants db \<and> dir \<in> set (nodes db')
    \<and> live dir \<and> n_kind dir = Directory \<and> may_change caller dir db'"
  using directory_for_write_sound [OF assms] by simp

theorem write_confined_witness:
  "\<exists>dir db'. directory_for_write sample_crates 5 sample_guest
      [NodeName ''Shared with me'', NodeName ''a'', NodeName ''new''] True 1000 shared = Inr (dir, db')
     \<and> may_change sample_guest dir db'"
proof -
  let ?r = "directory_for_write sample_crates 5 sample_guest
      [NodeName ''Shared with me'', NodeName ''a'', NodeName ''new''] True 1000 shared"
  have "\<not> isl ?r" by code_simp
  then obtain dir db' where r: "?r = Inr (dir, db')" using ok_pair by blast
  from write_confined [OF shared_sound r] r show ?thesis by blast
qed

text \<open>
  C16. A grant is refused when it overlaps what its address already reaches: one that is made neither
  contains nor lies in anything the address has from the same account. Where no two grants overlapped,
  none do after it. (An owner can nest them later, by moving one granted folder into another.)
\<close>

theorem give_refuses_nesting:
  assumes "sound db" and "n \<in> set (nodes db)" and "give now owner n grantee acc db = Inr (view, db')"
  shows "sound db' \<and> (\<exists>g. grants db' = grants db @ [g] \<and> g_node g = n_id n \<and> g_email g = grantee \<and> g_access g = acc
      \<and> list_all (\<lambda>h. \<not> overlap db' g h \<and> \<not> overlap db' h g) (grants db))
    \<and> (unnested db \<longrightarrow> unnested db')"
proof -
  note n = sound_find [OF assms(1,2)]
  from give_apart [OF n assms(3)] have "\<exists>g. grants db' = grants db @ [g] \<and> g_node g = n_id n \<and> g_email g = grantee
      \<and> g_access g = acc \<and> list_all (\<lambda>h. \<not> overlap db' g h \<and> \<not> overlap db' h g) (grants db)" by metis
  with give_sound [OF assms(3)] give_unnested [OF _ n assms(3)] assms(1) show ?thesis by simp
qed

theorem give_refuses_nesting_witness:
  "\<exists>view db'. give 5 sample_user sample_dir ''eve@example.com'' Read shared = Inr (view, db')
     \<and> unnested db' \<and> length (grants db') = 2"
proof -
  have "\<not> isl (give 5 sample_user sample_dir ''eve@example.com'' Read shared)" by code_simp
  then obtain view db' where g: "give 5 sample_user sample_dir ''eve@example.com'' Read shared = Inr (view, db')"
    using ok_pair by blast
  have "unnested shared" "sample_dir \<in> set (nodes shared)" "length (grants shared) = 1" by code_simp+
  with give_refuses_nesting [OF shared_sound this(2) g] have "unnested db'" "length (grants db') = 2" by auto
  with g show ?thesis by blast
qed

text \<open>
  C17. When an address changes, everything it reached is reached by the new address, with at least
  the same access, and nothing is left under the old one.
\<close>

theorem reassign_moves_all:
  assumes "reassign previous new db = Inr db'" and "previous \<noteq> new" and "grants_ok db"
  shows "(\<forall>g\<in>set (grants db). g_email g = previous \<longrightarrow> reaches_as new g db')
    \<and> (\<forall>h\<in>set (grants db'). g_email h \<noteq> previous)"
  using reassign_keeps_reach [OF assms] by blast

theorem reassign_moves_all_witness:
  "\<exists>db'. reassign ''bob@example.com'' ''rob@example.com'' shared = Inr db'
     \<and> reaches_as ''rob@example.com'' sample_grant db'"
proof -
  have "\<not> isl (reassign ''bob@example.com'' ''rob@example.com'' shared)" by code_simp
  then obtain db' where r: "reassign ''bob@example.com'' ''rob@example.com'' shared = Inr db'"
    using ok_result by blast
  have "grants_ok shared" "sample_grant \<in> set (grants shared)" by code_simp+
  moreover have "g_email sample_grant = ''bob@example.com''" by (simp add: sample_grant_def)
  ultimately show ?thesis using reassign_moves_all [OF r] r by auto
qed

text \<open>
  The name a grant is mounted under is one its address does not use yet, and it stays within
  the length of a name as long as there are fewer than a billion grants; when it is not the name
  wanted, it is a prefix of it, cut at a character boundary, and a number.
\<close>

theorem mount_name_fits:
  assumes "length want \<le> MAX_NAME_LEN" and "length (grants db) < 10 ^ 9"
  shows "(\<forall>g\<in>set (grants db). g_email g = grantee \<longrightarrow> g_mount_name g \<noteq> free_mount_name grantee want db)
    \<and> length (free_mount_name grantee want db) \<le> MAX_NAME_LEN
    \<and> (free_mount_name grantee want db = want
       \<or> (\<exists>cut k. is_char_boundary want cut
            \<and> free_mount_name grantee want db = take cut want @ '' ('' @ decimal k @ '')''))"
proof (intro conjI)
  show "\<forall>g\<in>set (grants db). g_email g = grantee \<longrightarrow> g_mount_name g \<noteq> free_mount_name grantee want db"
    using free_mount_name_free by blast
  show "length (free_mount_name grantee want db) \<le> MAX_NAME_LEN"
    by (rule free_mount_name_length [OF assms])
  have "\<exists>cut. is_char_boundary want cut \<and> numbered want k = take cut want @ '' ('' @ decimal k @ '')''" for k
    unfolding numbered_def Let_def using floor_boundary_boundary by blast
  then show "free_mount_name grantee want db = want
       \<or> (\<exists>cut k. is_char_boundary want cut
            \<and> free_mount_name grantee want db = take cut want @ '' ('' @ decimal k @ '')'')"
    using free_mount_name_shape [of grantee want db] by metis
qed

theorem mount_name_fits_witness:
  "free_mount_name ''bob@example.com'' ''a'' shared \<noteq> ''a''
   \<and> length (free_mount_name ''bob@example.com'' ''a'' shared) \<le> MAX_NAME_LEN"
proof -
  have "length ''a'' \<le> MAX_NAME_LEN" "length (grants shared) < 10 ^ 9"
    by (simp_all add: MAX_NAME_LEN_def shared_def)
  note f = mount_name_fits [OF this, of "''bob@example.com''"]
  have "\<exists>g\<in>set (grants shared). g_email g = ''bob@example.com'' \<and> g_mount_name g = ''a''" by code_simp
  with f show ?thesis by metis
qed

text \<open>
  C19. A delete that frees anything succeeds only if it leaves the account within its quota: an
  account whose quota was lowered below what it holds cannot free part of the excess.
\<close>

theorem delete_needs_room:
  assumes "quotas_ok db" and "send now n db = Inr db'" and "used db' (n_owner n) \<noteq> used db (n_owner n)"
    and "find_quota (n_owner n) db = Some q"
  shows "used db' (n_owner n) \<le> q_max q"
proof -
  from assms(2) obtain d db1 where st: "store_nodes (trash_rows now (n_id n) d (nodes db)) db = Inr db1"
    and ch: "\<exists>e. charge_quota (n_owner n) e db1 = Inr db'"
    by (auto simp: send_def Let_def rbind_eq_Inr)
  from st have "quotas db1 = quotas db" by (auto simp: store_nodes_eq_Inr)
  then have q: "quotas_ok db1" "used db1 = used db" "find_quota (n_owner n) db1 = Some q"
    using assms(1,4) by (simp_all add: quotas_ok_def find_quota_def used_def fun_eq_iff)
  from ch obtain e where e: "charge_quota (n_owner n) e db1 = Inr db'" by blast
  have "e \<noteq> 0" using e assms(3) q(2) by (auto simp: charge_quota_def)
  with e obtain q' where "q' \<in> set (quotas db1)" "q_owner q' = n_owner n" "q_used q' + e \<le> q_max q'"
    by (auto simp: charge_quota_def Let_def list_ex_iff split: if_splits)
  moreover have "find_quota (q_owner q') db1 = Some q'"
    using find_quota_eq q(1) calculation(1) unfolding quotas_ok_def by blast
  moreover have "used db' (n_owner n) = used db1 (n_owner n) + e"
    using charge_quota_used [OF q(1) e] by simp
  ultimately show ?thesis using q(3) by (auto simp: used_def)
qed

text \<open>The account after its quota was lowered to three bytes while its file holds five.\<close>

definition fuller :: db where
  "fuller = snd (projr (put_file sample_crates 5 1 sample_root (NodeName ''g'') [2] 4 2 sample))"

definition squeezed :: "int \<Rightarrow> db" where
  "squeezed limit = fuller\<lparr>quotas := [\<lparr>q_owner = 1, q_used = 9, q_max = limit\<rparr>]\<rparr>"

lemma fuller_sound: "sound fuller"
proof -
  have "\<not> isl (put_file sample_crates 5 1 sample_root (NodeName ''g'') [2] 4 2 sample)" by code_simp
  then obtain n db' where p: "put_file sample_crates 5 1 sample_root (NodeName ''g'') [2] 4 2 sample = Inr (n, db')"
    using ok_pair by blast
  have "home 1 (n_id sample_root) sample" by code_simp
  from put_file_sound(1) [OF sample_sound this p] p show ?thesis by (simp add: fuller_def)
qed

lemma squeezed_sound: "sound (squeezed 3)"
proof -
  have "tree_ok (squeezed 3)" using fuller_sound by (simp add: sound_def tree_ok_def squeezed_def)
  moreover have "schema_ok (squeezed 3)" "thumbnails_ok (squeezed 3)" "books_balance (squeezed 3)" by code_simp+
  ultimately show ?thesis using books_balance_iff by (simp add: sound_def)
qed

theorem delete_needs_room_witness:
  "sound (squeezed 3) \<and> sample_file \<in> set (nodes (squeezed 3))
   \<and> send 6 sample_file (squeezed 3) = Inl QuotaExceeded
   \<and> (\<exists>db'. send 6 sample_file (squeezed 4) = Inr db' \<and> used db' (n_owner sample_file) \<le> 4)"
proof (intro conjI)
  show "sound (squeezed 3)" by (rule squeezed_sound)
  show "sample_file \<in> set (nodes (squeezed 3))" by code_simp
  have "case send 6 sample_file (squeezed 3) of Inl e \<Rightarrow> e = QuotaExceeded | Inr _ \<Rightarrow> False" by code_simp
  then show "send 6 sample_file (squeezed 3) = Inl QuotaExceeded" by (simp split: sum.splits)
  have "case send 6 sample_file (squeezed 4) of
      Inr db' \<Rightarrow> used db' (n_owner sample_file) \<noteq> used (squeezed 4) (n_owner sample_file) | Inl _ \<Rightarrow> False" by code_simp
  then obtain db' where s: "send 6 sample_file (squeezed 4) = Inr db'"
    and u: "used db' (n_owner sample_file) \<noteq> used (squeezed 4) (n_owner sample_file)"
    by (auto split: sum.splits)
  have q: "quotas_ok (squeezed 4)" by code_simp
  have f: "find_quota (n_owner sample_file) (squeezed 4) = Some \<lparr>q_owner = 1, q_used = 9, q_max = 4\<rparr>" by code_simp
  from delete_needs_room [OF q s u f] s
  show "\<exists>db'. send 6 sample_file (squeezed 4) = Inr db' \<and> used db' (n_owner sample_file) \<le> 4" by auto
qed

end
